(* ===== verification/Prelude.thy ===== *)
theory Prelude
  imports Main "HOL-Library.Word"
begin

text \<open>
  Shared vocabulary of the development: the machine integers of the C++ sources, the
  error values that stand for assertion failures and undefined behaviour, and the
  generic lemmas on exclusive-or, bits and lists that every component uses.

  The named collections are \<open>xor_simps\<close> (normalisation of exclusive-or, which is the
  addition of every algebraic structure below), \<open>gf2_eval\<close> (evaluation of binary
  polynomials on ground terms), \<open>poly_eval\<close> (evaluation of circuit polynomials) and
  \<open>gadget_defs\<close> (the constraints and the witness code of the gadgets).
\<close>

unbundle bit_operations_syntax

named_theorems xor_simps \<open>normalisation of exclusive-or\<close>
named_theorems gf2_eval \<open>evaluation of binary polynomials on numerals\<close>
named_theorems poly_eval \<open>evaluation homomorphisms of the polynomial classes\<close>
named_theorems gadget_defs \<open>unfolding of gadget constraints and witnesses\<close>

section \<open>Machine integers and failure values\<close>

text \<open>\<open>cell_t\<close> and \<open>size_t\<close> are both 64 bits wide on the supported targets.\<close>

type_synonym cell_t = "64 word"
type_synonym size_t = "64 word"

text \<open>
  What a C++ call can do besides returning: fail an \<open>_COMMON_ASSERT\<close>,
  \<open>GADGETLIB_ASSERT\<close> or \<open>assert\<close> (the program stops), reach \<open>_COMMON_FATAL\<close>,
  throw \<open>std::out_of_range\<close> from \<open>at\<close>, access memory outside an array, or use a
  value that was never written (the default constructor of \<open>FFF::Element\<close> leaves its
  cells uninitialised).
\<close>

datatype failure = AssertFailed | Fatal | OutOfRange | OutOfBounds | Indeterminate

text \<open>Sequencing of calls that may fail: the first failure ends the computation.\<close>

type_synonym 'a result = "failure + 'a"

definition res_bind :: "'a result \<Rightarrow> ('a \<Rightarrow> 'b result) \<Rightarrow> 'b result" where
  "res_bind r f = (case r of Inl e \<Rightarrow> Inl e | Inr x \<Rightarrow> f x)"

lemma res_bind_simps [simp]: "res_bind (Inl e) f = Inl e" "res_bind (Inr x) f = f x"
  by (simp_all add: res_bind_def)

lemma res_bind_eq_Inr: "res_bind r f = Inr y \<longleftrightarrow> (\<exists>x. r = Inr x \<and> f x = Inr y)"
  by (cases r) simp_all

lemma res_bind_cong [fundef_cong]:
  "r = r' \<Longrightarrow> (\<And>x. r' = Inr x \<Longrightarrow> f x = g x) \<Longrightarrow> res_bind r f = res_bind r' g"
  by (cases r') simp_all

definition res_map :: "('a \<Rightarrow> 'b) \<Rightarrow> 'a result \<Rightarrow> 'b result" where
  "res_map f r = res_bind r (\<lambda>x. Inr (f x))"

lemma res_map_simps [simp]: "res_map f (Inl e) = Inl e" "res_map f (Inr x) = Inr (f x)"
  by (simp_all add: res_map_def)

lemma res_map_eq_Inr: "res_map f r = Inr y \<longleftrightarrow> (\<exists>x. r = Inr x \<and> f x = y)"
  by (cases r) simp_all

text \<open>A loop that collects the results of a list of calls.\<close>

fun res_list :: "'a result list \<Rightarrow> 'a list result" where
  "res_list [] = Inr []"
| "res_list (r # rs) = res_bind r (\<lambda>x. res_map ((#) x) (res_list rs))"

lemma res_list_eq_Inr: "res_list rs = Inr xs \<longleftrightarrow> rs = map Inr xs"
  by (induction rs arbitrary: xs) (auto simp: res_bind_eq_Inr res_map_eq_Inr Cons_eq_map_conv)

lemma res_list_map_Inr [simp]: "res_list (map (\<lambda>x. Inr (f x)) xs) = Inr (map f xs)"
  by (simp add: res_list_eq_Inr)

section \<open>Exclusive-or\<close>

lemma xor_left_self [simp]: "a XOR (a XOR b) = b" for a b :: "'a::semiring_bit_operations"
  by (simp flip: xor.assoc)

lemmas xor_ac [xor_simps] = xor.assoc xor.commute xor.left_commute

lemma xor_eq_0_iff: "a XOR b = 0 \<longleftrightarrow> a = b" for a b :: "'a::semiring_bit_operations"
  by (metis xor.right_neutral xor_left_self xor_self_eq)

lemma xor_double: "2 * (a XOR b) = (2 * a) XOR (2 * b)" for a b :: nat
  using push_bit_xor [of 1 a b] by (simp add: push_bit_eq_mult mult.commute)

lemma xor_div2: "(a XOR b) div 2 = (a div 2) XOR (b div 2)" for a b :: nat
  using drop_bit_xor [of 1 a b] by (simp add: drop_bit_eq_div)

lemma xor_less_2p: "a < 2 ^ n \<Longrightarrow> b < 2 ^ n \<Longrightarrow> a XOR b < 2 ^ n" for a b :: nat
  by (metis take_bit_nat_eq_self_iff take_bit_xor)

lemma double_xor_1: "2 * a XOR 1 = 2 * a + 1" for a :: nat
  by (subst xor_nat_rec) simp

section \<open>Bits of natural numbers\<close>

lemma bin_split: "a = (if odd a then 1 else 0) XOR 2 * (a div 2)" for a :: nat
proof (rule bit_eqI)
  fix n
  show "bit a n = bit ((if odd a then 1 else 0) XOR 2 * (a div 2)) n"
    by (cases n) (auto simp: bit_0 bit_Suc xor_div2 even_xor_iff)
qed

lemma bit_ge: "bit a n \<Longrightarrow> 2 ^ n \<le> a" for a :: nat
  by (metis bit_take_bit_iff leI less_irrefl take_bit_nat_eq_self)

lemma not_bit_less: "a < 2 ^ n \<Longrightarrow> n \<le> m \<Longrightarrow> \<not> bit a m" for a :: nat
  using bit_ge [of a m] power_increasing [of n m "2::nat"] by linarith

lemma top_bit_ex: "0 < a \<Longrightarrow> \<exists>n. bit a n \<and> a < 2 ^ Suc n" for a :: nat
proof -
  assume "0 < a"
  then obtain n where "2 ^ n \<le> a" "a < 2 ^ Suc n" using ex_power_ivl1 [of 2 a] by auto
  then have "a div 2 ^ n = 1" by (simp add: div_nat_eqI)
  then have "bit a n" by (simp add: bit_iff_odd)
  with \<open>a < _\<close> show ?thesis by blast
qed

lemma unat_xor: "unat (a XOR b) = unat a XOR unat b" for a b :: "'a::len word"
  by (simp add: unsigned_xor_eq)

lemma unat_less_64: "unat a < 2 ^ 64" for a :: "64 word"
  by (rule order.strict_trans2 [OF unsigned_less]) simp

lemma and_push_bit_1: "a AND push_bit n 1 = 0 \<longleftrightarrow> \<not> bit a n" for a :: "'a::len word"
  by (simp add: and_exp_eq_0_iff_not_bit)

lemma bit_unat: "bit (unat a) n = bit a n" for a :: "'a::len word"
  by (simp add: bit_unsigned_iff)

lemma pow2_mult_push_bit: "2 ^ n * a = push_bit n a" for a :: nat
  by (simp add: push_bit_eq_mult)

lemma take_bit_join: "take_bit n (a XOR 2 ^ n * b) = take_bit n a" for a b :: nat
  unfolding pow2_mult_push_bit by (rule bit_eqI) (auto simp: bit_simps)

lemma drop_bit_join: "drop_bit n (a XOR 2 ^ n * b) = drop_bit n a XOR b" for a b :: nat
  unfolding pow2_mult_push_bit by (rule bit_eqI) (auto simp: bit_simps)

lemma drop_bit_less: "a < 2 ^ (n + m) \<Longrightarrow> drop_bit n a < 2 ^ m" for a :: nat
  by (simp add: drop_bit_eq_div less_mult_imp_div_less power_add mult.commute)

lemma drop_bit_0_less: "a < 2 ^ n \<Longrightarrow> drop_bit n a = 0" for a :: nat
  by (simp add: drop_bit_eq_div)

lemma drop_bit_pow2_mult: "m \<le> n \<Longrightarrow> drop_bit n (2 ^ m * a) = drop_bit (n - m) a" for a :: nat
  unfolding pow2_mult_push_bit by (rule bit_eqI) (auto simp: bit_simps)

text \<open>
  Two additive functions that agree on the powers of two below \<open>2 ^ n\<close> agree on every
  number below \<open>2 ^ n\<close>: linear maps over the two-element field are determined by a basis.
\<close>

lemma additive_ext:
  fixes f g :: "nat \<Rightarrow> nat"
  assumes f: "\<And>a b. f (a XOR b) = f a XOR f b" and g: "\<And>a b. g (a XOR b) = g a XOR g b"
    and basis: "\<And>i. i < n \<Longrightarrow> f (2 ^ i) = g (2 ^ i)" and "a < 2 ^ n"
  shows "f a = g a"
  using assms(3,4)
proof (induction n arbitrary: a)
  case 0
  have "f 0 = 0" "g 0 = 0" using f [of 0 0] g [of 0 0] by simp_all
  with 0 show ?case by simp
next
  case (Suc n)
  define b where "b = take_bit n a"
  have b: "f b = g b" unfolding b_def using Suc by simp
  have "a = (if bit a n then 2 ^ n else 0) XOR b"
  proof (rule bit_eqI)
    fix m
    have "bit a m \<Longrightarrow> m < Suc n" using Suc.prems(2) not_bit_less not_less by blast
    then show "bit a m = bit ((if bit a n then 2 ^ n else 0) XOR b) m"
      by (cases "m = n") (auto simp: b_def bit_simps less_Suc_eq)
  qed
  moreover have "f ((if bit a n then 2 ^ n else 0) XOR b) = g ((if bit a n then 2 ^ n else 0) XOR b)"
    using Suc.prems(1) [of n] f [of 0 0] g [of 0 0] by (auto simp: f g b)
  ultimately show ?case by simp
qed

end
