(* ===== verification/Gf2Poly.thy ===== *)
theory Gf2Poly
  imports Prelude
begin

text \<open>
  Polynomials over the two-element field, as natural numbers: bit \<open>i\<close> is the coefficient
  of \<open>x ^ i\<close>, addition is exclusive-or and \<open>pmul\<close> is the carry-less product. This is the
  mathematical side of the class \<open>FFF::Element\<close>; theory \<open>Element\<close> relates the C++
  code to it and theory \<open>Modulus\<close> reduces modulo the library's polynomial.
\<close>

unbundle bit_operations_syntax

section \<open>The carry-less product\<close>

fun pmul :: "nat \<Rightarrow> nat \<Rightarrow> nat" where
  "pmul a b = (if a = 0 then 0 else (if odd a then b else 0) XOR 2 * pmul (a div 2) b)"

declare pmul.simps [simp del]

lemma pmul_0 [simp]: "pmul 0 b = 0"
  by (simp add: pmul.simps)

lemma pmul_rec: "pmul a b = (if odd a then b else 0) XOR 2 * pmul (a div 2) b"
  by (cases "a = 0") (simp_all add: pmul.simps [of a])

lemma pmul_0_right [simp]: "pmul a 0 = 0"
  by (induction a rule: less_induct) (simp add: pmul.simps)

lemma pmul_double: "pmul (2 * a) b = 2 * pmul a b"
  by (subst pmul_rec) simp

lemma pmul_xor_left: "pmul (a XOR b) c = pmul a c XOR pmul b c"
proof (induction a arbitrary: b rule: less_induct)
  case (less a)
  show ?case
  proof (cases "a = 0")
    case False
    then have IH: "pmul ((a div 2) XOR (b div 2)) c = pmul (a div 2) c XOR pmul (b div 2) c"
      using less by simp
    show ?thesis
      by (subst (1 2 3) pmul_rec)
        (auto simp: xor_div2 even_xor_iff IH xor_double xor_simps)
  qed simp
qed

lemma pmul_xor_right: "pmul a (b XOR c) = pmul a b XOR pmul a c"
proof (induction a rule: less_induct)
  case (less a)
  show ?case
  proof (cases "a = 0")
    case False
    then have IH: "pmul (a div 2) (b XOR c) = pmul (a div 2) b XOR pmul (a div 2) c"
      using less by simp
    show ?thesis
      by (subst (1 2 3) pmul_rec) (auto simp: IH xor_double xor_simps)
  qed simp
qed

lemma pmul_double_right: "pmul a (2 * b) = 2 * pmul a b"
proof (induction a rule: less_induct)
  case (less a)
  show ?case
  proof (cases "a = 0")
    case False
    then have "pmul (a div 2) (2 * b) = 2 * pmul (a div 2) b" using less by simp
    then show ?thesis by (subst (1 2) pmul_rec) (auto simp: xor_double)
  qed simp
qed

lemma pmul_1 [simp]: "pmul (Suc 0) b = b"
  by (subst pmul_rec) simp

lemma pmul_1_right [simp]: "pmul a (Suc 0) = a"
proof (induction a rule: less_induct)
  case (less a)
  show ?case
  proof (cases "a = 0")
    case False
    then have "pmul (a div 2) (Suc 0) = a div 2" using less by simp
    then show ?thesis by (subst pmul_rec, subst (4) bin_split) simp
  qed simp
qed

lemma pmul_rec_right: "pmul a b = (if odd b then a else 0) XOR 2 * pmul a (b div 2)"
  by (subst (1) bin_split [of b]) (simp add: pmul_xor_right pmul_double_right)

lemma pmul_commute: "pmul a b = pmul b a"
proof (induction a rule: less_induct)
  case (less a)
  show ?case
  proof (cases "a = 0")
    case False
    then have IH: "pmul (a div 2) b = pmul b (a div 2)" using less by simp
    have "pmul a b = (if odd a then b else 0) XOR 2 * pmul (a div 2) b" by (rule pmul_rec)
    also have "\<dots> = pmul b a" unfolding IH by (rule pmul_rec_right [symmetric])
    finally show ?thesis .
  qed simp
qed

lemma pmul_assoc: "pmul (pmul a b) c = pmul a (pmul b c)"
proof (induction a rule: less_induct)
  case (less a)
  show ?case
  proof (cases "a = 0")
    case False
    then have IH: "pmul (pmul (a div 2) b) c = pmul (a div 2) (pmul b c)" using less by simp
    show ?thesis
      unfolding pmul_rec [of a b] pmul_rec [of a "pmul b c"]
      by (simp add: pmul_xor_left pmul_double IH)
  qed simp
qed

lemma pmul_pow2: "pmul (2 ^ n) a = 2 ^ n * a"
  by (induction n) (simp_all add: pmul_double mult.assoc)

lemma pmul_less: "a < 2 ^ m \<Longrightarrow> b < 2 ^ n \<Longrightarrow> pmul a b < 2 ^ (m + n - 1)"
proof (induction m arbitrary: a)
  case 0 then show ?case by simp
next
  case (Suc m)
  show ?case
  proof (cases "m = 0 \<or> n = 0")
    case True
    then show ?thesis
    proof
      assume "m = 0" with Suc.prems have "a = 0 \<or> a = 1" by auto
      with Suc.prems \<open>m = 0\<close> show ?thesis by auto
    next
      assume "n = 0" with Suc.prems show ?thesis by simp
    qed
  next
    case False
    have "pmul (a div 2) b < 2 ^ (m + n - 1)" using Suc by auto
    then have 1: "2 * pmul (a div 2) b < 2 ^ (Suc m + n - 1)"
      using False by (cases "m + n") auto
    have "b < 2 ^ (Suc m + n - 1)"
      using Suc.prems(2) by (rule less_le_trans) (simp add: power_increasing)
    with 1 show ?thesis by (subst pmul_rec) (auto intro!: xor_less_2p)
  qed
qed

lemma pmul_top_bit:
  "a < 2 ^ Suc m \<Longrightarrow> bit a m \<Longrightarrow> b < 2 ^ Suc n \<Longrightarrow> bit b n \<Longrightarrow> bit (pmul a b) (m + n)"
proof (induction m arbitrary: a)
  case 0
  then have "a = 1" by (cases a) (auto simp: bit_0)
  with 0 show ?case by simp
next
  case (Suc m)
  have "bit (pmul (a div 2) b) (m + n)"
    using Suc.prems by (intro Suc.IH) (auto simp: bit_Suc)
  then have 1: "bit (2 * pmul (a div 2) b) (Suc m + n)" by (simp add: bit_Suc)
  have "b < 2 ^ (Suc m + n)"
    using Suc.prems(3) by (rule less_le_trans) (simp add: power_increasing)
  then have "\<not> bit b (Suc m + n)" by (rule not_bit_less) simp
  with 1 show ?case by (subst pmul_rec) (simp add: bit_xor_iff)
qed

end
