(* ===== verification/Modulus.thy ===== *)
theory Modulus
  imports Gf2Poly
begin

text \<open>
  The modulus \<open>x^64 + x^4 + x^3 + x + 1\<close> of the library (\<open>irr_poly_index\<close> in
  \<open>Element.cpp\<close>) and congruence modulo it. The theory proves, from a ground certificate
  checked by the simplifier, that the only idempotents modulo it are 0 and 1, and that
  \<open>x\<close> is fixed by the 64-fold Frobenius map: the two facts that make the residue ring a
  field. The certificate is a left inverse of the linear map \<open>e \<mapsto> e^2 + e\<close> on the
  bits above bit 0, so it suffices to check it on the 64 powers of two.
\<close>

unbundle bit_operations_syntax

section \<open>Congruence modulo the field polynomial\<close>

definition irr :: nat where "irr = 2 ^ 64 + 27"

definition pcong :: "nat \<Rightarrow> nat \<Rightarrow> bool" where
  "pcong a b \<longleftrightarrow> (\<exists>q. a XOR b = pmul q irr)"

lemma irr_less: "irr < 2 ^ Suc 64" and irr_bit: "bit irr 64"
  by (simp_all add: irr_def bit_iff_odd)

lemma pcong_refl [simp]: "pcong a a"
  by (auto simp: pcong_def intro: exI [of _ 0])

lemma pcong_sym: "pcong a b \<Longrightarrow> pcong b a"
  by (simp add: pcong_def xor.commute)

lemma pcong_trans: "pcong a b \<Longrightarrow> pcong b c \<Longrightarrow> pcong a c"
  unfolding pcong_def
proof (elim exE)
  fix p q assume "a XOR b = pmul p irr" "b XOR c = pmul q irr"
  then have "(a XOR b) XOR (b XOR c) = pmul (p XOR q) irr" by (simp add: pmul_xor_left)
  then show "\<exists>q. a XOR c = pmul q irr" by (auto simp: xor_simps)
qed

lemma pcong_xor: "pcong a b \<Longrightarrow> pcong c d \<Longrightarrow> pcong (a XOR c) (b XOR d)"
  unfolding pcong_def
proof (elim exE)
  fix p q assume "a XOR b = pmul p irr" "c XOR d = pmul q irr"
  then have "(a XOR b) XOR (c XOR d) = pmul (p XOR q) irr" by (simp add: pmul_xor_left)
  then show "\<exists>q. (a XOR c) XOR (b XOR d) = pmul q irr" by (auto simp: xor_simps)
qed

lemma pcong_pmul_left: "pcong a b \<Longrightarrow> pcong (pmul a c) (pmul b c)"
  unfolding pcong_def
proof (elim exE)
  fix q assume "a XOR b = pmul q irr"
  then have "pmul a c XOR pmul b c = pmul (pmul q irr) c" by (metis pmul_xor_left)
  also have "\<dots> = pmul (pmul q c) irr" by (metis pmul_assoc pmul_commute)
  finally show "\<exists>q. pmul a c XOR pmul b c = pmul q irr" by blast
qed

lemma pcong_pmul: "pcong a b \<Longrightarrow> pcong c d \<Longrightarrow> pcong (pmul a c) (pmul b d)"
  by (metis pcong_pmul_left pcong_trans pmul_commute)

lemma pcong_irr: "pcong (pmul q irr) 0"
  by (auto simp: pcong_def)

lemma pcong_unique: "pcong a b \<Longrightarrow> a < 2 ^ 64 \<Longrightarrow> b < 2 ^ 64 \<Longrightarrow> a = b"
proof -
  assume "pcong a b" and a: "a < 2 ^ 64" and b: "b < 2 ^ 64"
  then obtain q where q: "a XOR b = pmul q irr" by (auto simp: pcong_def)
  have "q = 0"
  proof (rule ccontr)
    assume "q \<noteq> 0"
    then obtain n where "bit q n" "q < 2 ^ Suc n" using top_bit_ex by blast
    then have "bit (pmul q irr) (n + 64)" using irr_less irr_bit pmul_top_bit by blast
    then have "2 ^ (n + 64) \<le> a XOR b" using bit_ge q by metis
    moreover have "a XOR b < 2 ^ 64" using a b by (rule xor_less_2p)
    moreover have "(2::nat) ^ 64 \<le> 2 ^ (n + 64)" by (rule power_increasing) simp_all
    ultimately show False by linarith
  qed
  with q show ?thesis by (simp add: xor_eq_0_iff)
qed

lemma irr_xor: "irr = 2 ^ 64 XOR 27"
  by (simp add: irr_def)

lemma pmul_27: "pmul a 27 = a XOR 2 * a XOR 8 * a XOR 16 * a"
proof -
  have 27: "(27::nat) = 2 ^ 0 XOR 2 ^ 1 XOR 2 ^ 3 XOR 2 ^ 4" by simp
  show ?thesis unfolding pmul_commute [of a] 27 pmul_xor_left pmul_pow2 by simp
qed

lemma pmul_irr: "pmul a irr = 2 ^ 64 * a XOR pmul a 27"
  unfolding irr_xor pmul_xor_right by (metis pmul_commute pmul_pow2)

lemma pcong_fold: "pcong (2 ^ 64 * a) (pmul a 27)"
  unfolding pcong_def by (rule exI [of _ a]) (simp add: pmul_irr)

section \<open>Reduction\<close>

text \<open>One folding step replaces \<open>x^64\<close> by \<open>x^4 + x^3 + x + 1\<close>.\<close>

definition nfold :: "nat \<Rightarrow> nat" where
  "nfold a = take_bit 64 a XOR pmul (drop_bit 64 a) 27"

lemma split64: "a = take_bit 64 a XOR 2 ^ 64 * drop_bit 64 (a::nat)"
proof (rule bit_eqI)
  fix n
  have "2 ^ 64 * drop_bit 64 a = push_bit 64 (drop_bit 64 a)"
    by (simp only: push_bit_eq_mult mult.commute)
  then show "bit a n = bit (take_bit 64 a XOR 2 ^ 64 * drop_bit 64 a) n"
    by (auto simp: bit_simps simp del: push_bit_numeral)
qed

lemma pcong_nfold: "pcong (nfold a) a"
  unfolding nfold_def
  by (subst (3) split64) (intro pcong_xor pcong_refl pcong_sym [OF pcong_fold])

lemma nfold_xor: "nfold (a XOR b) = nfold a XOR nfold b"
  by (simp add: nfold_def pmul_xor_left xor_simps)

definition rmul :: "nat \<Rightarrow> nat \<Rightarrow> nat" where
  "rmul a b = nfold (nfold (pmul a b))"

lemma pcong_rmul: "pcong (rmul a b) (pmul a b)"
  unfolding rmul_def by (blast intro: pcong_trans pcong_nfold)

lemma nfold_less:
  assumes "a < 2 ^ (64 + m)" and "64 \<le> k" and "m + 4 \<le> k"
  shows "nfold a < 2 ^ k"
proof -
  have "drop_bit 64 a < 2 ^ m"
    using assms(1) by (simp add: drop_bit_eq_div less_mult_imp_div_less power_add mult.commute)
  then have "pmul (drop_bit 64 a) 27 < 2 ^ (m + 5 - 1)" by (rule pmul_less) simp
  then have "pmul (drop_bit 64 a) 27 < 2 ^ k"
    using assms(3) by (elim less_le_trans) (simp add: power_increasing)
  moreover have "take_bit 64 a < 2 ^ k"
    using take_bit_nat_less_exp [of 64 a] assms(2) by (elim less_le_trans) (rule power_increasing, simp_all)
  ultimately show ?thesis unfolding nfold_def by (intro xor_less_2p)
qed

lemma rmul_less: "a < 2 ^ 64 \<Longrightarrow> b < 2 ^ 64 \<Longrightarrow> rmul a b < 2 ^ 64"
proof -
  assume "a < 2 ^ 64" "b < 2 ^ 64"
  then have "pmul a b < 2 ^ (64 + 64 - 1)" by (rule pmul_less)
  then have "nfold (pmul a b) < 2 ^ (64 + 3)" by (intro nfold_less [where m = 63]) simp_all
  then show ?thesis unfolding rmul_def by (rule nfold_less) simp_all
qed

lemma rmul_unique: "pcong c (pmul a b) \<Longrightarrow> a < 2 ^ 64 \<Longrightarrow> b < 2 ^ 64 \<Longrightarrow> c < 2 ^ 64 \<Longrightarrow> c = rmul a b"
  by (meson pcong_rmul pcong_sym pcong_trans pcong_unique rmul_less)

section \<open>The certificate\<close>

text \<open>\<open>lin f k v\<close> adds up \<open>f (k + j)\<close> over the bits \<open>j\<close> of \<open>v\<close>: a matrix given by columns.\<close>

fun lin :: "(int \<Rightarrow> nat) \<Rightarrow> int \<Rightarrow> nat \<Rightarrow> nat" where
  "lin f k v = (if v = 0 then 0 else (if odd v then f k else 0) XOR lin f (k + 1) (v div 2))"

declare lin.simps [simp del]

lemma lin_rec: "lin f k v = (if odd v then f k else 0) XOR lin f (k + 1) (v div 2)"
  by (cases "v = 0") (simp_all add: lin.simps [of f k v] lin.simps [of f _ 0])

lemma lin_xor: "lin f k (a XOR b) = lin f k a XOR lin f k b"
proof (induction a arbitrary: b k rule: less_induct)
  case (less a)
  show ?case
  proof (cases "a = 0")
    case False
    then have IH: "lin f (k + 1) ((a div 2) XOR (b div 2)) = lin f (k + 1) (a div 2) XOR lin f (k + 1) (b div 2)"
      using less by simp
    show ?thesis
      unfolding lin_rec [of f k a] lin_rec [of f k b] lin_rec [of f k "a XOR b"]
      by (auto simp: xor_div2 even_xor_iff IH xor_simps)
  qed (simp add: lin.simps)
qed

lemma lin_numeral [simp]:
  "lin f k 0 = 0"
  "lin f k (Suc 0) = f k"
  "lin f k (numeral Num.One) = f k"
  "lin f k (numeral (Num.Bit0 n)) = lin f (k + 1) (numeral n)"
  "lin f k (numeral (Num.Bit1 n)) = f k XOR lin f (k + 1) (numeral n)"
  by (simp_all add: lin.simps)

definition cert :: "nat list" where
  "cert = [1858076378458151938, 9561900855309385444, 9561900855309385446, 11347809597230670838,
   9561900855309385442, 4018460688368531344, 11347809597230670846, 281517943493500,
   9561900855309385458, 3931244771709608444, 4018460688368531376, 1858076305444036428,
   11347809597230670782, 3336501280695469424, 281517943493628, 9580096982618358322,
   9561900855309385714, 4018742189131883772, 3931244771709608956, 12932019878818011918,
   4018460688368530352, 9650468784525026546, 1858076305444034380, 12303816589915979790,
   11347809597230674878, 9563028610608019698, 3336501280695477616, 1427071658708988,
   281517943510012, 12541401399658572814, 9580096982618391090, 9223372039002259470,
   9561900855309451250, 12931737355851385214, 4018742189132014844, 11254603532465727182,
   3931244771709346812, 18546751265078896, 12932019878817487630, 9635927528439764686,
   4018460688367481776, 1863711165003320140, 9650468784527123698, 1841373461176552128,
   1858076305448228684, 339958567963100336, 12303816589907591182, 9241497849131167678,
   11347809597213897662, 1783765537390569292, 9563028610641574130, 12319055597872112254,
   3336501280628368752, 3623343634930477708, 1427071792926716, 13116755630313467918,
   281518211945468, 2165389375334596604, 12541401399121701902, 1012186353053232128,
   9580096983692132914, 0, 9223372036854775822, 13853606100407680462]"

definition certf :: "int \<Rightarrow> nat" where "certf k = cert ! nat k"

lemma certf_eval:
  "certf 0 = 1858076378458151938"
  "certf 1 = 9561900855309385444"
  "certf 2 = 9561900855309385446"
  "certf 3 = 11347809597230670838"
  "certf 4 = 9561900855309385442"
  "certf 5 = 4018460688368531344"
  "certf 6 = 11347809597230670846"
  "certf 7 = 281517943493500"
  "certf 8 = 9561900855309385458"
  "certf 9 = 3931244771709608444"
  "certf 10 = 4018460688368531376"
  "certf 11 = 1858076305444036428"
  "certf 12 = 11347809597230670782"
  "certf 13 = 3336501280695469424"
  "certf 14 = 281517943493628"
  "certf 15 = 9580096982618358322"
  "certf 16 = 9561900855309385714"
  "certf 17 = 4018742189131883772"
  "certf 18 = 3931244771709608956"
  "certf 19 = 12932019878818011918"
  "certf 20 = 4018460688368530352"
  "certf 21 = 9650468784525026546"
  "certf 22 = 1858076305444034380"
  "certf 23 = 12303816589915979790"
  "certf 24 = 11347809597230674878"
  "certf 25 = 9563028610608019698"
  "certf 26 = 3336501280695477616"
  "certf 27 = 1427071658708988"
  "certf 28 = 281517943510012"
  "certf 29 = 12541401399658572814"
  "certf 30 = 9580096982618391090"
  "certf 31 = 9223372039002259470"
  "certf 32 = 9561900855309451250"
  "certf 33 = 12931737355851385214"
  "certf 34 = 4018742189132014844"
  "certf 35 = 11254603532465727182"
  "certf 36 = 3931244771709346812"
  "certf 37 = 18546751265078896"
  "certf 38 = 12932019878817487630"
  "certf 39 = 9635927528439764686"
  "certf 40 = 4018460688367481776"
  "certf 41 = 1863711165003320140"
  "certf 42 = 9650468784527123698"
  "certf 43 = 1841373461176552128"
  "certf 44 = 1858076305448228684"
  "certf 45 = 339958567963100336"
  "certf 46 = 12303816589907591182"
  "certf 47 = 9241497849131167678"
  "certf 48 = 11347809597213897662"
  "certf 49 = 1783765537390569292"
  "certf 50 = 9563028610641574130"
  "certf 51 = 12319055597872112254"
  "certf 52 = 3336501280628368752"
  "certf 53 = 3623343634930477708"
  "certf 54 = 1427071792926716"
  "certf 55 = 13116755630313467918"
  "certf 56 = 281518211945468"
  "certf 57 = 2165389375334596604"
  "certf 58 = 12541401399121701902"
  "certf 59 = 1012186353053232128"
  "certf 60 = 9580096983692132914"
  "certf 61 = 0"
  "certf 62 = 9223372036854775822"
  "certf 63 = 13853606100407680462"
  by (simp_all add: certf_def cert_def)
section \<open>Squaring\<close>

definition psq :: "nat \<Rightarrow> nat" where "psq a = pmul a a"

lemma psq_double: "psq (2 * a) = 4 * psq a"
  by (simp add: psq_def pmul_double pmul_double_right)

lemma psq_xor: "psq (a XOR b) = psq a XOR psq b"
  by (simp add: psq_def pmul_xor_left pmul_xor_right pmul_commute [of b a] xor_simps)

lemma psq_numeral:
  "psq 0 = 0" "psq 1 = 1" "psq (Suc 0) = 1" "psq (numeral Num.One) = 1"
  "psq (numeral (Num.Bit0 n)) = 4 * psq (numeral n)"
  "psq (numeral (Num.Bit1 n)) = 4 * psq (numeral n) + 1"
proof -
  show "psq 0 = 0" "psq 1 = 1" "psq (Suc 0) = 1" "psq (numeral Num.One) = 1"
    by (simp_all add: psq_def)
  have b0: "numeral (Num.Bit0 n) = 2 * (numeral n :: nat)" and
    b1: "numeral (Num.Bit1 n) = 2 * (numeral n :: nat) XOR 1"
    unfolding double_xor_1 by simp_all
  show "psq (numeral (Num.Bit0 n)) = 4 * psq (numeral n)" unfolding b0 by (rule psq_double)
  show "psq (numeral (Num.Bit1 n)) = 4 * psq (numeral n) + 1"
    unfolding b1 psq_xor psq_double using double_xor_1 [of "2 * psq (numeral n)"]
    by (simp add: psq_def)
qed

definition rsq :: "nat \<Rightarrow> nat" where "rsq a = nfold (nfold (psq a))"

lemma nfold_numeral: "nfold (numeral n) = (let hi = numeral n div 2 ^ 64
   in (numeral n mod 2 ^ 64) XOR hi XOR 2 * hi XOR 8 * hi XOR 16 * hi)"
  unfolding nfold_def pmul_27 drop_bit_eq_div take_bit_eq_mod Let_def by (rule refl)

lemma nfold_01: "nfold 0 = 0" "nfold 1 = 1" "nfold (Suc 0) = 1"
  by (simp_all add: nfold_def)

lemmas rsq_eval = rsq_def psq_numeral nfold_numeral nfold_01 Let_def

lemma rsq_rmul: "rsq a = rmul a a"
  by (simp add: rsq_def rmul_def psq_def)

lemma rsq_xor: "rsq (a XOR b) = rsq a XOR rsq b"
  by (simp add: rsq_def psq_xor nfold_xor)

definition csq :: "nat \<Rightarrow> nat" where "csq i = lin (certf) 0 (rsq (2 ^ i) XOR 2 ^ i)"

lemma upt_64: "[0..<64] = 0 # 1 # [2..<64]"
  by (simp add: upt_conv_Cons)

lemma csq_basis: "list_all (\<lambda>i. csq i = (if i = 0 then 0 else 2 ^ i)) [0..<64]"
  unfolding upt_64 by (simp add: upt_rec_numeral csq_def certf_eval rsq_eval)

theorem idempotent_01:
  assumes "e < 2 ^ 64" and "pcong (pmul e e) e"
  shows "e = 0 \<or> e = 1"
proof -
  define f where "f e = lin certf 0 (rsq e XOR e)" for e
  have "f e = 2 * (e div 2)"
  proof (rule additive_ext [where n = 64 and f = f])
    fix i :: nat assume "i < 64"
    then have "csq i = (if i = 0 then 0 else 2 ^ i)" using csq_basis by (simp add: list_all_iff)
    then show "f (2 ^ i) = 2 * (2 ^ i div 2)" by (cases i) (simp_all add: f_def csq_def)
  next
    show "e < 2 ^ 64" by (fact assms(1))
  qed (simp_all add: f_def rsq_xor lin_xor xor_div2 xor_double xor_simps)
  moreover have "rsq e = e"
    using rmul_unique [OF pcong_sym [OF assms(2)] assms(1,1,1)] by (simp add: rsq_rmul)
  ultimately have "2 * (e div 2) = 0" by (simp add: f_def)
  then show ?thesis by auto
qed

text \<open>The 64-fold Frobenius map fixes the generator \<open>x\<close>.\<close>

fun frob :: "nat \<Rightarrow> nat \<Rightarrow> nat" where
  "frob 0 a = a"
| "frob (Suc n) a = frob n (rsq a)"

lemma frob_numeral: "frob (numeral k) a = frob (pred_numeral k) (rsq a)"
  by (simp add: numeral_eq_Suc)

lemma frob64: "frob 64 2 = 2"
  by (simp add: frob_numeral rsq_eval)

end
