(* ===== verification/Element.thy ===== *)
theory Element
  imports Modulus "HOL-Library.Monad_Syntax"
begin

text \<open>
  The class \<open>FFF::Element\<close> of \<open>algebra/FFT/src/Element.cpp\<close>: elements of the field with
  \<open>2^64\<close> elements as one 64-bit cell, with the carry-less multiplication instruction, the
  table driven reduction, the reference multiplication \<open>naiveMul\<close>, exponentiation, the
  vectorised butterfly of the additive FFT, and inversion by the extended Euclidean
  algorithm on two-cell arrays. Arrays of cells are lists; \<open>pval\<close> reads such an array as
  a binary polynomial. The compiler intrinsics the code calls are modelled lane by lane:
  a register is a pair of cells (low, high).
\<close>

unbundle bit_operations_syntax

section \<open>Constants\<close>

definition log_bits_in_cell :: nat where "log_bits_in_cell = 6"
definition bits_in_cell :: nat where "bits_in_cell = 64"
definition element_len :: nat where "element_len = 1"
definition ord :: nat where "ord = 64"

definition irr_poly_index :: "nat list list" where
  "irr_poly_index = [[0, 2 ^ 64 - 1, 2 ^ 64 - 1], [0, 2, 3, 7, 32], [0, 1, 3, 4, 64]]"

definition mod_len :: "nat list" where "mod_len = [3, 5, 5]"

definition lookupTable1 :: "cell_t list" where
  "lookupTable1 = [0x0, 0x1b, 0x2d, 0x36, 0x5a, 0x41, 0x77, 0x6c]"

section \<open>Intrinsics\<close>

type_synonym m128i = "cell_t \<times> cell_t"

definition mm_clmulepi64 :: "cell_t \<Rightarrow> cell_t \<Rightarrow> m128i" where
  "mm_clmulepi64 a b = (let p = pmul (unat a) (unat b)
     in (word_of_nat (take_bit 64 p), word_of_nat (drop_bit 64 p)))"

fun mm_xor :: "m128i \<Rightarrow> m128i \<Rightarrow> m128i" where
  "mm_xor (a, b) (c, d) = (a XOR c, b XOR d)"

fun mm_slli_epi64 :: "m128i \<Rightarrow> nat \<Rightarrow> m128i" where
  "mm_slli_epi64 (a, b) n = (push_bit n a, push_bit n b)"

fun mm_srli_epi64 :: "m128i \<Rightarrow> nat \<Rightarrow> m128i" where
  "mm_srli_epi64 (a, b) n = (drop_bit n a, drop_bit n b)"

text \<open>\<open>_mm_shuffle_epi8\<close>: byte \<open>i\<close> of the result is byte \<open>idx[i] AND 15\<close> of the table, or 0
  when the top bit of the index byte is set; \<open>tab\<close> holds the sixteen table bytes.\<close>

definition shuffle_byte :: "8 word list \<Rightarrow> 8 word \<Rightarrow> 8 word" where
  "shuffle_byte tab idx = (if bit idx 7 then 0 else tab ! unat (idx AND 15))"

definition shuffle_lane :: "8 word list \<Rightarrow> cell_t \<Rightarrow> cell_t" where
  "shuffle_lane tab idx = fold (\<lambda>i r. r OR push_bit (8 * i)
     (ucast (shuffle_byte tab (ucast (drop_bit (8 * i) idx))))) [0..<8] 0"

fun mm_shuffle_epi8 :: "8 word list \<Rightarrow> m128i \<Rightarrow> m128i" where
  "mm_shuffle_epi8 tab (a, b) = (shuffle_lane tab a, shuffle_lane tab b)"

section \<open>Arithmetic\<close>

definition c_add :: "cell_t \<Rightarrow> cell_t \<Rightarrow> cell_t" where
  "c_add a b = a XOR b"

definition c_mul :: "cell_t \<Rightarrow> cell_t \<Rightarrow> cell_t" where
  "c_mul a b = (let (lowDeg, carry0) = mm_clmulepi64 a b;
     carry1 = drop_bit 60 carry0;
     reducedCarry1 = lookupTable1 ! unat carry1;
     reducedCarry0 = carry0 XOR push_bit 1 carry0 XOR push_bit 3 carry0 XOR push_bit 4 carry0
     in lowDeg XOR reducedCarry0 XOR reducedCarry1)"

definition c_sqr :: "cell_t \<Rightarrow> cell_t" where
  "c_sqr a = c_mul a a"

definition c_mulXor :: "cell_t \<Rightarrow> cell_t \<Rightarrow> cell_t \<Rightarrow> cell_t" where
  "c_mulXor a b c = c_mul a b XOR c"

definition c_vecMul :: "cell_t list \<Rightarrow> cell_t list \<Rightarrow> cell_t list \<Rightarrow> nat \<Rightarrow> cell_t list" where
  "c_vecMul a b c l = fold (\<lambda>i c. c[i := c_mul (a ! i) (b ! i)]) [0..<l] c"

definition c_setZero :: "cell_t" where "c_setZero = 0"
definition c_setUnit :: "cell_t" where "c_setUnit = 1"

definition c_isZero :: "cell_t \<Rightarrow> bool" where "c_isZero a \<longleftrightarrow> a = 0"
definition c_isUnit :: "cell_t \<Rightarrow> bool" where "c_isUnit a \<longleftrightarrow> a = 1"

text \<open>The loop of \<open>c_exp\<close>: square and multiply from the least significant bit.\<close>

function c_exp_loop :: "cell_t \<Rightarrow> 64 word \<Rightarrow> cell_t \<Rightarrow> cell_t" where
  "c_exp_loop a exp res = (if exp = 0 then res
     else c_exp_loop (c_sqr a) (drop_bit 1 exp) (if 1 AND exp \<noteq> 0 then c_mul res a else res))"
  by pat_completeness auto
termination
proof (relation "measure (\<lambda>(a, exp, res). unat exp)")
  fix a exp res :: "64 word" assume "exp \<noteq> 0"
  then have "drop_bit 1 (unat exp) < unat exp" by (simp add: unat_gt_0 drop_bit_eq_div)
  then have "unat (drop_bit 1 exp) < unat exp" by (simp only: unat_drop_bit_eq)
  then show "((c_sqr a, drop_bit 1 exp, if 1 AND exp \<noteq> 0 then c_mul res a else res), a, exp, res)
      \<in> measure (\<lambda>(a, exp, res). unat exp)"
    by simp
qed simp

declare c_exp_loop.simps [simp del]

definition c_exp :: "cell_t \<Rightarrow> 64 word \<Rightarrow> cell_t" where
  "c_exp a exp = c_exp_loop a exp c_setUnit"

section \<open>The butterfly of the additive FFT\<close>

text \<open>One iteration of the vectorised loop of \<open>do_FFT_step\<close>: two elements of \<open>a\<close> and \<open>b\<close> at
  once. \<open>lookup_reg\<close> holds the eight bytes of \<open>lookupTable1\<close> and eight zero bytes.\<close>

definition lookup_reg :: "8 word list" where
  "lookup_reg = map ucast lookupTable1 @ replicate 8 0"

definition do_FFT_vec :: "cell_t \<Rightarrow> m128i \<Rightarrow> m128i \<Rightarrow> m128i \<times> m128i" where
  "do_FFT_vec factor a_vec b_vec = (let
     t0 = mm_clmulepi64 (fst a_vec) factor;
     t1 = mm_clmulepi64 (snd a_vec) factor;
     xmmRes = (fst t0, fst t1);
     xmmCarry0 = (snd t0, snd t1);
     xmmCarry00 = mm_xor xmmCarry0 (mm_slli_epi64 xmmCarry0 1);
     xmmCarry01 = mm_xor (mm_slli_epi64 xmmCarry0 3) (mm_slli_epi64 xmmCarry0 4);
     xmmCarry1 = mm_srli_epi64 xmmCarry0 60;
     xmmCarry1 = mm_shuffle_epi8 lookup_reg xmmCarry1;
     tmp1 = mm_xor xmmCarry00 xmmCarry01;
     tmp2 = mm_xor xmmCarry1 xmmRes;
     xmmFinal = mm_xor tmp1 tmp2;
     b_vec = mm_xor b_vec xmmFinal;
     a_vec = mm_xor a_vec b_vec
     in (a_vec, b_vec))"

definition do_FFT_iter :: "cell_t \<Rightarrow> nat \<Rightarrow> cell_t list \<times> cell_t list \<Rightarrow> cell_t list \<times> cell_t list" where
  "do_FFT_iter factor i = (\<lambda>(a, b). let
     currIdx = 2 * i;
     (a_vec, b_vec) = do_FFT_vec factor (a ! currIdx, a ! (currIdx + 1)) (b ! currIdx, b ! (currIdx + 1));
     b = b[currIdx := fst b_vec, currIdx + 1 := snd b_vec];
     a = a[currIdx := fst a_vec, currIdx + 1 := snd a_vec]
     in (a, b))"

definition do_FFT_step :: "cell_t \<Rightarrow> cell_t list \<Rightarrow> cell_t list \<Rightarrow> nat \<Rightarrow> cell_t list \<times> cell_t list" where
  "do_FFT_step factor a b len = (let
     numIterations = len div 2;
     hasTail = (len mod 2 = 1);
     (a, b) = fold (do_FFT_iter factor) [0..<numIterations] (a, b)
     in if hasTail then
       (let b = b[len - 1 := c_add (b ! (len - 1)) (c_mul factor (a ! (len - 1)))];
            a = a[len - 1 := c_add (a ! (len - 1)) (b ! (len - 1))]
        in (a, b))
     else (a, b))"

section \<open>The reference multiplication\<close>

definition TOGGLE_BIT :: "cell_t list \<Rightarrow> nat \<Rightarrow> cell_t list" where
  "TOGGLE_BIT e i = e[i div 64 := e ! (i div 64) XOR push_bit (i mod 64) 1]"

definition EXTRACT_BIT :: "cell_t list \<Rightarrow> nat \<Rightarrow> bool" where
  "EXTRACT_BIT e i \<longleftrightarrow> (e ! (i div 64)) AND push_bit (i mod 64) 1 \<noteq> 0"

definition naiveMul_prod :: "cell_t list \<Rightarrow> cell_t list \<Rightarrow> cell_t list" where
  "naiveMul_prod a b = fold (\<lambda>i. fold (\<lambda>j clmul.
       if EXTRACT_BIT a i \<and> EXTRACT_BIT b j then TOGGLE_BIT clmul (i + j) else clmul) [0..<ord])
     [0..<ord] (replicate (2 * element_len) 0)"

definition naiveMul_reduce :: "cell_t list \<Rightarrow> cell_t list" where
  "naiveMul_reduce clmul = fold (\<lambda>i clmul. if EXTRACT_BIT clmul i
       then fold (\<lambda>j clmul. TOGGLE_BIT clmul (i - ord + irr_poly_index ! 2 ! j)) [0..<mod_len ! 2] clmul
       else clmul)
     (rev [ord..<2 * ord]) clmul"

definition naiveMul :: "cell_t \<Rightarrow> cell_t \<Rightarrow> cell_t" where
  "naiveMul a b = naiveMul_reduce (naiveMul_prod [a] [b]) ! 0"

section \<open>Inversion\<close>

text \<open>\<open>generateOrdElement\<close>: the low part of the modulus, as one cell.\<close>

definition generateOrdElement :: "cell_t list" where
  "generateOrdElement = fold (\<lambda>i e. TOGGLE_BIT e (irr_poly_index ! 2 ! i))
     [0..<mod_len ! 2 - 1] (replicate element_len 0)"

text \<open>\<open>deg\<close>: scan for the last non-zero cell, then a binary search inside it. On an array of
  zeros the scan runs below index 0, which is outside the array.\<close>

fun deg_scan :: "cell_t list \<Rightarrow> nat \<Rightarrow> nat option" where
  "deg_scan a 0 = None"
| "deg_scan a (Suc i) = (if a ! i = 0 then deg_scan a i else Some i)"

definition deg_offset :: "cell_t \<Rightarrow> nat" where
  "deg_offset t = fold (\<lambda>j offset. if drop_bit (offset + j) t \<noteq> 0 then offset + j else offset)
     [32, 16, 8, 4, 2, 1] 0"

definition deg :: "cell_t list \<Rightarrow> nat \<Rightarrow> nat option" where
  "deg a len = map_option (\<lambda>i. i * bits_in_cell + deg_offset (a ! i)) (deg_scan a len)"

definition setZero :: "cell_t list \<Rightarrow> nat \<Rightarrow> cell_t list" where
  "setZero a len = fold (\<lambda>i a. a[i := 0]) [0..<len] a"

definition setUnit :: "cell_t list \<Rightarrow> nat \<Rightarrow> cell_t list" where
  "setUnit a len = (setZero a len)[0 := 1]"

definition isUnit :: "cell_t list \<Rightarrow> nat \<Rightarrow> bool" where
  "isUnit a len \<longleftrightarrow> a ! 0 = 1 \<and> list_all (\<lambda>i. a ! i = 0) [1..<len]"

definition vecXor :: "cell_t list \<Rightarrow> cell_t list \<Rightarrow> nat \<Rightarrow> cell_t list" where
  "vecXor a b len = fold (\<lambda>i a. a[i := a ! i XOR b ! i]) [0..<len] a"

definition swap_cells :: "cell_t list \<Rightarrow> cell_t list \<Rightarrow> nat \<Rightarrow> cell_t list \<times> cell_t list" where
  "swap_cells a b len = fold (\<lambda>i (a, b).
     let a = a[i := a ! i XOR b ! i]; b = b[i := b ! i XOR a ! i]; a = a[i := a ! i XOR b ! i]
     in (a, b)) [0..<len] (a, b)"

definition left_shift :: "cell_t list \<Rightarrow> nat \<Rightarrow> nat \<Rightarrow> cell_t list" where
  "left_shift v k len = (if len * bits_in_cell \<le> k then setZero v len
     else let shift_cells = k div bits_in_cell; par = k mod bits_in_cell; rest = bits_in_cell - par;
       v = fold (\<lambda>i v. v[i := push_bit par (v ! (i - shift_cells))
             OR drop_bit 1 (drop_bit (rest - 1) (v ! (i - shift_cells - 1)))])
           (rev [shift_cells + 1..<len]) v;
       v = v[shift_cells := push_bit par (v ! 0)]
     in fold (\<lambda>i v. v[shift_cells - 1 := 0]) (rev [1..<shift_cells + 1]) v)"

text \<open>One round of the loop of \<open>egcd\<close> on the arrays \<open>u, v, g1, g2\<close>, and the loop. A round
  fails when \<open>deg\<close> leaves its array; the loop may in principle run forever, so its model is
  a partial function whose value is \<open>None\<close> when it does not return.\<close>

type_synonym egcd_state = "cell_t list \<times> cell_t list \<times> cell_t list \<times> cell_t list"

definition egcd_step :: "egcd_state \<Rightarrow> egcd_state option" where
  "egcd_step st = (case st of (u, v, g1, g2) \<Rightarrow> do {
     i \<leftarrow> deg u (element_len + 1);
     j \<leftarrow> deg v (element_len + 1);
     let (u, v, g1, g2, i) = (if i < j then
         (let (u, v) = swap_cells u v (element_len + 1); (g1, g2) = swap_cells g1 g2 (element_len + 1)
          in (u, v, g1, g2, j - i)) else (u, v, g1, g2, i - j));
     let u = vecXor u (left_shift v i (element_len + 1)) (element_len + 1);
     let g1 = vecXor g1 (left_shift g2 i (element_len + 1)) (element_len + 1);
     Some (u, v, g1, g2) })"

partial_function (option) egcd_loop :: "egcd_state \<Rightarrow> cell_t list option" where
  "egcd_loop st = (case st of (u, v, g1, g2) \<Rightarrow> if isUnit u (element_len + 1) then Some g1
     else case egcd_step st of None \<Rightarrow> None | Some st \<Rightarrow> egcd_loop st)"

definition egcd :: "cell_t list \<Rightarrow> cell_t list \<Rightarrow> cell_t list option" where
  "egcd a b = map_option (take element_len)
     (egcd_loop (a, b, setUnit (replicate 2 0) (element_len + 1), setZero (replicate 2 0) (element_len + 1)))"

definition c_inv :: "cell_t \<Rightarrow> cell_t option" where
  "c_inv a = map_option (\<lambda>g. g ! 0) (egcd ([a] @ [0]) (take element_len generateOrdElement @ [1]))"

section \<open>Multiplication is multiplication of residues\<close>

lemma clmul_low: "unat (fst (mm_clmulepi64 a b)) = take_bit 64 (pmul (unat a) (unat b))"
  by (simp add: mm_clmulepi64_def Let_def unat_of_nat take_bit_eq_mod)

lemma pmul_cells_less: "pmul (unat a) (unat b) < 2 ^ 127" for a b :: cell_t
  using pmul_less [of "unat a" 64 "unat b" 64] unat_less_64 [of a] unat_less_64 [of b] by simp

lemma clmul_high: "unat (snd (mm_clmulepi64 a b)) = drop_bit 64 (pmul (unat a) (unat b))"
  using pmul_cells_less [of a b]
  by (simp add: mm_clmulepi64_def Let_def unat_of_nat drop_bit_eq_div less_mult_imp_div_less)

lemma clmul_high_less: "unat (snd (mm_clmulepi64 a b)) < 2 ^ 63"
  using pmul_cells_less [of a b] by (simp add: clmul_high drop_bit_eq_div less_mult_imp_div_less)

lemma lookupTable1_spec: "d < 8 \<Longrightarrow> unat (lookupTable1 ! d) = pmul (d XOR d div 2) 27"
proof -
  have "list_all (\<lambda>d. unat (lookupTable1 ! d) = pmul (d XOR d div 2) 27) [0, 1, 2, 3, 4, 5, 6, 7]"
    by (simp add: lookupTable1_def pmul_27)
  moreover assume "d < 8"
  then have "d \<in> {0, 1, 2, 3, 4, 5, 6, 7}" by auto
  ultimately show ?thesis by auto
qed

text \<open>The reduction of a product with low cell \<open>lo\<close> and high cell \<open>hi\<close>.\<close>

lemma reduce_cells:
  fixes lo hi :: cell_t
  assumes "unat hi < 2 ^ 63"
  shows "unat (lo XOR (hi XOR push_bit 1 hi XOR push_bit 3 hi XOR push_bit 4 hi) XOR lookupTable1 ! unat (drop_bit 60 hi))
    = nfold (nfold (unat lo XOR 2 ^ 64 * unat hi))"
proof -
  let ?h = "unat hi" and ?l = "unat lo"
  define d where "d = drop_bit 60 ?h"
  have d: "d < 8" unfolding d_def drop_bit_eq_div using assms by (simp add: less_mult_imp_div_less)
  have l: "?l < 2 ^ 64" and h: "?h < 2 ^ 64" by (rule unat_less_64)+
  have tl: "take_bit 64 (?l XOR 2 ^ 64 * ?h) = ?l" and dl: "drop_bit 64 (?l XOR 2 ^ 64 * ?h) = ?h"
    unfolding take_bit_join drop_bit_join using l
    by (simp_all only: take_bit_nat_eq_self drop_bit_0_less xor.left_neutral)
  then have q: "nfold (?l XOR 2 ^ 64 * ?h) = ?l XOR ?h XOR 2 * ?h XOR 8 * ?h XOR 16 * ?h"
    by (simp add: nfold_def pmul_27)
  have "drop_bit 64 (?l XOR ?h XOR 2 * ?h XOR 8 * ?h XOR 16 * ?h) = d XOR d div 2"
  proof -
    have "drop_bit 64 (2 * ?h) = drop_bit 63 ?h" using drop_bit_pow2_mult [of 1 64 ?h] by simp
    moreover have "drop_bit 64 (8 * ?h) = d div 2"
      using drop_bit_pow2_mult [of 3 64 ?h] by (simp add: d_def drop_bit_eq_div flip: div_mult2_eq)
    moreover have "drop_bit 64 (16 * ?h) = d" using drop_bit_pow2_mult [of 4 64 ?h] by (simp add: d_def)
    ultimately show ?thesis
      by (simp only: drop_bit_xor drop_bit_0_less [OF l] drop_bit_0_less [OF h] drop_bit_0_less [OF assms]
        xor.left_neutral xor.commute)
  qed
  moreover have "take_bit 64 (?l XOR ?h XOR 2 * ?h XOR 8 * ?h XOR 16 * ?h)
     = unat (lo XOR (hi XOR push_bit 1 hi XOR push_bit 3 hi XOR push_bit 4 hi))"
    unfolding take_bit_xor unat_xor unsigned_push_bit_eq take_bit_nat_eq_self [OF l] take_bit_nat_eq_self [OF h]
    by (simp add: push_bit_eq_mult xor_simps mult.commute)
  moreover have "unat (lookupTable1 ! unat (drop_bit 60 hi)) = pmul (d XOR d div 2) 27"
    using lookupTable1_spec [OF d] by (simp add: d_def unat_drop_bit_eq)
  ultimately show ?thesis
    unfolding q unfolding nfold_def by (simp add: unat_xor xor_simps)
qed

lemma c_mul_rmul: "unat (c_mul a b) = rmul (unat a) (unat b)"
proof -
  have "c_mul a b = fst (mm_clmulepi64 a b) XOR (let hi = snd (mm_clmulepi64 a b) in
      hi XOR push_bit 1 hi XOR push_bit 3 hi XOR push_bit 4 hi) XOR
      lookupTable1 ! unat (drop_bit 60 (snd (mm_clmulepi64 a b)))"
    by (simp add: c_mul_def Let_def case_prod_beta)
  also have "unat \<dots> = nfold (nfold (unat (fst (mm_clmulepi64 a b)) XOR 2 ^ 64 * unat (snd (mm_clmulepi64 a b))))"
    unfolding Let_def by (rule reduce_cells [OF clmul_high_less])
  also have "\<dots> = rmul (unat a) (unat b)"
    unfolding rmul_def clmul_low clmul_high by (simp only: split64 [symmetric])
  finally show ?thesis .
qed

lemma pcong_c_mul: "pcong (unat (c_mul a b)) (pmul (unat a) (unat b))"
  by (simp only: c_mul_rmul pcong_rmul)

lemma cell_eqI: "pcong (unat a) (unat b) \<Longrightarrow> a = b" for a b :: cell_t
  using pcong_unique unat_less_64 unat_less_64 by (metis word_unat_eq_iff)

lemma c_mul_lookup_in_range:
  "unat (drop_bit 60 (snd (mm_clmulepi64 a b))) < length lookupTable1"
proof -
  have "drop_bit 60 (unat (snd (mm_clmulepi64 a b))) < 2 ^ 3"
    using clmul_high_less [of a b] by (intro drop_bit_less) simp
  then show ?thesis by (simp only: unat_drop_bit_eq) (simp add: lookupTable1_def)
qed

section \<open>Arrays of cells as polynomials\<close>

fun pval :: "cell_t list \<Rightarrow> nat" where
  "pval [] = 0"
| "pval (c # cs) = unat c XOR 2 ^ 64 * pval cs"

lemma bit_pval: "bit (pval cs) n \<longleftrightarrow> n div 64 < length cs \<and> bit (cs ! (n div 64)) (n mod 64)"
proof (induction cs arbitrary: n)
  case (Cons c cs)
  have "bit (pval (c # cs)) n \<longleftrightarrow> bit c n \<noteq> (64 \<le> n \<and> bit (pval cs) (n - 64))"
    unfolding pval.simps pow2_mult_push_bit by (simp add: bit_xor_iff bit_push_bit_iff bit_unat)
  moreover have "\<not> bit c n" if "64 \<le> n" using that bit_imp_le_length [of c n] by auto
  ultimately show ?case by (cases "n < 64") (auto simp: Cons.IH le_div_geq le_mod_geq not_less)
qed simp

lemma pval_less: "length cs = n \<Longrightarrow> pval cs < 2 ^ (64 * n)"
proof (induction cs arbitrary: n)
  case (Cons c cs)
  then obtain m where n: "n = Suc m" and m: "length cs = m" by (cases n) auto
  have "2 ^ 64 * pval cs < 2 ^ (64 + 64 * m)" unfolding power_add using Cons.IH [OF m] by simp
  moreover have "unat c < 2 ^ (64 + 64 * m)"
    using unat_less_64 [of c] by (rule less_le_trans) (simp add: power_add)
  ultimately show ?case unfolding pval.simps n by (intro xor_less_2p) simp_all
qed simp

lemma EXTRACT_BIT_pval: "i div 64 < length e \<Longrightarrow> EXTRACT_BIT e i = bit (pval e) i"
  by (simp add: EXTRACT_BIT_def bit_pval and_exp_eq_0_iff_not_bit)

lemma pval_TOGGLE_BIT:
  assumes "i div 64 < length e" shows "pval (TOGGLE_BIT e i) = pval e XOR 2 ^ i"
proof (rule bit_eqI)
  fix n
  have "n = i \<longleftrightarrow> n div 64 = i div 64 \<and> n mod 64 = i mod 64"
    by (metis div_mult_mod_eq)
  then show "bit (pval (TOGGLE_BIT e i)) n = bit (pval e XOR 2 ^ i) n"
    using assms
    by (auto simp: bit_pval TOGGLE_BIT_def bit_xor_iff bit_push_bit_iff bit_exp_iff nth_list_update)
qed

lemma length_TOGGLE_BIT [simp]: "length (TOGGLE_BIT e i) = length e"
  by (simp add: TOGGLE_BIT_def)

end
