(* ===== verification/FieldRing.thy ===== *)
theory FieldRing
  imports Element
begin

text \<open>
  The class \<open>FieldElement\<close> of \<open>algebralib/headers/algebraLib/FieldElement.hpp\<close> as a type of
  its own, with the C++ operators \<open>+\<close>, \<open>-\<close>, \<open>*\<close> as the operations of a commutative ring
  of characteristic two, so that the algebraic automation of the library applies to it.
  The second half shows that every non-zero element is invertible: \<open>a^(2^64) = a\<close> holds
  because it holds for the basis \<open>x^i\<close>, so \<open>a^(2^64-1)\<close> is an idempotent, and theory
  \<open>Modulus\<close> leaves only 0 and 1.
\<close>

unbundle bit_operations_syntax

section \<open>The type and its ring operations\<close>

datatype FieldElement = FieldElement (element: "64 word")

definition felem_plus :: "FieldElement \<Rightarrow> FieldElement \<Rightarrow> FieldElement" where
  "felem_plus a b = FieldElement (c_add (element a) (element b))"

definition felem_minus :: "FieldElement \<Rightarrow> FieldElement \<Rightarrow> FieldElement" where
  "felem_minus a b = felem_plus a b"

definition felem_times :: "FieldElement \<Rightarrow> FieldElement \<Rightarrow> FieldElement" where
  "felem_times a b = FieldElement (c_mul (element a) (element b))"

instantiation FieldElement :: comm_ring_1
begin

definition zero_FieldElement :: FieldElement where
  "zero_FieldElement = FieldElement c_setZero"

definition one_FieldElement :: FieldElement where
  "one_FieldElement = FieldElement c_setUnit"

definition plus_FieldElement :: "FieldElement \<Rightarrow> FieldElement \<Rightarrow> FieldElement" where
  "plus_FieldElement = felem_plus"

definition uminus_FieldElement :: "FieldElement \<Rightarrow> FieldElement" where
  "uminus_FieldElement a = a"

definition minus_FieldElement :: "FieldElement \<Rightarrow> FieldElement \<Rightarrow> FieldElement" where
  "minus_FieldElement = felem_minus"

definition times_FieldElement :: "FieldElement \<Rightarrow> FieldElement \<Rightarrow> FieldElement" where
  "times_FieldElement = felem_times"

lemmas fe_defs = zero_FieldElement_def one_FieldElement_def plus_FieldElement_def
  uminus_FieldElement_def minus_FieldElement_def times_FieldElement_def
  felem_plus_def felem_minus_def felem_times_def c_setZero_def c_setUnit_def c_add_def

lemma pcong_times: "pcong (unat (element (a * b))) (pmul (unat (element a)) (unat (element b)))"
  by (simp add: times_FieldElement_def felem_times_def pcong_c_mul)

lemma unat_plus: "unat (element (a + b)) = unat (element a) XOR unat (element b)"
  by (simp add: fe_defs unat_xor)

lemma fe_eqI: "pcong (unat (element a)) (unat (element b)) \<Longrightarrow> a = b"
  using cell_eqI FieldElement.expand by blast

instance
proof
  fix a b c :: FieldElement
  show "a * b * c = a * (b * c)"
  proof (rule fe_eqI)
    have "pcong (unat (element (a * b * c))) (pmul (pmul (unat (element a)) (unat (element b))) (unat (element c)))"
      by (blast intro: pcong_trans pcong_times pcong_pmul pcong_refl)
    moreover have "pcong (pmul (unat (element a)) (pmul (unat (element b)) (unat (element c)))) (unat (element (a * (b * c))))"
      by (rule pcong_sym) (blast intro: pcong_trans pcong_times pcong_pmul pcong_refl)
    ultimately show "pcong (unat (element (a * b * c))) (unat (element (a * (b * c))))"
      by (simp add: pmul_assoc) (blast intro: pcong_trans)
  qed
  show "a * b = b * a"
    by (rule fe_eqI) (metis pcong_times pcong_trans pcong_sym pmul_commute)
  show "1 * a = a"
  proof (rule fe_eqI)
    have "pmul (unat (element 1)) (unat (element a)) = unat (element a)" by (simp add: fe_defs)
    then show "pcong (unat (element (1 * a))) (unat (element a))" by (metis pcong_times)
  qed
  show "(a + b) * c = a * c + b * c"
  proof (rule fe_eqI)
    have "pcong (unat (element ((a + b) * c))) (pmul (unat (element a)) (unat (element c)) XOR pmul (unat (element b)) (unat (element c)))"
      using pcong_times [of "a + b" c] by (simp add: unat_plus pmul_xor_left)
    moreover have "pcong (pmul (unat (element a)) (unat (element c)) XOR pmul (unat (element b)) (unat (element c))) (unat (element (a * c + b * c)))"
      unfolding unat_plus by (intro pcong_xor pcong_sym [OF pcong_times])
    ultimately show "pcong (unat (element ((a + b) * c))) (unat (element (a * c + b * c)))"
      by (rule pcong_trans)
  qed
  show "(0::FieldElement) \<noteq> 1" by (simp add: fe_defs)
qed (simp_all add: fe_defs xor_simps FieldElement.expand)

end

section \<open>Characteristic two\<close>

lemma fe_double [simp]: "a + a = 0" for a :: FieldElement
  by (simp add: fe_defs)

lemma fe_uminus [simp]: "- a = a" for a :: FieldElement
  by (simp add: fe_defs)

lemma fe_minus [simp]: "a - b = a + b" for a b :: FieldElement
  by (simp add: fe_defs)

lemma fe_add_left [simp]: "a + (a + b) = b" for a b :: FieldElement
  by (simp flip: add.assoc)

lemma fe_add_eq_0: "a + b = 0 \<longleftrightarrow> a = b" for a b :: FieldElement
  by (metis add.right_neutral fe_add_left fe_double)

lemma fe_sq_add: "(a + b) ^ 2 = a ^ 2 + b ^ 2" for a b :: FieldElement
  by (simp add: power2_eq_square algebra_simps)

lemma fe_frob_add: "(a + b) ^ (2 ^ n) = a ^ (2 ^ n) + b ^ (2 ^ n)" for a b :: FieldElement
proof (induction n)
  case (Suc n)
  have "(a + b) ^ (2 ^ Suc n) = ((a + b) ^ (2 ^ n)) ^ 2" by (simp add: power_mult [symmetric] mult.commute)
  also have "\<dots> = (a ^ (2 ^ n)) ^ 2 + (b ^ (2 ^ n)) ^ 2" by (simp only: Suc fe_sq_add)
  finally show ?case by (simp add: power_mult [symmetric] mult.commute)
qed simp

section \<open>Every non-zero element is invertible\<close>

definition fe :: "nat \<Rightarrow> FieldElement" where "fe n = FieldElement (word_of_nat n)"

lemma unat_fe: "n < 2 ^ 64 \<Longrightarrow> unat (element (fe n)) = n"
  by (simp add: fe_def unat_of_nat)

lemma fe_unat: "fe (unat (element a)) = a"
  by (simp add: fe_def)

lemma fe_xor: "fe (a XOR b) = fe a + fe b"
  by (simp add: fe_def fe_defs of_nat_xor_eq)

lemma unat_fe_xor: "unat (element (a + b)) = unat (element a) XOR unat (element b)"
  by (simp add: fe_defs unat_xor)

lemma frob_power: "frob n (unat (element a)) = unat (element (a ^ (2 ^ n)))"
proof (induction n arbitrary: a)
  case (Suc n)
  have "rsq (unat (element a)) = unat (element (a * a))"
    by (simp add: rsq_rmul times_FieldElement_def felem_times_def c_mul_rmul)
  then have "frob (Suc n) (unat (element a)) = unat (element ((a * a) ^ (2 ^ n)))" by (simp add: Suc)
  also have "(a * a) ^ (2 ^ n) = a ^ (2 ^ Suc n)" by (simp add: power_mult power2_eq_square)
  finally show ?case .
qed simp

lemma x_power: "i < 64 \<Longrightarrow> fe 2 ^ i = fe (2 ^ i)"
proof (induction i)
  case 0 then show ?case by (simp add: fe_def fe_defs)
next
  case (Suc i)
  have le: "(2::nat) ^ i < 2 ^ 64" "(2::nat) ^ Suc i < 2 ^ 64"
    by (rule power_strict_increasing; use Suc.prems in simp)+
  have "fe 2 * fe (2 ^ i) = fe (2 ^ Suc i)"
  proof (rule fe_eqI)
    have "pmul (unat (element (fe 2))) (unat (element (fe (2 ^ i)))) = 2 * 2 ^ i"
      using pmul_pow2 [of 1 "2 ^ i"] le by (simp only: unat_fe) (simp add: unat_fe)
    then show "pcong (unat (element (fe 2 * fe (2 ^ i)))) (unat (element (fe (2 ^ Suc i))))"
      using pcong_times [of "fe 2" "fe (2 ^ i)"] le by (simp add: unat_fe)
  qed
  with Suc show ?case by simp
qed

lemma x_frob: "fe 2 ^ (2 ^ 64) = fe 2"
proof -
  have "unat (element (fe 2)) = 2" by (simp add: unat_fe)
  then have "unat (element (fe 2 ^ (2 ^ 64))) = 2" using frob_power [of 64 "fe 2"] frob64 by metis
  then show ?thesis using fe_unat by metis
qed

lemma fermat: "a ^ (2 ^ 64) = a" for a :: FieldElement
proof -
  define N :: nat where "N = 64"
  have "unat (element (fe (unat (element a)) ^ (2 ^ N))) = take_bit 64 (unat (element a))"
  proof (rule additive_ext [where n = 64 and f = "\<lambda>k. unat (element (fe k ^ (2 ^ N)))" and g = "take_bit 64"])
    fix i :: nat assume i: "i < 64"
    have "fe (2 ^ i) ^ (2 ^ N) = (fe 2 ^ (2 ^ N)) ^ i" using x_power [OF i] by (metis power_commutes power_mult mult.commute)
    also have "\<dots> = fe (2 ^ i)" using x_frob x_power [OF i] by (simp only: N_def)
    finally show "unat (element (fe (2 ^ i) ^ (2 ^ N))) = take_bit 64 (2 ^ i)"
      using power_strict_increasing [OF i, of "2::nat"] i by (simp add: unat_fe take_bit_nat_eq_self)
  qed (simp_all only: fe_xor fe_frob_add unat_fe_xor take_bit_xor unat_less_64)
  then have "unat (element (a ^ (2 ^ N))) = unat (element a)"
    by (simp only: fe_unat take_bit_nat_eq_self [OF unat_less_64])
  then show ?thesis using fe_unat by (metis N_def)
qed

lemma fe_invertible: "a \<noteq> 0 \<Longrightarrow> a * a ^ (2 ^ 64 - 2) = 1" for a :: FieldElement
proof -
  assume a: "a \<noteq> 0"
  define M :: nat where "M = 2 ^ 64 - 2"
  have M: "(2::nat) ^ 64 = Suc (Suc M)" by (simp add: M_def)
  define e where "e = a ^ Suc M"
  have ea: "e * a = a" using fermat [of a] unfolding M e_def by (simp add: mult_ac)
  then have "e * e = e" unfolding e_def by (metis mult.assoc mult.commute power_Suc)
  then have "pcong (pmul (unat (element e)) (unat (element e))) (unat (element e))"
    using pcong_times [of e e] pcong_sym by metis
  then have "unat (element e) = 0 \<or> unat (element e) = 1"
    using idempotent_01 [OF unat_less_64] by metis
  then have "element e = 0 \<or> element e = 1" by (simp add: word_unat_eq_iff)
  then have "e = 0 \<or> e = 1" by (cases e) (simp add: fe_defs)
  with ea a have "e = 1" by auto
  then show ?thesis unfolding e_def power_Suc M_def .
qed

lemma pcong_inverse_ex: "0 < a \<Longrightarrow> a < 2 ^ 64 \<Longrightarrow> \<exists>b < 2 ^ 64. pcong (pmul a b) 1"
proof -
  assume a: "0 < a" "a < 2 ^ 64"
  define b where "b = fe a ^ (2 ^ 64 - 2)"
  have "fe a \<noteq> 0" using a unat_fe [of a] unat_fe [of 0] by (auto simp: fe_def fe_defs)
  then have "fe a * b = 1" unfolding b_def by (rule fe_invertible)
  then have "pcong (unat (element (1::FieldElement))) (pmul a (unat (element b)))"
    using pcong_times [of "fe a" b] unat_fe [OF a(2)] by metis
  then have "pcong (pmul a (unat (element b))) 1" by (simp add: fe_defs pcong_sym)
  then show ?thesis using unat_less_64 by blast
qed

end
