(* ===== verification/Inversion.thy ===== *)
theory Inversion
  imports FieldRing
begin

text \<open>
  Inversion in \<open>FFF::Element\<close>: the primitives on two-cell arrays (\<open>deg\<close>, \<open>vecXor\<close>,
  \<open>swap\<close>, \<open>left_shift\<close>) compute the degree, the sum, the exchange and the product with a
  power of \<open>x\<close>; the loop of \<open>egcd\<close> keeps a Bezout relation and degree bounds, ends because
  the sum of the two operands decreases, and returns the inverse. \<open>c_inv\<close> therefore returns
  for every non-zero element, and for 0 it has no defined result (\<open>deg\<close> reads before its array).
\<close>

unbundle bit_operations_syntax

section \<open>Two-cell arrays\<close>

lemma length2_cases: "length u = 2 \<Longrightarrow> (\<And>a b. u = [a, b] \<Longrightarrow> P) \<Longrightarrow> P"
  by (auto simp: numeral_2_eq_2 length_Suc_conv)

lemma upt_2: "[0..<2] = [0, 1]" "[0..<Suc (Suc 0)] = [0, 1]"
  by (simp_all add: upt_rec)

lemma len2: "element_len + 1 = 2" "Suc element_len = 2"
  by (simp_all add: element_len_def)

lemma bit_cell_less: "bit x n \<Longrightarrow> n < 64" for x :: cell_t
  using bit_imp_le_length [of x n] by simp

lemma bit_pval2: "bit (pval [x, y]) n \<longleftrightarrow> n < 64 \<and> bit x n \<or> 64 \<le> n \<and> bit y (n - 64)"
proof -
  have "bit (pval [x, y]) n \<longleftrightarrow> bit x n \<noteq> (64 \<le> n \<and> bit y (n - 64))"
    unfolding pval.simps pow2_mult_push_bit
    by (simp only: bit_xor_iff bit_push_bit_iff bit_unat push_bit_of_0 xor.right_neutral) simp
  then show ?thesis using bit_cell_less [of x n] by auto
qed

lemma pval2_less: "pval [x, y] < 2 ^ 128"
  using pval_less [of "[x, y]" 2] by simp

lemma pval_inj: "length u = 2 \<Longrightarrow> length v = 2 \<Longrightarrow> pval u = pval v \<Longrightarrow> u = v"
proof (elim length2_cases)
  fix a b c d assume eq: "pval u = pval v" and u: "u = [a, b]" and v: "v = [c, d]"
  have "bit a n = bit c n" if "n < 64" for n
    using arg_cong [OF eq, of "\<lambda>p. bit p n"] that unfolding u v bit_pval2 by simp
  moreover have "bit b n = bit d n" if "n < 64" for n
    using arg_cong [OF eq, of "\<lambda>p. bit p (64 + n)"] that unfolding u v bit_pval2 by simp
  ultimately have "a = c" "b = d" by (auto intro!: bit_word_eqI)
  then show "u = v" unfolding u v by simp
qed

lemma isUnit_pval: "length u = 2 \<Longrightarrow> isUnit u 2 \<longleftrightarrow> pval u = 1"
proof (elim length2_cases)
  fix a b assume u: "u = [a, b]"
  have "pval [1, 0] = 1" by simp
  then have "pval u = 1 \<longleftrightarrow> u = [1, 0]" using pval_inj [of u "[1, 0]"] u by auto
  then show ?thesis using u by (auto simp: isUnit_def upt_rec)
qed

lemma swap_cells_2: "length a = 2 \<Longrightarrow> length b = 2 \<Longrightarrow> swap_cells a b 2 = (b, a)"
  by (elim length2_cases) (simp add: swap_cells_def upt_2 Let_def xor_simps)

lemma length_vecXor: "length (vecXor a b 2) = length a"
  by (simp add: vecXor_def upt_2)

lemma pval_vecXor: "length a = 2 \<Longrightarrow> length b = 2 \<Longrightarrow> pval (vecXor a b 2) = pval a XOR pval b"
proof (elim length2_cases)
  fix x y z w assume "a = [x, y]" "b = [z, w]"
  then show "pval (vecXor a b 2) = pval a XOR pval b"
    by (intro bit_eqI) (auto simp: vecXor_def upt_2 bit_pval2 bit_xor_iff simp del: pval.simps)
qed

section \<open>Degree\<close>

lemma deg_offset_step:
  fixes t :: cell_t
  assumes "drop_bit off t \<noteq> 0" "drop_bit (off + 2 * j) t = 0" and "0 < j"
  defines "off' \<equiv> (if drop_bit (off + j) t \<noteq> 0 then off + j else off)"
  shows "drop_bit off' t \<noteq> 0 \<and> drop_bit (off' + j) t = 0"
  using assms by (auto simp: mult_2 add.assoc)

lemma drop_bit_top: "drop_bit n t \<noteq> 0 \<Longrightarrow> drop_bit (n + 1) t = 0 \<Longrightarrow> bit t n \<and> unat t < 2 ^ Suc n"
  for t :: cell_t
proof -
  assume n: "drop_bit n t \<noteq> 0" and s: "drop_bit (n + 1) t = 0"
  have s': "drop_bit (Suc n) (unat t) = 0" using s by (metis Suc_eq_plus1 unat_drop_bit_eq unsigned_0)
  have n': "drop_bit n (unat t) \<noteq> 0" using n by (metis unat_drop_bit_eq unat_eq_0)
  have lt: "unat t < 2 ^ Suc n" using s' by (simp add: drop_bit_eq_div div_eq_0_iff)
  have "unat t div 2 ^ n = 1"
    using n' lt by (simp add: drop_bit_eq_div div_eq_0_iff div_nat_eqI)
  then have "bit (unat t) n" by (simp add: bit_iff_odd)
  with lt show ?thesis by (simp add: bit_unat)
qed

lemma deg_offset_top: "t \<noteq> 0 \<Longrightarrow> bit t (deg_offset t) \<and> unat t < 2 ^ Suc (deg_offset t)"
proof -
  assume t: "t \<noteq> 0"
  define s where "s j off = (if drop_bit (off + j) t \<noteq> 0 then off + j else off)" for j off
  have step: "drop_bit (s j off) t \<noteq> 0 \<and> drop_bit (s j off + j) t = 0"
    if "drop_bit off t \<noteq> 0 \<and> drop_bit (off + k) t = 0" "k = 2 * j" "0 < j" for j k off
    using deg_offset_step [of off t j] that by (simp add: s_def)
  have "drop_bit 64 t = 0" by (rule bit_word_eqI) (simp add: bit_drop_bit_eq)
  then have "drop_bit 0 t \<noteq> 0 \<and> drop_bit (0 + 64) t = 0" using t by simp
  then have "drop_bit (s 32 0) t \<noteq> 0 \<and> drop_bit (s 32 0 + 32) t = 0" by (rule step) simp_all
  then have "drop_bit (s 16 (s 32 0)) t \<noteq> 0 \<and> drop_bit (s 16 (s 32 0) + 16) t = 0" by (rule step) simp_all
  then have "drop_bit (s 8 (s 16 (s 32 0))) t \<noteq> 0 \<and> drop_bit (s 8 (s 16 (s 32 0)) + 8) t = 0"
    by (rule step) simp_all
  then have "drop_bit (s 4 (s 8 (s 16 (s 32 0)))) t \<noteq> 0 \<and> drop_bit (s 4 (s 8 (s 16 (s 32 0))) + 4) t = 0"
    by (rule step) simp_all
  then have "drop_bit (s 2 (s 4 (s 8 (s 16 (s 32 0))))) t \<noteq> 0 \<and> drop_bit (s 2 (s 4 (s 8 (s 16 (s 32 0)))) + 2) t = 0"
    by (rule step) simp_all
  then have "drop_bit (s 1 (s 2 (s 4 (s 8 (s 16 (s 32 0)))))) t \<noteq> 0
      \<and> drop_bit (s 1 (s 2 (s 4 (s 8 (s 16 (s 32 0))))) + 1) t = 0"
    by (rule step) simp_all
  moreover have "deg_offset t = fold s [32, 16, 8, 4, 2, 1] 0"
    unfolding deg_offset_def s_def by (rule refl)
  ultimately show ?thesis using drop_bit_top [of "deg_offset t" t] by simp
qed

lemma deg_zero: "deg [0, 0] 2 = None"
  by (simp add: deg_def numeral_2_eq_2)

text \<open>\<open>top u d\<close>: the degree of the polynomial \<open>u\<close> is \<open>d\<close>.\<close>

definition top :: "nat \<Rightarrow> nat \<Rightarrow> bool" where "top u d \<longleftrightarrow> bit u d \<and> u < 2 ^ Suc d"

lemma top_bit_le: "top u d \<Longrightarrow> bit u n \<Longrightarrow> n \<le> d"
  unfolding top_def using not_bit_less [of u "Suc d" n] by (metis not_less_eq_eq)

lemma topI: "bit u d \<Longrightarrow> (\<And>n. bit u n \<Longrightarrow> n \<le> d) \<Longrightarrow> top u d"
  unfolding top_def using top_bit_ex [of u] bit_ge [of u d]
  by (metis Suc_le_mono gr0I less_le_trans not_less_zero power_increasing_iff one_less_numeral_iff
      semiring_norm(76) bit_0_eq bot_apply bot_bool_def)

lemma deg_top: "length u = 2 \<Longrightarrow> pval u \<noteq> 0 \<Longrightarrow> \<exists>d. deg u 2 = Some d \<and> top (pval u) d"
proof (elim length2_cases)
  fix x y assume u: "u = [x, y]" and nz: "pval u \<noteq> 0"
  show ?thesis
  proof (cases "y = 0")
    case True
    then have x: "x \<noteq> 0" using nz u by auto
    have "deg u 2 = Some (deg_offset x)" using True x u by (simp add: deg_def numeral_2_eq_2)
    moreover have "top (pval u) (deg_offset x)" using deg_offset_top [OF x] True u by (simp add: top_def bit_unat)
    ultimately show ?thesis by blast
  next
    case False
    note y = deg_offset_top [OF False]
    have "deg u 2 = Some (64 + deg_offset y)"
      using False u by (simp add: deg_def numeral_2_eq_2 bits_in_cell_def)
    moreover have "top (pval u) (64 + deg_offset y)"
    proof (rule topI)
      show "bit (pval u) (64 + deg_offset y)" unfolding u bit_pval2 using y by simp
      fix n assume "bit (pval u) n"
      then consider "n < 64" | "64 \<le> n" "bit y (n - 64)" unfolding u bit_pval2 by blast
      then show "n \<le> 64 + deg_offset y"
      proof cases
        case 2
        then have "n - 64 \<le> deg_offset y" using y top_bit_le [of "unat y"] by (simp add: top_def bit_unat)
        then show ?thesis by simp
      qed simp
    qed
    ultimately show ?thesis by blast
  qed
qed

section \<open>Shifts\<close>

lemma left_shift_small: "k < 64 \<Longrightarrow> left_shift [x, y] k 2 = [push_bit k x, push_bit k y OR drop_bit (64 - k) x]"
  by (simp add: left_shift_def bits_in_cell_def Let_def numeral_2_eq_2 drop_bit_drop_bit Suc_diff_le [symmetric])

lemma left_shift_large: "64 \<le> k \<Longrightarrow> k < 128 \<Longrightarrow> left_shift [x, y] k 2 = [0, push_bit (k - 64) x]"
proof -
  assume "64 \<le> k" "k < 128"
  then have "k div 64 = 1" "k mod 64 = k - 64" by (simp_all add: le_div_geq le_mod_geq)
  with \<open>k < 128\<close> show ?thesis
    by (simp add: left_shift_def bits_in_cell_def Let_def numeral_2_eq_2)
qed

lemma length_left_shift: "length v = 2 \<Longrightarrow> k < 128 \<Longrightarrow> length (left_shift v k 2) = 2"
  by (cases "k < 64") (auto elim!: length2_cases simp: left_shift_small left_shift_large)

lemma pval_left_shift:
  assumes "length v = 2" "k < 128" "2 ^ k * pval v < 2 ^ 128"
  shows "pval (left_shift v k 2) = 2 ^ k * pval v"
proof (rule length2_cases [OF assms(1)])
  fix x y assume v: "v = [x, y]"
  have lt: "n < 128" if "bit (push_bit k (pval v)) n" for n
    using that assms(3) not_bit_less [of "push_bit k (pval v)" 128 n]
    unfolding pow2_mult_push_bit by (meson not_le_imp_less)
  have "bit (pval (left_shift v k 2)) n = bit (push_bit k (pval v)) n" for n
  proof (cases "n < 128")
    case True
    show ?thesis
    proof (cases "k < 64")
      case small: True
      show ?thesis
      proof (cases "n < 64")
        case False
        then have "64 - k + (n - 64) = n - k" "n - 64 - k = n - k - 64" using small by simp_all
        moreover have "k \<le> n" "k \<le> n - 64 \<longleftrightarrow> 64 \<le> n - k" "\<not> 64 \<le> n - k \<longleftrightarrow> n - k < 64"
          using False small by auto
        ultimately show ?thesis using False True bit_cell_less [of x "n - k"]
          unfolding v left_shift_small [OF small] bit_push_bit_iff bit_pval2 bit_or_iff bit_drop_bit_eq comp_def
          by auto
      qed (auto simp: v left_shift_small [OF small] bit_push_bit_iff bit_pval2 simp del: pval.simps)
    next
      case large: False
      have "bit (push_bit k (pval v)) n \<longleftrightarrow> k \<le> n \<and> bit x (n - k)"
        using True large unfolding v bit_push_bit_iff bit_pval2 by auto
      then show ?thesis using large assms(2) True
        unfolding v by (auto simp: left_shift_large bit_pval2 bit_push_bit_iff simp del: pval.simps)
    qed
  next
    case False
    then have "\<not> bit (pval (left_shift v k 2)) n"
      using not_bit_less [OF pval_less, of "left_shift v k 2" 2 n] length_left_shift [OF assms(1,2)] by simp
    with False lt show ?thesis by blast
  qed
  then show ?thesis unfolding pow2_mult_push_bit by (rule bit_eqI)
qed

section \<open>The extended Euclidean algorithm\<close>

text \<open>The invariant of the loop, on the polynomials the four arrays hold.\<close>

definition egcd_inv :: "nat \<Rightarrow> nat \<times> nat \<times> nat \<times> nat \<Rightarrow> bool" where
  "egcd_inv a = (\<lambda>(u, v, g1, g2). u \<noteq> 0 \<and> v \<noteq> 0 \<and> v \<noteq> 1 \<and> u < 2 ^ 65 \<and> v < 2 ^ 65 \<and>
     pcong u (pmul g1 a) \<and> pcong v (pmul g2 a) \<and>
     (\<exists>s t. pmul s u XOR pmul t v = 1) \<and>
     (\<forall>d. bit v d \<longrightarrow> 2 ^ d * g1 < 2 ^ 65) \<and> (\<forall>d. bit u d \<longrightarrow> 2 ^ d * g2 < 2 ^ 65))"

lemma egcd_inv_swap: "egcd_inv a (u, v, g1, g2) \<Longrightarrow> u \<noteq> 1 \<Longrightarrow> egcd_inv a (v, u, g2, g1)"
  unfolding egcd_inv_def by (auto, metis xor.commute)

lemma pmul_eq_1: "pmul t v = 1 \<Longrightarrow> v = 1"
proof -
  assume t: "pmul t v = 1"
  then have "t \<noteq> 0" "v \<noteq> 0" by (metis pmul_0 zero_neq_one, metis pmul_0_right zero_neq_one)
  then obtain m n where m: "bit t m" "t < 2 ^ Suc m" and n: "bit v n" "v < 2 ^ Suc n"
    using top_bit_ex by (metis gr0I)
  then have "bit (pmul t v) (m + n)" by (intro pmul_top_bit)
  then have "m + n = 0" unfolding t bit_1_iff by simp
  then have "v < 2" using n by simp
  with \<open>v \<noteq> 0\<close> show "v = 1" by simp
qed

lemma bit_shift: "bit (2 ^ k * v) n \<longleftrightarrow> k \<le> n \<and> bit v (n - k)" for v :: nat
  unfolding pow2_mult_push_bit by (simp add: bit_push_bit_iff)

lemma top_cancel:
  assumes "top u i" "top v j" "j \<le> i" "bit (u XOR 2 ^ (i - j) * v) n"
  shows "n < i"
proof -
  have "n \<le> i" using assms top_bit_le by (fastforce simp: bit_xor_iff bit_shift)
  moreover have "n \<noteq> i" using assms by (auto simp: bit_xor_iff bit_shift top_def)
  ultimately show ?thesis by simp
qed

lemma less_if_bits: "(\<And>n. bit a n \<Longrightarrow> n < k) \<Longrightarrow> a < 2 ^ k" for a :: nat
  by (metis top_bit_ex gr0I less_le_trans Suc_leI power_increasing one_le_numeral zero_less_power zero_less_numeral)

lemma egcd_inv_reduce:
  assumes inv: "egcd_inv a (u, v, g1, g2)" and u: "top u i" and v: "top v j" and "j \<le> i"
  defines "u' \<equiv> u XOR 2 ^ (i - j) * v" and "g1' \<equiv> g1 XOR 2 ^ (i - j) * g2"
  shows "egcd_inv a (u', v, g1', g2)" "u' < u" "2 ^ (i - j) * v < 2 ^ 65" "2 ^ (i - j) * g2 < 2 ^ 65"
proof -
  let ?k = "i - j"
  have i: "i < 65" 
  proof (rule ccontr)
    assume "\<not> i < 65"
    moreover have "u < 2 ^ 65" "bit u i" using inv u by (simp_all add: egcd_inv_def top_def)
    ultimately show False using not_bit_less [of u 65 i] by simp
  qed
  show kv: "2 ^ ?k * v < 2 ^ 65"
  proof (rule less_if_bits)
    fix n assume "bit (2 ^ ?k * v) n"
    then have "n - ?k \<le> j" using top_bit_le [OF v] by (simp add: bit_shift)
    then show "n < 65" using \<open>j \<le> i\<close> i by linarith
  qed
  have bu': "bit u' n \<Longrightarrow> n < i" for n unfolding u'_def by (rule top_cancel [OF u v \<open>j \<le> i\<close>])
  have u'i: "u' < 2 ^ i" by (rule less_if_bits) (rule bu')
  with u show "u' < u" by (meson bit_ge less_le_trans top_def)
  have g2: "2 ^ i * g2 < 2 ^ 65" using inv u by (simp add: egcd_inv_def top_def)
  then show kg: "2 ^ ?k * g2 < 2 ^ 65"
    by (rule le_less_trans [rotated]) (simp add: power_increasing)
  obtain s t where st: "pmul s u XOR pmul t v = 1" using inv by (auto simp: egcd_inv_def)
  have uu': "u = u' XOR 2 ^ ?k * v" by (simp add: u'_def xor_simps)
  have kv': "2 ^ ?k * v = pmul (2 ^ ?k) v" by (simp add: pmul_pow2)
  have bez: "pmul s u' XOR pmul (pmul s (2 ^ ?k) XOR t) v = 1"
    using st unfolding uu' kv' by (simp add: pmul_xor_left pmul_xor_right pmul_assoc xor_simps)
  have "u' \<noteq> 0"
  proof
    assume "u' = 0"
    then have "pmul (pmul s (2 ^ ?k) XOR t) v = 1" using bez by simp
    then have "v = 1" by (rule pmul_eq_1)
    with inv show False by (simp add: egcd_inv_def)
  qed
  moreover have "u' < 2 ^ 65"
    using u'i i by (meson less_le_trans less_imp_le one_le_numeral power_increasing)
  moreover have "pcong u' (pmul g1' a)"
    unfolding u'_def g1'_def pmul_xor_left pmul_pow2 [symmetric] pmul_assoc
    using inv by (intro pcong_xor pcong_pmul pcong_refl) (simp_all add: egcd_inv_def)
  moreover have "2 ^ d * g1' < 2 ^ 65" if "bit v d" for d
  proof -
    have d: "?k + d \<le> i" using top_bit_le [OF v that] \<open>j \<le> i\<close> by simp
    have "2 ^ d * (2 ^ ?k * g2) = 2 ^ (?k + d) * g2" by (simp add: power_add)
    also have "\<dots> \<le> 2 ^ i * g2" using d by (simp add: power_increasing)
    finally have "2 ^ d * (2 ^ ?k * g2) < 2 ^ 65" using g2 by (rule le_less_trans)
    moreover have "2 ^ d * g1 < 2 ^ 65" using inv that by (simp add: egcd_inv_def)
    ultimately have "2 ^ d * g1 XOR 2 ^ d * (2 ^ ?k * g2) < 2 ^ 65" by (intro xor_less_2p)
    then show ?thesis unfolding g1'_def by (simp only: pow2_mult_push_bit push_bit_xor)
  qed
  moreover have "2 ^ d * g2 < 2 ^ 65" if "bit u' d" for d
    using g2 bu' [OF that] by (elim le_less_trans [rotated]) (simp add: power_increasing)
  ultimately show "egcd_inv a (u', v, g1', g2)"
    using inv bez unfolding egcd_inv_def by blast
qed

lemma egcd_inv_g1: "egcd_inv a (u, v, g1, g2) \<Longrightarrow> g1 < 2 ^ 64"
proof -
  assume inv: "egcd_inv a (u, v, g1, g2)"
  then have v: "0 < v" "v \<noteq> 1" by (simp_all add: egcd_inv_def)
  obtain d where d: "bit v d" "v < 2 ^ Suc d" using top_bit_ex [OF v(1)] by blast
  with v have "d \<noteq> 0" by (intro notI) simp
  then have "2 * g1 \<le> 2 ^ d * g1" by (cases d) auto
  moreover have "2 ^ d * g1 < 2 ^ 65" using inv d by (simp add: egcd_inv_def)
  ultimately have "2 * g1 < 2 ^ 65" by (rule le_less_trans)
  then show "g1 < 2 ^ 64" by simp
qed

text \<open>The four arrays have two cells each; a round of the loop keeps the invariant and
  makes the sum of the operands smaller.\<close>

definition egcd_cells :: "nat \<Rightarrow> egcd_state \<Rightarrow> bool" where
  "egcd_cells a = (\<lambda>(u, v, g1, g2). length u = 2 \<and> length v = 2 \<and> length g1 = 2 \<and> length g2 = 2 \<and>
     egcd_inv a (pval u, pval v, pval g1, pval g2))"

definition egcd_measure :: "egcd_state \<Rightarrow> nat" where
  "egcd_measure = (\<lambda>(u, v, g1, g2). pval u + pval v)"

lemma egcd_reduce_cells:
  assumes st: "egcd_cells a (u, v, g1, g2)" and "top (pval u) i" "top (pval v) j" "j \<le> i"
  defines "u' \<equiv> vecXor u (left_shift v (i - j) 2) 2" and "g1' \<equiv> vecXor g1 (left_shift g2 (i - j) 2) 2"
  shows "egcd_cells a (u', v, g1', g2) \<and> pval u' < pval u"
proof -
  have len: "length u = 2" "length v = 2" "length g1 = 2" "length g2 = 2"
    and inv: "egcd_inv a (pval u, pval v, pval g1, pval g2)" using st by (simp_all add: egcd_cells_def)
  note r = egcd_inv_reduce [OF inv assms(2-4)]
  have "i < 65"
    using inv assms(2) not_bit_less [of "pval u" 65 i] not_le_imp_less by (auto simp: egcd_inv_def top_def)
  then have k: "i - j < 128" by simp
  have "2 ^ (i - j) * pval v < 2 ^ 128" "2 ^ (i - j) * pval g2 < 2 ^ 128"
    using r(3,4) by simp_all
  then have "pval u' = pval u XOR 2 ^ (i - j) * pval v" "pval g1' = pval g1 XOR 2 ^ (i - j) * pval g2"
    unfolding u'_def g1'_def using len k by (simp_all only: pval_vecXor length_left_shift pval_left_shift)
  then show ?thesis using r(1,2) len by (simp add: egcd_cells_def u'_def g1'_def length_vecXor)
qed

lemma egcd_step_ok:
  assumes st: "egcd_cells a st" and "\<not> isUnit (fst st) 2"
  shows "\<exists>st'. egcd_step st = Some st' \<and> egcd_cells a st' \<and> egcd_measure st' < egcd_measure st"
proof -
  obtain u v g1 g2 where s: "st = (u, v, g1, g2)" by (cases st) auto
  have len: "length u = 2" "length v = 2" "length g1 = 2" "length g2 = 2"
    and inv: "egcd_inv a (pval u, pval v, pval g1, pval g2)" using st s by (simp_all add: egcd_cells_def)
  have u1: "pval u \<noteq> 1" using assms(2) s len isUnit_pval by simp
  have "pval u \<noteq> 0" "pval v \<noteq> 0" using inv by (simp_all add: egcd_inv_def)
  then obtain i j where i: "deg u 2 = Some i" "top (pval u) i" and j: "deg v 2 = Some j" "top (pval v) j"
    using deg_top len by blast
  show ?thesis
  proof (cases "i < j")
    case True
    have "egcd_cells a (v, u, g2, g1)" using egcd_inv_swap [OF inv u1] len by (simp add: egcd_cells_def)
    from egcd_reduce_cells [OF this j(2) i(2)] True show ?thesis
      unfolding s egcd_step_def len2 by (simp add: i j len swap_cells_2 egcd_measure_def)
  next
    case False
    from egcd_reduce_cells [OF st [unfolded s] i(2) j(2)] False show ?thesis
      unfolding s egcd_step_def len2 by (simp add: i j egcd_measure_def)
  qed
qed

lemma egcd_loop_ok:
  "egcd_cells a st \<Longrightarrow> \<exists>g. egcd_loop st = Some g \<and> length g = 2 \<and> pval g < 2 ^ 64 \<and> pcong 1 (pmul (pval g) a)"
proof (induction "egcd_measure st" arbitrary: st rule: less_induct)
  case less
  obtain u v g1 g2 where s: "st = (u, v, g1, g2)" by (cases st) auto
  have len: "length u = 2" "length g1 = 2"
    and inv: "egcd_inv a (pval u, pval v, pval g1, pval g2)" using less.prems s by (simp_all add: egcd_cells_def)
  show ?case
  proof (cases "isUnit u 2")
    case True
    then have "pval u = 1" using len isUnit_pval by simp
    then have "pcong 1 (pmul (pval g1) a)" using inv by (simp add: egcd_inv_def)
    moreover have "pval g1 < 2 ^ 64" using inv by (rule egcd_inv_g1)
    moreover have "egcd_loop st = Some g1" by (subst egcd_loop.simps) (simp add: s len2 True)
    ultimately show ?thesis using len by blast
  next
    case False
    then obtain st' where st': "egcd_step st = Some st'" "egcd_cells a st'" "egcd_measure st' < egcd_measure st"
      using egcd_step_ok [OF less.prems] s by auto
    have "egcd_loop st = egcd_loop st'" by (subst egcd_loop.simps) (use s st' False in \<open>simp add: len2\<close>)
    with less.hyps [OF st'(3,2)] show ?thesis by simp
  qed
qed

section \<open>Correctness of \<open>c_inv\<close>\<close>

lemma generateOrdElement_eval: "generateOrdElement = [27]"
  by (simp add: generateOrdElement_def mod_len_def irr_poly_index_def element_len_def TOGGLE_BIT_def
      upt_rec_numeral upt_conv_Cons)

lemma pval_modulus: "pval [27, 1] = irr"
  by (simp add: irr_def)

lemma c_inv_ok:
  assumes "a \<noteq> 0" shows "\<exists>b. c_inv a = Some b \<and> c_mul a b = 1"
proof -
  have a: "0 < unat a" "unat a < 2 ^ 64" using assms unat_less_64 by (simp_all add: unat_gt_0)
  obtain b where "pcong (pmul (unat a) b) 1" using pcong_inverse_ex [OF a] by blast
  then obtain q where q: "pmul (unat a) b XOR 1 = pmul q irr" by (auto simp: pcong_def)
  have bez: "pmul b (unat a) XOR pmul q irr = 1"
    unfolding pmul_commute [of b] q [symmetric] by simp
  have "egcd_inv (unat a) (unat a, irr, 1, 0)"
    unfolding egcd_inv_def prod.case
  proof (intro conjI)
    show "pcong irr (pmul 0 (unat a))" using pcong_irr [of 1] by simp
    show "\<forall>d. bit irr d \<longrightarrow> 2 ^ d * 1 < (2::nat) ^ 65"
    proof (intro allI impI)
      fix d assume "bit irr d"
      then have "d < 65" using irr_less not_bit_less [of irr 65 d] by (cases "d < 65") simp_all
      then show "2 ^ d * 1 < (2::nat) ^ 65" by (simp only: mult_1_right) (rule power_strict_increasing, simp_all)
    qed
  qed (use a bez irr_less in \<open>auto simp: irr_def\<close>)
  then have cells: "egcd_cells (unat a) ([a, 0], [27, 1], [1, 0], [0, 0])"
    by (simp add: egcd_cells_def pval_modulus del: pval.simps) simp
  from egcd_loop_ok [OF this] obtain g where g: "egcd_loop ([a, 0], [27, 1], [1, 0], [0, 0]) = Some g"
    "length g = 2" "pval g < 2 ^ 64" "pcong 1 (pmul (pval g) (unat a))" by blast
  obtain x y where xy: "g = [x, y]" using g(2) by (rule length2_cases)
  have "take_bit 64 (pval g) = take_bit 64 (unat x)" unfolding xy pval.simps by (rule take_bit_join)
  then have "unat x = pval g" using g(3) unat_less_64 [of x] by (simp add: take_bit_nat_eq_self)
  then have "pcong 1 (pmul (unat a) (unat x))" using g(4) by (simp add: pmul_commute)
  then have "c_mul a x = 1"
    by (intro cell_eqI) (metis pcong_c_mul pcong_sym pcong_trans unsigned_1)
  moreover have "c_inv a = Some x"
    using g(1) by (simp add: c_inv_def egcd_def generateOrdElement_eval element_len_def setUnit_def setZero_def
      upt_2 xy numeral_2_eq_2)
  ultimately show ?thesis by blast
qed

lemma c_inv_zero: "c_inv 0 = None"
proof -
  have "egcd_step ([0, 0], [27, 1], [1, 0], [0, 0]) = None"
    unfolding egcd_step_def len2 by (simp add: deg_zero)
  then have "egcd_loop ([0, 0], [27, 1], [1, 0], [0, 0]) = None"
    by (subst egcd_loop.simps) (simp add: len2 isUnit_def)
  then show ?thesis
    by (simp add: c_inv_def egcd_def generateOrdElement_eval element_len_def setUnit_def setZero_def upt_2 numeral_2_eq_2)
qed

end
