(* ===== verification/ElementLaws.thy ===== *)
theory ElementLaws
  imports Inversion
begin

text \<open>
  The optimised routines of \<open>FFF::Element\<close> against their references: the bit-serial
  \<open>naiveMul\<close> computes the same product as the table driven \<open>c_mul\<close>, the vectorised
  butterfly \<open>do_FFT_step\<close> computes \<open>b[i] += factor * a[i]; a[i] += b[i]\<close> for every index,
  and \<open>c_exp\<close> is exponentiation.
\<close>

unbundle bit_operations_syntax

section \<open>The bit-serial product\<close>

lemma take_bit_Suc_top: "take_bit (Suc n) a = take_bit n a XOR (if bit a n then 2 ^ n else 0)" for a :: nat
  by (rule bit_eqI) (auto simp: bit_take_bit_iff bit_xor_iff bit_exp_iff less_Suc_eq)

definition naive_row :: "cell_t list \<Rightarrow> cell_t list \<Rightarrow> nat \<Rightarrow> nat \<Rightarrow> cell_t list \<Rightarrow> cell_t list" where
  "naive_row a b i m = fold (\<lambda>j clmul.
     if EXTRACT_BIT a i \<and> EXTRACT_BIT b j then TOGGLE_BIT clmul (i + j) else clmul) [0..<m]"

lemma naive_row:
  assumes "length a = 1" "length b = 1" "length c = 2" "i < 64" "m \<le> 64"
  shows "length (naive_row a b i m c) = 2 \<and>
    pval (naive_row a b i m c) = pval c XOR (if bit (pval a) i then 2 ^ i * take_bit m (pval b) else 0)"
  using assms(5)
proof (induction m)
  case 0 then show ?case using assms by (simp add: naive_row_def)
next
  case (Suc m)
  let ?r = "naive_row a b i m c"
  have IH: "length ?r = 2" "pval ?r = pval c XOR (if bit (pval a) i then 2 ^ i * take_bit m (pval b) else 0)"
    using Suc by simp_all
  have step: "naive_row a b i (Suc m) c = (if bit (pval a) i \<and> bit (pval b) m then TOGGLE_BIT ?r (i + m) else ?r)"
    using assms Suc.prems by (simp add: naive_row_def EXTRACT_BIT_pval)
  have "(i + m) div 64 < 2" using assms Suc.prems by (simp add: less_mult_imp_div_less)
  then have t: "pval (TOGGLE_BIT ?r (i + m)) = pval ?r XOR 2 ^ (i + m)" using IH by (simp add: pval_TOGGLE_BIT)
  have "2 ^ i * take_bit (Suc m) (pval b) = 2 ^ i * take_bit m (pval b) XOR (if bit (pval b) m then 2 ^ (i + m) else 0)"
    unfolding take_bit_Suc_top pow2_mult_push_bit push_bit_xor
    by (simp add: push_bit_eq_mult power_add mult.commute)
  then show ?case using IH by (simp add: step t xor_simps)
qed

lemma naive_rows:
  assumes "length a = 1" "length b = 1" "n \<le> 64"
  shows "length (fold (\<lambda>i. naive_row a b i 64) [0..<n] [0, 0]) = 2 \<and>
    pval (fold (\<lambda>i. naive_row a b i 64) [0..<n] [0, 0]) = pmul (take_bit n (pval a)) (pval b)"
  using assms(3)
proof (induction n)
  case (Suc n)
  let ?r = "fold (\<lambda>i. naive_row a b i 64) [0..<n] [0, 0]"
  have IH: "length ?r = 2" "pval ?r = pmul (take_bit n (pval a)) (pval b)" using Suc by simp_all
  have "pval b < 2 ^ 64" using pval_less [OF assms(2)] by simp
  then have "take_bit 64 (pval b) = pval b" by (simp add: take_bit_nat_eq_self)
  then show ?case
    using naive_row [of a b ?r n 64] assms Suc.prems IH
    by (auto simp: take_bit_Suc_top pmul_xor_left pmul_pow2)
qed simp

lemma pval_single: "pval [a] = unat a"
  by simp

lemma naiveMul_prod_pmul:
  "length (naiveMul_prod [a] [b]) = 2 \<and> pval (naiveMul_prod [a] [b]) = pmul (unat a) (unat b)"
proof -
  have "naiveMul_prod [a] [b] = fold (\<lambda>i. naive_row [a] [b] i 64) [0..<64] [0, 0]"
    by (simp only: naiveMul_prod_def naive_row_def ord_def element_len_def) (simp add: numeral_2_eq_2)
  then show ?thesis
    using naive_rows [of "[a]" "[b]" 64] unat_less_64 [of a]
    by (simp add: pval_single take_bit_nat_eq_self del: pval.simps)
qed

text \<open>One step of the reduction loop: when bit \<open>i\<close> is set, \<open>x^(i-64)\<close> times the modulus is added.\<close>

definition naive_red :: "nat \<Rightarrow> cell_t list \<Rightarrow> cell_t list" where
  "naive_red i clmul = (if EXTRACT_BIT clmul i
     then fold (\<lambda>j clmul. TOGGLE_BIT clmul (i - ord + irr_poly_index ! 2 ! j)) [0..<mod_len ! 2] clmul
     else clmul)"

lemma naive_red_step:
  assumes "length c = 2" "64 \<le> i" "i < 128" "pval c < 2 ^ Suc i"
  shows "length (naive_red i c) = 2 \<and> pcong (pval (naive_red i c)) (pval c) \<and> pval (naive_red i c) < 2 ^ i"
proof (cases "bit (pval c) i")
  case True
  let ?k = "i - 64"
  have i: "i - 64 + 64 = i" "i - 64 + 1 = i - 63" using assms by simp_all
  have e: "naive_red i c = TOGGLE_BIT (TOGGLE_BIT (TOGGLE_BIT (TOGGLE_BIT (TOGGLE_BIT c ?k) (?k + 1)) (?k + 3)) (?k + 4)) (?k + 64)"
    using True assms by (simp add: naive_red_def EXTRACT_BIT_pval less_mult_imp_div_less mod_len_def irr_poly_index_def ord_def
        upt_rec_numeral upt_conv_Cons i [simplified])
  have "?k + 64 < 128" using assms by simp
  then have "j div 64 < 2" if "j \<le> ?k + 64" for j using that by (simp add: less_mult_imp_div_less)
  then have "pval (naive_red i c) = pval c XOR 2 ^ ?k XOR 2 ^ (?k + 1) XOR 2 ^ (?k + 3) XOR 2 ^ (?k + 4) XOR 2 ^ (?k + 64)"
    unfolding e using assms(1) by (simp add: pval_TOGGLE_BIT xor_simps)
  also have "\<dots> = pval c XOR pmul (2 ^ ?k) irr"
  proof -
    have 1: "irr = 2 ^ 0 XOR 2 ^ 1 XOR 2 ^ 3 XOR 2 ^ 4 XOR 2 ^ 64" by (simp add: irr_def)
    show ?thesis unfolding 1 pmul_xor_right pmul_pow2 power_add [symmetric] by simp
  qed
  finally have p: "pval (naive_red i c) = pval c XOR pmul (2 ^ ?k) irr" .
  have "pcong (pval c XOR pmul (2 ^ ?k) irr) (pval c XOR 0)" by (intro pcong_xor pcong_refl pcong_irr)
  moreover have "pval c XOR pmul (2 ^ ?k) irr < 2 ^ i"
  proof (rule less_if_bits)
    fix n assume "bit (pval c XOR pmul (2 ^ ?k) irr) n"
    then have n: "bit (pval c XOR 2 ^ ?k * irr) n" by (simp add: pmul_pow2)
    have t: "top (pval c) i" using True assms(4) by (simp add: top_def)
    have "top irr 64" using irr_bit irr_less by (simp add: top_def)
    from top_cancel [OF t this assms(2) n] show "n < i" .
  qed
  ultimately show ?thesis using p by (simp add: e assms)
next
  case False
  then have "naive_red i c = c" using assms by (simp add: naive_red_def EXTRACT_BIT_pval less_mult_imp_div_less)
  moreover have "pval c < 2 ^ i"
  proof (rule less_if_bits)
    fix n assume n: "bit (pval c) n"
    then have "n < Suc i" using not_bit_less [OF assms(4), of n] not_le_imp_less by blast
    with False n show "n < i" by (cases "n = i") auto
  qed
  ultimately show ?thesis using assms by simp
qed

lemma naive_reds:
  assumes "length c = 2" "pval c < 2 ^ (64 + n)" "n \<le> 64"
  shows "length (fold naive_red (rev [64..<64 + n]) c) = 2 \<and>
    pcong (pval (fold naive_red (rev [64..<64 + n]) c)) (pval c) \<and>
    pval (fold naive_red (rev [64..<64 + n]) c) < 2 ^ 64"
  using assms
proof (induction n arbitrary: c)
  case (Suc n)
  have s: "length (naive_red (64 + n) c) = 2 \<and> pcong (pval (naive_red (64 + n) c)) (pval c) \<and>
      pval (naive_red (64 + n) c) < 2 ^ (64 + n)"
    using Suc.prems by (intro naive_red_step) simp_all
  then have "length (fold naive_red (rev [64..<64 + n]) (naive_red (64 + n) c)) = 2 \<and>
    pcong (pval (fold naive_red (rev [64..<64 + n]) (naive_red (64 + n) c))) (pval (naive_red (64 + n) c)) \<and>
    pval (fold naive_red (rev [64..<64 + n]) (naive_red (64 + n) c)) < 2 ^ 64"
    using Suc by simp
  moreover have "rev [64..<64 + Suc n] = (64 + n) # rev [64..<64 + n]" by (simp only: add_Suc_right upt_Suc) simp
  ultimately show ?case using s by (simp only: fold_simps) (blast intro: pcong_trans)
qed simp

lemma naiveMul_c_mul: "naiveMul a b = c_mul a b"
proof -
  let ?p = "naiveMul_prod [a] [b]" and ?r = "naiveMul_reduce (naiveMul_prod [a] [b])"
  have p: "length ?p = 2" "pval ?p = pmul (unat a) (unat b)" using naiveMul_prod_pmul by simp_all
  have "pval ?p < 2 ^ (64 + 64)" using pval_less [OF p(1)] by simp
  moreover have "?r = fold naive_red (rev [64..<64 + 64]) ?p"
    by (simp only: naiveMul_reduce_def naive_red_def [abs_def] ord_def mult_2)
  ultimately have r: "length ?r = 2" "pcong (pval ?r) (pmul (unat a) (unat b))" "pval ?r < 2 ^ 64"
    using naive_reds [OF p(1), of 64] p(2) by simp_all
  obtain x y where xy: "?r = [x, y]" using r(1) by (rule length2_cases)
  have "take_bit 64 (pval ?r) = take_bit 64 (unat x)" unfolding xy pval.simps by (rule take_bit_join)
  then have "unat x = pval ?r" using r(3) unat_less_64 [of x] by (simp add: take_bit_nat_eq_self)
  then have "x = c_mul a b" using r(2) by (intro cell_eqI) (metis pcong_c_mul pcong_sym pcong_trans)
  then show ?thesis by (simp add: naiveMul_def xy)
qed

section \<open>The vectorised butterfly\<close>

lemma c_mul_comm: "c_mul a b = c_mul b a"
  by (simp add: c_mul_def mm_clmulepi64_def pmul_commute [of "unat a"])

lemma shuffle_lane_lookup: "unat w < 8 \<Longrightarrow> shuffle_lane lookup_reg w = lookupTable1 ! unat w"
proof -
  assume "unat w < 8"
  then have "unat w \<in> {0, 1, 2, 3, 4, 5, 6, 7}" by auto
  then have "w \<in> {0, 1, 2, 3, 4, 5, 6, 7}" by (auto simp: word_unat_eq_iff)
  moreover have "list_all (\<lambda>w. shuffle_lane lookup_reg w = lookupTable1 ! unat w) [0, 1, 2, 3, 4, 5, 6, 7]"
    by (simp add: shuffle_lane_def shuffle_byte_def lookup_reg_def lookupTable1_def upt_rec_numeral upt_conv_Cons)
  ultimately show ?thesis by auto
qed

lemma do_FFT_vec_lanes:
  "do_FFT_vec factor (a0, a1) (b0, b1) = (let b0' = c_add b0 (c_mul factor a0); b1' = c_add b1 (c_mul factor a1)
     in ((c_add a0 b0', c_add a1 b1'), (b0', b1')))"
proof -
  have sh: "shuffle_lane lookup_reg (drop_bit 60 (snd (mm_clmulepi64 x y))) = lookupTable1 ! unat (drop_bit 60 (snd (mm_clmulepi64 x y)))" for x y
    using c_mul_lookup_in_range [of x y] by (intro shuffle_lane_lookup) (simp add: lookupTable1_def)
  show ?thesis
    unfolding c_mul_comm [of factor]
    by (simp add: do_FFT_vec_def c_mul_def Let_def case_prod_beta sh c_add_def xor_simps)
qed

definition butterfly :: "cell_t \<Rightarrow> cell_t \<Rightarrow> cell_t \<Rightarrow> cell_t \<times> cell_t" where
  "butterfly factor x y = (let y' = c_add y (c_mul factor x) in (c_add x y', y'))"

lemma do_FFT_iter_nth:
  fixes factor
  assumes "2 * i + 1 < length a" "2 * i + 1 < length b"
  defines "r \<equiv> do_FFT_iter factor i (a, b)"
  shows "length (fst r) = length a \<and> length (snd r) = length b \<and>
    (k < length a \<and> k < length b \<longrightarrow> (fst r ! k, snd r ! k) =
      (if k = 2 * i \<or> k = 2 * i + 1 then butterfly factor (a ! k) (b ! k) else (a ! k, b ! k)))"
  using assms(1,2) unfolding r_def do_FFT_iter_def butterfly_def
  by (auto simp: do_FFT_vec_lanes Let_def nth_list_update)

lemma do_FFT_iters:
  fixes factor
  assumes "2 * n \<le> length a" "2 * n \<le> length b"
  defines "r \<equiv> fold (do_FFT_iter factor) [0..<n] (a, b)"
  shows "length (fst r) = length a \<and> length (snd r) = length b \<and>
    (\<forall>k < min (length a) (length b). (fst r ! k, snd r ! k) =
      (if k < 2 * n then butterfly factor (a ! k) (b ! k) else (a ! k, b ! k)))"
  using assms(1,2) unfolding r_def
proof (induction n)
  case (Suc n)
  obtain a' b' where r: "fold (do_FFT_iter factor) [0..<n] (a, b) = (a', b')" by fastforce
  have IH: "length a' = length a" "length b' = length b"
    "\<And>k. k < min (length a) (length b) \<Longrightarrow>
      (a' ! k, b' ! k) = (if k < 2 * n then butterfly factor (a ! k) (b ! k) else (a ! k, b ! k))"
    using Suc r by auto
  have n: "2 * n + 1 < length a'" "2 * n + 1 < length b'" using Suc.prems IH by simp_all
  let ?q = "do_FFT_iter factor n (a', b')"
  have "(fst ?q ! k, snd ?q ! k) = (if k < 2 * Suc n then butterfly factor (a ! k) (b ! k) else (a ! k, b ! k))"
    if k: "k < min (length a) (length b)" for k
    using do_FFT_iter_nth [OF n, of factor k] IH(1,2) IH(3) [OF k] k by (auto split: if_splits)
  moreover have "length (fst ?q) = length a" "length (snd ?q) = length b"
    using do_FFT_iter_nth [OF n, of factor 0] IH by simp_all
  ultimately show ?case using r by simp
qed simp

lemma do_FFT_step_nth:
  assumes "len \<le> length a" "len \<le> length b" "k < len"
  shows "(fst (do_FFT_step factor a b len) ! k, snd (do_FFT_step factor a b len) ! k) = butterfly factor (a ! k) (b ! k)"
proof -
  obtain a' b' where r: "fold (do_FFT_iter factor) [0..<len div 2] (a, b) = (a', b')" by fastforce
  have IH: "length a' = length a" "length b' = length b"
    "\<And>k. k < min (length a) (length b) \<Longrightarrow>
      (a' ! k, b' ! k) = (if k < 2 * (len div 2) then butterfly factor (a ! k) (b ! k) else (a ! k, b ! k))"
    using do_FFT_iters [of "len div 2" a b factor] r assms by auto
  have k: "(a' ! k, b' ! k) = (if k < 2 * (len div 2) then butterfly factor (a ! k) (b ! k) else (a ! k, b ! k))"
    using IH(3) assms by simp
  show ?thesis
  proof (cases "odd len \<and> k = len - 1")
    case True
    then have "\<not> k < 2 * (len div 2)" by (auto elim!: oddE)
    with k have "a' ! k = a ! k" "b' ! k = b ! k" by auto
    then show ?thesis using True IH assms
      by (simp add: do_FFT_step_def r Let_def odd_iff_mod_2_eq_one butterfly_def)
  next
    case False
    then have "k < 2 * (len div 2)" using assms(3) by (cases "odd len") (auto elim!: oddE evenE)
    with k have "(a' ! k, b' ! k) = butterfly factor (a ! k) (b ! k)" by simp
    then show ?thesis using False assms(3)
      by (auto simp: do_FFT_step_def r Let_def odd_iff_mod_2_eq_one)
  qed
qed

end
