(* ===== verification/FieldElement.thy ===== *)
theory FieldElement
  imports ElementLaws
begin

text \<open>
  The rest of \<open>FieldElement.hpp\<close> and \<open>FieldElement.cpp\<close>: inversion and division make the
  type a field, \<open>power\<close>, the order of \<open>compareFieldElements\<close>, the mappings between integers
  and field elements, the standard basis, the element of an affine space with a given
  index, printing, and \<open>invertPointwise\<close>, which inverts a vector with one inversion on a
  binary tree of products.
\<close>

unbundle bit_operations_syntax

section \<open>The field\<close>

text \<open>\<open>inverse\<close> of the C++ class; it has no value where \<open>c_inv\<close> has no defined result.\<close>

definition fe_inverse :: "FieldElement \<Rightarrow> FieldElement option" where
  "fe_inverse a = map_option FieldElement (c_inv (element a))"

instantiation FieldElement :: field
begin

definition inverse_FieldElement :: "FieldElement \<Rightarrow> FieldElement" where
  "inverse_FieldElement a = (case fe_inverse a of None \<Rightarrow> 0 | Some b \<Rightarrow> b)"

definition divide_FieldElement :: "FieldElement \<Rightarrow> FieldElement \<Rightarrow> FieldElement" where
  "divide_FieldElement a b = a * inverse b"

instance
proof
  fix a b :: FieldElement
  show "inverse 0 = (0::FieldElement)"
    by (simp add: inverse_FieldElement_def fe_inverse_def fe_defs c_inv_zero)
  show "inverse a * a = 1" if "a \<noteq> 0"
  proof -
    have "element a \<noteq> 0" using that by (cases a) (simp add: fe_defs)
    then obtain c where "c_inv (element a) = Some c" "c_mul (element a) c = 1" using c_inv_ok by blast
    then show ?thesis
      by (simp add: inverse_FieldElement_def fe_inverse_def fe_defs c_mul_comm [of c])
  qed
  show "a div b = a * inverse b" by (simp add: divide_FieldElement_def)
qed

end

lemma fe_inverse_eq: "fe_inverse a = (if a = 0 then None else Some (inverse a))"
proof (cases "a = 0")
  case True
  then show ?thesis by (simp add: fe_inverse_def fe_defs c_inv_zero)
next
  case False
  then have "element a \<noteq> 0" by (cases a) (simp add: fe_defs)
  then obtain c where "c_inv (element a) = Some c" using c_inv_ok by blast
  with False show ?thesis by (simp add: inverse_FieldElement_def fe_inverse_def)
qed

definition felem_divide :: "FieldElement \<Rightarrow> FieldElement \<Rightarrow> FieldElement option" where
  "felem_divide a b = map_option (felem_times a) (fe_inverse b)"

lemma felem_divide_eq: "felem_divide a b = (if b = 0 then None else Some (a / b))"
  by (simp add: felem_divide_def fe_inverse_eq divide_FieldElement_def times_FieldElement_def)

section \<open>Exponentiation\<close>

lemma c_sqr_power: "FieldElement (c_sqr a) = FieldElement a ^ 2"
  by (simp add: c_sqr_def times_FieldElement_def felem_times_def power2_eq_square)

lemma square_multiply: "(if odd n then r * b else r) * (b ^ 2) ^ (n div 2) = r * b ^ n" for b r :: FieldElement
  by (cases "odd n") (auto elim!: oddE evenE simp: power_mult [symmetric] mult_ac)

lemma c_exp_loop_power:
  "FieldElement (c_exp_loop a exp res) = FieldElement res * FieldElement a ^ unat exp"
proof (induction a exp res rule: c_exp_loop.induct)
  case (1 a exp res)
  show ?case
  proof (cases "exp = 0")
    case True then show ?thesis by (simp add: c_exp_loop.simps)
  next
    case False
    have o: "1 AND exp \<noteq> 0 \<longleftrightarrow> odd (unat exp)"
      using bit_unat [of exp 0] by (simp add: one_and_eq mod_2_eq_odd bit_0)
    have h: "unat (drop_bit 1 exp) = unat exp div 2" by (simp only: unat_drop_bit_eq) (simp add: drop_bit_Suc)
    have "FieldElement (c_exp_loop a exp res) =
        FieldElement (if odd (unat exp) then c_mul res a else res) * (FieldElement a ^ 2) ^ (unat exp div 2)"
      using 1 [OF False] False by (subst c_exp_loop.simps) (simp add: o h [simplified] c_sqr_power)
    also have "FieldElement (if odd (unat exp) then c_mul res a else res) =
        (if odd (unat exp) then FieldElement res * FieldElement a else FieldElement res)"
      by (simp add: times_FieldElement_def felem_times_def)
    finally show ?thesis by (simp only: square_multiply)
  qed
qed

text \<open>\<open>power\<close> takes a signed exponent and passes it on as an unsigned one.\<close>

definition power_fe :: "FieldElement \<Rightarrow> int \<Rightarrow> FieldElement" where
  "power_fe a e = FieldElement (c_exp (element a) (word_of_int e))"

lemma power_fe_unat: "power_fe a e = a ^ unat (word_of_int e :: 64 word)"
  using c_exp_loop_power [of "element a" "word_of_int e" c_setUnit]
  by (simp add: power_fe_def c_exp_def one_FieldElement_def [symmetric])

lemma power_fe_nonneg: "0 \<le> e \<Longrightarrow> e < 2 ^ 63 \<Longrightarrow> power_fe a e = a ^ nat e"
  by (simp add: power_fe_unat unat_eq_nat_uint unsigned_of_int take_bit_int_eq_self)

section \<open>Order\<close>

definition compareFieldElements :: "FieldElement \<Rightarrow> FieldElement \<Rightarrow> bool" where
  "compareFieldElements e1 e2 \<longleftrightarrow> element e2 < element e1"

section \<open>Integers and field elements\<close>

definition bitmask :: "nat \<Rightarrow> size_t" where
  "bitmask numBits = push_bit numBits 1 - 1"

definition mapIntegerToFieldElement :: "nat \<Rightarrow> nat \<Rightarrow> size_t \<Rightarrow> FieldElement" where
  "mapIntegerToFieldElement shift numBits numToWrite = (let
     numToWrite_masked = (if numBits < 64 then numToWrite AND bitmask numBits else numToWrite)
     in FieldElement (push_bit shift numToWrite_masked))"

definition mapFieldElementToInteger :: "nat \<Rightarrow> nat \<Rightarrow> FieldElement \<Rightarrow> size_t" where
  "mapFieldElementToInteger shift numBits e = (let result = drop_bit shift (element e)
     in if numBits < 64 then result AND bitmask numBits else result)"

definition zero_fe :: FieldElement where "zero_fe = mapIntegerToFieldElement 0 0 0"
definition one_fe :: FieldElement where "one_fe = mapIntegerToFieldElement 0 1 1"
definition xFE :: FieldElement where "xFE = mapIntegerToFieldElement 1 1 1"

lemma and_bitmask: "n < 64 \<Longrightarrow> w AND bitmask n = take_bit n w"
  by (simp add: bitmask_def take_bit_eq_mask mask_eq_exp_minus_1)

lemma zero_fe [simp]: "zero_fe = 0"
  by (simp add: zero_fe_def mapIntegerToFieldElement_def and_bitmask fe_defs)

lemma one_fe [simp]: "one_fe = 1"
  by (simp add: one_fe_def mapIntegerToFieldElement_def and_bitmask fe_defs)

lemma xFE_eval: "xFE = fe 2"
  by (simp add: xFE_def mapIntegerToFieldElement_def and_bitmask fe_def)

text \<open>Reading back \<open>numBits\<close> bits at \<open>shift\<close> from the element \<open>mapIntegerToFieldElement\<close> made
  returns the low \<open>numBits\<close> bits of the integer, as long as they fit the 64-bit cell.\<close>

theorem mapInteger_round_trip:
  assumes "shift + numBits \<le> 64"
  shows "mapFieldElementToInteger shift numBits (mapIntegerToFieldElement shift numBits n) = take_bit numBits n"
proof (cases "numBits < 64")
  case True
  have "take_bit numBits (drop_bit shift (push_bit shift (take_bit numBits n))) = take_bit numBits n"
    by (rule bit_word_eqI) (use assms in \<open>auto simp: bit_simps\<close>)
  with True show ?thesis by (simp add: mapIntegerToFieldElement_def mapFieldElementToInteger_def and_bitmask)
next
  case False
  then have "numBits = 64" "shift = 0" using assms by auto
  moreover have "take_bit 64 n = n" by (rule bit_word_eqI) (simp add: bit_take_bit_iff)
  ultimately show ?thesis by (simp add: mapIntegerToFieldElement_def mapFieldElementToInteger_def)
qed

theorem mapInteger_round_trip_witness:
  "mapFieldElementToInteger 60 4 (mapIntegerToFieldElement 60 4 0xAB) = 0xB"
  using mapInteger_round_trip [of 60 4 "0xAB"] by simp

section \<open>Bases and affine spaces\<close>

definition getStandartBasis :: "nat \<Rightarrow> FieldElement set" where
  "getStandartBasis basisSize = fold (\<lambda>i. insert (mapIntegerToFieldElement i 1 1)) [0..<basisSize] {}"

definition getStandartOrderedBasis :: "nat \<Rightarrow> FieldElement list" where
  "getStandartOrderedBasis basisSize = fold (\<lambda>i basis. basis @ [mapIntegerToFieldElement i 1 1]) [0..<basisSize] []"

definition getSpaceElementByIndex :: "FieldElement list \<Rightarrow> FieldElement \<Rightarrow> size_t \<Rightarrow> FieldElement" where
  "getSpaceElementByIndex orderedBasis affineShift index = (let
     (iter, res) = fold (\<lambda>b (iter, res). (drop_bit 1 iter, if iter mod 2 = 1 then res + b else res))
       orderedBasis (index, zero_fe)
     in affineShift + res)"

section \<open>Printing\<close>

function asString_loop :: "size_t \<Rightarrow> bool \<Rightarrow> string \<Rightarrow> string" where
  "asString_loop elem first s = (if elem = 0 then s
     else asString_loop (drop_bit 1 elem) False
       ((if first then s else s @ '' '') @ (if elem AND 1 = 1 then ''1'' else ''0'')))"
  by pat_completeness auto
termination
proof (relation "measure (\<lambda>(elem, first, s). unat elem)")
  fix elem :: size_t and first s assume "elem \<noteq> 0"
  then have "drop_bit 1 (unat elem) < unat elem" by (simp add: unat_gt_0 drop_bit_eq_div)
  then have "unat (drop_bit 1 elem) < unat elem" by (simp only: unat_drop_bit_eq)
  then show "((drop_bit 1 elem, False, (if first then s else s @ '' '') @ (if elem AND 1 = 1 then ''1'' else ''0'')), elem, first, s)
      \<in> measure (\<lambda>(elem, first, s). unat elem)" by simp
qed simp

declare asString_loop.simps [simp del]

definition asString :: "FieldElement \<Rightarrow> string" where
  "asString e = asString_loop (element e) True ''['' @ '']''"

section \<open>Inverting a vector\<close>

text \<open>The first loop appends the layer of pairwise products to \<open>treeOfElems\<close>.\<close>

function build_layer :: "FieldElement list \<Rightarrow> nat \<Rightarrow> nat \<Rightarrow> FieldElement list \<times> nat" where
  "build_layer treeOfElems currLocation currLayerEnd = (if currLocation < currLayerEnd then
     if currLocation + 1 = currLayerEnd
     then build_layer (treeOfElems @ [treeOfElems ! currLocation]) (currLocation + 1) currLayerEnd
     else build_layer (treeOfElems @ [treeOfElems ! currLocation * treeOfElems ! (currLocation + 1)])
       (currLocation + 2) currLayerEnd
     else (treeOfElems, currLocation))"
  by pat_completeness auto
termination by (relation "measure (\<lambda>(t, c, e). e - c)") auto

declare build_layer.simps [simp del]

text \<open>The stack \<open>layersEnd\<close> is a list with its top first.\<close>

partial_function (option) build_tree ::
  "FieldElement list \<Rightarrow> nat list \<Rightarrow> nat \<Rightarrow> (FieldElement list \<times> nat list) option" where
  "build_tree treeOfElems layersEnd currLocation = (let
     currLayerEnd = hd layersEnd;
     (treeOfElems, currLocation) = build_layer treeOfElems currLocation currLayerEnd
     in if currLayerEnd + 1 = length treeOfElems then Some (treeOfElems, layersEnd)
     else build_tree treeOfElems (length treeOfElems # layersEnd) currLocation)"

function down_layer :: "FieldElement list \<Rightarrow> nat \<Rightarrow> nat \<Rightarrow> nat \<Rightarrow> FieldElement list" where
  "down_layer treeOfElems parentIndex childIndex currLayerEnd = (if childIndex < currLayerEnd then
     if childIndex + 1 = currLayerEnd
     then down_layer (treeOfElems[childIndex := treeOfElems ! parentIndex]) parentIndex (childIndex + 1) currLayerEnd
     else let thisChildVal = treeOfElems ! parentIndex * treeOfElems ! (childIndex + 1);
              brothersVal = treeOfElems ! parentIndex * treeOfElems ! childIndex
          in down_layer (treeOfElems[childIndex := thisChildVal, childIndex + 1 := brothersVal])
               (parentIndex + 1) (childIndex + 2) currLayerEnd
     else treeOfElems)"
  by pat_completeness auto
termination by (relation "measure (\<lambda>(t, p, c, e). e - c)") auto

declare down_layer.simps [simp del]

definition layer_start :: "nat list \<Rightarrow> nat" where
  "layer_start layersEnd = (case layersEnd of [] \<Rightarrow> 0 | e # _ \<Rightarrow> e)"

fun down_tree :: "FieldElement list \<Rightarrow> nat list \<Rightarrow> FieldElement list" where
  "down_tree treeOfElems [] = treeOfElems"
| "down_tree treeOfElems (currLayerEnd # layersEnd) =
     down_tree (down_layer treeOfElems currLayerEnd (layer_start layersEnd) currLayerEnd) layersEnd"

definition invertPointwise :: "FieldElement list \<Rightarrow> FieldElement list option" where
  "invertPointwise elems = (if length elems = 0 then Some elems else
     case build_tree elems [length elems] 0 of None \<Rightarrow> None
     | Some (treeOfElems, layersEnd) \<Rightarrow>
       (case fe_inverse (treeOfElems ! (length treeOfElems - 1)) of None \<Rightarrow> None
        | Some i \<Rightarrow> Some (take (length elems)
            (down_tree (treeOfElems[length treeOfElems - 1 := i]) layersEnd))))"

fun pairs :: "FieldElement list \<Rightarrow> FieldElement list" where
  "pairs [] = []"
| "pairs [x] = [x]"
| "pairs (x # y # r) = x * y # pairs r"

lemma build_layer_pairs:
  "build_layer (P @ L @ Q) (length P) (length P + length L) = (P @ L @ Q @ pairs L, length P + length L)"
proof (induction L arbitrary: P Q rule: pairs.induct)
  case 1 show ?case by (simp add: build_layer.simps)
next
  case (2 x) show ?case by (simp add: build_layer.simps nth_append)
next
  case (3 x y r)
  have "build_layer (P @ (x # y # r) @ Q) (length P) (length P + length (x # y # r)) =
      build_layer ((P @ [x, y]) @ r @ Q @ [x * y]) (length (P @ [x, y])) (length (P @ [x, y]) + length r)"
    by (subst build_layer.simps) (simp add: nth_append)
  also have "\<dots> = (P @ (x # y # r) @ Q @ pairs (x # y # r), length P + length (x # y # r))"
    by (simp only: 3) simp
  finally show ?case .
qed

lemma down_layer_pairs:
  assumes "0 \<notin> set L"
  shows "down_layer (P @ L @ R @ map inverse (pairs L) @ Q) (length P + length L + length R) (length P) (length P + length L)
    = P @ map inverse L @ R @ map inverse (pairs L) @ Q"
  using assms
proof (induction L arbitrary: P R rule: pairs.induct)
  case 1 show ?case by (simp add: down_layer.simps)
next
  case (2 x) show ?case by (simp add: down_layer.simps nth_append list_update_append)
next
  case (3 x y r)
  let ?m = "inverse (x * y)"
  have xy: "?m * y = inverse x" "?m * x = inverse y" using 3 by simp_all
  have "down_layer (P @ (x # y # r) @ R @ map inverse (pairs (x # y # r)) @ Q)
      (length P + length (x # y # r) + length R) (length P) (length P + length (x # y # r)) =
    down_layer ((P @ [inverse x, inverse y]) @ r @ (R @ [?m]) @ map inverse (pairs r) @ Q)
      (length (P @ [inverse x, inverse y]) + length r + length (R @ [?m])) (length (P @ [inverse x, inverse y]))
      (length (P @ [inverse x, inverse y]) + length r)"
    by (subst down_layer.simps)
      (simp add: nth_append list_update_append xy Let_def add_ac del: inverse_mult_distrib)
  also have "\<dots> = P @ map inverse (x # y # r) @ R @ map inverse (pairs (x # y # r)) @ Q"
    using 3 by (subst 3) simp_all
  finally show ?case .
qed

lemma length_pairs: "length (pairs L) = (length L + 1) div 2"
  by (induction L rule: pairs.induct) auto

lemma prod_pairs: "prod_list (pairs L) = prod_list L"
  by (induction L rule: pairs.induct) (auto simp: mult_ac)

lemma zero_pairs: "0 \<in> set (pairs L) \<longleftrightarrow> 0 \<in> set L"
  by (induction L rule: pairs.induct) auto

lemma prod_list_eq_0: "prod_list L = 0 \<longleftrightarrow> 0 \<in> set L" for L :: "FieldElement list"
  by (induction L) auto

lemma build_tree_unfold:
  "build_tree (P @ L) ((length P + length L) # st) (length P) =
    (if length (pairs L) = 1 then Some (P @ L @ pairs L, (length P + length L) # st)
     else build_tree ((P @ L) @ pairs L) ((length (P @ L) + length (pairs L)) # (length P + length L) # st) (length (P @ L)))"
  using build_layer_pairs [of P L "[]"] by (subst build_tree.simps) (auto simp: Let_def add_ac)

text \<open>What the two loops do together, for a layer \<open>L\<close> behind an already built part \<open>P\<close>.\<close>

lemma build_down:
  assumes "L \<noteq> []" "layer_start st = length P"
  shows "\<exists>T s. build_tree (P @ L) ((length P + length L) # st) (length P) = Some (P @ L @ T, s) \<and> T \<noteq> [] \<and>
    last T = prod_list L \<and> (0 \<notin> set L \<longrightarrow> (\<exists>T'. down_tree (P @ L @ butlast T @ [inverse (last T)]) s = down_tree (P @ map inverse L @ T') st))"
  using assms
proof (induction "length L" arbitrary: L P st rule: less_induct)
  case less
  have down: "0 \<notin> set L \<Longrightarrow> down_tree (P @ L @ map inverse (pairs L) @ T') ((length P + length L) # st)
      = down_tree (P @ map inverse L @ map inverse (pairs L) @ T') st" for T'
    using down_layer_pairs [of L P "[]" T'] less.prems by simp
  show ?case
  proof (cases "length (pairs L) = 1")
    case True
    then obtain x where x: "pairs L = [x]" by (auto simp: length_Suc_conv)
    then have p: "pairs L = [prod_list L]" using prod_pairs [of L] by simp
    have "build_tree (P @ L) ((length P + length L) # st) (length P)
        = Some (P @ L @ [prod_list L], (length P + length L) # st)"
      by (subst build_tree_unfold) (simp add: p)
    moreover have "0 \<notin> set L \<longrightarrow> down_tree (P @ L @ [inverse (prod_list L)]) ((length P + length L) # st)
        = down_tree (P @ map inverse L @ [inverse (prod_list L)]) st"
      using down [of "[]"] unfolding p by simp
    ultimately show ?thesis
      by (intro exI [of _ "[prod_list L]"] exI [of _ "(length P + length L) # st"]) auto
  next
    case False
    have "length (pairs L) \<noteq> 0" using less.prems by (simp add: length_pairs)
    with False have lt: "length (pairs L) < length L" by (simp add: length_pairs)
    have ne: "pairs L \<noteq> []" using \<open>length (pairs L) \<noteq> 0\<close> by auto
    have st: "layer_start ((length P + length L) # st) = length (P @ L)" by (simp add: layer_start_def)
    from less.hyps [OF lt ne st] obtain T s where T:
      "build_tree ((P @ L) @ pairs L) ((length (P @ L) + length (pairs L)) # (length P + length L) # st) (length (P @ L))
         = Some ((P @ L) @ pairs L @ T, s)" "T \<noteq> []" "last T = prod_list L"
      "0 \<notin> set L \<Longrightarrow> \<exists>T'. down_tree ((P @ L) @ pairs L @ butlast T @ [inverse (last T)]) s
         = down_tree ((P @ L) @ map inverse (pairs L) @ T') ((length P + length L) # st)"
      unfolding prod_pairs zero_pairs by blast
    have fin: "\<exists>T'. down_tree (P @ L @ pairs L @ butlast T @ [inverse (last T)]) s = down_tree (P @ map inverse L @ T') st"
      if nz: "0 \<notin> set L"
    proof -
      obtain T' where "down_tree ((P @ L) @ pairs L @ butlast T @ [inverse (last T)]) s
         = down_tree ((P @ L) @ map inverse (pairs L) @ T') ((length P + length L) # st)" using T(4) [OF nz] by blast
      then show ?thesis unfolding append_assoc down [OF nz] by blast
    qed
    have "build_tree (P @ L) ((length P + length L) # st) (length P) = Some (P @ L @ pairs L @ T, s)"
      by (subst build_tree_unfold) (use T(1) False in simp)
    then show ?thesis
      by (intro exI [of _ "pairs L @ T"] exI [of _ s]) (use T(2,3) fin in \<open>simp add: butlast_append\<close>)
  qed
qed

text \<open>\<open>invertPointwise\<close>, which multiplies the elements up a binary tree, inverts the root and
  distributes the inverses down again, returns the list of the inverses when no element is 0, and
  has no defined result otherwise.\<close>

theorem invertPointwise_eq:
  "invertPointwise elems = (if 0 \<in> set elems then None else Some (map inverse elems))"
proof (cases "elems = []")
  case True then show ?thesis by (simp add: invertPointwise_def)
next
  case False
  have "layer_start [] = length ([]::FieldElement list)" by (simp add: layer_start_def)
  from build_down [OF False this] obtain T s where T: "build_tree elems [length elems] 0 = Some (elems @ T, s)"
    "T \<noteq> []" "last T = prod_list elems"
    "0 \<notin> set elems \<Longrightarrow> \<exists>T'. down_tree (elems @ butlast T @ [inverse (last T)]) s = map inverse elems @ T'"
    by auto
  have root: "(elems @ T) ! (length (elems @ T) - 1) = last T"
    using T(2) by (metis append_is_Nil_conv last_append last_conv_nth)
  have upd: "(elems @ T)[length (elems @ T) - 1 := i] = elems @ butlast T @ [i]" for i
    using T(2) by (metis append_assoc append_butlast_last_id append_is_Nil_conv butlast_append list_update_length
        length_append_singleton diff_Suc_1 length_butlast)
  show ?thesis
  proof (cases "0 \<in> set elems")
    case True
    then show ?thesis using T root False by (simp add: invertPointwise_def fe_inverse_eq prod_list_eq_0)
  next
    case nz: False
    then obtain T' where "down_tree (elems @ butlast T @ [inverse (last T)]) s = map inverse elems @ T'" using T(4) by blast
    moreover have "last T \<noteq> 0" using nz T(3) by (simp add: prod_list_eq_0)
    ultimately show ?thesis using T(1) root upd False nz by (simp add: invertPointwise_def fe_inverse_eq)
  qed
qed

section \<open>Properties of the field arithmetic\<close>

text \<open>Property C1. \<open>c_mul\<close>, the carry-less product followed by the table driven reduction, returns the
  residue of the product of the two polynomials modulo \<open>x^64 + x^4 + x^3 + x + 1\<close>, and the index
  it reads \<open>lookupTable1\<close> with is inside the table.\<close>

theorem c_mul_residue:
  "pcong (unat (c_mul a b)) (pmul (unat a) (unat b)) \<and>
   unat (drop_bit 60 (snd (mm_clmulepi64 a b))) < length lookupTable1"
  using pcong_c_mul c_mul_lookup_in_range by blast

text \<open>Property C2. The optimised multiplication \<open>c_mul\<close> and the bit-serial reference \<open>naiveMul\<close> return the
  same element for every pair of operands.\<close>

theorem naiveMul_equiv: "naiveMul = c_mul"
  by (intro ext) (rule naiveMul_c_mul)

text \<open>Property C3. \<open>c_inv\<close> returns exactly for the non-zero elements, although its loop has no bound, and
  what it returns is the multiplicative inverse; for 0 it has no defined result, because the
  degree computation reads before the start of its array.\<close>

theorem c_inv_total:
  "case c_inv a of None \<Rightarrow> a = 0 | Some b \<Rightarrow> a \<noteq> 0 \<and> c_mul a b = c_setUnit"
  using c_inv_ok [of a] c_inv_zero by (cases "a = 0") (auto simp: c_setUnit_def)

text \<open>Property C4. The vectorised \<open>do_FFT_step\<close>, with its two-element registers, byte shuffle and scalar
  tail, performs the butterfly \<open>b[k] += factor * a[k]; a[k] += b[k]\<close> at every index \<open>k < len\<close>.\<close>

theorem do_FFT_step_butterfly:
  assumes "len \<le> length a" and "len \<le> length b" and "k < len"
  shows "snd (do_FFT_step factor a b len) ! k = c_add (b ! k) (c_mul factor (a ! k)) \<and>
    fst (do_FFT_step factor a b len) ! k = c_add (a ! k) (c_add (b ! k) (c_mul factor (a ! k)))"
  using do_FFT_step_nth [OF assms, of factor] by (simp add: butterfly_def Let_def)

theorem do_FFT_step_butterfly_witness:
  "snd (do_FFT_step 5 [1, 2, 3] [4, 5, 6] 3) ! 2 = c_add 6 (c_mul 5 3) \<and>
   fst (do_FFT_step 5 [1, 2, 3] [4, 5, 6] 3) ! 2 = c_add 3 (c_add 6 (c_mul 5 3))"
  using do_FFT_step_butterfly [of 3 "[1, 2, 3]" "[4, 5, 6]" 2 5] by simp

text \<open>\<open>c_exp\<close>, square and multiply on the machine word, computes the power of the field
  element, and a power with exponent \<open>2^64 - 1\<close> of a non-zero element is 1.\<close>

theorem c_exp_power:
  "FieldElement (c_exp a exp) = FieldElement a ^ unat exp \<and> (a = 0 \<or> c_exp a (- 1) = c_setUnit)"
proof
  show *: "FieldElement (c_exp a exp) = FieldElement a ^ unat exp" for exp
    by (simp add: c_exp_def c_exp_loop_power one_FieldElement_def [symmetric])
  show "a = 0 \<or> c_exp a (- 1) = c_setUnit"
  proof (cases "a = 0")
    case False
    define M :: nat where "M = 2 ^ 64 - 2"
    have "FieldElement a \<noteq> 0" using False by (simp add: fe_defs)
    then have "FieldElement a ^ Suc M = 1" unfolding M_def power_Suc by (rule fe_invertible)
    moreover have "unat (- 1 :: 64 word) = Suc M" unfolding M_def by (simp add: unsigned_minus_1_eq_mask mask_eq_exp_minus_1)
    ultimately have "FieldElement (c_exp a (- 1)) = 1" using * [of "- 1"] by metis
    then show ?thesis by (simp add: fe_defs)
  qed simp
qed

end
