(* ===== verification/StdMap.thy ===== *)
theory StdMap
  imports Prelude
begin

text \<open>
  The \<open>std::map\<close> of the C++ library, as the components use it: an association list in
  increasing key order, so that iteration visits the keys in the order the C++ code sees
  them. The locale \<open>ordered_map\<close> states what clients rely on (lookup after update and
  erase, the iteration order, extensionality) and proves the lemmas on bulk insertion once;
  it is interpreted on the association lists below.
\<close>

section \<open>Sorted association lists\<close>

type_synonym ('k, 'v) std_map = "('k \<times> 'v) list"

text \<open>\<open>m[k] = v\<close>\<close>

fun map_put :: "'k::linorder \<Rightarrow> 'v \<Rightarrow> ('k, 'v) std_map \<Rightarrow> ('k, 'v) std_map" where
  "map_put k v [] = [(k, v)]"
| "map_put k v ((k', v') # m) = (if k < k' then (k, v) # (k', v') # m
     else if k = k' then (k, v) # m else (k', v') # map_put k v m)"

text \<open>\<open>m.find(k)\<close>\<close>

definition map_find :: "('k, 'v) std_map \<Rightarrow> 'k \<Rightarrow> 'v option" where
  "map_find m k = map_of m k"

text \<open>\<open>m.erase(k)\<close>\<close>

definition map_erase :: "'k \<Rightarrow> ('k, 'v) std_map \<Rightarrow> ('k, 'v) std_map" where
  "map_erase k m = filter (\<lambda>e. fst e \<noteq> k) m"

definition map_keys :: "('k, 'v) std_map \<Rightarrow> 'k list" where
  "map_keys m = map fst m"

definition map_inv :: "('k::linorder, 'v) std_map \<Rightarrow> bool" where
  "map_inv m \<longleftrightarrow> sorted_wrt (<) (map fst m)"

section \<open>The contract\<close>

locale ordered_map =
  fixes inv :: "'m \<Rightarrow> bool" and empty :: 'm and find :: "'m \<Rightarrow> 'k::linorder \<Rightarrow> 'v option"
    and put :: "'k \<Rightarrow> 'v \<Rightarrow> 'm \<Rightarrow> 'm" and erase :: "'k \<Rightarrow> 'm \<Rightarrow> 'm" and keys :: "'m \<Rightarrow> 'k list"
  assumes inv_empty: "inv empty" and find_empty: "find empty k = None"
    and inv_put: "inv m \<Longrightarrow> inv (put k v m)"
    and find_put: "inv m \<Longrightarrow> find (put k v m) k' = (if k' = k then Some v else find m k')"
    and inv_erase: "inv m \<Longrightarrow> inv (erase k m)"
    and find_erase: "inv m \<Longrightarrow> find (erase k m) k' = (if k' = k then None else find m k')"
    and set_keys: "set (keys m) = {k. find m k \<noteq> None}"
    and sorted_keys: "inv m \<Longrightarrow> sorted_wrt (<) (keys m)"
begin

lemma inv_fold_put: "inv m \<Longrightarrow> inv (fold (\<lambda>x. put (f x) (g x)) xs m)"
  by (induction xs arbitrary: m) (simp_all add: inv_put)

lemma find_fold_put_notin: "inv m \<Longrightarrow> k \<notin> f ` set xs \<Longrightarrow> find (fold (\<lambda>x. put (f x) (g x)) xs m) k = find m k"
  by (induction xs arbitrary: m) (auto simp: inv_put find_put)

lemma find_fold_put_val:
  assumes "inv m" and "k \<in> f ` set xs" and "\<And>x. x \<in> set xs \<Longrightarrow> f x = k \<Longrightarrow> g x = v"
  shows "find (fold (\<lambda>x. put (f x) (g x)) xs m) k = Some v"
  using assms
proof (induction xs arbitrary: m)
  case (Cons x xs)
  show ?case
  proof (cases "k \<in> f ` set xs")
    case True
    then show ?thesis using Cons by (simp add: inv_put)
  next
    case False
    then have "k = f x" using Cons.prems by auto
    with False Cons.prems show ?thesis by (simp add: find_fold_put_notin inv_put find_put)
  qed
qed simp

lemma keys_determined:
  assumes "inv m" "inv m'" "\<And>k. find m k = find m' k"
  shows "keys m = keys m'"
proof -
  have "set (keys m) = set (keys m')" using assms by (simp add: set_keys)
  then show ?thesis
    using assms(1,2) sorted_keys by (metis strict_sorted_equal strict_sorted_iff)
qed

end

section \<open>The association lists keep the contract\<close>

lemma set_map_put: "fst ` set (map_put k v m) = insert k (fst ` set m)"
  by (induction k v m rule: map_put.induct) auto

lemma map_inv_put: "map_inv m \<Longrightarrow> map_inv (map_put k v m)"
proof (induction k v m rule: map_put.induct)
  case (2 k v k' v' m)
  then have "\<forall>x \<in> fst ` set (map_put k v m). x = k \<or> k' < x"
    using set_map_put [of k v m] by (auto simp: map_inv_def)
  with 2 show ?case by (auto simp: map_inv_def)
qed (simp add: map_inv_def)

lemma map_find_put: "map_inv m \<Longrightarrow> map_find (map_put k v m) k' = (if k' = k then Some v else map_find m k')"
  by (induction k v m rule: map_put.induct) (auto simp: map_find_def map_inv_def)

lemma map_inv_erase: "map_inv m \<Longrightarrow> map_inv (map_erase k m)"
  unfolding map_inv_def map_erase_def by (induction m) auto

lemma map_find_erase: "map_find (map_erase k m) k' = (if k' = k then None else map_find m k')"
  unfolding map_find_def map_erase_def by (induction m) auto

lemma set_map_keys: "set (map_keys m) = {k. map_find m k \<noteq> None}"
  by (auto simp: map_keys_def map_find_def map_of_eq_None_iff)

interpretation std: ordered_map map_inv "[]" map_find map_put map_erase map_keys
  by unfold_locales
    (simp_all add: map_inv_put map_find_put map_inv_erase map_find_erase set_map_keys,
     simp_all add: map_inv_def map_find_def map_keys_def)

lemma entries_of_keys: "distinct (map fst m) \<Longrightarrow> map (\<lambda>k. (k, the (map_find m k))) (map fst m) = m"
  unfolding map_map by (rule map_idI) (auto simp: map_find_def)

lemma map_ext:
  assumes "map_inv m" "map_inv m'" "\<And>k. map_find m k = map_find m' k"
  shows "m = m'"
proof -
  have "map fst m = map fst m'"
    using std.keys_determined [OF assms] by (simp add: map_keys_def)
  moreover have "distinct (map fst m)" "distinct (map fst m')"
    using assms(1,2) by (simp_all add: map_inv_def strict_sorted_iff)
  ultimately show ?thesis using entries_of_keys [of m] entries_of_keys [of m'] assms(3) by simp
qed

lemma map_inv_Nil [simp]: "map_inv []" and map_find_Nil [simp]: "map_find [] k = None"
  by (simp_all add: map_inv_def map_find_def)

lemma map_find_entry: "map_inv m \<Longrightarrow> (k, v) \<in> set m \<longleftrightarrow> map_find m k = Some v"
  unfolding map_find_def map_inv_def by (metis map_of_eq_Some_iff strict_sorted_iff)

end
