(* ===== verification/Merkle.thy ===== *)
theory Merkle
  imports StdMap
begin

text \<open>
  The Merkle commitment of \<open>protocols/common/CryptoCommitment/MerkleCommitment.cpp\<close> and the
  class \<open>MerkleTree\<close> of \<open>protocols/common/proofs.cpp\<close>. Buffers of digests are regions of one
  memory (a list), pointers are offsets into it, so that calls whose source and destination
  share a buffer are covered. The compression function is the argument \<open>hash\<close>: it maps two
  adjacent digests to one. \<open>mnode\<close> is the abstract tree; the lemmas show that the
  construction, the in-place variant and the construction by segments all compute it, that
  paths verify, and that two accepting openings with different contents exhibit a collision
  of \<open>hash\<close>.
\<close>

unbundle bit_operations_syntax

definition logBytesPerHash :: nat where "logBytesPerHash = 4"

definition getBlockSize :: nat where "getBlockSize = 2 ^ logBytesPerHash div 8"
definition getDualBlockSize :: nat where "getDualBlockSize = 2 * getBlockSize"
definition getBlockIndex :: "nat \<Rightarrow> nat" where "getBlockIndex elementIndex = elementIndex div getBlockSize"
definition getElementIndex :: "nat \<Rightarrow> nat" where "getElementIndex blockIndex = blockIndex * getBlockSize"
definition getOffsetInBlock :: "nat \<Rightarrow> nat" where
  "getOffsetInBlock index = index - getBlockIndex index * getBlockSize"
definition getOffsetInDualBlock :: "nat \<Rightarrow> nat" where
  "getOffsetInDualBlock index = index - (2 * (getBlockIndex index div 2)) * getBlockSize"

section \<open>Construction\<close>

text \<open>\<open>hash(src, dst)\<close> on pointers into the memory.\<close>

definition hash_to :: "('d \<Rightarrow> 'd \<Rightarrow> 'd) \<Rightarrow> nat \<Rightarrow> nat \<Rightarrow> 'd list \<Rightarrow> 'd list" where
  "hash_to hash src dst mem = mem[dst := hash (mem ! src) (mem ! (src + 1))]"

definition hash_row :: "('d \<Rightarrow> 'd \<Rightarrow> 'd) \<Rightarrow> nat \<Rightarrow> nat \<Rightarrow> nat \<Rightarrow> 'd list \<Rightarrow> 'd list" where
  "hash_row hash src dst len = fold (\<lambda>i. hash_to hash (src + 2 * i) (dst + i)) [0..<len]"

text \<open>The loop of \<open>constructMerkleTree\<close>, entered with \<open>curr_dst_logLen = k - 1\<close>.\<close>

fun tree_rows :: "('d \<Rightarrow> 'd \<Rightarrow> 'd) \<Rightarrow> nat \<Rightarrow> nat \<Rightarrow> nat \<Rightarrow> 'd list \<Rightarrow> 'd list" where
  "tree_rows hash curr_src dst 0 mem = mem"
| "tree_rows hash curr_src dst (Suc k) mem = (let curr_dst = dst + 2 ^ k
     in tree_rows hash curr_dst dst k (hash_row hash curr_src curr_dst (2 ^ k) mem))"

definition constructMerkleTree ::
  "('d \<Rightarrow> 'd \<Rightarrow> 'd) \<Rightarrow> nat \<Rightarrow> nat \<Rightarrow> nat \<Rightarrow> 'd list \<Rightarrow> failure + 'd list \<times> 'd" where
  "constructMerkleTree hash src src_logLen dst mem = (if logBytesPerHash < src_logLen then
     let mem = tree_rows hash src dst (src_logLen - logBytesPerHash) mem in Inr (mem, mem ! (dst + 1))
     else Inl AssertFailed)"

text \<open>\<open>getMerkleCommitmentInplace\<close>: after step \<open>s\<close> the node \<open>j\<close> of height \<open>s\<close> is at \<open>data + j * 2^s\<close>.\<close>

definition inplace_step :: "('d \<Rightarrow> 'd \<Rightarrow> 'd) \<Rightarrow> nat \<Rightarrow> nat \<Rightarrow> nat \<Rightarrow> 'd list \<Rightarrow> 'd list" where
  "inplace_step hash data buffLen currStepLog = (let currStep = 2 ^ currStepLog; prevStep = 2 ^ (currStepLog - 1)
     in fold (\<lambda>j mem. let i = j * currStep; mem = mem[data + i + 1 := mem ! (data + i + prevStep)]
          in hash_to hash (data + i) (data + i) mem) [0..<buffLen div currStep])"

definition getMerkleCommitmentInplace ::
  "('d \<Rightarrow> 'd \<Rightarrow> 'd) \<Rightarrow> nat \<Rightarrow> nat \<Rightarrow> 'd list \<Rightarrow> failure + 'd list \<times> 'd" where
  "getMerkleCommitmentInplace hash data src_logLen mem = (if logBytesPerHash < src_logLen then
     let logLen = src_logLen - logBytesPerHash; buffLen = 2 ^ logLen;
         mem = fold (inplace_step hash data buffLen) [1..<logLen + 1] mem
     in Inr (mem, mem ! data)
     else Inl AssertFailed)"

text \<open>The loop of \<open>constructMerkleSubTree\<close>, entered with \<open>curr_sigment_logLen = k - 1\<close> and
  \<open>curr_dst_row_logLen = r + k - 1\<close>, where \<open>r\<close> is the number of rows above the segment.\<close>

fun subtree_rows :: "('d \<Rightarrow> 'd \<Rightarrow> 'd) \<Rightarrow> nat \<Rightarrow> nat \<Rightarrow> nat \<Rightarrow> nat \<Rightarrow> nat \<Rightarrow> 'd list \<Rightarrow> 'd list" where
  "subtree_rows hash curr_src_shifted dst r sigment_index 0 mem = mem"
| "subtree_rows hash curr_src_shifted dst r sigment_index (Suc k) mem = (let
     curr_dst_row = dst + 2 ^ (r + k);
     curr_dst_shifted = curr_dst_row + 2 ^ k * sigment_index
     in subtree_rows hash curr_dst_shifted dst r sigment_index k
          (hash_row hash curr_src_shifted curr_dst_shifted (2 ^ k) mem))"

definition constructMerkleSubTree ::
  "('d \<Rightarrow> 'd \<Rightarrow> 'd) \<Rightarrow> nat \<Rightarrow> nat \<Rightarrow> nat \<Rightarrow> nat \<Rightarrow> nat \<Rightarrow> 'd list \<Rightarrow> failure + 'd list" where
  "constructMerkleSubTree hash src src_logLen sigment_logLen sigment_index dst mem =
    (if logBytesPerHash < sigment_logLen then
       Inr (subtree_rows hash (src + 2 ^ (sigment_logLen - logBytesPerHash) * sigment_index) dst
         (src_logLen - sigment_logLen) sigment_index (sigment_logLen - logBytesPerHash) mem)
     else Inl AssertFailed)"

section \<open>Paths\<close>

fun path_loop :: "nat \<Rightarrow> nat \<Rightarrow> 'd list \<Rightarrow> 'd list" where
  "path_loop tree curr_offset mem = (if 1 < curr_offset
     then mem ! (tree + (curr_offset XOR 1)) # path_loop tree (curr_offset div 2) mem else [])"

declare path_loop.simps [simp del]

definition getPathToBlock :: "nat \<Rightarrow> nat \<Rightarrow> nat \<Rightarrow> 'd list \<Rightarrow> 'd list" where
  "getPathToBlock tree src_logLen blockIndex mem = (let firstRow_logLen = src_logLen - logBytesPerHash - 1
     in path_loop tree (2 ^ firstRow_logLen + blockIndex div 2) mem)"

definition collect_twins :: "nat \<Rightarrow> nat list \<Rightarrow> nat \<Rightarrow> 'd list \<Rightarrow> 'd list list \<Rightarrow> 'd list list" where
  "collect_twins data blockIndices currStepLog mem res = map (\<lambda>(q, r).
     let currLayerBlock = q div 2 ^ (currStepLog - 1); currTwin = currLayerBlock XOR 1;
         TwinLocation = currTwin * 2 ^ currStepLog
     in r @ [mem ! (data + TwinLocation)]) (zip blockIndices res)"

definition getPathToBlocksInPlace ::
  "('d \<Rightarrow> 'd \<Rightarrow> 'd) \<Rightarrow> nat \<Rightarrow> nat \<Rightarrow> nat list \<Rightarrow> 'd list \<Rightarrow> failure + 'd list \<times> 'd list list" where
  "getPathToBlocksInPlace hash data src_logLen blockIndices mem = (if logBytesPerHash < src_logLen then
     let logLen = src_logLen - logBytesPerHash; buffLen = 2 ^ logLen
     in Inr (fold (\<lambda>currStepLog (mem, res). let mem = inplace_step hash data buffLen currStepLog mem
          in (mem, if currStepLog = logLen then res else collect_twins data blockIndices currStepLog mem res))
        [1..<logLen + 1] (mem, replicate (length blockIndices) []))
     else Inl AssertFailed)"

fun verify_loop :: "('d \<Rightarrow> 'd \<Rightarrow> 'd) \<Rightarrow> nat \<Rightarrow> 'd \<Rightarrow> 'd list \<Rightarrow> 'd" where
  "verify_loop hash curr_offset currHash [] = currHash"
| "verify_loop hash curr_offset currHash (p # path) = verify_loop hash (curr_offset div 2)
     (if odd curr_offset then hash p currHash else hash currHash p) path"

definition verifyPathToBlock :: "('d \<Rightarrow> 'd \<Rightarrow> 'd) \<Rightarrow> 'd \<times> 'd \<Rightarrow> 'd \<Rightarrow> 'd list \<Rightarrow> nat \<Rightarrow> bool" where
  "verifyPathToBlock hash blockData root path blockIndex \<longleftrightarrow>
     verify_loop hash (2 ^ length path + blockIndex div 2) (hash (fst blockData) (snd blockData)) path = root"

section \<open>The abstract tree\<close>

fun mnode :: "('d \<Rightarrow> 'd \<Rightarrow> 'd) \<Rightarrow> (nat \<Rightarrow> 'd) \<Rightarrow> nat \<Rightarrow> nat \<Rightarrow> 'd" where
  "mnode hash L 0 i = L i"
| "mnode hash L (Suc h) i = hash (mnode hash L h (2 * i)) (mnode hash L h (2 * i + 1))"

lemma mnode_cong: "(\<And>j. i * 2 ^ h \<le> j \<Longrightarrow> j < (i + 1) * 2 ^ h \<Longrightarrow> L j = L' j) \<Longrightarrow> mnode hash L h i = mnode hash L' h i"
proof (induction h arbitrary: i)
  case (Suc h)
  have "mnode hash L h (2 * i) = mnode hash L' h (2 * i)" "mnode hash L h (2 * i + 1) = mnode hash L' h (2 * i + 1)"
    by (rule Suc.IH; rule Suc.prems; simp)+
  then show ?case by simp
qed simp

lemma mnode_add: "mnode hash (mnode hash L g) h i = mnode hash L (g + h) i"
  by (induction h arbitrary: i) simp_all

section \<open>Rows\<close>

lemma length_hash_row [simp]: "length (hash_row hash src dst len mem) = length mem"
proof -
  have "length (fold (\<lambda>i. hash_to hash (src + 2 * i) (dst + i)) xs mem) = length mem" for xs
    by (induction xs arbitrary: mem) (simp_all add: hash_to_def)
  then show ?thesis by (simp add: hash_row_def)
qed

lemma hash_row_nth:
  assumes "src + 2 * len \<le> dst \<or> dst + len \<le> src" "dst + len \<le> length mem"
  shows "hash_row hash src dst len mem ! j = (if dst \<le> j \<and> j < dst + len
     then hash (mem ! (src + 2 * (j - dst))) (mem ! (src + 2 * (j - dst) + 1)) else mem ! j)"
  using assms
proof (induction len arbitrary: j)
  case (Suc n)
  let ?m = "hash_row hash src dst n mem"
  have IH: "?m ! j = (if dst \<le> j \<and> j < dst + n
     then hash (mem ! (src + 2 * (j - dst))) (mem ! (src + 2 * (j - dst) + 1)) else mem ! j)" for j
    using Suc by auto
  have "?m ! (src + 2 * n) = mem ! (src + 2 * n)" "?m ! (src + 2 * n + 1) = mem ! (src + 2 * n + 1)"
    unfolding IH using Suc.prems by auto
  moreover have "hash_row hash src dst (Suc n) mem = hash_to hash (src + 2 * n) (dst + n) ?m"
    by (simp add: hash_row_def)
  ultimately show ?case using Suc.prems
    by (cases "j = dst + n") (auto simp: hash_to_def IH nth_list_update less_Suc_eq)
qed (auto simp: hash_row_def)

text \<open>\<open>leaves mem src\<close> are the digests the source pointer sees.\<close>

definition leaves :: "'d list \<Rightarrow> nat \<Rightarrow> nat \<Rightarrow> 'd" where "leaves mem src j = mem ! (src + j)"

text \<open>The rows \<open>k < n\<close> of the tree at \<open>dst\<close> hold the nodes over the leaves \<open>L\<close>.\<close>

definition tree_at :: "('d \<Rightarrow> 'd \<Rightarrow> 'd) \<Rightarrow> (nat \<Rightarrow> 'd) \<Rightarrow> nat \<Rightarrow> nat \<Rightarrow> 'd list \<Rightarrow> bool" where
  "tree_at hash L n dst mem \<longleftrightarrow> (\<forall>k < n. \<forall>i < 2 ^ k. mem ! (dst + 2 ^ k + i) = mnode hash L (n - k) i)"

lemma length_tree_rows [simp]: "length (tree_rows hash src dst n mem) = length mem"
  by (induction n arbitrary: src mem) (simp_all add: Let_def)

lemma mnode_leaves_row:
  assumes row: "\<And>i. i < 2 ^ n \<Longrightarrow> mem' ! (p + i) = mnode hash L 1 i" and "k \<le> n" "i < 2 ^ k"
  shows "mnode hash (leaves mem' p) (n - k) i = mnode hash L (Suc n - k) i"
proof -
  have "mnode hash (leaves mem' p) (n - k) i = mnode hash (mnode hash L 1) (n - k) i"
  proof (rule mnode_cong)
    fix j assume "j < (i + 1) * 2 ^ (n - k)"
    also have "\<dots> \<le> 2 ^ k * 2 ^ (n - k)" using assms(3) by (intro mult_right_mono) simp_all
    also have "\<dots> = 2 ^ n" using assms(2) by (simp flip: power_add)
    finally show "leaves mem' p j = mnode hash L 1 j" using row by (simp add: leaves_def)
  qed
  also have "\<dots> = mnode hash L (Suc n - k) i" using assms(2) by (simp add: mnode_add Suc_diff_le)
  finally show ?thesis .
qed

text \<open>The step of the induction over the rows: source and destination of the first row are
  apart, and the rest works behind the row just written.\<close>

lemma row_apart:
  assumes "src + 2 ^ Suc n \<le> dst + 1 \<or> dst + 2 ^ Suc n \<le> src"
  shows "src + 2 * 2 ^ n \<le> dst + 2 ^ n \<or> dst + 2 ^ n + 2 ^ n \<le> (src::nat)"
proof -
  have "(1::nat) \<le> 2 ^ n" by simp
  with assms show ?thesis unfolding power_Suc by linarith
qed

lemma tree_rows_frame:
  assumes "src + 2 ^ n \<le> dst + 1 \<or> dst + 2 ^ n \<le> src" "dst + 2 ^ n \<le> length mem" "j \<le> dst \<or> dst + 2 ^ n \<le> j"
  shows "tree_rows hash src dst n mem ! j = mem ! j"
  using assms
proof (induction n arbitrary: src mem)
  case (Suc n)
  have p: "(1::nat) \<le> 2 ^ n" by simp
  have len: "dst + 2 ^ n + 2 ^ n \<le> length mem" using Suc.prems(2) by simp
  have j: "j \<le> dst \<or> dst + 2 ^ n + 2 ^ n \<le> j" using Suc.prems(3) by auto
  have "tree_rows hash src dst (Suc n) mem ! j = hash_row hash src (dst + 2 ^ n) (2 ^ n) mem ! j"
    unfolding tree_rows.simps Let_def by (rule Suc.IH) (use len j in auto)
  also have "\<dots> = mem ! j"
    using j p by (subst hash_row_nth [OF row_apart [OF Suc.prems(1)] len]) auto
  finally show ?case .
qed simp

lemma tree_rows_tree:
  assumes "src + 2 ^ n \<le> dst + 1 \<or> dst + 2 ^ n \<le> src" "dst + 2 ^ n \<le> length mem"
  shows "tree_at hash (leaves mem src) n dst (tree_rows hash src dst n mem)"
  using assms
proof (induction n arbitrary: src mem)
  case (Suc n)
  let ?p = "dst + 2 ^ n" and ?m = "hash_row hash src (dst + 2 ^ n) (2 ^ n) mem"
  have len: "dst + 2 ^ n + 2 ^ n \<le> length mem" using Suc.prems(2) by simp
  have row: "?m ! (?p + i) = mnode hash (leaves mem src) 1 i" if "i < 2 ^ n" for i
    using that by (subst hash_row_nth [OF row_apart [OF Suc.prems(1)] len]) (simp add: leaves_def)
  have IH: "tree_at hash (leaves ?m ?p) n dst (tree_rows hash ?p dst n ?m)"
    by (rule Suc.IH) (use len in simp_all)
  show ?case
    unfolding tree_at_def
  proof (intro allI impI)
    fix k i :: nat assume k: "k < Suc n" and i: "i < 2 ^ k"
    have "tree_rows hash ?p dst n ?m ! (dst + 2 ^ k + i) = mnode hash (leaves ?m ?p) (n - k) i"
    proof (cases "k < n")
      case True then show ?thesis using IH i by (simp add: tree_at_def)
    next
      case False
      then have "k = n" using k by simp
      moreover have "tree_rows hash ?p dst n ?m ! (?p + i) = ?m ! (?p + i)"
        by (rule tree_rows_frame) (use len in simp_all)
      ultimately show ?thesis by (simp add: leaves_def)
    qed
    also have "\<dots> = mnode hash (leaves mem src) (Suc n - k) i"
      by (rule mnode_leaves_row [OF row]) (use k i in simp_all)
    finally show "tree_rows hash src dst (Suc n) mem ! (dst + 2 ^ k + i) = mnode hash (leaves mem src) (Suc n - k) i"
      by (simp only: tree_rows.simps Let_def)
  qed
qed (simp add: tree_at_def)

section \<open>Paths\<close>

text \<open>The path the tree holds for the node \<open>i\<close> of height \<open>h\<close> up to height \<open>h + k\<close>.\<close>

fun mpath :: "('d \<Rightarrow> 'd \<Rightarrow> 'd) \<Rightarrow> (nat \<Rightarrow> 'd) \<Rightarrow> nat \<Rightarrow> nat \<Rightarrow> nat \<Rightarrow> 'd list" where
  "mpath hash L h i 0 = []"
| "mpath hash L h i (Suc k) = mnode hash L h (i XOR 1) # mpath hash L (Suc h) (i div 2) k"

lemma length_mpath [simp]: "length (mpath hash L h i k) = k"
  by (induction k arbitrary: h i) simp_all

lemma xor_1_nat: "(i XOR Suc 0) = (if even i then i + 1 else i - 1)" for i :: nat
  by (simp add: xor_Suc_0_eq)

lemma verify_mpath:
  "verify_loop hash (2 ^ k + i) (mnode hash L h i) (mpath hash L h i k) = mnode hash L (h + k) (i div 2 ^ k)"
proof (induction k arbitrary: h i)
  case (Suc k)
  have "(if odd (2 ^ Suc k + i) then hash (mnode hash L h (i XOR 1)) (mnode hash L h i)
      else hash (mnode hash L h i) (mnode hash L h (i XOR 1))) = mnode hash L (Suc h) (i div 2)"
    by (cases "even i") (auto simp: xor_1_nat elim!: evenE oddE)
  moreover have "(2 ^ Suc k + i) div 2 = 2 ^ k + i div 2" by simp
  moreover have "i div 2 div 2 ^ k = i div 2 ^ Suc k" by (simp add: div_mult2_eq)
  ultimately show ?case
    using Suc [of "i div 2" "Suc h"] by (simp only: mpath.simps verify_loop.simps add_Suc_shift)
qed simp

lemma path_loop_mpath:
  assumes "tree_at hash L n tree mem" "k < n" "i < 2 ^ k"
  shows "path_loop tree (2 ^ k + i) mem = mpath hash L (n - k) i k"
  using assms(2,3)
proof (induction k arbitrary: i)
  case 0 then show ?case by (simp add: path_loop.simps)
next
  case (Suc k)
  have x: "i XOR 1 < 2 ^ Suc k" using Suc.prems(2) xor_less_2p [of i "Suc k" 1] one_less_power [of "2::nat" "Suc k"] by simp
  have e: "(2 ^ Suc k + i) XOR 1 = 2 ^ Suc k + (i XOR 1)" by (cases i) (simp_all add: xor_1_nat)
  have "mem ! (tree + 2 ^ Suc k + (i XOR 1)) = mnode hash L (n - Suc k) (i XOR 1)"
    using assms(1) Suc.prems(1) x unfolding tree_at_def by blast
  moreover have "(2 ^ Suc k + i) div 2 = 2 ^ k + i div 2" by simp
  moreover have "path_loop tree (2 ^ k + i div 2) mem = mpath hash L (n - k) (i div 2) k"
    using Suc by simp
  moreover have "Suc (n - Suc k) = n - k" using Suc.prems by simp
  moreover have "1 < 2 ^ Suc k + i" using one_less_power [of "2::nat" "Suc k"] by simp
  ultimately show ?case by (subst path_loop.simps) (simp add: e [simplified] add.assoc)
qed

lemma getPathToBlock_mpath:
  assumes "tree_at hash L n tree mem" "src_logLen = n + logBytesPerHash" "0 < n" "blockIndex < 2 ^ n"
  shows "getPathToBlock tree src_logLen blockIndex mem = mpath hash L 1 (blockIndex div 2) (n - 1)"
  using path_loop_mpath [OF assms(1), of "n - 1" "blockIndex div 2"] assms(2-4)
  by (cases n) (simp_all add: getPathToBlock_def)

lemma verify_path:
  assumes "tree_at hash L n tree mem" "src_logLen = n + logBytesPerHash" "0 < n" "blockIndex < 2 ^ n"
  shows "verifyPathToBlock hash (L (2 * (blockIndex div 2)), L (2 * (blockIndex div 2) + 1)) (mnode hash L n 0)
    (getPathToBlock tree src_logLen blockIndex mem) blockIndex"
proof -
  have "blockIndex div 2 div 2 ^ (n - 1) = 0" using assms(3,4) by (cases n) simp_all
  then show ?thesis
    using verify_mpath [of hash "n - 1" "blockIndex div 2" L 1] assms(3)
    by (simp add: verifyPathToBlock_def getPathToBlock_mpath [OF assms])
qed

section \<open>Binding\<close>

text \<open>The collision that two accepting openings with different contents contain, computed by
  running the two verifications side by side.\<close>

definition pair_at :: "nat \<Rightarrow> 'd \<Rightarrow> 'd \<Rightarrow> 'd \<times> 'd" where
  "pair_at off c q = (if odd off then (q, c) else (c, q))"

fun find_collision :: "('d \<Rightarrow> 'd \<Rightarrow> 'd) \<Rightarrow> nat \<Rightarrow> 'd \<Rightarrow> 'd list \<Rightarrow> 'd \<Rightarrow> 'd list \<Rightarrow> (('d \<times> 'd) \<times> ('d \<times> 'd)) option" where
  "find_collision hash off c (q # p) c' (q' # p') = (let x = pair_at off c q; x' = pair_at off c' q' in
     if x \<noteq> x' \<and> case_prod hash x = case_prod hash x' then Some (x, x')
     else find_collision hash (off div 2) (case_prod hash x) p (case_prod hash x') p')"
| "find_collision hash off c _ c' _ = None"

definition opening_collision :: "('d \<Rightarrow> 'd \<Rightarrow> 'd) \<Rightarrow> 'd \<times> 'd \<Rightarrow> 'd list \<Rightarrow> 'd \<times> 'd \<Rightarrow> 'd list \<Rightarrow> nat \<Rightarrow> (('d \<times> 'd) \<times> ('d \<times> 'd)) option" where
  "opening_collision hash d p d' p' blockIndex =
     (if d \<noteq> d' \<and> case_prod hash d = case_prod hash d' then Some (d, d')
      else find_collision hash (2 ^ length p + blockIndex div 2) (case_prod hash d) p (case_prod hash d') p')"

definition is_collision :: "('d \<Rightarrow> 'd \<Rightarrow> 'd) \<Rightarrow> (('d \<times> 'd) \<times> ('d \<times> 'd)) option \<Rightarrow> bool" where
  "is_collision hash c = (case c of None \<Rightarrow> False
     | Some (x, x') \<Rightarrow> x \<noteq> x' \<and> case_prod hash x = case_prod hash x')"

lemma verify_loop_pair: "verify_loop hash off c (q # p) = verify_loop hash (off div 2) (case_prod hash (pair_at off c q)) p"
  by (simp add: pair_at_def)

lemma pair_at_inject: "pair_at off c q = pair_at off c' q' \<longleftrightarrow> c = c' \<and> q = q'"
  by (auto simp: pair_at_def)

lemma find_collision_sound:
  assumes "verify_loop hash off c p = verify_loop hash off c' p'" "length p = length p'"
  shows "(c = c' \<and> p = p') \<or> is_collision hash (find_collision hash off c p c' p')"
  using assms(2,1)
proof (induction p p' arbitrary: off c c' rule: list_induct2)
  case (Cons q p q' p')
  let ?x = "pair_at off c q" and ?x' = "pair_at off c' q'"
  have "(case_prod hash ?x = case_prod hash ?x' \<and> p = p') \<or>
      is_collision hash (find_collision hash (off div 2) (case_prod hash ?x) p (case_prod hash ?x') p')"
    using Cons by (simp only: verify_loop_pair)
  then show ?case
    by (cases "?x \<noteq> ?x' \<and> case_prod hash ?x = case_prod hash ?x'")
      (auto simp: is_collision_def pair_at_inject Let_def)
qed simp

section \<open>The in-place commitment\<close>

definition inplace_at :: "('d \<Rightarrow> 'd \<Rightarrow> 'd) \<Rightarrow> (nat \<Rightarrow> 'd) \<Rightarrow> nat \<Rightarrow> nat \<Rightarrow> nat \<Rightarrow> 'd list \<Rightarrow> bool" where
  "inplace_at hash L n data s mem \<longleftrightarrow> data + 2 ^ n \<le> length mem \<and>
     (\<forall>j < 2 ^ (n - s). mem ! (data + j * 2 ^ s) = mnode hash L s j)"

definition inplace_pair :: "('d \<Rightarrow> 'd \<Rightarrow> 'd) \<Rightarrow> nat \<Rightarrow> nat \<Rightarrow> nat \<Rightarrow> 'd list \<Rightarrow> 'd list" where
  "inplace_pair hash data s j mem = (let i = j * 2 ^ Suc s; mem = mem[data + i + 1 := mem ! (data + i + 2 ^ s)]
     in hash_to hash (data + i) (data + i) mem)"

lemma inplace_step_pairs:
  "s < n \<Longrightarrow> inplace_step hash data (2 ^ n) (Suc s) mem = fold (inplace_pair hash data s) [0..<2 ^ (n - Suc s)] mem"
  by (simp add: inplace_step_def inplace_pair_def [abs_def] Let_def power_diff flip: power_Suc)

lemma inplace_pairs:
  assumes "inplace_at hash L n data s mem" "s < n" "m \<le> 2 ^ (n - Suc s)"
  shows "length (fold (inplace_pair hash data s) [0..<m] mem) = length mem \<and>
    (\<forall>p \<ge> data + m * 2 ^ Suc s. fold (inplace_pair hash data s) [0..<m] mem ! p = mem ! p) \<and>
    (\<forall>j < m. fold (inplace_pair hash data s) [0..<m] mem ! (data + j * 2 ^ Suc s) = mnode hash L (Suc s) j)"
  using assms(3)
proof (induction m)
  case (Suc m)
  define M where "M = fold (inplace_pair hash data s) [0..<m] mem"
  define i where "i = m * 2 ^ Suc s"
  have IH: "length M = length mem" "\<And>p. data + i \<le> p \<Longrightarrow> M ! p = mem ! p"
    "\<And>j. j < m \<Longrightarrow> M ! (data + j * 2 ^ Suc s) = mnode hash L (Suc s) j"
    using Suc by (simp_all add: M_def i_def)
  have n: "(2::nat) ^ (n - s) = 2 * 2 ^ (n - Suc s)" using assms(2) by (simp flip: power_Suc add: Suc_diff_Suc)
  then have m: "2 * m < 2 ^ (n - s)" "2 * m + 1 < 2 ^ (n - s)" using Suc.prems by linarith+
  have i2: "i = (2 * m) * 2 ^ s" "i + 2 ^ s = (2 * m + 1) * 2 ^ s" by (simp_all add: i_def algebra_simps)
  have x: "mem ! (data + i) = mnode hash L s (2 * m)" "mem ! (data + i + 2 ^ s) = mnode hash L s (2 * m + 1)"
    using assms(1) m unfolding inplace_at_def i2(1) add.assoc i2(2) [unfolded i2(1)] by blast+
  have le: "i + 2 ^ Suc s \<le> 2 ^ n"
  proof -
    have "i + 2 ^ Suc s = Suc m * 2 ^ Suc s" by (simp add: i_def)
    also have "\<dots> \<le> 2 ^ (n - Suc s) * 2 ^ Suc s" using Suc.prems by (rule mult_right_mono) simp
    also have "\<dots> = 2 ^ (n - Suc s + Suc s)" by (rule power_add [symmetric])
    finally show ?thesis using assms(2) by simp
  qed
  have two: "(2::nat) \<le> 2 ^ Suc s" by simp
  have "data + 2 ^ n \<le> length M" using assms(1) IH(1) by (simp add: inplace_at_def)
  with le two have len: "data + i + 1 < length M" by linarith
  have step: "fold (inplace_pair hash data s) [0..<Suc m] mem =
      M[data + i + 1 := mem ! (data + i + 2 ^ s), data + i := mnode hash L (Suc s) m]"
    using len IH(2) x by (simp add: M_def [symmetric] inplace_pair_def i_def [symmetric] hash_to_def Let_def del: power_Suc)
  have mi: "Suc m * 2 ^ Suc s = i + 2 ^ Suc s" by (simp add: i_def)
  have j: "data + j * 2 ^ Suc s < data + i" if "j < m" for j using that by (simp add: i_def)
  have p: "p \<noteq> data + i + 1 \<and> p \<noteq> data + i \<and> data + i \<le> p" if "data + (i + 2 ^ Suc s) \<le> p" for p
    using that two by linarith
  have q: "M[data + i + 1 := a, data + i := b] ! p = mem ! p" if "data + (i + 2 ^ Suc s) \<le> p" for a b p
    using p [OF that] IH(2) [of p] by simp
  have "M[data + i + 1 := a, data + i := b] ! (data + j * 2 ^ Suc s) = (if j = m then b else M ! (data + j * 2 ^ Suc s))"
    if "j < Suc m" for a b j
  proof (cases "j = m")
    case True then show ?thesis using len by (simp add: i_def)
  next
    case False
    then have "data + j * 2 ^ Suc s < data + i" using that j by simp
    with False show ?thesis by (simp del: power_Suc)
  qed
  then show ?case
    unfolding step mi using q IH by (simp del: mnode.simps power_Suc add: less_Suc_eq)
qed simp

lemma inplace_step_at:
  "inplace_at hash L n data s mem \<Longrightarrow> s < n \<Longrightarrow> inplace_at hash L n data (Suc s) (inplace_step hash data (2 ^ n) (Suc s) mem)"
  using inplace_pairs [of hash L n data s mem "2 ^ (n - Suc s)"]
  by (simp add: inplace_step_pairs inplace_at_def)

lemma inplace_start: "data + 2 ^ n \<le> length mem \<Longrightarrow> inplace_at hash (leaves mem data) n data 0 mem"
  by (simp add: inplace_at_def leaves_def)

lemma inplace_steps:
  assumes "data + 2 ^ n \<le> length mem" "k \<le> n"
  shows "inplace_at hash (leaves mem data) n data k (fold (inplace_step hash data (2 ^ n)) [1..<k + 1] mem)"
  using assms(2)
proof (induction k)
  case 0 then show ?case using inplace_start [OF assms(1)] by simp
next
  case (Suc k) then show ?case by (simp add: inplace_step_at)
qed

lemma mpath_snoc: "mpath hash L h i (Suc k) = mpath hash L h i k @ [mnode hash L (h + k) ((i div 2 ^ k) XOR 1)]"
proof (induction k arbitrary: h i)
  case (Suc k)
  have "mpath hash L h i (Suc (Suc k)) = mnode hash L h (i XOR 1) # mpath hash L (Suc h) (i div 2) (Suc k)"
    by (rule mpath.simps)
  also have "\<dots> = mpath hash L h i (Suc k) @ [mnode hash L (Suc h + k) (i div 2 div 2 ^ k XOR 1)]"
    unfolding Suc.IH [of "Suc h" "i div 2"] by simp
  finally show ?case by (simp only: add_Suc_shift div_mult2_eq power_Suc)
qed simp

definition paths_step :: "('d \<Rightarrow> 'd \<Rightarrow> 'd) \<Rightarrow> nat \<Rightarrow> nat \<Rightarrow> nat list \<Rightarrow> nat \<Rightarrow> 'd list \<times> 'd list list \<Rightarrow> 'd list \<times> 'd list list" where
  "paths_step hash data n blockIndices currStepLog = (\<lambda>(mem, res). let mem = inplace_step hash data (2 ^ n) currStepLog mem
     in (mem, if currStepLog = n then res else collect_twins data blockIndices currStepLog mem res))"

lemma paths_steps:
  assumes "data + 2 ^ n \<le> length mem" "k \<le> n" "\<forall>b \<in> set blockIndices. b < 2 ^ (n - 1)"
  shows "fst (fold (paths_step hash data n blockIndices) [1..<k + 1] (mem, replicate (length blockIndices) []))
      = fold (inplace_step hash data (2 ^ n)) [1..<k + 1] mem \<and>
    snd (fold (paths_step hash data n blockIndices) [1..<k + 1] (mem, replicate (length blockIndices) []))
      = map (\<lambda>b. mpath hash (leaves mem data) 1 b (if k = n then n - 1 else k)) blockIndices"
  using assms(2)
proof (induction k)
  case 0
  then show ?case by (simp add: map_replicate_const)
next
  case (Suc k)
  let ?L = "leaves mem data" and ?F = "fold (paths_step hash data n blockIndices) [1..<k + 1] (mem, replicate (length blockIndices) [])"
  define M where "M = fold (inplace_step hash data (2 ^ n)) [1..<Suc k + 1] mem"
  have IH: "fst ?F = fold (inplace_step hash data (2 ^ n)) [1..<k + 1] mem"
    "snd ?F = map (\<lambda>b. mpath hash ?L 1 b k) blockIndices" using Suc by simp_all
  have M: "inplace_at hash ?L n data (Suc k) M" unfolding M_def using assms(1) Suc.prems by (rule inplace_steps)
  have step: "fold (paths_step hash data n blockIndices) [1..<Suc k + 1] (mem, replicate (length blockIndices) []) =
      (M, if Suc k = n then snd ?F else collect_twins data blockIndices (Suc k) M (snd ?F))"
  proof -
    obtain fm fr where F: "?F = (fm, fr)" by (cases ?F)
    then have fm: "fm = fold (inplace_step hash data (2 ^ n)) [1..<k + 1] mem" using IH(1) by simp
    have "[1..<Suc k + 1] = [1..<k + 1] @ [Suc k]" by simp
    then show ?thesis
      unfolding M_def by (simp only: fold_append comp_apply fold_simps F fm) (simp add: paths_step_def Let_def)
  qed
  have "collect_twins data blockIndices (Suc k) M (snd ?F) = map (\<lambda>b. mpath hash ?L 1 b (Suc k)) blockIndices" if "Suc k \<noteq> n"
  proof -
    have twin: "M ! (data + (b div 2 ^ k XOR 1) * 2 ^ Suc k) = mnode hash ?L (1 + k) (b div 2 ^ k XOR 1)"
      if "b \<in> set blockIndices" for b
    proof -
      have k: "Suc k < n" using \<open>Suc k \<noteq> n\<close> Suc.prems by simp
      then have e: "n - 1 = k + (n - Suc k)" by simp
      have "b < 2 ^ (n - 1)" using assms(3) that by blast
      then have "b < 2 ^ k * 2 ^ (n - Suc k)" unfolding e power_add .
      then have "b div 2 ^ k < 2 ^ (n - Suc k)" by (simp add: less_mult_imp_div_less mult.commute)
      moreover have "(1::nat) < 2 ^ (n - Suc k)" using k by (intro one_less_power) simp_all
      ultimately have "b div 2 ^ k XOR 1 < 2 ^ (n - Suc k)" by (rule xor_less_2p)
      then show ?thesis using M unfolding inplace_at_def by simp
    qed
    show ?thesis
      unfolding collect_twins_def IH(2) zip_map2 zip_same_conv_map map_map comp_def
      by (rule map_cong [OF refl]) (simp only: prod.case Let_def diff_Suc_1 mpath_snoc twin map_prod_simp id_apply)
  qed
  then show ?case unfolding step M_def [symmetric] using IH(2) by auto
qed

lemma constructMerkleTree_rows:
  assumes "src + 2 ^ n \<le> dst + 1 \<or> dst + 2 ^ n \<le> src" "dst + 2 ^ n \<le> length mem" "0 < n"
  shows "constructMerkleTree hash src (n + logBytesPerHash) dst mem =
    Inr (tree_rows hash src dst n mem, mnode hash (leaves mem src) n 0)"
proof -
  let ?m = "tree_rows hash src dst n mem"
  have "?m ! (dst + 2 ^ 0 + 0) = mnode hash (leaves mem src) (n - 0) 0"
    by (rule tree_rows_tree [OF assms(1,2), unfolded tree_at_def, rule_format]) (simp_all add: assms(3))
  then show ?thesis using assms(3) by (simp add: constructMerkleTree_def Let_def del: tree_rows.simps)
qed

section \<open>Properties\<close>

text \<open>Property C6. When the source buffer and the tree buffer do not overlap, \<open>constructMerkleTree\<close> leaves the
  complete tree over the source digests in the tree buffer (row \<open>k\<close> at offset \<open>2^k\<close>), returns its
  root and changes nothing outside the rows; a source of at most one digest fails the assertion.\<close>

theorem constructMerkleTree_correct:
  assumes "src + 2 ^ n \<le> dst + 1 \<or> dst + 2 ^ n \<le> src" and "dst + 2 ^ n \<le> length mem"
    and "src_logLen = n + logBytesPerHash"
  shows "if n = 0 then constructMerkleTree hash src src_logLen dst mem = Inl AssertFailed
    else \<exists>mem'. constructMerkleTree hash src src_logLen dst mem = Inr (mem', mnode hash (leaves mem src) n 0) \<and>
      tree_at hash (leaves mem src) n dst mem' \<and> length mem' = length mem \<and>
      (\<forall>j. j \<le> dst \<or> dst + 2 ^ n \<le> j \<longrightarrow> mem' ! j = mem ! j)"
proof (cases "n = 0")
  case False
  then show ?thesis
    using constructMerkleTree_rows [OF assms(1,2), of hash] tree_rows_tree [OF assms(1,2), of hash]
      tree_rows_frame [OF assms(1,2), of _ hash] assms(3)
    by (auto simp del: tree_rows.simps)
qed (use assms in \<open>simp add: constructMerkleTree_def\<close>)

theorem constructMerkleTree_correct_witness:
  "\<exists>mem'. constructMerkleTree (\<lambda>a b. 2 * a + b) 4 6 0 [0, 0, 0, 0, 1, 2, 3, 4::nat] = Inr (mem', 18) \<and>
     mem' ! 2 = 4"
proof -
  define mem where "mem = [0, 0, 0, 0, 1, 2, 3, 4::nat]"
  define h where "h = (\<lambda>a b. 2 * a + b :: nat)"
  have "(4 + 2 ^ 2 \<le> 0 + 1 \<or> 0 + 2 ^ 2 \<le> (4::nat)) \<and> 0 + 2 ^ 2 \<le> length mem \<and> 6 = 2 + logBytesPerHash"
    by (simp add: mem_def logBytesPerHash_def)
  then obtain mem' where "constructMerkleTree h 4 6 0 mem = Inr (mem', mnode h (leaves mem 4) 2 0)"
    and t: "tree_at h (leaves mem 4) 2 0 mem'"
    using constructMerkleTree_correct [of 4 2 0 mem 6 h] by auto
  moreover have "mnode h (leaves mem 4) 2 0 = 18" by (simp add: numeral_2_eq_2 leaves_def mem_def h_def)
  moreover have "mem' ! (0 + 2 ^ 1 + 0) = mnode h (leaves mem 4) (2 - 1) 0"
    using t unfolding tree_at_def by (metis one_less_numeral_iff semiring_norm(76) zero_less_numeral zero_less_power)
  then have "mem' ! 2 = 4" by (simp add: leaves_def mem_def h_def numeral_2_eq_2)
  ultimately show ?thesis unfolding mem_def h_def by auto
qed

text \<open>Property C7. Every path read from a constructed tree verifies: for each block of the source,
  \<open>verifyPathToBlock\<close> accepts the pair of digests the block belongs to with the path
  \<open>getPathToBlock\<close> returns and the root \<open>constructMerkleTree\<close> returned.\<close>

theorem paths_verify:
  assumes "src + 2 ^ n \<le> dst + 1 \<or> dst + 2 ^ n \<le> src" and "dst + 2 ^ n \<le> length mem" and "0 < n"
    and "blockIndex < 2 ^ n"
  shows "case constructMerkleTree hash src (n + logBytesPerHash) dst mem of Inl e \<Rightarrow> False
    | Inr (mem', root) \<Rightarrow> verifyPathToBlock hash
        (mem ! (src + 2 * (blockIndex div 2)), mem ! (src + 2 * (blockIndex div 2) + 1)) root
        (getPathToBlock dst (n + logBytesPerHash) blockIndex mem') blockIndex"
  using verify_path [OF tree_rows_tree [OF assms(1,2), of hash] refl assms(3,4)]
  by (simp add: constructMerkleTree_rows [OF assms(1-3)] leaves_def)

theorem paths_verify_witness:
  "case constructMerkleTree (\<lambda>a b. a * a + b) 4 (2 + logBytesPerHash) 0 [0, 0, 0, 0, 1, 2, 3, 4::nat] of Inl e \<Rightarrow> False
    | Inr (mem', root) \<Rightarrow> verifyPathToBlock (\<lambda>a b. a * a + b)
        ([0, 0, 0, 0, 1, 2, 3, 4] ! (4 + 2 * (3 div 2)), [0, 0, 0, 0, 1, 2, 3, 4] ! (4 + 2 * (3 div 2) + 1)) root
        (getPathToBlock 0 (2 + logBytesPerHash) 3 mem') 3"
  by (rule paths_verify) simp_all

text \<open>Property C8. The commitment is binding: when two openings of the same block, with paths of the same
  length, verify against one root, they have the same data and the same path, or running the two
  verifications side by side yields two different inputs of \<open>hash\<close> with the same digest.\<close>

theorem openings_binding:
  assumes "verifyPathToBlock hash d root p blockIndex" and "verifyPathToBlock hash d' root p' blockIndex"
    and "length p = length p'"
  shows "(d = d' \<and> p = p') \<or> is_collision hash (opening_collision hash d p d' p' blockIndex)"
proof -
  have "(case_prod hash d = case_prod hash d' \<and> p = p') \<or>
      is_collision hash (find_collision hash (2 ^ length p + blockIndex div 2) (case_prod hash d) p (case_prod hash d') p')"
    using assms by (intro find_collision_sound) (simp_all add: verifyPathToBlock_def case_prod_beta)
  then show ?thesis
    by (cases "d \<noteq> d' \<and> case_prod hash d = case_prod hash d'") (auto simp: opening_collision_def is_collision_def)
qed

theorem openings_binding_witness:
  "is_collision (\<lambda>a b. a + b) (opening_collision (\<lambda>a b. a + b) (1, 2::nat) [3] (2, 1) [3] 0)"
proof -
  have "verifyPathToBlock (\<lambda>a b. a + b) (1, 2::nat) 6 [3] 0" "verifyPathToBlock (\<lambda>a b. a + b) (2, 1::nat) 6 [3] 0"
    by (simp_all add: verifyPathToBlock_def)
  then have "((1::nat, 2::nat) = (2, 1) \<and> [3] = [3::nat]) \<or> is_collision (\<lambda>a b. a + b) (opening_collision (\<lambda>a b. a + b) (1, 2::nat) [3] (2, 1) [3] 0)"
    by (rule openings_binding) simp
  then show ?thesis by simp
qed

text \<open>Property C9. The in-place commitment, which overwrites its buffer, returns the same root as the tree over
  the original contents, and \<open>getPathToBlocksInPlace\<close> returns for every queried pair of blocks the
  siblings on its way to the root.\<close>

theorem inplace_correct:
  assumes "data + 2 ^ n \<le> length mem" and "0 < n" and "\<forall>b \<in> set blockIndices. b < 2 ^ (n - 1)"
  shows "(case getMerkleCommitmentInplace hash data (n + logBytesPerHash) mem of Inl e \<Rightarrow> False
      | Inr (mem', root) \<Rightarrow> root = mnode hash (leaves mem data) n 0) \<and>
    (case getPathToBlocksInPlace hash data (n + logBytesPerHash) blockIndices mem of Inl e \<Rightarrow> False
      | Inr (mem', paths) \<Rightarrow> paths = map (\<lambda>b. mpath hash (leaves mem data) 1 b (n - 1)) blockIndices)"
proof
  have "inplace_at hash (leaves mem data) n data n (fold (inplace_step hash data (2 ^ n)) [1..<n + 1] mem)"
    by (rule inplace_steps [OF assms(1)]) simp
  then show "case getMerkleCommitmentInplace hash data (n + logBytesPerHash) mem of Inl e \<Rightarrow> False
      | Inr (mem', root) \<Rightarrow> root = mnode hash (leaves mem data) n 0"
    using assms(2) by (simp add: getMerkleCommitmentInplace_def inplace_at_def Let_def)
  have "getPathToBlocksInPlace hash data (n + logBytesPerHash) blockIndices mem =
      Inr (fold (paths_step hash data n blockIndices) [1..<n + 1] (mem, replicate (length blockIndices) []))"
    using assms(2) by (simp add: getPathToBlocksInPlace_def paths_step_def [abs_def] Let_def)
  then show "case getPathToBlocksInPlace hash data (n + logBytesPerHash) blockIndices mem of Inl e \<Rightarrow> False
      | Inr (mem', paths) \<Rightarrow> paths = map (\<lambda>b. mpath hash (leaves mem data) 1 b (n - 1)) blockIndices"
    using paths_steps [OF assms(1) order_refl assms(3), of hash] by (simp add: case_prod_beta)
qed

theorem inplace_correct_witness:
  "case getMerkleCommitmentInplace (\<lambda>a b. 2 * a + b) 0 (2 + logBytesPerHash) [1, 2, 3, 4::nat] of Inl e \<Rightarrow> False
      | Inr (mem', root) \<Rightarrow> root = 18"
proof -
  have 18: "mnode (\<lambda>a b. 2 * a + b) (leaves [1, 2, 3, 4::nat] 0) 2 0 = 18" by (simp add: leaves_def numeral_2_eq_2)
  have "(0::nat) + 2 ^ 2 \<le> length [1, 2, 3, 4::nat]" "(0::nat) < 2" "\<forall>b \<in> set [0, 1::nat]. b < 2 ^ (2 - 1)" by simp_all
  from conjunct1 [OF inplace_correct [OF this, of "\<lambda>a b. 2 * a + b"]] show ?thesis unfolding 18 .
qed

end
