(* ===== verification/MerkleSegments.thy ===== *)
theory MerkleSegments
  imports Merkle
begin

text \<open>
  The class \<open>MerkleTree\<close> of \<open>protocols/common/proofs.cpp\<close> and the construction of a
  commitment by segments (\<open>getFinalHash\<close>): every segment builds its part of the rows with
  \<open>constructMerkleSubTree\<close> and \<open>finishTreeAfterSegments\<close> completes the tree, reading a row of
  the tree buffer and writing the rows above it in the same buffer. The result is the tree
  \<open>constructMerkleTree\<close> builds.
\<close>

unbundle bit_operations_syntax

section \<open>The class\<close>

record 'd MerkleTree =
  logSizeBytes :: nat
  tree_ptr :: nat
  root_digest :: 'd

definition finishTreeAfterSegments ::
  "('d \<Rightarrow> 'd \<Rightarrow> 'd) \<Rightarrow> 'd MerkleTree \<Rightarrow> nat \<Rightarrow> 'd list \<Rightarrow> failure + 'd MerkleTree \<times> 'd list" where
  "finishTreeAfterSegments hash t sigment_logLen mem = (let currSrcLogLen = logSizeBytes t - (sigment_logLen + 3)
     in if currSrcLogLen = 0 then Inr (t\<lparr>root_digest := mem ! (tree_ptr t + 1)\<rparr>, mem)
     else case constructMerkleTree hash (tree_ptr t + 2 ^ currSrcLogLen) (currSrcLogLen + logBytesPerHash) (tree_ptr t) mem of
       Inl e \<Rightarrow> Inl e
     | Inr (mem, root) \<Rightarrow> Inr (t\<lparr>root_digest := root\<rparr>, mem))"

definition constructSubtree ::
  "('d \<Rightarrow> 'd \<Rightarrow> 'd) \<Rightarrow> 'd MerkleTree \<Rightarrow> nat \<Rightarrow> nat \<Rightarrow> nat \<Rightarrow> 'd list \<Rightarrow> failure + 'd list" where
  "constructSubtree hash t src sigment_logLen sigment_index mem =
     constructMerkleSubTree hash src (logSizeBytes t) (sigment_logLen + 3) sigment_index (tree_ptr t) mem"

text \<open>\<open>getFinalHash\<close> in the single threaded order, without the segment constructor: the data is
  in memory at \<open>src\<close>.\<close>

fun construct_segments :: "('d \<Rightarrow> 'd \<Rightarrow> 'd) \<Rightarrow> 'd MerkleTree \<Rightarrow> nat \<Rightarrow> nat \<Rightarrow> nat list \<Rightarrow> 'd list \<Rightarrow> failure + 'd list" where
  "construct_segments hash t src logSigmentLength [] mem = Inr mem"
| "construct_segments hash t src logSigmentLength (idx # idxs) mem =
     (case constructSubtree hash t src logSigmentLength idx mem of Inl e \<Rightarrow> Inl e
      | Inr mem \<Rightarrow> construct_segments hash t src logSigmentLength idxs mem)"

definition getFinalHash ::
  "('d \<Rightarrow> 'd \<Rightarrow> 'd) \<Rightarrow> 'd MerkleTree \<Rightarrow> nat \<Rightarrow> nat \<Rightarrow> nat \<Rightarrow> 'd list \<Rightarrow> failure + 'd MerkleTree \<times> 'd list" where
  "getFinalHash hash t src logNumSigments logSigmentLength mem =
     (case construct_segments hash t src logSigmentLength [0..<2 ^ logNumSigments] mem of Inl e \<Rightarrow> Inl e
      | Inr mem \<Rightarrow> finishTreeAfterSegments hash t logSigmentLength mem)"

section \<open>Positions in the tree buffer\<close>

lemma pos_row_le: "a \<le> b \<Longrightarrow> 2 ^ a + t = 2 ^ b + u \<Longrightarrow> t < 2 ^ a \<Longrightarrow> u < 2 ^ b \<Longrightarrow> a = b \<and> t = (u::nat)"
proof (cases "a = b")
  case False
  assume le: "a \<le> b" "2 ^ a + t = 2 ^ b + u" "t < 2 ^ a"
  then have "(2::nat) ^ Suc a \<le> 2 ^ b" using False by (intro power_increasing) simp_all
  with le show ?thesis by simp
qed simp

lemma pos_row: "2 ^ a + t = 2 ^ b + u \<Longrightarrow> t < 2 ^ a \<Longrightarrow> u < 2 ^ b \<Longrightarrow> a = b \<and> t = (u::nat)"
  using pos_row_le [of a b t u] pos_row_le [of b a u t] by (cases "a \<le> b") auto

lemma seg_bound: "idx < 2 ^ r \<Longrightarrow> 2 ^ k * idx + 2 ^ k \<le> (2::nat) ^ (r + k)"
proof -
  assume "idx < 2 ^ r"
  then have "2 ^ k * Suc idx \<le> 2 ^ k * 2 ^ r" by (intro mult_left_mono) simp_all
  then show ?thesis by (simp add: power_add mult.commute)
qed

lemma in_segment: "2 ^ k * idx \<le> t \<and> t < 2 ^ k * idx + 2 ^ k \<longleftrightarrow> t div 2 ^ k = (idx::nat)"
proof
  assume "2 ^ k * idx \<le> t \<and> t < 2 ^ k * idx + 2 ^ k"
  then show "t div 2 ^ k = idx" by (intro div_nat_eqI) simp_all
next
  assume "t div 2 ^ k = idx"
  then have "t = 2 ^ k * idx + t mod 2 ^ k" using mult_div_mod_eq [of "2 ^ k" t] by simp
  moreover have "t mod 2 ^ k < 2 ^ k" by simp
  ultimately show "2 ^ k * idx \<le> t \<and> t < 2 ^ k * idx + 2 ^ k" by linarith
qed

section \<open>One segment\<close>

text \<open>Position \<open>t\<close> of row \<open>r + k\<close> belongs to segment \<open>t div 2^k\<close>.\<close>

lemma length_subtree_rows [simp]: "length (subtree_rows hash src dst r idx K mem) = length mem"
  by (induction K arbitrary: src mem) (simp_all add: Let_def)

lemma seg_row:
  fixes hash :: "'d \<Rightarrow> 'd \<Rightarrow> 'd"
  assumes idx: "idx < 2 ^ r" and apart: "p + 2 ^ Suc k \<le> dst + 1 \<or> dst + 2 ^ (r + Suc k) \<le> p"
    and len: "dst + 2 ^ (r + Suc k) \<le> length mem"
  defines "mem' \<equiv> hash_row hash p (dst + 2 ^ (r + k) + 2 ^ k * idx) (2 ^ k) mem"
  shows "t < 2 ^ \<rho> \<Longrightarrow> mem' ! (dst + 2 ^ \<rho> + t) = (if \<rho> = r + k \<and> t div 2 ^ k = idx
      then hash (mem ! (p + 2 * (t - 2 ^ k * idx))) (mem ! (p + 2 * (t - 2 ^ k * idx) + 1)) else mem ! (dst + 2 ^ \<rho> + t))"
    and "j \<le> dst \<or> dst + 2 ^ (r + Suc k) \<le> j \<Longrightarrow> mem' ! j = mem ! j"
proof -
  let ?d = "dst + 2 ^ (r + k) + 2 ^ k * idx"
  have b: "?d + 2 ^ k \<le> dst + 2 ^ (r + Suc k)" using seg_bound [OF idx, of k] by simp
  have one: "(1::nat) \<le> 2 ^ (r + k)" by simp
  have "p + 2 * 2 ^ k \<le> ?d \<or> ?d + 2 ^ k \<le> p"
    using apart b one unfolding power_Suc by linarith
  then have nth: "mem' ! j = (if ?d \<le> j \<and> j < ?d + 2 ^ k
      then hash (mem ! (p + 2 * (j - ?d))) (mem ! (p + 2 * (j - ?d) + 1)) else mem ! j)" for j
    unfolding mem'_def by (rule hash_row_nth) (use b len in linarith)
  show "mem' ! j = mem ! j" if "j \<le> dst \<or> dst + 2 ^ (r + Suc k) \<le> j"
    using that b one by (subst nth) auto
  show "mem' ! (dst + 2 ^ \<rho> + t) = (if \<rho> = r + k \<and> t div 2 ^ k = idx
      then hash (mem ! (p + 2 * (t - 2 ^ k * idx))) (mem ! (p + 2 * (t - 2 ^ k * idx) + 1)) else mem ! (dst + 2 ^ \<rho> + t))"
    if t: "t < 2 ^ \<rho>"
  proof (cases "\<rho> = r + k")
    case True
    have "?d \<le> dst + 2 ^ \<rho> + t \<and> dst + 2 ^ \<rho> + t < ?d + 2 ^ k \<longleftrightarrow> t div 2 ^ k = idx"
      unfolding True in_segment [symmetric] by linarith
    moreover have "dst + 2 ^ \<rho> + t - ?d = t - 2 ^ k * idx" by (simp add: True)
    ultimately show ?thesis by (subst nth) (simp add: True)
  next
    case False
    have nm: "\<not> (?d \<le> dst + 2 ^ \<rho> + t \<and> dst + 2 ^ \<rho> + t < ?d + 2 ^ k)"
    proof
      assume a: "?d \<le> dst + 2 ^ \<rho> + t \<and> dst + 2 ^ \<rho> + t < ?d + 2 ^ k"
      define u where "u = 2 ^ \<rho> + t - 2 ^ (r + k)"
      have "2 ^ \<rho> + t = 2 ^ (r + k) + u" unfolding u_def using a by linarith
      moreover have "u < 2 ^ (r + k)" unfolding u_def using a seg_bound [OF idx, of k] by linarith
      ultimately show False using pos_row [of \<rho> t "r + k" u] t False by blast
    qed
    show ?thesis unfolding nth if_not_P [OF nm] using False by simp
  qed
qed

lemma subtree_rows_spec:
  assumes "idx < 2 ^ r" "p + 2 ^ K \<le> dst + 1 \<or> dst + 2 ^ (r + K) \<le> p" "dst + 2 ^ (r + K) \<le> length mem"
    and "\<And>j. j < 2 ^ K \<Longrightarrow> mem ! (p + j) = mnode hash L h (2 ^ K * idx + j)"
  shows "(\<forall>\<rho> t. t < 2 ^ \<rho> \<longrightarrow> subtree_rows hash p dst r idx K mem ! (dst + 2 ^ \<rho> + t) =
      (if r \<le> \<rho> \<and> \<rho> < r + K \<and> t div 2 ^ (\<rho> - r) = idx then mnode hash L (h + (r + K - \<rho>)) t
       else mem ! (dst + 2 ^ \<rho> + t))) \<and>
    (\<forall>j. j \<le> dst \<or> dst + 2 ^ (r + K) \<le> j \<longrightarrow> subtree_rows hash p dst r idx K mem ! j = mem ! j)"
  using assms(2-4)
proof (induction K arbitrary: p mem h)
  case (Suc k)
  let ?d = "dst + 2 ^ (r + k) + 2 ^ k * idx"
  let ?m = "hash_row hash p ?d (2 ^ k) mem"
  note row = seg_row [OF assms(1) Suc.prems(1,2), where hash = hash]
  have node: "?m ! (dst + 2 ^ (r + k) + t) = mnode hash L (Suc h) t" if t: "t < 2 ^ (r + k)" "t div 2 ^ k = idx" for t
  proof -
    define j where "j = t - 2 ^ k * idx"
    have "2 ^ k * idx \<le> t" "t < 2 ^ k * idx + 2 ^ k" using in_segment [of k idx t] t(2) by blast+
    then have j: "t = 2 ^ k * idx + j" "j < 2 ^ k" unfolding j_def by linarith+
    have "?m ! (dst + 2 ^ (r + k) + t) = hash (mem ! (p + 2 * j)) (mem ! (p + 2 * j + 1))"
      using row(1) [OF t(1)] t(2) by (simp add: j_def)
    also have "\<dots> = mnode hash L (Suc h) t"
      using Suc.prems(3) [of "2 * j"] Suc.prems(3) [of "2 * j + 1"] j by (simp add: algebra_simps)
    finally show ?thesis .
  qed
  have src': "?m ! (?d + j) = mnode hash L (Suc h) (2 ^ k * idx + j)" if j: "j < 2 ^ k" for j
    using node [of "2 ^ k * idx + j"] seg_bound [OF assms(1), of k] j by (simp add: add.assoc)
  have IH: "(\<forall>\<rho> t. t < 2 ^ \<rho> \<longrightarrow> subtree_rows hash ?d dst r idx k ?m ! (dst + 2 ^ \<rho> + t) =
      (if r \<le> \<rho> \<and> \<rho> < r + k \<and> t div 2 ^ (\<rho> - r) = idx then mnode hash L (Suc h + (r + k - \<rho>)) t
       else ?m ! (dst + 2 ^ \<rho> + t))) \<and>
    (\<forall>j. j \<le> dst \<or> dst + 2 ^ (r + k) \<le> j \<longrightarrow> subtree_rows hash ?d dst r idx k ?m ! j = ?m ! j)"
    by (rule Suc.IH) (use Suc.prems(2) src' in simp_all)
  have "subtree_rows hash p dst r idx (Suc k) mem ! (dst + 2 ^ \<rho> + t) =
      (if r \<le> \<rho> \<and> \<rho> < r + Suc k \<and> t div 2 ^ (\<rho> - r) = idx then mnode hash L (h + (r + Suc k - \<rho>)) t
       else mem ! (dst + 2 ^ \<rho> + t))" if t: "t < 2 ^ \<rho>" for \<rho> t
  proof -
    have e: "subtree_rows hash p dst r idx (Suc k) mem ! (dst + 2 ^ \<rho> + t) = subtree_rows hash ?d dst r idx k ?m ! (dst + 2 ^ \<rho> + t)"
      by (simp add: Let_def)
    consider "\<rho> = r + k" | "r \<le> \<rho>" "\<rho> < r + k" | "\<rho> < r \<or> r + k < \<rho>" by linarith
    then show ?thesis
    proof cases
      case 1
      have "subtree_rows hash p dst r idx (Suc k) mem ! (dst + 2 ^ \<rho> + t) = ?m ! (dst + 2 ^ \<rho> + t)"
        unfolding e using IH t 1 by auto
      then show ?thesis using row(1) [OF t] node [of t] t 1 by (cases "t div 2 ^ k = idx") simp_all
    next
      case 2
      then have "Suc h + (r + k - \<rho>) = h + (r + Suc k - \<rho>)" by simp
      then show ?thesis unfolding e using IH t 2 row(1) [OF t] by (simp del: mnode.simps)
    next
      case 3
      then show ?thesis unfolding e using IH t row(1) [OF t] by auto
    qed
  qed
  moreover have "subtree_rows hash p dst r idx (Suc k) mem ! j = mem ! j" if j: "j \<le> dst \<or> dst + 2 ^ (r + Suc k) \<le> j" for j
  proof -
    have "j \<le> dst \<or> dst + 2 ^ (r + k) \<le> j" using j by auto
    then have "subtree_rows hash ?d dst r idx k ?m ! j = ?m ! j" using IH by blast
    then show ?thesis using row(2) [OF j] by (simp add: Let_def)
  qed
  ultimately show ?case by blast
qed auto

section \<open>All segments\<close>

lemma subtree_leaves:
  assumes "src + 2 ^ (r + K) \<le> dst + 1 \<or> dst + 2 ^ (r + K) \<le> src" "dst + 2 ^ (r + K) \<le> length mem" "idx < 2 ^ r"
    and "\<And>j. j < 2 ^ (r + K) \<Longrightarrow> mem ! (src + j) = L j"
  shows "(\<forall>\<rho> t. t < 2 ^ \<rho> \<longrightarrow> subtree_rows hash (src + 2 ^ K * idx) dst r idx K mem ! (dst + 2 ^ \<rho> + t) =
      (if r \<le> \<rho> \<and> \<rho> < r + K \<and> t div 2 ^ (\<rho> - r) = idx then mnode hash L (r + K - \<rho>) t
       else mem ! (dst + 2 ^ \<rho> + t))) \<and>
    (\<forall>j. j \<le> dst \<or> dst + 2 ^ (r + K) \<le> j \<longrightarrow> subtree_rows hash (src + 2 ^ K * idx) dst r idx K mem ! j = mem ! j)"
proof -
  have b: "2 ^ K * idx + 2 ^ K \<le> 2 ^ (r + K)" by (rule seg_bound [OF assms(3)])
  have "(src + 2 ^ K * idx) + 2 ^ K \<le> dst + 1 \<or> dst + 2 ^ (r + K) \<le> src + 2 ^ K * idx"
    using assms(1) b by linarith
  moreover have "mem ! (src + 2 ^ K * idx + j) = mnode hash L 0 (2 ^ K * idx + j)" if "j < 2 ^ K" for j
    using assms(4) [of "2 ^ K * idx + j"] b that by (simp add: add.assoc)
  ultimately show ?thesis using subtree_rows_spec [OF assms(3) _ assms(2), of "src + 2 ^ K * idx" hash L 0] by simp
qed

definition segments_at :: "('d \<Rightarrow> 'd \<Rightarrow> 'd) \<Rightarrow> (nat \<Rightarrow> 'd) \<Rightarrow> nat \<Rightarrow> nat \<Rightarrow> nat \<Rightarrow> nat set \<Rightarrow> 'd list \<Rightarrow> bool" where
  "segments_at hash L r K dst S mem \<longleftrightarrow> (\<forall>k < K. \<forall>t < 2 ^ (r + k). t div 2 ^ k \<in> S \<longrightarrow>
     mem ! (dst + 2 ^ (r + k) + t) = mnode hash L (K - k) t)"

lemma construct_segments_ok:
  assumes "src + 2 ^ (r + K) \<le> dst + 1 \<or> dst + 2 ^ (r + K) \<le> src" "dst + 2 ^ (r + K) \<le> length mem"
    and "\<And>j. j < 2 ^ (r + K) \<Longrightarrow> mem ! (src + j) = L j" and "segments_at hash L r K dst S mem"
    and t: "logSizeBytes t = r + K + logBytesPerHash" "tree_ptr t = dst" and "0 < K" "sl + 3 = K + logBytesPerHash"
    and "\<forall>idx \<in> set idxs. idx < 2 ^ r"
  shows "\<exists>mem'. construct_segments hash t src sl idxs mem = Inr mem' \<and> segments_at hash L r K dst (S \<union> set idxs) mem' \<and>
    length mem' = length mem \<and> (\<forall>j. j \<le> dst \<or> dst + 2 ^ (r + K) \<le> j \<longrightarrow> mem' ! j = mem ! j)"
  using assms(2,3,4,9)
proof (induction idxs arbitrary: mem S)
  case (Cons idx idxs)
  let ?m = "subtree_rows hash (src + 2 ^ K * idx) dst r idx K mem"
  have idx: "idx < 2 ^ r" using Cons.prems by simp
  note sp = subtree_leaves [OF assms(1) Cons.prems(1) idx Cons.prems(2), where hash = hash]
  have c: "constructSubtree hash t src sl idx mem = Inr ?m"
    using t assms(7,8) by (simp add: constructSubtree_def constructMerkleSubTree_def)
  have "?m ! (src + j) = L j" if "j < 2 ^ (r + K)" for j
    using sp Cons.prems(2) [OF that] assms(1) that by auto
  moreover have "segments_at hash L r K dst (insert idx S) ?m"
    unfolding segments_at_def
  proof (intro allI impI)
    fix k u assume k: "k < K" and u: "u < 2 ^ (r + k)" and m: "u div 2 ^ k \<in> insert idx S"
    have "?m ! (dst + 2 ^ (r + k) + u) = (if u div 2 ^ k = idx then mnode hash L (K - k) u else mem ! (dst + 2 ^ (r + k) + u))"
      using sp u k by auto
    then show "?m ! (dst + 2 ^ (r + k) + u) = mnode hash L (K - k) u"
      using m k u Cons.prems(3) unfolding segments_at_def by auto
  qed
  ultimately have "\<exists>mem'. construct_segments hash t src sl idxs ?m = Inr mem' \<and>
      segments_at hash L r K dst (insert idx S \<union> set idxs) mem' \<and>
      length mem' = length ?m \<and> (\<forall>j. j \<le> dst \<or> dst + 2 ^ (r + K) \<le> j \<longrightarrow> mem' ! j = ?m ! j)"
    using Cons.prems by (intro Cons.IH) simp_all
  then show ?case using c sp by auto
qed simp

lemma segments_all: "segments_at hash L r K dst {0..<2 ^ r} mem \<Longrightarrow> k < K \<Longrightarrow> t < 2 ^ (r + k) \<Longrightarrow>
    mem ! (dst + 2 ^ (r + k) + t) = mnode hash L (K - k) t"
proof -
  assume s: "segments_at hash L r K dst {0..<2 ^ r} mem" "k < K" and t: "t < 2 ^ (r + k)"
  have "t div 2 ^ k < 2 ^ r" using t by (simp add: less_mult_imp_div_less power_add)
  with s t show ?thesis by (simp add: segments_at_def)
qed

lemma getFinalHash_tree:
  assumes "src + 2 ^ (r + K) \<le> dst + 1 \<or> dst + 2 ^ (r + K) \<le> src" "dst + 2 ^ (r + K) \<le> length mem"
    and t: "logSizeBytes t = r + K + logBytesPerHash" "tree_ptr t = dst" and K: "0 < K" "sl + 3 = K + logBytesPerHash"
  shows "\<exists>t' mem'. getFinalHash hash t src r sl mem = Inr (t', mem') \<and>
    tree_at hash (leaves mem src) (r + K) dst mem' \<and> root_digest t' = mnode hash (leaves mem src) (r + K) 0"
proof -
  let ?L = "leaves mem src"
  have "\<exists>mem'. construct_segments hash t src sl [0..<2 ^ r] mem = Inr mem' \<and> segments_at hash ?L r K dst ({} \<union> set [0..<2 ^ r]) mem' \<and>
    length mem' = length mem \<and> (\<forall>j. j \<le> dst \<or> dst + 2 ^ (r + K) \<le> j \<longrightarrow> mem' ! j = mem ! j)"
    by (rule construct_segments_ok [OF assms(1,2) _ _ t K]) (simp_all add: leaves_def segments_at_def)
  then obtain m where m: "construct_segments hash t src sl [0..<2 ^ r] mem = Inr m"
    "segments_at hash ?L r K dst {0..<2 ^ r} m" "length m = length mem" by auto
  note low = segments_all [OF m(2)]
  have top: "m ! (dst + 2 ^ r + j) = mnode hash ?L K j" if "j < 2 ^ r" for j
    using low [of 0 j] K that by simp
  have r: "logSizeBytes t - (sl + 3) = r" using t K by simp
  show ?thesis
  proof (cases "r = 0")
    case True
    have "m ! (dst + 2 ^ k + i) = mnode hash ?L (r + K - k) i" if "k < r + K" "i < 2 ^ k" for k i
      using low [of k i] that True by simp
    then have "tree_at hash ?L (r + K) dst m" by (simp add: tree_at_def)
    moreover have "m ! (dst + 1) = mnode hash ?L K 0" using top [of 0] True by simp
    ultimately show ?thesis using m r True t by (simp add: getFinalHash_def finishTreeAfterSegments_def)
  next
    case False
    let ?m' = "tree_rows hash (dst + 2 ^ r) dst r m"
    have len: "dst + 2 ^ r \<le> length m"
      using assms(2) m(3) power_increasing [of r "r + K" "2::nat"] by linarith
    have tr: "tree_at hash (leaves m (dst + 2 ^ r)) r dst ?m'" by (rule tree_rows_tree) (use len in simp_all)
    have fr: "?m' ! j = m ! j" if "dst + 2 ^ r \<le> j" for j by (rule tree_rows_frame) (use len that in simp_all)
    have up: "mnode hash (leaves m (dst + 2 ^ r)) (r - k) i = mnode hash ?L (r + K - k) i" if "k \<le> r" "i < 2 ^ k" for k i
    proof -
      have "mnode hash (leaves m (dst + 2 ^ r)) (r - k) i = mnode hash (mnode hash ?L K) (r - k) i"
      proof (rule mnode_cong)
        fix j assume "j < (i + 1) * 2 ^ (r - k)"
        also have "\<dots> \<le> 2 ^ k * 2 ^ (r - k)" using that by (intro mult_right_mono) simp_all
        also have "\<dots> = 2 ^ r" using that by (simp flip: power_add)
        finally show "leaves m (dst + 2 ^ r) j = mnode hash ?L K j" using top by (simp add: leaves_def)
      qed
      then show ?thesis using that by (simp add: mnode_add add.commute)
    qed
    have "?m' ! (dst + 2 ^ k + i) = mnode hash ?L (r + K - k) i" if "k < r + K" "i < 2 ^ k" for k i
    proof (cases "k < r")
      case True
      then show ?thesis using tr up [of k i] that unfolding tree_at_def by simp
    next
      case False
      then have k: "k = r + (k - r)" by simp
      have "(2::nat) ^ r \<le> 2 ^ k" using False by (intro power_increasing) simp_all
      then have "?m' ! (dst + 2 ^ k + i) = m ! (dst + 2 ^ k + i)" by (intro fr) linarith
      then show ?thesis using low [of "k - r" i] that False k by (simp add: add.commute)
    qed
    then have "tree_at hash ?L (r + K) dst ?m'" by (simp add: tree_at_def)
    moreover have "?m' ! (dst + 1) = mnode hash ?L (r + K) 0"
      using tr up [of 0 0] False unfolding tree_at_def by (auto dest: spec [of _ 0])
    ultimately show ?thesis using m r False t
      by (simp add: getFinalHash_def finishTreeAfterSegments_def constructMerkleTree_def Let_def)
  qed
qed



end
