(* ===== verification/SparseMerkle.thy ===== *)
theory SparseMerkle
  imports MerkleSegments
begin

text \<open>
  The classes \<open>SparceMerkleLayer\<close> and \<open>SparceMerkleTree\<close> of \<open>MerkleCommitment.cpp\<close>: the partial
  view of a Merkle tree that a prover sends and from which the verifier recomputes the root.
  A layer is a \<open>std::map\<close> from indices to digests. The lemmas show that a view filled with the
  data and paths of a real tree recomputes its root, that serialisation keeps that, and that
  a view that recomputes the root of a tree but shows other data at a queried index exhibits
  a collision of \<open>hash\<close>.
\<close>

unbundle bit_operations_syntax

type_synonym 'd layer = "(nat, 'd) std_map"

section \<open>Layers\<close>

definition hasElement :: "'d layer \<Rightarrow> nat \<Rightarrow> bool" where
  "hasElement l idx \<longleftrightarrow> map_find l idx \<noteq> None"

definition addEntry :: "nat \<Rightarrow> 'd \<Rightarrow> 'd layer \<Rightarrow> 'd layer" where
  "addEntry idx d l = map_put idx d l"

text \<open>\<open>data_.erase(data_.find(idx))\<close> is undefined when there is no such entry.\<close>

definition deleteEntry :: "nat \<Rightarrow> 'd layer \<Rightarrow> failure + 'd layer" where
  "deleteEntry idx l = (if hasElement l idx then Inr (map_erase idx l) else Inl OutOfBounds)"

definition readData :: "'d layer \<Rightarrow> nat \<Rightarrow> failure + 'd" where
  "readData l idx = (case map_find l idx of None \<Rightarrow> Inl OutOfRange | Some d \<Rightarrow> Inr d)"

definition hashPair :: "('d \<Rightarrow> 'd \<Rightarrow> 'd) \<Rightarrow> 'd layer \<Rightarrow> nat \<Rightarrow> failure + 'd" where
  "hashPair hash l idx = (case readData l (2 * idx) of Inl e \<Rightarrow> Inl e | Inr a \<Rightarrow>
     (case readData l (2 * idx XOR 1) of Inl e \<Rightarrow> Inl e | Inr b \<Rightarrow> Inr (hash a b)))"

fun next_entries :: "('d \<Rightarrow> 'd \<Rightarrow> 'd) \<Rightarrow> 'd layer \<Rightarrow> bool \<Rightarrow> (nat \<times> 'd) list \<Rightarrow> 'd layer \<Rightarrow> failure + 'd layer" where
  "next_entries hash l needToCalc [] res = Inr res"
| "next_entries hash l needToCalc (v # vs) res = (let needToCalc = (\<not> needToCalc) in
     if needToCalc then let currPairIdx = fst v div 2 in
       (case hashPair hash l currPairIdx of Inl e \<Rightarrow> Inl e
        | Inr h \<Rightarrow> next_entries hash l needToCalc vs (addEntry currPairIdx h res))
     else next_entries hash l needToCalc vs res)"

definition calculateNextLayer :: "('d \<Rightarrow> 'd \<Rightarrow> 'd) \<Rightarrow> 'd layer \<Rightarrow> 'd layer \<Rightarrow> failure + 'd layer" where
  "calculateNextLayer hash l received = next_entries hash l False l received"

definition layer_toVector :: "'d layer \<Rightarrow> 'd list" where "layer_toVector l = map snd l"
definition getIndices :: "'d layer \<Rightarrow> nat list" where "getIndices l = map fst l"

section \<open>The tree\<close>

text \<open>The member \<open>layers_\<close>, lowest layer first.\<close>

type_synonym 'd sparse_tree = "'d layer list"

definition SparceMerkleTree :: "nat \<Rightarrow> 'd sparse_tree" where
  "SparceMerkleTree src_logLen = replicate (src_logLen - logBytesPerHash) []"

definition addPath :: "'d \<times> 'd \<Rightarrow> 'd list \<Rightarrow> nat \<Rightarrow> 'd sparse_tree \<Rightarrow> 'd sparse_tree" where
  "addPath data path pairIdx layers = (let
     layers = layers[0 := addEntry (2 * pairIdx XOR 1) (snd data) (addEntry (2 * pairIdx) (fst data) (layers ! 0))]
     in fst (fold (\<lambda>i (layers, currIdx). (layers[i := addEntry (currIdx XOR 1) (path ! (i - 1)) (layers ! i)], currIdx div 2))
       [1..<length layers] (layers, pairIdx)))"

fun root_loop :: "('d \<Rightarrow> 'd \<Rightarrow> 'd) \<Rightarrow> 'd layer \<Rightarrow> 'd layer list \<Rightarrow> failure + 'd layer" where
  "root_loop hash currLayer [] = Inr currLayer"
| "root_loop hash currLayer (receivedLayer # ls) = (case calculateNextLayer hash currLayer receivedLayer of
     Inl e \<Rightarrow> Inl e | Inr l \<Rightarrow> root_loop hash l ls)"

definition calculateRoot :: "('d \<Rightarrow> 'd \<Rightarrow> 'd) \<Rightarrow> 'd sparse_tree \<Rightarrow> failure + 'd" where
  "calculateRoot hash layers = (case root_loop hash [] layers of Inl e \<Rightarrow> Inl e | Inr l \<Rightarrow> hashPair hash l 0)"

section \<open>Serialisation\<close>

text \<open>One layer of \<open>getSerializationMapping\<close>: the known indices (\<open>True\<close>: explicit) give the entries
  to fetch and the known indices of the next layer.\<close>

definition next_known :: "(nat, bool) std_map \<Rightarrow> (nat, bool) std_map" where
  "next_known knownIndices = (let
     next_knownIndices = fold (\<lambda>known. map_put (fst known div 2) False) knownIndices [];
     explictlyKnown = map (\<lambda>k. fst k XOR 1) (filter (\<lambda>k. map_find next_knownIndices (fst k XOR 1) = None) next_knownIndices)
     in fold (\<lambda>idx. map_put idx True) explictlyKnown next_knownIndices)"

fun mapping_loop :: "nat \<Rightarrow> nat \<Rightarrow> (nat, bool) std_map \<Rightarrow> (nat \<times> nat) list" where
  "mapping_loop layerIdx 0 knownIndices = []"
| "mapping_loop layerIdx (Suc n) knownIndices =
     map (\<lambda>known. (layerIdx, fst known)) (filter snd knownIndices) @
     mapping_loop (Suc layerIdx) n (next_known knownIndices)"

definition first_known :: "nat list \<Rightarrow> (nat, bool) std_map" where
  "first_known queriedIndices = fold (\<lambda>idx m. map_put (idx XOR 1) True (map_put idx True m)) queriedIndices []"

text \<open>\<open>numLayers\<close> is the length of the member \<open>layers_\<close>; the set of queried indices is passed as its
  elements in order.\<close>

definition getSerializationMapping :: "nat \<Rightarrow> nat list \<Rightarrow> (nat \<times> nat) list" where
  "getSerializationMapping numLayers queriedIndices = mapping_loop 0 numLayers (first_known queriedIndices)"

fun read_locs :: "'d sparse_tree \<Rightarrow> (nat \<times> nat) list \<Rightarrow> failure + 'd list" where
  "read_locs layers [] = Inr []"
| "read_locs layers (loc # locs) = (case readData (layers ! fst loc) (snd loc) of Inl e \<Rightarrow> Inl e
     | Inr d \<Rightarrow> (case read_locs layers locs of Inl e \<Rightarrow> Inl e | Inr ds \<Rightarrow> Inr (d # ds)))"

definition toVector :: "'d sparse_tree \<Rightarrow> failure + 'd list" where
  "toVector layers = read_locs layers (getSerializationMapping (length layers) (getIndices (layers ! 0)))"

definition DeSerialize :: "nat list \<Rightarrow> 'd list \<Rightarrow> 'd sparse_tree \<Rightarrow> failure + 'd sparse_tree" where
  "DeSerialize queriedIndices serializedSubtree layers = (let
     serializationMapping = getSerializationMapping (length layers) queriedIndices
     in if length serializationMapping = length serializedSubtree
     then Inr (fold (\<lambda>(loc, d) layers. layers[fst loc := addEntry (snd loc) d (layers ! fst loc)])
       (zip serializationMapping serializedSubtree) layers)
     else Inl AssertFailed)"

definition hasData :: "'d sparse_tree \<Rightarrow> nat \<Rightarrow> bool" where
  "hasData layers idx \<longleftrightarrow> hasElement (layers ! 0) idx"

definition tree_readData :: "'d sparse_tree \<Rightarrow> nat \<Rightarrow> failure + 'd" where
  "tree_readData layers idx = readData (layers ! 0) idx"

section \<open>Layers whose entries come in pairs\<close>

definition paired :: "'d layer \<Rightarrow> bool" where
  "paired l \<longleftrightarrow> (\<forall>k. map_find l k \<noteq> None \<longrightarrow> map_find l (k XOR 1) \<noteq> None)"

lemma paired_cases:
  assumes "map_inv l" "paired l" "l \<noteq> []"
  obtains p a b r where "l = (2 * p, a) # (2 * p + 1, b) # r" "map_inv r" "paired r" "\<forall>k \<in> fst ` set r. 2 * p + 1 < k"
proof -
  obtain k a l' where l: "l = (k, a) # l'" using assms(3) by (cases l) auto
  have inv': "map_inv l'" and lt: "\<forall>x \<in> fst ` set l'. k < x" using assms(1) l by (auto simp: map_inv_def)
  have mate: "k XOR 1 \<in> fst ` set l"
    using assms(2) l unfolding paired_def map_find_def
    by (metis map_of_eq_None_iff map_of_Cons_code(2) option.distinct(1))
  have ev: "even k"
  proof (rule ccontr)
    assume o: "odd k"
    then have "k XOR 1 < k" by (cases k) (simp_all add: xor_1_nat)
    with mate lt l show False by auto
  qed
  then have m1: "k XOR 1 = k + 1" by (simp add: xor_1_nat)
  then have k1: "k + 1 \<in> fst ` set l'" using mate l by auto
  obtain k' b r where l': "l' = (k', b) # r" using k1 by (cases l') auto
  have "k' = k + 1"
  proof -
    have "k < k'" using lt l' by auto
    moreover have "k' \<le> k + 1" using k1 inv' l' by (fastforce simp: map_inv_def)
    ultimately show ?thesis by simp
  qed
  obtain p where p: "k = 2 * p" using ev by blast
  have r: "map_inv r" "\<forall>x \<in> fst ` set r. 2 * p + 1 < x"
    using inv' l' \<open>k' = k + 1\<close> p by (auto simp: map_inv_def)
  have "paired r"
    unfolding paired_def
  proof (intro allI impI)
    fix x assume "map_find r x \<noteq> None"
    then have x: "x \<in> fst ` set r" by (auto simp: map_find_def map_of_eq_None_iff)
    then have gt: "2 * p + 1 < x" using r by blast
    have "x \<in> fst ` set l" using x l l' by auto
    then have "map_find l x \<noteq> None" by (simp add: map_find_def map_of_eq_None_iff)
    then have "map_find l (x XOR 1) \<noteq> None" using assms(2) by (simp add: paired_def)
    moreover have "x XOR 1 \<noteq> 2 * p" "x XOR 1 \<noteq> 2 * p + 1"
      using gt by (simp_all add: xor_1_nat split: if_splits) presburger+
    ultimately show "map_find r (x XOR 1) \<noteq> None"
      using l l' p \<open>k' = k + 1\<close> by (simp add: map_find_def)
  qed
  with that r l l' p \<open>k' = k + 1\<close> show thesis by blast
qed

lemma xor_1_even: "2 * p XOR Suc 0 = Suc (2 * p)"
  by (simp add: xor_1_nat)

text \<open>What the layer above gets for the pair \<open>p\<close>.\<close>

definition parent :: "('d \<Rightarrow> 'd \<Rightarrow> 'd) \<Rightarrow> 'd layer \<Rightarrow> nat \<Rightarrow> 'd option" where
  "parent hash l p = (case (map_find l (2 * p), map_find l (2 * p + 1)) of (Some a, Some b) \<Rightarrow> Some (hash a b) | _ \<Rightarrow> None)"

lemma hashPair_parent: "hashPair hash l p = (case parent hash l p of None \<Rightarrow> Inl OutOfRange | Some h \<Rightarrow> Inr h)"
  by (simp add: hashPair_def parent_def readData_def xor_1_even split: option.splits)

lemma next_entries_paired:
  assumes "map_inv v" "paired v" "map_inv res" "\<And>k d. map_find v k = Some d \<Longrightarrow> map_find l k = Some d"
  shows "\<exists>m. next_entries hash l False v res = Inr m \<and> map_inv m \<and>
    (\<forall>p. map_find m p = (if map_find v (2 * p) \<noteq> None then parent hash l p else map_find res p))"
  using assms
proof (induction "length v" arbitrary: v res rule: less_induct)
  case less
  show ?case
  proof (cases "v = []")
    case False
    obtain q a b r where v: "v = (2 * q, a) # (2 * q + 1, b) # r" and r: "map_inv r" "paired r"
      and gt: "\<forall>k \<in> fst ` set r. 2 * q + 1 < k"
      using paired_cases [OF less.prems(1,2) False] by blast
    have l: "map_find l (2 * q) = Some a" "map_find l (2 * q + 1) = Some b"
      by (rule less.prems(4); simp add: v map_find_def)+
    have nr: "map_find r (2 * q) = None" using gt by (fastforce simp: map_find_def map_of_eq_None_iff)
    have step: "next_entries hash l False v res = next_entries hash l False r (addEntry q (hash a b) res)"
      using l by (simp add: v hashPair_parent parent_def)
    have sub: "map_find l k = Some d" if "map_find r k = Some d" for k d
    proof -
      have "k \<in> fst ` set r" using that by (force simp: map_find_def dest: map_of_SomeD)
      then have "2 * q + 1 < k" using gt by blast
      then have "map_find v k = Some d" using that by (simp add: v map_find_def)
      then show ?thesis by (rule less.prems(4))
    qed
    obtain m where m: "next_entries hash l False r (addEntry q (hash a b) res) = Inr m" "map_inv m"
      "\<And>p. map_find m p = (if map_find r (2 * p) \<noteq> None then parent hash l p else map_find (addEntry q (hash a b) res) p)"
      using less.hyps [of r "addEntry q (hash a b) res"] r less.prems(3) sub
      by (auto simp: v addEntry_def map_inv_put)
    have "map_find m p = (if map_find v (2 * p) \<noteq> None then parent hash l p else map_find res p)" for p
    proof (cases "p = q")
      case True then show ?thesis using l nr by (simp add: m(3) addEntry_def map_find_put less.prems(3) v map_find_def [of v] parent_def map_find_def [of "_ # _"])
    next
      case False
      have "2 * p \<noteq> 2 * q + 1" by presburger
      with False show ?thesis by (simp add: m(3) addEntry_def map_find_put less.prems(3) v map_find_def [of "_ # _"] map_find_def [of r])
    qed
    with m step show ?thesis by auto
  qed (use less.prems in simp)
qed

lemma calculateNextLayer_paired:
  assumes "map_inv l" "paired l" "map_inv received"
  shows "\<exists>m. calculateNextLayer hash l received = Inr m \<and> map_inv m \<and>
    (\<forall>p. map_find m p = (if map_find l (2 * p) \<noteq> None then parent hash l p else map_find received p))"
  using next_entries_paired [OF assms] by (simp add: calculateNextLayer_def)

section \<open>Views of a tree\<close>

text \<open>Layer \<open>i\<close> shows nodes of height \<open>i\<close>.\<close>

definition shown :: "('d \<Rightarrow> 'd \<Rightarrow> 'd) \<Rightarrow> (nat \<Rightarrow> 'd) \<Rightarrow> nat \<Rightarrow> 'd layer \<Rightarrow> bool" where
  "shown hash L i l \<longleftrightarrow> map_inv l \<and> (\<forall>k d. map_find l k = Some d \<longrightarrow> d = mnode hash L i k)"

text \<open>\<open>needs Q i\<close>: the indices of layer \<open>i\<close> on or beside the path of a queried pair, and those among
  them that the layer below cannot supply.\<close>

definition on_path :: "nat set \<Rightarrow> nat \<Rightarrow> nat set" where
  "on_path Q i = (\<lambda>q. q div 2 ^ i) ` Q"

text \<open>A view is complete for the pairs \<open>Q\<close> when its lowest layer has the queried pairs and every
  higher layer the siblings of the nodes on the paths, and nothing but nodes on or beside them.\<close>

definition complete_view :: "('d \<Rightarrow> 'd \<Rightarrow> 'd) \<Rightarrow> (nat \<Rightarrow> 'd) \<Rightarrow> nat set \<Rightarrow> 'd layer list \<Rightarrow> bool" where
  "complete_view hash L Q layers \<longleftrightarrow> (\<forall>i < length layers. shown hash L i (layers ! i)) \<and>
     (\<forall>k. map_find (layers ! 0) k \<noteq> None \<longleftrightarrow> k div 2 \<in> Q) \<and>
     (\<forall>i. 0 < i \<longrightarrow> i < length layers \<longrightarrow> (\<forall>k. k div 2 \<in> on_path Q i \<longrightarrow> k \<notin> on_path Q (i - 1) \<longrightarrow> map_find (layers ! i) k \<noteq> None) \<and>
        (\<forall>k. map_find (layers ! i) k \<noteq> None \<longrightarrow> k div 2 \<in> on_path Q i))"

lemma on_path_Suc: "on_path Q (Suc i) = (\<lambda>q. q div 2) ` on_path Q i"
  by (auto simp: on_path_def image_image div_mult2_eq power_Suc2 simp del: power_Suc)

lemma root_loop_snoc:
  "root_loop hash l (ls @ [r]) = (case root_loop hash l ls of Inl e \<Rightarrow> Inl e | Inr m \<Rightarrow> calculateNextLayer hash m r)"
  by (induction ls arbitrary: l) (auto split: sum.splits)

lemma root_loop_complete:
  assumes v: "complete_view hash L Q layers" and "i < length layers"
  shows "\<exists>m. root_loop hash [] (take (Suc i) layers) = Inr m \<and> shown hash L i m \<and>
    (\<forall>k. map_find m k \<noteq> None \<longleftrightarrow> k div 2 \<in> on_path Q i)"
  using assms(2)
proof (induction i)
  case 0
  have s: "shown hash L 0 (layers ! 0)" using v 0 by (simp add: complete_view_def)
  have "root_loop hash [] (take 1 layers) = Inr (layers ! 0)"
    using 0 by (cases layers) (simp_all add: calculateNextLayer_def)
  with s v show ?case by (simp add: complete_view_def on_path_def)
next
  case (Suc i)
  then obtain m where m: "root_loop hash [] (take (Suc i) layers) = Inr m" "shown hash L i m"
    "\<And>k. map_find m k \<noteq> None \<longleftrightarrow> k div 2 \<in> on_path Q i" by auto
  have "(k XOR 1) div 2 = k div 2" for k :: nat by (simp add: xor_div2)
  then have pm: "paired m" using m(3) by (simp add: paired_def)
  have r: "shown hash L (Suc i) (layers ! Suc i)" using v Suc.prems by (simp add: complete_view_def)
  obtain m' where m': "calculateNextLayer hash m (layers ! Suc i) = Inr m'" "map_inv m'"
    "\<And>p. map_find m' p = (if map_find m (2 * p) \<noteq> None then parent hash m p else map_find (layers ! Suc i) p)"
    using calculateNextLayer_paired [of m "layers ! Suc i" hash] m(2) pm r by (auto simp: shown_def)
  have par: "parent hash m p = Some (mnode hash L (Suc i) p)" if nn: "map_find m (2 * p) \<noteq> None" for p
  proof -
    have "map_find m (2 * p + 1) \<noteq> None" using nn m(3) [of "2 * p"] m(3) [of "2 * p + 1"] by simp
    then obtain a b where "map_find m (2 * p) = Some a" "map_find m (2 * p + 1) = Some b" using nn by blast
    then show ?thesis using m(2) by (simp add: parent_def shown_def)
  qed
  have "shown hash L (Suc i) m'"
    using m' par r by (auto simp: shown_def split: if_splits)
  moreover have "map_find m' k \<noteq> None \<longleftrightarrow> k div 2 \<in> on_path Q (Suc i)" for k
  proof (cases "k \<in> on_path Q i")
    case True
    then have "map_find m (2 * k) \<noteq> None" using m(3) by simp
    then show ?thesis using True par by (simp add: m'(3) on_path_Suc)
  next
    case False
    then have "map_find m (2 * k) = None" using m(3) [of "2 * k"] by auto
    then show ?thesis using v Suc.prems False unfolding complete_view_def by (fastforce simp: m'(3))
  qed
  moreover have "root_loop hash [] (take (Suc (Suc i)) layers) = Inr m'"
    unfolding take_Suc_conv_app_nth [OF Suc.prems] root_loop_snoc m(1) by (simp add: m'(1))
  ultimately show ?case by blast
qed

lemma calculateRoot_complete:
  assumes "complete_view hash L Q layers" "length layers = n" "0 < n" "Q \<noteq> {}" "\<forall>q \<in> Q. q < 2 ^ (n - 1)"
  shows "calculateRoot hash layers = Inr (mnode hash L n 0)"
proof -
  obtain m where m: "root_loop hash [] (take n layers) = Inr m" "shown hash L (n - 1) m"
    "\<And>k. map_find m k \<noteq> None \<longleftrightarrow> k div 2 \<in> on_path Q (n - 1)"
    using root_loop_complete [OF assms(1), of "n - 1"] assms(2,3) by auto
  have "0 \<in> on_path Q (n - 1)" using assms(4,5) by (force simp: on_path_def)
  then obtain a b where "map_find m 0 = Some a" "map_find m 1 = Some b"
    using m(3) [of 0] m(3) [of 1] by auto
  moreover obtain j where "n = Suc j" using assms(3) by (cases n) auto
  ultimately show ?thesis
    using m(1,2) assms(2) by (simp add: calculateRoot_def hashPair_parent parent_def shown_def)
qed

section \<open>Adding paths\<close>

lemma addPath_loop:
  assumes "m \<le> length layers" "0 < m"
  shows "\<exists>ls. fold (\<lambda>i (layers, currIdx). (layers[i := addEntry (currIdx XOR 1) (path ! (i - 1)) (layers ! i)], currIdx div 2))
      [1..<m] (layers, q) = (ls, q div 2 ^ (m - 1)) \<and> length ls = length layers \<and>
    (\<forall>i < length layers. ls ! i = (if 0 < i \<and> i < m then addEntry (q div 2 ^ (i - 1) XOR 1) (path ! (i - 1)) (layers ! i) else layers ! i))"
  using assms
proof (induction m)
  case (Suc m)
  show ?case
  proof (cases "m = 0")
    case False
    then obtain ls where ls: "fold (\<lambda>i (layers, currIdx). (layers[i := addEntry (currIdx XOR 1) (path ! (i - 1)) (layers ! i)], currIdx div 2))
      [1..<m] (layers, q) = (ls, q div 2 ^ (m - 1))" "length ls = length layers"
      "\<forall>i < length layers. ls ! i = (if 0 < i \<and> i < m then addEntry (q div 2 ^ (i - 1) XOR 1) (path ! (i - 1)) (layers ! i) else layers ! i)"
      using Suc by auto
    have e: "[1..<Suc m] = [1..<m] @ [m]" using False by simp
    have "q div 2 ^ (m - 1) div 2 = q div 2 ^ (Suc m - 1)" using False by (cases m) (simp_all add: div_mult2_eq power_Suc2 del: power_Suc)
    then show ?thesis
      unfolding e fold_append comp_apply ls(1)
      using ls(2,3) Suc.prems False by (auto simp: nth_list_update less_Suc_eq)
  qed simp
qed simp

lemma addPath_nth:
  assumes "0 < length layers"
  shows "length (addPath data path q layers) = length layers"
    and "i < length layers \<Longrightarrow> addPath data path q layers ! i = (if i = 0
      then addEntry (2 * q XOR 1) (snd data) (addEntry (2 * q) (fst data) (layers ! 0))
      else addEntry (q div 2 ^ (i - 1) XOR 1) (path ! (i - 1)) (layers ! i))"
proof -
  define ls0 where "ls0 = layers[0 := addEntry (2 * q XOR 1) (snd data) (addEntry (2 * q) (fst data) (layers ! 0))]"
  have l: "length ls0 = length layers" by (simp add: ls0_def)
  obtain ls where "addPath data path q layers = ls" "length ls = length layers"
    "\<forall>i < length layers. ls ! i = (if 0 < i \<and> i < length layers then addEntry (q div 2 ^ (i - 1) XOR 1) (path ! (i - 1)) (ls0 ! i) else ls0 ! i)"
    using addPath_loop [of "length layers" ls0 path q] assms l by (auto simp: addPath_def Let_def ls0_def)
  then show "length (addPath data path q layers) = length layers"
    "i < length layers \<Longrightarrow> addPath data path q layers ! i = (if i = 0
      then addEntry (2 * q XOR 1) (snd data) (addEntry (2 * q) (fst data) (layers ! 0))
      else addEntry (q div 2 ^ (i - 1) XOR 1) (path ! (i - 1)) (layers ! i))"
    using assms by (auto simp: ls0_def)
qed

lemma mpath_nth: "j < k \<Longrightarrow> mpath hash L h q k ! j = mnode hash L (h + j) (q div 2 ^ j XOR 1)"
proof (induction k arbitrary: h q j)
  case (Suc k)
  show ?case
  proof (cases j)
    case (Suc j')
    then show ?thesis using Suc.IH [of j' "Suc h" "q div 2"] Suc.prems by (simp add: div_mult2_eq del: mnode.simps)
  qed simp
qed simp

lemma shown_put: "shown hash L i l \<Longrightarrow> d = mnode hash L i k \<Longrightarrow> shown hash L i (addEntry k d l)"
  by (auto simp: shown_def addEntry_def map_inv_put map_find_put)

lemma shown_inv: "shown hash L i l \<Longrightarrow> map_inv l"
  by (simp add: shown_def)

lemma sibling: "k div 2 = q div 2 \<Longrightarrow> k \<noteq> q \<Longrightarrow> k = q XOR Suc 0" for k q :: nat
  by (cases "even q"; cases "even k") (auto simp: xor_1_nat elim!: evenE oddE)

lemma addPath_complete:
  assumes v: "complete_view hash L Q layers" and n: "length layers = n" "0 < n"
  shows "complete_view hash L (insert q Q) (addPath (L (2 * q), L (2 * q + 1)) (mpath hash L 1 q (n - 1)) q layers)"
proof -
  let ?a = "addPath (L (2 * q), L (2 * q + 1)) (mpath hash L 1 q (n - 1)) q layers"
  note nth = addPath_nth(2) [of layers _ "(L (2 * q), L (2 * q + 1))" "mpath hash L 1 q (n - 1)" q]
  have len: "length ?a = n" using n by (simp add: addPath_nth(1))
  have sh: "shown hash L i (layers ! i)" if "i < n" for i using v n that unfolding complete_view_def by blast
  note inv = shown_inv [OF sh]
  have a0: "?a ! 0 = addEntry (2 * q + 1) (L (2 * q + 1)) (addEntry (2 * q) (L (2 * q)) (layers ! 0))"
    using nth [of 0] n by (simp add: xor_1_even)
  have ai: "?a ! i = addEntry (q div 2 ^ (i - 1) XOR 1) (mnode hash L i (q div 2 ^ (i - 1) XOR 1)) (layers ! i)"
    if "0 < i" "i < n" for i
    using nth [of i] n that by (simp add: mpath_nth)
  have A: "shown hash L i (?a ! i)" if "i < n" for i
    using sh [OF that] that a0 ai [of i] by (cases "i = 0") (simp_all add: shown_put)
  have B: "map_find (?a ! 0) k \<noteq> None \<longleftrightarrow> k div 2 \<in> insert q Q" for k
  proof -
    have "map_find (layers ! 0) k \<noteq> None \<longleftrightarrow> k div 2 \<in> Q" using v unfolding complete_view_def by blast
    moreover have "k div 2 = q \<longleftrightarrow> k = 2 * q \<or> k = 2 * q + 1" by auto
    ultimately show ?thesis
      unfolding a0 addEntry_def using inv [of 0] n by (simp add: map_find_put map_inv_put)
  qed
  have C: "(k div 2 \<in> on_path (insert q Q) i \<longrightarrow> k \<notin> on_path (insert q Q) (i - 1) \<longrightarrow> map_find (?a ! i) k \<noteq> None) \<and>
      (map_find (?a ! i) k \<noteq> None \<longrightarrow> k div 2 \<in> on_path (insert q Q) i)" if i: "0 < i" "i < n" for i k
  proof -
    let ?s = "q div 2 ^ (i - 1)"
    have qi: "q div 2 ^ i = ?s div 2" using i by (cases i) (simp_all add: div_mult2_eq power_Suc2 del: power_Suc)
    have old: "(k div 2 \<in> on_path Q i \<longrightarrow> k \<notin> on_path Q (i - 1) \<longrightarrow> map_find (layers ! i) k \<noteq> None)"
      "map_find (layers ! i) k \<noteq> None \<longrightarrow> k div 2 \<in> on_path Q i" using v i n unfolding complete_view_def by blast+
    have new: "map_find (?a ! i) k \<noteq> None \<longleftrightarrow> k = ?s XOR 1 \<or> map_find (layers ! i) k \<noteq> None"
      unfolding ai [OF i] addEntry_def using inv [OF i(2)] by (simp add: map_find_put)
    have ins: "on_path (insert q Q) j = insert (q div 2 ^ j) (on_path Q j)" for j by (simp add: on_path_def)
    have half: "(?s XOR 1) div 2 = ?s div 2" by (simp add: xor_div2)
    have "map_find (?a ! i) k \<noteq> None" if "k div 2 \<in> on_path (insert q Q) i" "k \<notin> on_path (insert q Q) (i - 1)"
    proof (cases "k div 2 \<in> on_path Q i")
      case True
      then show ?thesis using that old(1) unfolding new ins by blast
    next
      case False
      then have "k div 2 = ?s div 2" "k \<noteq> ?s" using that qi unfolding ins by auto
      then show ?thesis using sibling [of k ?s] unfolding new by simp
    qed
    moreover have "k div 2 \<in> on_path (insert q Q) i" if "map_find (?a ! i) k \<noteq> None"
      using that old(2) half unfolding new ins qi by blast
    ultimately show ?thesis by blast
  qed
  show ?thesis
    unfolding complete_view_def len
    by (intro conjI allI impI A B) (assumption, (rule C [THEN conjunct1, rule_format]; assumption), (rule C [THEN conjunct2, rule_format]; assumption))
qed

lemma empty_complete: "0 < n \<Longrightarrow> complete_view hash L {} (replicate n [])"
  by (cases n) (simp_all add: complete_view_def shown_def on_path_def nth_Cons')

section \<open>Serialisation\<close>

text \<open>The entries of layer \<open>i\<close> that a serialised view has: siblings of path nodes that are not on a
  path themselves (in the lowest layer, the queried pairs).\<close>

definition explicit_at :: "nat set \<Rightarrow> nat \<Rightarrow> nat \<Rightarrow> bool" where
  "explicit_at Q i k \<longleftrightarrow> k div 2 \<in> on_path Q i \<and> (i = 0 \<or> k \<notin> on_path Q (i - 1))"

definition known_at :: "nat set \<Rightarrow> nat \<Rightarrow> (nat, bool) std_map \<Rightarrow> bool" where
  "known_at Q i m \<longleftrightarrow> map_inv m \<and>
     (\<forall>k. map_find m k = (if k div 2 \<in> on_path Q i then Some (explicit_at Q i k) else None))"

lemma half_xor_1: "(k XOR Suc 0) div 2 = k div 2" for k :: nat
  by (simp add: xor_div2)

lemma first_known: "known_at ((\<lambda>k. k div 2) ` set qs) 0 (first_known qs)"
proof -
  have "map_inv (fold (\<lambda>idx m. map_put (idx XOR 1) True (map_put idx True m)) qs m) \<and>
    (\<forall>k. map_find (fold (\<lambda>idx m. map_put (idx XOR 1) True (map_put idx True m)) qs m) k =
      (if k div 2 \<in> (\<lambda>k. k div 2) ` set qs then Some True else map_find m k))" if "map_inv m" for m :: "(nat, bool) std_map"
    using that
  proof (induction qs arbitrary: m)
    case (Cons q qs)
    have "k = q \<or> k = q XOR 1 \<longleftrightarrow> k div 2 = q div 2" for k using sibling [of k q] half_xor_1 [of q] by auto
    then show ?case using Cons by (auto simp: map_inv_put map_find_put)
  qed simp
  from this [of "[]"] show ?thesis by (simp add: known_at_def first_known_def explicit_at_def on_path_def)
qed

lemma on_path_parent: "k div 2 \<in> on_path Q (Suc i) \<longleftrightarrow> k \<in> on_path Q i \<or> k XOR Suc 0 \<in> on_path Q i"
proof
  assume "k div 2 \<in> on_path Q (Suc i)"
  then obtain j where "j \<in> on_path Q i" "j div 2 = k div 2" by (auto simp: on_path_Suc)
  then show "k \<in> on_path Q i \<or> k XOR Suc 0 \<in> on_path Q i" using sibling [of j k] by (cases "j = k") auto
next
  assume "k \<in> on_path Q i \<or> k XOR Suc 0 \<in> on_path Q i"
  then show "k div 2 \<in> on_path Q (Suc i)" unfolding on_path_Suc using half_xor_1 [of k] by (metis image_eqI)
qed

lemma next_known:
  assumes "known_at Q i m" shows "known_at Q (Suc i) (next_known m)"
proof -
  define nk where "nk = fold (\<lambda>known. map_put (fst known div 2) False) m []"
  have keys: "fst ` set m = {k. k div 2 \<in> on_path Q i}"
    using assms set_map_keys [of m] by (auto simp: known_at_def map_keys_def)
  have im: "(\<lambda>e. fst e div 2) ` set m = on_path Q i"
  proof -
    have "(\<lambda>e. fst e div 2) ` set m = (\<lambda>k. k div 2) ` fst ` set m" by (simp add: image_image)
    moreover have "q \<in> (\<lambda>k. k div 2) ` {k. k div 2 \<in> on_path Q i}" if "q \<in> on_path Q i" for q
      using that by (intro image_eqI [of _ _ "2 * q"]) simp_all
    ultimately show ?thesis unfolding keys by auto
  qed
  have inv: "map_inv nk" unfolding nk_def by (rule std.inv_fold_put) simp
  have find: "map_find nk k = (if k \<in> on_path Q i then Some False else None)" for k
  proof (cases "k \<in> on_path Q i")
    case True
    then show ?thesis unfolding nk_def by (subst std.find_fold_put_val [where v = False]) (use im in auto)
  next
    case False
    then show ?thesis unfolding nk_def by (subst std.find_fold_put_notin) (use im in auto)
  qed
  define ex where "ex = map (\<lambda>k. fst k XOR 1) (filter (\<lambda>k. map_find nk (fst k XOR 1) = None) nk)"
  have nkk: "fst ` set nk = on_path Q i"
    using set_map_keys [of nk] find by (auto simp: map_keys_def)
  have ex: "k \<in> set ex \<longleftrightarrow> k XOR 1 \<in> on_path Q i \<and> k \<notin> on_path Q i" for k
  proof -
    have "k \<in> set ex \<longleftrightarrow> (\<exists>j \<in> fst ` set nk. k = j XOR 1 \<and> map_find nk (j XOR 1) = None)" unfolding ex_def by auto
    also have "\<dots> \<longleftrightarrow> (\<exists>j \<in> on_path Q i. k = j XOR 1 \<and> k \<notin> on_path Q i)" unfolding nkk by (auto simp: find)
    also have "\<dots> \<longleftrightarrow> k XOR 1 \<in> on_path Q i \<and> k \<notin> on_path Q i" by (auto simp: xor.assoc) (metis xor.assoc xor_self_eq xor.right_neutral)
    finally show ?thesis .
  qed
  have nx: "next_known m = fold (\<lambda>idx. map_put idx True) ex nk"
    by (simp add: next_known_def Let_def nk_def ex_def)
  have "map_find (next_known m) k = (if k \<in> set ex then Some True else map_find nk k)" for k
  proof (cases "k \<in> set ex")
    case True
    then show ?thesis unfolding nx by (subst std.find_fold_put_val [where v = True and f = "\<lambda>x. x"]) (use inv in auto)
  next
    case False
    then show ?thesis unfolding nx by (subst std.find_fold_put_notin [where f = "\<lambda>x. x"]) (use inv in auto)
  qed
  moreover have "map_inv (next_known m)" unfolding nx by (rule std.inv_fold_put [OF inv])
  ultimately show ?thesis
    unfolding known_at_def explicit_at_def using ex find by (auto simp: on_path_parent)
qed

lemma mapping_loop_set:
  assumes "known_at Q i m"
  shows "set (mapping_loop i n m) = {(j, k). i \<le> j \<and> j < i + n \<and> explicit_at Q j k}"
  using assms
proof (induction n arbitrary: i m)
  case (Suc n)
  have inv: "map_inv m" using Suc.prems by (simp add: known_at_def)
  have e: "set (filter snd m) = {(k, True) |k. map_find m k = Some True}"
    unfolding map_find_entry [OF inv, symmetric] by auto
  have "map_find m k = Some True \<longleftrightarrow> explicit_at Q i k" for k
    using Suc.prems by (auto simp: known_at_def explicit_at_def)
  then have "set (map (\<lambda>known. (i, fst known)) (filter snd m)) = {(j, k). j = i \<and> explicit_at Q j k}"
    using e by force
  moreover have "set (mapping_loop (Suc i) n (next_known m)) = {(j, k). Suc i \<le> j \<and> j < Suc i + n \<and> explicit_at Q j k}"
    using Suc next_known by blast
  ultimately show ?case by auto
qed auto

lemma known_unique: "known_at Q i m \<Longrightarrow> known_at Q i m' \<Longrightarrow> m = m'"
  by (rule map_ext) (simp_all add: known_at_def)

lemma read_locs_ok:
  "\<forall>loc \<in> set locs. map_find (layers ! fst loc) (snd loc) = Some (f loc) \<Longrightarrow> read_locs layers locs = Inr (map f locs)"
  by (induction locs) (simp_all add: readData_def)

definition put_locs :: "((nat \<times> nat) \<times> 'd) list \<Rightarrow> 'd layer list \<Rightarrow> 'd layer list" where
  "put_locs = fold (\<lambda>(loc, d) layers. layers[fst loc := addEntry (snd loc) d (layers ! fst loc)])"

lemma put_locs:
  assumes "\<forall>z \<in> set zs. fst (fst z) < length layers" "\<forall>l \<in> set layers. map_inv l"
  shows "length (put_locs zs layers) = length layers \<and> (\<forall>l \<in> set (put_locs zs layers). map_inv l) \<and>
    (\<forall>j < length layers. \<forall>k. map_find (put_locs zs layers ! j) k \<noteq> None \<longleftrightarrow>
       (j, k) \<in> fst ` set zs \<or> map_find (layers ! j) k \<noteq> None) \<and>
    (\<forall>j < length layers. \<forall>k d. map_find (put_locs zs layers ! j) k = Some d \<longrightarrow>
       ((j, k), d) \<in> set zs \<or> map_find (layers ! j) k = Some d)"
  using assms
proof (induction zs arbitrary: layers)
  case (Cons z zs)
  obtain i x e where z: "z = ((i, x), e)" by (metis prod.exhaust)
  let ?l = "layers[i := addEntry x e (layers ! i)]"
  have i: "i < length layers" using Cons.prems z by simp
  have inv: "map_inv (layers ! i)" using Cons.prems i by simp
  have inv': "\<forall>l \<in> set ?l. map_inv l"
    using Cons.prems(2) inv set_update_subset_insert [of layers i] by (fastforce simp: addEntry_def map_inv_put)
  have fd: "map_find (?l ! j) k = (if j = i \<and> k = x then Some e else map_find (layers ! j) k)" if "j < length layers" for j k
    using that i inv by (cases "j = i") (simp_all add: addEntry_def map_find_put)
  have eq: "put_locs (z # zs) layers = put_locs zs ?l" by (simp add: put_locs_def z)
  have IH: "length (put_locs zs ?l) = length ?l \<and> (\<forall>l \<in> set (put_locs zs ?l). map_inv l) \<and>
    (\<forall>j < length ?l. \<forall>k. map_find (put_locs zs ?l ! j) k \<noteq> None \<longleftrightarrow> (j, k) \<in> fst ` set zs \<or> map_find (?l ! j) k \<noteq> None) \<and>
    (\<forall>j < length ?l. \<forall>k d. map_find (put_locs zs ?l ! j) k = Some d \<longrightarrow> ((j, k), d) \<in> set zs \<or> map_find (?l ! j) k = Some d)"
    by (rule Cons.IH [OF _ inv']) (use Cons.prems in simp)
  have k: "map_find (put_locs zs ?l ! j) k \<noteq> None \<longleftrightarrow> (j, k) \<in> fst ` set (z # zs) \<or> map_find (layers ! j) k \<noteq> None"
    if "j < length layers" for j k using IH fd [OF that] that by (auto simp: z)
  have d: "map_find (put_locs zs ?l ! j) k = Some d \<longrightarrow> ((j, k), d) \<in> set (z # zs) \<or> map_find (layers ! j) k = Some d"
    if "j < length layers" for j k d
  proof
    assume "map_find (put_locs zs ?l ! j) k = Some d"
    then have "((j, k), d) \<in> set zs \<or> map_find (?l ! j) k = Some d" using IH that by simp
    then show "((j, k), d) \<in> set (z # zs) \<or> map_find (layers ! j) k = Some d"
      unfolding fd [OF that] by (auto simp: z split: if_splits)
  qed
  show ?case unfolding eq using IH k d by simp
qed (simp add: put_locs_def)

text \<open>The shape of a view with only the explicit entries of the pairs \<open>Q\<close>.\<close>

definition shaped :: "nat set \<Rightarrow> 'd layer list \<Rightarrow> bool" where
  "shaped Q layers \<longleftrightarrow> (\<forall>l \<in> set layers. map_inv l) \<and>
     (\<forall>j < length layers. \<forall>k. map_find (layers ! j) k \<noteq> None \<longleftrightarrow> explicit_at Q j k)"

lemma DeSerialize_shaped:
  assumes "DeSerialize qs v (replicate n []) = Inr layers" "Q = (\<lambda>k. k div 2) ` set qs"
  shows "shaped Q layers" "length layers = n"
    "\<And>j k d. j < n \<Longrightarrow> map_find (layers ! j) k = Some d \<Longrightarrow> ((j, k), d) \<in> set (zip (getSerializationMapping n qs) v)"
proof -
  let ?m = "getSerializationMapping n qs"
  have ms: "set ?m = {(j, k). j < n \<and> explicit_at Q j k}"
    using mapping_loop_set [OF first_known [of qs], of n] assms(2) by (simp add: getSerializationMapping_def)
  have l: "length ?m = length v" "layers = put_locs (zip ?m v) (replicate n [])"
    using assms(1) by (auto simp: DeSerialize_def Let_def put_locs_def split: if_splits)
  have z: "fst ` set (zip ?m v) = set ?m" using l(1) by (metis list.set_map map_fst_zip)
  have "\<forall>z \<in> set (zip ?m v). fst (fst z) < length (replicate n ([] :: 'd layer))" using ms z by force
  note pl = put_locs [OF this, simplified]
  show "length layers = n" using pl l by simp
  then show "shaped Q layers" unfolding shaped_def using pl l z ms by (auto simp: l(2))
  show "((j, k), d) \<in> set (zip ?m v)" if "j < n" "map_find (layers ! j) k = Some d" for j k d
    using pl that l by simp
qed

lemma shaped_complete:
  assumes "shaped Q layers" "\<And>j k d. j < length layers \<Longrightarrow> map_find (layers ! j) k = Some d \<Longrightarrow> d = mnode hash L j k"
    and "0 < length layers"
  shows "complete_view hash L Q layers"
proof -
  have sh: "\<And>j k. j < length layers \<Longrightarrow> map_find (layers ! j) k \<noteq> None \<longleftrightarrow> explicit_at Q j k"
    and inv: "\<And>j. j < length layers \<Longrightarrow> map_inv (layers ! j)" using assms(1) by (simp_all add: shaped_def)
  have "shown hash L i (layers ! i)" if "i < length layers" for i
    using inv [OF that] assms(2) [OF that] by (simp add: shown_def)
  moreover have "map_find (layers ! 0) k \<noteq> None \<longleftrightarrow> k div 2 \<in> Q" for k
    using sh [OF assms(3)] by (simp add: explicit_at_def on_path_def)
  moreover have "(\<forall>k. k div 2 \<in> on_path Q i \<longrightarrow> k \<notin> on_path Q (i - 1) \<longrightarrow> map_find (layers ! i) k \<noteq> None) \<and>
        (\<forall>k. map_find (layers ! i) k \<noteq> None \<longrightarrow> k div 2 \<in> on_path Q i)" if "0 < i" "i < length layers" for i
    unfolding sh [OF that(2)] using that(1) by (simp add: explicit_at_def)
  ultimately show ?thesis unfolding complete_view_def by (intro conjI allI impI) (metis, metis, metis, metis)
qed

lemma complete_explicit:
  assumes "complete_view hash L Q layers" "j < length layers" "explicit_at Q j k"
  shows "map_find (layers ! j) k = Some (mnode hash L j k)"
proof -
  have "map_find (layers ! j) k \<noteq> None"
    using assms unfolding complete_view_def explicit_at_def by (cases "j = 0") (auto simp: on_path_def)
  moreover have "shown hash L j (layers ! j)" using assms(1,2) unfolding complete_view_def by blast
  ultimately show ?thesis by (auto simp: shown_def)
qed

lemma round_trip:
  assumes v: "complete_view hash L Q layers" and n: "length layers = n" "0 < n"
    and qs: "(\<lambda>k. k div 2) ` set qs = Q"
  shows "\<exists>ser layers'. toVector layers = Inr ser \<and> DeSerialize qs ser (replicate n []) = Inr layers' \<and>
    complete_view hash L Q layers' \<and> length layers' = n"
proof -
  let ?m = "getSerializationMapping n qs" and ?f = "\<lambda>loc. mnode hash L (fst loc) (snd loc)"
  have ks: "fst ` set (layers ! 0) = {k. k div 2 \<in> Q}"
  proof -
    have "{k. map_find (layers ! 0) k \<noteq> None} = {k. k div 2 \<in> Q}" using v unfolding complete_view_def by blast
    then show ?thesis using set_map_keys [of "layers ! 0"] by (simp add: map_keys_def)
  qed
  have "(\<lambda>k. k div 2) ` {k. k div 2 \<in> Q} = Q"
  proof -
    have "q \<in> (\<lambda>k. k div 2) ` {k. k div 2 \<in> Q}" if "q \<in> Q" for q
      using that by (intro image_eqI [of _ _ "2 * q"]) simp_all
    then show ?thesis by auto
  qed
  then have "(\<lambda>k. k div 2) ` set (getIndices (layers ! 0)) = Q" using ks by (simp add: getIndices_def)
  then have "first_known (getIndices (layers ! 0)) = first_known qs"
    using first_known [of "getIndices (layers ! 0)"] first_known [of qs] qs known_unique by metis
  then have m: "getSerializationMapping n (getIndices (layers ! 0)) = ?m" by (simp add: getSerializationMapping_def)
  have ms: "set ?m = {(j, k). j < n \<and> explicit_at Q j k}"
    using mapping_loop_set [OF first_known [of qs], of n] qs by (simp add: getSerializationMapping_def)
  have ser: "toVector layers = Inr (map ?f ?m)"
    unfolding toVector_def n(1) m
    by (rule read_locs_ok) (use ms complete_explicit [OF v] n in auto)
  obtain layers' where d: "DeSerialize qs (map ?f ?m) (replicate n []) = Inr layers'"
    by (simp add: DeSerialize_def Let_def)
  note sh = DeSerialize_shaped [OF d qs [symmetric]]
  have val: "d = mnode hash L j k" if "j < length layers'" "map_find (layers' ! j) k = Some d" for j k d
    using sh(3) [of j k d] sh(2) that by (auto simp: zip_map2 zip_same_conv_map)
  have "complete_view hash L Q layers'" by (rule shaped_complete [OF sh(1) val]) (use sh(2) n in simp_all)
  with ser d sh(2) show ?thesis by blast
qed

section \<open>Binding\<close>

text \<open>The layers the verifier computes.\<close>

definition computed :: "('d \<Rightarrow> 'd \<Rightarrow> 'd) \<Rightarrow> 'd layer list \<Rightarrow> nat \<Rightarrow> 'd layer" where
  "computed hash layers i = (case root_loop hash [] (take (Suc i) layers) of Inl e \<Rightarrow> [] | Inr m \<Rightarrow> m)"

lemma computed_shaped:
  assumes sh: "shaped Q layers" and "i < length layers"
  shows "root_loop hash [] (take (Suc i) layers) = Inr (computed hash layers i) \<and> map_inv (computed hash layers i) \<and>
    (\<forall>k. map_find (computed hash layers i) k \<noteq> None \<longleftrightarrow> k div 2 \<in> on_path Q i) \<and>
    (\<forall>p \<in> on_path Q (i - 1). 0 < i \<longrightarrow> map_find (computed hash layers i) p = parent hash (computed hash layers (i - 1)) p)"
  using assms(2)
proof (induction i)
  case 0
  have "root_loop hash [] (take 1 layers) = Inr (layers ! 0)"
    using 0 by (cases layers) (simp_all add: calculateNextLayer_def)
  then have "root_loop hash [] (take (Suc 0) layers) = Inr (layers ! 0)" by simp
  with sh 0 show ?case by (simp add: computed_def shaped_def explicit_at_def)
next
  case (Suc i)
  let ?m = "computed hash layers i"
  have m: "root_loop hash [] (take (Suc i) layers) = Inr ?m" "map_inv ?m"
    "\<And>k. map_find ?m k \<noteq> None \<longleftrightarrow> k div 2 \<in> on_path Q i" using Suc by auto
  have pm: "paired ?m" using m(3) half_xor_1 by (simp add: paired_def)
  have r: "map_inv (layers ! Suc i)" "\<And>k. map_find (layers ! Suc i) k \<noteq> None \<longleftrightarrow> explicit_at Q (Suc i) k"
    using sh Suc.prems by (simp_all add: shaped_def)
  obtain m' where m': "calculateNextLayer hash ?m (layers ! Suc i) = Inr m'" "map_inv m'"
    "\<And>p. map_find m' p = (if map_find ?m (2 * p) \<noteq> None then parent hash ?m p else map_find (layers ! Suc i) p)"
    using calculateNextLayer_paired [OF m(2) pm r(1), of hash] by auto
  have rl: "root_loop hash [] (take (Suc (Suc i)) layers) = Inr m'"
    unfolding take_Suc_conv_app_nth [OF Suc.prems] root_loop_snoc m(1) by (simp add: m'(1))
  then have c: "computed hash layers (Suc i) = m'" by (simp add: computed_def)
  have par: "map_find m' p = parent hash ?m p \<and> parent hash ?m p \<noteq> None" if "p \<in> on_path Q i" for p
  proof -
    have "map_find ?m (2 * p) \<noteq> None" "map_find ?m (2 * p + 1) \<noteq> None" using m(3) that by simp_all
    then show ?thesis by (auto simp: m'(3) parent_def)
  qed
  have "map_find m' k \<noteq> None \<longleftrightarrow> k div 2 \<in> on_path Q (Suc i)" for k
  proof (cases "k \<in> on_path Q i")
    case True
    then show ?thesis using par by (simp add: on_path_Suc)
  next
    case False
    then have "map_find ?m (2 * k) = None" using m(3) [of "2 * k"] by auto
    then show ?thesis using r(2) [of k] False by (simp add: m'(3) explicit_at_def)
  qed
  then show ?case unfolding c using rl m'(2) par by simp
qed

text \<open>All pairs the verifier hashed beside the pairs of the tree over \<open>L\<close>, and the first collision
  among them.\<close>

definition hashed_pairs :: "('d \<Rightarrow> 'd \<Rightarrow> 'd) \<Rightarrow> (nat \<Rightarrow> 'd) \<Rightarrow> 'd layer list \<Rightarrow> (('d \<times> 'd) \<times> ('d \<times> 'd)) list" where
  "hashed_pairs hash L layers = concat (map (\<lambda>i. let m = computed hash layers i in
     map (\<lambda>e. let p = fst e div 2 in ((the (map_find m (2 * p)), the (map_find m (2 * p + 1))),
       (mnode hash L i (2 * p), mnode hash L i (2 * p + 1)))) m) [0..<length layers])"

definition view_collision :: "('d \<Rightarrow> 'd \<Rightarrow> 'd) \<Rightarrow> (nat \<Rightarrow> 'd) \<Rightarrow> 'd layer list \<Rightarrow> (('d \<times> 'd) \<times> ('d \<times> 'd)) option" where
  "view_collision hash L layers = List.find (\<lambda>c. is_collision hash (Some c)) (hashed_pairs hash L layers)"

lemma view_collision_intro:
  assumes "i < length layers" "map_find (computed hash layers i) (2 * p) = Some a" "map_find (computed hash layers i) (2 * p + 1) = Some b"
    and "hash a b = hash (mnode hash L i (2 * p)) (mnode hash L i (2 * p + 1))"
    and "(a, b) \<noteq> (mnode hash L i (2 * p), mnode hash L i (2 * p + 1))"
  shows "is_collision hash (view_collision hash L layers)"
proof -
  let ?c = "((a, b), (mnode hash L i (2 * p), mnode hash L i (2 * p + 1)))"
  have "(2 * p, a) \<in> set (computed hash layers i)" using assms(2) by (simp add: map_find_def map_of_SomeD)
  moreover have "?c = (\<lambda>e. let p = fst e div 2 in ((the (map_find (computed hash layers i) (2 * p)), the (map_find (computed hash layers i) (2 * p + 1))),
       (mnode hash L i (2 * p), mnode hash L i (2 * p + 1)))) (2 * p, a)" using assms(2,3) by (simp add: Let_def)
  ultimately have "?c \<in> set (let m = computed hash layers i in
     map (\<lambda>e. let p = fst e div 2 in ((the (map_find m (2 * p)), the (map_find m (2 * p + 1))),
       (mnode hash L i (2 * p), mnode hash L i (2 * p + 1)))) m)"
    unfolding Let_def [of "computed hash layers i"] set_map by (rule image_eqI [rotated])
  then have "?c \<in> set (hashed_pairs hash L layers)"
    unfolding hashed_pairs_def set_concat set_map using assms(1) by (intro UN_I [OF image_eqI [OF refl]]) simp_all
  moreover have "is_collision hash (Some ?c)" using assms(4,5) by (simp add: is_collision_def)
  ultimately have "view_collision hash L layers \<noteq> None"
    unfolding view_collision_def find_None_iff by blast
  then obtain c where c: "view_collision hash L layers = Some c" by blast
  then have "is_collision hash (Some c)" unfolding view_collision_def find_Some_iff by blast
  then show ?thesis unfolding c .
qed

lemma view_binding_step:
  assumes sh: "shaped Q layers" and i: "i < length layers" and p: "p \<in> on_path Q i"
    and top: "parent hash (computed hash layers i) p = Some (mnode hash L (Suc i) p)"
    and nc: "\<not> is_collision hash (view_collision hash L layers)" and "k div 2 = p"
  shows "map_find (computed hash layers i) k = Some (mnode hash L i k)"
proof -
  have "map_find (computed hash layers i) (2 * p) \<noteq> None" "map_find (computed hash layers i) (2 * p + 1) \<noteq> None"
    using computed_shaped [OF sh i, of hash] p by simp_all
  then obtain a b where ab: "map_find (computed hash layers i) (2 * p) = Some a" "map_find (computed hash layers i) (2 * p + 1) = Some b"
    by blast
  then have "hash a b = hash (mnode hash L i (2 * p)) (mnode hash L i (2 * p + 1))" using top by (simp add: parent_def)
  then have "(a, b) = (mnode hash L i (2 * p), mnode hash L i (2 * p + 1))"
    using view_collision_intro [OF i ab, of L] nc by blast
  moreover have "k = 2 * p \<or> k = 2 * p + 1" using assms(6) by auto
  ultimately show ?thesis using ab by auto
qed

lemma view_binding:
  assumes sh: "shaped Q layers" and n: "length layers = n" "0 < n" and root: "calculateRoot hash layers = Inr (mnode hash L n 0)"
    and Q: "\<forall>q \<in> Q. q < 2 ^ (n - 1)" and nc: "\<not> is_collision hash (view_collision hash L layers)"
  shows "j < n \<Longrightarrow> k div 2 \<in> on_path Q (n - Suc j) \<Longrightarrow> map_find (computed hash layers (n - Suc j)) k = Some (mnode hash L (n - Suc j) k)"
proof (induction j arbitrary: k)
  case 0
  obtain n' where n': "n = Suc n'" using n by (cases n) auto
  have p0: "k div 2 = 0" using Q 0 by (auto simp: on_path_def)
  have "parent hash (computed hash layers n') 0 = Some (mnode hash L (Suc n') 0)"
    using root computed_shaped [OF sh, of n' hash] n n'
    by (auto simp: calculateRoot_def hashPair_parent split: option.splits)
  then show ?case using view_binding_step [OF sh _ _ _ nc p0, of n'] 0 n n' p0 by simp
next
  case (Suc j)
  let ?i = "n - Suc (Suc j)"
  have i: "n - Suc j = Suc ?i" "?i < length layers" "Suc ?i < length layers" using Suc.prems n by simp_all
  have pin: "k div 2 \<in> on_path Q ?i" by (fact Suc.prems(2))
  have "k div 2 div 2 \<in> on_path Q (Suc ?i)" using pin by (simp add: on_path_Suc)
  then have "map_find (computed hash layers (Suc ?i)) (k div 2) = Some (mnode hash L (Suc ?i) (k div 2))"
    using Suc.IH [of "k div 2"] Suc.prems i(1) by simp
  moreover have "map_find (computed hash layers (Suc ?i)) (k div 2) = parent hash (computed hash layers ?i) (k div 2)"
    using computed_shaped [OF sh i(3), of hash] pin by simp
  ultimately show ?case using view_binding_step [OF sh i(2) pin _ nc refl] by simp
qed

section \<open>Properties\<close>

text \<open>Property C11. A view filled by \<open>addPath\<close> with the data and the paths of the tree over \<open>L\<close>, for any list of
  pairs in any order, recomputes the root of that tree; so does the view that \<open>toVector\<close> and
  \<open>DeSerialize\<close> make of it.\<close>

theorem view_recomputes_root:
  assumes "0 < n" and "pairs \<noteq> []" and "\<forall>q \<in> set pairs. q < 2 ^ (n - 1)" and "(\<lambda>k. k div 2) ` set qs = set pairs"
  shows "let view = fold (\<lambda>q. addPath (L (2 * q), L (2 * q + 1)) (mpath hash L 1 q (n - 1)) q) pairs
      (SparceMerkleTree (n + logBytesPerHash))
    in calculateRoot hash view = Inr (mnode hash L n 0) \<and>
      (case toVector view of Inl e \<Rightarrow> False | Inr ser \<Rightarrow>
        (case DeSerialize qs ser (SparceMerkleTree (n + logBytesPerHash)) of Inl e \<Rightarrow> False
         | Inr view' \<Rightarrow> calculateRoot hash view' = Inr (mnode hash L n 0)))"
proof -
  have fill: "complete_view hash L (Q \<union> set pairs) (fold (\<lambda>q. addPath (L (2 * q), L (2 * q + 1)) (mpath hash L 1 q (n - 1)) q) pairs ls) \<and>
      length (fold (\<lambda>q. addPath (L (2 * q), L (2 * q + 1)) (mpath hash L 1 q (n - 1)) q) pairs ls) = n"
    if "complete_view hash L Q ls" "length ls = n" for Q ls
    using that
  proof (induction pairs arbitrary: ls Q)
    case (Cons q pairs)
    then show ?case
      using addPath_complete [of hash L Q ls n q] addPath_nth(1) [of ls] assms(1) by (fastforce simp: insert_commute)
  qed simp
  define view where "view = fold (\<lambda>q. addPath (L (2 * q), L (2 * q + 1)) (mpath hash L 1 q (n - 1)) q) pairs (SparceMerkleTree (n + logBytesPerHash))"
  have t0: "SparceMerkleTree (n + logBytesPerHash) = replicate n []" by (simp add: SparceMerkleTree_def)
  have v: "complete_view hash L (set pairs) view" "length view = n"
    using fill [OF empty_complete [OF assms(1)]] by (simp_all add: view_def t0)
  have "set pairs \<noteq> {}" using assms(2) by simp
  note root = calculateRoot_complete [OF _ _ assms(1) this assms(3)]
  obtain ser view' where "toVector view = Inr ser" "DeSerialize qs ser (replicate n []) = Inr view'"
    "complete_view hash L (set pairs) view'" "length view' = n"
    using round_trip [OF v assms(1,4)] by blast
  then show ?thesis unfolding Let_def view_def [symmetric] unfolding t0 using root [OF v] root [of hash L view'] by simp
qed

theorem view_recomputes_root_witness:
  "calculateRoot (\<lambda>a b. 2 * a + b) (fold (\<lambda>q. addPath (2 * q + 1, 2 * q + 2) (mpath (\<lambda>a b. 2 * a + b) Suc 1 q (2 - 1)) q) [1, 0]
     (SparceMerkleTree (2 + logBytesPerHash))) = Inr (mnode (\<lambda>a b. 2 * a + b) Suc 2 0)"
  using view_recomputes_root [of 2 "[1, 0]" "[0, 2]" Suc "\<lambda>a b. 2 * a + b"] by (simp add: Let_def insert_commute)

text \<open>Property C12. Binding of the compressed view: when a view read with \<open>DeSerialize\<close> from any serialised data
  recomputes the root of the tree over \<open>L\<close>, then at every index of a queried pair it shows the
  digest of that tree, or the values the verifier hashed contain a collision of \<open>hash\<close>.\<close>

theorem view_binding_or_collision:
  assumes "DeSerialize qs ser (SparceMerkleTree (n + logBytesPerHash)) = Inr view" and "0 < n"
    and "\<forall>q \<in> set qs. q < 2 ^ n" and "calculateRoot hash view = Inr (mnode hash L n 0)" and "k div 2 \<in> (\<lambda>q. q div 2) ` set qs"
  shows "tree_readData view k = Inr (L k) \<or> is_collision hash (view_collision hash L view)"
proof -
  let ?Q = "(\<lambda>q. q div 2) ` set qs"
  have t0: "SparceMerkleTree (n + logBytesPerHash) = replicate n []" by (simp add: SparceMerkleTree_def)
  note sh = DeSerialize_shaped [OF assms(1) [unfolded t0] refl]
  have Q: "\<forall>q \<in> ?Q. q < 2 ^ (n - 1)" using assms(2,3) by (cases n) auto
  have "map_find (computed hash view (n - Suc (n - 1))) k = Some (mnode hash L (n - Suc (n - 1)) k)"
    if "\<not> is_collision hash (view_collision hash L view)"
    by (rule view_binding [OF sh(1,2) assms(2,4) Q that]) (use assms(2,5) in \<open>simp_all add: on_path_def\<close>)
  moreover have "computed hash view 0 = view ! 0"
    using sh(2) assms(2) by (cases view) (simp_all add: computed_def calculateNextLayer_def)
  ultimately show ?thesis using assms(2) by (auto simp: tree_readData_def readData_def)
qed

theorem view_binding_or_collision_witness:
  "tree_readData [[(0, 1), (1, 2::nat)]] 1 = Inr 2 \<or> is_collision (\<lambda>a b. 2 * a + b) (view_collision (\<lambda>a b. 2 * a + b) Suc [[(0, 1), (1, 2)]])"
proof -
  have "DeSerialize [0] [1, 2] (SparceMerkleTree (1 + logBytesPerHash)) = Inr [[(0, 1), (1, 2::nat)]]"
    by (simp add: DeSerialize_def SparceMerkleTree_def getSerializationMapping_def first_known_def Let_def addEntry_def)
  moreover have "calculateRoot (\<lambda>a b. 2 * a + b) [[(0, 1), (1, 2::nat)]] = Inr (mnode (\<lambda>a b. 2 * a + b) Suc 1 0)"
    by (simp add: calculateRoot_def calculateNextLayer_def hashPair_def readData_def map_find_def)
  ultimately have "tree_readData [[(0, 1), (1, 2::nat)]] 1 = Inr (Suc 1) \<or>
      is_collision (\<lambda>a b. 2 * a + b) (view_collision (\<lambda>a b. 2 * a + b) Suc [[(0, 1), (1, 2)]])"
    by (intro view_binding_or_collision [where qs = "[0]" and n = 1]) simp_all
  then show ?thesis by (simp add: numeral_2_eq_2)
qed

end
