(* ===== verification/PolynomialDegree.thy ===== *)
theory PolynomialDegree
  imports FieldElement
begin

text \<open>
  \<open>PolynomialDegree.cpp\<close>: degrees of polynomials, where every negative number stands for
  the degree of the zero polynomial. The contract of the class is stated over polynomial
  functions: \<open>deg_le d f\<close> says that \<open>f\<close> is the function of a polynomial of degree at most
  \<open>d\<close>, and the operations on degrees bound sums, products and compositions.

  A \<open>long long\<close> degree is an \<open>int\<close> here: a sum or product of degrees beyond \<open>2 ^ 63\<close> is
  undefined in C++, and the degrees of the protocol stay far below it.
\<close>

section \<open>The class\<close>

datatype PolynomialDegree = PolynomialDegree (degree: int)

definition make_degree :: "int \<Rightarrow> PolynomialDegree" where
  "make_degree d = PolynomialDegree (if d < 0 then -1 else d)"

definition getZeroPolyDegree :: PolynomialDegree where
  "getZeroPolyDegree = make_degree (-1)"

definition isInteger :: "PolynomialDegree \<Rightarrow> bool" where
  "isInteger d \<longleftrightarrow> 0 \<le> degree d"

definition isConstantPolyDeg :: "PolynomialDegree \<Rightarrow> bool" where
  "isConstantPolyDeg d \<longleftrightarrow> degree d < 1"

definition degreeOfProduct :: "PolynomialDegree \<Rightarrow> PolynomialDegree \<Rightarrow> PolynomialDegree" where
  "degreeOfProduct d1 d2 = (if \<not> isInteger d1 \<or> \<not> isInteger d2 then getZeroPolyDegree
     else make_degree (degree d1 + degree d2))"

definition degreeOfComposition :: "PolynomialDegree \<Rightarrow> PolynomialDegree \<Rightarrow> PolynomialDegree" where
  "degreeOfComposition polyA_deg polyB_deg = (if \<not> isInteger polyA_deg then getZeroPolyDegree
     else if degree polyB_deg \<le> 0 then make_degree 0
     else make_degree (degree polyA_deg * degree polyB_deg))"

definition degree_less :: "PolynomialDegree \<Rightarrow> PolynomialDegree \<Rightarrow> bool" where
  "degree_less d1 d2 \<longleftrightarrow> degree d1 < degree d2"

definition degree_equal :: "PolynomialDegree \<Rightarrow> PolynomialDegree \<Rightarrow> bool" where
  "degree_equal d1 d2 \<longleftrightarrow> (if isInteger d1 \<and> isInteger d2 then degree d1 = degree d2
     else \<not> (isInteger d1 \<or> isInteger d2))"

text \<open>\<open>std::max\<close> with the operator \<open><\<close> above: the first argument unless it is smaller.\<close>

definition degree_max :: "PolynomialDegree \<Rightarrow> PolynomialDegree \<Rightarrow> PolynomialDegree" where
  "degree_max a b = (if degree_less a b then b else a)"

lemmas degree_defs = make_degree_def getZeroPolyDegree_def isInteger_def isConstantPolyDeg_def degreeOfProduct_def
  degreeOfComposition_def degree_less_def degree_equal_def degree_max_def

section \<open>Polynomial functions\<close>

text \<open>Evaluation of a coefficient list by Horner's rule, lowest coefficient first.\<close>

fun horner :: "FieldElement list \<Rightarrow> FieldElement \<Rightarrow> FieldElement" where
  "horner [] x = 0"
| "horner (c # cs) x = c + x * horner cs x"

fun coeffs_add :: "FieldElement list \<Rightarrow> FieldElement list \<Rightarrow> FieldElement list" where
  "coeffs_add [] bs = bs"
| "coeffs_add as [] = as"
| "coeffs_add (a # as) (b # bs) = (a + b) # coeffs_add as bs"

fun coeffs_mul :: "FieldElement list \<Rightarrow> FieldElement list \<Rightarrow> FieldElement list" where
  "coeffs_mul [] bs = []"
| "coeffs_mul (a # as) bs = (if bs = [] then [] else coeffs_add (map ((*) a) bs) (0 # coeffs_mul as bs))"

lemma horner_add: "horner (coeffs_add as bs) x = horner as x + horner bs x"
  by (induction as bs rule: coeffs_add.induct) (simp_all add: algebra_simps)

lemma horner_scale: "horner (map ((*) a) bs) x = a * horner bs x"
  by (induction bs) (simp_all add: algebra_simps)

lemma horner_mul: "horner (coeffs_mul as bs) x = horner as x * horner bs x"
  by (induction as bs rule: coeffs_mul.induct) (simp_all add: horner_add horner_scale algebra_simps)

lemma length_coeffs_add: "length (coeffs_add as bs) = max (length as) (length bs)"
  by (induction as bs rule: coeffs_add.induct) simp_all

lemma length_coeffs_mul: "length (coeffs_mul as bs) = (if as = [] \<or> bs = [] then 0 else length as + length bs - 1)"
  by (induction as bs rule: coeffs_mul.induct) (auto simp: length_coeffs_add Suc_leI)

text \<open>\<open>f\<close> is the function of a polynomial of degree at most \<open>d\<close>; only the zero polynomial has a negative degree.\<close>

definition deg_le :: "PolynomialDegree \<Rightarrow> (FieldElement \<Rightarrow> FieldElement) \<Rightarrow> bool" where
  "deg_le d f \<longleftrightarrow> (\<exists>cs. int (length cs) \<le> max 0 (degree d + 1) \<and> f = horner cs)"

lemma deg_leI: "int (length cs) \<le> max 0 (degree d + 1) \<Longrightarrow> (\<And>x. f x = horner cs x) \<Longrightarrow> deg_le d f"
  unfolding deg_le_def by blast

lemma deg_leE: assumes "deg_le d f" obtains cs where "int (length cs) \<le> max 0 (degree d + 1)" "\<And>x. f x = horner cs x"
  using assms unfolding deg_le_def by blast

lemma deg_le_mono: "deg_le d f \<Longrightarrow> degree d \<le> degree d' \<Longrightarrow> deg_le d' f"
  unfolding deg_le_def max_def by (elim exE, rule exI) (auto split: if_splits)

lemma deg_le_0: "deg_le d (\<lambda>x. 0)"
  by (rule deg_leI [of "[]"]) auto

lemma deg_le_const: "0 \<le> degree d \<Longrightarrow> deg_le d (\<lambda>x. c)"
  by (rule deg_leI [of "[c]"]) simp_all

lemma deg_le_add:
  assumes "deg_le d f" "deg_le d g" shows "deg_le d (\<lambda>x. f x + g x)"
proof -
  from assms obtain as bs where "int (length as) \<le> max 0 (degree d + 1)" "\<And>x. f x = horner as x"
    "int (length bs) \<le> max 0 (degree d + 1)" "\<And>x. g x = horner bs x" by (metis deg_leE)
  then show ?thesis by (intro deg_leI [of "coeffs_add as bs"]) (simp_all add: length_coeffs_add horner_add)
qed

lemma deg_le_mult:
  assumes "deg_le d f" "deg_le e g" shows "deg_le (degreeOfProduct d e) (\<lambda>x. f x * g x)"
proof -
  from assms obtain as bs where "int (length as) \<le> max 0 (degree d + 1)" "\<And>x. f x = horner as x"
    "int (length bs) \<le> max 0 (degree e + 1)" "\<And>x. g x = horner bs x" by (metis deg_leE)
  then show ?thesis
    by (intro deg_leI [of "coeffs_mul as bs"]) (auto simp: degree_defs length_coeffs_mul horner_mul)
qed

lemma deg_le_max1: "deg_le d f \<Longrightarrow> deg_le (degree_max d e) f"
  and deg_le_max2: "deg_le e f \<Longrightarrow> deg_le (degree_max d e) f"
  by (auto elim!: deg_le_mono simp: degree_max_def degree_less_def)

lemma degree_max_ge: "degree d \<le> degree (degree_max d e)" "degree e \<le> degree (degree_max d e)"
  by (auto simp: degree_max_def degree_less_def)

lemma degree_product_ge: "0 \<le> degree d \<Longrightarrow> 0 \<le> degree e \<Longrightarrow> degree (degreeOfProduct d e) = degree d + degree e"
  by (auto simp: degree_defs)

lemma deg_le_scale:
  assumes "deg_le d f" shows "deg_le d (\<lambda>x. c * f x)"
proof -
  from assms obtain cs where "int (length cs) \<le> max 0 (degree d + 1)" "\<And>x. f x = horner cs x" by (metis deg_leE)
  then show ?thesis by (intro deg_leI [of "map ((*) c) cs"]) (simp_all add: horner_scale)
qed

lemma deg_le_sum_list: "(\<And>f. f \<in> set fs \<Longrightarrow> deg_le d f) \<Longrightarrow> deg_le d (\<lambda>x. sum_list (map (\<lambda>f. f x) fs))"
  by (induction fs) (simp_all add: deg_le_0 deg_le_add)

lemma horner_compose_bound:
  assumes "deg_le e g" "0 \<le> degree e" "0 < length cs"
  shows "deg_le (make_degree ((int (length cs) - 1) * degree e)) (\<lambda>x. horner cs (g x))"
  using assms(3)
proof (induction cs)
  case (Cons c cs)
  show ?case
  proof (cases "cs = []")
    case True then show ?thesis by (simp add: make_degree_def deg_le_const)
  next
    case False
    have n: "0 \<le> (int (length cs) - 1) * degree e" using False assms(2) by (cases cs) simp_all
    have "deg_le (make_degree (int (length cs) * degree e)) (\<lambda>x. g x * horner cs (g x))"
      using False n assms(2) by (intro deg_le_mono [OF deg_le_mult [OF assms(1) Cons.IH]])
        (simp_all add: degree_defs algebra_simps)
    moreover have "deg_le (make_degree (int (length cs) * degree e)) (\<lambda>x. c)"
      using assms(2) by (intro deg_le_const) (simp add: make_degree_def not_less)
    ultimately show ?thesis using deg_le_add by simp
  qed
qed simp

lemma degree_operations_sound_facts:
  assumes "deg_le d1 f" and "deg_le d2 g"
  shows "deg_le (degreeOfProduct d1 d2) (\<lambda>x. f x * g x)"
    and "deg_le (degreeOfComposition d1 d2) (\<lambda>x. f (g x))"
    and "- 1 \<le> degree (degreeOfProduct d1 d2)" and "- 1 \<le> degree (degreeOfComposition d1 d2)"
proof -
  show "deg_le (degreeOfProduct d1 d2) (\<lambda>x. f x * g x)" by (rule deg_le_mult [OF assms])
  from assms(1) obtain cs where cs: "int (length cs) \<le> max 0 (degree d1 + 1)" "\<And>x. f x = horner cs x"
    by (metis deg_leE)
  show "deg_le (degreeOfComposition d1 d2) (\<lambda>x. f (g x))"
  proof (cases "cs = []")
    case True then show ?thesis by (simp add: cs deg_le_0)
  next
    case False
    then have d1: "0 \<le> degree d1" using cs(1) by (cases cs) (auto simp: max_def split: if_splits)
    define e where "e = make_degree (max 0 (degree d2))"
    have e: "deg_le e g" "0 \<le> degree e" using assms(2) by (auto simp: e_def make_degree_def elim!: deg_le_mono)
    have "(int (length cs) - 1) * degree e \<le> degree d1 * degree e"
      using cs(1) d1 e(2) by (intro mult_right_mono) auto
    then show ?thesis unfolding cs(2) using False d1
      by (intro deg_le_mono [OF horner_compose_bound [OF e, of cs]])
        (auto simp: e_def degree_defs max_def split: if_splits)
  qed
qed (auto simp: degree_defs)

text \<open>\<open>degreeOfProduct\<close> and \<open>degreeOfComposition\<close> bound the degrees of the product
  and of the composition of polynomials whose degrees are bounded by their arguments, with the
  zero polynomial included, and the bound is again a well-formed degree.\<close>

theorem degree_operations_sound:
  assumes "deg_le d1 f" and "deg_le d2 g"
  shows "((deg_le (degreeOfProduct d1 d2) (\<lambda>x. f x * g x)))
    \<and> ((deg_le (degreeOfComposition d1 d2) (\<lambda>x. f (g x))))
    \<and> ((- 1 \<le> degree (degreeOfProduct d1 d2)))
    \<and> ((- 1 \<le> degree (degreeOfComposition d1 d2)))"
  using degree_operations_sound_facts [OF assms] by blast

theorem degree_operations_sound_witness:
  "deg_le (degreeOfProduct (make_degree 1) (make_degree 0)) (\<lambda>x. (1 + x) * 1) \<and>
   degreeOfProduct (make_degree 1) (make_degree 0) = make_degree 1"
proof -
  have "deg_le (make_degree 1) (\<lambda>x. 1 + x)" "deg_le (make_degree 0) (\<lambda>x. 1)"
    by (rule deg_leI [of "[1, 1]"], simp_all add: make_degree_def, rule deg_le_const, simp)
  from degree_operations_sound [THEN conjunct1, rule_format (no_asm), OF this] show ?thesis by (simp add: degree_defs)
qed

end
