(* ===== verification/Variables.thy ===== *)
theory Variables
  imports PolynomialDegree StdMap
begin

text \<open>
  \<open>variable.hpp\<close>, \<open>variable.cpp\<close> and the linear part of \<open>variable_operators.hpp\<close>: formal
  variables with their index and their index after the renaming for the reduction, linear
  terms and linear combinations with their operators, evaluation, printing, renaming and
  degree bound.

  C++ overloads \<open>eval\<close> on a \<open>VariableAssignment\<close> (looked up by the index) and on a vector
  (looked up by the new index). The two overloads have the same bodies above the level of
  \<open>Variable\<close>, so one definition here takes a \<open>point\<close>, which is either of them.
\<close>

section \<open>Variables\<close>

type_synonym FElem = FieldElement

record Variable =
  var_index :: int
  var_newIndex :: int
  var_name :: string

text \<open>The static counter \<open>nextFreeIndex\<close> is passed explicitly; it is a \<open>long\<close>.\<close>

definition newVariable :: "string \<Rightarrow> int \<Rightarrow> (Variable \<times> int) result" where
  "newVariable nm nextFreeIndex = (if nextFreeIndex + 1 < 2 ^ 63
     then Inr (\<lparr>var_index = nextFreeIndex, var_newIndex = -1, var_name = nm\<rparr>, nextFreeIndex + 1)
     else Inl AssertFailed)"

text \<open>\<open>std::to_string\<close>\<close>

function nat_digits :: "nat \<Rightarrow> string" where
  "nat_digits n = (if n < 10 then [char_of (48 + n)] else nat_digits (n div 10) @ [char_of (48 + n mod 10)])"
  by pat_completeness auto
termination by (relation "measure id") auto

declare nat_digits.simps [simp del]

definition to_string :: "int \<Rightarrow> string" where
  "to_string i = (if i < 0 then ''-'' @ nat_digits (nat (- i)) else nat_digits (nat i))"

definition newIndexName :: "Variable \<Rightarrow> string result" where
  "newIndexName v = (if 0 \<le> var_newIndex v then Inr (''x['' @ to_string (var_newIndex v) @ '']'') else Inl AssertFailed)"

definition setNewIndex :: "int \<Rightarrow> Variable \<Rightarrow> Variable result" where
  "setNewIndex newIndex v = (if 0 \<le> newIndex then Inr (v\<lparr>var_newIndex := newIndex\<rparr>) else Inl AssertFailed)"

text \<open>\<open>VariableAssignment\<close> is a \<open>std::map\<close> ordered by the index of the variable.\<close>

type_synonym VariableAssignment = "(int, FElem) std_map"

datatype point = ByMap VariableAssignment | ByVec "FElem list"

definition Variable_eval :: "point \<Rightarrow> Variable \<Rightarrow> FElem result" where
  "Variable_eval pt v = (case pt of
     ByMap assignment \<Rightarrow> (case map_find assignment (var_index v) of None \<Rightarrow> Inl Fatal | Some x \<Rightarrow> Inr x)
   | ByVec assignment \<Rightarrow> if var_newIndex v < 0 then Inl AssertFailed
       else if int (length assignment) \<le> var_newIndex v then Inl AssertFailed
       else Inr (assignment ! nat (var_newIndex v)))"

text \<open>\<open>Variable::set\<close>: \<open>std::set\<close> ordered by the index; an insertion never replaces an element.\<close>

type_synonym varSet = "(int, Variable) std_map"

definition set_insert :: "Variable \<Rightarrow> varSet \<Rightarrow> varSet" where
  "set_insert v s = (case map_find s (var_index v) of None \<Rightarrow> map_put (var_index v) v s | Some _ \<Rightarrow> s)"

definition set_insert_all :: "Variable list \<Rightarrow> varSet \<Rightarrow> varSet" where
  "set_insert_all vs s = fold set_insert vs s"

text \<open>The variables of an array are numbered in order.\<close>

definition VariableArray_step :: "string \<Rightarrow> nat \<Rightarrow> Variable list \<times> int \<Rightarrow> (Variable list \<times> int) result" where
  "VariableArray_step nm i st = (case st of (vs, next) \<Rightarrow>
     res_bind (newVariable (nm @ ''['' @ to_string (int i) @ '']'') next) (\<lambda>(v, next). Inr (vs @ [v], next)))"

fun VariableArray_loop :: "string \<Rightarrow> nat list \<Rightarrow> Variable list \<times> int \<Rightarrow> (Variable list \<times> int) result" where
  "VariableArray_loop nm [] st = Inr st"
| "VariableArray_loop nm (i # is) st = res_bind (VariableArray_step nm i st) (VariableArray_loop nm is)"

definition VariableArray :: "nat \<Rightarrow> string \<Rightarrow> int \<Rightarrow> (Variable list \<times> int) result" where
  "VariableArray sz nm next = VariableArray_loop nm [0..<sz] ([], next)"

section \<open>Linear terms\<close>

record LinearTerm =
  lt_variable :: Variable
  lt_coeff :: FElem

definition LinearTerm_of :: "Variable \<Rightarrow> LinearTerm" where
  "LinearTerm_of v = \<lparr>lt_variable = v, lt_coeff = 1\<rparr>"

definition LinearTerm_times :: "LinearTerm \<Rightarrow> FElem \<Rightarrow> LinearTerm" where
  "LinearTerm_times t c = t\<lparr>lt_coeff := lt_coeff t * c\<rparr>"

definition LinearTerm_asString :: "LinearTerm \<Rightarrow> string" where
  "LinearTerm_asString t = (if lt_coeff t = 1 then var_name (lt_variable t)
     else if lt_coeff t = 0 then asString 0
     else asString (lt_coeff t) @ ''*'' @ var_name (lt_variable t))"

text \<open>
  The order of \<open>classCompElements\<close> on field elements, for the maps keyed by them.
\<close>

instantiation FieldElement :: linorder
begin

definition less_FieldElement :: "FieldElement \<Rightarrow> FieldElement \<Rightarrow> bool" where
  "less_FieldElement a b = compareFieldElements a b"

definition less_eq_FieldElement :: "FieldElement \<Rightarrow> FieldElement \<Rightarrow> bool" where
  "less_eq_FieldElement a b \<longleftrightarrow> a = b \<or> compareFieldElements a b"

instance
  by intro_classes
    (auto simp: less_FieldElement_def less_eq_FieldElement_def compareFieldElements_def intro: FieldElement.expand)

end

type_synonym const_map = "(FElem, size_t) std_map"

definition LinearTerm_asStringNewIndex :: "const_map \<Rightarrow> bool \<Rightarrow> LinearTerm \<Rightarrow> string result" where
  "LinearTerm_asStringNewIndex translate isDegreePrint t = (case map_find translate (lt_coeff t) of
     None \<Rightarrow> Inl AssertFailed
   | Some n \<Rightarrow> if lt_coeff t = 1 then newIndexName (lt_variable t)
       else if lt_coeff t = 0 then Inr (if isDegreePrint then ''tmp_deg_type(0)'' else ''FElem0'')
       else res_map (\<lambda>nm. (if isDegreePrint then ''tmp_deg_type(0) * ''
         else ''FElem'' @ to_string (uint n) @ ''*'') @ nm) (newIndexName (lt_variable t)))"

definition LinearTerm_eval :: "point \<Rightarrow> LinearTerm \<Rightarrow> FElem result" where
  "LinearTerm_eval pt t = res_map ((*) (lt_coeff t)) (Variable_eval pt (lt_variable t))"

text \<open>
  \<open>old2New[k]\<close> on a \<open>std::map\<close> of integers: a missing key reads as 0 (the call also inserts
  that 0, which no later lookup can tell from a missing key).
\<close>

type_synonym index_map = "(int, int) std_map"

definition index_at :: "index_map \<Rightarrow> int \<Rightarrow> int" where
  "index_at old2New k = (case map_find old2New k of None \<Rightarrow> 0 | Some n \<Rightarrow> n)"

definition LinearTerm_setNewIndices :: "index_map \<Rightarrow> LinearTerm \<Rightarrow> LinearTerm result" where
  "LinearTerm_setNewIndices old2New t = res_map (\<lambda>v. t\<lparr>lt_variable := v\<rparr>)
     (setNewIndex (index_at old2New (var_index (lt_variable t))) (lt_variable t))"

section \<open>Linear combinations\<close>

record LinearCombination =
  linearTerms :: "LinearTerm list"
  lc_constant :: FElem

definition lc_const :: "FElem \<Rightarrow> LinearCombination" where
  "lc_const c = \<lparr>linearTerms = [], lc_constant = c\<rparr>"

definition lc_var :: "Variable \<Rightarrow> LinearCombination" where
  "lc_var v = \<lparr>linearTerms = [LinearTerm_of v], lc_constant = 0\<rparr>"

definition lc_term :: "LinearTerm \<Rightarrow> LinearCombination" where
  "lc_term t = \<lparr>linearTerms = (if lt_coeff t \<noteq> 0 then [t] else []), lc_constant = 0\<rparr>"

definition lc_isZero :: "LinearCombination \<Rightarrow> bool" where
  "lc_isZero l \<longleftrightarrow> length (linearTerms l) = 0 \<and> lc_constant l = 0"

definition lc_plus :: "LinearCombination \<Rightarrow> LinearCombination \<Rightarrow> LinearCombination" where
  "lc_plus l other = \<lparr>linearTerms = filter (\<lambda>t. lt_coeff t \<noteq> 0) (linearTerms l)
      @ filter (\<lambda>t. lt_coeff t \<noteq> 0) (linearTerms other),
     lc_constant = lc_constant l + lc_constant other\<rparr>"

definition lc_times :: "LinearCombination \<Rightarrow> FElem \<Rightarrow> LinearCombination" where
  "lc_times l c = (if c = 0 then \<lparr>linearTerms = [], lc_constant = 0\<rparr>
     else \<lparr>linearTerms = map (\<lambda>t. LinearTerm_times t c) (linearTerms l), lc_constant = lc_constant l * c\<rparr>)"

definition lc_eval :: "point \<Rightarrow> LinearCombination \<Rightarrow> FElem result" where
  "lc_eval pt l = res_map (foldl (+) (lc_constant l)) (res_list (map (LinearTerm_eval pt) (linearTerms l)))"

fun plus_separated :: "string list \<Rightarrow> string" where
  "plus_separated [] = []"
| "plus_separated [s] = s"
| "plus_separated (s # t # r) = s @ ''+'' @ plus_separated (t # r)"

definition lc_asString :: "LinearCombination \<Rightarrow> string" where
  "lc_asString l = (if length (linearTerms l) = 0 then ''('' @ asString (lc_constant l) @ '')''
     else ''('' @ plus_separated (map LinearTerm_asString (linearTerms l))
       @ (if lc_constant l \<noteq> 0 then ''+'' @ asString (lc_constant l) else []) @ '')'')"

definition const_name :: "const_map \<Rightarrow> FElem \<Rightarrow> string" where
  "const_name translate c = ''FElem'' @ to_string (case map_find translate c of None \<Rightarrow> 0 | Some n \<Rightarrow> uint n)"

definition lc_asStringNewIndex :: "const_map \<Rightarrow> bool \<Rightarrow> LinearCombination \<Rightarrow> string result" where
  "lc_asStringNewIndex translate isDegreePrint l = (if length (linearTerms l) = 0
     then if map_find translate (lc_constant l) = None then Inl AssertFailed
       else Inr (if isDegreePrint then ''(tmp_deg_type(0))'' else ''('' @ const_name translate (lc_constant l) @ '')'')
     else res_map (\<lambda>ss. ''('' @ plus_separated ss
         @ (if lc_constant l \<noteq> 0 then if isDegreePrint then '' + tmp_deg_type(0)''
             else '' + '' @ const_name translate (lc_constant l) else []) @ '')'')
       (res_list (map (LinearTerm_asStringNewIndex translate isDegreePrint) (linearTerms l))))"

definition lc_getUsedVariables :: "LinearCombination \<Rightarrow> varSet" where
  "lc_getUsedVariables l = set_insert_all (map lt_variable (linearTerms l)) []"

definition lc_setNewIndices :: "index_map \<Rightarrow> LinearCombination \<Rightarrow> LinearCombination result" where
  "lc_setNewIndices old2New l = res_map (\<lambda>ts. l\<lparr>linearTerms := ts\<rparr>)
     (res_list (map (LinearTerm_setNewIndices old2New) (linearTerms l)))"

definition degree_at :: "PolynomialDegree list \<Rightarrow> int \<Rightarrow> PolynomialDegree result" where
  "degree_at inputDegrees i = (if 0 \<le> i \<and> i < int (length inputDegrees) then Inr (inputDegrees ! nat i) else Inl OutOfBounds)"

definition lc_getDegreeBound :: "PolynomialDegree list \<Rightarrow> LinearCombination \<Rightarrow> PolynomialDegree result" where
  "lc_getDegreeBound inputDegrees l = res_map (foldl degree_max (make_degree 0))
     (res_list (map (\<lambda>t. degree_at inputDegrees (var_newIndex (lt_variable t))) (linearTerms l)))"

section \<open>Values\<close>

text \<open>
  The value of a linear combination under an environment that gives every variable a value, and
  the environment a point stands for.
\<close>

definition lc_val :: "(Variable \<Rightarrow> FElem) \<Rightarrow> LinearCombination \<Rightarrow> FElem" where
  "lc_val vf l = lc_constant l + (\<Sum>t\<leftarrow>linearTerms l. lt_coeff t * vf (lt_variable t))"

definition pt_val :: "point \<Rightarrow> Variable \<Rightarrow> FElem" where
  "pt_val pt v = projr (Variable_eval pt v)"

definition pt_defined :: "point \<Rightarrow> Variable \<Rightarrow> bool" where
  "pt_defined pt v \<longleftrightarrow> \<not> isl (Variable_eval pt v)"

definition lc_vars :: "LinearCombination \<Rightarrow> Variable set" where
  "lc_vars l = lt_variable ` set (linearTerms l)"

lemma Variable_eval_pt: "pt_defined pt v \<Longrightarrow> Variable_eval pt v = Inr (pt_val pt v)"
  by (cases "Variable_eval pt v") (simp_all add: pt_defined_def pt_val_def)

lemma foldl_plus: "foldl (+) c xs = c + sum_list xs" for c :: FElem
  by (induction xs arbitrary: c) (simp_all add: add.assoc)

lemma res_map_o: "res_map f (res_map g r) = res_map (\<lambda>x. f (g x)) r"
  by (cases r) simp_all

lemma res_list_map_eq: "(\<And>x. x \<in> set xs \<Longrightarrow> f x = Inr (g x)) \<Longrightarrow> res_list (map f xs) = Inr (map g xs)"
  by (induction xs) simp_all

lemma res_list_map_inv: "res_list (map f xs) = Inr ys \<Longrightarrow> x \<in> set xs \<Longrightarrow> \<not> isl (f x)"
  by (induction xs arbitrary: ys) (auto simp: res_bind_eq_Inr res_map_eq_Inr)

lemma res_list_map_ex: "res_list (map f xs) = Inr ys \<Longrightarrow> x \<in> set xs \<Longrightarrow> \<exists>y. f x = Inr y"
  using res_list_map_inv by (metis sum.collapse(2))

lemma res_list_map_inv_nth: "res_list (map f xs) = Inr ys \<Longrightarrow> length ys = length xs \<and> (\<forall>i < length xs. f (xs ! i) = Inr (ys ! i))"
  unfolding res_list_eq_Inr by (metis length_map nth_map)

lemma lc_eval_defined: "(\<And>v. v \<in> lc_vars l \<Longrightarrow> pt_defined pt v) \<Longrightarrow> lc_eval pt l = Inr (lc_val (pt_val pt) l)"
  unfolding lc_eval_def lc_val_def lc_vars_def
  by (subst res_list_map_eq [where g = "\<lambda>t. lt_coeff t * pt_val pt (lt_variable t)"])
    (simp_all add: LinearTerm_eval_def Variable_eval_pt foldl_plus)

lemma lc_eval_inv: "lc_eval pt l = Inr x \<Longrightarrow> v \<in> lc_vars l \<Longrightarrow> pt_defined pt v"
  unfolding lc_eval_def lc_vars_def res_map_eq_Inr
  by (auto dest!: res_list_map_inv [where f = "LinearTerm_eval pt"] simp: LinearTerm_eval_def pt_defined_def)
    (metis isl_def res_map_simps(1))

lemma lc_val_const [poly_eval]: "lc_val vf (lc_const c) = c"
  and lc_val_var [poly_eval]: "lc_val vf (lc_var v) = vf v"
  and lc_val_term [poly_eval]: "lc_val vf (lc_term t) = lt_coeff t * vf (lt_variable t)"
  by (simp_all add: lc_val_def lc_const_def lc_var_def lc_term_def LinearTerm_of_def)

lemma sum_list_filter_coeff:
  "(\<Sum>t\<leftarrow>filter (\<lambda>t. lt_coeff t \<noteq> 0) ts. lt_coeff t * vf (lt_variable t)) = (\<Sum>t\<leftarrow>ts. lt_coeff t * vf (lt_variable t))"
  by (induction ts) simp_all

lemma lc_val_plus [poly_eval]: "lc_val vf (lc_plus l m) = lc_val vf l + lc_val vf m"
  by (simp add: lc_val_def lc_plus_def sum_list_filter_coeff add_ac)

lemma sum_list_times: "(\<Sum>t\<leftarrow>ts. lt_coeff t * c * vf (lt_variable t)) = (\<Sum>t\<leftarrow>ts. lt_coeff t * vf (lt_variable t)) * c"
  by (induction ts) (simp_all add: algebra_simps)

lemma lc_val_times [poly_eval]: "lc_val vf (lc_times l c) = lc_val vf l * c"
  by (simp add: lc_val_def lc_times_def LinearTerm_times_def o_def sum_list_times distrib_right)

lemma lc_val_isZero: "lc_isZero l \<Longrightarrow> lc_val vf l = 0"
  by (simp add: lc_isZero_def lc_val_def)

lemma lc_val_cong: "(\<And>v. v \<in> lc_vars l \<Longrightarrow> vf v = vf' v) \<Longrightarrow> lc_val vf l = lc_val vf' l"
  unfolding lc_val_def lc_vars_def by (auto intro!: arg_cong [where f = sum_list] arg_cong2 [where f = "(+)"])

lemma lc_vars_simps: "lc_vars (lc_const c) = {}" "lc_vars (lc_var v) = {v}"
  "lc_vars (lc_plus l m) \<subseteq> lc_vars l \<union> lc_vars m" "lc_vars (lc_times l c) \<subseteq> lc_vars l" "lc_vars (lc_term t) \<subseteq> {lt_variable t}"
  by (auto simp: lc_vars_def lc_const_def lc_var_def lc_plus_def lc_times_def lc_term_def LinearTerm_of_def LinearTerm_times_def)

declare lc_vars_simps(1,2) [simp]

section \<open>Sets of variables\<close>

definition varset_inv :: "varSet \<Rightarrow> bool" where
  "varset_inv s \<longleftrightarrow> map_inv s \<and> (\<forall>k v. map_find s k = Some v \<longrightarrow> var_index v = k)"

definition varset_keys :: "varSet \<Rightarrow> int set" where
  "varset_keys s = {k. map_find s k \<noteq> None}"

lemma set_insert_inv: "varset_inv s \<Longrightarrow> varset_inv (set_insert v s)"
  by (auto simp: varset_inv_def set_insert_def map_inv_put map_find_put split: option.split if_splits)

lemma set_insert_keys: "varset_inv s \<Longrightarrow> varset_keys (set_insert v s) = insert (var_index v) (varset_keys s)"
  by (auto simp: varset_inv_def varset_keys_def set_insert_def map_find_put split: option.split if_splits)

lemma set_insert_all_inv: "varset_inv s \<Longrightarrow> varset_inv (set_insert_all vs s)"
  and set_insert_all_keys: "varset_inv s \<Longrightarrow> varset_keys (set_insert_all vs s) = var_index ` set vs \<union> varset_keys s"
  unfolding set_insert_all_def by (induction vs arbitrary: s) (auto simp: set_insert_inv set_insert_keys)

lemma set_insert_all_range: "set (map snd (set_insert_all vs s)) \<subseteq> set vs \<union> set (map snd s)"
proof -
  have put: "set (map snd (map_put k v m)) \<subseteq> insert v (set (map snd m))" for k :: int and v :: Variable and m
    by (induction k v m rule: map_put.induct) auto
  have "set (map snd (set_insert v s)) \<subseteq> insert v (set (map snd s))" for v s
    using put [of "var_index v" v s] by (auto simp: set_insert_def split: option.split)
  then show ?thesis unfolding set_insert_all_def
  proof (induction vs arbitrary: s)
    case (Cons v vs)
    then have "set (map snd (fold set_insert vs (set_insert v s))) \<subseteq> set vs \<union> set (map snd (set_insert v s))" by blast
    with Cons.prems [of v s] have "set (map snd (fold set_insert vs (set_insert v s))) \<subseteq> set vs \<union> insert v (set (map snd s))"
      by blast
    then show ?case by simp
  qed simp
qed

lemma varset_empty [simp]: "varset_inv []" "varset_keys [] = {}"
  by (simp_all add: varset_inv_def varset_keys_def)

lemma lc_used: "varset_inv (lc_getUsedVariables l)" "varset_keys (lc_getUsedVariables l) = var_index ` lc_vars l"
  by (simp_all add: lc_getUsedVariables_def lc_vars_def set_insert_all_inv set_insert_all_keys image_image)

lemma varset_values_keys: "varset_inv s \<Longrightarrow> var_index ` set (map snd s) = varset_keys s"
proof -
  assume s: "varset_inv s"
  then have *: "(k, v) \<in> set s \<longleftrightarrow> map_find s k = Some v" for k v by (simp add: varset_inv_def map_find_entry)
  have "k \<in> var_index ` set (map snd s) \<longleftrightarrow> k \<in> varset_keys s" for k
  proof
    assume "k \<in> var_index ` set (map snd s)"
    then obtain j v where "(j, v) \<in> set s" "k = var_index v" by auto
    with s show "k \<in> varset_keys s" by (auto simp: * varset_inv_def varset_keys_def)
  next
    assume "k \<in> varset_keys s"
    then obtain v where v: "map_find s k = Some v" by (auto simp: varset_keys_def)
    then have "(k, v) \<in> set s" "var_index v = k" using s by (auto simp: * varset_inv_def)
    then show "k \<in> var_index ` set (map snd s)" by force
  qed
  then show ?thesis by blast
qed

end
