(* ===== verification/CircuitSemantics.thy ===== *)
theory CircuitSemantics
  imports CircuitPolynomial
begin

text \<open>
  The value of a circuit polynomial as a polynomial function, and the lemmas that connect it
  with the two evaluators: the doubling loop of \<open>getSelectorVals\<close>, the accumulation of the
  coefficients, the ring operations and the renaming of variables.
\<close>

section \<open>Selectors\<close>

text \<open>The selector of \<open>i\<close>: the product over the bits \<open>j\<close> of \<open>x j\<close> or \<open>x j + 1\<close>.\<close>

fun sel_val :: "FElem list \<Rightarrow> nat \<Rightarrow> FElem" where
  "sel_val [] i = 1"
| "sel_val (x # xs) i = (if odd i then x else x + 1) * sel_val xs (i div 2)"

lemma sel_val_append: "sel_val (xs @ ys) i = sel_val xs i * sel_val ys (i div 2 ^ length xs)"
  by (induction xs arbitrary: i) (simp_all add: mult.assoc div_mult2_eq)

lemma sel_val_add: "sel_val xs (i + 2 ^ length xs) = sel_val xs i"
  by (induction xs arbitrary: i) (simp_all add: add.commute)

lemma selector_inner_prefix:
  fixes x :: FElem
  assumes "2 * n \<le> length v" "k \<le> n"
  defines "r \<equiv> fold (\<lambda>j v. let v = v[j + n := v ! j * x] in v[j := v ! j + v ! (j + n)]) [0..<k] v"
  shows "length r = length v \<and> (\<forall>i < length v. r ! i = (if i < k then v ! i + v ! i * x
    else if n \<le> i \<and> i < n + k then v ! (i - n) * x else v ! i))"
  using assms(2) unfolding r_def
proof (induction k)
  case (Suc k)
  then show ?case using assms(1) by (auto simp: Let_def nth_list_update)
qed auto

lemma selector_inner_nth:
  assumes "2 * n \<le> length v" "i < length v"
  shows "length (selector_inner x n v) = length v"
    and "selector_inner x n v ! i = (if i < n then v ! i * (x + 1) else if i < 2 * n then v ! (i - n) * x else v ! i)"
  using selector_inner_prefix [OF assms(1) order.refl, of x] assms(2)
  by (auto simp: selector_inner_def algebra_simps)

lemma selector_loop_correct:
  assumes "\<forall>i < 2 ^ length ys. v ! i = sel_val ys i" "length v = 2 ^ (length ys + length xs)" "i < length v"
  shows "length (selector_loop xs (2 ^ length ys) v) = length v \<and> selector_loop xs (2 ^ length ys) v ! i = sel_val (ys @ xs) i"
  using assms
proof (induction xs arbitrary: ys v i)
  case (Cons x xs)
  let ?n = "2 ^ length ys :: nat" let ?w = "selector_inner x ?n v"
  have len: "2 * ?n \<le> length v" using Cons.prems(2) by simp
  note inner = selector_inner_nth [OF len]
  have lw: "length ?w = 2 ^ (length (ys @ [x]) + length xs)" using inner(1) [of 0] Cons.prems(2,3) by simp
  have w: "\<forall>i < 2 ^ length (ys @ [x]). ?w ! i = sel_val (ys @ [x]) i"
  proof (intro allI impI)
    fix i assume i: "i < (2::nat) ^ length (ys @ [x])"
    show "?w ! i = sel_val (ys @ [x]) i"
    proof (cases "i < ?n")
      case True
      then show ?thesis using i len Cons.prems(1) inner(2) [of i x] by (simp add: sel_val_append)
    next
      case False
      then have "i div ?n = 1" using i by (simp add: div_nat_eqI)
      moreover have "sel_val ys i = sel_val ys (i - ?n)" using sel_val_add [of ys "i - ?n"] False by simp
      moreover have "v ! (i - ?n) = sel_val ys (i - ?n)" using Cons.prems(1) i False by simp
      ultimately show ?thesis using i len False inner(2) [of i x] by (simp add: sel_val_append)
    qed
  qed
  have "i < length ?w" using lw Cons.prems(2,3) by simp
  from Cons.IH [OF w lw this] show ?case using lw Cons.prems(2) by (simp add: mult.commute)
qed simp

lemma getSelectorVals_correct:
  assumes "res_list (map (cell x) (selectorVars S)) = Inr xs" "selectorVars S \<noteq> []"
  shows "\<exists>vals. getSelectorVals S x = Inr vals \<and> length vals = 2 ^ length xs \<and> (\<forall>i < 2 ^ length xs. vals ! i = sel_val xs i)"
proof -
  from assms obtain x0 r where xs: "xs = x0 # r" by (cases xs) (auto simp: res_list_eq_Inr)
  have len: "length (selectorVars S) = length xs" using assms(1) res_list_map_inv_nth by metis
  let ?v = "(replicate (2 ^ length xs) 0)[0 := x0 + 1, 1 := x0]"
  have "2 \<le> length ?v" by (simp add: xs)
  then have v: "\<forall>i < 2 ^ length [x0]. ?v ! i = sel_val [x0] i"
    by (auto simp: less_2_cases_iff nth_list_update simp del: length_replicate)
  have lv: "length ?v = 2 ^ (length [x0] + length r)" by (simp add: xs)
  show ?thesis
  proof (intro exI conjI)
    show "getSelectorVals S x = Inr (selector_loop r 2 ?v)" by (simp add: getSelectorVals_def assms(1) len xs)
    show "length (selector_loop r 2 ?v) = 2 ^ length xs" using selector_loop_correct [OF v lv, of 0] by (simp add: xs)
    show "\<forall>i < 2 ^ length xs. selector_loop r 2 ?v ! i = sel_val xs i"
      using selector_loop_correct [OF v lv] by (simp add: xs)
  qed
qed

section \<open>Coefficients\<close>

definition dot :: "FElem list \<Rightarrow> FElem list \<Rightarrow> FElem" where
  "dot as bs = sum_list (map2 (*) as bs)"

lemma dot_update: "k < length as \<Longrightarrow> length as = length bs \<Longrightarrow> dot (as[k := as ! k + a]) bs = dot as bs + a * bs ! k"
  unfolding dot_def by (induction as bs arbitrary: k rule: list_induct2') (auto simp: algebra_simps split: nat.split)

lemma dot_replicate_0: "dot (replicate n 0) bs = 0"
  unfolding dot_def by (induction n arbitrary: bs) (auto simp: zip_Cons1 split: list.split)

lemma coeff_loop_correct:
  assumes "length coeffs = length cs" "\<forall>i \<in> set is. selectorToConstraint S ! i < length cs \<and> i < length vals"
  shows "\<exists>r. coeff_loop S vals is coeffs = Inr r \<and> length r = length cs \<and>
    dot r cs = dot coeffs cs + (\<Sum>i\<leftarrow>is. if selectorRelevant S ! i then vals ! i * cs ! (selectorToConstraint S ! i) else 0)"
  using assms
proof (induction "is" arbitrary: coeffs)
  case (Cons i "is")
  let ?k = "selectorToConstraint S ! i"
  have k: "?k < length coeffs" "i < length vals" using Cons.prems by simp_all
  have upd: "dot (coeffs[?k := coeffs ! ?k + vals ! i]) cs = dot coeffs cs + vals ! i * cs ! ?k"
    using k Cons.prems(1) by (simp add: dot_update)
  show ?case using Cons.IH [of "coeffs[?k := coeffs ! ?k + vals ! i]"] Cons.IH [of coeffs] Cons.prems k
    by (simp add: coeff_step_def Let_def upd add.assoc)
qed simp

section \<open>The value of a polynomial\<close>

definition SelectorSum_val :: "(int \<Rightarrow> FElem) \<Rightarrow> FElem SelectorSum \<Rightarrow> FElem" where
  "SelectorSum_val sf S = (\<Sum>i\<leftarrow>[0..<selectorNum S]. if selectorRelevant S ! i
     then sel_val (map sf (selectorVars S)) i * constraints S ! (selectorToConstraint S ! i) else 0)"

primrec cp_val :: "(Variable \<Rightarrow> FElem) \<Rightarrow> (int \<Rightarrow> FElem) \<Rightarrow> CircuitPolynomial \<Rightarrow> FElem" where
  "cp_val vf sf (PolySELECTORSUM S) = SelectorSum_val sf (map_SelectorSum (cp_val vf sf) S)"
| "cp_val vf sf (PolyPROD factors) = (\<Prod>l\<leftarrow>factors. lc_val vf l)"
| "cp_val vf sf (PolyADD input) = sum_list (map (cp_val vf sf) input)"
| "cp_val vf sf (PolyMUL input) = prod_list (map (cp_val vf sf) input)"

text \<open>What the constructors and operators guarantee of a polynomial.\<close>

definition SelectorSum_ok :: "bool SelectorSum \<Rightarrow> bool" where
  "SelectorSum_ok S \<longleftrightarrow> selectorVars S \<noteq> [] \<and> length (selectorRelevant S) = selectorNum S
     \<and> selectorNum S \<le> 2 ^ length (selectorVars S)
     \<and> list_all (\<lambda>k. k < length (constraints S)) (selectorToConstraint S) \<and> list_all (\<lambda>b. b) (constraints S)
     \<and> varset_inv (selectorVariables S)"

primrec cp_ok :: "CircuitPolynomial \<Rightarrow> bool" where
  "cp_ok (PolySELECTORSUM S) = SelectorSum_ok (map_SelectorSum cp_ok S)"
| "cp_ok (PolyPROD factors) = (factors \<noteq> [])"
| "cp_ok (PolyADD input) = (input \<noteq> [] \<and> list_all (\<lambda>b. b) (map cp_ok input))"
| "cp_ok (PolyMUL input) = (input \<noteq> [] \<and> list_all (\<lambda>b. b) (map cp_ok input))"

primrec cp_vars :: "CircuitPolynomial \<Rightarrow> Variable set" where
  "cp_vars (PolySELECTORSUM S) = \<Union> (set (constraints (map_SelectorSum cp_vars S)))"
| "cp_vars (PolyPROD factors) = \<Union> (lc_vars ` set factors)"
| "cp_vars (PolyADD input) = \<Union> (set (map cp_vars input))"
| "cp_vars (PolyMUL input) = \<Union> (set (map cp_vars input))"

primrec cp_sels :: "CircuitPolynomial \<Rightarrow> int set" where
  "cp_sels (PolySELECTORSUM S) = set (selectorVars S) \<union> \<Union> (set (constraints (map_SelectorSum cp_sels S)))"
| "cp_sels (PolyPROD factors) = {}"
| "cp_sels (PolyADD input) = \<Union> (set (map cp_sels input))"
| "cp_sels (PolyMUL input) = \<Union> (set (map cp_sels input))"

lemma map_SelectorSum_sel [simp]:
  "constraints (map_SelectorSum f S) = map f (constraints S)" "selectorVars (map_SelectorSum f S) = selectorVars S"
  "selectorVariables (map_SelectorSum f S) = selectorVariables S"
  "selectorToConstraint (map_SelectorSum f S) = selectorToConstraint S"
  "selectorRelevant (map_SelectorSum f S) = selectorRelevant S" "selectorNum (map_SelectorSum f S) = selectorNum S"
  by (cases S; simp add: selectorNum_def)+

lemma set_SelectorSum_constraints: "set_SelectorSum S = set (constraints S)"
  by (cases S) simp

lemma poly_induct [case_names Add Mul Prod Sel]:
  assumes "\<And>input. (\<And>q. q \<in> set input \<Longrightarrow> P q) \<Longrightarrow> P (PolyADD input)"
    and "\<And>input. (\<And>q. q \<in> set input \<Longrightarrow> P q) \<Longrightarrow> P (PolyMUL input)"
    and "\<And>factors. P (PolyPROD factors)"
    and "\<And>S. (\<And>q. q \<in> set (constraints S) \<Longrightarrow> P q) \<Longrightarrow> P (PolySELECTORSUM S)"
  shows "P p"
  using assms by (induction p) (simp_all add: set_SelectorSum_constraints)

section \<open>Points\<close>

text \<open>The vector of cells a point gives to the selectors, and the value it gives to an index.\<close>

definition pt_cells :: "point \<Rightarrow> FElem option list result" where
  "pt_cells pt = (case pt of ByVec x \<Rightarrow> Inr (map Some x) | ByMap assignment \<Rightarrow> assignmentToVector assignment)"

definition sel_env :: "point \<Rightarrow> int \<Rightarrow> FElem" where
  "sel_env pt i = projr (res_bind (pt_cells pt) (\<lambda>x. cell x i))"

definition sel_defined :: "point \<Rightarrow> int \<Rightarrow> bool" where
  "sel_defined pt i \<longleftrightarrow> \<not> isl (res_bind (pt_cells pt) (\<lambda>x. cell x i))"

lemma cell_ByVec: "cell (map Some x) i = (if 0 \<le> i \<and> i < int (length x) then Inr (x ! nat i) else Inl OutOfBounds)"
  by (auto simp: cell_def nat_less_iff)

lemma to_vector_step_small:
  assumes "0 \<le> idx" "idx < int (length r)"
  shows "to_vector_step (idx, x) r = Inr (r[nat idx := Some x])"
  using assms by (simp add: to_vector_step_def)

lemma to_vector_loop_small:
  assumes "\<forall>k \<in> fst ` set es. 0 \<le> k \<and> k < int (length r)" "distinct (map fst es)"
  shows "\<exists>r'. to_vector_loop es r = Inr r' \<and> length r' = length r \<and>
    (\<forall>i < length r. r' ! i = (case map_of es (int i) of Some x \<Rightarrow> Some x | None \<Rightarrow> r ! i))"
  using assms
proof (induction es arbitrary: r)
  case (Cons e es)
  obtain k x where e: "e = (k, x)" by fastforce
  with Cons.prems have k: "0 \<le> k" "k < int (length r)" by auto
  have "\<forall>j \<in> fst ` set es. 0 \<le> j \<and> j < int (length (r[nat k := Some x]))" using Cons.prems(1) by simp
  with Cons.IH [of "r[nat k := Some x]"] Cons.prems(2) obtain r' where
    "to_vector_loop es (r[nat k := Some x]) = Inr r'" "length r' = length r"
    "\<forall>i < length r. r' ! i = (case map_of es (int i) of Some x \<Rightarrow> Some x | None \<Rightarrow> r[nat k := Some x] ! i)" by auto
  moreover have "map_of es k = None" using Cons.prems(2) e by (simp add: map_of_eq_None_iff)
  ultimately show ?case using k
    by (auto simp: e to_vector_step_small nth_list_update split: option.split)
qed simp

text \<open>An assignment of the variables with the indices below its size is turned into its vector.\<close>

lemma assignmentToVector_small:
  assumes "map_inv a" "\<forall>k \<in> fst ` set a. 0 \<le> k \<and> k < int (2 * length a)"
  shows "\<exists>x. assignmentToVector a = Inr x \<and> length x = 2 * length a \<and> (\<forall>i < length x. x ! i = map_find a (int i))"
proof -
  have d: "distinct (map fst a)" using assms(1) by (simp add: map_inv_def strict_sorted_iff)
  have "\<forall>k \<in> fst ` set a. 0 \<le> k \<and> k < int (length (replicate (length a * 2) (None :: FElem option)))"
    using assms(2) by (simp add: mult.commute)
  from to_vector_loop_small [OF this d] show ?thesis
    by (auto simp: assignmentToVector_def map_find_def mult.commute split: option.split_asm)
qed

section \<open>Evaluation computes the value\<close>

lemma foldl_times: "foldl (*) c xs = c * prod_list xs" for c :: FElem
  by (induction xs arbitrary: c) (simp_all add: mult.assoc)

lemma res_list_Inr: "res_list (map Inr xs) = Inr xs"
  by (simp add: res_list_eq_Inr)

lemma SelectorSum_eval_correct:
  assumes "SelectorSum_ok (map_SelectorSum (\<lambda>_. True) S)" "\<forall>i \<in> set (selectorVars S). sel_defined pt i"
    and "\<forall>r \<in> set (constraints S). \<not> isl r"
  shows "SelectorSum_eval pt S = Inr (SelectorSum_val (sel_env pt) (map_SelectorSum projr S))"
proof -
  have ne: "selectorVars S \<noteq> []" and len: "length (selectorRelevant S) = selectorNum S" "selectorNum S \<le> 2 ^ length (selectorVars S)"
    and s2c: "\<forall>k \<in> set (selectorToConstraint S). k < length (constraints S)"
    using assms(1) by (auto simp: SelectorSum_ok_def list_all_iff)
  then obtain i0 where "i0 \<in> set (selectorVars S)" by (cases "selectorVars S") auto
  then have "sel_defined pt i0" using assms(2) by blast
  then obtain x where x: "pt_cells pt = Inr x" unfolding sel_defined_def by (cases "pt_cells pt") auto
  have cells: "res_list (map (cell x) (selectorVars S)) = Inr (map (sel_env pt) (selectorVars S))"
    using assms(2) by (intro res_list_map_eq) (auto simp: sel_defined_def sel_env_def x isl_def)
  let ?xs = "map (sel_env pt) (selectorVars S)" and ?cs = "map projr (constraints S)"
  from getSelectorVals_correct [OF cells ne] obtain vals where
    vals: "getSelectorVals S x = Inr vals" "length vals = 2 ^ length ?xs" "\<forall>i < 2 ^ length ?xs. vals ! i = sel_val ?xs i" by blast
  have bnd: "\<forall>i \<in> set [0..<selectorNum S]. selectorToConstraint S ! i < length ?cs \<and> i < length vals"
    using s2c len vals(2) by (auto simp: selectorNum_def)
  from coeff_loop_correct [OF _ bnd, of "replicate (length ?cs) 0"] obtain coeffs where
    coeffs: "getConstraintCoeffs S x = Inr coeffs" "length coeffs = length ?cs"
      "dot coeffs ?cs = (\<Sum>i\<leftarrow>[0..<selectorNum S]. if selectorRelevant S ! i then vals ! i * ?cs ! (selectorToConstraint S ! i) else 0)"
    by (auto simp: getConstraintCoeffs_def vals(1) dot_replicate_0)
  have dot: "dot coeffs ?cs = SelectorSum_val (sel_env pt) (map_SelectorSum projr S)"
    unfolding coeffs(3) SelectorSum_val_def using vals(3) len bnd
    by (intro arg_cong [where f = sum_list] map_cong) auto
  have r: "r = Inr (projr r)" if "r \<in> set (constraints S)" for r using assms(3) that by (cases r) auto
  have all: "map2 (\<lambda>c r. res_map ((*) c) r) coeffs (constraints S) = map Inr (map2 (*) coeffs ?cs)"
    unfolding zip_map2 map_map by (rule map_cong) (auto dest!: set_zip_rightD r, metis res_map_simps(2) sum.sel(2))
  have skip: "map2 (\<lambda>c r. if c \<noteq> 0 then res_map ((*) c) r else Inr 0) coeffs (constraints S) = map Inr (map2 (*) coeffs ?cs)"
    unfolding zip_map2 map_map by (rule map_cong) (auto dest!: set_zip_rightD r, metis res_map_simps(2) sum.sel(2))
  show ?thesis
    using x coeffs(1) dot
    by (auto simp: SelectorSum_eval_def pt_cells_def all skip res_list_Inr foldl_plus dot_def simp del: map_map split: point.splits)
qed

lemma cp_eval_correct:
  assumes "cp_ok p" "\<forall>v \<in> cp_vars p. pt_defined pt v" "\<forall>i \<in> cp_sels p. sel_defined pt i"
  shows "cp_eval pt p = Inr (cp_val (pt_val pt) (sel_env pt) p)"
  using assms
proof (induction p rule: poly_induct)
  case (Add input)
  have "res_list (map (cp_eval pt) input) = Inr (map (cp_val (pt_val pt) (sel_env pt)) input)"
    using Add by (intro res_list_map_eq) (auto simp: list_all_iff)
  then show ?case using Add.prems(1) by (cases input) (simp_all add: foldl_plus)
next
  case (Mul input)
  have "res_list (map (cp_eval pt) input) = Inr (map (cp_val (pt_val pt) (sel_env pt)) input)"
    using Mul by (intro res_list_map_eq) (auto simp: list_all_iff)
  then show ?case using Mul.prems(1) by (cases input) (simp_all add: foldl_times)
next
  case (Prod factors)
  have "res_list (map (lc_eval pt) factors) = Inr (map (lc_val (pt_val pt)) factors)"
    using Prod by (intro res_list_map_eq lc_eval_defined) auto
  then show ?case by (simp add: foldl_times)
next
  case (Sel S)
  have c: "cp_eval pt q = Inr (cp_val (pt_val pt) (sel_env pt) q)" if "q \<in> set (constraints S)" for q
  proof (rule Sel.IH [OF that])
    show "cp_ok q" using Sel.prems(1) that by (auto simp: SelectorSum_ok_def list_all_iff)
  qed (use Sel.prems(2,3) that in auto)
  have ok: "SelectorSum_ok (map_SelectorSum (\<lambda>_. True) (map_SelectorSum (cp_eval pt) S))"
    using Sel.prems(1) by (auto simp: SelectorSum_ok_def list_all_iff)
  have "map_SelectorSum projr (map_SelectorSum (cp_eval pt) S) = map_SelectorSum (cp_val (pt_val pt) (sel_env pt)) S"
    using c by (cases S) auto
  then show ?case using SelectorSum_eval_correct [OF ok, of pt] c Sel.prems(3) by simp
qed

section \<open>The ring operations\<close>

lemma cp_val_isZero: "cp_isZero p \<Longrightarrow> cp_val vf sf p = 0"
  by (auto simp: cp_isZero_def lc_val_isZero split: CircuitPolynomial.splits list.splits)

lemma cp_val_plus [poly_eval]: "cp_val vf sf (cp_plus p q) = cp_val vf sf p + cp_val vf sf q"
  by (auto simp: cp_plus_def cp_val_isZero lc_val_plus split: CircuitPolynomial.splits list.splits)

lemma cp_val_times [poly_eval]: "cp_val vf sf (cp_times p q) = cp_val vf sf p * cp_val vf sf q"
  by (auto simp: cp_times_def cp_val_isZero lc_val_const mult_ac split: CircuitPolynomial.splits)

lemma cp_val_simps [poly_eval]:
  "cp_val vf sf (cp_const c) = c" "cp_val vf sf (cp_var v) = vf v" "cp_val vf sf (cp_lc l) = lc_val vf l"
  "cp_val vf sf (cp_term t) = lt_coeff t * vf (lt_variable t)"
  by (simp_all add: cp_const_def cp_var_def cp_lc_def cp_term_def lc_val_const lc_val_var lc_val_term)

lemma cp_ok_plus: "cp_ok p \<Longrightarrow> cp_ok q \<Longrightarrow> cp_ok (cp_plus p q)"
  by (auto simp: cp_plus_def split: CircuitPolynomial.splits list.splits)

lemma cp_ok_times: "cp_ok p \<Longrightarrow> cp_ok q \<Longrightarrow> cp_ok (cp_times p q)"
  by (auto simp: cp_times_def split: CircuitPolynomial.splits)

lemma cp_ok_simps [simp]: "cp_ok (cp_const c)" "cp_ok (cp_var v)" "cp_ok (cp_lc l)" "cp_ok (cp_term t)"
  by (simp_all add: cp_const_def cp_var_def cp_lc_def cp_term_def)

lemma cp_vars_plus: "cp_vars (cp_plus p q) \<subseteq> cp_vars p \<union> cp_vars q"
  by (auto simp: cp_plus_def dest!: subsetD [OF lc_vars_simps(3)] split: CircuitPolynomial.splits list.splits)

lemma cp_vars_times: "cp_vars (cp_times p q) \<subseteq> cp_vars p \<union> cp_vars q"
  by (auto simp: cp_times_def split: CircuitPolynomial.splits)

lemma cp_sels_plus: "cp_sels (cp_plus p q) \<subseteq> cp_sels p \<union> cp_sels q"
  and cp_sels_times: "cp_sels (cp_times p q) \<subseteq> cp_sels p \<union> cp_sels q"
  by (auto simp: cp_plus_def cp_times_def split: CircuitPolynomial.splits list.splits)

lemma cp_val_cong:
  assumes "\<And>v. v \<in> cp_vars p \<Longrightarrow> vf v = vf' v" "\<And>i. i \<in> cp_sels p \<Longrightarrow> sf i = sf' i"
  shows "cp_val vf sf p = cp_val vf' sf' p"
  using assms
proof (induction p rule: poly_induct)
  case (Prod factors)
  then show ?case by (auto intro!: arg_cong [where f = prod_list] map_cong lc_val_cong)
next
  case (Sel S)
  have "map sf (selectorVars S) = map sf' (selectorVars S)" using Sel.prems(2) by simp
  moreover have "map (cp_val vf sf) (constraints S) = map (cp_val vf' sf') (constraints S)"
    by (intro map_cong Sel.IH Sel.prems) auto
  ultimately show ?case by (simp only: SelectorSum_val_def map_SelectorSum_sel cp_val.simps)
next
  case (Add input)
  have "map (cp_val vf sf) input = map (cp_val vf' sf') input" by (intro map_cong Add.IH Add.prems) auto
  then show ?case by (simp only: cp_val.simps)
next
  case (Mul input)
  have "map (cp_val vf sf) input = map (cp_val vf' sf') input" by (intro map_cong Mul.IH Mul.prems) auto
  then show ?case by (simp only: cp_val.simps)
qed

section \<open>Used variables\<close>

lemma insert_sets_used:
  assumes "varset_inv s" "\<forall>t \<in> set ts. varset_inv t"
  shows "varset_inv (fold (\<lambda>t. set_insert_all (map snd t)) ts s) \<and>
    varset_keys (fold (\<lambda>t. set_insert_all (map snd t)) ts s) = varset_keys s \<union> \<Union> (varset_keys ` set ts)"
  using assms
proof (induction ts arbitrary: s)
  case (Cons t ts)
  have "varset_inv (set_insert_all (map snd t) s)" using Cons.prems(1) by (rule set_insert_all_inv)
  moreover have "varset_keys (set_insert_all (map snd t) s) = varset_keys t \<union> varset_keys s"
    using Cons.prems by (simp only: set_insert_all_keys varset_values_keys list.set_intros)
  ultimately show ?case using Cons.IH Cons.prems(2) by auto
qed simp

text \<open>The indices of the variables a polynomial mentions, selectors included.\<close>

primrec cp_indices :: "CircuitPolynomial \<Rightarrow> int set" where
  "cp_indices (PolySELECTORSUM S) = varset_keys (selectorVariables S) \<union> \<Union> (set (constraints (map_SelectorSum cp_indices S)))"
| "cp_indices (PolyPROD factors) = var_index ` \<Union> (lc_vars ` set factors)"
| "cp_indices (PolyADD input) = \<Union> (set (map cp_indices input))"
| "cp_indices (PolyMUL input) = \<Union> (set (map cp_indices input))"

lemma cp_used: "cp_ok p \<Longrightarrow> varset_inv (cp_getUsedVariables p) \<and> varset_keys (cp_getUsedVariables p) = cp_indices p"
proof (induction p rule: poly_induct)
  case (Add input)
  have "varset_inv (cp_getUsedVariables q) \<and> varset_keys (cp_getUsedVariables q) = cp_indices q" if "q \<in> set input" for q
    using Add that by (auto simp: list_all_iff)
  then show ?case using insert_sets_used [of "[]" "map cp_getUsedVariables input"] by (simp add: insert_sets_def)
next
  case (Mul input)
  have "varset_inv (cp_getUsedVariables q) \<and> varset_keys (cp_getUsedVariables q) = cp_indices q" if "q \<in> set input" for q
    using Mul that by (auto simp: list_all_iff)
  then show ?case using insert_sets_used [of "[]" "map cp_getUsedVariables input"] by (simp add: insert_sets_def)
next
  case (Prod factors)
  show ?case using insert_sets_used [of "[]" "map lc_getUsedVariables factors"] by (simp add: insert_sets_def lc_used image_UN)
next
  case (Sel S)
  have "varset_inv (cp_getUsedVariables q) \<and> varset_keys (cp_getUsedVariables q) = cp_indices q" if "q \<in> set (constraints S)" for q
    using Sel.IH [OF that] Sel.prems that by (auto simp: SelectorSum_ok_def list_all_iff)
  moreover have "varset_inv (selectorVariables S)" using Sel.prems by (simp add: SelectorSum_ok_def)
  ultimately show ?case using insert_sets_used [of "selectorVariables S" "map cp_getUsedVariables (constraints S)"]
    by (simp add: SelectorSum_getUsedVariables_def)
qed

end
