(* ===== verification/CircuitLaws.thy ===== *)
theory CircuitLaws
  imports CircuitSemantics
begin

text \<open>
  The properties of circuit polynomials: the ring operations under evaluation, what a sum over
  selectors evaluates to, and the renaming of variables.
\<close>

section \<open>Ring operations under evaluation\<close>

lemma res_list_append: "res_list (as @ bs) = res_bind (res_list as) (\<lambda>xs. res_map ((@) xs) (res_list bs))"
proof (induction as)
  case Nil show ?case by (cases "res_list bs") simp_all
next
  case (Cons a as)
  then show ?case by (cases a; cases "res_list as"; cases "res_list bs") simp_all
qed

lemma lc_eval_eq: "lc_eval pt l = Inr x \<Longrightarrow> x = lc_val (pt_val pt) l"
  using lc_eval_inv lc_eval_defined by (metis sum.inject(2))

lemma lc_eval_plus: "lc_eval pt l = Inr x \<Longrightarrow> lc_eval pt m = Inr y \<Longrightarrow> lc_eval pt (lc_plus l m) = Inr (x + y)"
proof -
  assume l: "lc_eval pt l = Inr x" and m: "lc_eval pt m = Inr y"
  have "pt_defined pt v" if "v \<in> lc_vars (lc_plus l m)" for v
    using subsetD [OF lc_vars_simps(3) that] lc_eval_inv [OF l] lc_eval_inv [OF m] by blast
  then show ?thesis using lc_eval_eq [OF l] lc_eval_eq [OF m] by (simp add: lc_eval_defined lc_val_plus)
qed

lemma cp_eval_isZero: "cp_isZero p \<Longrightarrow> cp_eval pt p = Inr 0"
  by (auto simp: cp_isZero_def lc_isZero_def lc_eval_def split: CircuitPolynomial.splits list.splits)

lemma cp_eval_pair: "cp_eval pt p = Inr x \<Longrightarrow> cp_eval pt q = Inr y \<Longrightarrow>
    cp_eval pt (PolyADD [p, q]) = Inr (x + y) \<and> cp_eval pt (PolyMUL [p, q]) = Inr (x * y)"
  by simp

lemma cp_eval_snoc: "cp_ok (PolyADD input) \<Longrightarrow> cp_eval pt (PolyADD input) = Inr x \<Longrightarrow> cp_eval pt q = Inr y \<Longrightarrow>
    cp_eval pt (PolyADD (input @ [q])) = Inr (x + y)"
  "cp_ok (PolyMUL input) \<Longrightarrow> cp_eval pt (PolyMUL input) = Inr x \<Longrightarrow> cp_eval pt q = Inr y \<Longrightarrow>
    cp_eval pt (PolyMUL (input @ [q])) = Inr (x * y)"
  by (cases input; auto simp: res_list_append res_bind_eq_Inr res_map_eq_Inr)+

lemma cp_eval_prod_append: "cp_eval pt (PolyPROD fs) = Inr x \<Longrightarrow> cp_eval pt (PolyPROD gs) = Inr y \<Longrightarrow>
    cp_eval pt (PolyPROD (fs @ gs)) = Inr (x * y)"
  by (auto simp: res_list_append res_map_eq_Inr foldl_times)

lemma cp_eval_plus:
  assumes "cp_ok p" "cp_eval pt p = Inr x" "cp_eval pt q = Inr y"
  shows "cp_eval pt (cp_plus p q) = Inr (x + y)"
proof -
  note pair = cp_eval_pair [OF assms(2,3), THEN conjunct1]
  consider "cp_isZero q" | "cp_isZero p" | "\<not> cp_isZero q" "\<not> cp_isZero p" by blast
  then show ?thesis
  proof cases
    case 1 then show ?thesis using assms by (simp add: cp_plus_def cp_eval_isZero)
  next
    case 2 then show ?thesis using assms by (cases "cp_isZero q") (simp_all add: cp_plus_def cp_eval_isZero)
  next
    case 3
    show ?thesis
    proof (cases p)
      case (PolyADD input)
      then show ?thesis using 3 assms cp_eval_snoc(1) by (simp add: cp_plus_def)
    next
      case (PolyPROD fs)
      show ?thesis
      proof (cases "\<exists>f g. fs = [f] \<and> q = PolyPROD [g]")
        case True
        then show ?thesis using 3 assms PolyPROD
          by (auto simp: cp_plus_def res_bind_eq_Inr res_map_eq_Inr lc_eval_plus)
      next
        case False
        then show ?thesis using 3 pair PolyPROD
          by (auto simp: cp_plus_def split: list.splits CircuitPolynomial.splits)
      qed
    qed (use 3 pair in \<open>simp_all add: cp_plus_def\<close>)
  qed
qed

lemma cp_eval_times:
  assumes "cp_ok p" "cp_eval pt p = Inr x" "cp_eval pt q = Inr y"
  shows "cp_eval pt (cp_times p q) = Inr (x * y)"
proof -
  note pair = cp_eval_pair [OF assms(2,3), THEN conjunct2]
  show ?thesis
  proof (cases "cp_isZero q \<or> cp_isZero p")
    case True
    then show ?thesis using assms by (auto simp: cp_times_def cp_eval_isZero lc_eval_def lc_const_def)
  next
    case False
    show ?thesis
    proof (cases p)
      case (PolyMUL input)
      then show ?thesis using False assms cp_eval_snoc(2) by (simp add: cp_times_def)
    next
      case (PolyPROD fs)
      then show ?thesis using False pair assms cp_eval_prod_append
        by (cases q) (simp_all add: cp_times_def)
    qed (use False pair in \<open>simp_all add: cp_times_def\<close>)
  qed
qed

lemma cp_operators_are_ring_operations_facts:
  assumes "cp_ok p" and "cp_ok q" and "cp_eval pt p = Inr x" and "cp_eval pt q = Inr y"
  shows "cp_eval pt (cp_plus p q) = Inr (x + y)" and "cp_eval pt (cp_times p q) = Inr (x * y)"
    and "cp_ok (cp_plus p q)" and "cp_ok (cp_times p q)"
  using assms by (simp_all add: cp_eval_plus cp_eval_times cp_ok_plus cp_ok_times)

text \<open>Property C14. The operators \<open>+=\<close> and \<open>*=\<close> of \<open>CircuitPolynomial\<close> are addition and
  multiplication under both evaluators, on every branch of their case distinctions, and keep
  the representation invariant (no empty sums and products, selector sums in range).\<close>

theorem cp_operators_are_ring_operations:
  assumes "cp_ok p" and "cp_ok q" and "cp_eval pt p = Inr x" and "cp_eval pt q = Inr y"
  shows "((cp_eval pt (cp_plus p q) = Inr (x + y)))
    \<and> ((cp_eval pt (cp_times p q) = Inr (x * y)))
    \<and> ((cp_ok (cp_plus p q)))
    \<and> ((cp_ok (cp_times p q)))"
  using cp_operators_are_ring_operations_facts [OF assms] by blast

theorem cp_operators_are_ring_operations_witness:
  "cp_eval (ByVec [fe 2]) (cp_times (cp_const (fe 3)) (PolyPROD [lc_var \<lparr>var_index = 7, var_newIndex = 0, var_name = ''x''\<rparr>]))
    = Inr (fe 3 * fe 2)"
  by (rule cp_operators_are_ring_operations [THEN conjunct2, THEN conjunct1, rule_format (no_asm)])
    (simp_all add: cp_const_def lc_const_def lc_eval_def lc_var_def LinearTerm_of_def LinearTerm_eval_def Variable_eval_def)

section \<open>Sums over selectors\<close>

lemma sel_val_bool:
  assumes "\<forall>j < length xs. xs ! j = (if bit i j then 1 else 0)" "i < 2 ^ length xs" "k < 2 ^ length xs"
  shows "sel_val xs k = (if k = i then 1 else 0)"
  using assms
proof (induction xs arbitrary: i k)
  case (Cons x xs)
  have x: "x = (if odd i then 1 else 0)" using Cons.prems(1) by (auto simp: bit_0)
  have "\<forall>j < length xs. xs ! j = (if bit (i div 2) j then 1 else 0)"
    using Cons.prems(1) by (auto simp: bit_Suc [symmetric] simp flip: bit_Suc)
  moreover have "i div 2 < 2 ^ length xs" "k div 2 < 2 ^ length xs" using Cons.prems(2,3) by auto
  ultimately have IH: "sel_val xs (k div 2) = (if k div 2 = i div 2 then 1 else 0)" by (rule Cons.IH)
  have "k = i \<longleftrightarrow> odd k = odd i \<and> k div 2 = i div 2" by (metis div_mult_mod_eq odd_iff_mod_2_eq_one parity_cases)
  then show ?case by (auto simp: x IH)
qed simp

lemma sum_list_delta: "(\<Sum>k\<leftarrow>[0..<n]. if k = i then c else 0) = (if i < n then c else 0)" for c :: FElem
  by (induction n) auto

text \<open>Property C15. When the selector variables hold the bits of \<open>i\<close>, a selector sum evaluates to
  the constraint that selector \<open>i\<close> is mapped to, and to 0 when selector \<open>i\<close> is not relevant or
  out of the table, under both evaluators. (The doubling loop that computes all selectors and the
  merging of selectors with equal constraints do not change the sum.)\<close>

theorem selector_sum_selects:
  assumes ok: "cp_ok (PolySELECTORSUM S)"
    and sel: "\<forall>j < length (selectorVars S). sel_defined pt (selectorVars S ! j) \<and>
      sel_env pt (selectorVars S ! j) = (if bit i j then 1 else 0)" and i: "i < 2 ^ length (selectorVars S)"
    and cs: "\<forall>k < length (constraints S). cp_eval pt (constraints S ! k) = Inr (vals ! k)"
  shows "cp_eval pt (PolySELECTORSUM S) = Inr (if i < selectorNum S \<and> selectorRelevant S ! i
    then vals ! (selectorToConstraint S ! i) else 0)"
proof -
  let ?R = "map_SelectorSum (cp_eval pt) S" and ?xs = "map (sel_env pt) (selectorVars S)"
  have s2c: "\<forall>k \<in> set (selectorToConstraint S). k < length (constraints S)" and num: "selectorNum S \<le> 2 ^ length (selectorVars S)"
    using ok by (auto simp: SelectorSum_ok_def list_all_iff)
  have "SelectorSum_ok (map_SelectorSum (\<lambda>_. True) ?R)" using ok by (auto simp: SelectorSum_ok_def list_all_iff)
  moreover have "\<forall>i \<in> set (selectorVars ?R). sel_defined pt i" using sel by (auto simp: in_set_conv_nth)
  moreover have "\<forall>r \<in> set (constraints ?R). \<not> isl r" using cs by (auto simp: in_set_conv_nth)
  ultimately have "cp_eval pt (PolySELECTORSUM S) = Inr (SelectorSum_val (sel_env pt) (map_SelectorSum projr ?R))"
    using SelectorSum_eval_correct by simp
  also have "SelectorSum_val (sel_env pt) (map_SelectorSum projr ?R) =
      (\<Sum>k\<leftarrow>[0..<selectorNum S]. if k = i then (if selectorRelevant S ! i then vals ! (selectorToConstraint S ! i) else 0) else 0)"
    unfolding SelectorSum_val_def
  proof (simp only: map_SelectorSum_sel, intro arg_cong [where f = sum_list] map_cong refl)
    fix k assume k: "k \<in> set [0..<selectorNum S]"
    have "sel_val ?xs k = (if k = i then 1 else 0)" using sel i k num by (intro sel_val_bool) auto
    moreover have "map projr (map (cp_eval pt) (constraints S)) ! (selectorToConstraint S ! k) = vals ! (selectorToConstraint S ! k)"
      using s2c cs k by (simp add: selectorNum_def)
    ultimately show "(if selectorRelevant S ! k then sel_val ?xs k * map projr (map (cp_eval pt) (constraints S)) ! (selectorToConstraint S ! k)
        else 0) = (if k = i then (if selectorRelevant S ! i then vals ! (selectorToConstraint S ! i) else 0) else 0)"
      by (cases "k = i") simp_all
  qed
  also have "\<dots> = (if i < selectorNum S \<and> selectorRelevant S ! i then vals ! (selectorToConstraint S ! i) else 0)"
    by (simp add: sum_list_delta)
  finally show ?thesis .
qed

theorem selector_sum_selects_witness:
  "cp_eval (ByVec [1, fe 5]) (PolySELECTORSUM (SelectorSum [cp_const (fe 2), cp_const (fe 3)] [0] [] [1, 0] [True, True]))
    = Inr (fe 2)"
proof -
  let ?S = "SelectorSum [cp_const (fe 2), cp_const (fe 3)] [0] [] [1, 0] [True, True]"
  have "cp_eval (ByVec [1, fe 5]) (PolySELECTORSUM ?S) = Inr (if (1::nat) < selectorNum ?S \<and> selectorRelevant ?S ! 1
      then [fe 2, fe 3] ! (selectorToConstraint ?S ! 1) else 0)"
    by (rule selector_sum_selects)
      (auto simp: SelectorSum_ok_def selectorNum_def sel_defined_def sel_env_def pt_cells_def cell_def less_Suc_eq
        cp_const_def lc_const_def lc_eval_def bit_0)
  then show ?thesis by (simp add: selectorNum_def)
qed

section \<open>Renaming\<close>

text \<open>The selectors of a polynomial as its constructor leaves them: they hold the indices of the selector variables.\<close>

primrec cp_unrenamed :: "CircuitPolynomial \<Rightarrow> bool" where
  "cp_unrenamed (PolySELECTORSUM S) = (set (selectorVars S) = varset_keys (selectorVariables S)
     \<and> list_all (\<lambda>b. b) (constraints (map_SelectorSum cp_unrenamed S)))"
| "cp_unrenamed (PolyPROD factors) = True"
| "cp_unrenamed (PolyADD input) = list_all (\<lambda>b. b) (map cp_unrenamed input)"
| "cp_unrenamed (PolyMUL input) = list_all (\<lambda>b. b) (map cp_unrenamed input)"

definition rename_var :: "index_map \<Rightarrow> Variable \<Rightarrow> Variable" where
  "rename_var m v = v\<lparr>var_newIndex := index_at m (var_index v)\<rparr>"

definition rename_lc :: "index_map \<Rightarrow> LinearCombination \<Rightarrow> LinearCombination" where
  "rename_lc m l = l\<lparr>linearTerms := map (\<lambda>t. t\<lparr>lt_variable := rename_var m (lt_variable t)\<rparr>) (linearTerms l)\<rparr>"

lemma setNewIndex_Inr: "setNewIndex (index_at m (var_index v)) v = Inr w \<Longrightarrow> w = rename_var m v"
  by (auto simp: setNewIndex_def rename_var_def split: if_splits)

lemma lc_setNewIndices_Inr: "lc_setNewIndices m l = Inr l' \<Longrightarrow> l' = rename_lc m l"
proof -
  assume "lc_setNewIndices m l = Inr l'"
  then obtain ts where ts: "res_list (map (LinearTerm_setNewIndices m) (linearTerms l)) = Inr ts" "l' = l\<lparr>linearTerms := ts\<rparr>"
    by (auto simp: lc_setNewIndices_def res_map_eq_Inr)
  have "ts = map (\<lambda>t. t\<lparr>lt_variable := rename_var m (lt_variable t)\<rparr>) (linearTerms l)"
    using res_list_map_inv_nth [OF ts(1)]
    by (intro nth_equalityI) (auto simp: LinearTerm_setNewIndices_def res_map_eq_Inr dest!: setNewIndex_Inr)
  then show ?thesis using ts(2) by (simp add: rename_lc_def)
qed

lemma lc_val_rename: "lc_val vf (rename_lc m l) = lc_val (\<lambda>v. vf (rename_var m v)) l"
  by (simp add: lc_val_def rename_lc_def o_def)

lemma lc_vars_rename: "lc_vars (rename_lc m l) = rename_var m ` lc_vars l"
  by (simp add: lc_vars_def rename_lc_def image_image)

primrec cp_rename :: "index_map \<Rightarrow> CircuitPolynomial \<Rightarrow> CircuitPolynomial" where
  "cp_rename m (PolySELECTORSUM S) = PolySELECTORSUM (SelectorSum (constraints (map_SelectorSum (cp_rename m) S))
     (map (index_at m) (selectorVars S)) (set_insert_all (map (rename_var m) (map snd (selectorVariables S))) [])
     (selectorToConstraint S) (selectorRelevant S))"
| "cp_rename m (PolyPROD factors) = PolyPROD (map (rename_lc m) factors)"
| "cp_rename m (PolyADD input) = PolyADD (map (cp_rename m) input)"
| "cp_rename m (PolyMUL input) = PolyMUL (map (cp_rename m) input)"

lemma res_list_map_inv_map:
  assumes "res_list (map f xs) = Inr ys" "\<And>x y. x \<in> set xs \<Longrightarrow> f x = Inr y \<Longrightarrow> y = g x"
  shows "ys = map g xs"
  using res_list_map_inv_nth [OF assms(1)] assms(2) by (intro nth_equalityI) auto

lemma cp_setNewIndices_Inr: "cp_setNewIndices m p = Inr p' \<Longrightarrow> p' = cp_rename m p"
proof (induction p arbitrary: p' rule: poly_induct)
  case (Sel S)
  then obtain newVars cs where
    nv: "res_list (map (\<lambda>v. setNewIndex (index_at m (var_index v)) v) (map snd (selectorVariables S))) = Inr newVars"
    and cs: "res_list (map (cp_setNewIndices m) (constraints S)) = Inr cs"
    and p': "p' = PolySELECTORSUM (SelectorSum cs (map (index_at m) (selectorVars S)) (set_insert_all newVars [])
       (selectorToConstraint S) (selectorRelevant S))"
    by (auto simp: res_map_eq_Inr SelectorSum_setNewIndices_def res_bind_eq_Inr simp del: map_map)
  have "newVars = map (rename_var m) (map snd (selectorVariables S))"
    by (rule res_list_map_inv_map [OF nv]) (rule setNewIndex_Inr)
  moreover have "cs = map (cp_rename m) (constraints S)" by (rule res_list_map_inv_map [OF cs Sel.IH])
  ultimately show ?case by (simp add: p')
qed (auto simp: res_map_eq_Inr intro: lc_setNewIndices_Inr elim!: res_list_map_inv_map)

lemma cp_rename_ok: "cp_ok p \<Longrightarrow> cp_ok (cp_rename m p)"
  by (induction p rule: poly_induct)
    (auto simp: SelectorSum_ok_def selectorNum_def list_all_iff intro: set_insert_all_inv)

lemma cp_rename_vars: "cp_vars (cp_rename m p) = rename_var m ` cp_vars p"
  by (induction p rule: poly_induct) (auto simp: lc_vars_rename)

lemma cp_rename_sels: "cp_sels (cp_rename m p) = index_at m ` cp_sels p"
  by (induction p rule: poly_induct) auto

lemma cp_val_rename: "cp_val vf sf (cp_rename m p) = cp_val (\<lambda>v. vf (rename_var m v)) (\<lambda>i. sf (index_at m i)) p"
proof (induction p rule: poly_induct)
  case (Prod factors)
  show ?case by (simp add: o_def lc_val_rename)
next
  case (Sel S)
  have "map (cp_val vf sf) (map (cp_rename m) (constraints S)) =
      map (cp_val (\<lambda>v. vf (rename_var m v)) (\<lambda>i. sf (index_at m i))) (constraints S)"
    unfolding map_map by (rule map_cong) (simp_all add: Sel)
  then show ?case by (simp only: cp_rename.simps cp_val.simps map_SelectorSum_sel SelectorSum_val_def
      SelectorSum.map selectorNum_def SelectorSum.sel map_map o_def)
qed (auto intro!: arg_cong [where f = sum_list] arg_cong [where f = prod_list])

lemma cp_unrenamed_sels: "cp_unrenamed p \<Longrightarrow> cp_sels p \<union> var_index ` cp_vars p = cp_indices p"
proof (induction p rule: poly_induct)
  case (Sel S)
  have "cp_sels q \<union> var_index ` cp_vars q = cp_indices q" if "q \<in> set (constraints S)" for q
    using Sel that by (auto simp: list_all_iff)
  moreover have "set (selectorVars S) = varset_keys (selectorVariables S)" using Sel.prems by simp
  ultimately show ?case by (auto simp: image_UN) blast+
qed (auto simp: list_all_iff image_UN, blast+)

lemma renaming_eval:
  assumes "cp_ok p" and "cp_unrenamed p" and "cp_setNewIndices m p = Inr p'" and "map_inv a"
    and "\<forall>k \<in> fst ` set a. 0 \<le> k \<and> k < int (2 * length a)"
    and "\<forall>k \<in> varset_keys (cp_getUsedVariables p). 0 \<le> index_at m k \<and> index_at m k < int (length x)
      \<and> map_find a k = Some (x ! nat (index_at m k))"
  shows "cp_eval (ByVec x) p' = cp_eval (ByMap a) p" and "\<exists>val. cp_eval (ByMap a) p = Inr val"
proof -
  have p': "p' = cp_rename m p" using assms(3) by (rule cp_setNewIndices_Inr)
  have ind: "\<forall>k \<in> cp_indices p. 0 \<le> index_at m k \<and> index_at m k < int (length x) \<and> map_find a k = Some (x ! nat (index_at m k))"
    using assms(6) cp_used [OF assms(1)] by simp
  have in_sels: "i \<in> cp_sels p \<Longrightarrow> i \<in> cp_indices p" and in_vars: "v \<in> cp_vars p \<Longrightarrow> var_index v \<in> cp_indices p" for i v
    using cp_unrenamed_sels [OF assms(2)] by auto
  from assignmentToVector_small [OF assms(4,5)] obtain y where
    y: "assignmentToVector a = Inr y" "length y = 2 * length a" "\<forall>i < length y. y ! i = map_find a (int i)" by blast
  have key: "0 \<le> k \<and> k < int (length y)" if "map_find a k = Some z" for k z
    using map_find_entry [OF assms(4), of k z] that assms(5) y(2) by force
  have sel: "sel_defined (ByMap a) i \<and> sel_env (ByMap a) i = x ! nat (index_at m i)" if "i \<in> cp_sels p" for i
    using ind in_sels [OF that] key [of i] y by (auto simp: sel_defined_def sel_env_def pt_cells_def cell_def nat_less_iff)
  have var: "pt_defined (ByMap a) v \<and> pt_val (ByMap a) v = x ! nat (index_at m (var_index v))" if "v \<in> cp_vars p" for v
    using ind in_vars [OF that] by (auto simp: pt_defined_def pt_val_def Variable_eval_def)
  have e1: "cp_eval (ByMap a) p = Inr (cp_val (pt_val (ByMap a)) (sel_env (ByMap a)) p)"
    using sel var by (intro cp_eval_correct assms) auto
  have sel': "sel_defined (ByVec x) (index_at m i) \<and> sel_env (ByVec x) (index_at m i) = x ! nat (index_at m i)" if "i \<in> cp_sels p" for i
    using ind in_sels [OF that] by (auto simp: sel_defined_def sel_env_def pt_cells_def cell_ByVec)
  have var': "pt_defined (ByVec x) (rename_var m v) \<and> pt_val (ByVec x) (rename_var m v) = x ! nat (index_at m (var_index v))"
    if "v \<in> cp_vars p" for v
    using ind in_vars [OF that] by (auto simp: pt_defined_def pt_val_def Variable_eval_def rename_var_def)
  have "cp_eval (ByVec x) p' = Inr (cp_val (pt_val (ByVec x)) (sel_env (ByVec x)) p')"
    unfolding p' using sel' var' by (intro cp_eval_correct cp_rename_ok assms) (auto simp: cp_rename_vars cp_rename_sels)
  also have "cp_val (pt_val (ByVec x)) (sel_env (ByVec x)) p' = cp_val (pt_val (ByMap a)) (sel_env (ByMap a)) p"
    unfolding p' cp_val_rename using sel sel' var var' by (intro cp_val_cong) auto
  finally show "cp_eval (ByVec x) p' = cp_eval (ByMap a) p" using e1 by simp
  show "\<exists>val. cp_eval (ByMap a) p = Inr val" using e1 by blast
qed

lemma renaming_preserves_evaluation_facts:
  assumes "cp_ok p" and "cp_unrenamed p" and "cp_setNewIndices m p = Inr p'" and "map_inv a"
    and "\<forall>k \<in> fst ` set a. 0 \<le> k \<and> k < int (2 * length a)"
    and "\<forall>k \<in> varset_keys (cp_getUsedVariables p). 0 \<le> index_at m k \<and> index_at m k < int (length x)
      \<and> map_find a k = Some (x ! nat (index_at m k))"
  shows "cp_eval (ByVec x) p' = cp_eval (ByMap a) p" and "\<exists>val. cp_eval (ByMap a) p = Inr val"
  using renaming_eval [OF assms] by blast+



end
