(* ===== verification/CircuitInterface.thy ===== *)
theory CircuitInterface
  imports CircuitLaws
begin

text \<open>
  Circuit polynomials keep the contract of \<open>PolynomialInterface\<close>, stated as a locale: the degree
  bound of a composition with univariate polynomials and the meaning of \<open>isEffectiveInput\<close>. The
  last section shows that printing with translated constants cannot fail after \<open>getConsts\<close>.
\<close>

section \<open>Degree bounds\<close>

lemma foldl_product_bound:
  assumes "list_all2 deg_le ds fs" "deg_le d f"
  shows "deg_le (foldl degreeOfProduct d ds) (\<lambda>t. f t * (\<Prod>g\<leftarrow>fs. g t))"
  using assms
proof (induction ds fs arbitrary: d f rule: list_all2_induct)
  case (Cons d' ds g fs)
  from Cons.IH [OF deg_le_mult [OF Cons.prems Cons.hyps(1)]] show ?case by (simp add: mult.assoc)
qed simp

lemma foldl_selector_bound:
  assumes "list_all2 (\<lambda>d g. deg_le d g \<and> 0 \<le> degree d) ds gs" "deg_le d f"
  shows "deg_le (foldl degreeOfProduct d ds) (\<lambda>t. f t * sel_val (map (\<lambda>g. g t) gs) i)"
  using assms
proof (induction ds gs arbitrary: d f i rule: list_all2_induct)
  case (Cons d' ds g gs)
  have "deg_le d' (\<lambda>t. if odd i then g t else g t + 1)"
    using Cons.hyps(1) by (cases "odd i") (auto intro: deg_le_add deg_le_const)
  from Cons.IH [OF deg_le_mult [OF Cons.prems this], of "i div 2"] show ?case by (simp add: mult.assoc)
qed simp

lemma foldl_max_ge: "degree d \<le> degree (foldl degree_max d ds)" "e \<in> set ds \<Longrightarrow> degree e \<le> degree (foldl degree_max d ds)"
  by (induction ds arbitrary: d) (auto intro: order.trans [OF degree_max_ge(1)] order.trans [OF degree_max_ge(2)])

lemma foldl_max_sum_bound:
  assumes "list_all2 deg_le ds fs" shows "deg_le (foldl degree_max d ds) (\<lambda>t. \<Sum>f\<leftarrow>fs. f t)"
proof (rule deg_le_sum_list)
  fix f assume "f \<in> set fs"
  with assms obtain e where "e \<in> set ds" "deg_le e f" by (metis in_set_conv_nth list_all2_conv_all_nth)
  then show "deg_le (foldl degree_max d ds) f" using deg_le_mono foldl_max_ge(2) by blast
qed

lemma list_all2_results:
  assumes "res_list (map f xs) = Inr ds" "\<And>x d. x \<in> set xs \<Longrightarrow> f x = Inr d \<Longrightarrow> P d (g x)"
  shows "list_all2 P ds (map g xs)"
  using res_list_map_inv_nth [OF assms(1)] assms(2) by (auto simp: list_all2_conv_all_nth)

lemma list_all2_mem: "list_all2 P ds fs \<Longrightarrow> f \<in> set fs \<Longrightarrow> \<exists>d \<in> set ds. P d f"
  by (metis in_set_conv_nth list_all2_conv_all_nth)

text \<open>The inputs as univariate polynomials of a common argument, with their degree bounds.\<close>

definition inputs_bounded :: "PolynomialDegree list \<Rightarrow> (FElem \<Rightarrow> FElem list) \<Rightarrow> bool" where
  "inputs_bounded ds xs \<longleftrightarrow> (\<forall>t. length (xs t) = length ds) \<and> (\<forall>i < length ds. deg_le (ds ! i) (\<lambda>t. xs t ! i))"

lemma degree_at_sound:
  assumes "inputs_bounded ds xs" "degree_at ds i = Inr d"
  shows "deg_le d (\<lambda>t. sel_env (ByVec (xs t)) i)" "sel_defined (ByVec (xs t)) i"
    "var_newIndex v = i \<Longrightarrow> pt_defined (ByVec (xs t)) v \<and> pt_val (ByVec (xs t)) v = sel_env (ByVec (xs t)) i"
  using assms by (auto simp: inputs_bounded_def degree_at_def sel_env_def sel_defined_def pt_cells_def cell_ByVec nat_less_iff
      pt_defined_def pt_val_def Variable_eval_def split: if_splits)

lemma lc_degree_sound:
  assumes "inputs_bounded ds xs" "lc_getDegreeBound ds l = Inr d"
  shows "deg_le d (\<lambda>t. lc_val (pt_val (ByVec (xs t))) l)" "v \<in> lc_vars l \<Longrightarrow> pt_defined (ByVec (xs t)) v" "0 \<le> degree d"
proof -
  from assms(2) obtain es where es: "res_list (map (\<lambda>t. degree_at ds (var_newIndex (lt_variable t))) (linearTerms l)) = Inr es"
    and d: "d = foldl degree_max (make_degree 0) es" by (auto simp: lc_getDegreeBound_def res_map_eq_Inr)
  show nonneg: "0 \<le> degree d" using foldl_max_ge(1) [of "make_degree 0" es] by (simp add: d make_degree_def)
  let ?f = "\<lambda>s t. pt_val (ByVec (xs t)) (lt_variable s)"
  have all: "list_all2 (\<lambda>e f. deg_le e f) es (map ?f (linearTerms l))"
    using degree_at_sound(1,3) [OF assms(1)] by (intro list_all2_results [OF es]) (simp add: deg_le_def)
  have "deg_le d (\<lambda>t. \<Sum>f\<leftarrow>map (\<lambda>s t. lt_coeff s * ?f s t) (linearTerms l). f t)"
  proof (rule deg_le_sum_list)
    fix f assume "f \<in> set (map (\<lambda>s t. lt_coeff s * ?f s t) (linearTerms l))"
    then obtain s where s: "s \<in> set (linearTerms l)" "f = (\<lambda>t. lt_coeff s * ?f s t)" by auto
    with list_all2_mem [OF all, of "?f s"] obtain e where "e \<in> set es" "deg_le e (?f s)" by auto
    then show "deg_le d f" unfolding s d using deg_le_mono foldl_max_ge(2) deg_le_scale by blast
  qed
  then show "deg_le d (\<lambda>t. lc_val (pt_val (ByVec (xs t))) l)" unfolding lc_val_def
    by (intro deg_le_add deg_le_const nonneg) (simp add: o_def)
  assume "v \<in> lc_vars l"
  then obtain s where "s \<in> set (linearTerms l)" "v = lt_variable s" by (auto simp: lc_vars_def)
  with res_list_map_inv [OF es, of s] show "pt_defined (ByVec (xs t)) v"
    using degree_at_sound(3) [OF assms(1)] by (metis isl_def sum.exhaust_sel sum.collapse(2))
qed

lemma SelectorSum_degree_sound:
  fixes S :: "'p SelectorSum" and g :: "'p \<Rightarrow> FElem \<Rightarrow> FElem"
  assumes inp: "inputs_bounded ds xs" and bd: "SelectorSum_getDegreeBound ds (map_SelectorSum b S) = Inr D"
    and ok: "\<forall>k \<in> set (selectorToConstraint S). k < length (constraints S)"
    and nonneg: "\<forall>i \<in> set (selectorVars S). \<forall>d. degree_at ds i = Inr d \<longrightarrow> 0 \<le> degree d"
    and cs: "\<And>q d. q \<in> set (constraints S) \<Longrightarrow> b q = Inr d \<Longrightarrow> deg_le d (g q)"
  shows "deg_le D (\<lambda>t. SelectorSum_val (sel_env (ByVec (xs t))) (map_SelectorSum (\<lambda>q. g q t) S))"
    and "i \<in> set (selectorVars S) \<Longrightarrow> sel_defined (ByVec (xs t)) i"
proof -
  from bd obtain es ds' where es: "res_list (map (degree_at ds) (selectorVars S)) = Inr es"
    and ds': "res_list (map b (constraints S)) = Inr ds'"
    and D: "D = degreeOfProduct (foldl degreeOfProduct (make_degree 0) es) (foldl degree_max (make_degree (-1)) ds')"
    by (auto simp: SelectorSum_getDegreeBound_def getSelectorDegreeBound_def res_bind_eq_Inr res_map_eq_Inr)
  let ?sd = "foldl degreeOfProduct (make_degree 0) es" and ?md = "foldl degree_max (make_degree (-1)) ds'"
  let ?e = "\<lambda>i t. sel_env (ByVec (xs t)) i"
  have "list_all2 (\<lambda>d g. deg_le d g \<and> 0 \<le> degree d) es (map ?e (selectorVars S))"
    using nonneg degree_at_sound(1) [OF inp] by (intro list_all2_results [OF es]) blast
  then have sel: "deg_le ?sd (\<lambda>t. 1 * sel_val (map (\<lambda>g. g t) (map ?e (selectorVars S))) k)" for k
    by (rule foldl_selector_bound) (rule deg_le_const, simp add: make_degree_def)
  have call: "list_all2 deg_le ds' (map g (constraints S))" using cs by (intro list_all2_results [OF ds']) blast
  have con: "deg_le ?md (g q)" if "q \<in> set (constraints S)" for q
    using list_all2_mem [OF call, of "g q"] that deg_le_mono foldl_max_ge(2) by force
  let ?T = "\<lambda>k t. if selectorRelevant S ! k then sel_val (map (\<lambda>i. ?e i t) (selectorVars S)) k
    * map (\<lambda>q. g q t) (constraints S) ! (selectorToConstraint S ! k) else 0"
  have "deg_le D (?T k)" if k: "k < selectorNum S" for k
  proof (cases "selectorRelevant S ! k")
    case True
    let ?q = "constraints S ! (selectorToConstraint S ! k)"
    have q: "selectorToConstraint S ! k < length (constraints S)" using ok k by (simp add: selectorNum_def)
    then have "deg_le D (\<lambda>t. sel_val (map (\<lambda>i. ?e i t) (selectorVars S)) k * g ?q t)"
      unfolding D using sel [of k] con [of ?q] by (intro deg_le_mult) (simp_all add: o_def)
    with True q show ?thesis by simp
  qed (simp add: deg_le_0)
  then have "deg_le D (\<lambda>t. \<Sum>f\<leftarrow>map ?T [0..<selectorNum S]. f t)" by (intro deg_le_sum_list) auto
  then show "deg_le D (\<lambda>t. SelectorSum_val (sel_env (ByVec (xs t))) (map_SelectorSum (\<lambda>q. g q t) S))"
    unfolding SelectorSum_val_def map_SelectorSum_sel by (simp only: map_map o_def)
  assume "i \<in> set (selectorVars S)"
  with res_list_map_inv [OF es] show "sel_defined (ByVec (xs t)) i"
    using degree_at_sound(2) [OF inp] by (metis sum.collapse(2))
qed

lemma cp_degree_sound:
  assumes inp: "inputs_bounded ds xs" and "cp_getDegreeBound ds p = Inr D" and "cp_ok p"
    and "\<forall>i \<in> cp_sels p. \<forall>d. degree_at ds i = Inr d \<longrightarrow> 0 \<le> degree d"
  shows "deg_le D (\<lambda>t. cp_val (pt_val (ByVec (xs t))) (sel_env (ByVec (xs t))) p) \<and>
    (\<forall>v \<in> cp_vars p. \<forall>t. pt_defined (ByVec (xs t)) v) \<and> (\<forall>i \<in> cp_sels p. \<forall>t. sel_defined (ByVec (xs t)) i)"
    (is "?P D p")
  using assms(2-4)
proof (induction p arbitrary: D rule: poly_induct)
  case (Add input)
  then obtain es where es: "res_list (map (cp_getDegreeBound ds) input) = Inr es" and D: "D = foldl degree_max (make_degree 0) es"
    by (auto simp: res_map_eq_Inr)
  have q: "cp_getDegreeBound ds q = Inr d \<Longrightarrow> ?P d q" if "q \<in> set input" for q d
    using Add.prems(2,3) that by (intro Add.IH) (auto simp: list_all_iff)
  have "list_all2 deg_le es (map (\<lambda>q t. cp_val (pt_val (ByVec (xs t))) (sel_env (ByVec (xs t))) q) input)"
    using q by (intro list_all2_results [OF es]) blast
  from foldl_max_sum_bound [OF this] have "deg_le D (\<lambda>t. cp_val (pt_val (ByVec (xs t))) (sel_env (ByVec (xs t))) (PolyADD input))"
    unfolding D by (simp add: o_def)
  moreover have "\<exists>d. ?P d q" if "q \<in> set input" for q using q [OF that] res_list_map_ex [OF es that] by blast
  ultimately show ?case by auto
next
  case (Mul input)
  then obtain es where es: "res_list (map (cp_getDegreeBound ds) input) = Inr es" and D: "D = foldl degreeOfProduct (make_degree 0) es"
    by (auto simp: res_map_eq_Inr)
  have q: "cp_getDegreeBound ds q = Inr d \<Longrightarrow> ?P d q" if "q \<in> set input" for q d
    using Mul.prems(2,3) that by (intro Mul.IH) (auto simp: list_all_iff)
  have "list_all2 deg_le es (map (\<lambda>q t. cp_val (pt_val (ByVec (xs t))) (sel_env (ByVec (xs t))) q) input)"
    using q by (intro list_all2_results [OF es]) blast
  from foldl_product_bound [OF this deg_le_const [of "make_degree 0" 1]]
  have "deg_le D (\<lambda>t. cp_val (pt_val (ByVec (xs t))) (sel_env (ByVec (xs t))) (PolyMUL input))"
    unfolding D by (simp add: o_def make_degree_def)
  moreover have "\<exists>d. ?P d q" if "q \<in> set input" for q using q [OF that] res_list_map_ex [OF es that] by blast
  ultimately show ?case by auto
next
  case (Prod factors)
  then obtain es where es: "res_list (map (lc_getDegreeBound ds) factors) = Inr es" and D: "D = foldl degreeOfProduct (make_degree 0) es"
    by (auto simp: res_map_eq_Inr)
  have "list_all2 deg_le es (map (\<lambda>l t. lc_val (pt_val (ByVec (xs t))) l) factors)"
    using lc_degree_sound(1) [OF inp] by (intro list_all2_results [OF es]) blast
  from foldl_product_bound [OF this deg_le_const [of "make_degree 0" 1]]
  have "deg_le D (\<lambda>t. cp_val (pt_val (ByVec (xs t))) (sel_env (ByVec (xs t))) (PolyPROD factors))"
    unfolding D by (simp add: o_def make_degree_def)
  moreover have "pt_defined (ByVec (xs t)) v" if "l \<in> set factors" "v \<in> lc_vars l" for l v t
    using lc_degree_sound(2) [OF inp _ that(2)] res_list_map_ex [OF es that(1)] by blast
  ultimately show ?case by auto
next
  case (Sel S)
  have q: "cp_getDegreeBound ds q = Inr d \<Longrightarrow> ?P d q" if "q \<in> set (constraints S)" for q d
    using Sel.prems(2,3) that by (intro Sel.IH) (auto simp: list_all_iff SelectorSum_ok_def)
  have bd: "SelectorSum_getDegreeBound ds (map_SelectorSum (cp_getDegreeBound ds) S) = Inr D" using Sel.prems(1) by simp
  then obtain ds' where ds': "res_list (map (cp_getDegreeBound ds) (constraints S)) = Inr ds'"
    by (auto simp: SelectorSum_getDegreeBound_def res_bind_eq_Inr res_map_eq_Inr)
  have ok: "\<forall>k \<in> set (selectorToConstraint S). k < length (constraints S)"
    using Sel.prems(2) by (auto simp: SelectorSum_ok_def list_all_iff)
  have nn: "\<forall>i \<in> set (selectorVars S). \<forall>d. degree_at ds i = Inr d \<longrightarrow> 0 \<le> degree d" using Sel.prems(3) by auto
  have cs: "deg_le d (\<lambda>t. cp_val (pt_val (ByVec (xs t))) (sel_env (ByVec (xs t))) q)"
    if "q \<in> set (constraints S)" "cp_getDegreeBound ds q = Inr d" for q d using q [OF that] by blast
  have "\<exists>d. ?P d q" if "q \<in> set (constraints S)" for q using q [OF that] res_list_map_ex [OF ds' that] by blast
  with SelectorSum_degree_sound [OF inp bd ok nn cs] show ?case by auto
qed

section \<open>The contract of PolynomialInterface\<close>

definition evalOnSet :: "(FElem list \<Rightarrow> 'p \<Rightarrow> FElem result) \<Rightarrow> FElem list list \<Rightarrow> 'p \<Rightarrow> FElem list result" where
  "evalOnSet ev x_set p = res_list (map (\<lambda>x. ev x p) x_set)"

definition isRoot :: "(FElem list \<Rightarrow> 'p \<Rightarrow> FElem result) \<Rightarrow> FElem list \<Rightarrow> 'p \<Rightarrow> bool result" where
  "isRoot ev x p = res_map (\<lambda>v. v = 0) (ev x p)"

locale polynomial_interface =
  fixes inv :: "'p \<Rightarrow> bool" and eval :: "FElem list \<Rightarrow> 'p \<Rightarrow> FElem result"
    and getDegreeBound :: "PolynomialDegree list \<Rightarrow> 'p \<Rightarrow> PolynomialDegree result"
    and isEffectiveInput :: "nat \<Rightarrow> 'p \<Rightarrow> bool result"
  assumes degree_sound: "inv p \<Longrightarrow> getDegreeBound ds p = Inr D \<Longrightarrow> \<forall>d \<in> set ds. 0 \<le> degree d \<Longrightarrow> inputs_bounded ds xs
      \<Longrightarrow> \<exists>f. (\<forall>t. eval (xs t) p = Inr (f t)) \<and> deg_le D f"
    and effective_sound: "inv p \<Longrightarrow> isEffectiveInput i p = Inr False \<Longrightarrow> eval (x[i := y]) p = eval x p"
begin

lemma ineffective_updates:
  assumes "inv p" "\<forall>i \<in> set is. isEffectiveInput i p = Inr False"
  shows "eval (fold (\<lambda>i x. x[i := g i]) is x) p = eval x p"
  using assms(2)
proof (induction "is" arbitrary: x)
  case (Cons i "is")
  then show ?case using effective_sound [OF assms(1), of i x "g i"] by simp
qed simp

lemma isRoot_ineffective: "inv p \<Longrightarrow> isEffectiveInput i p = Inr False \<Longrightarrow> isRoot eval (x[i := y]) p = isRoot eval x p"
  by (simp add: isRoot_def effective_sound)

lemma evalOnSet_bounded:
  assumes "inv p" "getDegreeBound ds p = Inr D" "\<forall>d \<in> set ds. 0 \<le> degree d" "inputs_bounded ds xs"
  shows "\<exists>f. deg_le D f \<and> (\<forall>ts. evalOnSet eval (map xs ts) p = Inr (map f ts))"
proof -
  from degree_sound [OF assms] obtain f where f: "\<forall>t. eval (xs t) p = Inr (f t)" "deg_le D f" by blast
  then have "evalOnSet eval (map xs ts) p = Inr (map f ts)" for ts by (simp add: evalOnSet_def o_def)
  with f(2) show ?thesis by blast
qed

end

text \<open>Renamed polynomials: variables of one index have one new index, and the selectors are new indices.\<close>

primrec cp_all_vars :: "CircuitPolynomial \<Rightarrow> Variable set" where
  "cp_all_vars (PolySELECTORSUM S) = set (map snd (selectorVariables S)) \<union> \<Union> (set (constraints (map_SelectorSum cp_all_vars S)))"
| "cp_all_vars (PolyPROD factors) = \<Union> (lc_vars ` set factors)"
| "cp_all_vars (PolyADD input) = \<Union> (set (map cp_all_vars input))"
| "cp_all_vars (PolyMUL input) = \<Union> (set (map cp_all_vars input))"

definition cp_renamed :: "CircuitPolynomial \<Rightarrow> bool" where
  "cp_renamed p \<longleftrightarrow> cp_ok p \<and> (\<forall>u \<in> cp_all_vars p. \<forall>v \<in> cp_all_vars p. var_index u = var_index v \<longrightarrow> var_newIndex u = var_newIndex v)
     \<and> cp_sels p \<subseteq> var_newIndex ` cp_all_vars p"

lemma cp_renamedD:
  assumes "cp_renamed p"
  shows "cp_ok p" "u \<in> cp_all_vars p \<Longrightarrow> v \<in> cp_all_vars p \<Longrightarrow> var_index u = var_index v \<Longrightarrow> var_newIndex u = var_newIndex v"
    "i \<in> cp_sels p \<Longrightarrow> i \<in> var_newIndex ` cp_all_vars p"
  using assms unfolding cp_renamed_def by blast+

lemma cp_vars_all: "cp_vars p \<subseteq> cp_all_vars p"
  by (induction p rule: poly_induct) auto

lemma insert_sets_range: "set (map snd (fold (\<lambda>t. set_insert_all (map snd t)) ts s)) \<subseteq> set (map snd s) \<union> \<Union> ((\<lambda>t. set (map snd t)) ` set ts)"
proof (induction ts arbitrary: s)
  case (Cons t ts)
  from Cons [of "set_insert_all (map snd t) s"] set_insert_all_range [of "map snd t" s] show ?case
    by simp blast
qed simp

lemma insert_sets_range_map:
  assumes "\<And>x. x \<in> set xs \<Longrightarrow> set (map snd (f x)) \<subseteq> A x"
  shows "set (map snd (fold (\<lambda>t. set_insert_all (map snd t)) (map f xs) s)) \<subseteq> set (map snd s) \<union> \<Union> (A ` set xs)"
proof -
  have "set (map snd (fold (\<lambda>t. set_insert_all (map snd t)) (map f xs) s)) \<subseteq> set (map snd s) \<union> (\<Union>x\<in>set xs. set (map snd (f x)))"
    using insert_sets_range [of "map f xs" s] by simp
  also have "\<dots> \<subseteq> set (map snd s) \<union> \<Union> (A ` set xs)" using assms by (intro Un_mono UN_mono) auto
  finally show ?thesis .
qed

lemma cp_used_range: "set (map snd (cp_getUsedVariables p)) \<subseteq> cp_all_vars p"
proof (induction p rule: poly_induct)
  case (Add input)
  then show ?case using insert_sets_range_map [of input cp_getUsedVariables cp_all_vars "[]"] by (simp add: insert_sets_def)
next
  case (Mul input)
  then show ?case using insert_sets_range_map [of input cp_getUsedVariables cp_all_vars "[]"] by (simp add: insert_sets_def)
next
  case (Prod factors)
  have "set (map snd (lc_getUsedVariables l)) \<subseteq> lc_vars l" for l
    using set_insert_all_range [of "map lt_variable (linearTerms l)" "[]"] by (simp add: lc_getUsedVariables_def lc_vars_def)
  then show ?case using insert_sets_range_map [of factors lc_getUsedVariables lc_vars "[]"] by (simp add: insert_sets_def)
next
  case (Sel S)
  then show ?case using insert_sets_range_map [of "constraints S" cp_getUsedVariables cp_all_vars "selectorVariables S"]
    by (simp add: SelectorSum_getUsedVariables_def)
qed

lemma cp_indices_all: "cp_ok p \<Longrightarrow> cp_indices p = var_index ` cp_all_vars p"
proof (induction p rule: poly_induct)
  case (Sel S)
  have "varset_keys (selectorVariables S) = var_index ` set (map snd (selectorVariables S))"
    using varset_values_keys [of "selectorVariables S"] Sel.prems by (simp add: SelectorSum_ok_def)
  moreover have "cp_indices q = var_index ` cp_all_vars q" if "q \<in> set (constraints S)" for q
    using Sel that by (auto simp: SelectorSum_ok_def list_all_iff)
  ultimately show ?case by (simp add: image_Un image_UN)
qed (auto simp: list_all_iff image_UN)

lemma effective_loop_False: "effective_loop i vs = Inr False \<Longrightarrow> v \<in> set vs \<Longrightarrow> var_newIndex v \<noteq> i \<and> 0 \<le> var_newIndex v"
  by (induction vs) (auto split: if_splits)

lemma ineffective_newIndex:
  assumes "cp_renamed p" "cp_isEffectiveInput i p = Inr False" "v \<in> cp_all_vars p"
  shows "var_newIndex v \<noteq> i"
proof -
  have ok: "cp_ok p" using assms(1) by (rule cp_renamedD)
  note used = cp_used [OF ok]
  have "var_index ` set (map snd (cp_getUsedVariables p)) = var_index ` cp_all_vars p"
    using used cp_indices_all [OF ok] varset_values_keys [of "cp_getUsedVariables p"] by simp
  then have "var_index v \<in> var_index ` set (map snd (cp_getUsedVariables p))" using assms(3) by simp
  then obtain u where u: "u \<in> set (map snd (cp_getUsedVariables p))" "var_index u = var_index v" by (metis imageE)
  then have "var_newIndex u = var_newIndex v"
    using cp_renamedD(2) [OF assms(1) subsetD [OF cp_used_range u(1)] assms(3)] by blast
  with effective_loop_False [OF assms(2) [unfolded cp_isEffectiveInput_def] u(1)] show ?thesis by simp
qed

lemma cp_eval_cong_vec:
  assumes "\<And>v. v \<in> cp_vars p \<Longrightarrow> Variable_eval (ByVec x) v = Variable_eval (ByVec x') v"
    "\<And>i. i \<in> cp_sels p \<Longrightarrow> cell (map Some x) i = cell (map Some x') i"
  shows "cp_eval (ByVec x) p = cp_eval (ByVec x') p"
  using assms
proof (induction p rule: poly_induct)
  case (Add input)
  have "map (cp_eval (ByVec x)) input = map (cp_eval (ByVec x')) input" by (intro map_cong Add.IH Add.prems) auto
  then show ?case by (simp only: cp_eval.simps)
next
  case (Mul input)
  have "map (cp_eval (ByVec x)) input = map (cp_eval (ByVec x')) input" by (intro map_cong Mul.IH Mul.prems) auto
  then show ?case by (simp only: cp_eval.simps)
next
  case (Prod factors)
  have "lc_eval (ByVec x) l = lc_eval (ByVec x') l" if "l \<in> set factors" for l
  proof -
    have "map (LinearTerm_eval (ByVec x)) (linearTerms l) = map (LinearTerm_eval (ByVec x')) (linearTerms l)"
    proof (intro map_cong refl)
      fix s assume "s \<in> set (linearTerms l)"
      with that have "lt_variable s \<in> cp_vars (PolyPROD factors)" by (auto simp: lc_vars_def)
      from Prod.prems(1) [OF this] show "LinearTerm_eval (ByVec x) s = LinearTerm_eval (ByVec x') s" by (simp add: LinearTerm_eval_def)
    qed
    then show ?thesis by (simp only: lc_eval_def)
  qed
  then have "map (lc_eval (ByVec x)) factors = map (lc_eval (ByVec x')) factors" by simp
  then show ?case by (simp only: cp_eval.simps)
next
  case (Sel S)
  have c: "map (cp_eval (ByVec x)) (constraints S) = map (cp_eval (ByVec x')) (constraints S)"
    by (intro map_cong Sel.IH Sel.prems) auto
  then have S: "map_SelectorSum (cp_eval (ByVec x)) S = map_SelectorSum (cp_eval (ByVec x')) S" by (cases S) simp
  have "map (cell (map Some x)) (selectorVars S) = map (cell (map Some x')) (selectorVars S)"
    using Sel.prems(2) by simp
  then have "getSelectorVals R (map Some x) = getSelectorVals R (map Some x')" if "selectorVars R = selectorVars S" for R :: "FElem result SelectorSum"
    using that by (simp only: getSelectorVals_def)
  then have "getConstraintCoeffs (map_SelectorSum (cp_eval (ByVec x)) S) (map Some x) =
      getConstraintCoeffs (map_SelectorSum (cp_eval (ByVec x)) S) (map Some x')"
    by (simp add: getConstraintCoeffs_def)
  then show ?case by (simp add: SelectorSum_eval_def flip: S)
qed

lemma cp_ineffective:
  assumes "cp_renamed p" "cp_isEffectiveInput (int i) p = Inr False"
  shows "cp_eval (ByVec (x[i := y])) p = cp_eval (ByVec x) p"
proof (rule cp_eval_cong_vec)
  have nat: "nat j \<noteq> i" if "j \<noteq> int i" "0 \<le> j" for j using that by auto
  note ne = ineffective_newIndex [OF assms]
  show "Variable_eval (ByVec (x[i := y])) v = Variable_eval (ByVec x) v" if "v \<in> cp_vars p" for v
  proof (cases "var_newIndex v < 0")
    case False
    then have "nat (var_newIndex v) \<noteq> i" using ne [OF subsetD [OF cp_vars_all that]] nat by simp
    then show ?thesis by (simp add: Variable_eval_def)
  qed (simp add: Variable_eval_def)
  show "cell (map Some (x[i := y])) j = cell (map Some x) j" if "j \<in> cp_sels p" for j
  proof (cases "j < 0")
    case False
    from cp_renamedD(3) [OF assms(1) that] obtain v where "v \<in> cp_all_vars p" "j = var_newIndex v" by (metis imageE)
    then have "nat j \<noteq> i" using ne nat False by simp
    then show ?thesis by (simp add: cell_ByVec)
  qed (simp add: cell_ByVec)
qed

interpretation circuit: polynomial_interface cp_renamed "\<lambda>x. cp_eval (ByVec x)" cp_getDegreeBound "\<lambda>i. cp_isEffectiveInput (int i)"
proof
  fix p ds D xs
  assume p: "cp_renamed p" and bd: "cp_getDegreeBound ds p = Inr D" and ds: "\<forall>d \<in> set ds. 0 \<le> degree d" and xs: "inputs_bounded ds xs"
  have ok: "cp_ok p" using p by (rule cp_renamedD)
  have "\<forall>i \<in> cp_sels p. \<forall>d. degree_at ds i = Inr d \<longrightarrow> 0 \<le> degree d" using ds by (auto simp: degree_at_def nat_less_iff split: if_splits)
  note sound = cp_degree_sound [OF xs bd ok this]
  then have "cp_eval (ByVec (xs t)) p = Inr (cp_val (pt_val (ByVec (xs t))) (sel_env (ByVec (xs t))) p)" for t
    by (intro cp_eval_correct ok) blast+
  then show "\<exists>f. (\<forall>t. cp_eval (ByVec (xs t)) p = Inr (f t)) \<and> deg_le D f"
    using sound by (intro exI [of _ "\<lambda>t. cp_val (pt_val (ByVec (xs t))) (sel_env (ByVec (xs t))) p"]) simp
qed (rule cp_ineffective)

lemma polynomial_interface_contract_facts:
  assumes "cp_renamed p"
  shows "\<lbrakk>cp_getDegreeBound ds p = Inr D; \<forall>d \<in> set ds. 0 \<le> degree d; inputs_bounded ds xs\<rbrakk> \<Longrightarrow>
      \<exists>f. deg_le D f \<and> (\<forall>ts. evalOnSet (\<lambda>x. cp_eval (ByVec x)) (map xs ts) p = Inr (map f ts))"
    and "cp_isEffectiveInput (int i) p = Inr False \<Longrightarrow> cp_eval (ByVec (x[i := y])) p = cp_eval (ByVec x) p"
  using circuit.evalOnSet_bounded [OF assms] circuit.effective_sound [OF assms] by blast+

text \<open>Property C17. The contract of \<open>PolynomialInterface\<close> holds for renamed circuit polynomials.
  If the inputs are univariate polynomials whose degrees (zero polynomials counted as constants)
  are bounded by \<open>inputDegrees\<close>, the values of the composition on any list of points are those of a
  polynomial whose degree is at most \<open>getDegreeBound\<close>; and an input that \<open>isEffectiveInput\<close> rejects
  can be changed without changing the value or the failure of \<open>eval\<close>.\<close>

theorem polynomial_interface_contract:
  assumes "cp_renamed p"
  shows "((cp_getDegreeBound ds p = Inr D) \<longrightarrow> (\<forall>d \<in> set ds. 0 \<le> degree d) \<longrightarrow> (inputs_bounded ds xs) \<longrightarrow> (\<exists>f. deg_le D f \<and> (\<forall>ts. evalOnSet (\<lambda>x. cp_eval (ByVec x)) (map xs ts) p = Inr (map f ts))))
    \<and> ((cp_isEffectiveInput (int i) p = Inr False) \<longrightarrow> (cp_eval (ByVec (x[i := y])) p = cp_eval (ByVec x) p))"
  using polynomial_interface_contract_facts [OF assms] by blast

theorem polynomial_interface_contract_witness:
  "cp_eval (ByVec ([fe 2, fe 3][1 := fe 9])) (PolyPROD [lc_var \<lparr>var_index = 4, var_newIndex = 0, var_name = ''x''\<rparr>])
    = cp_eval (ByVec [fe 2, fe 3]) (PolyPROD [lc_var \<lparr>var_index = 4, var_newIndex = 0, var_name = ''x''\<rparr>]) \<and>
   (\<exists>f. deg_le (make_degree 1) f \<and> (\<forall>ts. evalOnSet (\<lambda>x. cp_eval (ByVec x)) (map (\<lambda>t. [t]) ts)
      (PolyPROD [lc_var \<lparr>var_index = 4, var_newIndex = 0, var_name = ''x''\<rparr>]) = Inr (map f ts)))"
proof
  let ?p = "PolyPROD [lc_var \<lparr>var_index = 4, var_newIndex = 0, var_name = ''x''\<rparr>]"
  have p: "cp_renamed ?p" by (simp add: cp_renamed_def)
  show "cp_eval (ByVec ([fe 2, fe 3][1 := fe 9])) ?p = cp_eval (ByVec [fe 2, fe 3]) ?p"
    by (rule polynomial_interface_contract [THEN conjunct2, rule_format (no_asm), OF p])
      (simp add: cp_isEffectiveInput_def insert_sets_def lc_getUsedVariables_def lc_var_def LinearTerm_of_def set_insert_all_def
        set_insert_def map_find_def)
  have "deg_le (make_degree 1) (\<lambda>t. [t] ! 0)" by (rule deg_leI [of "[0, 1]"]) (simp_all add: make_degree_def)
  then show "\<exists>f. deg_le (make_degree 1) f \<and> (\<forall>ts. evalOnSet (\<lambda>x. cp_eval (ByVec x)) (map (\<lambda>t. [t]) ts) ?p = Inr (map f ts))"
    by (intro polynomial_interface_contract [THEN conjunct1, rule_format (no_asm), OF p, of "[make_degree 1]"])
      (simp_all add: lc_getDegreeBound_def lc_var_def LinearTerm_of_def degree_at_def degree_defs inputs_bounded_def)
qed

section \<open>Printing with translated constants\<close>

definition lc_consts :: "LinearCombination \<Rightarrow> FElem set" where
  "lc_consts l = insert (lc_constant l) (lt_coeff ` set (linearTerms l))"

primrec cp_consts :: "CircuitPolynomial \<Rightarrow> FElem set" where
  "cp_consts (PolySELECTORSUM S) = \<Union> (set (constraints (map_SelectorSum cp_consts S)))"
| "cp_consts (PolyPROD factors) = \<Union> (lc_consts ` set factors)"
| "cp_consts (PolyADD input) = \<Union> (set (map cp_consts input))"
| "cp_consts (PolyMUL input) = \<Union> (set (map cp_consts input))"

text \<open>A map of constants sends every constant to the integer with its bits.\<close>

definition consts_inv :: "const_map \<Rightarrow> bool" where
  "consts_inv m \<longleftrightarrow> map_inv m \<and> (\<forall>c n. map_find m c = Some n \<longrightarrow> n = mapFieldElementToInteger 0 64 c)"

definition consts_dom :: "const_map \<Rightarrow> FElem set" where
  "consts_dom m = {c. map_find m c \<noteq> None}"

text \<open>What a step that only adds constants does to the map.\<close>

definition adds_consts :: "FElem set \<Rightarrow> (const_map \<Rightarrow> const_map) \<Rightarrow> bool" where
  "adds_consts A f \<longleftrightarrow> (\<forall>m. consts_inv m \<longrightarrow> consts_inv (f m) \<and> consts_dom (f m) = consts_dom m \<union> A)"

lemma adds_add_const: "adds_consts {c} (add_const c)"
  by (auto simp: adds_consts_def add_const_def consts_inv_def consts_dom_def map_inv_put map_find_put split: if_splits)

lemma adds_fold: "(\<And>x. x \<in> set xs \<Longrightarrow> adds_consts (A x) (f x)) \<Longrightarrow> adds_consts (\<Union> (A ` set xs)) (fold f xs)"
  by (induction xs) (auto simp: adds_consts_def)

lemma adds_comp: "adds_consts A f \<Longrightarrow> adds_consts B g \<Longrightarrow> adds_consts (A \<union> B) (\<lambda>m. g (f m))"
  by (auto simp: adds_consts_def)

lemma adds_getConsts: "adds_consts (cp_consts p) (cp_getConsts p)"
proof (induction p rule: poly_induct)
  case (Prod factors)
  have "adds_consts (lc_consts l) (\<lambda>m. fold (\<lambda>t. add_const (lt_coeff t)) (linearTerms l) (add_const (lc_constant l) m))" for l
    using adds_comp [OF adds_add_const [of "lc_constant l"] adds_fold [of "linearTerms l" "\<lambda>t. {lt_coeff t}" "\<lambda>t. add_const (lt_coeff t)"]]
    by (simp add: adds_add_const lc_consts_def UNION_singleton_eq_range)
  then show ?case using adds_fold [of factors lc_consts] by simp
next
  case (Sel S)
  then show ?case using adds_fold [of "constraints S" cp_consts cp_getConsts] by (simp add: SelectorSum_getConsts_def fold_map o_def)
next
  case (Add input)
  then show ?case using adds_fold [of input cp_consts cp_getConsts] by (simp add: fold_map o_def)
next
  case (Mul input)
  then show ?case using adds_fold [of input cp_consts cp_getConsts] by (simp add: fold_map o_def)
qed

lemma lc_prints:
  assumes "lc_consts l \<subseteq> consts_dom tr" "\<forall>v \<in> lc_vars l. 0 \<le> var_newIndex v"
  shows "\<not> isl (lc_asStringNewIndex tr b l)"
proof -
  have "\<not> isl (LinearTerm_asStringNewIndex tr b t)" if "t \<in> set (linearTerms l)" for t
  proof -
    have "lt_coeff t \<in> consts_dom tr" using assms(1) that by (auto simp: lc_consts_def)
    then obtain n where "map_find tr (lt_coeff t) = Some n" by (auto simp: consts_dom_def)
    moreover have "0 \<le> var_newIndex (lt_variable t)" using assms(2) that by (auto simp: lc_vars_def)
    ultimately show ?thesis by (simp add: LinearTerm_asStringNewIndex_def newIndexName_def)
  qed
  then have "res_list (map (LinearTerm_asStringNewIndex tr b) (linearTerms l)) =
      Inr (map (\<lambda>t. projr (LinearTerm_asStringNewIndex tr b t)) (linearTerms l))"
    by (intro res_list_map_eq) simp
  then show ?thesis using assms(1) by (auto simp: lc_asStringNewIndex_def lc_consts_def consts_dom_def)
qed

lemma print_constraints_total:
  assumes "\<forall>i \<in> set is. \<not> isl (constraints S ! i)" shows "\<not> isl (print_constraints b S is st)"
  using assms
proof (induction b S "is" st rule: print_constraints.induct)
  case (2 b S i "is" res start)
  then show ?case by (cases "constraints S ! i") (auto split: prod.split)
qed simp

lemma cp_prints:
  assumes "cp_ok p" "cp_consts p \<subseteq> consts_dom tr" "\<forall>v \<in> cp_vars p. 0 \<le> var_newIndex v"
  shows "\<not> isl (cp_asStringNewIndex tr b p)"
  using assms
proof (induction p rule: poly_induct)
  case (Prod factors)
  then have "\<not> isl (lc_asStringNewIndex tr b l)" if "l \<in> set factors" for l using that by (intro lc_prints) auto
  then have "res_list (map (lc_asStringNewIndex tr b) factors) = Inr (map (\<lambda>l. projr (lc_asStringNewIndex tr b l)) factors)"
    by (intro res_list_map_eq) simp
  then show ?case using Prod.prems(1) by simp
next
  case (Sel S)
  have "\<not> isl (cp_asStringNewIndex tr b q)" if "q \<in> set (constraints S)" for q
    using that Sel.prems by (intro Sel.IH) (auto simp: SelectorSum_ok_def list_all_iff)
  then have "\<not> isl (SelectorSum_asStringNewIndex b (map_SelectorSum (cp_asStringNewIndex tr b) S))"
    unfolding SelectorSum_asStringNewIndex_def by (intro print_constraints_total) simp
  then show ?case by (cases "SelectorSum_asStringNewIndex b (map_SelectorSum (cp_asStringNewIndex tr b) S)") simp_all
next
  case (Add input)
  have "\<not> isl (cp_asStringNewIndex tr b q)" if "q \<in> set input" for q
    using that Add.prems by (intro Add.IH) (auto simp: list_all_iff)
  then have "res_list (map (cp_asStringNewIndex tr b) input) = Inr (map (\<lambda>q. projr (cp_asStringNewIndex tr b q)) input)"
    by (intro res_list_map_eq) simp
  then show ?case by simp
next
  case (Mul input)
  have "\<not> isl (cp_asStringNewIndex tr b q)" if "q \<in> set input" for q
    using that Mul.prems by (intro Mul.IH) (auto simp: list_all_iff)
  then have "res_list (map (cp_asStringNewIndex tr b) input) = Inr (map (\<lambda>q. projr (cp_asStringNewIndex tr b q)) input)"
    by (intro res_list_map_eq) simp
  then show ?case by simp
qed

lemma printing_after_getConsts_facts:
  assumes "cp_ok p" and "\<forall>v \<in> cp_vars p. 0 \<le> var_newIndex v" and "consts_inv m"
  shows "\<exists>s. cp_asStringNewIndex (cp_getConsts p m) isDegreePrint p = Inr s"
    and "c \<in> cp_consts p \<Longrightarrow> map_find (cp_getConsts p m) c = Some (mapFieldElementToInteger 0 64 c)"
proof -
  have *: "consts_inv (cp_getConsts p m)" "consts_dom (cp_getConsts p m) = consts_dom m \<union> cp_consts p"
    using adds_getConsts assms(3) unfolding adds_consts_def by blast+
  have "\<not> isl (cp_asStringNewIndex (cp_getConsts p m) isDegreePrint p)" using assms * by (intro cp_prints) auto
  then show "\<exists>s. cp_asStringNewIndex (cp_getConsts p m) isDegreePrint p = Inr s" by (metis sum.collapse(2))
  assume "c \<in> cp_consts p"
  then show "map_find (cp_getConsts p m) c = Some (mapFieldElementToInteger 0 64 c)"
    using * by (auto simp: consts_inv_def consts_dom_def)
qed

text \<open>Property C18. The assertions of \<open>asStringNewIndex\<close> cannot fail after \<open>getConsts\<close>: once the
  constants of a renamed polynomial have been collected (into any map built this way), printing it
  returns, in both modes, and the map sends each of its constants to the integer with its bits.\<close>

theorem printing_after_getConsts:
  assumes "cp_ok p" and "\<forall>v \<in> cp_vars p. 0 \<le> var_newIndex v" and "consts_inv m"
  shows "((\<exists>s. cp_asStringNewIndex (cp_getConsts p m) isDegreePrint p = Inr s))
    \<and> ((c \<in> cp_consts p) \<longrightarrow> (map_find (cp_getConsts p m) c = Some (mapFieldElementToInteger 0 64 c)))"
  using printing_after_getConsts_facts [OF assms] by blast

theorem printing_after_getConsts_witness:
  "\<exists>s. cp_asStringNewIndex (cp_getConsts (cp_var \<lparr>var_index = 4, var_newIndex = 0, var_name = ''x''\<rparr>) []) False
     (cp_var \<lparr>var_index = 4, var_newIndex = 0, var_name = ''x''\<rparr>) = Inr s"
  by (rule printing_after_getConsts [THEN conjunct1, rule_format (no_asm)]) (simp_all add: cp_var_def consts_inv_def)

end
