(* ===== verification/CommonUse.thy ===== *)
theory CommonUse
  imports CircuitLaws "HOL-Library.Log_Nat"
begin

text \<open>
  \<open>common_use.cpp\<close> and the arithmetic of \<open>infrastructure.cpp\<close>: powers of the generator
  \<open>x\<close> of the field, the selector polynomial of a program line, and the entries of the memory
  trace with the order the trace is sorted by.
\<close>

section \<open>Powers of the generator\<close>

definition getGF2E_X :: FElem where "getGF2E_X = xFE"

text \<open>The static vector of \<open>getGenerator2toTheNthPower\<close> is passed explicitly.\<close>

definition g_2_i_extend :: "nat \<Rightarrow> FElem list \<Rightarrow> FElem list" where
  "g_2_i_extend n g_2_i = fold (\<lambda>i v. v @ [power_fe (v ! (i - 1)) 2]) [length g_2_i..<n + 1] g_2_i"

definition getGenerator2toTheNthPower :: "nat \<Rightarrow> FElem list \<Rightarrow> FElem \<times> FElem list" where
  "getGenerator2toTheNthPower n g_2_i = (let v = g_2_i_extend n g_2_i in (v ! n, v))"

text \<open>
  \<open>floor(Log2(n))\<close> in exact arithmetic; for 0 the loop over the bits is empty.
\<close>

definition getGeneratorPower :: "nat \<Rightarrow> FElem" where
  "getGeneratorPower n = fold (\<lambda>i res. let res = res * res in if odd (n div 2 ^ i) then res * getGF2E_X else res)
     (rev [0..<floorlog 2 n]) 1"

section \<open>Integer logarithms\<close>

function Log2ceil_loop :: "nat \<Rightarrow> nat \<Rightarrow> nat" where
  "Log2ceil_loop i retval = (let i = i div 2 in if i \<noteq> 0 then Log2ceil_loop i (retval + 1) else retval)"
  by pat_completeness auto
termination by (relation "measure fst") auto

declare Log2ceil_loop.simps [simp del]

definition Log2ceil :: "nat \<Rightarrow> nat" where
  "Log2ceil i = Log2ceil_loop i (if i \<noteq> 0 then 1 else 0)"

definition Log2ceiled :: "nat \<Rightarrow> nat" where
  "Log2ceiled n = floorlog 2 (n - 1)"

definition IsPower2 :: "int \<Rightarrow> bool" where
  "IsPower2 x \<longleftrightarrow> 0 < x \<and> x AND (x - 1) = 0"

section \<open>The selector of a program line\<close>

definition getPCVars :: "Variable list \<Rightarrow> Variable list" where
  "getPCVars pc = fold (\<lambda>i retVal. retVal @ [pc ! i]) [0..<length pc] []"

definition selector_factor :: "nat \<Rightarrow> Variable \<Rightarrow> LinearCombination" where
  "selector_factor instructionLine v = lc_plus (lc_var v) (lc_const (1 + (if odd instructionLine then 1 else 0)))"

function selector_factors :: "nat \<Rightarrow> nat \<Rightarrow> Variable list \<Rightarrow> LinearCombination list \<Rightarrow> LinearCombination list result" where
  "selector_factors instructionLine i unpackedPC lcVec = (if instructionLine \<noteq> 0 \<or> i < length unpackedPC
     then if i < length unpackedPC then selector_factors (instructionLine div 2) (i + 1) unpackedPC
         (lcVec @ [selector_factor instructionLine (unpackedPC ! i)])
       else Inl OutOfBounds
     else Inr lcVec)"
  by pat_completeness auto
termination by (relation "measure (\<lambda>(l, i, pc, v). length pc - i)") auto

declare selector_factors.simps [simp del]

definition getSelector :: "nat \<Rightarrow> nat \<Rightarrow> Variable list \<Rightarrow> CircuitPolynomial result" where
  "getSelector programLength instructionLine unpackedPC = (if length unpackedPC < Log2ceiled programLength then Inl AssertFailed
     else if unpackedPC = [] then Inl OutOfBounds
     else res_bind (selector_factors (instructionLine div 2) 1 unpackedPC [selector_factor instructionLine (unpackedPC ! 0)]) cp_factors)"

section \<open>Memory entries\<close>

record MemoryInfo =
  serialNumber :: int
  isMemOp :: bool
  isLoadOp :: bool
  timestamp :: FElem
  timestampDegree :: int
  mem_address :: FElem
  mem_value :: FElem

definition MemoryInfo_empty :: MemoryInfo where
  "MemoryInfo_empty = \<lparr>serialNumber = 0, isMemOp = False, isLoadOp = False, timestamp = 0, timestampDegree = -1, mem_address = 0, mem_value = 0\<rparr>"

text \<open>The conversion of an \<open>int\<close> argument to \<open>unsigned int\<close>.\<close>

definition to_unsigned :: "int \<Rightarrow> nat" where "to_unsigned i = nat (i mod 2 ^ 32)"

definition make_MemoryInfo :: "int \<Rightarrow> bool \<Rightarrow> bool \<Rightarrow> FElem \<Rightarrow> int \<Rightarrow> FElem \<Rightarrow> FElem \<Rightarrow> MemoryInfo result" where
  "make_MemoryInfo serial memOp loadOp ts tsDegree addr v = (if ts = getGeneratorPower (to_unsigned tsDegree)
     then Inr \<lparr>serialNumber = serial, isMemOp = memOp, isLoadOp = loadOp, timestamp = ts, timestampDegree = tsDegree,
       mem_address = addr, mem_value = v\<rparr> else Inl AssertFailed)"

definition updateTimestamp :: "FElem \<Rightarrow> int \<Rightarrow> MemoryInfo \<Rightarrow> MemoryInfo result" where
  "updateTimestamp ts tsDegree mi = (if ts = getGeneratorPower (to_unsigned tsDegree)
     then Inr (mi\<lparr>timestamp := ts, timestampDegree := tsDegree\<rparr>) else Inl AssertFailed)"

definition sortMemoryInfo :: "MemoryInfo \<Rightarrow> MemoryInfo \<Rightarrow> bool" where
  "sortMemoryInfo a b = (if \<not> isMemOp a \<and> \<not> isMemOp b then serialNumber a < serialNumber b
     else if isMemOp a \<and> \<not> isMemOp b then True
     else if \<not> isMemOp a \<and> isMemOp b then False
     else let aAddr = uint (mapFieldElementToInteger 0 16 (mem_address a));
              bAddr = uint (mapFieldElementToInteger 0 16 (mem_address b))
       in if aAddr < bAddr then True else if bAddr < aAddr then False else timestampDegree a < timestampDegree b)"

section \<open>Correctness\<close>

lemma power_fe_2: "power_fe a 2 = a ^ 2"
  by (simp add: power_fe_nonneg)

text \<open>What the static vector holds between calls.\<close>

definition g_cache_ok :: "FElem list \<Rightarrow> bool" where
  "g_cache_ok v \<longleftrightarrow> v \<noteq> [] \<and> (\<forall>i < length v. v ! i = getGF2E_X ^ (2 ^ i))"

lemma g_cache_snoc: "g_cache_ok v \<Longrightarrow> g_cache_ok (v @ [power_fe (v ! (length v - 1)) 2])"
  by (cases v rule: rev_cases)
    (auto simp: g_cache_ok_def power_fe_2 nth_append less_Suc_eq power_mult [symmetric] mult.commute simp flip: power_mult)

lemma g_2_i_extend_ok:
  assumes "g_cache_ok v" shows "g_cache_ok (g_2_i_extend n v) \<and> n < length (g_2_i_extend n v)"
proof -
  define F where "F = (\<lambda>i v. v @ [power_fe (v ! (i - 1)) 2])"
  have F: "F (length w) w = w @ [power_fe (w ! (length w - 1)) 2]" for w by (simp add: F_def)
  have "g_cache_ok (fold F [length v..<length v + k] v) \<and> length (fold F [length v..<length v + k] v) = length v + k" for k
  proof (induction k)
    case (Suc k)
    let ?w = "fold F [length v..<length v + k] v"
    from Suc have w: "g_cache_ok ?w" "length ?w = length v + k" by blast+
    from g_cache_snoc [OF w(1)] have "g_cache_ok (F (length ?w) ?w)" "length (F (length ?w) ?w) = Suc (length ?w)" by (simp_all add: F)
    then show ?case by (simp add: w(2))
  qed (use assms in simp)
  from this [of "n + 1 - length v"] show ?thesis unfolding g_2_i_extend_def F_def
    by (cases "length v \<le> n + 1") (use assms in auto)
qed

lemma generator_power_fold:
  "fold (\<lambda>i res. let res = res * res in if odd (n div 2 ^ i) then res * g else res) (rev [0..<k]) (g ^ (n div 2 ^ k)) = g ^ n"
  for g :: FElem
proof (induction k)
  case (Suc k)
  have s: "n div 2 ^ Suc k = (n div 2 ^ k) div 2" by (simp add: div_mult2_eq power_Suc2 del: power_Suc)
  define q where "q = n div 2 ^ Suc k"
  have "n div 2 ^ k = 2 * q + (if odd (n div 2 ^ k) then 1 else 0)" unfolding q_def s by simp
  then have "g ^ (n div 2 ^ k) = (let r = g ^ q * g ^ q in if odd (n div 2 ^ k) then r * g else r)"
    by (cases "odd (n div 2 ^ k)") (auto simp: Let_def power_add mult_2)
  then have "g ^ (n div 2 ^ k) = (let r = g ^ (n div 2 ^ Suc k) * g ^ (n div 2 ^ Suc k) in if odd (n div 2 ^ k) then r * g else r)"
    unfolding q_def .
  then show ?case using Suc by simp
qed simp

lemma getGeneratorPower_eq: "getGeneratorPower n = getGF2E_X ^ n"
proof -
  have "n div 2 ^ floorlog 2 n = 0" using floorlog_bounds [of n 2] by (cases n) (auto simp: floorlog_def)
  then show ?thesis using generator_power_fold [of n getGF2E_X "floorlog 2 n"] by (simp add: getGeneratorPower_def)
qed

lemma Log2ceil_loop_eq: "Log2ceil_loop i r = r + (floorlog 2 i - 1)"
proof (induction i r rule: Log2ceil_loop.induct)
  case (1 i r)
  show ?case
  proof (cases "i div 2 = 0")
    case True
    then have "i = 0 \<or> i = 1" by auto
    then show ?thesis using True by (subst Log2ceil_loop.simps) (auto simp: floorlog_def)
  next
    case False
    then have "floorlog 2 i = floorlog 2 (i div 2) + 1" by (subst compute_floorlog) auto
    moreover have "0 < floorlog 2 (i div 2)" using False by (subst compute_floorlog) auto
    ultimately show ?thesis using 1 [OF refl False] False by (subst Log2ceil_loop.simps) (simp add: Let_def)
  qed
qed

lemma Log2ceil_eq: "Log2ceil i = floorlog 2 i"
  using compute_floorlog [of 2 i] by (cases "i = 0") (auto simp: Log2ceil_def Log2ceil_loop_eq floorlog_def)

lemma IsPower2_iff: "IsPower2 x \<longleftrightarrow> (\<exists>k. x = 2 ^ k)"
proof
  assume "IsPower2 x"
  then have x: "0 < x" "x AND (x - 1) = 0" by (simp_all add: IsPower2_def)
  obtain n where n: "x = int n" "0 < n" using x(1) by (metis zero_less_imp_eq_int)
  from top_bit_ex [OF n(2)] obtain k where k: "bit n k" "n < 2 ^ Suc k" by blast
  have "n = 2 ^ k"
  proof (rule ccontr)
    assume "n \<noteq> 2 ^ k"
    then have "2 ^ k < n" using bit_ge [OF k(1)] by simp
    then have "2 ^ k \<le> n - 1" "n - 1 < 2 ^ Suc k" using k(2) by auto
    then have "(n - 1) div 2 ^ k = 1" by (simp add: div_nat_eqI)
    then have "bit (n - 1) k" by (simp add: bit_iff_odd)
    then have "bit (x - 1) k" using n by (metis bit_of_nat_iff_bit nat_le_linear of_nat_1 of_nat_diff One_nat_def Suc_leI)
    moreover have "bit x k" using k(1) n(1) by (simp add: bit_of_nat_iff_bit)
    ultimately have "bit (x AND (x - 1)) k" by (simp add: bit_and_iff)
    then show False using x(2) by simp
  qed
  then show "\<exists>k. x = 2 ^ k" using n(1) by auto
next
  assume "\<exists>k. x = 2 ^ k"
  then obtain k where "x = 2 ^ k" by blast
  moreover have "(2 :: int) ^ k AND (2 ^ k - 1) = take_bit k (2 ^ k)" by (simp add: take_bit_eq_mask mask_eq_exp_minus_1)
  ultimately show "IsPower2 x" by (simp add: IsPower2_def)
qed

lemma getPCVars_eq: "getPCVars pc = pc"
proof -
  have "fold (\<lambda>i r. r @ [pc ! i]) [0..<k] [] = take k pc" if "k \<le> length pc" for k
    using that by (induction k) (simp_all add: take_Suc_conv_app_nth)
  from this [of "length pc"] show ?thesis by (simp add: getPCVars_def)
qed

lemma selector_factors_val:
  assumes "selector_factors l i pc v = Inr r" "i \<le> length pc"
  shows "\<exists>fs. r = v @ fs \<and> (\<Prod>f\<leftarrow>fs. lc_val vf f) = sel_val (map vf (drop i pc)) l \<and> \<Union> (lc_vars ` set fs) \<subseteq> set pc"
  using assms
proof (induction l i pc v rule: selector_factors.induct)
  case (1 l i pc v)
  show ?case
  proof (cases "i < length pc")
    case True
    let ?f = "selector_factor l (pc ! i)"
    have "selector_factors (l div 2) (i + 1) pc (v @ [?f]) = Inr r" using 1(2) True by (subst (asm) selector_factors.simps) simp
    from 1(1) [OF _ True this] True obtain fs where fs: "r = (v @ [?f]) @ fs"
      "(\<Prod>f\<leftarrow>fs. lc_val vf f) = sel_val (map vf (drop (Suc i) pc)) (l div 2)" "\<Union> (lc_vars ` set fs) \<subseteq> set pc" by auto
    have "lc_val vf ?f = (if odd l then vf (pc ! i) else vf (pc ! i) + 1)" by (simp add: selector_factor_def lc_val_plus lc_val_var lc_val_const)
    moreover have "lc_vars ?f \<subseteq> set pc"
      using lc_vars_simps(3) [of "lc_var (pc ! i)" "lc_const (1 + (if odd l then 1 else 0))"] nth_mem [OF True]
      unfolding selector_factor_def by (simp only: lc_vars_simps(1,2)) blast
    ultimately show ?thesis using fs True by (intro exI [of _ "?f # fs"]) (auto simp: Cons_nth_drop_Suc [symmetric])
  next
    case False
    then show ?thesis using 1(2,3) by (subst (asm) selector_factors.simps) (auto split: if_splits)
  qed
qed

lemma selector_factors_total: "l < 2 ^ (length pc - i) \<Longrightarrow> \<exists>r. selector_factors l i pc v = Inr r"
proof (induction l i pc v rule: selector_factors.induct)
  case (1 l i pc v)
  show ?case
  proof (cases "i < length pc")
    case True
    then have "l div 2 < 2 ^ (length pc - (i + 1))" using 1(2) by (simp add: less_mult_imp_div_less Suc_diff_Suc [symmetric] mult.commute)
    then show ?thesis using 1(1) True by (subst selector_factors.simps) simp
  next
    case False
    then show ?thesis using 1(2) by (subst selector_factors.simps) simp
  qed
qed

lemma getSelector_val:
  assumes "pc \<noteq> []" "Log2ceiled programLength \<le> length pc" "l < 2 ^ length pc"
  shows "\<exists>fs. getSelector programLength l pc = Inr (PolyPROD fs) \<and> fs \<noteq> [] \<and> \<Union> (lc_vars ` set fs) \<subseteq> set pc \<and>
    (\<forall>vf. (\<Prod>f\<leftarrow>fs. lc_val vf f) = sel_val (map vf pc) l)"
proof -
  obtain p0 r where pc: "pc = p0 # r" using assms(1) by (cases pc) auto
  let ?f = "selector_factor l (pc ! 0)"
  have "l div 2 < 2 ^ (length pc - 1)" using assms(3) by (simp add: pc less_mult_imp_div_less mult.commute)
  then obtain v where v: "selector_factors (l div 2) 1 pc [?f] = Inr v" using selector_factors_total by blast
  have "\<exists>fs. v = [?f] @ fs \<and> (\<Prod>f\<leftarrow>fs. lc_val vf f) = sel_val (map vf (drop 1 pc)) (l div 2) \<and> \<Union> (lc_vars ` set fs) \<subseteq> set pc" for vf
    by (rule selector_factors_val [OF v]) (simp add: pc)
  then obtain fs where fs: "v = ?f # fs" "\<Union> (lc_vars ` set fs) \<subseteq> set pc" and
    val: "\<And>vf. (\<Prod>f\<leftarrow>fs. lc_val vf f) = sel_val (map vf (drop 1 pc)) (l div 2)" by (metis append_Cons append_Nil list.inject)
  have f: "lc_val vf ?f = (if odd l then vf p0 else vf p0 + 1)" for vf
    by (simp add: selector_factor_def lc_val_plus lc_val_var lc_val_const pc)
  have "lc_vars ?f \<subseteq> set pc"
    using lc_vars_simps(3) [of "lc_var (pc ! 0)" "lc_const (1 + (if odd l then 1 else 0))"]
    unfolding selector_factor_def by (simp only: lc_vars_simps(1,2)) (auto simp: pc)
  with fs(2) have "\<Union> (lc_vars ` set (?f # fs)) \<subseteq> set pc" by simp
  moreover have "(\<Prod>f\<leftarrow>?f # fs. lc_val vf f) = sel_val (map vf pc) l" for vf using val [of vf] f [of vf] by (simp add: pc)
  moreover have "getSelector programLength l pc = Inr (PolyPROD (?f # fs))"
    using assms v fs(1) by (simp add: getSelector_def cp_factors_def)
  ultimately show ?thesis by blast
qed

text \<open>The selector polynomial of a program line: for a line within the range of the
  program counter \<open>getSelector\<close> succeeds, and on an assignment that gives the bits of \<open>pc\<close> the
  binary digits of \<open>m\<close> it evaluates to 1 when \<open>m\<close> is the line and to 0 otherwise.\<close>

theorem getSelector_indicator:
  assumes "pc \<noteq> []" and "Log2ceiled programLength \<le> length pc" and "l < 2 ^ length pc" and "m < 2 ^ length pc"
    and "\<forall>j < length pc. map_find a (var_index (pc ! j)) = Some (if bit m j then 1 else 0)"
  shows "\<exists>p. getSelector programLength l pc = Inr p \<and> cp_eval (ByMap a) p = Inr (if m = l then 1 else 0)"
proof -
  obtain fs where fs: "getSelector programLength l pc = Inr (PolyPROD fs)" "fs \<noteq> []" "\<Union> (lc_vars ` set fs) \<subseteq> set pc"
    and val: "\<And>vf. (\<Prod>f\<leftarrow>fs. lc_val vf f) = sel_val (map vf pc) l" using getSelector_val [OF assms(1-3)] by metis
  have pc: "pt_defined (ByMap a) v \<and> (\<exists>j < length pc. v = pc ! j \<and> pt_val (ByMap a) v = (if bit m j then 1 else 0))" if "v \<in> set pc" for v
    using that assms(5) by (auto simp: in_set_conv_nth pt_defined_def pt_val_def Variable_eval_def)
  have "cp_eval (ByMap a) (PolyPROD fs) = Inr (cp_val (pt_val (ByMap a)) (sel_env (ByMap a)) (PolyPROD fs))"
    using fs pc by (intro cp_eval_correct) auto
  also have "cp_val (pt_val (ByMap a)) (sel_env (ByMap a)) (PolyPROD fs) = sel_val (map (pt_val (ByMap a)) pc) l" by (simp add: val)
  also have "\<dots> = (if l = m then 1 else 0)"
    using assms(3-5) by (intro sel_val_bool) (simp_all add: pt_val_def Variable_eval_def)
  finally show ?thesis using fs(1) by auto
qed

theorem getSelector_indicator_witness:
  "\<exists>p. getSelector 2 1 [\<lparr>var_index = 0, var_newIndex = -1, var_name = ''pc''\<rparr>] = Inr p \<and> cp_eval (ByMap [(0, 1)]) p = Inr (if (1::nat) = 1 then 1 else 0)"
  by (rule getSelector_indicator) (simp_all add: Log2ceiled_def floorlog_def map_find_def bit_0)

lemma generator_powers_facts:
  assumes "g_cache_ok g_2_i"
  shows "getGeneratorPower n = getGF2E_X ^ n"
    and "fst (getGenerator2toTheNthPower n g_2_i) = getGF2E_X ^ (2 ^ n)" and "g_cache_ok (snd (getGenerator2toTheNthPower n g_2_i))"
    and "k < 2 ^ Log2ceil k \<and> (0 < k \<longrightarrow> 2 ^ (Log2ceil k - 1) \<le> k)" and "IsPower2 x \<longleftrightarrow> (\<exists>e. x = 2 ^ e)"
  using g_2_i_extend_ok [OF assms, of n] floorlog_bounds [of k 2]
  by (auto simp: getGeneratorPower_eq getGenerator2toTheNthPower_def Let_def g_cache_ok_def Log2ceil_eq IsPower2_iff floorlog_def)

text \<open>\<open>getGeneratorPower\<close> is exponentiation of the generator, \<open>getGenerator2toTheNthPower\<close>
  returns \<open>x ^ (2 ^ n)\<close> whatever earlier calls left in its static vector, which it keeps
  consistent, \<open>Log2ceil\<close> is the number of binary digits and \<open>IsPower2\<close> decides powers of two.\<close>

theorem generator_powers:
  assumes "g_cache_ok g_2_i"
  shows "((getGeneratorPower n = getGF2E_X ^ n))
    \<and> ((fst (getGenerator2toTheNthPower n g_2_i) = getGF2E_X ^ (2 ^ n)))
    \<and> ((g_cache_ok (snd (getGenerator2toTheNthPower n g_2_i))))
    \<and> ((k < 2 ^ Log2ceil k \<and> (0 < k \<longrightarrow> 2 ^ (Log2ceil k - 1) \<le> k)))
    \<and> ((IsPower2 x \<longleftrightarrow> (\<exists>e. x = 2 ^ e)))"
  using generator_powers_facts [OF assms] by blast

theorem generator_powers_witness: "fst (getGenerator2toTheNthPower 3 [getGF2E_X]) = getGF2E_X ^ (2 ^ 3)"
  by (rule generator_powers [THEN conjunct2, THEN conjunct1, rule_format (no_asm)]) (simp add: g_cache_ok_def)

lemma sortMemoryInfo_strict_weak_order_facts:
  shows "\<not> sortMemoryInfo a a"
    and "sortMemoryInfo a b \<Longrightarrow> sortMemoryInfo b c \<Longrightarrow> sortMemoryInfo a c"
    and "sortMemoryInfo a b \<Longrightarrow> sortMemoryInfo a c \<or> sortMemoryInfo c b"
  by (auto simp: sortMemoryInfo_def Let_def split: if_splits)

text \<open>\<open>sortMemoryInfo\<close> meets the requirements of \<open>std::sort\<close>: it is a strict weak
  order (irreflexive, transitive, and with transitive incomparability), so sorting the memory trace
  with it is well defined.\<close>

theorem sortMemoryInfo_strict_weak_order:
  shows "((\<not> sortMemoryInfo a a))
    \<and> ((sortMemoryInfo a b) \<longrightarrow> (sortMemoryInfo b c) \<longrightarrow> (sortMemoryInfo a c))
    \<and> ((sortMemoryInfo a b) \<longrightarrow> (sortMemoryInfo a c \<or> sortMemoryInfo c b))"
  using sortMemoryInfo_strict_weak_order_facts by blast

theorem sortMemoryInfo_strict_weak_order_witness:
  "sortMemoryInfo MemoryInfo_empty (MemoryInfo_empty\<lparr>serialNumber := 2\<rparr>)"
  by (rule sortMemoryInfo_strict_weak_order [THEN conjunct2, THEN conjunct1, rule_format (no_asm), where b = "MemoryInfo_empty\<lparr>serialNumber := 1\<rparr>"])
    (simp_all add: sortMemoryInfo_def MemoryInfo_empty_def)

end
