(* ===== verification/Protoboard.thy ===== *)
theory Protoboard
  imports CommonUse
begin

text \<open>
  \<open>constraint.cpp\<close> and \<open>protoboard.cpp\<close>: named constraints, constraint systems (one general,
  one for the memory and one for each opcode), and the board that holds them together with the
  assignment, the simulated memory, the memory trace and the boundary constraints.

  \<open>val(var)\<close> is \<open>operator[]\<close> of a \<open>std::map\<close>: it yields a reference, which the model splits
  into a read and a write. A read of an unassigned variable gives a default constructed
  element, whose cells are uninitialised; its value is the field \<open>fresh\<close>, about which nothing
  is known. The entry such a read leaves in the map is not recorded: the properties are about
  gadgets whose inputs are assigned.
\<close>

section \<open>Constraints\<close>

datatype PrintOptions = DBG_PRINT_IF_NOT_SATISFIED | DBG_PRINT_IF_TRUE | DBG_PRINT_IF_FALSE | NO_DBG_PRINT

record Constraint =
  constraint_poly :: CircuitPolynomial
  constraint_name :: string

type_synonym ConstraintSystem = "Constraint list"

text \<open>
  \<open>Constraint::isSatisfied\<close> prints and returns true in any case; printing looks up every used
  variable with \<open>at\<close>.
\<close>

definition Constraint_isSatisfied :: "VariableAssignment \<Rightarrow> PrintOptions \<Rightarrow> Constraint \<Rightarrow> bool result" where
  "Constraint_isSatisfied assignment printOnFail c = res_bind (cp_isSatisfied assignment (constraint_poly c)) (\<lambda>aEval.
     if \<not> aEval \<and> printOnFail = DBG_PRINT_IF_NOT_SATISFIED
       \<and> list_ex (\<lambda>v. map_find assignment (var_index v) = None) (map snd (cp_getUsedVariables (constraint_poly c)))
     then Inl OutOfRange else Inr True)"

definition addConstraint :: "CircuitPolynomial \<Rightarrow> string \<Rightarrow> ConstraintSystem \<Rightarrow> ConstraintSystem" where
  "addConstraint c nm cs = cs @ [\<lparr>constraint_poly = c, constraint_name = nm\<rparr>]"

fun cs_isSatisfied :: "VariableAssignment \<Rightarrow> ConstraintSystem \<Rightarrow> bool result" where
  "cs_isSatisfied assignment [] = Inr True"
| "cs_isSatisfied assignment (c # cs) = res_bind (cp_isSatisfied assignment (constraint_poly c)) (\<lambda>s.
     if \<not> s then Inr False else cs_isSatisfied assignment cs)"

definition cs_getUsedVariables :: "ConstraintSystem \<Rightarrow> varSet" where
  "cs_getUsedVariables cs = insert_sets (map (\<lambda>c. cp_getUsedVariables (constraint_poly c)) cs)"

definition cs_setNewIndices :: "index_map \<Rightarrow> ConstraintSystem \<Rightarrow> ConstraintSystem result" where
  "cs_setNewIndices old2New cs = res_list (map (\<lambda>c. res_map (\<lambda>p. c\<lparr>constraint_poly := p\<rparr>)
     (cp_setNewIndices old2New (constraint_poly c))) cs)"

section \<open>Opcodes\<close>

datatype Opcode = Op_MEMORY | Op_NONE | Op_AND | Op_OR | Op_XOR | Op_NOT | Op_ADD | Op_SUB | Op_MULL | Op_UMULH | Op_SMULH
  | Op_UDIV | Op_UMOD | Op_SHL | Op_SHR | Op_SHAR | Op_CMPE | Op_CMPA | Op_CMPAE | Op_CMPG | Op_CMPGE | Op_MOV | Op_CMOV
  | Op_JMP | Op_CJMP | Op_CNJMP | Op_RESERVED_OPCODE_24 | Op_RESERVED_OPCODE_25 | Op_STOREB | Op_LOADB | Op_STOREW | Op_LOADW
  | Op_READ | Op_ANSWER | Op_NUM_OPCODES

definition opcode_value :: "Opcode \<Rightarrow> int" where
  "opcode_value op = (case op of Op_MEMORY \<Rightarrow> -2 | Op_NONE \<Rightarrow> -1 | Op_AND \<Rightarrow> 0 | Op_OR \<Rightarrow> 1 | Op_XOR \<Rightarrow> 2 | Op_NOT \<Rightarrow> 3 | Op_ADD \<Rightarrow> 4
     | Op_SUB \<Rightarrow> 5 | Op_MULL \<Rightarrow> 6 | Op_UMULH \<Rightarrow> 7 | Op_SMULH \<Rightarrow> 8 | Op_UDIV \<Rightarrow> 9 | Op_UMOD \<Rightarrow> 10 | Op_SHL \<Rightarrow> 11 | Op_SHR \<Rightarrow> 12
     | Op_SHAR \<Rightarrow> 13 | Op_CMPE \<Rightarrow> 14 | Op_CMPA \<Rightarrow> 15 | Op_CMPAE \<Rightarrow> 16 | Op_CMPG \<Rightarrow> 17 | Op_CMPGE \<Rightarrow> 18 | Op_MOV \<Rightarrow> 19 | Op_CMOV \<Rightarrow> 20
     | Op_JMP \<Rightarrow> 21 | Op_CJMP \<Rightarrow> 22 | Op_CNJMP \<Rightarrow> 23 | Op_RESERVED_OPCODE_24 \<Rightarrow> 24 | Op_RESERVED_OPCODE_25 \<Rightarrow> 25 | Op_STOREB \<Rightarrow> 26
     | Op_LOADB \<Rightarrow> 27 | Op_STOREW \<Rightarrow> 28 | Op_LOADW \<Rightarrow> 29 | Op_READ \<Rightarrow> 30 | Op_ANSWER \<Rightarrow> 31 | Op_NUM_OPCODES \<Rightarrow> 32)"

section \<open>The board\<close>

record Protoboard =
  memoryConstraintSystem :: ConstraintSystem
  generalConstraintSystem :: ConstraintSystem
  opcodeConstraintSystem :: "ConstraintSystem list"
  assignment :: VariableAssignment
  fresh :: FElem
  numConstratins :: nat
  old2newID :: index_map
  translation :: "Variable list"
  degreeTranslation :: "(FElem, nat) std_map"
  memoryTrace :: "MemoryInfo list"
  memory :: "(FElem, FElem) std_map"
  boundaryVariables :: "Variable list"
  boundaryAssignments :: "FElem list"
  boundaryTimestamps :: "nat list"

definition Protoboard_create :: "FElem \<Rightarrow> Protoboard" where
  "Protoboard_create junk = \<lparr>memoryConstraintSystem = [], generalConstraintSystem = [], opcodeConstraintSystem = replicate 33 [],
     assignment = [], fresh = junk, numConstratins = 0, old2newID = [], translation = [], degreeTranslation = [],
     memoryTrace = [], memory = [], boundaryVariables = [], boundaryAssignments = [], boundaryTimestamps = []\<rparr>"

definition numConstraints :: "Protoboard \<Rightarrow> nat" where
  "numConstraints pb = numConstratins pb"

definition pb_getUsedVariables :: "Protoboard \<Rightarrow> varSet" where
  "pb_getUsedVariables pb = fold (\<lambda>cs. set_insert_all (map snd (cs_getUsedVariables cs))) (opcodeConstraintSystem pb)
     (cs_getUsedVariables (generalConstraintSystem pb))"

definition val :: "Protoboard \<Rightarrow> Variable \<Rightarrow> FElem" where
  "val pb v = (case map_find (assignment pb) (var_index v) of None \<Rightarrow> fresh pb | Some x \<Rightarrow> x)"

definition set_val :: "Variable \<Rightarrow> FElem \<Rightarrow> Protoboard \<Rightarrow> Protoboard" where
  "set_val v x pb = pb\<lparr>assignment := map_put (var_index v) x (assignment pb)\<rparr>"

definition val_at :: "Protoboard \<Rightarrow> Variable \<Rightarrow> FElem result" where
  "val_at pb v = (case map_find (assignment pb) (var_index v) of None \<Rightarrow> Inl OutOfRange | Some x \<Rightarrow> Inr x)"

definition val_lc :: "Protoboard \<Rightarrow> LinearCombination \<Rightarrow> FElem result" where
  "val_lc pb l = lc_eval (ByMap (assignment pb)) l"

definition flagIsSet :: "Protoboard \<Rightarrow> Variable \<Rightarrow> bool result" where
  "flagIsSet pb flag = res_map (\<lambda>x. x = 1) (val_at pb flag)"

definition addMemoryConstraint :: "CircuitPolynomial \<Rightarrow> string \<Rightarrow> Protoboard \<Rightarrow> Protoboard" where
  "addMemoryConstraint a nm pb = pb\<lparr>memoryConstraintSystem := addConstraint a nm (memoryConstraintSystem pb)\<rparr>"

definition addGeneralConstraint :: "CircuitPolynomial \<Rightarrow> string \<Rightarrow> Opcode \<Rightarrow> Protoboard \<Rightarrow> Protoboard" where
  "addGeneralConstraint a nm opcode pb = (if opcode = Op_MEMORY then addMemoryConstraint a nm pb
     else if opcode = Op_NONE then pb\<lparr>generalConstraintSystem := addConstraint a nm (generalConstraintSystem pb)\<rparr>
     else let i = nat (opcode_value opcode) in
       pb\<lparr>opcodeConstraintSystem := (opcodeConstraintSystem pb)[i := addConstraint a nm (opcodeConstraintSystem pb ! i)]\<rparr>)"

definition pb_constraintSystem :: "Opcode \<Rightarrow> Protoboard \<Rightarrow> ConstraintSystem" where
  "pb_constraintSystem opcode pb = (if opcode = Op_NONE then generalConstraintSystem pb
     else if opcode = Op_MEMORY then memoryConstraintSystem pb
     else opcodeConstraintSystem pb ! nat (opcode_value opcode))"

definition pb_isSatisfied :: "Opcode \<Rightarrow> Protoboard \<Rightarrow> bool result" where
  "pb_isSatisfied opcode pb = (if opcode = Op_NONE then cs_isSatisfied (assignment pb) (generalConstraintSystem pb)
     else if opcode = Op_MEMORY then cs_isSatisfied (assignment pb) (memoryConstraintSystem pb)
     else cs_isSatisfied (assignment pb) (opcodeConstraintSystem pb ! nat (opcode_value opcode)))"

definition booleanity :: "Variable \<Rightarrow> CircuitPolynomial" where
  "booleanity v = PolyPROD [lc_plus (lc_var v) (lc_const 1), lc_var v]"

definition enforceBooleanity :: "Variable \<Rightarrow> Opcode \<Rightarrow> Protoboard \<Rightarrow> Protoboard" where
  "enforceBooleanity v opcode pb = addGeneralConstraint (booleanity v) (var_name v @ ''* ( 1 + '' @ var_name v @ '')'') opcode pb"

definition multiplyConstraintSystem :: "Opcode \<Rightarrow> CircuitPolynomial \<Rightarrow> Protoboard \<Rightarrow> Protoboard" where
  "multiplyConstraintSystem opcode mul pb = fold (\<lambda>c. addGeneralConstraint (cp_times mul (constraint_poly c))
     (constraint_name c @ ''* selectorProgram'') Op_NONE) (pb_constraintSystem opcode pb) pb"

definition clearConstraintSystem :: "Opcode \<Rightarrow> Protoboard \<Rightarrow> Protoboard" where
  "clearConstraintSystem opcode pb = (if opcode = Op_NONE then pb\<lparr>generalConstraintSystem := []\<rparr>
     else if opcode = Op_MEMORY then pb\<lparr>memoryConstraintSystem := []\<rparr>
     else pb\<lparr>opcodeConstraintSystem := (opcodeConstraintSystem pb)[nat (opcode_value opcode) := []]\<rparr>)"

text \<open>One step of the numbering loop: \<open>v\<close> is the variable at position \<open>i\<close>.\<close>

definition translation_step :: "nat \<Rightarrow> Variable list \<times> index_map \<Rightarrow> Variable list \<times> index_map" where
  "translation_step i st = (case st of (tr, ids) \<Rightarrow>
     if 0 < i \<and> var_index (tr ! (i - 1)) = var_index (tr ! i)
     then (tr[i := (tr ! i)\<lparr>var_newIndex := var_newIndex (tr ! (i - 1))\<rparr>], ids)
     else (tr[i := (tr ! i)\<lparr>var_newIndex := int i\<rparr>], map_put (var_index (tr ! i)) (int i) ids))"

definition setNewIndicesForTranslation :: "Variable list \<Rightarrow> Protoboard \<Rightarrow> Protoboard result" where
  "setNewIndicesForTranslation translationVector pb =
    (case fold translation_step [0..<length translationVector] (translationVector, old2newID pb) of (tr, ids) \<Rightarrow>
       res_bind (cs_setNewIndices ids (generalConstraintSystem pb)) (\<lambda>cs.
       res_bind (cs_setNewIndices ids (memoryConstraintSystem pb)) (\<lambda>ms.
       Inr (pb\<lparr>translation := tr, old2newID := ids, generalConstraintSystem := cs, memoryConstraintSystem := ms\<rparr>))))"

text \<open>\<open>std::map::insert\<close> keeps an existing entry.\<close>

definition addDegreeTranslation :: "FElem \<Rightarrow> nat \<Rightarrow> Protoboard \<Rightarrow> Protoboard" where
  "addDegreeTranslation elem d pb = (case map_find (degreeTranslation pb) elem of
     None \<Rightarrow> pb\<lparr>degreeTranslation := map_put elem d (degreeTranslation pb)\<rparr> | Some _ \<Rightarrow> pb)"

definition getDegreeOfFElem :: "FElem \<Rightarrow> Protoboard \<Rightarrow> nat result" where
  "getDegreeOfFElem elem pb = (case map_find (degreeTranslation pb) elem of None \<Rightarrow> Inl OutOfRange | Some d \<Rightarrow> Inr d)"

definition addMemoryInfo :: "MemoryInfo \<Rightarrow> Protoboard \<Rightarrow> Protoboard" where
  "addMemoryInfo mi pb = pb\<lparr>memoryTrace := memoryTrace pb @ [mi]\<rparr>"

definition storeValue :: "FElem \<Rightarrow> FElem \<Rightarrow> Protoboard \<Rightarrow> Protoboard" where
  "storeValue address v pb = pb\<lparr>memory := map_put address v (memory pb)\<rparr>"

definition loadValue :: "FElem \<Rightarrow> Protoboard \<Rightarrow> FElem result" where
  "loadValue address pb = (case map_find (memory pb) address of None \<Rightarrow> Inl AssertFailed | Some v \<Rightarrow> Inr v)"

definition clearAssignment :: "Protoboard \<Rightarrow> Protoboard" where
  "clearAssignment pb = pb\<lparr>assignment := []\<rparr>"

definition addBoundaryConstraint :: "Variable \<Rightarrow> nat \<Rightarrow> FElem \<Rightarrow> Protoboard \<Rightarrow> Protoboard" where
  "addBoundaryConstraint v timeStamp x pb = pb\<lparr>boundaryVariables := boundaryVariables pb @ [v],
     boundaryTimestamps := boundaryTimestamps pb @ [timeStamp], boundaryAssignments := boundaryAssignments pb @ [x]\<rparr>"

text \<open>A list of named constraints, added in order.\<close>

definition add_constraints :: "Opcode \<Rightarrow> (CircuitPolynomial \<times> string) list \<Rightarrow> Protoboard \<Rightarrow> Protoboard" where
  "add_constraints opcode cs pb = fold (\<lambda>(p, nm). addGeneralConstraint p nm opcode) cs pb"

section \<open>The invariant of the board\<close>

definition pb_inv :: "Protoboard \<Rightarrow> bool" where
  "pb_inv pb \<longleftrightarrow> map_inv (assignment pb) \<and> map_inv (memory pb) \<and> map_inv (degreeTranslation pb) \<and> map_inv (old2newID pb)
     \<and> length (opcodeConstraintSystem pb) = 33
     \<and> length (boundaryVariables pb) = length (boundaryAssignments pb) \<and> length (boundaryTimestamps pb) = length (boundaryAssignments pb)"

definition assigned :: "Protoboard \<Rightarrow> Variable \<Rightarrow> bool" where
  "assigned pb v \<longleftrightarrow> map_find (assignment pb) (var_index v) \<noteq> None"

lemma opcode_value_range: "opcode \<noteq> Op_MEMORY \<Longrightarrow> opcode \<noteq> Op_NONE \<Longrightarrow> 0 \<le> opcode_value opcode \<and> opcode_value opcode < 33"
  by (cases opcode) (simp_all add: opcode_value_def)

lemma opcode_value_inject: "opcode_value a = opcode_value b \<longleftrightarrow> a = b"
  by (cases a; cases b; simp add: opcode_value_def)

lemma pb_inv_set_val [simp]: "pb_inv pb \<Longrightarrow> pb_inv (set_val v x pb)"
  by (simp add: pb_inv_def set_val_def map_inv_put)

lemma val_set_val [simp]: "pb_inv pb \<Longrightarrow> val (set_val v x pb) u = (if var_index u = var_index v then x else val pb u)"
  by (simp add: val_def set_val_def pb_inv_def map_find_put split: option.split)

lemma assigned_set_val [simp]: "pb_inv pb \<Longrightarrow> assigned (set_val v x pb) u \<longleftrightarrow> var_index u = var_index v \<or> assigned pb u"
  by (simp add: assigned_def set_val_def pb_inv_def map_find_put)

lemma addGeneralConstraint_inv [simp]: "pb_inv pb \<Longrightarrow> pb_inv (addGeneralConstraint p nm opcode pb)"
  by (simp add: pb_inv_def addGeneralConstraint_def addMemoryConstraint_def Let_def)

lemma addGeneralConstraint_assignment [simp]:
  "assignment (addGeneralConstraint p nm opcode pb) = assignment pb" "fresh (addGeneralConstraint p nm opcode pb) = fresh pb"
  by (simp_all add: addGeneralConstraint_def addMemoryConstraint_def Let_def)

lemma addGeneralConstraint_system:
  "pb_inv pb \<Longrightarrow> pb_constraintSystem op (addGeneralConstraint p nm opcode pb) =
    (if op = opcode then addConstraint p nm (pb_constraintSystem op pb) else pb_constraintSystem op pb)"
  using opcode_value_range [of op] opcode_value_range [of opcode] opcode_value_inject [of op opcode]
  by (auto simp: pb_inv_def addGeneralConstraint_def addMemoryConstraint_def pb_constraintSystem_def Let_def nth_list_update nat_eq_iff)

lemma add_constraints_facts:
  assumes "pb_inv pb"
  shows "pb_inv (add_constraints opcode cs pb)" "assignment (add_constraints opcode cs pb) = assignment pb"
    "pb_constraintSystem op (add_constraints opcode cs pb) = pb_constraintSystem op pb @
      (if op = opcode then map (\<lambda>(p, nm). \<lparr>constraint_poly = p, constraint_name = nm\<rparr>) cs else [])"
proof -
  have "pb_inv (add_constraints opcode cs pb) \<and> assignment (add_constraints opcode cs pb) = assignment pb \<and>
    pb_constraintSystem op (add_constraints opcode cs pb) = pb_constraintSystem op pb @
      (if op = opcode then map (\<lambda>(p, nm). \<lparr>constraint_poly = p, constraint_name = nm\<rparr>) cs else [])"
    using assms unfolding add_constraints_def
  proof (induction cs arbitrary: pb)
    case (Cons c cs)
    obtain p nm where c: "c = (p, nm)" by fastforce
    have "pb_inv (addGeneralConstraint p nm opcode pb)" using Cons.prems by simp
    from Cons.IH [OF this] show ?case
      by (simp add: c addGeneralConstraint_system [OF Cons.prems] addConstraint_def)
  qed simp
  then show "pb_inv (add_constraints opcode cs pb)" "assignment (add_constraints opcode cs pb) = assignment pb"
    "pb_constraintSystem op (add_constraints opcode cs pb) = pb_constraintSystem op pb @
      (if op = opcode then map (\<lambda>(p, nm). \<lparr>constraint_poly = p, constraint_name = nm\<rparr>) cs else [])" by blast+
qed

section \<open>Satisfaction\<close>

lemma cs_isSatisfied_True: "cs_isSatisfied a cs = Inr True \<longleftrightarrow> (\<forall>c \<in> set cs. cp_isSatisfied a (constraint_poly c) = Inr True)"
  by (induction cs) (auto simp: res_bind_eq_Inr)

lemma pb_isSatisfied_alt: "pb_isSatisfied opcode pb = cs_isSatisfied (assignment pb) (pb_constraintSystem opcode pb)"
  by (simp add: pb_isSatisfied_def pb_constraintSystem_def)

definition holds :: "Protoboard \<Rightarrow> CircuitPolynomial \<Rightarrow> bool" where
  "holds pb p \<longleftrightarrow> cp_isSatisfied (assignment pb) p = Inr True"

lemma pb_isSatisfied_iff: "pb_isSatisfied opcode pb = Inr True \<longleftrightarrow> (\<forall>c \<in> set (pb_constraintSystem opcode pb). holds pb (constraint_poly c))"
  by (simp add: pb_isSatisfied_alt cs_isSatisfied_True holds_def)

lemma add_constraints_isSatisfied:
  assumes "pb_inv pb"
  shows "pb_isSatisfied opcode (add_constraints opcode cs pb) = Inr True \<longleftrightarrow>
    pb_isSatisfied opcode pb = Inr True \<and> (\<forall>(p, nm) \<in> set cs. holds pb p)"
  unfolding pb_isSatisfied_iff add_constraints_facts [OF assms] by (force simp: holds_def add_constraints_facts [OF assms])

text \<open>Polynomials without selector sums, as the gadgets build them.\<close>

definition plain :: "CircuitPolynomial \<Rightarrow> bool" where
  "plain p \<longleftrightarrow> cp_ok p \<and> cp_sels p = {}"

definition pv :: "Protoboard \<Rightarrow> CircuitPolynomial \<Rightarrow> FElem" where
  "pv pb p = cp_val (val pb) (\<lambda>_. 0) p"

definition lv :: "Protoboard \<Rightarrow> LinearCombination \<Rightarrow> FElem" where
  "lv pb l = lc_val (val pb) l"

lemma assigned_point: "assigned pb v \<longleftrightarrow> pt_defined (ByMap (assignment pb)) v"
  "assigned pb v \<Longrightarrow> pt_val (ByMap (assignment pb)) v = val pb v"
  by (auto simp: assigned_def pt_defined_def pt_val_def val_def Variable_eval_def split: option.splits)

lemma cp_eval_defined:
  "cp_eval pt p = Inr x \<Longrightarrow> cp_sels p = {} \<Longrightarrow> cp_ok p \<Longrightarrow> v \<in> cp_vars p \<Longrightarrow> pt_defined pt v"
proof (induction p arbitrary: x rule: poly_induct)
  case (Add input)
  then show ?case by (auto simp: res_bind_eq_Inr list_all_iff dest: res_list_map_ex)
next
  case (Mul input)
  then show ?case by (auto simp: res_bind_eq_Inr list_all_iff dest: res_list_map_ex)
next
  case (Prod factors)
  then show ?case by (auto simp: res_map_eq_Inr dest!: res_list_map_ex lc_eval_inv)
next
  case (Sel S)
  then show ?case by (simp add: SelectorSum_ok_def)
qed

lemma holds_iff:
  assumes "plain p"
  shows "holds pb p \<longleftrightarrow> (\<forall>v \<in> cp_vars p. assigned pb v) \<and> pv pb p = 0"
proof -
  let ?pt = "ByMap (assignment pb)"
  have ev: "cp_eval ?pt p = Inr (pv pb p)" if "\<forall>v \<in> cp_vars p. assigned pb v"
  proof -
    have "cp_eval ?pt p = Inr (cp_val (pt_val ?pt) (sel_env ?pt) p)"
      using assms that by (intro cp_eval_correct) (auto simp: plain_def assigned_point(1))
    also have "cp_val (pt_val ?pt) (sel_env ?pt) p = pv pb p" unfolding pv_def
      using assms that by (intro cp_val_cong) (auto simp: plain_def assigned_point(2))
    finally show ?thesis .
  qed
  show ?thesis
  proof
    assume h: "holds pb p"
    then have "\<exists>x. cp_eval ?pt p = Inr x" by (auto simp: holds_def cp_isSatisfied_def res_map_eq_Inr)
    then have "\<forall>v \<in> cp_vars p. assigned pb v" using cp_eval_defined assms by (auto simp: plain_def assigned_point(1))
    with ev h show "(\<forall>v \<in> cp_vars p. assigned pb v) \<and> pv pb p = 0" by (simp add: holds_def cp_isSatisfied_def)
  next
    assume "(\<forall>v \<in> cp_vars p. assigned pb v) \<and> pv pb p = 0"
    with ev show "holds pb p" by (simp add: holds_def cp_isSatisfied_def)
  qed
qed

lemma pv_simps [poly_eval]:
  "pv pb (cp_plus p q) = pv pb p + pv pb q" "pv pb (cp_times p q) = pv pb p * pv pb q"
  "pv pb (cp_const c) = c" "pv pb (cp_var v) = val pb v" "pv pb (cp_lc l) = lv pb l"
  "pv pb (cp_term t) = lt_coeff t * val pb (lt_variable t)" "pv pb (PolyPROD fs) = (\<Prod>l\<leftarrow>fs. lv pb l)"
  by (simp_all add: pv_def lv_def cp_val_plus cp_val_times cp_val_simps)

lemma lv_simps [poly_eval]:
  "lv pb (lc_plus l m) = lv pb l + lv pb m" "lv pb (lc_times l c) = lv pb l * c" "lv pb (lc_const c) = c"
  "lv pb (lc_var v) = val pb v" "lv pb (lc_term t) = lt_coeff t * val pb (lt_variable t)"
  by (simp_all add: lv_def lc_val_plus lc_val_times lc_val_const lc_val_var lc_val_term)

lemma plain_simps [simp]:
  "plain (cp_const c)" "plain (cp_var v)" "plain (cp_lc l)" "plain (cp_term t)" "plain (PolyPROD fs) \<longleftrightarrow> fs \<noteq> []"
  "plain p \<Longrightarrow> plain q \<Longrightarrow> plain (cp_plus p q)" "plain p \<Longrightarrow> plain q \<Longrightarrow> plain (cp_times p q)"
  using cp_sels_plus [of p q] cp_sels_times [of p q]
  by (simp_all add: plain_def cp_ok_plus cp_ok_times cp_const_def cp_var_def cp_lc_def cp_term_def)

lemma plain_booleanity [simp]: "plain (booleanity v)"
  by (simp add: booleanity_def)

lemma pv_booleanity: "pv pb (booleanity v) = 0 \<longleftrightarrow> val pb v = 0 \<or> val pb v = 1"
  by (auto simp: booleanity_def pv_simps lv_simps fe_add_eq_0)

end
