(* ===== verification/BoardLaws.thy ===== *)
theory BoardLaws
  imports Protoboard
begin

text \<open>
  The properties of the board: every operation keeps its invariant, constraints are added and
  gated by selectors as intended, the simulated memory is a partial map, and the translation
  for the reduction renames the constraints consistently with the vector of values.
\<close>

section \<open>The invariant\<close>

lemma translation_step_inv: "map_inv (snd st) \<Longrightarrow> map_inv (snd (translation_step i st))"
  by (cases st) (simp add: translation_step_def map_inv_put)

lemma translation_fold_inv: "map_inv (snd st) \<Longrightarrow> map_inv (snd (fold translation_step is st))"
  by (induction "is" arbitrary: st) (simp_all add: translation_step_inv)

lemma multiply_as_add: "multiplyConstraintSystem opcode mul pb = add_constraints Op_NONE
    (map (\<lambda>c. (cp_times mul (constraint_poly c), constraint_name c @ ''* selectorProgram'')) (pb_constraintSystem opcode pb)) pb"
  by (simp add: multiplyConstraintSystem_def add_constraints_def fold_map o_def)

lemma board_operations_keep_invariant_facts:
  assumes "pb_inv pb"
  shows "pb_inv (set_val v x pb)" and "pb_inv (addGeneralConstraint p nm opcode pb)" and "pb_inv (addMemoryConstraint p nm pb)"
    and "pb_inv (enforceBooleanity v opcode pb)" and "pb_inv (multiplyConstraintSystem opcode mul pb)"
    and "pb_inv (clearConstraintSystem opcode pb)" and "setNewIndicesForTranslation tr pb = Inr pb' \<Longrightarrow> pb_inv pb'"
    and "pb_inv (addDegreeTranslation e d pb)" and "pb_inv (addMemoryInfo mi pb)" and "pb_inv (storeValue a x pb)"
    and "pb_inv (clearAssignment pb)" and "pb_inv (addBoundaryConstraint v t x pb)" and "pb_inv (Protoboard_create junk)"
proof -
  show "pb_inv (multiplyConstraintSystem opcode mul pb)" unfolding multiply_as_add by (rule add_constraints_facts [OF assms])
  show "pb_inv pb'" if "setNewIndicesForTranslation tr pb = Inr pb'"
    using that assms translation_fold_inv [of "(tr, old2newID pb)" "[0..<length tr]"]
    by (auto simp: setNewIndicesForTranslation_def pb_inv_def res_bind_eq_Inr split: prod.splits)
  show "pb_inv (addMemoryConstraint p nm pb)" "pb_inv (clearConstraintSystem opcode pb)" "pb_inv (addDegreeTranslation e d pb)"
    "pb_inv (addMemoryInfo mi pb)" "pb_inv (storeValue a x pb)" "pb_inv (clearAssignment pb)" "pb_inv (addBoundaryConstraint v t x pb)"
    "pb_inv (Protoboard_create junk)"
    using assms by (auto simp: pb_inv_def addMemoryConstraint_def clearConstraintSystem_def addDegreeTranslation_def addMemoryInfo_def
        storeValue_def clearAssignment_def addBoundaryConstraint_def Protoboard_create_def map_inv_put split: option.split)
  show "pb_inv (set_val v x pb)" "pb_inv (addGeneralConstraint p nm opcode pb)" "pb_inv (enforceBooleanity v opcode pb)"
    using assms by (simp_all add: enforceBooleanity_def)
qed



section \<open>Constraints and selectors\<close>

text \<open>Property C20. \<open>multiplyConstraintSystem\<close> gates the constraints of an opcode by a selector: when the
  variables involved are assigned, the general system afterwards is satisfied exactly when it was
  before and either the selector vanishes or all constraints of the opcode hold.\<close>

theorem multiply_gates_constraints:
  assumes "pb_inv pb" and "plain mul" and "\<forall>v \<in> cp_vars mul. assigned pb v"
    and "\<forall>c \<in> set (pb_constraintSystem opcode pb). plain (constraint_poly c) \<and> (\<forall>v \<in> cp_vars (constraint_poly c). assigned pb v)"
  shows "pb_isSatisfied Op_NONE (multiplyConstraintSystem opcode mul pb) = Inr True \<longleftrightarrow>
    pb_isSatisfied Op_NONE pb = Inr True \<and> (pv pb mul = 0 \<or> (\<forall>c \<in> set (pb_constraintSystem opcode pb). holds pb (constraint_poly c)))"
proof -
  have "holds pb (cp_times mul (constraint_poly c)) \<longleftrightarrow> pv pb mul = 0 \<or> holds pb (constraint_poly c)"
    if "c \<in> set (pb_constraintSystem opcode pb)" for c
  proof -
    have "\<forall>v \<in> cp_vars (cp_times mul (constraint_poly c)). assigned pb v"
      using cp_vars_times [of mul "constraint_poly c"] assms(3,4) that by blast
    then show ?thesis using assms(2-4) that by (simp add: holds_iff pv_simps)
  qed
  then show ?thesis unfolding multiply_as_add add_constraints_isSatisfied [OF assms(1)] by auto
qed

theorem multiply_gates_constraints_witness:
  "pb_isSatisfied Op_NONE (multiplyConstraintSystem Op_ADD (cp_const 0) (addGeneralConstraint (cp_const 1) ''c'' Op_ADD (Protoboard_create 0))) = Inr True"
proof -
  let ?pb = "addGeneralConstraint (cp_const 1) ''c'' Op_ADD (Protoboard_create 0)"
  have inv: "pb_inv (Protoboard_create 0)" by (simp add: pb_inv_def Protoboard_create_def)
  have sys: "pb_constraintSystem Op_ADD ?pb = [\<lparr>constraint_poly = cp_const 1, constraint_name = ''c''\<rparr>]"
    and none: "pb_constraintSystem Op_NONE ?pb = []"
    unfolding addGeneralConstraint_system [OF inv]
    by (simp_all add: addConstraint_def pb_constraintSystem_def Protoboard_create_def opcode_value_def)
  have "pb_isSatisfied Op_NONE (multiplyConstraintSystem Op_ADD (cp_const 0) ?pb) = Inr True \<longleftrightarrow>
    pb_isSatisfied Op_NONE ?pb = Inr True \<and> (pv ?pb (cp_const 0) = 0 \<or> (\<forall>c \<in> set (pb_constraintSystem Op_ADD ?pb). holds ?pb (constraint_poly c)))"
    by (rule multiply_gates_constraints) (use inv in \<open>simp_all add: sys, simp_all add: cp_const_def\<close>)
  then show ?thesis by (simp add: pv_simps pb_isSatisfied_iff none)
qed

section \<open>Memory\<close>

lemma memory_refines_map_facts:
  assumes "pb_inv pb"
  defines "mem \<equiv> \<lambda>pb. map_find (memory pb)"
  shows "mem (storeValue a x pb) = (mem pb)(a \<mapsto> x)"
    and "loadValue a pb = (case mem pb a of None \<Rightarrow> Inl AssertFailed | Some y \<Rightarrow> Inr y)"
    and "loadValue a (storeValue a x pb) = Inr x" and "b \<noteq> a \<Longrightarrow> loadValue b (storeValue a x pb) = loadValue b pb"
    and "mem (set_val v x pb) = mem pb" and "mem (addGeneralConstraint p nm opcode pb) = mem pb"
  using assms by (auto simp: pb_inv_def storeValue_def loadValue_def map_find_put set_val_def addGeneralConstraint_def
      addMemoryConstraint_def Let_def)



section \<open>Translation\<close>

lemma translation_fold_distinct:
  assumes "distinct (map var_index tv)" "map_inv ids" "k \<le> length tv"
  shows "fst (fold translation_step [0..<k] (tv, ids)) = map2 (\<lambda>i v. v\<lparr>var_newIndex := int i\<rparr>) [0..<k] (take k tv) @ drop k tv
    \<and> (\<forall>j < k. map_find (snd (fold translation_step [0..<k] (tv, ids))) (var_index (tv ! j)) = Some (int j))"
  using assms(3)
proof (induction k)
  case (Suc k)
  obtain tr ids' where st: "fold translation_step [0..<k] (tv, ids) = (tr, ids')" by fastforce
  have inv: "map_inv ids'" using translation_fold_inv [of "(tv, ids)" "[0..<k]"] assms(2) by (simp add: st)
  have tr: "tr = map2 (\<lambda>i v. v\<lparr>var_newIndex := int i\<rparr>) [0..<k] (take k tv) @ drop k tv"
    and ids': "\<forall>j < k. map_find ids' (var_index (tv ! j)) = Some (int j)" using Suc by (simp_all add: st)
  have k: "tr ! k = tv ! k" "k < length tr" using Suc.prems by (simp_all add: tr nth_append)
  have ne: "var_index (tv ! j) \<noteq> var_index (tv ! k)" if "j < k" for j
    using assms(1) that Suc.prems by (auto simp: distinct_conv_nth)
  have prev: "0 < k \<Longrightarrow> var_index (tr ! (k - 1)) \<noteq> var_index (tr ! k)"
    using ne [of "k - 1"] Suc.prems k(1) by (simp add: tr nth_append)
  have step: "translation_step k (tr, ids') = (tr[k := (tv ! k)\<lparr>var_newIndex := int k\<rparr>], map_put (var_index (tv ! k)) (int k) ids')"
    using prev k by (auto simp: translation_step_def)
  have "tr[k := (tv ! k)\<lparr>var_newIndex := int k\<rparr>] = map2 (\<lambda>i v. v\<lparr>var_newIndex := int i\<rparr>) [0..<Suc k] (take (Suc k) tv) @ drop (Suc k) tv"
    using Suc.prems by (simp add: tr list_update_append take_Suc_conv_app_nth Cons_nth_drop_Suc [symmetric])
  moreover have "\<forall>j < Suc k. map_find (map_put (var_index (tv ! k)) (int k) ids') (var_index (tv ! j)) = Some (int j)"
    using ids' ne inv by (auto simp: map_find_put less_Suc_eq)
  ultimately show ?case by (simp add: st step)
qed simp

lemma translation_preserves_constraints_facts:
  assumes inv: "pb_inv pb" and tr: "setNewIndicesForTranslation tv pb = Inr pb'" and dist: "distinct (map var_index tv)"
    and op: "opcode = Op_NONE \<or> opcode = Op_MEMORY" and k: "k < length (pb_constraintSystem opcode pb)"
    and ok: "cp_ok (constraint_poly (pb_constraintSystem opcode pb ! k))" "cp_unrenamed (constraint_poly (pb_constraintSystem opcode pb ! k))"
    and used: "varset_keys (cp_getUsedVariables (constraint_poly (pb_constraintSystem opcode pb ! k))) \<subseteq> var_index ` set tv"
    and asg: "\<forall>v \<in> set tv. assigned pb v" and small: "\<forall>i \<in> fst ` set (assignment pb). 0 \<le> i \<and> i < int (2 * length (assignment pb))"
  shows "k < length (pb_constraintSystem opcode pb')" and "cp_eval (ByVec (map (val pb) tv)) (constraint_poly (pb_constraintSystem opcode pb' ! k))
    = cp_eval (ByMap (assignment pb)) (constraint_poly (pb_constraintSystem opcode pb ! k))"
proof -
  obtain t ids where st: "fold translation_step [0..<length tv] (tv, old2newID pb) = (t, ids)" by fastforce
  have minv: "map_inv (assignment pb)" "map_inv (old2newID pb)" using inv by (simp_all add: pb_inv_def)
  have ids: "\<forall>j < length tv. map_find ids (var_index (tv ! j)) = Some (int j)"
    using translation_fold_distinct [OF dist minv(2) order.refl] by (simp add: st)
  have "cs_setNewIndices ids (pb_constraintSystem opcode pb) = Inr (pb_constraintSystem opcode pb')"
    using tr op by (auto simp: setNewIndicesForTranslation_def st res_bind_eq_Inr pb_constraintSystem_def)
  note nth = res_list_map_inv_nth [OF this [unfolded cs_setNewIndices_def]]
  have len: "length (pb_constraintSystem opcode pb') = length (pb_constraintSystem opcode pb)" using nth by blast
  have "res_map (\<lambda>p. (pb_constraintSystem opcode pb ! k)\<lparr>constraint_poly := p\<rparr>)
      (cp_setNewIndices ids (constraint_poly (pb_constraintSystem opcode pb ! k))) = Inr (pb_constraintSystem opcode pb' ! k)"
    using nth k by blast
  then obtain q where q: "cp_setNewIndices ids (constraint_poly (pb_constraintSystem opcode pb ! k)) = Inr q"
    "(pb_constraintSystem opcode pb ! k)\<lparr>constraint_poly := q\<rparr> = pb_constraintSystem opcode pb' ! k"
    unfolding res_map_eq_Inr by blast
  have ren: "cp_setNewIndices ids (constraint_poly (pb_constraintSystem opcode pb ! k)) = Inr (constraint_poly (pb_constraintSystem opcode pb' ! k))"
    unfolding q(1) q(2) [symmetric] by simp
  show "k < length (pb_constraintSystem opcode pb')" using k len by simp
  have "0 \<le> index_at ids i \<and> index_at ids i < int (length (map (val pb) tv)) \<and>
      map_find (assignment pb) i = Some (map (val pb) tv ! nat (index_at ids i))"
    if i: "i \<in> varset_keys (cp_getUsedVariables (constraint_poly (pb_constraintSystem opcode pb ! k)))" for i
  proof -
    obtain j where j: "j < length tv" "i = var_index (tv ! j)" using subsetD [OF used i] by (auto simp: in_set_conv_nth)
    then have "assigned pb (tv ! j)" using asg by simp
    then show ?thesis using j ids by (auto simp: index_at_def assigned_def val_def)
  qed
  then show "cp_eval (ByVec (map (val pb) tv)) (constraint_poly (pb_constraintSystem opcode pb' ! k))
    = cp_eval (ByMap (assignment pb)) (constraint_poly (pb_constraintSystem opcode pb ! k))"
    by (intro renaming_eval(1) [OF ok ren minv(1) small]) blast
qed



end
