(* ===== verification/GadgetBase.thy ===== *)
theory GadgetBase
  imports Protoboard
begin

text \<open>
  What all gadgets share. A gadget adds constraints to one system of the board and has witness
  code that assigns its internal and output variables. The locale \<open>gadget\<close> states the contract
  (the witness code writes only the gadget's own variables and makes its constraints hold) and
  proves once that a board stays satisfied when a gadget is added and its witness is generated.
  The theory also relates field elements that are boolean with the bits of natural numbers.
\<close>

lemma pb_inv_create [simp]: "pb_inv (Protoboard_create junk)"
  by (simp add: pb_inv_def Protoboard_create_def)

lemma create_system [simp]: "pb_constraintSystem op (Protoboard_create junk) = []"
  using opcode_value_range [of op] by (auto simp: pb_constraintSystem_def Protoboard_create_def nat_less_iff)

lemma val_same: "assignment pb' = assignment pb \<Longrightarrow> fresh pb' = fresh pb \<Longrightarrow> val pb' v = val pb v"
  and assigned_same: "assignment pb' = assignment pb \<Longrightarrow> assigned pb' v = assigned pb v"
  by (simp_all add: val_def assigned_def split: option.split)

text \<open>Numerals in characteristic 2.\<close>

lemma fe_numerals [simp]: "(2 :: FElem) = 0" "(3 :: FElem) = 1"
proof -
  have "(1 :: FElem) + 1 = 0" by (simp only: fe_add_eq_0)
  then show "(2 :: FElem) = 0" by (simp only: one_add_one)
  then have "(2 :: FElem) + 1 = 1" by simp
  then show "(3 :: FElem) = 1" by simp
qed

lemma disjointD: "A \<inter> B = {} \<Longrightarrow> x \<in> A \<Longrightarrow> y \<in> B \<Longrightarrow> x \<noteq> y"
  by blast

section \<open>Witness code\<close>

text \<open>A piece of witness code that assigns exactly the variables with an index in \<open>W\<close>.\<close>

definition writes_only :: "int set \<Rightarrow> (Protoboard \<Rightarrow> Protoboard) \<Rightarrow> bool" where
  "writes_only W f \<longleftrightarrow> (\<forall>pb. pb_inv pb \<longrightarrow> pb_inv (f pb) \<and> (\<forall>op. pb_constraintSystem op (f pb) = pb_constraintSystem op pb)
     \<and> (\<forall>v. (assigned (f pb) v \<longleftrightarrow> var_index v \<in> W \<or> assigned pb v) \<and> (var_index v \<notin> W \<longrightarrow> val (f pb) v = val pb v)))"

lemma writes_onlyD:
  assumes "writes_only W f" "pb_inv pb"
  shows "pb_inv (f pb)" "pb_constraintSystem op (f pb) = pb_constraintSystem op pb"
    "assigned (f pb) v \<longleftrightarrow> var_index v \<in> W \<or> assigned pb v" "var_index v \<notin> W \<Longrightarrow> val (f pb) v = val pb v"
  using assms unfolding writes_only_def by blast+

lemma set_val_system [simp]: "pb_constraintSystem op (set_val v x pb) = pb_constraintSystem op pb"
  by (simp add: set_val_def pb_constraintSystem_def)

lemma writes_only_set_val: "writes_only {var_index v} (\<lambda>pb. set_val v (f pb) pb)"
  by (simp add: writes_only_def)

lemma writes_only_id: "writes_only {} (\<lambda>pb. pb)"
  by (simp add: writes_only_def)

lemma writes_only_comp: "writes_only W f \<Longrightarrow> writes_only V g \<Longrightarrow> writes_only (W \<union> V) (\<lambda>pb. g (f pb))"
  by (auto simp: writes_only_def)

lemma writes_only_fold: "(\<And>x. x \<in> set xs \<Longrightarrow> writes_only (W x) (f x)) \<Longrightarrow> writes_only (\<Union> (W ` set xs)) (fold f xs)"
proof (induction xs)
  case Nil show ?case by (simp add: writes_only_def)
next
  case (Cons x xs)
  then have "writes_only (W x \<union> \<Union> (W ` set xs)) (\<lambda>pb. fold f xs (f x pb))" by (intro writes_only_comp) auto
  then show ?case by (simp add: o_def)
qed

lemma writes_only_if: "writes_only W f \<Longrightarrow> writes_only W g \<Longrightarrow> writes_only W (\<lambda>pb. if P pb then f pb else g pb)"
  by (simp add: writes_only_def)

section \<open>The variables of a polynomial\<close>

definition lc_over :: "Variable set \<Rightarrow> LinearCombination \<Rightarrow> bool" where
  "lc_over V l \<longleftrightarrow> lc_vars l \<subseteq> V"

definition cp_over :: "Variable set \<Rightarrow> CircuitPolynomial \<Rightarrow> bool" where
  "cp_over V p \<longleftrightarrow> cp_vars p \<subseteq> V"

lemma lc_over_simps [simp]:
  "lc_over V (lc_const c)" "lc_over V (lc_var v) \<longleftrightarrow> v \<in> V" "lt_variable t \<in> V \<Longrightarrow> lc_over V (lc_term t)"
  "lc_over V l \<Longrightarrow> lc_over V m \<Longrightarrow> lc_over V (lc_plus l m)" "lc_over V l \<Longrightarrow> lc_over V (lc_times l c)"
  using lc_vars_simps(3) [of l m] lc_vars_simps(4) [of l c] lc_vars_simps(5) [of t] unfolding lc_over_def by auto

lemma cp_over_simps [simp]:
  "cp_over V (cp_const c)" "cp_over V (cp_var v) \<longleftrightarrow> v \<in> V" "cp_over V (cp_lc l) \<longleftrightarrow> lc_over V l"
  "lt_variable t \<in> V \<Longrightarrow> cp_over V (cp_term t)" "cp_over V p \<Longrightarrow> cp_over V q \<Longrightarrow> cp_over V (cp_plus p q)"
  "cp_over V p \<Longrightarrow> cp_over V q \<Longrightarrow> cp_over V (cp_times p q)" "cp_over V (PolyPROD fs) \<longleftrightarrow> (\<forall>f \<in> set fs. lc_over V f)"
  using lc_vars_simps(5) [of t] cp_vars_plus [of p q] cp_vars_times [of p q]
  unfolding cp_over_def lc_over_def cp_const_def cp_var_def cp_lc_def cp_term_def by auto

lemma cp_over_booleanity [simp]: "v \<in> V \<Longrightarrow> cp_over V (booleanity v)"
  by (simp add: booleanity_def)

section \<open>The contract of a gadget\<close>

lemma add_constraints_fresh: "fresh (add_constraints op cs pb) = fresh pb"
  unfolding add_constraints_def by (induction cs arbitrary: pb) auto

locale gadget =
  fixes opcode :: "'g \<Rightarrow> Opcode" and constraints :: "'g \<Rightarrow> (CircuitPolynomial \<times> string) list"
    and witness :: "'g \<Rightarrow> Protoboard \<Rightarrow> Protoboard" and wf :: "'g \<Rightarrow> bool"
    and pre :: "'g \<Rightarrow> Protoboard \<Rightarrow> bool" and written :: "'g \<Rightarrow> int set"
  assumes frame: "wf g \<Longrightarrow> writes_only (written g) (witness g)"
    and pre_board: "pre g pb \<Longrightarrow> assignment pb' = assignment pb \<Longrightarrow> fresh pb' = fresh pb \<Longrightarrow> pre g pb'"
    and complete: "wf g \<Longrightarrow> pb_inv pb \<Longrightarrow> pre g pb \<Longrightarrow> (p, nm) \<in> set (constraints g) \<Longrightarrow> holds (witness g pb) p"
begin

text \<open>A constraint that does not mention the written variables keeps its truth value.\<close>

lemma holds_frame:
  assumes "wf g" "pb_inv pb" "plain p" "var_index ` cp_vars p \<inter> written g = {}"
  shows "holds (witness g pb) p \<longleftrightarrow> holds pb p"
proof -
  note f = writes_onlyD [OF frame [OF assms(1)] assms(2)]
  have "pv (witness g pb) p = pv pb p" unfolding pv_def
    using assms(4) by (intro cp_val_cong f(4)) auto
  moreover have "(\<forall>v \<in> cp_vars p. assigned (witness g pb) v) \<longleftrightarrow> (\<forall>v \<in> cp_vars p. assigned pb v)"
    using assms(4) unfolding f(3) by blast
  ultimately show ?thesis by (simp add: holds_iff [OF assms(3)])
qed

lemma gadget_satisfied:
  assumes "wf g" "pb_inv pb" "pre g pb" "pb_isSatisfied (opcode g) pb = Inr True"
    and others: "\<forall>c \<in> set (pb_constraintSystem (opcode g) pb). plain (constraint_poly c)
      \<and> var_index ` cp_vars (constraint_poly c) \<inter> written g = {}"
  shows "pb_isSatisfied (opcode g) (witness g (add_constraints (opcode g) (constraints g) pb)) = Inr True"
proof -
  let ?b = "add_constraints (opcode g) (constraints g) pb"
  note facts = add_constraints_facts [OF assms(2), where opcode = "opcode g" and cs = "constraints g"]
  have pre: "pre g ?b" by (rule pre_board [OF assms(3) facts(2) add_constraints_fresh])
  have sys: "pb_constraintSystem (opcode g) (witness g ?b) = pb_constraintSystem (opcode g) pb
      @ map (\<lambda>(p, nm). \<lparr>constraint_poly = p, constraint_name = nm\<rparr>) (constraints g)"
    using writes_onlyD(2) [OF frame [OF assms(1)] facts(1)] facts(3) by simp
  show ?thesis unfolding pb_isSatisfied_iff sys
  proof
    fix c assume "c \<in> set (pb_constraintSystem (opcode g) pb @ map (\<lambda>(p, nm). \<lparr>constraint_poly = p, constraint_name = nm\<rparr>) (constraints g))"
    then consider "c \<in> set (pb_constraintSystem (opcode g) pb)" | p nm where "(p, nm) \<in> set (constraints g)" "constraint_poly c = p" by auto
    then show "holds (witness g ?b) (constraint_poly c)"
    proof cases
      case 1
      then have "holds pb (constraint_poly c)" using assms(4) by (simp add: pb_isSatisfied_iff)
      then have "holds ?b (constraint_poly c)" by (simp add: holds_def facts(2))
      then show ?thesis using holds_frame [OF assms(1) facts(1)] others 1 by blast
    next
      case 2
      then show ?thesis using complete [OF assms(1) facts(1) pre] by simp
    qed
  qed
qed

end

section \<open>Bits\<close>

definition boolean :: "Protoboard \<Rightarrow> Variable \<Rightarrow> bool" where
  "boolean pb v \<longleftrightarrow> val pb v = 0 \<or> val pb v = 1"

definition bit_of :: "Protoboard \<Rightarrow> Variable \<Rightarrow> bool" where
  "bit_of pb v \<longleftrightarrow> val pb v = 1"

fun bits_nat :: "bool list \<Rightarrow> nat" where
  "bits_nat [] = 0"
| "bits_nat (b # bs) = of_bool b + 2 * bits_nat bs"

text \<open>The number a word stands for; in a signed word the highest bit counts negative.\<close>

definition word_value :: "bool \<Rightarrow> bool list \<Rightarrow> int" where
  "word_value isSigned bs = (if isSigned then int (bits_nat (butlast bs)) - 2 ^ (length bs - 1) * of_bool (last bs) else int (bits_nat bs))"

lemma val_boolean: "boolean pb v \<Longrightarrow> val pb v = (if bit_of pb v then 1 else 0)"
  by (auto simp: boolean_def bit_of_def)

lemma bits_nat_less: "bits_nat bs < 2 ^ length bs"
proof (induction bs)
  case (Cons b bs)
  then have "Suc (bits_nat bs) \<le> 2 ^ length bs" by simp
  then show ?case by (cases b) auto
qed simp

lemma bits_nat_append: "bits_nat (as @ bs) = bits_nat as + 2 ^ length as * bits_nat bs"
  by (induction as) (simp_all add: algebra_simps)

lemma bit_bits_nat: "bit (bits_nat bs) i \<longleftrightarrow> i < length bs \<and> bs ! i"
proof (induction bs arbitrary: i)
  case (Cons b bs)
  show ?case
  proof (cases i)
    case 0 then show ?thesis by (cases b) (simp_all add: bit_0)
  next
    case (Suc j)
    have "(of_bool b + 2 * bits_nat bs) div 2 = bits_nat bs" by (cases b) simp_all
    then show ?thesis using Cons by (simp add: Suc bit_Suc)
  qed
qed simp

lemma bits_nat_inject: "length as = length bs \<Longrightarrow> bits_nat as = bits_nat bs \<longleftrightarrow> as = bs"
proof (induction as bs rule: list_induct2)
  case (Cons a as b bs)
  have "of_bool a + 2 * bits_nat as = of_bool b + 2 * bits_nat bs \<longleftrightarrow> a = b \<and> bits_nat as = bits_nat bs"
    by (cases a; cases b; simp; presburger)
  with Cons show ?case by simp
qed simp

lemma add_xor_bit: "of_bool b + 2 * r = of_bool b XOR 2 * r" for r :: nat
  using double_xor_1 [of r] by (cases b) (simp_all add: xor.commute add.commute)

lemma mult_pow2_xor: "2 ^ n * (a XOR b) = (2 ^ n * a) XOR (2 ^ n * b)" for a b :: nat
  by (simp add: pow2_mult_push_bit push_bit_xor)

text \<open>The weighted sum the packing gadgets build: boolean values weighted with powers of the generator.\<close>

fun pack_sum :: "FElem \<Rightarrow> FElem list \<Rightarrow> FElem" where
  "pack_sum x_i [] = 0"
| "pack_sum x_i (v # vs) = x_i * v + pack_sum (x_i * getGF2E_X) vs"

lemma fe_0 [simp]: "fe 0 = 0" and fe_1: "fe 1 = 1"
  by (simp_all add: fe_def fe_defs)

lemma pack_sum_bits:
  "i + length bs \<le> 64 \<Longrightarrow> pack_sum (getGF2E_X ^ i) (map (\<lambda>b. if b then 1 else 0) bs) = fe (2 ^ i * bits_nat bs)"
proof (induction bs arbitrary: i)
  case (Cons b bs)
  have x: "getGF2E_X ^ i = fe (2 ^ i)" using x_power [of i] Cons.prems by (simp add: getGF2E_X_def xFE_eval)
  have "pack_sum (getGF2E_X ^ Suc i) (map (\<lambda>b. if b then 1 else 0) bs) = fe (2 ^ Suc i * bits_nat bs)"
    using Cons.prems by (intro Cons.IH) simp
  moreover have "2 ^ i * (of_bool b + 2 * bits_nat bs) = (2 ^ i * of_bool b) XOR (2 ^ Suc i * bits_nat bs)"
    unfolding add_xor_bit mult_pow2_xor by (simp add: power_Suc2 mult.assoc del: power_Suc)
  moreover have "(2::nat) ^ i * of_bool b = (if b then 2 ^ i else 0)" by simp
  ultimately have "fe (2 ^ i * bits_nat (b # bs)) = fe (if b then 2 ^ i else 0) + pack_sum (getGF2E_X ^ Suc i) (map (\<lambda>b. if b then 1 else 0) bs)"
    by (simp only: bits_nat.simps fe_xor)
  then show ?case by (simp add: x power_Suc2 del: power_Suc)
qed simp

lemma pack_sum_boolean:
  assumes "\<forall>v \<in> set vs. boolean pb v" "length vs \<le> 64"
  shows "pack_sum 1 (map (val pb) vs) = fe (bits_nat (map (bit_of pb) vs))"
proof -
  have v: "map (val pb) vs = map (\<lambda>b. if b then 1 else 0) (map (bit_of pb) vs)" using assms(1) by (simp add: val_boolean)
  show ?thesis unfolding v using pack_sum_bits [of 0 "map (bit_of pb) vs"] assms(2) by simp
qed

end
