(* ===== verification/PackingGadgets.thy ===== *)
theory PackingGadgets
  imports GadgetBase
begin

text \<open>
  The gadgets of \<open>gadget.cpp\<close> that relate a field element with its bits:
  \<open>CompressionPacking_Gadget\<close> and \<open>DoubleUnpack_Gadget\<close>. Their constraints are lists of named
  polynomials; the words they are built for have at most 64 bits.
\<close>

datatype PackingMode = PACK | UNPACK

definition ExtensionDegree :: nat where "ExtensionDegree = 64"

definition bool_constraint :: "Variable \<Rightarrow> CircuitPolynomial \<times> string" where
  "bool_constraint v = (booleanity v, var_name v @ ''* ( 1 + '' @ var_name v @ '')'')"

lemma enforceBooleanity_eq: "enforceBooleanity v opcode = add_constraints opcode [bool_constraint v]"
  by (rule ext) (simp add: enforceBooleanity_def add_constraints_def bool_constraint_def)

section \<open>CompressionPacking\<close>

record CompressionPacking_Gadget =
  cpk_packingMode :: PackingMode
  cpk_unpacked :: "Variable list"
  cpk_packed :: Variable
  cpk_opcode :: Opcode

text \<open>The loop that builds the weighted sum, with \<open>x_i\<close> as its second component.\<close>

fun pack_loop :: "Variable list \<Rightarrow> LinearCombination \<times> FElem \<Rightarrow> LinearCombination \<times> FElem" where
  "pack_loop [] st = st"
| "pack_loop (v # vs) (packedPolyLC, x_i) =
     pack_loop vs (lc_plus packedPolyLC (lc_term (LinearTerm_times (LinearTerm_of v) x_i)), x_i * getGF2E_X)"

definition CompressionPacking_constraints :: "CompressionPacking_Gadget \<Rightarrow> (CircuitPolynomial \<times> string) list" where
  "CompressionPacking_constraints g = (let bits = take ExtensionDegree (cpk_unpacked g); packedPolyLC = fst (pack_loop bits (lc_const 0, 1))
     in (if cpk_packingMode g = UNPACK then map bool_constraint bits else [])
      @ (if cpk_packingMode g = PACK then [(cp_plus (cp_lc packedPolyLC) (cp_var (cpk_packed g)), ''packed = packedPoly'')] else []))"

definition CompressionPacking_generateConstraints :: "CompressionPacking_Gadget \<Rightarrow> Protoboard \<Rightarrow> Protoboard" where
  "CompressionPacking_generateConstraints g pb = add_constraints (cpk_opcode g) (CompressionPacking_constraints g) pb"

definition pack_value_loop :: "Protoboard \<Rightarrow> Variable list \<Rightarrow> FElem \<times> FElem" where
  "pack_value_loop pb bits = fold (\<lambda>v (packedVal, x_i). (packedVal + x_i * val pb v, x_i * getGF2E_X)) bits (0, 1)"

definition unpack_step :: "Variable \<Rightarrow> nat \<times> Variable \<Rightarrow> Protoboard \<Rightarrow> Protoboard" where
  "unpack_step packed iv pb = (case iv of (i, v) \<Rightarrow>
     set_val v (if mapFieldElementToInteger i 1 (val pb packed) \<noteq> 0 then 1 else 0) pb)"

definition CompressionPacking_generateWitness :: "CompressionPacking_Gadget \<Rightarrow> Protoboard \<Rightarrow> Protoboard" where
  "CompressionPacking_generateWitness g pb = (if cpk_packingMode g = PACK
     then set_val (cpk_packed g) (fst (pack_value_loop pb (take ExtensionDegree (cpk_unpacked g)))) pb
     else fold (unpack_step (cpk_packed g)) (enumerate 0 (cpk_unpacked g)) pb)"

section \<open>DoubleUnpack\<close>

record DoubleUnpack_Gadget =
  du_unpacked1 :: "Variable list"
  du_unpacked2 :: "Variable list"
  du_packed :: Variable
  du_opcode :: Opcode

definition DoubleUnpack_constraints :: "DoubleUnpack_Gadget \<Rightarrow> (CircuitPolynomial \<times> string) list" where
  "DoubleUnpack_constraints g = (let bits1 = take ExtensionDegree (du_unpacked1 g);
     bits2 = take (ExtensionDegree - length (du_unpacked1 g)) (du_unpacked2 g);
     packedPoly = fst (pack_loop bits2 (pack_loop bits1 (lc_const 0, 1)))
     in map bool_constraint bits1 @ map bool_constraint bits2
      @ [(cp_lc (lc_plus packedPoly (lc_var (du_packed g))), ''packed = packedPoly'')])"

definition DoubleUnpack_generateConstraints :: "DoubleUnpack_Gadget \<Rightarrow> Protoboard \<Rightarrow> Protoboard" where
  "DoubleUnpack_generateConstraints g pb = add_constraints (du_opcode g) (DoubleUnpack_constraints g) pb"

definition unpack_word_step :: "size_t \<Rightarrow> nat \<Rightarrow> nat \<times> Variable \<Rightarrow> Protoboard \<Rightarrow> Protoboard" where
  "unpack_word_step v n iv pb = (case iv of (i, u) \<Rightarrow> set_val u (if v AND push_bit i (push_bit n 1) \<noteq> 0 then 1 else 0) pb)"

definition DoubleUnpack_generateWitness :: "DoubleUnpack_Gadget \<Rightarrow> Protoboard \<Rightarrow> Protoboard" where
  "DoubleUnpack_generateWitness g pb = (let n1 = length (du_unpacked1 g);
     bits1 = take ExtensionDegree (du_unpacked1 g); bits2 = take (ExtensionDegree - n1) (du_unpacked2 g);
     v = mapFieldElementToInteger 0 ExtensionDegree (val pb (du_packed g))
     in fold (unpack_word_step v n1) (enumerate 0 bits2) (fold (unpack_word_step v 0) (enumerate 0 bits1) pb))"

section \<open>The packed value\<close>

lemma lv_pack_loop: "lv pb (fst (pack_loop vs (l, x_i))) = lv pb l + pack_sum x_i (map (val pb) vs)"
  by (induction vs arbitrary: l x_i) (simp_all add: lv_simps LinearTerm_times_def LinearTerm_of_def)

lemma pack_loop_append: "pack_loop (us @ vs) st = pack_loop vs (pack_loop us st)"
  by (induction us arbitrary: st) (simp_all add: split_paired_all)

lemma pack_loop_vars: "lc_vars (fst (pack_loop vs (l, x_i))) \<subseteq> lc_vars l \<union> set vs"
proof (induction vs arbitrary: l x_i)
  case (Cons v vs)
  let ?t = "LinearTerm_times (LinearTerm_of v) x_i"
  have "lc_vars (lc_plus l (lc_term ?t)) \<subseteq> lc_vars l \<union> {v}"
    by (rule order.trans [OF lc_vars_simps(3)], rule Un_mono [OF order.refl], rule order.trans [OF lc_vars_simps(5)])
      (simp add: LinearTerm_times_def LinearTerm_of_def)
  with Cons [of "lc_plus l (lc_term ?t)" "x_i * getGF2E_X"] show ?case by simp blast
qed simp

lemma pack_value_eq: "fst (pack_value_loop pb vs) = pack_sum 1 (map (val pb) vs)"
proof -
  have "fst (fold (\<lambda>v (p, x_i). (p + x_i * val pb v, x_i * getGF2E_X)) vs (p, x_i)) = p + pack_sum x_i (map (val pb) vs)" for p x_i
    by (induction vs arbitrary: p x_i) (simp_all add: add.assoc)
  then show ?thesis by (simp add: pack_value_loop_def)
qed

section \<open>Loops that write distinct variables\<close>

lemma map_index_enumerate: "map (\<lambda>iv. var_index (snd iv)) (enumerate n vs) = map var_index vs"
proof -
  have "map (\<lambda>iv. var_index (snd iv)) (enumerate n vs) = map var_index (map snd (enumerate n vs))" by (simp only: map_map o_def)
  also have "\<dots> = map var_index vs" by (simp only: map_snd_enumerate)
  finally show ?thesis .
qed

lemma set_index_enumerate: "(\<lambda>iv. var_index (snd iv)) ` set (enumerate n vs) = var_index ` set vs"
  using arg_cong [OF map_index_enumerate [of n vs], of set] by (simp only: set_map)

lemma fold_writes:
  fixes f :: "'i \<Rightarrow> Protoboard \<Rightarrow> Protoboard" and tgt :: "'i \<Rightarrow> Variable" and g :: "'i \<Rightarrow> Protoboard \<Rightarrow> FElem"
  assumes "pb_inv pb" and f: "\<And>i pb. f i pb = set_val (tgt i) (g i pb) pb"
    and g: "\<And>i pb pb'. i \<in> set is \<Longrightarrow> (\<And>v. v \<in> R \<Longrightarrow> val pb' v = val pb v) \<Longrightarrow> g i pb' = g i pb"
    and "distinct (map (\<lambda>i. var_index (tgt i)) is)" and "var_index ` R \<inter> (\<lambda>i. var_index (tgt i)) ` set is = {}" and "i \<in> set is"
  shows "val (fold f is pb) (tgt i) = g i pb"
  using assms(1,3-6)
proof (induction "is" arbitrary: pb)
  case (Cons j "is")
  have inv: "pb_inv (f j pb)" using Cons.prems(1) by (simp add: f)
  have R: "val (f j pb) v = val pb v" if "v \<in> R" for v 
  proof -
    have "var_index v \<noteq> var_index (tgt j)" using Cons.prems(4) that by (auto simp: disjoint_iff)
    then show ?thesis using Cons.prems(1) by (simp add: f)
  qed
  show ?case
  proof (cases "i \<in> set is")
    case True
    have "val (fold f is (f j pb)) (tgt i) = g i (f j pb)"
    proof (rule Cons.IH [OF inv _ _ _ True])
      show "distinct (map (\<lambda>i. var_index (tgt i)) is)" using Cons.prems(3) by simp
      show "var_index ` R \<inter> (\<lambda>i. var_index (tgt i)) ` set is = {}" using Cons.prems(4) by auto
      show "g k p' = g k p" if "k \<in> set is" "\<And>v. v \<in> R \<Longrightarrow> val p' v = val p v" for k p p'
        by (rule Cons.prems(2)) (use that in simp_all)
    qed
    also have "\<dots> = g i pb" using R by (rule Cons.prems(2) [OF Cons.prems(5)])
    finally show ?thesis by simp
  next
    case False
    then have i: "i = j" using Cons.prems(5) by simp
    have f': "f x = (\<lambda>pb. set_val (tgt x) (g x pb) pb)" for x by (rule ext) (rule f)
    have "writes_only (\<Union> ((\<lambda>i. {var_index (tgt i)}) ` set is)) (fold f is)"
      by (intro writes_only_fold) (simp add: f' writes_only_set_val)
    moreover have "var_index (tgt j) \<notin> \<Union> ((\<lambda>i. {var_index (tgt i)}) ` set is)" using Cons.prems(3) by auto
    ultimately have "val (fold f is (f j pb)) (tgt j) = val (f j pb) (tgt j)" using inv writes_onlyD(4) by blast
    also have "val (f j pb) (tgt j) = g j pb" unfolding f using Cons.prems(1) by simp
    finally show ?thesis by (simp add: i)
  qed
qed simp

lemma unpack_step_writes: "writes_only {var_index (snd iv)} (unpack_step packed iv)"
  unfolding unpack_step_def by (cases iv) (simp add: writes_only_set_val)

lemma unpack_word_step_writes: "writes_only {var_index (snd iv)} (unpack_word_step v n iv)"
  unfolding unpack_word_step_def by (cases iv) (simp add: writes_only_set_val)

lemma mapFieldElementToInteger_bit: "i < 64 \<Longrightarrow> mapFieldElementToInteger i (Suc 0) e \<noteq> 0 \<longleftrightarrow> bit (unat (element e)) i"
proof -
  assume "i < 64"
  have "take_bit (Suc 0) w = 0 \<longleftrightarrow> \<not> bit w 0" for w :: "64 word"
    by (simp add: take_bit_eq_0_iff bit_0 even_iff_mod_2_eq_zero)
  then show ?thesis by (simp add: mapFieldElementToInteger_def and_bitmask bit_unat bit_drop_bit_eq)
qed

section \<open>CompressionPacking is complete and sound\<close>

definition cpk_wf :: "CompressionPacking_Gadget \<Rightarrow> bool" where
  "cpk_wf g \<longleftrightarrow> length (cpk_unpacked g) \<le> 64 \<and> distinct (map var_index (cpk_packed g # cpk_unpacked g))"

definition cpk_pre :: "CompressionPacking_Gadget \<Rightarrow> Protoboard \<Rightarrow> bool" where
  "cpk_pre g pb \<longleftrightarrow> (cpk_packingMode g = PACK \<longrightarrow> (\<forall>v \<in> set (cpk_unpacked g). assigned pb v))"

definition cpk_written :: "CompressionPacking_Gadget \<Rightarrow> int set" where
  "cpk_written g = (if cpk_packingMode g = PACK then {var_index (cpk_packed g)} else var_index ` set (cpk_unpacked g))"

lemma cpk_writes: "cpk_wf g \<Longrightarrow> writes_only (cpk_written g) (CompressionPacking_generateWitness g)"
proof (cases "cpk_packingMode g = PACK")
  case False
  let ?ivs = "enumerate 0 (cpk_unpacked g)"
  have "writes_only (\<Union> ((\<lambda>iv. {var_index (snd iv)}) ` set ?ivs)) (fold (unpack_step (cpk_packed g)) ?ivs)"
    by (intro writes_only_fold unpack_step_writes)
  moreover have "\<Union> ((\<lambda>iv. {var_index (snd iv)}) ` set ?ivs) = var_index ` set (cpk_unpacked g)"
    by (simp only: UNION_singleton_eq_range set_index_enumerate)
  ultimately show ?thesis using False by (simp add: CompressionPacking_generateWitness_def [abs_def] cpk_written_def)
qed (simp add: CompressionPacking_generateWitness_def [abs_def] cpk_written_def writes_only_set_val)

lemma cpk_unpack_bits:
  assumes "cpk_wf g" "cpk_packingMode g = UNPACK" "pb_inv pb" "i < length (cpk_unpacked g)"
  shows "val (CompressionPacking_generateWitness g pb) (cpk_unpacked g ! i) =
    (if bit (unat (element (val pb (cpk_packed g)))) i then 1 else 0)"
proof -
  let ?us = "cpk_unpacked g" and ?ivs = "enumerate 0 (cpk_unpacked g)"
  have "val (fold (unpack_step (cpk_packed g)) ?ivs pb) (snd (i, ?us ! i)) =
      (if mapFieldElementToInteger (fst (i, ?us ! i)) 1 (val pb (cpk_packed g)) \<noteq> 0 then 1 else 0)"
  proof (rule fold_writes [where R = "{cpk_packed g}"])
    show "unpack_step (cpk_packed g) iv pb = set_val (snd iv) (if mapFieldElementToInteger (fst iv) 1 (val pb (cpk_packed g)) \<noteq> 0 then 1 else 0) pb" for iv pb
      by (cases iv) (simp add: unpack_step_def)
    have m: "map (\<lambda>iv. var_index (snd iv)) ?ivs = map var_index ?us" by (rule map_index_enumerate)
    then show "distinct (map (\<lambda>iv. var_index (snd iv)) ?ivs)" using assms(1) by (simp add: cpk_wf_def)
    show "var_index ` {cpk_packed g} \<inter> (\<lambda>iv. var_index (snd iv)) ` set ?ivs = {}"
      unfolding set_index_enumerate using assms(1) by (simp add: cpk_wf_def)
    show "(i, ?us ! i) \<in> set ?ivs" using assms(4) by (simp add: in_set_enumerate_eq)
  qed (use assms(3) in auto)
  then show ?thesis using assms by (simp add: CompressionPacking_generateWitness_def mapFieldElementToInteger_bit cpk_wf_def)
qed

lemma pack_constraint_vars: "cp_vars (cp_plus (cp_lc (fst (pack_loop vs (lc_const 0, x_i)))) (cp_var u)) \<subseteq> insert u (set vs)"
  using pack_loop_vars [of vs "lc_const 0" x_i] by (intro order.trans [OF cp_vars_plus]) (auto simp: cp_lc_def cp_var_def)

lemma cpk_complete:
  assumes "cpk_wf g" "pb_inv pb" "cpk_pre g pb" "(p, nm) \<in> set (CompressionPacking_constraints g)"
  shows "holds (CompressionPacking_generateWitness g pb) p"
proof -
  let ?w = "CompressionPacking_generateWitness g pb" and ?us = "cpk_unpacked g"
  have len: "take ExtensionDegree ?us = ?us" using assms(1) by (simp add: cpk_wf_def ExtensionDegree_def)
  note w = writes_onlyD [OF cpk_writes [OF assms(1)] assms(2)]
  show ?thesis
  proof (cases "cpk_packingMode g")
    case PACK
    then have p: "p = cp_plus (cp_lc (fst (pack_loop ?us (lc_const 0, 1)))) (cp_var (cpk_packed g))"
      using assms(4) by (auto simp: CompressionPacking_constraints_def len Let_def split: prod.splits)
    have same: "val ?w v = val pb v" if "v \<in> set ?us" for v
      using that assms(1) PACK by (intro w(4)) (simp add: cpk_written_def cpk_wf_def, metis imageI)
    have "pv ?w p = pack_sum 1 (map (val ?w) ?us) + val ?w (cpk_packed g)"
      by (simp add: p pv_simps lv_pack_loop lv_simps)
    also have "map (val ?w) ?us = map (val pb) ?us" using same by simp
    also have "val ?w (cpk_packed g) = pack_sum 1 (map (val pb) ?us)"
      using PACK assms(2) by (simp add: CompressionPacking_generateWitness_def len pack_value_eq)
    finally have "pv ?w p = 0" by simp
    moreover have "assigned ?w v" if "v \<in> cp_vars p" for v
      using subsetD [OF pack_constraint_vars that [unfolded p]] assms(3) PACK by (auto simp: w(3) cpk_written_def cpk_pre_def)
    ultimately show ?thesis by (simp add: holds_iff p)
  next
    case UNPACK
    then obtain i where i: "i < length ?us" "p = booleanity (?us ! i)"
      using assms(4) by (auto simp: CompressionPacking_constraints_def len Let_def bool_constraint_def in_set_conv_nth split: prod.splits)
    have "assigned ?w (?us ! i)" using i(1) UNPACK by (simp add: w(3) cpk_written_def)
    moreover have "cp_vars p = {?us ! i}" using lc_vars_simps(3) [of "lc_var (?us ! i)" "lc_const 1"]
      by (auto simp: i(2) booleanity_def)
    ultimately show ?thesis using cpk_unpack_bits [OF assms(1) UNPACK assms(2) i(1)]
      by (simp add: holds_iff i(2) pv_booleanity)
  qed
qed

interpretation packing: gadget cpk_opcode CompressionPacking_constraints CompressionPacking_generateWitness cpk_wf cpk_pre cpk_written
proof
  show "cpk_pre g pb'" if "cpk_pre g pb" "assignment pb' = assignment pb" "fresh pb' = fresh pb" for g pb pb'
    using that by (simp add: cpk_pre_def assigned_def)
qed (rule cpk_writes cpk_complete; assumption)+

lemma compression_packing_correct_facts:
  assumes "cpk_wf g" and "pb_inv pb"
  shows "\<lbrakk>cpk_pre g pb; pb_isSatisfied (cpk_opcode g) pb = Inr True;
      \<forall>c \<in> set (pb_constraintSystem (cpk_opcode g) pb). plain (constraint_poly c) \<and> var_index ` cp_vars (constraint_poly c) \<inter> cpk_written g = {}\<rbrakk>
      \<Longrightarrow> pb_isSatisfied (cpk_opcode g) (CompressionPacking_generateWitness g (CompressionPacking_generateConstraints g pb)) = Inr True"
    and "\<lbrakk>cpk_packingMode g = PACK; \<forall>(p, nm) \<in> set (CompressionPacking_constraints g). holds pb p; \<forall>v \<in> set (cpk_unpacked g). boolean pb v\<rbrakk>
      \<Longrightarrow> unat (element (val pb (cpk_packed g))) = bits_nat (map (bit_of pb) (cpk_unpacked g))"
    and "\<lbrakk>cpk_packingMode g = UNPACK; i < length (cpk_unpacked g)\<rbrakk> \<Longrightarrow>
      val (CompressionPacking_generateWitness g pb) (cpk_unpacked g ! i) = (if bit (unat (element (val pb (cpk_packed g)))) i then 1 else 0)"
proof -
  show "\<lbrakk>cpk_pre g pb; pb_isSatisfied (cpk_opcode g) pb = Inr True;
      \<forall>c \<in> set (pb_constraintSystem (cpk_opcode g) pb). plain (constraint_poly c) \<and> var_index ` cp_vars (constraint_poly c) \<inter> cpk_written g = {}\<rbrakk>
      \<Longrightarrow> pb_isSatisfied (cpk_opcode g) (CompressionPacking_generateWitness g (CompressionPacking_generateConstraints g pb)) = Inr True"
    unfolding CompressionPacking_generateConstraints_def by (rule packing.gadget_satisfied [OF assms])
  assume a: "cpk_packingMode g = PACK" "\<forall>(p, nm) \<in> set (CompressionPacking_constraints g). holds pb p" "\<forall>v \<in> set (cpk_unpacked g). boolean pb v"
  have len: "length (cpk_unpacked g) \<le> 64" "take ExtensionDegree (cpk_unpacked g) = cpk_unpacked g"
    using assms(1) by (simp_all add: cpk_wf_def ExtensionDegree_def)
  have "pv pb (cp_plus (cp_lc (fst (pack_loop (cpk_unpacked g) (lc_const 0, 1)))) (cp_var (cpk_packed g))) = 0"
    using a(1,2) by (auto simp: CompressionPacking_constraints_def len Let_def holds_iff split: prod.splits)
  then have "val pb (cpk_packed g) = fe (bits_nat (map (bit_of pb) (cpk_unpacked g)))"
    by (simp add: pv_simps lv_pack_loop lv_simps pack_sum_boolean [OF a(3) len(1)] fe_add_eq_0)
  moreover have "bits_nat (map (bit_of pb) (cpk_unpacked g)) < 2 ^ 64"
    using bits_nat_less [of "map (bit_of pb) (cpk_unpacked g)"] len(1) power_increasing [of "length (cpk_unpacked g)" 64 "2::nat"] by simp
  ultimately show "unat (element (val pb (cpk_packed g))) = bits_nat (map (bit_of pb) (cpk_unpacked g))" by (simp add: unat_fe)
qed (rule cpk_unpack_bits [OF assms(1) _ assms(2)])



section \<open>DoubleUnpack is complete and sound\<close>

definition du_wf :: "DoubleUnpack_Gadget \<Rightarrow> bool" where
  "du_wf g \<longleftrightarrow> length (du_unpacked1 g) + length (du_unpacked2 g) \<le> 64
     \<and> distinct (map var_index (du_packed g # du_unpacked1 g @ du_unpacked2 g))"

definition du_bits :: "DoubleUnpack_Gadget \<Rightarrow> Variable list" where
  "du_bits g = du_unpacked1 g @ du_unpacked2 g"

definition du_pre :: "DoubleUnpack_Gadget \<Rightarrow> Protoboard \<Rightarrow> bool" where
  "du_pre g pb \<longleftrightarrow> assigned pb (du_packed g) \<and> unat (element (val pb (du_packed g))) < 2 ^ length (du_bits g)"

definition du_written :: "DoubleUnpack_Gadget \<Rightarrow> int set" where
  "du_written g = var_index ` set (du_bits g)"

lemma take_bits: "du_wf g \<Longrightarrow> take ExtensionDegree (du_unpacked1 g) = du_unpacked1 g \<and>
    take (ExtensionDegree - length (du_unpacked1 g)) (du_unpacked2 g) = du_unpacked2 g"
  by (auto simp: du_wf_def ExtensionDegree_def)

lemma unpack_words_writes: "writes_only (var_index ` set vs) (fold (unpack_word_step v n) (enumerate 0 vs))"
proof -
  have "writes_only (\<Union> ((\<lambda>iv. {var_index (snd iv)}) ` set (enumerate 0 vs))) (fold (unpack_word_step v n) (enumerate 0 vs))"
    by (intro writes_only_fold unpack_word_step_writes)
  then show ?thesis by (simp only: UNION_singleton_eq_range set_index_enumerate)
qed

lemma du_writes: "du_wf g \<Longrightarrow> writes_only (du_written g) (DoubleUnpack_generateWitness g)"
proof -
  assume wf: "du_wf g"
  have "writes_only (var_index ` set (du_unpacked1 g) \<union> var_index ` set (du_unpacked2 g))
      (\<lambda>pb. fold (unpack_word_step v n) (enumerate 0 (du_unpacked2 g)) (fold (unpack_word_step v 0) (enumerate 0 (du_unpacked1 g)) pb))" for v n
    by (intro writes_only_comp unpack_words_writes)
  then show ?thesis using take_bits [OF wf]
    by (simp add: writes_only_def DoubleUnpack_generateWitness_def Let_def du_written_def du_bits_def image_Un)
qed

lemma unpack_words_val:
  assumes "pb_inv pb" "distinct (map var_index vs)" "i < length vs" "i + n < 64"
  shows "val (fold (unpack_word_step v n) (enumerate 0 vs) pb) (vs ! i) = (if bit (unat v) (n + i) then 1 else 0)"
proof -
  have "val (fold (unpack_word_step v n) (enumerate 0 vs) pb) (snd (i, vs ! i)) =
      (if v AND push_bit (fst (i, vs ! i)) (push_bit n 1) \<noteq> 0 then 1 else 0)"
  proof (rule fold_writes [where R = "{}"])
    show "unpack_word_step v n iv pb = set_val (snd iv) (if v AND push_bit (fst iv) (push_bit n 1) \<noteq> 0 then 1 else 0) pb" for iv pb
      by (cases iv) (simp add: unpack_word_step_def)
    show "distinct (map (\<lambda>iv. var_index (snd iv)) (enumerate 0 vs))" using assms(2) by (simp only: map_index_enumerate)
    show "(i, vs ! i) \<in> set (enumerate 0 vs)" using assms(3) by (simp add: in_set_enumerate_eq)
  qed (use assms(1) in auto)
  moreover have "push_bit i (push_bit n 1) = (push_bit (n + i) 1 :: 64 word)" by (simp add: push_bit_eq_mult power_add mult.commute)
  ultimately show ?thesis by (simp only: fst_conv snd_conv and_push_bit_1 bit_unat not_not)
qed

lemma du_bits_val:
  assumes "du_wf g" "pb_inv pb" "i < length (du_bits g)"
  shows "val (DoubleUnpack_generateWitness g pb) (du_bits g ! i) = (if bit (unat (element (val pb (du_packed g)))) i then 1 else 0)"
proof -
  let ?v = "element (val pb (du_packed g))" and ?u1 = "du_unpacked1 g" and ?u2 = "du_unpacked2 g"
  let ?p1 = "fold (unpack_word_step ?v 0) (enumerate 0 ?u1) pb"
  have w: "DoubleUnpack_generateWitness g pb = fold (unpack_word_step ?v (length ?u1)) (enumerate 0 ?u2) ?p1"
    using take_bits [OF assms(1)] by (simp add: DoubleUnpack_generateWitness_def Let_def mapFieldElementToInteger_def ExtensionDegree_def)
  have inv: "pb_inv ?p1" using writes_onlyD(1) [OF unpack_words_writes assms(2)] .
  have d: "distinct (map var_index ?u1)" "distinct (map var_index ?u2)" "var_index ` set ?u1 \<inter> var_index ` set ?u2 = {}"
    and len: "length ?u1 + length ?u2 \<le> 64" using assms(1) by (simp_all add: du_wf_def)
  show ?thesis
  proof (cases "i < length ?u1")
    case True
    then have "var_index (?u1 ! i) \<notin> var_index ` set ?u2" using d(3) by (meson disjoint_iff imageI nth_mem)
    then have "val (DoubleUnpack_generateWitness g pb) (?u1 ! i) = val ?p1 (?u1 ! i)"
      unfolding w by (rule writes_onlyD(4) [OF unpack_words_writes inv])
    also have "\<dots> = (if bit (unat ?v) (0 + i) then 1 else 0)" using True d(1) len assms(2) by (intro unpack_words_val) simp_all
    finally show ?thesis using True by (simp add: du_bits_def nth_append)
  next
    case False
    then have i: "i - length ?u1 < length ?u2" using assms(3) by (simp add: du_bits_def)
    have "val (DoubleUnpack_generateWitness g pb) (?u2 ! (i - length ?u1)) = (if bit (unat ?v) (length ?u1 + (i - length ?u1)) then 1 else 0)"
      unfolding w using i d(2) inv len False assms(3) by (intro unpack_words_val) (simp_all add: du_bits_def)
    then show ?thesis using False by (simp add: du_bits_def nth_append)
  qed
qed

lemma bits_nat_of_bits: "n < 2 ^ length bs \<Longrightarrow> (\<And>i. i < length bs \<Longrightarrow> bs ! i = bit n i) \<Longrightarrow> bits_nat bs = n"
proof (rule bit_eqI)
  fix i assume n: "n < 2 ^ length bs" and b: "\<And>i. i < length bs \<Longrightarrow> bs ! i = bit n i"
  show "bit (bits_nat bs) i = bit n i" using b not_bit_less [OF n] by (cases "i < length bs") (auto simp: bit_bits_nat)
qed

lemma du_pack_val: "pv pb (cp_lc (lc_plus (fst (pack_loop vs (lc_const 0, 1))) (lc_var u))) = pack_sum 1 (map (val pb) vs) + val pb u"
  by (simp add: pv_simps lv_simps lv_pack_loop)

lemma du_constraints: "du_wf g \<Longrightarrow> DoubleUnpack_constraints g = map bool_constraint (du_bits g) @
    [(cp_lc (lc_plus (fst (pack_loop (du_bits g) (lc_const 0, 1))) (lc_var (du_packed g))), ''packed = packedPoly'')]"
  using take_bits [of g] by (simp add: DoubleUnpack_constraints_def Let_def du_bits_def pack_loop_append)

lemma booleanity_vars [simp]: "cp_vars (booleanity v) = {v}"
  using lc_vars_simps(3) [of "lc_var v" "lc_const 1"] by (auto simp: booleanity_def)

lemma du_complete:
  assumes "du_wf g" "pb_inv pb" "du_pre g pb" "(p, nm) \<in> set (DoubleUnpack_constraints g)"
  shows "holds (DoubleUnpack_generateWitness g pb) p"
proof -
  let ?w = "DoubleUnpack_generateWitness g pb" and ?bs = "du_bits g"
  note w = writes_onlyD [OF du_writes [OF assms(1)] assms(2)]
  have bool: "val ?w v = 0 \<or> val ?w v = 1" if "v \<in> set ?bs" for v
    using that du_bits_val [OF assms(1,2)] by (auto simp: in_set_conv_nth)
  have asg: "assigned ?w v" if "v \<in> set ?bs" for v using that by (simp add: w(3) du_written_def)
  from assms(4) consider v where "v \<in> set ?bs" "p = booleanity v"
    | "p = cp_lc (lc_plus (fst (pack_loop ?bs (lc_const 0, 1))) (lc_var (du_packed g)))"
    by (auto simp: du_constraints [OF assms(1)] bool_constraint_def)
  then show ?thesis
  proof cases
    case 1
    then show ?thesis using bool asg by (simp add: holds_iff pv_booleanity)
  next
    case 2
    have "var_index (du_packed g) \<notin> du_written g" using assms(1) by (simp add: du_wf_def du_written_def du_bits_def image_Un)
    then have pk: "val ?w (du_packed g) = val pb (du_packed g)" "assigned ?w (du_packed g)"
      using assms(3) by (simp_all add: w du_pre_def)
    have len: "length ?bs \<le> 64" using assms(1) by (simp add: du_wf_def du_bits_def)
    have "bits_nat (map (bit_of ?w) ?bs) = unat (element (val pb (du_packed g)))"
      using assms(3) du_bits_val [OF assms(1,2)] by (intro bits_nat_of_bits) (simp_all add: du_pre_def bit_of_def)
    moreover have "pack_sum 1 (map (val ?w) ?bs) = fe (bits_nat (map (bit_of ?w) ?bs))"
      using bool len by (intro pack_sum_boolean) (auto simp: boolean_def)
    ultimately have "pv ?w p = 0" by (simp add: 2 du_pack_val pk fe_unat)
    moreover have "cp_vars p \<subseteq> insert (du_packed g) (set ?bs)"
      using order.trans [OF lc_vars_simps(3) Un_mono [OF pack_loop_vars order.refl], of ?bs "lc_const 0" 1 "lc_var (du_packed g)"]
      by (auto simp: 2 cp_lc_def)
    ultimately show ?thesis using asg pk(2) by (auto simp: holds_iff 2)
  qed
qed

interpretation double_unpack: gadget du_opcode DoubleUnpack_constraints DoubleUnpack_generateWitness du_wf du_pre du_written
proof
  show "du_pre g pb'" if "du_pre g pb" "assignment pb' = assignment pb" "fresh pb' = fresh pb" for g pb pb'
    using that val_same [OF that(2,3)] assigned_same [OF that(2)] by (simp add: du_pre_def)
qed (rule du_writes du_complete; assumption)+

lemma double_unpack_correct_facts:
  assumes "du_wf g" and "pb_inv pb"
  shows "\<forall>(p, nm) \<in> set (DoubleUnpack_constraints g). holds pb p \<Longrightarrow>
      unat (element (val pb (du_packed g))) = bits_nat (map (bit_of pb) (du_unpacked1 g))
        + 2 ^ length (du_unpacked1 g) * bits_nat (map (bit_of pb) (du_unpacked2 g))"
    and "\<lbrakk>du_pre g pb; pb_isSatisfied (du_opcode g) pb = Inr True;
      \<forall>c \<in> set (pb_constraintSystem (du_opcode g) pb). plain (constraint_poly c) \<and> var_index ` cp_vars (constraint_poly c) \<inter> du_written g = {}\<rbrakk>
      \<Longrightarrow> pb_isSatisfied (du_opcode g) (DoubleUnpack_generateWitness g (DoubleUnpack_generateConstraints g pb)) = Inr True"
proof -
  assume h: "\<forall>(p, nm) \<in> set (DoubleUnpack_constraints g). holds pb p"
  have bool: "boolean pb v" if "v \<in> set (du_bits g)" for v
    using h that by (auto simp: du_constraints [OF assms(1)] bool_constraint_def holds_iff pv_booleanity boolean_def)
  have len: "length (du_bits g) \<le> 64" using assms(1) by (simp add: du_wf_def du_bits_def)
  have "pack_sum 1 (map (val pb) (du_bits g)) + val pb (du_packed g) = 0"
    using h by (simp add: du_constraints [OF assms(1)] holds_iff du_pack_val)
  then have "val pb (du_packed g) = fe (bits_nat (map (bit_of pb) (du_bits g)))"
    using bool len by (simp add: pack_sum_boolean fe_add_eq_0)
  moreover have "bits_nat (map (bit_of pb) (du_bits g)) < 2 ^ 64"
    using bits_nat_less [of "map (bit_of pb) (du_bits g)"] len power_increasing [of "length (du_bits g)" 64 "2::nat"] by simp
  ultimately show "unat (element (val pb (du_packed g))) = bits_nat (map (bit_of pb) (du_unpacked1 g))
      + 2 ^ length (du_unpacked1 g) * bits_nat (map (bit_of pb) (du_unpacked2 g))"
    by (simp add: unat_fe du_bits_def bits_nat_append)
next
  assume "du_pre g pb" "pb_isSatisfied (du_opcode g) pb = Inr True"
    "\<forall>c \<in> set (pb_constraintSystem (du_opcode g) pb). plain (constraint_poly c) \<and> var_index ` cp_vars (constraint_poly c) \<inter> du_written g = {}"
  then show "pb_isSatisfied (du_opcode g) (DoubleUnpack_generateWitness g (DoubleUnpack_generateConstraints g pb)) = Inr True"
    unfolding DoubleUnpack_generateConstraints_def by (rule double_unpack.gadget_satisfied [OF assms])
qed

text \<open>Property C24. \<open>DoubleUnpack_Gadget\<close> splits an element into two words: every satisfying assignment
  gives the two arrays exactly the binary digits of the packed element, and the witness code satisfies the
  constraints whenever the packed element fits into the two words.\<close>

theorem double_unpack_correct:
  assumes "du_wf g" and "pb_inv pb"
  shows "((\<forall>(p, nm) \<in> set (DoubleUnpack_constraints g). holds pb p) \<longrightarrow> (unat (element (val pb (du_packed g))) = bits_nat (map (bit_of pb) (du_unpacked1 g))
        + 2 ^ length (du_unpacked1 g) * bits_nat (map (bit_of pb) (du_unpacked2 g))))
    \<and> ((du_pre g pb) \<longrightarrow> (pb_isSatisfied (du_opcode g) pb = Inr True) \<longrightarrow> (\<forall>c \<in> set (pb_constraintSystem (du_opcode g) pb). plain (constraint_poly c) \<and> var_index ` cp_vars (constraint_poly c) \<inter> du_written g = {}) \<longrightarrow> (pb_isSatisfied (du_opcode g) (DoubleUnpack_generateWitness g (DoubleUnpack_generateConstraints g pb)) = Inr True))"
  using double_unpack_correct_facts [OF assms] by blast

theorem double_unpack_correct_witness:
  "pb_isSatisfied Op_NONE (DoubleUnpack_generateWitness
      \<lparr>du_unpacked1 = [\<lparr>var_index = 1, var_newIndex = -1, var_name = ''a''\<rparr>], du_unpacked2 = [\<lparr>var_index = 2, var_newIndex = -1, var_name = ''b''\<rparr>],
        du_packed = \<lparr>var_index = 0, var_newIndex = -1, var_name = ''p''\<rparr>, du_opcode = Op_NONE\<rparr>
      (DoubleUnpack_generateConstraints
        \<lparr>du_unpacked1 = [\<lparr>var_index = 1, var_newIndex = -1, var_name = ''a''\<rparr>], du_unpacked2 = [\<lparr>var_index = 2, var_newIndex = -1, var_name = ''b''\<rparr>],
          du_packed = \<lparr>var_index = 0, var_newIndex = -1, var_name = ''p''\<rparr>, du_opcode = Op_NONE\<rparr>
        (set_val \<lparr>var_index = 0, var_newIndex = -1, var_name = ''p''\<rparr> (fe 2) (Protoboard_create 0)))) = Inr True"
  (is "pb_isSatisfied _ (DoubleUnpack_generateWitness ?g (DoubleUnpack_generateConstraints _ ?pb)) = _")
proof -
  have inv: "pb_inv (Protoboard_create 0)" by (simp add: pb_inv_def Protoboard_create_def)
  have "pb_isSatisfied (du_opcode ?g) (DoubleUnpack_generateWitness ?g (DoubleUnpack_generateConstraints ?g ?pb)) = Inr True"
    by (rule double_unpack_correct [THEN conjunct2, rule_format (no_asm)])
      (use inv in \<open>simp_all add: du_wf_def du_pre_def du_bits_def unat_fe pb_isSatisfied_iff\<close>)
  then show ?thesis by simp
qed

end
