(* ===== verification/AdditionGadget.thy ===== *)
theory AdditionGadget
  imports GadgetBase
begin

text \<open>
  \<open>Addition_Gadget\<close> of \<open>gadget.cpp\<close>: a ripple-carry adder over boolean variables. The
  constructor does not check the sizes of its arrays, so both methods index them unchecked; an
  access outside an array is the failure \<open>OutOfBounds\<close>.
\<close>

section \<open>The gadget\<close>

record Addition_Gadget =
  add_input1 :: "Variable list"
  add_input2 :: "Variable list"
  add_result :: "Variable list"
  add_carry :: "Variable list"
  add_flag :: Variable
  add_opcode :: Opcode

definition add_sizes :: "Addition_Gadget \<Rightarrow> bool" where
  "add_sizes g \<longleftrightarrow> (let n = length (add_result g) in 0 < n \<and> n \<le> length (add_input1 g) \<and> n \<le> length (add_input2 g)
     \<and> 2 \<le> length (add_carry g) \<and> n \<le> length (add_carry g))"

definition nextCarry :: "Addition_Gadget \<Rightarrow> nat \<Rightarrow> Variable" where
  "nextCarry g i = (if i < length (add_result g) - 1 then add_carry g ! (i + 1) else add_flag g)"

definition addition_bit :: "Addition_Gadget \<Rightarrow> nat \<Rightarrow> (CircuitPolynomial \<times> string) list" where
  "addition_bit g i = (let a = add_input1 g ! i; b = add_input2 g ! i; c = add_carry g ! i; d = add_result g ! i in
     [(cp_lc (lc_plus (lc_plus (lc_plus (lc_var a) (lc_var b)) (lc_var c)) (lc_var d)), ''input1[i] + input2[i] = result[i]''),
      (cp_plus (cp_plus (cp_plus (cp_times (cp_var a) (cp_var b)) (cp_var (nextCarry g i))) (cp_times (cp_var a) (cp_var c)))
        (cp_times (cp_var b) (cp_var c)), ''ADD Check next carry/flag'')])"

definition Addition_constraints :: "Addition_Gadget \<Rightarrow> (CircuitPolynomial \<times> string) list" where
  "Addition_constraints g = (let a = add_input1 g ! 0; b = add_input2 g ! 0; d = add_result g ! 0 in
     [(cp_lc (lc_plus (lc_plus (lc_var d) (lc_var a)) (lc_var b)), ''input1[0] + input2[0] = result[0]''),
      (cp_plus (cp_times (cp_var a) (cp_var b)) (cp_var (add_carry g ! 1)), ''carry1'')]
     @ concat (map (addition_bit g) [1..<length (add_result g)]))"

definition Addition_generateConstraints :: "Addition_Gadget \<Rightarrow> Protoboard \<Rightarrow> Protoboard result" where
  "Addition_generateConstraints g pb = (if add_sizes g then Inr (add_constraints (add_opcode g) (Addition_constraints g) pb) else Inl OutOfBounds)"

definition addition_step :: "Addition_Gadget \<Rightarrow> nat \<Rightarrow> Protoboard \<Rightarrow> Protoboard" where
  "addition_step g i pb = (let b1 = (val pb (add_input1 g ! i) = 1); b2 = (val pb (add_input2 g ! i) = 1); b3 = (val pb (add_carry g ! i) = 1);
     pb = set_val (add_result g ! i) (if (b1 \<noteq> b2) \<noteq> b3 then 1 else 0) pb
     in set_val (nextCarry g i) (if if b1 then b2 \<or> b3 else b2 \<and> b3 then 1 else 0) pb)"

definition Addition_witness :: "Addition_Gadget \<Rightarrow> Protoboard \<Rightarrow> Protoboard" where
  "Addition_witness g pb = (let
     pb = set_val (add_result g ! 0) (val pb (add_input1 g ! 0) + val pb (add_input2 g ! 0)) pb;
     pb = set_val (add_carry g ! 1) (val pb (add_input1 g ! 0) * val pb (add_input2 g ! 0)) pb
     in fold (addition_step g) [1..<length (add_result g)] pb)"

definition Addition_generateWitness :: "Addition_Gadget \<Rightarrow> Protoboard \<Rightarrow> Protoboard result" where
  "Addition_generateWitness g pb = (if add_sizes g then Inr (Addition_witness g pb) else Inl OutOfBounds)"

section \<open>The full adder\<close>

text \<open>The variables the gadget determines: the result bits, the carries from the second on, and the flag.\<close>

definition add_outs :: "Addition_Gadget \<Rightarrow> Variable list" where
  "add_outs g = add_result g @ tl (add_carry g) @ [add_flag g]"

definition add_wf :: "Addition_Gadget \<Rightarrow> bool" where
  "add_wf g \<longleftrightarrow> 2 \<le> length (add_result g) \<and> length (add_input1 g) = length (add_result g)
     \<and> length (add_input2 g) = length (add_result g) \<and> length (add_carry g) = length (add_result g)
     \<and> distinct (map var_index (add_outs g))
     \<and> var_index ` (set (add_input1 g) \<union> set (add_input2 g)) \<inter> var_index ` set (add_outs g) = {}"

definition add_pre :: "Addition_Gadget \<Rightarrow> Protoboard \<Rightarrow> bool" where
  "add_pre g pb \<longleftrightarrow> (\<forall>v \<in> set (add_input1 g) \<union> set (add_input2 g). assigned pb v \<and> boolean pb v)"

definition add_written :: "Addition_Gadget \<Rightarrow> int set" where
  "add_written g = var_index ` set (add_outs g)"

lemma add_wf_sizes: "add_wf g \<Longrightarrow> add_sizes g"
  by (auto simp: add_wf_def add_sizes_def Let_def)

text \<open>The carry into bit \<open>i\<close> as a field element, and what the constraints say of bit \<open>i\<close>.\<close>

definition carry_in :: "Addition_Gadget \<Rightarrow> Protoboard \<Rightarrow> nat \<Rightarrow> FElem" where
  "carry_in g pb i = (if i = 0 then 0 else val pb (add_carry g ! i))"

definition adder_bit :: "Addition_Gadget \<Rightarrow> Protoboard \<Rightarrow> nat \<Rightarrow> bool" where
  "adder_bit g pb i \<longleftrightarrow> (let a = val pb (add_input1 g ! i); b = val pb (add_input2 g ! i); c = carry_in g pb i in
     val pb (add_result g ! i) = a + b + c \<and> val pb (nextCarry g i) = a * b + a * c + b * c)"

lemma outs_nth:
  assumes "add_wf g" "i < length (add_result g)"
  shows "add_outs g ! i = add_result g ! i" "add_outs g ! (length (add_result g) + i) = nextCarry g i"
    "length (add_outs g) = 2 * length (add_result g)"
  using assms by (auto simp: add_wf_def add_outs_def nextCarry_def nth_append nth_tl)

lemma outs_index:
  assumes "add_wf g" "i < length (add_result g)" "j < length (add_result g)"
  shows "var_index (add_result g ! i) = var_index (add_result g ! j) \<longleftrightarrow> i = j"
    "var_index (nextCarry g i) = var_index (nextCarry g j) \<longleftrightarrow> i = j"
    "var_index (add_result g ! i) \<noteq> var_index (nextCarry g j)"
proof -
  have d: "distinct (map var_index (add_outs g))" using assms(1) by (simp add: add_wf_def)
  have inj: "var_index (add_outs g ! x) = var_index (add_outs g ! y) \<longleftrightarrow> x = y"
    if "x < 2 * length (add_result g)" "y < 2 * length (add_result g)" for x y
    using nth_eq_iff_index_eq [OF d, of x y] that outs_nth(3) [OF assms(1,2)] by simp
  note o = outs_nth(1,2) [OF assms(1,2)] outs_nth(1,2) [OF assms(1,3)]
  show "var_index (add_result g ! i) = var_index (add_result g ! j) \<longleftrightarrow> i = j"
    using inj [of i j] assms o by simp
  show "var_index (nextCarry g i) = var_index (nextCarry g j) \<longleftrightarrow> i = j"
    using inj [of "length (add_result g) + i" "length (add_result g) + j"] assms o by simp
  show "var_index (add_result g ! i) \<noteq> var_index (nextCarry g j)"
    using inj [of i "length (add_result g) + j"] assms o by simp
qed

lemma carry_next: "add_wf g \<Longrightarrow> 0 < i \<Longrightarrow> i < length (add_result g) \<Longrightarrow> add_carry g ! i = nextCarry g (i - 1)"
  by (auto simp: nextCarry_def)

lemma input_index:
  assumes "add_wf g" "v \<in> set (add_input1 g) \<union> set (add_input2 g)" "i < length (add_result g)"
  shows "var_index v \<noteq> var_index (add_result g ! i)" "var_index v \<noteq> var_index (nextCarry g i)"
proof -
  have "add_result g ! i \<in> set (add_outs g)" "nextCarry g i \<in> set (add_outs g)"
    using outs_nth [OF assms(1,3)] assms(3) nth_mem [of i "add_outs g"] nth_mem [of "length (add_result g) + i" "add_outs g"] by simp_all
  moreover have "var_index ` (set (add_input1 g) \<union> set (add_input2 g)) \<inter> var_index ` set (add_outs g) = {}"
    using assms(1) by (simp add: add_wf_def)
  ultimately show "var_index v \<noteq> var_index (add_result g ! i)" "var_index v \<noteq> var_index (nextCarry g i)"
    using disjointD imageI assms(2) by metis+
qed

section \<open>What the constraints mean\<close>

lemma addition_constraints_plain: "(p, nm) \<in> set (Addition_constraints g) \<Longrightarrow> plain p"
  by (auto simp: Addition_constraints_def addition_bit_def Let_def)

lemma sum4_zero: "a + b + c + d = 0 \<longleftrightarrow> d = a + b + c" for a b c d :: FElem
  using fe_add_eq_0 [of d "a + b + c"] by (simp add: add_ac)

lemma adder_bit_iff:
  assumes "add_wf g" "i < length (add_result g)"
  shows "adder_bit g pb i \<longleftrightarrow> (\<forall>(p, nm) \<in> set (if i = 0 then take 2 (Addition_constraints g) else addition_bit g i). pv pb p = 0)"
proof (cases "i = 0")
  case True
  have n: "nextCarry g 0 = add_carry g ! 1" using assms(1) by (simp add: nextCarry_def add_wf_def)
  show ?thesis using fe_add_eq_0 [of "val pb (add_result g ! 0)"] fe_add_eq_0 [of _ "val pb (add_carry g ! 1)"]
    by (auto simp: True Addition_constraints_def adder_bit_def carry_in_def Let_def pv_simps lv_simps n add.assoc)
next
  case False
  have "a * b + x + a * c + b * c = 0 \<longleftrightarrow> x = a * b + a * c + b * c" for a b c x :: FElem
    using fe_add_eq_0 [of x "a * b + a * c + b * c"] by (simp add: add_ac)
  then show ?thesis using False
    by (simp add: addition_bit_def adder_bit_def carry_in_def Let_def pv_simps lv_simps sum4_zero)
qed

lemma constraints_adder:
  assumes "add_wf g"
  shows "(\<forall>(p, nm) \<in> set (Addition_constraints g). pv pb p = 0) \<longleftrightarrow> (\<forall>i < length (add_result g). adder_bit g pb i)"
proof -
  have "set (Addition_constraints g) = (\<Union>i < length (add_result g). set (if i = 0 then take 2 (Addition_constraints g) else addition_bit g i))"
  proof -
    have "{..<length (add_result g)} = insert 0 {1..<length (add_result g)}" using assms by (auto simp: add_wf_def)
    then show ?thesis by (auto simp: Addition_constraints_def Let_def)
  qed
  then show ?thesis using adder_bit_iff [OF assms] by auto
qed

section \<open>Soundness\<close>

lemma bits_nat_snoc: "bits_nat (bs @ [b]) = bits_nat bs + 2 ^ length bs * of_bool b"
  by (simp add: bits_nat_append)

lemma full_adder:
  fixes a b c :: bool
  defines "fb \<equiv> \<lambda>x. if x then 1 else (0 :: FElem)"
  shows "fb a + fb b + fb c = fb ((a \<noteq> b) \<noteq> c)" "fb a * fb b + fb a * fb c + fb b * fb c = fb (if a then b \<or> c else b \<and> c)"
    "of_bool a + of_bool b + of_bool c = (of_bool ((a \<noteq> b) \<noteq> c) + 2 * of_bool (if a then b \<or> c else b \<and> c) :: nat)"
  by (cases a; cases b; cases c; simp add: fb_def)+

lemma adder_prefix:
  assumes "add_wf g" "\<forall>v \<in> set (add_input1 g) \<union> set (add_input2 g). boolean pb v" "\<forall>i < k. adder_bit g pb i"
    "0 < k" "k \<le> length (add_result g)"
  shows "(\<forall>i < k. boolean pb (add_result g ! i)) \<and> boolean pb (nextCarry g (k - 1)) \<and>
    bits_nat (map (bit_of pb) (take k (add_result g))) + 2 ^ k * of_bool (bit_of pb (nextCarry g (k - 1))) =
    bits_nat (map (bit_of pb) (take k (add_input1 g))) + bits_nat (map (bit_of pb) (take k (add_input2 g)))"
  using assms(3-5)
proof (induction k)
  case (Suc k)
  let ?n = "length (add_result g)" let ?a = "add_input1 g ! k" and ?b = "add_input2 g ! k" and ?d = "add_result g ! k"
  have len: "length (add_input1 g) = ?n" "length (add_input2 g) = ?n" using assms(1) by (simp_all add: add_wf_def)
  have k: "k < ?n" using Suc.prems by simp
  have ab: "boolean pb ?a" "boolean pb ?b" using assms(2) k len by auto
  define c where "c = (0 < k \<and> bit_of pb (nextCarry g (k - 1)))"
  have prev: "0 < k \<Longrightarrow> (\<forall>i < k. boolean pb (add_result g ! i)) \<and> boolean pb (nextCarry g (k - 1)) \<and>
      bits_nat (map (bit_of pb) (take k (add_result g))) + 2 ^ k * of_bool (bit_of pb (nextCarry g (k - 1))) =
      bits_nat (map (bit_of pb) (take k (add_input1 g))) + bits_nat (map (bit_of pb) (take k (add_input2 g)))"
    using Suc by simp
  have cin: "carry_in g pb k = (if c then 1 else 0)"
    using prev val_boolean carry_next [OF assms(1) _ k] by (auto simp: carry_in_def c_def)
  have sum: "bits_nat (map (bit_of pb) (take k (add_result g))) + 2 ^ k * of_bool c =
      bits_nat (map (bit_of pb) (take k (add_input1 g))) + bits_nat (map (bit_of pb) (take k (add_input2 g)))"
    using prev by (cases "k = 0") (simp_all add: c_def)
  note fa = full_adder [of "bit_of pb ?a" "bit_of pb ?b" c]
  have "val pb ?d = (if (bit_of pb ?a \<noteq> bit_of pb ?b) \<noteq> c then 1 else 0)"
    "val pb (nextCarry g k) = (if (if bit_of pb ?a then bit_of pb ?b \<or> c else bit_of pb ?b \<and> c) then 1 else 0)"
    using Suc.prems(1) fa(1,2) by (simp_all add: adder_bit_def Let_def cin val_boolean [OF ab(1)] val_boolean [OF ab(2)] del: if_split)
  then have d: "boolean pb ?d" "bit_of pb ?d = ((bit_of pb ?a \<noteq> bit_of pb ?b) \<noteq> c)"
    and nx: "boolean pb (nextCarry g k)" "bit_of pb (nextCarry g k) = (if bit_of pb ?a then bit_of pb ?b \<or> c else bit_of pb ?b \<and> c)"
    by (auto simp: boolean_def bit_of_def split: if_splits)
  have "bits_nat (map (bit_of pb) (take (Suc k) (add_result g))) + 2 ^ Suc k * of_bool (bit_of pb (nextCarry g k)) =
      bits_nat (map (bit_of pb) (take k (add_result g))) + 2 ^ k * (of_bool (bit_of pb ?a) + of_bool (bit_of pb ?b) + of_bool c)"
    unfolding fa(3) d(2) [symmetric] nx(2) [symmetric] using k by (simp add: take_Suc_conv_app_nth bits_nat_snoc algebra_simps)
  also have "\<dots> = bits_nat (map (bit_of pb) (take (Suc k) (add_input1 g))) + bits_nat (map (bit_of pb) (take (Suc k) (add_input2 g)))"
    using sum k len by (simp add: take_Suc_conv_app_nth bits_nat_snoc algebra_simps)
  finally show ?case using d(1) nx(1) prev by (auto simp: less_Suc_eq)
qed simp

lemma adder_sum:
  assumes "add_wf g" "\<forall>v \<in> set (add_input1 g) \<union> set (add_input2 g). boolean pb v" "\<forall>i < length (add_result g). adder_bit g pb i"
  shows "bits_nat (map (bit_of pb) (add_result g)) + 2 ^ length (add_result g) * of_bool (bit_of pb (add_flag g)) =
    bits_nat (map (bit_of pb) (add_input1 g)) + bits_nat (map (bit_of pb) (add_input2 g))"
    and "boolean pb (add_flag g)" and "v \<in> set (add_result g) \<Longrightarrow> boolean pb v"
proof -
  have n: "0 < length (add_result g)" "length (add_input1 g) = length (add_result g)" "length (add_input2 g) = length (add_result g)"
    using assms(1) by (auto simp: add_wf_def)
  have nx: "nextCarry g (length (add_result g) - 1) = add_flag g" by (simp add: nextCarry_def)
  note p = adder_prefix [OF assms(1,2,3) n(1) order.refl, unfolded nx]
  show "bits_nat (map (bit_of pb) (add_result g)) + 2 ^ length (add_result g) * of_bool (bit_of pb (add_flag g)) =
    bits_nat (map (bit_of pb) (add_input1 g)) + bits_nat (map (bit_of pb) (add_input2 g))" using p n by simp
  show "boolean pb (add_flag g)" using p by blast
  show "v \<in> set (add_result g) \<Longrightarrow> boolean pb v" using p by (auto simp: in_set_conv_nth)
qed

section \<open>Completeness\<close>

lemma addition_step_writes: "writes_only {var_index (add_result g ! i), var_index (nextCarry g i)} (addition_step g i)"
proof -
  have "pb_inv pb \<Longrightarrow> pb_inv (addition_step g i pb)" for pb by (simp add: addition_step_def Let_def)
  then show ?thesis by (auto simp: writes_only_def addition_step_def Let_def)
qed

lemma Addition_witness_unfold: "add_wf g \<Longrightarrow> Addition_witness g pb = fold (addition_step g) [1..<length (add_result g)]
    (set_val (nextCarry g 0) (val (set_val (add_result g ! 0) (val pb (add_input1 g ! 0) + val pb (add_input2 g ! 0)) pb) (add_input1 g ! 0)
      * val (set_val (add_result g ! 0) (val pb (add_input1 g ! 0) + val pb (add_input2 g ! 0)) pb) (add_input2 g ! 0))
      (set_val (add_result g ! 0) (val pb (add_input1 g ! 0) + val pb (add_input2 g ! 0)) pb))"
  by (simp add: Addition_witness_def Let_def nextCarry_def add_wf_def)

lemma adder_bit_frame:
  assumes "add_wf g" "i < k" "k < length (add_result g)" "writes_only {var_index (add_result g ! k), var_index (nextCarry g k)} f" "pb_inv pb"
  shows "adder_bit g (f pb) i = adder_bit g pb i" and "carry_in g (f pb) k = carry_in g pb k"
proof -
  let ?n = "length (add_result g)"
  have len: "length (add_input1 g) = ?n" "length (add_input2 g) = ?n" using assms(1) by (simp_all add: add_wf_def)
  note same = writes_onlyD(4) [OF assms(4,5)]
  have inp: "val (f pb) v = val pb v" if "v \<in> set (add_input1 g) \<union> set (add_input2 g)" for v
    using input_index [OF assms(1) that assms(3)] by (intro same) simp
  have out: "val (f pb) (add_result g ! j) = val pb (add_result g ! j)" "val (f pb) (nextCarry g j) = val pb (nextCarry g j)" if "j < k" for j
  proof -
    have j: "j < ?n" "j \<noteq> k" using that assms(3) by simp_all
    show "val (f pb) (add_result g ! j) = val pb (add_result g ! j)"
      using outs_index(1,3) [OF assms(1) j(1) assms(3)] j(2) by (intro same) simp
    show "val (f pb) (nextCarry g j) = val pb (nextCarry g j)"
      using outs_index(2) [OF assms(1) j(1) assms(3)] outs_index(3) [OF assms(1) assms(3) j(1)] j(2) by (intro same) (simp add: eq_commute)
  qed
  have cin: "carry_in g (f pb) j = carry_in g pb j" if "j \<le> k" for j
    using that assms(3) out(2) [of "j - 1"] carry_next [OF assms(1), of j] by (auto simp: carry_in_def)
  show "carry_in g (f pb) k = carry_in g pb k" using cin by simp
  show "adder_bit g (f pb) i = adder_bit g pb i"
    using cin [of i] out [of i] inp [of "add_input1 g ! i"] inp [of "add_input2 g ! i"] assms(2,3) len by (simp add: adder_bit_def Let_def)
qed

lemma addition_step_bit:
  assumes "add_wf g" "0 < k" "k < length (add_result g)" "pb_inv pb" "\<forall>v \<in> set (add_input1 g) \<union> set (add_input2 g). boolean pb v"
    "boolean pb (add_carry g ! k)"
  shows "adder_bit g (addition_step g k pb) k"
proof -
  let ?a = "add_input1 g ! k" and ?b = "add_input2 g ! k" and ?c = "add_carry g ! k"
  have len: "length (add_input1 g) = length (add_result g)" "length (add_input2 g) = length (add_result g)" using assms(1) by (simp_all add: add_wf_def)
  have ab: "?a \<in> set (add_input1 g) \<union> set (add_input2 g)" "?b \<in> set (add_input1 g) \<union> set (add_input2 g)" using assms(3) len by simp_all
  note w = writes_onlyD(4) [OF addition_step_writes [of g k] assms(4)]
  have inp: "val (addition_step g k pb) v = val pb v" if "v \<in> set (add_input1 g) \<union> set (add_input2 g)" for v
    using input_index [OF assms(1) that assms(3)] by (intro w) simp
  have cin: "carry_in g (addition_step g k pb) k = val pb ?c"
    using adder_bit_frame(2) [OF assms(1-3) addition_step_writes assms(4)] assms(2) by (simp add: carry_in_def)
  have ne: "var_index (add_result g ! k) \<noteq> var_index (nextCarry g k)" using outs_index(3) [OF assms(1,3,3)] .
  have "val (addition_step g k pb) (add_result g ! k) = (if (bit_of pb ?a \<noteq> bit_of pb ?b) \<noteq> bit_of pb ?c then 1 else 0)"
    "val (addition_step g k pb) (nextCarry g k) = (if (if bit_of pb ?a then bit_of pb ?b \<or> bit_of pb ?c else bit_of pb ?b \<and> bit_of pb ?c) then 1 else 0)"
    using assms(4) ne by (simp_all add: addition_step_def Let_def bit_of_def)
  then show ?thesis unfolding adder_bit_def Let_def cin inp [OF ab(1)] inp [OF ab(2)]
    using full_adder(1,2) [of "bit_of pb ?a" "bit_of pb ?b" "bit_of pb ?c"] assms(5,6) ab by (simp only: val_boolean)
qed

lemma addition_loop:
  assumes "add_wf g" "pb_inv pb" "\<forall>v \<in> set (add_input1 g) \<union> set (add_input2 g). boolean pb v" "adder_bit g pb 0" "0 < k" "k \<le> length (add_result g)"
  defines "w \<equiv> fold (addition_step g) [1..<k] pb"
  shows "pb_inv w \<and> (\<forall>v \<in> set (add_input1 g) \<union> set (add_input2 g). val w v = val pb v) \<and> (\<forall>i < k. adder_bit g w i)"
  using assms(5,6) unfolding w_def
proof (induction k)
  case (Suc k)
  show ?case
  proof (cases "k = 0")
    case False
    let ?v = "fold (addition_step g) [1..<k] pb"
    have k: "0 < k" "k < length (add_result g)" using False Suc.prems by simp_all
    with Suc have IH: "pb_inv ?v" "\<forall>v \<in> set (add_input1 g) \<union> set (add_input2 g). val ?v v = val pb v" "\<forall>i < k. adder_bit g ?v i" by simp_all
    have bool: "\<forall>v \<in> set (add_input1 g) \<union> set (add_input2 g). boolean ?v v" using IH(2) assms(3) by (simp add: boolean_def)
    have "boolean ?v (nextCarry g (k - 1))" using adder_prefix [OF assms(1) bool IH(3) k(1)] k(2) by simp
    then have "boolean ?v (add_carry g ! k)" using carry_next [OF assms(1) k] by simp
    then have bk: "adder_bit g (addition_step g k ?v) k" using addition_step_bit [OF assms(1) k IH(1) bool] by simp
    have inp: "val (addition_step g k ?v) v = val ?v v" if "v \<in> set (add_input1 g) \<union> set (add_input2 g)" for v
      using input_index [OF assms(1) that k(2)] by (intro writes_onlyD(4) [OF addition_step_writes IH(1)]) simp
    have "[1..<Suc k] = [1..<k] @ [k]" using k(1) by simp
    then have "fold (addition_step g) [1..<Suc k] pb = addition_step g k ?v" by simp
    then show ?thesis
      using bk inp IH writes_onlyD(1) [OF addition_step_writes IH(1)] adder_bit_frame(1) [OF assms(1) _ k(2) addition_step_writes IH(1)]
      by (auto simp: less_Suc_eq)
  qed (use assms(2,4) in simp)
qed simp

lemma add_writes: "add_wf g \<Longrightarrow> writes_only (add_written g) (Addition_witness g)"
proof -
  assume wf: "add_wf g"
  let ?n = "length (add_result g)" let ?S = "\<lambda>i. {var_index (add_result g ! i), var_index (nextCarry g i)}"
  have 1: "writes_only (\<Union> (?S ` set [1..<?n])) (fold (addition_step g) [1..<?n])" by (intro writes_only_fold addition_step_writes)
  have 2: "writes_only (?S 0) (\<lambda>pb. set_val (nextCarry g 0) (F pb) (set_val (add_result g ! 0) (G pb) pb))" for F G
    using writes_only_comp [OF writes_only_set_val [of "add_result g ! 0" G] writes_only_set_val [of "nextCarry g 0"]]
    by (auto simp: writes_only_def)
  have "writes_only (?S 0 \<union> \<Union> (?S ` set [1..<?n])) (Addition_witness g)"
    unfolding Addition_witness_unfold [OF wf, abs_def] by (rule writes_only_comp [OF 2 1])
  moreover have "?S 0 \<union> \<Union> (?S ` set [1..<?n]) = add_written g"
  proof -
    have n0: "0 < ?n" using wf by (auto simp: add_wf_def)
    then have n: "{..<?n} = insert 0 (set [1..<?n])" "length (add_outs g) = 2 * ?n" using outs_nth(3) [OF wf n0] by auto
    have "set (add_outs g) = (\<lambda>i. add_outs g ! i) ` ({..<?n} \<union> (\<lambda>i. ?n + i) ` {..<?n})"
    proof -
      have "(\<lambda>i. ?n + i) ` {..<?n} = {?n..<2 * ?n}" using image_add_atLeastLessThan [of ?n 0 ?n] by (simp add: lessThan_atLeast0 mult_2)
      then have "{..<2 * ?n} = {..<?n} \<union> (\<lambda>i. ?n + i) ` {..<?n}" by auto
      then show ?thesis by (simp add: set_conv_nth n(2) flip: lessThan_def) auto
    qed
    also have "\<dots> = (\<lambda>i. add_result g ! i) ` {..<?n} \<union> nextCarry g ` {..<?n}"
      using outs_nth(1,2) [OF wf] by (auto simp: image_Un image_image)
    finally show ?thesis unfolding add_written_def n(1) by auto
  qed
  ultimately show ?thesis by simp
qed

lemma add_start:
  assumes "add_wf g" "pb_inv pb"
  defines "p0 \<equiv> set_val (add_result g ! 0) (val pb (add_input1 g ! 0) + val pb (add_input2 g ! 0)) pb"
  defines "p1 \<equiv> set_val (nextCarry g 0) (val p0 (add_input1 g ! 0) * val p0 (add_input2 g ! 0)) p0"
  shows "adder_bit g p1 0" "pb_inv p1" "v \<in> set (add_input1 g) \<union> set (add_input2 g) \<Longrightarrow> val p1 v = val pb v"
proof -
  have n: "0 < length (add_result g)" and len: "length (add_input1 g) = length (add_result g)" "length (add_input2 g) = length (add_result g)"
    using assms(1) by (auto simp: add_wf_def)
  have ne: "var_index (add_result g ! 0) \<noteq> var_index (nextCarry g 0)" using outs_index(3) [OF assms(1) n n] .
  have inp: "val p0 v = val pb v" "val p1 v = val pb v" if "v \<in> set (add_input1 g) \<union> set (add_input2 g)" for v
    using input_index [OF assms(1) that n] assms(2) by (simp_all add: p0_def p1_def)
  have in0: "add_input1 g ! 0 \<in> set (add_input1 g) \<union> set (add_input2 g)" "add_input2 g ! 0 \<in> set (add_input1 g) \<union> set (add_input2 g)"
    using n len by (auto simp: nth_mem)
  have "val p1 (add_result g ! 0) = val pb (add_input1 g ! 0) + val pb (add_input2 g ! 0)"
    "val p1 (nextCarry g 0) = val pb (add_input1 g ! 0) * val pb (add_input2 g ! 0)"
    using assms(2) ne inp(1) in0 by (simp_all add: p0_def p1_def)
  then show "adder_bit g p1 0" using inp(2) in0 by (simp add: adder_bit_def carry_in_def Let_def)
  show "pb_inv p1" using assms(2) by (simp add: p0_def p1_def)
  show "v \<in> set (add_input1 g) \<union> set (add_input2 g) \<Longrightarrow> val p1 v = val pb v" using inp(2) by blast
qed

lemma addition_vars:
  assumes "add_wf g" "(p, nm) \<in> set (Addition_constraints g)"
  shows "cp_vars p \<subseteq> set (add_input1 g) \<union> set (add_input2 g) \<union> set (add_outs g)"
proof -
  define V where "V = set (add_input1 g) \<union> set (add_input2 g) \<union> set (add_outs g)"
  let ?n = "length (add_result g)"
  have in_V: "add_input1 g ! i \<in> V" "add_input2 g ! i \<in> V" "add_result g ! i \<in> V" "nextCarry g i \<in> V" if "i < ?n" for i
    using that assms(1) outs_nth [OF assms(1) that] nth_mem [of i "add_outs g"] nth_mem [of "?n + i" "add_outs g"]
    by (auto simp: add_wf_def V_def)
  have c_in: "add_carry g ! i \<in> V" if "0 < i" "i < ?n" for i using in_V(4) [of "i - 1"] carry_next [OF assms(1) that] that by simp
  have n: "0 < ?n" "1 < ?n" using assms(1) by (auto simp: add_wf_def)
  from assms(2) have "cp_over V p"
    using in_V [OF n(1)] c_in [of "Suc 0"] n in_V c_in
    by (auto simp: Addition_constraints_def addition_bit_def Let_def Suc_le_eq)
  then show ?thesis by (simp add: cp_over_def V_def)
qed

lemma add_complete:
  assumes "add_wf g" "pb_inv pb" "add_pre g pb" "(p, nm) \<in> set (Addition_constraints g)"
  shows "holds (Addition_witness g pb) p"
proof -
  let ?w = "Addition_witness g pb"
  note w = writes_onlyD [OF add_writes [OF assms(1)] assms(2)]
  note start = add_start [OF assms(1,2)]
  have bool: "\<forall>v \<in> set (add_input1 g) \<union> set (add_input2 g). boolean pb v" using assms(3) by (simp add: add_pre_def)
  have n: "0 < length (add_result g)" using assms(1) by (auto simp: add_wf_def)
  have "\<forall>i < length (add_result g). adder_bit g ?w i"
    unfolding Addition_witness_unfold [OF assms(1)]
    using addition_loop [OF assms(1) start(2) _ start(1) n order.refl] bool start(3) by (simp add: boolean_def)
  then have "pv ?w p = 0" using constraints_adder [OF assms(1)] assms(4) by blast
  moreover have "assigned ?w v" if "v \<in> cp_vars p" for v
    using subsetD [OF addition_vars [OF assms(1,4)] that] assms(3) by (auto simp: w(3) add_written_def add_pre_def)
  ultimately show ?thesis by (simp add: holds_iff addition_constraints_plain [OF assms(4)])
qed

interpretation addition: gadget add_opcode Addition_constraints Addition_witness add_wf add_pre add_written
proof
  show "add_pre g pb'" if "add_pre g pb" "assignment pb' = assignment pb" "fresh pb' = fresh pb" for g pb pb'
    using that val_same [OF that(2,3)] assigned_same [OF that(2)] by (simp add: add_pre_def boolean_def)
qed (rule add_writes add_complete; assumption)+

lemma addition_gadget_correct_facts:
  assumes "pb_inv pb"
  shows "\<lbrakk>add_wf g; \<forall>v \<in> set (add_input1 g) \<union> set (add_input2 g). boolean pb v; \<forall>(p, nm) \<in> set (Addition_constraints g). holds pb p\<rbrakk> \<Longrightarrow>
      bits_nat (map (bit_of pb) (add_result g)) + 2 ^ length (add_result g) * of_bool (bit_of pb (add_flag g)) =
        bits_nat (map (bit_of pb) (add_input1 g)) + bits_nat (map (bit_of pb) (add_input2 g))
      \<and> (\<forall>v \<in> insert (add_flag g) (set (add_result g)). boolean pb v)"
    and "\<lbrakk>add_wf g; add_pre g pb; pb_isSatisfied (add_opcode g) pb = Inr True;
      \<forall>c \<in> set (pb_constraintSystem (add_opcode g) pb). plain (constraint_poly c) \<and> var_index ` cp_vars (constraint_poly c) \<inter> add_written g = {}\<rbrakk>
      \<Longrightarrow> res_bind (res_bind (Addition_generateConstraints g pb) (Addition_generateWitness g)) (pb_isSatisfied (add_opcode g)) = Inr True"
    and "length (add_carry g) < 2 \<Longrightarrow> Addition_generateConstraints g pb = Inl OutOfBounds \<and> Addition_generateWitness g pb = Inl OutOfBounds"
proof -
  assume wf: "add_wf g" and b: "\<forall>v \<in> set (add_input1 g) \<union> set (add_input2 g). boolean pb v" and h: "\<forall>(p, nm) \<in> set (Addition_constraints g). holds pb p"
  have "\<forall>(p, nm) \<in> set (Addition_constraints g). pv pb p = 0" using h addition_constraints_plain holds_iff by blast
  then have "\<forall>i < length (add_result g). adder_bit g pb i" using constraints_adder [OF wf] by blast
  from adder_sum [OF wf b this] show "bits_nat (map (bit_of pb) (add_result g)) + 2 ^ length (add_result g) * of_bool (bit_of pb (add_flag g)) =
        bits_nat (map (bit_of pb) (add_input1 g)) + bits_nat (map (bit_of pb) (add_input2 g))
      \<and> (\<forall>v \<in> insert (add_flag g) (set (add_result g)). boolean pb v)" by blast
next
  assume a: "add_wf g" "add_pre g pb" "pb_isSatisfied (add_opcode g) pb = Inr True"
    "\<forall>c \<in> set (pb_constraintSystem (add_opcode g) pb). plain (constraint_poly c) \<and> var_index ` cp_vars (constraint_poly c) \<inter> add_written g = {}"
  then show "res_bind (res_bind (Addition_generateConstraints g pb) (Addition_generateWitness g)) (pb_isSatisfied (add_opcode g)) = Inr True"
    using addition.gadget_satisfied [OF a(1) assms a(2-4)] by (simp add: Addition_generateConstraints_def Addition_generateWitness_def add_wf_sizes)
qed (simp add: Addition_generateConstraints_def Addition_generateWitness_def add_sizes_def Let_def)

text \<open>Property C25. \<open>Addition_Gadget\<close> adds: with boolean inputs, every assignment that satisfies its
  constraints has boolean results and flag, and result and flag are the sum of the inputs with its carry
  out; the witness code runs and satisfies the constraints; and with arrays that are too short both methods
  access memory outside of them.\<close>

theorem addition_gadget_correct:
  assumes "pb_inv pb"
  shows "((add_wf g) \<longrightarrow> (\<forall>v \<in> set (add_input1 g) \<union> set (add_input2 g). boolean pb v) \<longrightarrow> (\<forall>(p, nm) \<in> set (Addition_constraints g). holds pb p) \<longrightarrow> (bits_nat (map (bit_of pb) (add_result g)) + 2 ^ length (add_result g) * of_bool (bit_of pb (add_flag g)) =
        bits_nat (map (bit_of pb) (add_input1 g)) + bits_nat (map (bit_of pb) (add_input2 g))
      \<and> (\<forall>v \<in> insert (add_flag g) (set (add_result g)). boolean pb v)))
    \<and> ((add_wf g) \<longrightarrow> (add_pre g pb) \<longrightarrow> (pb_isSatisfied (add_opcode g) pb = Inr True) \<longrightarrow> (\<forall>c \<in> set (pb_constraintSystem (add_opcode g) pb). plain (constraint_poly c) \<and> var_index ` cp_vars (constraint_poly c) \<inter> add_written g = {}) \<longrightarrow> (res_bind (res_bind (Addition_generateConstraints g pb) (Addition_generateWitness g)) (pb_isSatisfied (add_opcode g)) = Inr True))
    \<and> ((length (add_carry g) < 2) \<longrightarrow> (Addition_generateConstraints g pb = Inl OutOfBounds \<and> Addition_generateWitness g pb = Inl OutOfBounds))"
  using addition_gadget_correct_facts [OF assms] by blast

text \<open>Two bits: 3 + 1 = 0 with the flag set.\<close>

definition two_bit_adder :: Addition_Gadget where
  "two_bit_adder = (let v = \<lambda>i. \<lparr>var_index = i, var_newIndex = -1, var_name = ''v''\<rparr> in
     \<lparr>add_input1 = [v 0, v 1], add_input2 = [v 2, v 3], add_result = [v 4, v 5], add_carry = [v 6, v 7], add_flag = v 8, add_opcode = Op_ADD\<rparr>)"

definition two_bit_board :: Protoboard where
  "two_bit_board = (let v = \<lambda>i. \<lparr>var_index = i, var_newIndex = -1, var_name = ''v''\<rparr> in
     set_val (v 3) 0 (set_val (v 2) 1 (set_val (v 1) 1 (set_val (v 0) 1 (Protoboard_create 0)))))"

theorem addition_gadget_correct_witness:
  "res_bind (res_bind (Addition_generateConstraints two_bit_adder two_bit_board) (Addition_generateWitness two_bit_adder)) (pb_isSatisfied Op_ADD) = Inr True"
proof -
  have inv: "pb_inv two_bit_board" by (simp add: two_bit_board_def Let_def)
  have "res_bind (res_bind (Addition_generateConstraints two_bit_adder two_bit_board) (Addition_generateWitness two_bit_adder))
      (pb_isSatisfied (add_opcode two_bit_adder)) = Inr True"
    by (rule addition_gadget_correct [THEN conjunct2, THEN conjunct1, rule_format (no_asm), OF inv])
      (simp_all add: two_bit_adder_def two_bit_board_def Let_def add_wf_def add_outs_def add_pre_def boolean_def pb_isSatisfied_iff)
  then show ?thesis by (simp add: two_bit_adder_def Let_def)
qed

end
