(* ===== verification/Assignments.thy ===== *)
theory Assignments
  imports GadgetBase
begin

text \<open>
  Witness code that is a straight sequence of assignments \<open>val(v) = e\<close>. When no assignment
  overwrites a variable that an earlier one has read or written, all of them hold as equations
  on the final board.
\<close>

type_synonym assign = "Variable \<times> (Protoboard \<Rightarrow> FElem)"

definition run :: "assign list \<Rightarrow> Protoboard \<Rightarrow> Protoboard" where
  "run as = fold (\<lambda>(v, e) pb. set_val v (e pb) pb) as"

definition targets :: "assign list \<Rightarrow> int set" where
  "targets as = (\<lambda>a. var_index (fst a)) ` set as"

text \<open>The expression does not depend on the variables with an index in \<open>W\<close>.\<close>

definition ignores :: "int set \<Rightarrow> (Protoboard \<Rightarrow> 'a) \<Rightarrow> bool" where
  "ignores W e \<longleftrightarrow> (\<forall>pb pb'. (\<forall>v. var_index v \<notin> W \<longrightarrow> val pb' v = val pb v) \<longrightarrow> e pb' = e pb)"

fun sequential :: "assign list \<Rightarrow> bool" where
  "sequential [] = True"
| "sequential ((v, e) # as) \<longleftrightarrow> ignores (insert (var_index v) (targets as)) e \<and> var_index v \<notin> targets as \<and> sequential as"

lemma targets_simps [simp]: "targets [] = {}" "targets (a # as) = insert (var_index (fst a)) (targets as)"
    "targets (as @ bs) = targets as \<union> targets bs"
  by (auto simp: targets_def)

lemma targets_map [simp]: "targets (map (\<lambda>i. (f i, e i)) is) = (\<lambda>i. var_index (f i)) ` set is"
  by (simp add: targets_def image_image)

lemma run_simps [simp]: "run [] pb = pb" "run ((v, e) # as) pb = run as (set_val v (e pb) pb)"
  "run (as @ bs) pb = run bs (run as pb)"
  by (simp_all add: run_def)

lemma ignoresD: "ignores W e \<Longrightarrow> (\<And>v. var_index v \<notin> W \<Longrightarrow> val pb' v = val pb v) \<Longrightarrow> e pb' = e pb"
  unfolding ignores_def by blast

lemma ignoresI: "(\<And>pb pb'. (\<And>v. var_index v \<notin> W \<Longrightarrow> val pb' v = val pb v) \<Longrightarrow> e pb' = e pb) \<Longrightarrow> ignores W e"
  unfolding ignores_def by blast

lemma ignores_mono: "ignores W e \<Longrightarrow> V \<subseteq> W \<Longrightarrow> ignores V e"
  unfolding ignores_def by blast

lemma run_writes: "writes_only (targets as) (run as)"
proof (induction as)
  case (Cons a as)
  obtain v e where a: "a = (v, e)" by (cases a)
  have "writes_only ({var_index v} \<union> targets as) (\<lambda>pb. run as (set_val v (e pb) pb))" by (intro writes_only_comp writes_only_set_val Cons.IH)
  then show ?case by (simp add: a writes_only_def)
qed (simp add: writes_only_def)

lemma run_values: "sequential as \<Longrightarrow> pb_inv pb \<Longrightarrow> (v, e) \<in> set as \<Longrightarrow> val (run as pb) v = e (run as pb)"
proof (induction as arbitrary: pb)
  case (Cons a as)
  obtain u f where a: "a = (u, f)" by (cases a)
  let ?p = "set_val u (f pb) pb"
  have inv: "pb_inv ?p" using Cons.prems(2) by simp
  note w = writes_onlyD(4) [OF run_writes inv, of _ as]
  show ?case
  proof (cases "(v, e) = (u, f)")
    case True
    have same: "val (run as ?p) x = val pb x" if "var_index x \<notin> insert (var_index u) (targets as)" for x
      using w [of x] that Cons.prems(2) by simp
    have "val (run as ?p) u = f pb" using w [of u] Cons.prems(1,2) a by simp
    also have "f pb = f (run as ?p)" by (rule sym, rule ignoresD [of "insert (var_index u) (targets as)"]) (use Cons.prems(1) same in \<open>simp_all add: a\<close>)
    finally show ?thesis using True by (simp add: a)
  next
    case False
    then show ?thesis using Cons.IH [OF _ inv] Cons.prems(1,3) a by auto
  qed
qed simp

text \<open>Assignments whose expressions depend on none of the targets.\<close>

lemma sequential_independent:
  "distinct (map (\<lambda>a. var_index (fst a)) as) \<Longrightarrow> (\<And>v e. (v, e) \<in> set as \<Longrightarrow> ignores W e) \<Longrightarrow> targets as \<subseteq> W \<Longrightarrow> sequential as"
proof (induction as)
  case (Cons a as)
  obtain v e where a: "a = (v, e)" by (cases a)
  have "ignores (insert (var_index v) (targets as)) e" by (rule ignores_mono [OF Cons.prems(2)]) (use Cons.prems(3) a in auto)
  moreover have "sequential as" using Cons.IH Cons.prems by auto
  ultimately show ?case using Cons.prems(1) by (auto simp: a targets_def)
qed simp

end
