(* ===== verification/GreaterEqualGadget.thy ===== *)
theory GreaterEqualGadget
  imports Assignments
begin

text \<open>
  \<open>GreaterEqual_Gadget\<close> of \<open>gadget.cpp\<close>: comparison of two words from the highest bit down. The
  state of the comparison is a flag with three values: the generator as long as the prefixes
  are equal, then 1 or 0.
\<close>

section \<open>The gadget\<close>

record GreaterEqual_Gadget =
  ge_var1 :: "Variable list"
  ge_var2 :: "Variable list"
  ge_flags :: "Variable list"
  ge_flagGEQ :: Variable
  ge_isSigned :: bool
  ge_opcode :: Opcode

text \<open>The assertions of the constructor.\<close>

definition GreaterEqual_create :: "GreaterEqual_Gadget \<Rightarrow> GreaterEqual_Gadget result" where
  "GreaterEqual_create g = (if length (ge_var2 g) = length (ge_var1 g) \<and> length (ge_flags g) = length (ge_var1 g) then Inr g else Inl AssertFailed)"

text \<open>\<open>first\<close>; negative for a signed comparison of one bit and for empty words.\<close>

definition ge_first :: "GreaterEqual_Gadget \<Rightarrow> int" where
  "ge_first g = int (length (ge_flags g)) - 1 - (if ge_isSigned g then 1 else 0)"

definition invOnePlusG :: FElem where "invOnePlusG = inverse (getGF2E_X + 1)"
definition invGPlusGG :: FElem where "invGPlusGG = inverse (getGF2E_X * (getGF2E_X + 1))"

definition ge_tmpPoly :: "Variable \<Rightarrow> Variable \<Rightarrow> CircuitPolynomial" where
  "ge_tmpPoly v1 v2 = cp_plus (cp_times (cp_lc (lc_plus (lc_var v2) (lc_const 1))) (cp_var v1))
     (cp_lc (lc_times (lc_plus (lc_plus (lc_var v1) (lc_var v2)) (lc_const 1)) getGF2E_X))"

definition ge_nextPoly :: "Variable \<Rightarrow> CircuitPolynomial \<Rightarrow> CircuitPolynomial" where
  "ge_nextPoly f tmpPoly = cp_plus
     (cp_times tmpPoly (cp_times (cp_times (cp_lc (lc_plus (lc_var f) (lc_const 1))) (cp_var f)) (cp_const invGPlusGG)))
     (cp_times (cp_times (cp_lc (lc_plus (lc_var f) (lc_const getGF2E_X))) (cp_var f)) (cp_const invOnePlusG))"

text \<open>The correction by the sign bits, in the last iteration of a signed comparison.\<close>

definition ge_signPoly :: "Variable \<Rightarrow> Variable \<Rightarrow> CircuitPolynomial \<Rightarrow> CircuitPolynomial" where
  "ge_signPoly s1 s2 tmpPoly = cp_plus (cp_times tmpPoly (cp_lc (lc_plus (lc_plus (lc_var s1) (lc_const 1)) (lc_var s2))))
     (cp_times (cp_lc (lc_plus (lc_var s1) (lc_const 1))) (cp_var s2))"

definition ge_currFlag :: "GreaterEqual_Gadget \<Rightarrow> nat \<Rightarrow> Variable" where
  "ge_currFlag g i = (if 0 < i then ge_flags g ! i else ge_flagGEQ g)"

definition ge_bit :: "GreaterEqual_Gadget \<Rightarrow> nat \<Rightarrow> CircuitPolynomial" where
  "ge_bit g i = (let first = nat (ge_first g); tmpPoly = ge_tmpPoly (ge_var1 g ! i) (ge_var2 g ! i) in
     if first = i then cp_plus tmpPoly (cp_var (ge_flags g ! i))
     else let tmpPoly = ge_nextPoly (ge_flags g ! (i + 1)) tmpPoly;
              tmpPoly = (if i = 0 \<and> ge_isSigned g then ge_signPoly (ge_var1 g ! (first + 1)) (ge_var2 g ! (first + 1)) tmpPoly else tmpPoly)
          in cp_plus tmpPoly (cp_var (ge_currFlag g i)))"

definition GreaterEqual_constraints :: "GreaterEqual_Gadget \<Rightarrow> (CircuitPolynomial \<times> string) list" where
  "GreaterEqual_constraints g = map (\<lambda>i. (ge_bit g i, to_string (int i) @ '':flags'')) (rev [0..<nat (ge_first g + 1)])"

definition GreaterEqual_generateConstraints :: "GreaterEqual_Gadget \<Rightarrow> Protoboard \<Rightarrow> Protoboard" where
  "GreaterEqual_generateConstraints g pb = add_constraints (ge_opcode g) (GreaterEqual_constraints g) pb"

definition ge_witness_step :: "GreaterEqual_Gadget \<Rightarrow> nat \<Rightarrow> Protoboard \<Rightarrow> Protoboard" where
  "ge_witness_step g i pb = (let prevFlag = val pb (ge_flags g ! (i + 1)); m = length (ge_flags g) - 1;
     a = val pb (ge_var1 g ! m); b = val pb (ge_var2 g ! m) in
     if i = 0 \<and> ge_isSigned g \<and> a \<noteq> b then set_val (ge_flagGEQ g) b pb
     else if prevFlag = 1 \<or> prevFlag = 0 then set_val (ge_currFlag g i) prevFlag pb
     else let a = val pb (ge_var1 g ! i); b = val pb (ge_var2 g ! i) in
       set_val (ge_currFlag g i) (if a = b then prevFlag else a) pb)"

text \<open>For \<open>first < 0\<close> the first statement of the witness code writes in front of the array.\<close>

definition GreaterEqual_witness :: "GreaterEqual_Gadget \<Rightarrow> Protoboard \<Rightarrow> Protoboard" where
  "GreaterEqual_witness g pb = (let i = nat (ge_first g);
     pb = set_val (ge_flags g ! i) (if val pb (ge_var1 g ! i) = val pb (ge_var2 g ! i) then getGF2E_X else val pb (ge_var1 g ! i)) pb
     in fold (ge_witness_step g) (rev [0..<i]) pb)"

definition GreaterEqual_generateWitness :: "GreaterEqual_Gadget \<Rightarrow> Protoboard \<Rightarrow> Protoboard result" where
  "GreaterEqual_generateWitness g pb = (if 0 \<le> ge_first g then Inr (GreaterEqual_witness g pb) else Inl OutOfBounds)"

section \<open>The comparison state\<close>

definition cmp :: "'a::linorder \<Rightarrow> 'a \<Rightarrow> FElem" where
  "cmp a b = (if a = b then getGF2E_X else if b < a then 1 else 0)"

lemma g_neq: "getGF2E_X \<noteq> 0" "getGF2E_X \<noteq> 1" "getGF2E_X + 1 \<noteq> 0"
proof -
  have *: "getGF2E_X = fe 2" by (simp add: getGF2E_X_def xFE_eval)
  have "unat (element (fe 2)) = 2" "unat (element (fe 0)) = 0" "unat (element (fe 1)) = 1" using unat_fe by (simp_all del: fe_0 fe_1)
  then show 1: "getGF2E_X \<noteq> 0" "getGF2E_X \<noteq> 1" unfolding * fe_0 [symmetric] fe_1 [symmetric] by (metis zero_neq_numeral numeral_eq_one_iff semiring_norm(85))+
  from 1(2) show "getGF2E_X + 1 \<noteq> 0" by (simp add: fe_add_eq_0)
qed

definition ge_tmp :: "FElem \<Rightarrow> FElem \<Rightarrow> FElem" where
  "ge_tmp a b = (b + 1) * a + (a + b + 1) * getGF2E_X"

definition ge_next :: "FElem \<Rightarrow> FElem \<Rightarrow> FElem" where
  "ge_next f t = t * ((f + 1) * f * invGPlusGG) + (f + getGF2E_X) * f * invOnePlusG"

lemma pv_ge:
  "pv pb (ge_tmpPoly v1 v2) = ge_tmp (val pb v1) (val pb v2)" "pv pb (ge_nextPoly f t) = ge_next (val pb f) (pv pb t)"
  "pv pb (ge_signPoly s1 s2 t) = pv pb t * (val pb s1 + 1 + val pb s2) + (val pb s1 + 1) * val pb s2"
  by (simp_all add: ge_tmpPoly_def ge_nextPoly_def ge_signPoly_def ge_tmp_def ge_next_def pv_simps lv_simps)

lemma ge_tmp_bits: "ge_tmp (if a then 1 else 0) (if b then 1 else 0) = cmp (of_bool a :: nat) (of_bool b)"
  by (cases a; cases b) (simp_all add: ge_tmp_def cmp_def)

lemma ge_tmp_boolean: "boolean pb v \<Longrightarrow> boolean pb w \<Longrightarrow> ge_tmp (val pb v) (val pb w) = cmp (of_bool (bit_of pb v) :: nat) (of_bool (bit_of pb w))"
  using ge_tmp_bits [of "bit_of pb v" "bit_of pb w"] by (simp only: val_boolean)

lemma ge_next_values: "ge_next 0 t = 0" "ge_next 1 t = 1" "ge_next getGF2E_X t = t"
proof -
  have "(1 + getGF2E_X) * invOnePlusG = 1" using g_neq(3) by (simp add: invOnePlusG_def add.commute)
  then show "ge_next 1 t = 1" by (simp add: ge_next_def)
  have "(getGF2E_X + 1) * getGF2E_X * invGPlusGG = 1" using right_inverse [of "getGF2E_X * (getGF2E_X + 1)"] g_neq by (simp only: invGPlusGG_def mult.commute [of "getGF2E_X + 1"] mult_eq_0_iff simp_thms)
  then show "ge_next getGF2E_X t = t" by (simp add: ge_next_def)
qed (simp add: ge_next_def)

lemma cmp_values: "cmp a b = 0 \<or> cmp a b = 1 \<or> cmp a b = getGF2E_X"
  by (simp add: cmp_def)

text \<open>Adding a lower bit to both numbers.\<close>

lemma cmp_step: "ge_next (cmp A B) (cmp (of_bool a :: nat) (of_bool b)) = cmp (of_bool a + 2 * A) (of_bool b + 2 * B)" for A B :: nat
proof (cases "A = B")
  case True
  then show ?thesis by (cases a; cases b) (simp_all add: cmp_def ge_next_values)
next
  case False
  then have "of_bool a + 2 * A \<noteq> of_bool b + 2 * B" "(of_bool b + 2 * B < of_bool a + 2 * A) = (B < A)" by (cases a; cases b; simp; presburger)+
  with False show ?thesis by (simp add: cmp_def ge_next_values)
qed

section \<open>Soundness\<close>

text \<open>The first flag of the array is never used; the callers in \<open>ALU.cpp\<close> pass it as \<open>flagGEQ\<close>.\<close>

definition ge_wf :: "GreaterEqual_Gadget \<Rightarrow> bool" where
  "ge_wf g \<longleftrightarrow> 0 < ge_first g \<and> length (ge_var1 g) = length (ge_flags g) \<and> length (ge_var2 g) = length (ge_flags g)
     \<and> distinct (map var_index (ge_flagGEQ g # tl (ge_flags g)))
     \<and> var_index ` (set (ge_var1 g) \<union> set (ge_var2 g)) \<inter> var_index ` set (ge_flagGEQ g # tl (ge_flags g)) = {}"

text \<open>The flag that holds the state after bit \<open>i\<close>, and the bits from \<open>i\<close> to \<open>first\<close>.\<close>

definition ge_high :: "GreaterEqual_Gadget \<Rightarrow> Protoboard \<Rightarrow> Variable list \<Rightarrow> nat \<Rightarrow> nat" where
  "ge_high g pb vs i = bits_nat (map (bit_of pb) (drop i (take (nat (ge_first g) + 1) vs)))"

lemma ge_first_less: "0 \<le> ge_first g \<Longrightarrow> nat (ge_first g) < length (ge_flags g)"
  by (simp add: ge_first_def nat_less_iff)

lemma ge_high_step:
  assumes "i \<le> nat (ge_first g)" "nat (ge_first g) < length vs"
  shows "ge_high g pb vs i = of_bool (bit_of pb (vs ! i)) + 2 * ge_high g pb vs (Suc i)"
proof -
  have "drop i (take (nat (ge_first g) + 1) vs) = vs ! i # drop (Suc i) (take (nat (ge_first g) + 1) vs)"
    using assms by (simp add: Cons_nth_drop_Suc [symmetric])
  then show ?thesis by (simp add: ge_high_def)
qed

lemma ge_high_top: "ge_high g pb vs (Suc (nat (ge_first g))) = 0"
  by (simp add: ge_high_def)

text \<open>The equation of bit \<open>i\<close>, without the sign correction.\<close>

definition ge_state :: "GreaterEqual_Gadget \<Rightarrow> Protoboard \<Rightarrow> nat \<Rightarrow> FElem" where
  "ge_state g pb i = (let t = ge_tmp (val pb (ge_var1 g ! i)) (val pb (ge_var2 g ! i)) in
     if i = nat (ge_first g) then t else ge_next (val pb (ge_flags g ! (i + 1))) t)"

lemma ge_state_cmp:
  assumes "length (ge_var1 g) = length (ge_flags g)" "length (ge_var2 g) = length (ge_flags g)" "0 \<le> ge_first g"
    and bool: "\<forall>v \<in> set (ge_var1 g) \<union> set (ge_var2 g). boolean pb v"
    and eqs: "\<forall>j. i < j \<longrightarrow> j \<le> nat (ge_first g) \<longrightarrow> val pb (ge_flags g ! j) = ge_state g pb j" and "i \<le> nat (ge_first g)"
  shows "ge_state g pb i = cmp (ge_high g pb (ge_var1 g) i) (ge_high g pb (ge_var2 g) i)"
  using assms(6) eqs
proof (induction "nat (ge_first g) - i" arbitrary: i)
  case 0
  let ?f = "nat (ge_first g)"
  have f: "?f < length (ge_flags g)" using assms(3) by (rule ge_first_less)
  have i: "i = ?f" using 0 by simp
  have b: "boolean pb (ge_var1 g ! i)" "boolean pb (ge_var2 g ! i)" using bool assms(1,2) f i by auto
  show ?case using ge_high_step [of ?f g "ge_var1 g" pb] ge_high_step [of ?f g "ge_var2 g" pb] ge_high_top [of g pb] f assms(1,2) b
    by (simp add: ge_state_def i ge_tmp_boolean del: of_bool_eq_iff)
next
  case (Suc k)
  let ?f = "nat (ge_first g)"
  have f: "?f < length (ge_flags g)" using assms(3) by (rule ge_first_less)
  have i: "i < ?f" using Suc.hyps(2) by simp
  have b: "boolean pb (ge_var1 g ! i)" "boolean pb (ge_var2 g ! i)" using bool assms(1,2) f i by auto
  have "ge_state g pb (Suc i) = cmp (ge_high g pb (ge_var1 g) (Suc i)) (ge_high g pb (ge_var2 g) (Suc i))"
    using Suc.hyps(1) [of "Suc i"] Suc.hyps(2) Suc.prems i by simp
  then have "val pb (ge_flags g ! Suc i) = cmp (ge_high g pb (ge_var1 g) (Suc i)) (ge_high g pb (ge_var2 g) (Suc i))"
    using Suc.prems(2) i by simp
  then have "ge_state g pb i = ge_next (cmp (ge_high g pb (ge_var1 g) (Suc i)) (ge_high g pb (ge_var2 g) (Suc i)))
      (cmp (of_bool (bit_of pb (ge_var1 g ! i)) :: nat) (of_bool (bit_of pb (ge_var2 g ! i))))"
    using i b by (simp add: ge_state_def ge_tmp_boolean)
  then show ?case using ge_high_step [of i g "ge_var1 g" pb] ge_high_step [of i g "ge_var2 g" pb] f assms(1,2) i by (simp add: cmp_step)
qed

text \<open>The number a word stands for, and the right-hand side of the equation of bit \<open>i\<close>.\<close>

definition ge_value :: "GreaterEqual_Gadget \<Rightarrow> Protoboard \<Rightarrow> Variable list \<Rightarrow> int" where
  "ge_value g pb vs = word_value (ge_isSigned g) (map (bit_of pb) vs)"

definition ge_sign :: "GreaterEqual_Gadget \<Rightarrow> Protoboard \<Rightarrow> FElem \<Rightarrow> FElem" where
  "ge_sign g pb t = (let a = val pb (last (ge_var1 g)); b = val pb (last (ge_var2 g)) in if ge_isSigned g then t * (a + 1 + b) + (a + 1) * b else t)"

definition ge_rhs :: "GreaterEqual_Gadget \<Rightarrow> Protoboard \<Rightarrow> nat \<Rightarrow> FElem" where
  "ge_rhs g pb i = (if i = 0 then ge_sign g pb (ge_state g pb i) else ge_state g pb i)"

lemma cmp_int: "cmp (int a) (int b) = cmp a b"
  by (simp add: cmp_def)

lemma ge_sign_cmp:
  assumes "boolean pb (last (ge_var1 g))" "boolean pb (last (ge_var2 g))" "A < 2 ^ m" "B < 2 ^ m" "ge_isSigned g"
  shows "ge_sign g pb (cmp A B) = cmp (int A - 2 ^ m * of_bool (bit_of pb (last (ge_var1 g)))) (int B - 2 ^ m * of_bool (bit_of pb (last (ge_var2 g))))"
proof -
  define M where "M = (2 :: int) ^ m"
  have "int A < M" "int B < M" unfolding M_def using assms(3,4) by (metis of_nat_less_iff of_nat_numeral of_nat_power)+
  then show ?thesis using assms(1,2,5) unfolding M_def [symmetric] by (auto simp: ge_sign_def Let_def val_boolean cmp_def)
qed

lemma ge_wfD:
  assumes "ge_wf g"
  shows "length (ge_var1 g) = length (ge_flags g)" "length (ge_var2 g) = length (ge_flags g)" "0 \<le> ge_first g" "0 < nat (ge_first g)"
    "nat (ge_first g) < length (ge_flags g)" "Suc (nat (ge_first g)) = length (ge_flags g) - of_bool (ge_isSigned g)" "nat (ge_first g + 1) = Suc (nat (ge_first g))"
proof -
  show "0 \<le> ge_first g" "0 < nat (ge_first g)" using assms by (simp_all add: ge_wf_def)
  then show "nat (ge_first g) < length (ge_flags g)" "nat (ge_first g + 1) = Suc (nat (ge_first g))" using ge_first_less by simp_all
  show "Suc (nat (ge_first g)) = length (ge_flags g) - of_bool (ge_isSigned g)"
    using \<open>0 < nat (ge_first g)\<close> unfolding ge_first_def by (cases "ge_isSigned g") (simp_all add: Suc_nat_eq_nat_zadd1 nat_diff_distrib)
qed (use assms in \<open>simp_all add: ge_wf_def\<close>)

lemma ge_last:
  assumes "ge_wf g"
  shows "last (ge_var1 g) = ge_var1 g ! (length (ge_flags g) - 1)" "last (ge_var2 g) = ge_var2 g ! (length (ge_flags g) - 1)"
proof -
  have "ge_var1 g \<noteq> []" "ge_var2 g \<noteq> []" using ge_wfD(1,2,5) [OF assms] by auto
  then show "last (ge_var1 g) = ge_var1 g ! (length (ge_flags g) - 1)" "last (ge_var2 g) = ge_var2 g ! (length (ge_flags g) - 1)"
    using ge_wfD(1,2) [OF assms] by (simp_all add: last_conv_nth)
qed

lemma ge_bit_eq:
  assumes "ge_wf g" "i \<le> nat (ge_first g)"
  shows "pv pb (ge_bit g i) = 0 \<longleftrightarrow> val pb (ge_currFlag g i) = ge_rhs g pb i"
proof -
  note wf = ge_wfD [OF assms(1)]
  have last: "ge_isSigned g \<Longrightarrow> ge_var1 g ! Suc (nat (ge_first g)) = last (ge_var1 g)" "ge_isSigned g \<Longrightarrow> ge_var2 g ! Suc (nat (ge_first g)) = last (ge_var2 g)"
    using wf(6) ge_last [OF assms(1)] by simp_all
  have "pv pb (ge_bit g i) = ge_rhs g pb i + val pb (ge_currFlag g i)"
  proof (cases "i = 0")
    case True
    then show ?thesis using wf(4) by (simp add: ge_bit_def Let_def ge_rhs_def ge_sign_def ge_state_def ge_currFlag_def pv_simps pv_ge last)
  qed (simp add: ge_bit_def Let_def ge_rhs_def ge_state_def ge_currFlag_def pv_simps pv_ge)
  then show ?thesis unfolding fe_add_eq_0 by (metis fe_add_eq_0)
qed

lemma ge_constraints_iff:
  assumes "ge_wf g"
  shows "(\<forall>(p, nm) \<in> set (GreaterEqual_constraints g). pv pb p = 0) \<longleftrightarrow> (\<forall>i \<le> nat (ge_first g). val pb (ge_currFlag g i) = ge_rhs g pb i)"
  using ge_bit_eq [OF assms] by (auto simp: GreaterEqual_constraints_def ge_wfD(7) [OF assms] less_Suc_eq_le)

lemma ge_flag_value:
  assumes "ge_wf g" "\<forall>v \<in> set (ge_var1 g) \<union> set (ge_var2 g). boolean pb v"
    and eqs: "\<forall>i \<le> nat (ge_first g). val pb (ge_currFlag g i) = ge_rhs g pb i"
  shows "val pb (ge_flagGEQ g) = cmp (ge_value g pb (ge_var1 g)) (ge_value g pb (ge_var2 g))"
proof -
  note wf = ge_wfD [OF assms(1)]
  let ?h = "\<lambda>vs. ge_high g pb vs 0"
  have "ge_state g pb 0 = cmp (?h (ge_var1 g)) (?h (ge_var2 g))"
    using eqs by (intro ge_state_cmp wf(1-3) assms(2)) (auto simp: ge_currFlag_def ge_rhs_def)
  then have flag: "val pb (ge_flagGEQ g) = ge_sign g pb (cmp (?h (ge_var1 g)) (?h (ge_var2 g)))"
    using eqs by (auto simp: ge_currFlag_def ge_rhs_def)
  have ne: "ge_var1 g \<noteq> []" "ge_var2 g \<noteq> []" using wf(1,2,5) by auto
  show ?thesis
  proof (cases "ge_isSigned g")
    case True
    have h: "?h vs = bits_nat (map (bit_of pb) (butlast vs))" if "length vs = length (ge_flags g)" for vs
      using wf(6) that True by (simp add: ge_high_def butlast_conv_take)
    have "?h vs < 2 ^ (length (ge_flags g) - 1)" if "length vs = length (ge_flags g)" for vs
      using bits_nat_less [of "map (bit_of pb) (butlast vs)"] h that by simp
    then have "ge_sign g pb (cmp (?h (ge_var1 g)) (?h (ge_var2 g))) = cmp (ge_value g pb (ge_var1 g)) (ge_value g pb (ge_var2 g))"
      using assms(2) ne wf(1,2) True ge_sign_cmp [of pb g "?h (ge_var1 g)" "length (ge_flags g) - 1" "?h (ge_var2 g)"] by (simp add: ge_value_def word_value_def map_butlast [symmetric] last_map h)
    then show ?thesis using flag by simp
  next
    case False
    have "?h vs = bits_nat (map (bit_of pb) vs)" if "length vs = length (ge_flags g)" for vs using wf(6) that False by (simp add: ge_high_def)
    then show ?thesis using flag wf(1,2) False by (simp add: ge_value_def word_value_def ge_sign_def cmp_int)
  qed
qed

section \<open>Completeness\<close>

text \<open>The value the witness code gives to the flag of bit \<open>i\<close>.\<close>

definition ge_choice :: "GreaterEqual_Gadget \<Rightarrow> nat \<Rightarrow> Protoboard \<Rightarrow> FElem" where
  "ge_choice g i pb = (let prevFlag = val pb (ge_flags g ! (i + 1)); m = length (ge_flags g) - 1; a = val pb (ge_var1 g ! i); b = val pb (ge_var2 g ! i) in
     if i = nat (ge_first g) then if a = b then getGF2E_X else a
     else if i = 0 \<and> ge_isSigned g \<and> val pb (ge_var1 g ! m) \<noteq> val pb (ge_var2 g ! m) then val pb (ge_var2 g ! m)
     else if prevFlag = 1 \<or> prevFlag = 0 then prevFlag else if a = b then prevFlag else a)"

definition ge_assigns :: "GreaterEqual_Gadget \<Rightarrow> nat \<Rightarrow> assign list" where
  "ge_assigns g n = map (\<lambda>i. (ge_currFlag g i, ge_choice g i)) (rev [0..<n])"

lemma ge_loop_run: "n \<le> nat (ge_first g) \<Longrightarrow> fold (ge_witness_step g) (rev [0..<n]) pb = run (ge_assigns g n) pb"
proof (induction n arbitrary: pb)
  case (Suc n)
  have "ge_witness_step g n pb = set_val (ge_currFlag g n) (ge_choice g n pb) pb"
    using Suc.prems by (simp add: ge_witness_step_def ge_choice_def ge_currFlag_def Let_def)
  then show ?case using Suc by (simp add: ge_assigns_def)
qed (simp add: ge_assigns_def)

lemma ge_witness_run: "ge_wf g \<Longrightarrow> GreaterEqual_witness g pb = run (ge_assigns g (Suc (nat (ge_first g)))) pb"
  using ge_loop_run [of "nat (ge_first g)" g] ge_wfD(4) [of g]
  by (simp add: GreaterEqual_witness_def Let_def ge_choice_def ge_currFlag_def ge_assigns_def)

lemma ge_flag_index:
  assumes "ge_wf g" "i \<le> nat (ge_first g)" "0 < j" "j \<le> nat (ge_first g)"
  shows "var_index (ge_currFlag g i) = var_index (ge_flags g ! j) \<longleftrightarrow> i = j"
proof -
  have d: "distinct (map var_index (ge_flagGEQ g # tl (ge_flags g)))" using assms(1) by (simp add: ge_wf_def)
  have l: "nat (ge_first g) < length (ge_flags g)" using ge_wfD(5) [OF assms(1)] .
  have c: "ge_currFlag g k = (ge_flagGEQ g # tl (ge_flags g)) ! k" if "k \<le> nat (ge_first g)" for k
    using that l by (cases k) (simp_all add: ge_currFlag_def nth_tl)
  have "var_index (ge_currFlag g i) = var_index (ge_currFlag g j) \<longleftrightarrow> i = j" unfolding c [OF assms(2)] c [OF assms(4)]
    using nth_eq_iff_index_eq [OF d, of i j] l assms(2,4) by (simp only: length_map length_Cons length_tl nth_map)
  then show ?thesis using assms(3) by (simp add: ge_currFlag_def [of g j])
qed

lemma ge_input_index:
  assumes "ge_wf g" "v \<in> set (ge_var1 g) \<union> set (ge_var2 g)" "i \<le> nat (ge_first g)"
  shows "var_index v \<noteq> var_index (ge_currFlag g i)"
proof -
  have "ge_flags g ! i \<in> set (tl (ge_flags g))" if "0 < i"
    using that assms(3) ge_wfD(5) [OF assms(1)] nth_mem [of "i - 1" "tl (ge_flags g)"] by (simp add: nth_tl)
  then have "ge_currFlag g i \<in> set (ge_flagGEQ g # tl (ge_flags g))" by (simp add: ge_currFlag_def)
  then show ?thesis using disjointD imageI assms(1,2) unfolding ge_wf_def by metis
qed

lemma ge_sequential: "ge_wf g \<Longrightarrow> n \<le> Suc (nat (ge_first g)) \<Longrightarrow> sequential (ge_assigns g n)"
proof (induction n)
  case (Suc n)
  note wf = ge_wfD [OF Suc.prems(1)]
  let ?W = "(\<lambda>i. var_index (ge_currFlag g i)) ` {..n}"
  have inputs: "var_index v \<notin> ?W" if "v \<in> set (ge_var1 g) \<union> set (ge_var2 g)" for v
  proof
    assume "var_index v \<in> ?W"
    then obtain i where "i \<le> n" "var_index v = var_index (ge_currFlag g i)" by auto
    then show False using ge_input_index [OF Suc.prems(1) that, of i] Suc.prems(2) by simp
  qed
  have nth: "var_index (ge_var1 g ! i) \<notin> ?W" "var_index (ge_var2 g ! i) \<notin> ?W" if "i < length (ge_flags g)" for i
    using inputs [of "ge_var1 g ! i"] inputs [of "ge_var2 g ! i"] that wf(1,2) by simp_all
  have flag: "n < nat (ge_first g) \<Longrightarrow> var_index (ge_flags g ! Suc n) \<notin> ?W"
  proof
    assume n: "n < nat (ge_first g)" and "var_index (ge_flags g ! Suc n) \<in> ?W"
    then obtain i where "i \<le> n" "var_index (ge_currFlag g i) = var_index (ge_flags g ! Suc n)" by auto
    then show False using ge_flag_index [OF Suc.prems(1), of i "Suc n"] n by simp
  qed
  have "ignores ?W (ge_choice g n)"
  proof (rule ignoresI)
    fix pb pb' assume same: "\<And>v. var_index v \<notin> ?W \<Longrightarrow> val pb' v = val pb v"
    have "val pb' (ge_var1 g ! i) = val pb (ge_var1 g ! i)" "val pb' (ge_var2 g ! i) = val pb (ge_var2 g ! i)" if "i < length (ge_flags g)" for i
      using same nth [OF that] by simp_all
    moreover have "n \<noteq> nat (ge_first g) \<Longrightarrow> val pb' (ge_flags g ! Suc n) = val pb (ge_flags g ! Suc n)" using same flag Suc.prems(2) by simp
    ultimately show "ge_choice g n pb' = ge_choice g n pb" using Suc.prems(2) wf(5) by (simp add: ge_choice_def Let_def)
  qed
  moreover have "?W = insert (var_index (ge_currFlag g n)) (targets (ge_assigns g n))" by (simp add: ge_assigns_def atLeast0LessThan lessThan_Suc_atMost [symmetric] lessThan_Suc)
  moreover have "var_index (ge_currFlag g n) \<notin> targets (ge_assigns g n)"
  proof (cases "n = 0")
    case False
    have "var_index (ge_currFlag g i) \<noteq> var_index (ge_flags g ! n)" if "i < n" for i
      using ge_flag_index [OF Suc.prems(1), of i n] Suc.prems(2) that by simp
    then show ?thesis using False by (force simp: ge_assigns_def ge_currFlag_def [of g n])
  qed (simp add: ge_assigns_def)
  ultimately show ?case using Suc by (simp add: ge_assigns_def)
qed (simp add: ge_assigns_def)

lemma ge_choice_rhs:
  assumes "ge_wf g" "\<forall>v \<in> set (ge_var1 g) \<union> set (ge_var2 g). boolean pb v" "i \<le> nat (ge_first g)"
    "i < nat (ge_first g) \<Longrightarrow> val pb (ge_flags g ! Suc i) \<in> {0, 1, getGF2E_X}"
  shows "ge_choice g i pb = ge_rhs g pb i"
proof -
  note wf = ge_wfD [OF assms(1)]
  have b: "boolean pb (ge_var1 g ! j)" "boolean pb (ge_var2 g ! j)" if "j < length (ge_flags g)" for j using assms(2) wf(1,2) that by auto
  note last = ge_last [OF assms(1)]
  have t: "ge_tmp (val pb (ge_var1 g ! i)) (val pb (ge_var2 g ! i)) = (if val pb (ge_var1 g ! i) = val pb (ge_var2 g ! i) then getGF2E_X else val pb (ge_var1 g ! i))"
    using b [of i] assms(3) wf(5) by (auto simp: boolean_def ge_tmp_def)
  have st: "ge_state g pb i = (let prevFlag = val pb (ge_flags g ! (i + 1)); a = val pb (ge_var1 g ! i); b = val pb (ge_var2 g ! i) in
     if i = nat (ge_first g) then if a = b then getGF2E_X else a
     else if prevFlag = 1 \<or> prevFlag = 0 then prevFlag else if a = b then prevFlag else a)"
    using assms(3,4) by (auto simp: ge_state_def t Let_def ge_next_values)
  have sg: "ge_sign g pb t = (if ge_isSigned g \<and> val pb (last (ge_var1 g)) \<noteq> val pb (last (ge_var2 g)) then val pb (last (ge_var2 g)) else t)" for t
  proof -
    have "boolean pb (last (ge_var1 g))" "boolean pb (last (ge_var2 g))" unfolding last using b [of "length (ge_flags g) - 1"] wf(5) by simp_all
    then show ?thesis unfolding boolean_def ge_sign_def Let_def by (elim disjE) simp_all
  qed
  show ?thesis
  proof (cases "i = 0")
    case True
    show ?thesis using wf(4) by (simp add: ge_choice_def ge_rhs_def sg st [unfolded True] last Let_def True)
  next
    case False
    then show ?thesis by (simp add: ge_choice_def ge_rhs_def st Let_def)
  qed
qed

lemma ge_rhs_values:
  assumes "ge_wf g" "\<forall>v \<in> set (ge_var1 g) \<union> set (ge_var2 g). boolean pb v" "0 < i" "i \<le> nat (ge_first g)"
    "\<forall>j \<le> nat (ge_first g). i < j \<longrightarrow> val pb (ge_flags g ! j) = ge_state g pb j"
  shows "ge_rhs g pb i \<in> {0, 1, getGF2E_X}"
  using ge_state_cmp [OF ge_wfD(1-3) [OF assms(1)] assms(2) _ assms(4)] assms(3,5) cmp_values by (auto simp: ge_rhs_def)

definition ge_written :: "GreaterEqual_Gadget \<Rightarrow> int set" where
  "ge_written g = (\<lambda>i. var_index (ge_currFlag g i)) ` {..nat (ge_first g)}"

definition ge_pre :: "GreaterEqual_Gadget \<Rightarrow> Protoboard \<Rightarrow> bool" where
  "ge_pre g pb \<longleftrightarrow> (\<forall>v \<in> set (ge_var1 g) \<union> set (ge_var2 g). assigned pb v \<and> boolean pb v)"

lemma ge_writes: "ge_wf g \<Longrightarrow> writes_only (ge_written g) (GreaterEqual_witness g)"
proof -
  assume wf: "ge_wf g"
  have "targets (ge_assigns g (Suc (nat (ge_first g)))) = ge_written g"
    by (simp add: ge_assigns_def ge_written_def atLeast0LessThan lessThan_Suc_atMost del: upt_Suc)
  then show ?thesis using run_writes [of "ge_assigns g (Suc (nat (ge_first g)))"] ge_witness_run [OF wf] by (simp add: writes_only_def)
qed

lemma ge_witness_eqs:
  assumes "ge_wf g" "pb_inv pb" "\<forall>v \<in> set (ge_var1 g) \<union> set (ge_var2 g). boolean pb v" "i \<le> nat (ge_first g)"
  defines "w \<equiv> GreaterEqual_witness g pb"
  shows "val w (ge_currFlag g i) = ge_rhs g w i"
proof -
  have "val w v = val pb v" if "v \<in> set (ge_var1 g) \<union> set (ge_var2 g)" for v
    unfolding w_def using ge_input_index [OF assms(1) that] by (intro writes_onlyD(4) [OF ge_writes [OF assms(1)] assms(2)]) (auto simp: ge_written_def)
  then have bool: "\<forall>v \<in> set (ge_var1 g) \<union> set (ge_var2 g). boolean w v" using assms(3) by (simp add: boolean_def)
  have val: "val w (ge_currFlag g i) = ge_choice g i w" if "i \<le> nat (ge_first g)" for i
    unfolding w_def ge_witness_run [OF assms(1)] using that
    by (intro run_values [OF ge_sequential [OF assms(1) order.refl] assms(2)]) (auto simp: ge_assigns_def less_Suc_eq_le simp del: upt_Suc)
  show ?thesis using assms(4)
  proof (induction "nat (ge_first g) - i" arbitrary: i rule: less_induct)
    case less
    have above: "val w (ge_currFlag g j) = ge_rhs g w j" if "i < j" "j \<le> nat (ge_first g)" for j
      using less.hyps [of j] less.prems that by simp
    then have "\<forall>j \<le> nat (ge_first g). Suc i < j \<longrightarrow> val w (ge_flags g ! j) = ge_state g w j" by (auto simp: ge_currFlag_def ge_rhs_def)
    then have "val w (ge_flags g ! Suc i) \<in> {0, 1, getGF2E_X}" if "i < nat (ge_first g)"
      using ge_rhs_values [OF assms(1) bool, of "Suc i"] above [of "Suc i"] that by (simp add: ge_currFlag_def)
    then show ?case using val [OF less.prems] ge_choice_rhs [OF assms(1) bool less.prems] by simp
  qed
qed

lemma ge_poly_over [simp]:
  "v1 \<in> V \<Longrightarrow> v2 \<in> V \<Longrightarrow> cp_over V (ge_tmpPoly v1 v2)" "f \<in> V \<Longrightarrow> cp_over V t \<Longrightarrow> cp_over V (ge_nextPoly f t)"
  "s1 \<in> V \<Longrightarrow> s2 \<in> V \<Longrightarrow> cp_over V t \<Longrightarrow> cp_over V (ge_signPoly s1 s2 t)"
  by (simp_all add: ge_tmpPoly_def ge_nextPoly_def ge_signPoly_def)

lemma ge_poly_plain [simp]:
  "plain (ge_tmpPoly v1 v2)" "plain t \<Longrightarrow> plain (ge_nextPoly f t)" "plain t \<Longrightarrow> plain (ge_signPoly s1 s2 t)"
  by (simp_all add: ge_tmpPoly_def ge_nextPoly_def ge_signPoly_def)

lemma ge_vars:
  assumes "ge_wf g" "(p, nm) \<in> set (GreaterEqual_constraints g)"
  shows "plain p" "cp_over (set (ge_var1 g) \<union> set (ge_var2 g) \<union> ge_currFlag g ` {..nat (ge_first g)}) p"
proof -
  note wf = ge_wfD [OF assms(1)]
  obtain i where i: "i \<le> nat (ge_first g)" "p = ge_bit g i" using assms(2) by (auto simp: GreaterEqual_constraints_def wf(7) less_Suc_eq_le simp del: upt_Suc)
  show "plain p" by (simp add: i(2) ge_bit_def Let_def)
  define V where "V = set (ge_var1 g) \<union> set (ge_var2 g) \<union> ge_currFlag g ` {..nat (ge_first g)}"
  have f: "ge_currFlag g j \<in> V" if "j \<le> nat (ge_first g)" for j using that by (simp add: V_def)
  have f': "ge_flags g ! j \<in> V" if "0 < j" "j \<le> nat (ge_first g)" for j using f [of j] that by (simp add: ge_currFlag_def)
  have v: "ge_var1 g ! j \<in> V" "ge_var2 g ! j \<in> V" if "j < length (ge_flags g)" for j using wf(1,2) that by (simp_all add: V_def)
  have "ge_isSigned g \<Longrightarrow> Suc (nat (ge_first g)) < length (ge_flags g)" using wf(5,6) by simp
  moreover have "ge_flags g \<noteq> []" using wf(5) by auto
  ultimately have "cp_over V p" using i(1) wf(4,5) f [of i] f' [of i] f' [of "Suc i"] v [of i] v [of "Suc (nat (ge_first g))"]
    by (cases "i = 0") (auto simp: i(2) ge_bit_def Let_def Suc_le_eq)
  then show "cp_over (set (ge_var1 g) \<union> set (ge_var2 g) \<union> ge_currFlag g ` {..nat (ge_first g)}) p" by (simp add: V_def)
qed

lemma ge_complete:
  assumes "ge_wf g" "pb_inv pb" "ge_pre g pb" "(p, nm) \<in> set (GreaterEqual_constraints g)"
  shows "holds (GreaterEqual_witness g pb) p"
proof -
  let ?w = "GreaterEqual_witness g pb"
  have bool: "\<forall>v \<in> set (ge_var1 g) \<union> set (ge_var2 g). boolean pb v" using assms(3) by (simp add: ge_pre_def)
  have "pv ?w p = 0" using ge_constraints_iff [OF assms(1)] ge_witness_eqs [OF assms(1,2) bool] assms(4) by blast
  moreover have "assigned ?w v" if "v \<in> cp_vars p" for v
    using ge_vars(2) [OF assms(1,4)] that assms(3) writes_onlyD(3) [OF ge_writes [OF assms(1)] assms(2)]
    by (auto simp: cp_over_def ge_pre_def ge_written_def)
  ultimately show ?thesis by (simp add: holds_iff ge_vars(1) [OF assms(1,4)])
qed

interpretation greater_equal: gadget ge_opcode GreaterEqual_constraints GreaterEqual_witness ge_wf ge_pre ge_written
proof
  show "ge_pre g pb'" if "ge_pre g pb" "assignment pb' = assignment pb" "fresh pb' = fresh pb" for g pb pb'
    using that val_same [OF that(2,3)] assigned_same [OF that(2)] by (simp add: ge_pre_def boolean_def)
qed (rule ge_writes ge_complete; assumption)+

lemma greater_equal_correct_facts:
  assumes "pb_inv pb"
  shows "\<lbrakk>ge_wf g; \<forall>v \<in> set (ge_var1 g) \<union> set (ge_var2 g). boolean pb v; \<forall>(p, nm) \<in> set (GreaterEqual_constraints g). holds pb p\<rbrakk> \<Longrightarrow>
      val pb (ge_flagGEQ g) = cmp (ge_value g pb (ge_var1 g)) (ge_value g pb (ge_var2 g))"
    and "\<lbrakk>ge_wf g; ge_pre g pb; pb_isSatisfied (ge_opcode g) pb = Inr True;
      \<forall>c \<in> set (pb_constraintSystem (ge_opcode g) pb). plain (constraint_poly c) \<and> var_index ` cp_vars (constraint_poly c) \<inter> ge_written g = {}\<rbrakk>
      \<Longrightarrow> res_bind (GreaterEqual_generateWitness g (GreaterEqual_generateConstraints g pb)) (pb_isSatisfied (ge_opcode g)) = Inr True"
    and "ge_first g < 0 \<Longrightarrow> GreaterEqual_generateWitness g pb = Inl OutOfBounds"
proof -
  assume wf: "ge_wf g" and b: "\<forall>v \<in> set (ge_var1 g) \<union> set (ge_var2 g). boolean pb v" and h: "\<forall>(p, nm) \<in> set (GreaterEqual_constraints g). holds pb p"
  have "\<forall>(p, nm) \<in> set (GreaterEqual_constraints g). pv pb p = 0" using h ge_vars(1) [OF wf] holds_iff by blast
  then show "val pb (ge_flagGEQ g) = cmp (ge_value g pb (ge_var1 g)) (ge_value g pb (ge_var2 g))"
    using ge_flag_value [OF wf b] ge_constraints_iff [OF wf] by blast
next
  assume a: "ge_wf g" "ge_pre g pb" "pb_isSatisfied (ge_opcode g) pb = Inr True"
    "\<forall>c \<in> set (pb_constraintSystem (ge_opcode g) pb). plain (constraint_poly c) \<and> var_index ` cp_vars (constraint_poly c) \<inter> ge_written g = {}"
  show "res_bind (GreaterEqual_generateWitness g (GreaterEqual_generateConstraints g pb)) (pb_isSatisfied (ge_opcode g)) = Inr True"
    using greater_equal.gadget_satisfied [OF a(1) assms a(2-4)] ge_wfD(3) [OF a(1)]
    by (simp add: GreaterEqual_generateConstraints_def GreaterEqual_generateWitness_def)
qed (simp add: GreaterEqual_generateWitness_def)

text \<open>Property C26. \<open>GreaterEqual_Gadget\<close> compares: on boolean words of at least two compared bits every
  assignment that satisfies its constraints has in \<open>flagGEQ\<close> 1 when the first word is greater, 0 when
  it is smaller and the field's generator when they are equal, where the words are read as unsigned or,
  for a signed gadget, as two's complement numbers; the witness code satisfies the constraints; and
  without a bit to compare it writes outside the array of flags.\<close>

theorem greater_equal_correct:
  assumes "pb_inv pb"
  shows "((ge_wf g) \<longrightarrow> (\<forall>v \<in> set (ge_var1 g) \<union> set (ge_var2 g). boolean pb v) \<longrightarrow> (\<forall>(p, nm) \<in> set (GreaterEqual_constraints g). holds pb p) \<longrightarrow> (val pb (ge_flagGEQ g) = cmp (ge_value g pb (ge_var1 g)) (ge_value g pb (ge_var2 g))))
    \<and> ((ge_wf g) \<longrightarrow> (ge_pre g pb) \<longrightarrow> (pb_isSatisfied (ge_opcode g) pb = Inr True) \<longrightarrow> (\<forall>c \<in> set (pb_constraintSystem (ge_opcode g) pb). plain (constraint_poly c) \<and> var_index ` cp_vars (constraint_poly c) \<inter> ge_written g = {}) \<longrightarrow> (res_bind (GreaterEqual_generateWitness g (GreaterEqual_generateConstraints g pb)) (pb_isSatisfied (ge_opcode g)) = Inr True))
    \<and> ((ge_first g < 0) \<longrightarrow> (GreaterEqual_generateWitness g pb = Inl OutOfBounds))"
  using greater_equal_correct_facts [OF assms] by blast

text \<open>A signed comparison of three bits: 3 with -2.\<close>

definition three_bit_compare :: GreaterEqual_Gadget where
  "three_bit_compare = (let v = \<lambda>i. \<lparr>var_index = i, var_newIndex = -1, var_name = ''v''\<rparr> in
     \<lparr>ge_var1 = [v 0, v 1, v 2], ge_var2 = [v 3, v 4, v 5], ge_flags = [v 6, v 7, v 8], ge_flagGEQ = v 9, ge_isSigned = True, ge_opcode = Op_CMPG\<rparr>)"

definition three_bit_board :: Protoboard where
  "three_bit_board = (let v = \<lambda>i. \<lparr>var_index = i, var_newIndex = -1, var_name = ''v''\<rparr> in
     set_val (v 5) 1 (set_val (v 4) 1 (set_val (v 3) 0 (set_val (v 2) 0 (set_val (v 1) 1 (set_val (v 0) 1 (Protoboard_create 0)))))))"

theorem greater_equal_correct_witness:
  "res_bind (GreaterEqual_generateWitness three_bit_compare (GreaterEqual_generateConstraints three_bit_compare three_bit_board)) (pb_isSatisfied Op_CMPG) = Inr True"
proof -
  have inv: "pb_inv three_bit_board" by (simp add: three_bit_board_def Let_def)
  have "res_bind (GreaterEqual_generateWitness three_bit_compare (GreaterEqual_generateConstraints three_bit_compare three_bit_board))
      (pb_isSatisfied (ge_opcode three_bit_compare)) = Inr True"
    by (rule greater_equal_correct [THEN conjunct2, THEN conjunct1, rule_format (no_asm), OF inv])
      (simp_all add: three_bit_compare_def three_bit_board_def Let_def ge_wf_def ge_first_def ge_pre_def boolean_def pb_isSatisfied_iff)
  then show ?thesis by (simp add: three_bit_compare_def Let_def)
qed

end
