(* ===== verification/MultiplicationGadgets.thy ===== *)
theory MultiplicationGadgets
  imports Assignments PackingGadgets
begin

text \<open>
  The gadgets of \<open>gadget.cpp\<close> that work in the exponent of the field's generator:
  \<open>MultiplicationPacking_Gadget\<close> (a word as a power of the generator),
  \<open>DoubleMultPack_Gadget\<close> (the same for a word of two halves) and \<open>Multiplication_Gadget\<close>
  (the product of two words, by squaring and multiplying). In the signed variants the highest
  bit counts negative.
\<close>

section \<open>The gadgets\<close>

text \<open>The power the static table yields; its value does not depend on what the table already holds.\<close>

definition generator_2_i :: "nat \<Rightarrow> FElem" where
  "generator_2_i n = fst (getGenerator2toTheNthPower n [getGF2E_X])"

record MultiplicationPacking_Gadget =
  mp_packingMode :: PackingMode
  mp_unpacked :: "Variable list"
  mp_partials :: "Variable list"
  mp_packed :: Variable
  mp_isSigned :: bool
  mp_opcode :: Opcode

definition MultiplicationPacking_create :: "MultiplicationPacking_Gadget \<Rightarrow> MultiplicationPacking_Gadget result" where
  "MultiplicationPacking_create g = (if length (mp_unpacked g) = length (mp_partials g) then Inr g else Inl AssertFailed)"

text \<open>\<open>unpacked * g_2_i + (1 + unpacked)\<close>\<close>

definition mult_factor :: "Variable \<Rightarrow> FElem \<Rightarrow> LinearCombination" where
  "mult_factor u g_2_i = lc_plus (lc_plus (lc_var u) (lc_const 1)) (lc_term (LinearTerm_times (LinearTerm_of u) g_2_i))"

definition mult_first :: "Variable \<Rightarrow> LinearCombination" where
  "mult_first u = lc_plus (lc_plus (lc_term (LinearTerm_times (LinearTerm_of u) xFE)) (lc_const 1)) (lc_var u)"

definition mult_poly :: "Variable \<Rightarrow> LinearCombination \<Rightarrow> LinearCombination \<Rightarrow> CircuitPolynomial" where
  "mult_poly target prev c = cp_plus (cp_times (cp_lc prev) (cp_lc c)) (cp_var target)"

definition mp_prev :: "MultiplicationPacking_Gadget \<Rightarrow> nat \<Rightarrow> LinearCombination" where
  "mp_prev g i = (if i \<le> 1 then mult_first (mp_unpacked g ! 0) else lc_var (mp_partials g ! (i - 1)))"

definition mp_last :: "bool \<Rightarrow> nat \<Rightarrow> FElem" where
  "mp_last isSigned i = (if isSigned then inverse (generator_2_i i) else generator_2_i i)"

definition MultiplicationPacking_constraints :: "MultiplicationPacking_Gadget \<Rightarrow> (CircuitPolynomial \<times> string) list" where
  "MultiplicationPacking_constraints g = (let i = length (mp_unpacked g) - 1 in
     map (\<lambda>i. (mult_poly (mp_partials g ! i) (mp_prev g i) (mult_factor (mp_unpacked g ! i) (generator_2_i i)),
       ''partial[i] = prev*(g ^ (2 ^ i * unpacked[i]))'')) [1..<i]
     @ [(mult_poly (mp_packed g) (mp_prev g i) (mult_factor (mp_unpacked g ! i) (mp_last (mp_isSigned g) i)),
       ''packed_ = prev*g^(2^(regSize-1) * unpacked[(regSize-1)])'')]
     @ (if mp_packingMode g = UNPACK then map bool_constraint (mp_unpacked g) else []))"

text \<open>With fewer than two bits the code reads behind the end of \<open>unpacked_\<close>.\<close>

definition MultiplicationPacking_generateConstraints :: "MultiplicationPacking_Gadget \<Rightarrow> Protoboard \<Rightarrow> Protoboard result" where
  "MultiplicationPacking_generateConstraints g pb = (if length (mp_unpacked g) < 2 then Inl OutOfBounds
     else Inr (add_constraints (mp_opcode g) (MultiplicationPacking_constraints g) pb))"

definition mult_value :: "Protoboard \<Rightarrow> Variable \<Rightarrow> FElem \<Rightarrow> FElem" where
  "mult_value pb u g_2_i = val pb u * g_2_i + (1 + val pb u)"

definition mult_step :: "Variable \<times> Variable \<times> FElem \<Rightarrow> FElem \<times> Protoboard \<Rightarrow> FElem \<times> Protoboard" where
  "mult_step s st = (case s of (partial, u, g_2_i) \<Rightarrow> case st of (prev, pb) \<Rightarrow>
     let prev = prev * mult_value pb u g_2_i in (prev, set_val partial prev pb))"

definition mp_bits_step :: "nat \<Rightarrow> nat \<times> Variable \<Rightarrow> Protoboard \<Rightarrow> Protoboard" where
  "mp_bits_step n iu pb = (case iu of (i, u) \<Rightarrow> set_val u (if odd (n div 2 ^ i) then 1 else 0) pb)"

definition mp_values :: "MultiplicationPacking_Gadget \<Rightarrow> Protoboard \<Rightarrow> Protoboard" where
  "mp_values g pb = (let i = length (mp_unpacked g) - 1;
     steps = map (\<lambda>i. (mp_partials g ! i, mp_unpacked g ! i, generator_2_i i)) [1..<i] in
     case fold mult_step steps (mult_value pb (mp_unpacked g ! 0) xFE, pb) of (prev, pb) \<Rightarrow>
       if mp_packingMode g = PACK then set_val (mp_packed g) (prev * mult_value pb (mp_unpacked g ! i) (mp_last (mp_isSigned g) i)) pb else pb)"

definition MultiplicationPacking_generateWitness :: "MultiplicationPacking_Gadget \<Rightarrow> int \<Rightarrow> Protoboard \<Rightarrow> Protoboard result" where
  "MultiplicationPacking_generateWitness g n pb =
    (if mp_packingMode g = UNPACK \<and> (n < 0 \<or> length (mp_unpacked g) < floorlog 2 (nat n)) then Inl AssertFailed
     else if length (mp_unpacked g) < 2 then Inl OutOfBounds
     else Inr (mp_values g (if mp_packingMode g = UNPACK then fold (mp_bits_step (nat n)) (enumerate 0 (mp_unpacked g)) pb else pb)))"

record DoubleMultPack_Gadget =
  dm_unpacked1 :: "Variable list"
  dm_unpacked2 :: "Variable list"
  dm_partials1 :: "Variable list"
  dm_partials2 :: "Variable list"
  dm_packed :: Variable
  dm_isSigned :: bool
  dm_opcode :: Opcode

definition DoubleMultPack_create :: "DoubleMultPack_Gadget \<Rightarrow> DoubleMultPack_Gadget result" where
  "DoubleMultPack_create g = (let n = length (dm_unpacked1 g) in
     if n = length (dm_unpacked2 g) \<and> n = length (dm_partials1 g) \<and> n = length (dm_partials2 g) then Inr g else Inl AssertFailed)"

text \<open>\<open>prev\<close> at the start of round \<open>i\<close>, counted over both loops.\<close>

definition dm_prev :: "DoubleMultPack_Gadget \<Rightarrow> nat \<Rightarrow> LinearCombination" where
  "dm_prev g i = (if i \<le> 1 then mult_factor (dm_unpacked1 g ! 0) xFE else lc_var ((dm_partials1 g @ dm_partials2 g) ! (i - 1)))"

definition DoubleMultPack_constraints :: "DoubleMultPack_Gadget \<Rightarrow> (CircuitPolynomial \<times> string) list" where
  "DoubleMultPack_constraints g = (let n = length (dm_unpacked1 g); j = length (dm_unpacked2 g) - 1 in
     map (\<lambda>i. (mult_poly (dm_partials1 g ! i) (dm_prev g i) (mult_factor (dm_unpacked1 g ! i) (generator_2_i i)), ''DMultPack partials1'')) [1..<n]
     @ map (\<lambda>j. (mult_poly (dm_partials2 g ! j) (dm_prev g (n + j)) (mult_factor (dm_unpacked2 g ! j) (generator_2_i (n + j))), ''DMultPack partials2'')) [0..<j]
     @ [(mult_poly (dm_packed g) (dm_prev g (n + j)) (mult_factor (dm_unpacked2 g ! j) (mp_last (dm_isSigned g) (n + j))), ''DMultPack result'')])"

definition DoubleMultPack_generateConstraints :: "DoubleMultPack_Gadget \<Rightarrow> Protoboard \<Rightarrow> Protoboard result" where
  "DoubleMultPack_generateConstraints g pb = (if dm_unpacked1 g = [] then Inl OutOfBounds
     else Inr (add_constraints (dm_opcode g) (DoubleMultPack_constraints g) pb))"

definition DoubleMultPack_witness :: "DoubleMultPack_Gadget \<Rightarrow> Protoboard \<Rightarrow> Protoboard" where
  "DoubleMultPack_witness g pb = (let n = length (dm_unpacked1 g);
     steps = map (\<lambda>i. (dm_partials1 g ! i, dm_unpacked1 g ! i, generator_2_i i)) [1..<n]
       @ map (\<lambda>j. (dm_partials2 g ! j, dm_unpacked2 g ! j, generator_2_i (n + j))) [0..<length (dm_unpacked2 g) - 1]
     in snd (fold mult_step steps (mult_value pb (dm_unpacked1 g ! 0) getGF2E_X, pb)))"

definition DoubleMultPack_generateWitness :: "DoubleMultPack_Gadget \<Rightarrow> Protoboard \<Rightarrow> Protoboard result" where
  "DoubleMultPack_generateWitness g pb = (if dm_unpacked1 g = [] then Inl OutOfBounds else Inr (DoubleMultPack_witness g pb))"

record Multiplication_Gadget =
  mu_unpacked1 :: "Variable list"
  mu_unpacked2 :: "Variable list"
  mu_partials1 :: "Variable list"
  mu_partials2 :: "Variable list"
  mu_isSigned :: bool
  mu_opcode :: Opcode

definition Multiplication_create :: "Multiplication_Gadget \<Rightarrow> Multiplication_Gadget result" where
  "Multiplication_create g = (let n = length (mu_unpacked1 g) in
     if n \<noteq> length (mu_unpacked2 g) \<or> n \<noteq> length (mu_partials1 g) \<or> n \<noteq> length (mu_partials2 g) then Inl AssertFailed
     else if n = 0 then Inl OutOfBounds else Inr g)"

definition mu_idxLast :: "Multiplication_Gadget \<Rightarrow> nat" where
  "mu_idxLast g = length (mu_unpacked1 g) - 1"

definition mu_multPack1 :: "Multiplication_Gadget \<Rightarrow> MultiplicationPacking_Gadget" where
  "mu_multPack1 g = \<lparr>mp_packingMode = PACK, mp_unpacked = mu_unpacked1 g, mp_partials = mu_partials1 g,
     mp_packed = mu_partials1 g ! mu_idxLast g, mp_isSigned = mu_isSigned g, mp_opcode = mu_opcode g\<rparr>"

text \<open>\<open>unpacked2[i] * h + 1 + unpacked2[i]\<close>\<close>

definition mu_factor :: "Variable \<Rightarrow> Variable \<Rightarrow> CircuitPolynomial" where
  "mu_factor u h = cp_plus (cp_plus (cp_times (cp_var u) (cp_var h)) (cp_const 1)) (cp_var u)"

definition Multiplication_constraints :: "Multiplication_Gadget \<Rightarrow> (CircuitPolynomial \<times> string) list" where
  "Multiplication_constraints g = (let l = mu_idxLast g; h = mu_partials1 g ! l; invh = mu_partials1 g ! 0;
     c = (if mu_isSigned g then mu_factor (mu_unpacked2 g ! l) invh else mu_factor (mu_unpacked2 g ! l) h) in
     MultiplicationPacking_constraints (mu_multPack1 g)
     @ (if mu_isSigned g then [(cp_plus (cp_times (cp_var h) (cp_var invh)) (cp_const 1), ''sMult inv'')] else [])
     @ [(cp_plus c (cp_var (mu_partials2 g ! l)), ''Mult partials2 init'')]
     @ map (\<lambda>i. (cp_plus (cp_times (cp_times (cp_var (mu_partials2 g ! (i + 1))) (cp_var (mu_partials2 g ! (i + 1)))) (mu_factor (mu_unpacked2 g ! i) h))
         (cp_var (mu_partials2 g ! i)), ''Mult partials2'')) (rev [0..<l]))"

definition Multiplication_generateConstraints :: "Multiplication_Gadget \<Rightarrow> Protoboard \<Rightarrow> Protoboard result" where
  "Multiplication_generateConstraints g pb = (if length (mu_unpacked1 g) < 2 then Inl OutOfBounds
     else Inr (add_constraints (mu_opcode g) (Multiplication_constraints g) pb))"

definition mu_step :: "Multiplication_Gadget \<Rightarrow> FElem \<Rightarrow> nat \<Rightarrow> Protoboard \<Rightarrow> Protoboard" where
  "mu_step g h i pb = (let c = (if val pb (mu_unpacked2 g ! i) = 1 then h else 1) in
     set_val (mu_partials2 g ! i) (val pb (mu_partials2 g ! (i + 1)) * val pb (mu_partials2 g ! (i + 1)) * c) pb)"

definition Multiplication_witness :: "Multiplication_Gadget \<Rightarrow> Protoboard \<Rightarrow> Protoboard" where
  "Multiplication_witness g pb = (let l = mu_idxLast g; pb = mp_values (mu_multPack1 g) pb; h = val pb (mu_partials1 g ! l);
     c = (if mu_isSigned g then inverse h else h);
     pb = set_val (mu_partials1 g ! 0) (if mu_isSigned g then c else 0) pb;
     pb = set_val (mu_partials2 g ! l) (if val pb (mu_unpacked2 g ! l) \<noteq> 1 then 1 else c) pb
     in fold (mu_step g h) (rev [0..<l]) pb)"

definition Multiplication_generateWitness :: "Multiplication_Gadget \<Rightarrow> Protoboard \<Rightarrow> Protoboard result" where
  "Multiplication_generateWitness g pb = (if length (mu_unpacked1 g) < 2 then Inl OutOfBounds else Inr (Multiplication_witness g pb))"

section \<open>Powers of the generator\<close>

lemma generator_2_i_eq: "generator_2_i n = getGF2E_X ^ (2 ^ n)"
proof -
  have "g_cache_ok [getGF2E_X]" by (simp add: g_cache_ok_def)
  from g_2_i_extend_ok [OF this, of n] show ?thesis by (auto simp: generator_2_i_def getGenerator2toTheNthPower_def Let_def g_cache_ok_def)
qed

definition mfac :: "FElem \<Rightarrow> FElem \<Rightarrow> FElem" where
  "mfac x c = x * c + (1 + x)"

fun chain_prod :: "nat \<Rightarrow> FElem list \<Rightarrow> FElem" where
  "chain_prod k [] = 1"
| "chain_prod k (x # xs) = mfac x (generator_2_i k) * chain_prod (Suc k) xs"

lemma mult_value_mfac: "mult_value pb u c = mfac (val pb u) c"
  by (simp add: mult_value_def mfac_def)

lemma mfac_bool: "mfac (if b then 1 else 0) c = (if b then c else 1)"
  by (simp add: mfac_def)

lemma chain_prod_append: "chain_prod k (xs @ ys) = chain_prod k xs * chain_prod (k + length xs) ys"
  by (induction xs arbitrary: k) (simp_all add: mult.assoc)

lemma chain_prod_bits: "chain_prod k (map (\<lambda>b. if b then 1 else 0) bs) = getGF2E_X ^ (2 ^ k * bits_nat bs)"
proof (induction bs arbitrary: k)
  case (Cons b bs)
  have "2 ^ k * (of_bool b + 2 * bits_nat bs) = (if b then 2 ^ k else 0) + 2 ^ Suc k * bits_nat bs" by simp
  then show ?case using Cons [of "Suc k"] by (simp add: mfac_bool generator_2_i_eq power_add)
qed simp

lemma mult_values:
  "lv pb (mult_factor u c) = mult_value pb u c" "lv pb (mult_first u) = mult_value pb u xFE"
  "pv pb (mult_poly t p f) = lv pb p * lv pb f + val pb t"
  by (simp_all add: mult_factor_def mult_first_def mult_poly_def mult_value_def pv_simps lv_simps LinearTerm_times_def LinearTerm_of_def add_ac mult.commute)

lemma mult_over [simp]:
  "u \<in> V \<Longrightarrow> lc_over V (mult_factor u c)" "u \<in> V \<Longrightarrow> lc_over V (mult_first u)"
  "t \<in> V \<Longrightarrow> lc_over V p \<Longrightarrow> lc_over V f \<Longrightarrow> cp_over V (mult_poly t p f)"
  by (simp_all add: mult_factor_def mult_first_def mult_poly_def LinearTerm_times_def LinearTerm_of_def)

lemma mult_plain [simp]: "plain (mult_poly t p f)"
  by (simp add: mult_poly_def)

section \<open>Chains of partial products\<close>

definition chain_prev :: "Protoboard \<Rightarrow> Variable list \<Rightarrow> Variable list \<Rightarrow> nat \<Rightarrow> FElem" where
  "chain_prev pb U P i = (if i \<le> 1 then mult_value pb (U ! 0) xFE else val pb (P ! (i - 1)))"

definition chain_eq :: "Protoboard \<Rightarrow> Variable list \<Rightarrow> Variable list \<Rightarrow> nat \<Rightarrow> bool" where
  "chain_eq pb U P i \<longleftrightarrow> val pb (P ! i) = chain_prev pb U P i * mult_value pb (U ! i) (generator_2_i i)"

definition chain_end :: "Protoboard \<Rightarrow> Variable list \<Rightarrow> Variable list \<Rightarrow> bool \<Rightarrow> FElem" where
  "chain_end pb U P isSigned = (let m = length U - 1 in chain_prev pb U P m * mult_value pb (U ! m) (mp_last isSigned m))"

lemma chain_prev_prod:
  assumes "\<forall>j. 0 < j \<longrightarrow> j < i \<longrightarrow> chain_eq pb U P j" "0 < i" "i \<le> length U"
  shows "chain_prev pb U P i = chain_prod 0 (map (val pb) (take i U))"
  using assms
proof (induction i)
  case (Suc i)
  show ?case
  proof (cases "i = 0")
    case True
    have "take (Suc 0) U = [U ! 0]" using Suc.prems by (cases U) auto
    then show ?thesis by (simp add: True chain_prev_def mult_value_mfac generator_2_i_eq getGF2E_X_def)
  next
    case False
    then have "chain_prev pb U P (Suc i) = chain_prod 0 (map (val pb) (take i U)) * mult_value pb (U ! i) (generator_2_i i)"
      using Suc by (simp add: chain_prev_def chain_eq_def)
    then show ?thesis using Suc.prems(3) by (simp add: take_Suc_conv_app_nth chain_prod_append mult_value_mfac)
  qed
qed simp

lemma getGF2E_X_nonzero: "getGF2E_X \<noteq> 0"
proof -
  have "unat (element (fe 2)) = 2" by (simp add: unat_fe)
  moreover have "unat (element (0 :: FElem)) = 0" by (simp add: fe_defs)
  ultimately show ?thesis by (metis getGF2E_X_def xFE_eval zero_neq_numeral)
qed

lemma chain_end_power:
  assumes "\<forall>j. 0 < j \<longrightarrow> j < length U - 1 \<longrightarrow> chain_eq pb U P j" "2 \<le> length U" "\<forall>u \<in> set U. boolean pb u"
  shows "chain_end pb U P isSigned = getGF2E_X powi (word_value isSigned (map (bit_of pb) U))"
proof -
  let ?m = "length U - 1" and ?b = "bit_of pb (last U)"
  have ne: "U \<noteq> []" using assms(2) by auto
  have bits: "map (val pb) (butlast U) = map (\<lambda>b. if b then 1 else 0) (map (bit_of pb) (butlast U))"
    using assms(3) by (simp add: val_boolean in_set_butlastD)
  have "chain_prev pb U P ?m = getGF2E_X ^ bits_nat (map (bit_of pb) (butlast U))"
  proof -
    have "chain_prev pb U P ?m = chain_prod 0 (map (val pb) (butlast U))"
      using chain_prev_prod [of ?m pb U P] assms(1,2) by (simp add: butlast_conv_take)
    then show ?thesis unfolding bits chain_prod_bits by simp
  qed
  moreover have "boolean pb (U ! ?m)" using assms(2,3) by simp
  then have "mult_value pb (U ! ?m) (mp_last isSigned ?m) = (if ?b then mp_last isSigned ?m else 1)"
    using ne by (simp only: mult_value_mfac val_boolean mfac_bool last_conv_nth simp_thms)
  ultimately have e: "chain_end pb U P isSigned = getGF2E_X ^ bits_nat (map (bit_of pb) (butlast U)) * (if ?b then mp_last isSigned ?m else 1)"
    by (simp add: chain_end_def Let_def)
  have v: "word_value isSigned (map (bit_of pb) U) = int (bits_nat (map (bit_of pb) (butlast U))) + (if isSigned then -1 else 1) * (2 ^ ?m * of_bool ?b)"
  proof -
    have "bits_nat (map (bit_of pb) U) = bits_nat (map (bit_of pb) (butlast U)) + 2 ^ ?m * of_bool ?b"
      using bits_nat_append [of "map (bit_of pb) (butlast U)" "[?b]"] append_butlast_last_id [OF ne] by (metis bits_nat.simps length_butlast length_map list.map map_append mult_0_right add_0_right)
    then show ?thesis using ne by (simp add: word_value_def map_butlast last_map)
  qed
  have p: "getGF2E_X powi (2 ^ ?m) = getGF2E_X ^ (2 ^ ?m)" using power_int_of_nat [of getGF2E_X "2 ^ ?m"] by simp
  show ?thesis unfolding e v
    by (cases ?b; cases isSigned)
      (simp_all add: mp_last_def generator_2_i_eq power_int_add power_int_diff getGF2E_X_nonzero p [simplified] divide_inverse)
qed

section \<open>The loop that computes a chain\<close>

type_synonym mult_steps = "(Variable \<times> Variable \<times> FElem) list"

definition step_expr :: "(Protoboard \<Rightarrow> FElem) \<Rightarrow> mult_steps \<Rightarrow> nat \<Rightarrow> Protoboard \<Rightarrow> FElem" where
  "step_expr e ss k pb = e pb * (\<Prod>s \<leftarrow> take k ss. mult_value pb (fst (snd s)) (snd (snd s)))"

definition step_assigns :: "(Protoboard \<Rightarrow> FElem) \<Rightarrow> mult_steps \<Rightarrow> nat \<Rightarrow> assign list" where
  "step_assigns e ss m = map (\<lambda>k. (fst (ss ! k), step_expr e ss (Suc k))) [0..<m]"

definition steps_ok :: "(Protoboard \<Rightarrow> FElem) \<Rightarrow> mult_steps \<Rightarrow> bool" where
  "steps_ok e ss \<longleftrightarrow> distinct (map (\<lambda>s. var_index (fst s)) ss) \<and> ignores ((\<lambda>s. var_index (fst s)) ` set ss) e
     \<and> (\<forall>s \<in> set ss. var_index (fst (snd s)) \<notin> (\<lambda>s. var_index (fst s)) ` set ss)"

lemma step_expr_ignores: "steps_ok e ss \<Longrightarrow> ignores ((\<lambda>s. var_index (fst s)) ` set ss) (step_expr e ss k)"
proof (rule ignoresI)
  fix pb pb' assume ok: "steps_ok e ss" and same: "\<And>v. var_index v \<notin> (\<lambda>s. var_index (fst s)) ` set ss \<Longrightarrow> val pb' v = val pb v"
  have "e pb' = e pb" using ok same by (intro ignoresD [of "(\<lambda>s. var_index (fst s)) ` set ss" e]) (simp_all add: steps_ok_def)
  moreover have "val pb' (fst (snd s)) = val pb (fst (snd s))" if "s \<in> set (take k ss)" for s
    using ok same in_set_takeD [OF that] by (auto simp: steps_ok_def)
  then have "map (\<lambda>s. mult_value pb' (fst (snd s)) (snd (snd s))) (take k ss) = map (\<lambda>s. mult_value pb (fst (snd s)) (snd (snd s))) (take k ss)"
    by (simp add: mult_value_def)
  ultimately show "step_expr e ss k pb' = step_expr e ss k pb" unfolding step_expr_def by presburger
qed

lemma step_assigns_targets: "m \<le> length ss \<Longrightarrow> targets (step_assigns e ss m) = (\<lambda>s. var_index (fst s)) ` set (take m ss)"
  by (simp add: step_assigns_def nth_image [symmetric] image_image atLeast0LessThan)

lemma fold_mult_steps:
  assumes "steps_ok e ss" "pb_inv pb" "m \<le> length ss"
  shows "fold mult_step (take m ss) (e pb, pb) = (step_expr e ss m (run (step_assigns e ss m) pb), run (step_assigns e ss m) pb)"
  using assms(3)
proof (induction m)
  case (Suc m)
  let ?w = "run (step_assigns e ss m) pb"
  obtain q u c where s: "ss ! m = (q, u, c)" by (metis prod_cases3)
  have inv: "pb_inv ?w" using writes_onlyD(1) [OF run_writes assms(2)] .
  have x: "step_expr e ss (Suc m) ?w = step_expr e ss m ?w * mult_value ?w u c"
    using Suc.prems s by (simp add: step_expr_def take_Suc_conv_app_nth mult.assoc)
  have q: "var_index q \<in> (\<lambda>s. var_index (fst s)) ` set ss" using Suc.prems s nth_mem [of m ss] by force
  have same: "step_expr e ss (Suc m) (set_val q y ?w) = step_expr e ss (Suc m) ?w" for y
  proof (rule ignoresD [OF step_expr_ignores [OF assms(1)]])
    fix v :: Variable assume "var_index v \<notin> (\<lambda>s. var_index (fst s)) ` set ss"
    with q have "var_index v \<noteq> var_index q" by metis
    then show "val (set_val q y ?w) v = val ?w v" using inv by simp
  qed
  have ex: "step_assigns e ss (Suc m) = step_assigns e ss m @ [(q, step_expr e ss (Suc m))]" by (simp add: step_assigns_def s)
  show ?case using Suc s by (simp add: take_Suc_conv_app_nth mult_step_def Let_def x [symmetric] same ex)
qed (simp add: step_assigns_def step_expr_def)

lemma step_values:
  assumes "steps_ok e ss" "pb_inv pb" "k < length ss"
  shows "val (run (step_assigns e ss (length ss)) pb) (fst (ss ! k)) = step_expr e ss (Suc k) (run (step_assigns e ss (length ss)) pb)"
proof (rule run_values [OF _ assms(2)])
  have m: "map (\<lambda>a. var_index (fst a)) (step_assigns e ss (length ss)) = map (\<lambda>s. var_index (fst s)) ss"
    by (rule nth_equalityI) (simp_all add: step_assigns_def)
  show "sequential (step_assigns e ss (length ss))"
  proof (rule sequential_independent)
    show "distinct (map (\<lambda>a. var_index (fst a)) (step_assigns e ss (length ss)))" using assms(1) m by (simp add: steps_ok_def)
    show "ignores ((\<lambda>s. var_index (fst s)) ` set ss) x" if "(v, x) \<in> set (step_assigns e ss (length ss))" for v x
      using that step_expr_ignores [OF assms(1)] by (auto simp: step_assigns_def)
  qed (simp add: step_assigns_targets)
  show "(fst (ss ! k), step_expr e ss (Suc k)) \<in> set (step_assigns e ss (length ss))" using assms(3) by (auto simp: step_assigns_def)
qed

definition chain_steps :: "Variable list \<Rightarrow> Variable list \<Rightarrow> nat \<Rightarrow> mult_steps" where
  "chain_steps U P m = map (\<lambda>i. (P ! i, U ! i, generator_2_i i)) [1..<m]"

definition chain_targets :: "Variable list \<Rightarrow> nat \<Rightarrow> int set" where
  "chain_targets P m = (\<lambda>i. var_index (P ! i)) ` {1..<m}"

definition chain_wf :: "Variable list \<Rightarrow> Variable list \<Rightarrow> nat \<Rightarrow> bool" where
  "chain_wf U P m \<longleftrightarrow> 0 < m \<and> m < length U \<and> distinct (map (\<lambda>i. var_index (P ! i)) [1..<m]) \<and> var_index ` set U \<inter> chain_targets P m = {}"

lemma chain_steps_ok:
  assumes "chain_wf U P m"
  shows "steps_ok (\<lambda>pb. mult_value pb (U ! 0) xFE) (chain_steps U P m)" "(\<lambda>s. var_index (fst s)) ` set (chain_steps U P m) = chain_targets P m"
proof -
  show t: "(\<lambda>s. var_index (fst s)) ` set (chain_steps U P m) = chain_targets P m" by (simp add: chain_steps_def chain_targets_def image_image)
  have u: "var_index (U ! i) \<notin> chain_targets P m" if "i < length U" for i using assms that by (auto simp: chain_wf_def disjoint_iff)
  have "ignores (chain_targets P m) (\<lambda>pb. mult_value pb (U ! 0) xFE)"
  proof (rule ignoresI)
    fix pb pb' assume same: "\<And>v. var_index v \<notin> chain_targets P m \<Longrightarrow> val pb' v = val pb v"
    have "U \<noteq> []" using assms by (auto simp: chain_wf_def)
    then show "mult_value pb' (U ! 0) xFE = mult_value pb (U ! 0) xFE" using same u [of 0] by (simp add: mult_value_def)
  qed
  then show "steps_ok (\<lambda>pb. mult_value pb (U ! 0) xFE) (chain_steps U P m)"
    unfolding steps_ok_def t using assms u by (auto simp: chain_steps_def chain_wf_def o_def)
qed

lemma chain_loop:
  assumes wf: "chain_wf U P m" and "pb_inv pb"
    and f: "fold mult_step (chain_steps U P m) (mult_value pb (U ! 0) xFE, pb) = (prev, w)"
  shows "pb_inv w" "prev = chain_prev w U P m" "0 < i \<Longrightarrow> i < m \<Longrightarrow> chain_eq w U P i" "var_index v \<notin> chain_targets P m \<Longrightarrow> val w v = val pb v"
proof -
  let ?e = "\<lambda>pb. mult_value pb (U ! 0) xFE" and ?ss = "chain_steps U P m"
  note ok = chain_steps_ok [OF wf]
  have len: "length ?ss = m - 1" by (simp add: chain_steps_def)
  have pw: "prev = step_expr ?e ?ss (m - 1) w" "w = run (step_assigns ?e ?ss (length ?ss)) pb"
    using fold_mult_steps [OF ok(1) assms(2) order.refl] f by (simp_all add: len)
  show "pb_inv w" "var_index v \<notin> chain_targets P m \<Longrightarrow> val w v = val pb v"
    unfolding pw(2) using writes_onlyD(1,4) [OF run_writes assms(2)] step_assigns_targets [of "length ?ss" ?ss] ok(2) by simp_all
  have P: "val w (P ! i) = step_expr ?e ?ss i w" if "0 < i" "i < m" for i
    using step_values [OF ok(1) assms(2), of "i - 1"] that len by (simp add: pw(2) chain_steps_def)
  have prev: "chain_prev w U P i = step_expr ?e ?ss (i - 1) w" if "0 < i" "i \<le> m" for i
    using P [of "i - 1"] that by (cases "i = 1") (auto simp: chain_prev_def step_expr_def)
  then show "prev = chain_prev w U P m" using pw(1) wf by (simp add: chain_wf_def)
  show "chain_eq w U P i" if "0 < i" "i < m" for i
  proof -
    have t: "take i ?ss = take (i - 1) ?ss @ [(P ! i, U ! i, generator_2_i i)]"
      using that take_Suc_conv_app_nth [of "i - 1" ?ss] len by (simp add: chain_steps_def)
    have "step_expr ?e ?ss i w = step_expr ?e ?ss (i - 1) w * mult_value w (U ! i) (generator_2_i i)" by (simp add: step_expr_def t)
    then show ?thesis using P [OF that] prev [of i] that by (simp add: chain_eq_def)
  qed
qed

lemma chain_loop_writes: "chain_wf U P m \<Longrightarrow> writes_only (chain_targets P m) (\<lambda>pb. snd (fold mult_step (chain_steps U P m) (mult_value pb (U ! 0) xFE, pb)))"
proof -
  assume "chain_wf U P m"
  note ok = chain_steps_ok [OF this]
  have "snd (fold mult_step (chain_steps U P m) (mult_value pb (U ! 0) xFE, pb)) = run (step_assigns (\<lambda>pb. mult_value pb (U ! 0) xFE) (chain_steps U P m) (length (chain_steps U P m))) pb"
    if "pb_inv pb" for pb using fold_mult_steps [OF ok(1) that order.refl] by simp
  then show ?thesis using run_writes [of "step_assigns (\<lambda>pb. mult_value pb (U ! 0) xFE) (chain_steps U P m) (length (chain_steps U P m))"]
    by (simp add: writes_only_def step_assigns_targets ok(2))
qed

lemma chain_same:
  assumes "\<And>u. u \<in> set U \<Longrightarrow> val w u = val pb u" "\<And>i. 0 < i \<Longrightarrow> i < m \<Longrightarrow> val w (P ! i) = val pb (P ! i)" "m < length U"
  shows "0 < i \<Longrightarrow> i < m \<Longrightarrow> chain_eq w U P i = chain_eq pb U P i" "0 < i \<Longrightarrow> i \<le> m \<Longrightarrow> chain_prev w U P i = chain_prev pb U P i"
    "m = length U - 1 \<Longrightarrow> 0 < m \<Longrightarrow> chain_end w U P s = chain_end pb U P s"
proof -
  have u: "mult_value w (U ! i) c = mult_value pb (U ! i) c" if "i < length U" for i c using assms(1) that by (simp add: mult_value_def)
  show prev: "chain_prev w U P i = chain_prev pb U P i" if "0 < i" "i \<le> m" for i
    using u [of 0] assms(2) [of "i - 1"] order.strict_trans1 [OF le0 assms(3)] that by (auto simp: chain_prev_def)
  show "chain_eq w U P i = chain_eq pb U P i" if "0 < i" "i < m" for i
    using u [of i] prev [of i] assms(2) [of i] assms(3) that by (simp add: chain_eq_def)
  show "chain_end w U P s = chain_end pb U P s" if "m = length U - 1" "0 < m"
    using u [of m] prev [of m] assms(3) that by (simp add: chain_end_def Let_def)
qed

section \<open>MultiplicationPacking\<close>

definition mp_wf :: "MultiplicationPacking_Gadget \<Rightarrow> bool" where
  "mp_wf g \<longleftrightarrow> (let n = length (mp_unpacked g) in 2 \<le> n \<and> length (mp_partials g) = n
     \<and> distinct (map var_index (mp_unpacked g)) \<and> distinct (map (\<lambda>i. var_index (mp_partials g ! i)) [1..<n - 1])
     \<and> var_index ` set (mp_unpacked g) \<inter> chain_targets (mp_partials g) (n - 1) = {}
     \<and> var_index (mp_packed g) \<notin> var_index ` set (mp_unpacked g) \<union> chain_targets (mp_partials g) (n - 1))"

lemma mp_wfD:
  assumes "mp_wf g"
  shows "chain_wf (mp_unpacked g) (mp_partials g) (length (mp_unpacked g) - 1)" "2 \<le> length (mp_unpacked g)"
    "u \<in> set (mp_unpacked g) \<Longrightarrow> var_index u \<noteq> var_index (mp_packed g)"
    "0 < i \<Longrightarrow> i < length (mp_unpacked g) - 1 \<Longrightarrow> var_index (mp_partials g ! i) \<noteq> var_index (mp_packed g)"
proof -
  let ?n = "length (mp_unpacked g)"
  show "chain_wf (mp_unpacked g) (mp_partials g) (?n - 1)" "2 \<le> ?n" using assms by (auto simp: mp_wf_def chain_wf_def Let_def)
  have p: "var_index (mp_packed g) \<notin> var_index ` set (mp_unpacked g)" "var_index (mp_packed g) \<notin> chain_targets (mp_partials g) (?n - 1)"
    using assms unfolding mp_wf_def Let_def by blast+
  show "var_index u \<noteq> var_index (mp_packed g)" if "u \<in> set (mp_unpacked g)" for u using p(1) that by (metis imageI)
  show "var_index (mp_partials g ! i) \<noteq> var_index (mp_packed g)" if "0 < i" "i < ?n - 1" for i
  proof -
    have "var_index (mp_partials g ! i) \<in> chain_targets (mp_partials g) (?n - 1)" using that by (simp add: chain_targets_def)
    then show ?thesis using p(2) by metis
  qed
qed

lemma mult_poly_zero: "pv pb (mult_poly t p f) = 0 \<longleftrightarrow> val pb t = lv pb p * lv pb f"
  unfolding mult_values(3) fe_add_eq_0 by (rule eq_commute)

lemma mp_prev_value: "lv pb (mp_prev g i) = chain_prev pb (mp_unpacked g) (mp_partials g) i"
  by (simp add: mp_prev_def chain_prev_def mult_values lv_simps)

text \<open>The constraints say that the partial products and the packed element form a chain.\<close>

definition mp_chain :: "MultiplicationPacking_Gadget \<Rightarrow> Protoboard \<Rightarrow> bool" where
  "mp_chain g pb \<longleftrightarrow> (\<forall>i. 0 < i \<longrightarrow> i < length (mp_unpacked g) - 1 \<longrightarrow> chain_eq pb (mp_unpacked g) (mp_partials g) i)
     \<and> val pb (mp_packed g) = chain_end pb (mp_unpacked g) (mp_partials g) (mp_isSigned g)"

lemma mp_constraints_iff:
  "(\<forall>(p, nm) \<in> set (MultiplicationPacking_constraints g). pv pb p = 0) \<longleftrightarrow>
    mp_chain g pb \<and> (mp_packingMode g = UNPACK \<longrightarrow> (\<forall>u \<in> set (mp_unpacked g). boolean pb u))"
  by (cases "mp_packingMode g")
    (auto simp: MultiplicationPacking_constraints_def mp_chain_def Let_def mult_poly_zero mult_values(1,2) mp_prev_value
      chain_eq_def chain_end_def bool_constraint_def pv_booleanity boolean_def ball_Un Suc_le_eq)

lemma mp_plain: "(p, nm) \<in> set (MultiplicationPacking_constraints g) \<Longrightarrow> plain p"
  by (auto simp: MultiplicationPacking_constraints_def Let_def bool_constraint_def)

lemma mp_chain_power:
  assumes "mp_chain g pb" "2 \<le> length (mp_unpacked g)" "\<forall>u \<in> set (mp_unpacked g). boolean pb u"
  shows "val pb (mp_packed g) = getGF2E_X powi (word_value (mp_isSigned g) (map (bit_of pb) (mp_unpacked g)))"
  using chain_end_power [of "mp_unpacked g" pb "mp_partials g"] assms by (simp add: mp_chain_def)

text \<open>What the witness code establishes from the bits.\<close>

lemma mp_values_chain:
  assumes "mp_wf g" "pb_inv pb"
  defines "w \<equiv> mp_values g pb" and "U \<equiv> mp_unpacked g" and "P \<equiv> mp_partials g"
  shows "0 < i \<Longrightarrow> i < length U - 1 \<Longrightarrow> chain_eq w U P i" "mp_packingMode g = PACK \<Longrightarrow> mp_chain g w"
proof -
  let ?m = "length U - 1"
  note wf = mp_wfD [OF assms(1), folded U_def P_def]
  obtain prev p where fp: "fold mult_step (chain_steps U P ?m) (mult_value pb (U ! 0) xFE, pb) = (prev, p)" by fastforce
  note c = chain_loop [OF wf(1) assms(2) fp]
  have w: "w = (if mp_packingMode g = PACK then set_val (mp_packed g) (prev * mult_value p (U ! ?m) (mp_last (mp_isSigned g) ?m)) p else p)"
    using fp by (simp add: w_def mp_values_def Let_def chain_steps_def U_def P_def)
  have same: "val w u = val p u" if "var_index u \<noteq> var_index (mp_packed g)" for u using c(1) that by (simp add: w)
  have m: "0 < ?m" "?m < length U" using wf(2) by simp_all
  note cs = chain_same [of U w p ?m P]
  have eqs: "chain_eq w U P i" if "0 < i" "i < ?m" for i
    using cs(1) [OF _ _ m(2) that] same wf(3,4) c(3) [OF that] by simp
  then show "0 < i \<Longrightarrow> i < ?m \<Longrightarrow> chain_eq w U P i" by simp
  show "mp_chain g w" if "mp_packingMode g = PACK"
  proof -
    have "val w (mp_packed g) = prev * mult_value p (U ! ?m) (mp_last (mp_isSigned g) ?m)" using that c(1) by (simp add: w)
    also have "\<dots> = chain_end p U P (mp_isSigned g)" by (simp add: chain_end_def Let_def c(2))
    also have "\<dots> = chain_end w U P (mp_isSigned g)" using cs(3) [OF _ _ m(2) refl m(1)] same wf(3,4) by simp
    finally show ?thesis using eqs by (simp add: mp_chain_def U_def P_def)
  qed
qed

lemma mp_values_writes:
  assumes "mp_wf g"
  shows "writes_only (chain_targets (mp_partials g) (length (mp_unpacked g) - 1) \<union> (if mp_packingMode g = PACK then {var_index (mp_packed g)} else {})) (mp_values g)"
proof -
  let ?f = "\<lambda>pb. snd (fold mult_step (chain_steps (mp_unpacked g) (mp_partials g) (length (mp_unpacked g) - 1)) (mult_value pb (mp_unpacked g ! 0) xFE, pb))"
  have w: "writes_only (chain_targets (mp_partials g) (length (mp_unpacked g) - 1)) ?f" by (rule chain_loop_writes [OF mp_wfD(1) [OF assms]])
  have "\<exists>x. mp_values g pb = (if mp_packingMode g = PACK then set_val (mp_packed g) x (?f pb) else ?f pb)" for pb
    by (auto simp: mp_values_def Let_def chain_steps_def split: prod.split)
  then obtain X where "mp_values g = (\<lambda>pb. if mp_packingMode g = PACK then set_val (mp_packed g) (X pb) (?f pb) else ?f pb)" by metis
  then show ?thesis using w by (auto simp: writes_only_def)
qed

text \<open>The gadget together with the argument of its witness code.\<close>

definition mp_bits :: "MultiplicationPacking_Gadget \<Rightarrow> nat \<Rightarrow> Protoboard \<Rightarrow> Protoboard" where
  "mp_bits g n pb = (if mp_packingMode g = UNPACK then fold (mp_bits_step n) (enumerate 0 (mp_unpacked g)) pb else pb)"

definition mp_run :: "MultiplicationPacking_Gadget \<times> nat \<Rightarrow> Protoboard \<Rightarrow> Protoboard" where
  "mp_run gn pb = mp_values (fst gn) (mp_bits (fst gn) (snd gn) pb)"

definition mp_pre :: "MultiplicationPacking_Gadget \<times> nat \<Rightarrow> Protoboard \<Rightarrow> bool" where
  "mp_pre gn pb \<longleftrightarrow> (if mp_packingMode (fst gn) = PACK then \<forall>u \<in> set (mp_unpacked (fst gn)). assigned pb u
     else \<not> mp_isSigned (fst gn) \<and> snd gn < 2 ^ length (mp_unpacked (fst gn)) \<and> assigned pb (mp_packed (fst gn))
       \<and> val pb (mp_packed (fst gn)) = getGF2E_X ^ snd gn)"

definition mp_written :: "MultiplicationPacking_Gadget \<times> nat \<Rightarrow> int set" where
  "mp_written gn = (let g = fst gn in chain_targets (mp_partials g) (length (mp_unpacked g) - 1)
     \<union> (if mp_packingMode g = PACK then {var_index (mp_packed g)} else var_index ` set (mp_unpacked g)))"

lemma mp_bits_writes: "writes_only (if mp_packingMode g = PACK then {} else var_index ` set (mp_unpacked g)) (mp_bits g n)"
proof (cases "mp_packingMode g")
  case PACK
  then show ?thesis using writes_only_id by (simp add: mp_bits_def [abs_def])
next
  case UNPACK
  let ?ivs = "enumerate 0 (mp_unpacked g)"
  have "writes_only (\<Union> ((\<lambda>iv. {var_index (snd iv)}) ` set ?ivs)) (fold (mp_bits_step n) ?ivs)"
  proof (rule writes_only_fold)
    show "writes_only {var_index (snd iv)} (mp_bits_step n iv)" for iv
      unfolding mp_bits_step_def [abs_def] by (cases iv) (simp add: writes_only_set_val)
  qed
  moreover have "\<Union> ((\<lambda>iv. {var_index (snd iv)}) ` set ?ivs) = var_index ` set (mp_unpacked g)"
    by (simp only: UNION_singleton_eq_range set_index_enumerate)
  ultimately show ?thesis using UNPACK by (simp add: mp_bits_def [abs_def])
qed

lemma mp_bits_val:
  assumes "mp_wf g" "pb_inv pb" "mp_packingMode g = UNPACK" "i < length (mp_unpacked g)"
  shows "val (mp_bits g n pb) (mp_unpacked g ! i) = (if odd (n div 2 ^ i) then 1 else 0)"
proof -
  have "val (fold (mp_bits_step n) (enumerate 0 (mp_unpacked g)) pb) (snd (i, mp_unpacked g ! i)) = (if odd (n div 2 ^ fst (i, mp_unpacked g ! i)) then 1 else 0)"
  proof (rule fold_writes [where R = "{}" and g = "\<lambda>iv pb. if odd (n div 2 ^ fst iv) then 1 else 0", OF assms(2)])
    show "mp_bits_step n iv pb = set_val (snd iv) (if odd (n div 2 ^ fst iv) then 1 else 0) pb" for iv pb by (cases iv) (simp add: mp_bits_step_def)
    show "distinct (map (\<lambda>iv. var_index (snd iv)) (enumerate 0 (mp_unpacked g)))" using assms(1) by (simp add: map_index_enumerate mp_wf_def Let_def)
    show "(i, mp_unpacked g ! i) \<in> set (enumerate 0 (mp_unpacked g))" using assms(4) by (simp add: in_set_enumerate_eq)
  qed simp_all
  then show ?thesis by (simp add: mp_bits_def assms(3))
qed

lemma mp_writes: "mp_wf (fst gn) \<Longrightarrow> writes_only (mp_written gn) (mp_run gn)"
proof -
  assume wf: "mp_wf (fst gn)"
  note w = writes_only_comp [OF mp_bits_writes [of "fst gn" "snd gn"] mp_values_writes [OF wf]]
  moreover have "mp_run gn = (\<lambda>pb. mp_values (fst gn) (mp_bits (fst gn) (snd gn) pb))" by (rule ext) (simp add: mp_run_def)
  moreover have "(if mp_packingMode (fst gn) = PACK then {} else var_index ` set (mp_unpacked (fst gn))) \<union>
      (chain_targets (mp_partials (fst gn)) (length (mp_unpacked (fst gn)) - 1) \<union> (if mp_packingMode (fst gn) = PACK then {var_index (mp_packed (fst gn))} else {}))
      = mp_written gn" by (auto simp: mp_written_def Let_def)
  ultimately show ?thesis by simp
qed

lemma mp_run_chain:
  assumes "mp_wf (fst gn)" "pb_inv pb" "mp_pre gn pb"
  shows "mp_chain (fst gn) (mp_run gn pb) \<and> (mp_packingMode (fst gn) = UNPACK \<longrightarrow> (\<forall>u \<in> set (mp_unpacked (fst gn)). boolean (mp_run gn pb) u))"
proof (cases "mp_packingMode (fst gn)")
  case PACK
  then show ?thesis using mp_values_chain(2) [OF assms(1,2)] by (simp add: mp_run_def mp_bits_def)
next
  case UNPACK
  let ?g = "fst gn" and ?n = "snd gn" and ?w = "mp_run gn pb" let ?U = "mp_unpacked ?g"
  note wf = mp_wfD [OF assms(1)]
  note inv = writes_onlyD(1) [OF mp_bits_writes [of ?g ?n] assms(2)]
  have u: "val ?w (?U ! i) = (if odd (?n div 2 ^ i) then 1 else 0)" if i: "i < length ?U" for i
  proof -
    have "var_index (?U ! i) \<notin> chain_targets (mp_partials ?g) (length ?U - 1)" using wf(1) i by (auto simp: chain_wf_def disjoint_iff)
    then have "val ?w (?U ! i) = val (mp_bits ?g ?n pb) (?U ! i)"
      unfolding mp_run_def using UNPACK by (intro writes_onlyD(4) [OF mp_values_writes [OF assms(1)] inv]) simp
    then show ?thesis using mp_bits_val [OF assms(1,2) UNPACK i] by simp
  qed
  then have bool: "\<forall>u \<in> set ?U. boolean ?w u" by (auto simp: in_set_conv_nth boolean_def split: if_splits)
  have "map (bit_of ?w) ?U ! i = bit ?n i" if "i < length (map (bit_of ?w) ?U)" for i
    using u [of i] that by (simp add: bit_of_def bit_iff_odd)
  then have bits: "bits_nat (map (bit_of ?w) ?U) = ?n" using assms(3) UNPACK by (intro bits_nat_of_bits) (simp_all add: mp_pre_def)
  have eqs: "chain_eq ?w ?U (mp_partials ?g) i" if "0 < i" "i < length ?U - 1" for i
    unfolding mp_run_def using mp_values_chain(1) [OF assms(1) inv that] .
  have "var_index (mp_packed ?g) \<notin> mp_written gn" using assms(1) UNPACK by (auto simp: mp_wf_def mp_written_def Let_def)
  then have "val ?w (mp_packed ?g) = getGF2E_X ^ ?n" using writes_onlyD(4) [OF mp_writes [OF assms(1)] assms(2)] assms(3) UNPACK by (simp add: mp_pre_def)
  moreover have "chain_end ?w ?U (mp_partials ?g) (mp_isSigned ?g) = getGF2E_X powi int ?n"
    using chain_end_power [OF _ wf(2) bool] eqs assms(3) UNPACK bits by (simp add: mp_pre_def word_value_def)
  ultimately show ?thesis using eqs bool by (simp add: mp_chain_def)
qed

lemma mp_vars:
  assumes "mp_wf g" "(p, nm) \<in> set (MultiplicationPacking_constraints g)"
  shows "cp_over {v. v \<in> set (mp_unpacked g) \<or> v = mp_packed g \<or> var_index v \<in> chain_targets (mp_partials g) (length (mp_unpacked g) - 1)} p"
proof -
  define V where "V = {v. v \<in> set (mp_unpacked g) \<or> v = mp_packed g \<or> var_index v \<in> chain_targets (mp_partials g) (length (mp_unpacked g) - 1)}"
  let ?n = "length (mp_unpacked g)"
  have u: "mp_unpacked g ! i \<in> V" if "i < ?n" for i using that by (simp add: V_def)
  have q: "mp_partials g ! i \<in> V" if "0 < i" "i < ?n - 1" for i using that by (simp add: V_def chain_targets_def)
  have n: "2 \<le> ?n" using mp_wfD(2) [OF assms(1)] .
  then have ne: "mp_unpacked g \<noteq> []" by auto
  have prev: "lc_over V (mp_prev g i)" if "i \<le> ?n - 1" for i
    using u [of 0] q [of "i - 1"] that n ne by (cases "i \<le> 1") (auto simp: mp_prev_def)
  have "mp_packed g \<in> V" by (simp add: V_def)
  then have "cp_over V p" using assms(2) u q prev n
    by (auto simp: MultiplicationPacking_constraints_def Let_def bool_constraint_def V_def split: if_splits)
  then show ?thesis by (simp add: V_def)
qed

lemma mp_complete:
  assumes "mp_wf (fst gn)" "pb_inv pb" "mp_pre gn pb" "(p, nm) \<in> set (MultiplicationPacking_constraints (fst gn))"
  shows "holds (mp_run gn pb) p"
proof -
  have "pv (mp_run gn pb) p = 0" using mp_constraints_iff [of "fst gn" "mp_run gn pb"] mp_run_chain [OF assms(1-3)] assms(4) by blast
  moreover have "assigned (mp_run gn pb) v" if "v \<in> cp_vars p" for v
    using mp_vars [OF assms(1,4)] that assms(3) writes_onlyD(3) [OF mp_writes [OF assms(1)] assms(2)]
    by (auto simp: cp_over_def mp_pre_def mp_written_def Let_def split: if_splits)
  ultimately show ?thesis by (simp add: holds_iff mp_plain [OF assms(4)])
qed

interpretation multiplication_packing: gadget "\<lambda>gn. mp_opcode (fst gn)" "\<lambda>gn. MultiplicationPacking_constraints (fst gn)" mp_run "\<lambda>gn. mp_wf (fst gn)" mp_pre mp_written
proof
  show "mp_pre g pb'" if "mp_pre g pb" "assignment pb' = assignment pb" "fresh pb' = fresh pb" for g pb pb'
    using that val_same [OF that(2,3)] assigned_same [OF that(2)] by (simp add: mp_pre_def split: if_splits)
qed (rule mp_writes mp_complete; assumption)+

section \<open>DoubleMultPack\<close>

definition dm_bits :: "DoubleMultPack_Gadget \<Rightarrow> Variable list" where
  "dm_bits g = dm_unpacked1 g @ dm_unpacked2 g"

definition dm_partials :: "DoubleMultPack_Gadget \<Rightarrow> Variable list" where
  "dm_partials g = dm_partials1 g @ dm_partials2 g"

text \<open>The last round of the two loops.\<close>

definition dm_last :: "DoubleMultPack_Gadget \<Rightarrow> nat" where
  "dm_last g = length (dm_unpacked1 g) + (length (dm_unpacked2 g) - 1)"

definition dm_wf :: "DoubleMultPack_Gadget \<Rightarrow> bool" where
  "dm_wf g \<longleftrightarrow> (let n = length (dm_unpacked1 g) in 0 < n \<and> length (dm_unpacked2 g) = n \<and> length (dm_partials1 g) = n \<and> length (dm_partials2 g) = n
     \<and> chain_wf (dm_bits g) (dm_partials g) (dm_last g) \<and> var_index (dm_packed g) \<notin> chain_targets (dm_partials g) (dm_last g))"

definition dm_written :: "DoubleMultPack_Gadget \<Rightarrow> int set" where
  "dm_written g = chain_targets (dm_partials g) (dm_last g)"

definition dm_pre :: "DoubleMultPack_Gadget \<Rightarrow> Protoboard \<Rightarrow> bool" where
  "dm_pre g pb \<longleftrightarrow> (\<forall>u \<in> set (dm_bits g). assigned pb u \<and> boolean pb u) \<and> assigned pb (dm_packed g)
     \<and> val pb (dm_packed g) = getGF2E_X powi (word_value (dm_isSigned g) (map (bit_of pb) (dm_bits g)))"

definition dm_chain :: "DoubleMultPack_Gadget \<Rightarrow> Protoboard \<Rightarrow> bool" where
  "dm_chain g pb \<longleftrightarrow> (\<forall>i. 0 < i \<longrightarrow> i < length (dm_bits g) - 1 \<longrightarrow> chain_eq pb (dm_bits g) (dm_partials g) i)
     \<and> val pb (dm_packed g) = chain_end pb (dm_bits g) (dm_partials g) (dm_isSigned g)"

lemma dm_lengths:
  assumes "dm_wf g"
  shows "length (dm_bits g) = Suc (dm_last g)" "0 < dm_last g" "chain_wf (dm_bits g) (dm_partials g) (dm_last g)" "dm_unpacked1 g \<noteq> []"
    "length (dm_unpacked2 g) = length (dm_unpacked1 g)" "length (dm_partials1 g) = length (dm_unpacked1 g)" "length (dm_partials2 g) = length (dm_unpacked1 g)"
  using assms by (auto simp: dm_wf_def dm_bits_def dm_last_def Let_def)

lemma dm_prev_value: "dm_wf g \<Longrightarrow> lv pb (dm_prev g i) = chain_prev pb (dm_bits g) (dm_partials g) i"
  by (auto simp: dm_prev_def chain_prev_def mult_values lv_simps dm_bits_def dm_partials_def nth_append dm_wf_def Let_def)

text \<open>The constraints of both loops as one list over the rounds.\<close>

lemma dm_rounds:
  assumes "dm_wf g"
  shows "(\<forall>(p, nm) \<in> set (DoubleMultPack_constraints g). Q p) \<longleftrightarrow>
    (\<forall>i \<in> {1..<dm_last g}. Q (mult_poly (dm_partials g ! i) (dm_prev g i) (mult_factor (dm_bits g ! i) (generator_2_i i))))
    \<and> Q (mult_poly (dm_packed g) (dm_prev g (dm_last g)) (mult_factor (dm_bits g ! dm_last g) (mp_last (dm_isSigned g) (dm_last g))))"
proof -
  let ?n = "length (dm_unpacked1 g)"
  note l = dm_lengths [OF assms]
  have r: "{1..<dm_last g} = {1..<?n} \<union> (+) ?n ` {0..<?n - 1}" using l(4) by (simp add: image_add_atLeastLessThan dm_last_def l) auto
  show ?thesis unfolding r ball_Un ball_simps(9)
    by (simp add: DoubleMultPack_constraints_def Let_def l dm_bits_def dm_partials_def nth_append dm_last_def ball_Un conj_ac)
qed

lemma dm_constraints_iff: "dm_wf g \<Longrightarrow> (\<forall>(p, nm) \<in> set (DoubleMultPack_constraints g). pv pb p = 0) \<longleftrightarrow> dm_chain g pb"
  by (auto simp: dm_rounds dm_chain_def dm_lengths(1) mult_poly_zero mult_values(1,2) dm_prev_value chain_eq_def chain_end_def Let_def Suc_le_eq)

lemma dm_plain: "(p, nm) \<in> set (DoubleMultPack_constraints g) \<Longrightarrow> plain p"
  by (auto simp: DoubleMultPack_constraints_def Let_def)

lemma dm_chain_power:
  assumes "dm_wf g" "dm_chain g pb" "\<forall>u \<in> set (dm_bits g). boolean pb u"
  shows "val pb (dm_packed g) = getGF2E_X powi (word_value (dm_isSigned g) (map (bit_of pb) (dm_bits g)))"
  using chain_end_power [of "dm_bits g" pb "dm_partials g"] assms dm_lengths(1,2) [OF assms(1)] by (simp add: dm_chain_def)

lemma dm_witness_chain: "dm_wf g \<Longrightarrow> DoubleMultPack_witness g pb =
    snd (fold mult_step (chain_steps (dm_bits g) (dm_partials g) (dm_last g)) (mult_value pb (dm_bits g ! 0) xFE, pb))"
proof -
  assume wf: "dm_wf g"
  let ?n = "length (dm_unpacked1 g)"
  note l = dm_lengths [OF wf]
  have "[1..<dm_last g] = [1..<?n] @ map (\<lambda>j. j + ?n) [0..<?n - 1]"
    using upt_add_eq_append [of 1 ?n "?n - 1"] l(4) by (simp add: map_add_upt dm_last_def l add.commute Suc_le_eq)
  then have "chain_steps (dm_bits g) (dm_partials g) (dm_last g) = map (\<lambda>i. (dm_partials1 g ! i, dm_unpacked1 g ! i, generator_2_i i)) [1..<?n]
       @ map (\<lambda>j. (dm_partials2 g ! j, dm_unpacked2 g ! j, generator_2_i (?n + j))) [0..<?n - 1]"
    by (simp add: chain_steps_def dm_bits_def dm_partials_def nth_append l add.commute)
  then show ?thesis using l by (simp add: DoubleMultPack_witness_def Let_def getGF2E_X_def dm_bits_def nth_append)
qed

lemma dm_writes: "dm_wf g \<Longrightarrow> writes_only (dm_written g) (DoubleMultPack_witness g)"
  using chain_loop_writes [OF dm_lengths(3)] dm_witness_chain [of g] by (simp add: dm_written_def writes_only_def)

lemma dm_over:
  assumes "dm_wf g" "(p, nm) \<in> set (DoubleMultPack_constraints g)"
  shows "cp_over {v. v \<in> set (dm_bits g) \<or> v = dm_packed g \<or> var_index v \<in> dm_written g} p"
proof -
  let ?m = "dm_last g"
  note wf = dm_lengths [OF assms(1)]
  define V where "V = {v. v \<in> set (dm_bits g) \<or> v = dm_packed g \<or> var_index v \<in> dm_written g}"
  have in_V: "dm_bits g ! i \<in> V" if "i < length (dm_bits g)" for i using that by (simp add: V_def)
  have q: "dm_partials g ! i \<in> V" if "0 < i" "i < ?m" for i using that by (simp add: V_def dm_written_def chain_targets_def)
  have prev: "lc_over V (dm_prev g i)" if "i \<le> ?m" for i
    using q [of "i - 1"] that wf(4) by (auto simp: dm_prev_def dm_bits_def dm_partials_def V_def)
  have "dm_packed g \<in> V" by (simp add: V_def)
  then have "\<forall>(p, nm) \<in> set (DoubleMultPack_constraints g). cp_over V p" unfolding dm_rounds [OF assms(1)] using in_V q prev wf(1) by auto
  then show ?thesis using assms(2) unfolding V_def by blast
qed

lemma dm_complete:
  assumes "dm_wf g" "pb_inv pb" "dm_pre g pb" "(p, nm) \<in> set (DoubleMultPack_constraints g)"
  shows "holds (DoubleMultPack_witness g pb) p"
proof -
  let ?w = "DoubleMultPack_witness g pb" and ?m = "dm_last g"
  note wf = dm_lengths [OF assms(1)]
  obtain prev w where f: "fold mult_step (chain_steps (dm_bits g) (dm_partials g) ?m) (mult_value pb (dm_bits g ! 0) xFE, pb) = (prev, w)" by fastforce
  have w: "?w = w" using dm_witness_chain [OF assms(1)] f by simp
  note c = chain_loop [OF wf(3) assms(2) f]
  have u: "val ?w u = val pb u" if "u \<in> set (dm_bits g)" for u unfolding w
    using wf(3) that by (intro c(4)) (auto simp: chain_wf_def disjoint_iff)
  then have b: "\<forall>u \<in> set (dm_bits g). boolean ?w u" "map (bit_of ?w) (dm_bits g) = map (bit_of pb) (dm_bits g)"
    using assms(3) by (simp_all add: dm_pre_def boolean_def bit_of_def)
  have "val ?w (dm_packed g) = val pb (dm_packed g)" unfolding w using assms(1) by (intro c(4)) (simp add: dm_wf_def Let_def)
  moreover have "chain_end ?w (dm_bits g) (dm_partials g) (dm_isSigned g) = val pb (dm_packed g)"
    using chain_end_power [of "dm_bits g" ?w "dm_partials g" "dm_isSigned g"] c(3) b(1) wf(1,2) assms(3) unfolding b(2) by (simp add: w dm_pre_def)
  ultimately have "dm_chain g ?w" using c(3) wf(1) by (simp add: dm_chain_def w)
  then have "pv ?w p = 0" using dm_constraints_iff [OF assms(1)] assms(4) by blast
  moreover have "assigned ?w v" if v: "v \<in> cp_vars p" for v
    using dm_over [OF assms(1,4)] v assms(3) writes_onlyD(3) [OF dm_writes [OF assms(1)] assms(2)] by (auto simp: cp_over_def dm_pre_def)
  ultimately show ?thesis by (simp add: holds_iff dm_plain [OF assms(4)])
qed

interpretation double_mult_pack: gadget dm_opcode DoubleMultPack_constraints DoubleMultPack_witness dm_wf dm_pre dm_written
proof
  show "dm_pre g pb'" if "dm_pre g pb" "assignment pb' = assignment pb" "fresh pb' = fresh pb" for g pb pb'
  proof -
    have "val pb' = val pb" "assigned pb' = assigned pb" using val_same [OF that(2,3)] assigned_same [OF that(2)] by (auto intro!: ext)
    moreover from this(1) have "bit_of pb' = bit_of pb" by (auto intro!: ext simp: bit_of_def)
    ultimately show ?thesis using that(1) by (simp add: dm_pre_def boolean_def)
  qed
qed (rule dm_writes dm_complete; assumption)+

section \<open>Multiplication\<close>

definition mu_wf :: "Multiplication_Gadget \<Rightarrow> bool" where
  "mu_wf g \<longleftrightarrow> (let n = length (mu_unpacked1 g) in 2 \<le> n \<and> length (mu_unpacked2 g) = n \<and> length (mu_partials1 g) = n \<and> length (mu_partials2 g) = n
     \<and> distinct (map var_index (mu_unpacked1 g)) \<and> distinct (map var_index (mu_partials1 g @ mu_partials2 g))
     \<and> var_index ` (set (mu_unpacked1 g) \<union> set (mu_unpacked2 g)) \<inter> var_index ` set (mu_partials1 g @ mu_partials2 g) = {})"

definition mu_pre :: "Multiplication_Gadget \<Rightarrow> Protoboard \<Rightarrow> bool" where
  "mu_pre g pb \<longleftrightarrow> (\<forall>u \<in> set (mu_unpacked1 g) \<union> set (mu_unpacked2 g). assigned pb u \<and> boolean pb u)"

definition mu_written :: "Multiplication_Gadget \<Rightarrow> int set" where
  "mu_written g = var_index ` set (mu_partials1 g @ mu_partials2 g)"

text \<open>The factor of the lowest bit: the accumulator starts with the inverse in the signed case.\<close>

definition mu_start :: "Multiplication_Gadget \<Rightarrow> Protoboard \<Rightarrow> FElem" where
  "mu_start g pb = (let h = val pb (mu_partials1 g ! mu_idxLast g) in if mu_isSigned g then inverse h else h)"

definition mu_eqs :: "Multiplication_Gadget \<Rightarrow> Protoboard \<Rightarrow> bool" where
  "mu_eqs g pb \<longleftrightarrow> (let l = mu_idxLast g; h = val pb (mu_partials1 g ! l) in mp_chain (mu_multPack1 g) pb
     \<and> (mu_isSigned g \<longrightarrow> h * val pb (mu_partials1 g ! 0) = 1)
     \<and> val pb (mu_partials2 g ! l) = mfac (val pb (mu_unpacked2 g ! l)) (if mu_isSigned g then val pb (mu_partials1 g ! 0) else h)
     \<and> (\<forall>i < l. val pb (mu_partials2 g ! i) = (val pb (mu_partials2 g ! Suc i))\<^sup>2 * mfac (val pb (mu_unpacked2 g ! i)) h))"

lemma pv_mu_factor: "pv pb (mu_factor u h) = mfac (val pb u) (val pb h)"
  by (simp add: mu_factor_def mfac_def pv_simps add_ac)

lemma mu_factor_over [simp]: "u \<in> V \<Longrightarrow> h \<in> V \<Longrightarrow> cp_over V (mu_factor u h)"
  by (simp add: mu_factor_def)

lemma mu_factor_plain [simp]: "plain (mu_factor u h)"
  by (simp add: mu_factor_def)

lemma notin_imageI: "(\<And>i. i \<in> I \<Longrightarrow> x \<noteq> f i) \<Longrightarrow> x \<notin> f ` I"
  by blast

lemma eq_0_swap: "a + b = 0 \<longleftrightarrow> b = a" for a b :: FElem
  unfolding fe_add_eq_0 by (rule eq_commute)

lemma mu_constraints_iff: "(\<forall>(p, nm) \<in> set (Multiplication_constraints g). pv pb p = 0) \<longleftrightarrow> mu_eqs g pb"
proof -
  have "(\<forall>(p, nm) \<in> set (MultiplicationPacking_constraints (mu_multPack1 g)). pv pb p = 0) \<longleftrightarrow> mp_chain (mu_multPack1 g) pb"
    unfolding mp_constraints_iff by (simp add: mu_multPack1_def)
  moreover have "a * b + 1 = 0 \<longleftrightarrow> a * b = 1" for a b :: FElem by (simp add: fe_add_eq_0)
  ultimately show ?thesis
    by (simp add: Multiplication_constraints_def mu_eqs_def Let_def ball_Un pv_simps pv_mu_factor eq_0_swap power2_eq_square) auto
qed

lemma mu_wfD:
  assumes "mu_wf g"
  defines "l \<equiv> mu_idxLast g"
  shows "mp_wf (mu_multPack1 g)" "0 < l" "Suc l = length (mu_unpacked1 g)" "length (mu_unpacked2 g) = Suc l" "length (mu_partials1 g) = Suc l" "length (mu_partials2 g) = Suc l"
    "\<lbrakk>i \<le> l; j \<le> l\<rbrakk> \<Longrightarrow> var_index (mu_partials1 g ! i) \<noteq> var_index (mu_partials2 g ! j)"
    "\<lbrakk>i \<le> l; j \<le> l\<rbrakk> \<Longrightarrow> var_index (mu_partials1 g ! i) = var_index (mu_partials1 g ! j) \<longleftrightarrow> i = j"
    "\<lbrakk>i \<le> l; j \<le> l\<rbrakk> \<Longrightarrow> var_index (mu_partials2 g ! i) = var_index (mu_partials2 g ! j) \<longleftrightarrow> i = j"
    "\<lbrakk>u \<in> set (mu_unpacked1 g) \<union> set (mu_unpacked2 g); i \<le> l\<rbrakk> \<Longrightarrow> var_index u \<noteq> var_index (mu_partials1 g ! i) \<and> var_index u \<noteq> var_index (mu_partials2 g ! i)"
proof -
  have n: "2 \<le> length (mu_unpacked1 g)" "length (mu_unpacked2 g) = length (mu_unpacked1 g)" "length (mu_partials1 g) = length (mu_unpacked1 g)"
    "length (mu_partials2 g) = length (mu_unpacked1 g)" using assms(1) by (simp_all add: mu_wf_def Let_def)
  show l: "0 < l" "Suc l = length (mu_unpacked1 g)" "length (mu_unpacked2 g) = Suc l" "length (mu_partials1 g) = Suc l" "length (mu_partials2 g) = Suc l"
    using n by (auto simp: l_def mu_idxLast_def)
  have d: "distinct (map var_index (mu_partials1 g @ mu_partials2 g))" using assms(1) by (simp only: mu_wf_def Let_def)
  have nth: "var_index (mu_partials1 g ! i) = map var_index (mu_partials1 g @ mu_partials2 g) ! i" "var_index (mu_partials2 g ! i) = map var_index (mu_partials1 g @ mu_partials2 g) ! (Suc l + i)"
    if "i \<le> l" for i using that l by (simp_all add: nth_append)
  show p1: "var_index (mu_partials1 g ! i) = var_index (mu_partials1 g ! j) \<longleftrightarrow> i = j" if "i \<le> l" "j \<le> l" for i j
    unfolding nth(1) [OF that(1)] nth(1) [OF that(2)] using that l nth_eq_iff_index_eq [OF d] by simp
  show "var_index (mu_partials2 g ! i) = var_index (mu_partials2 g ! j) \<longleftrightarrow> i = j" if "i \<le> l" "j \<le> l" for i j
    unfolding nth(2) [OF that(1)] nth(2) [OF that(2)] using that l nth_eq_iff_index_eq [OF d, of "Suc l + i" "Suc l + j"] by simp
  show "var_index (mu_partials1 g ! i) \<noteq> var_index (mu_partials2 g ! j)" if "i \<le> l" "j \<le> l" for i j
    unfolding nth(1) [OF that(1)] nth(2) [OF that(2)] using that l nth_eq_iff_index_eq [OF d, of i "Suc l + j"] by simp
  show u: "var_index u \<noteq> var_index (mu_partials1 g ! i) \<and> var_index u \<noteq> var_index (mu_partials2 g ! i)"
    if "u \<in> set (mu_unpacked1 g) \<union> set (mu_unpacked2 g)" "i \<le> l" for u i
  proof -
    have "mu_partials1 g ! i \<in> set (mu_partials1 g @ mu_partials2 g)" "mu_partials2 g ! i \<in> set (mu_partials1 g @ mu_partials2 g)" using that(2) l by auto
    moreover have "var_index ` (set (mu_unpacked1 g) \<union> set (mu_unpacked2 g)) \<inter> var_index ` set (mu_partials1 g @ mu_partials2 g) = {}"
      using assms(1) by (simp only: mu_wf_def Let_def)
    ultimately show ?thesis using disjointD imageI that(1) by metis
  qed
  have t: "chain_targets (mu_partials1 g) l = (\<lambda>i. var_index (mu_partials1 g ! i)) ` {1..<l}" by (simp add: chain_targets_def)
  show "mp_wf (mu_multPack1 g)"
    unfolding mp_wf_def Let_def
  proof (intro conjI)
    let ?g = "mu_multPack1 g"
    have len: "mp_partials ?g = mu_partials1 g" "mp_unpacked ?g = mu_unpacked1 g" "mp_packed ?g = mu_partials1 g ! l" "length (mu_unpacked1 g) - 1 = l"
      using l by (simp_all add: mu_multPack1_def l_def [symmetric])
    show "2 \<le> length (mp_unpacked ?g)" "length (mp_partials ?g) = length (mp_unpacked ?g)" "distinct (map var_index (mp_unpacked ?g))"
      using n assms(1) by (simp_all add: mu_multPack1_def mu_wf_def Let_def)
    show "distinct (map (\<lambda>i. var_index (mp_partials ?g ! i)) [1..<length (mp_unpacked ?g) - 1])"
      unfolding len distinct_map using p1 by (simp add: inj_on_def)
    show "var_index ` set (mp_unpacked ?g) \<inter> chain_targets (mp_partials ?g) (length (mp_unpacked ?g) - 1) = {}"
    proof -
      have "var_index x \<notin> (\<lambda>i. var_index (mu_partials1 g ! i)) ` {1..<l}" if "x \<in> set (mu_unpacked1 g)" for x
        by (rule notin_imageI) (use u [of x] that in simp)
      then show ?thesis unfolding len t by blast
    qed
    show "var_index (mp_packed ?g) \<notin> var_index ` set (mp_unpacked ?g) \<union> chain_targets (mp_partials ?g) (length (mp_unpacked ?g) - 1)"
    proof -
      have "var_index (mu_partials1 g ! l) \<notin> (\<lambda>i. var_index (mu_partials1 g ! i)) ` {1..<l}" by (rule notin_imageI) (simp add: p1)
      moreover have "var_index (mu_partials1 g ! l) \<notin> var_index ` set (mu_unpacked1 g)" by (rule notin_imageI) (metis UnI1 order.refl u)
      ultimately show ?thesis unfolding len t by blast
    qed
  qed
qed

text \<open>Horner's scheme in the exponent.\<close>

lemma word_value_Cons: "bs \<noteq> [] \<Longrightarrow> word_value s (b # bs) = of_bool b + 2 * word_value s bs"
  by (cases bs) (auto simp: word_value_def)

lemma word_value_single: "word_value s [b] = (if s then - of_bool b else of_bool b)"
  by (simp add: word_value_def)

lemma mfac_powi: "boolean pb u \<Longrightarrow> mfac (val pb u) h = h powi of_bool (bit_of pb u)"
  by (cases "bit_of pb u") (simp_all add: val_boolean mfac_def)

lemma powi_horner: "h \<noteq> 0 \<Longrightarrow> (h powi e)\<^sup>2 * h powi b = h powi (b + 2 * e)" for h :: FElem
proof -
  assume h: "h \<noteq> 0"
  have "h powi (b + 2 * e) = h powi b * (h powi e * h powi e)" unfolding mult_2 using h by (simp only: power_int_add simp_thms disj_not1)
  then show ?thesis by (simp only: power2_eq_square mult.commute)
qed

lemma mu_horner:
  assumes "mu_eqs g pb" "mu_wf g" "\<forall>u \<in> set (mu_unpacked2 g). boolean pb u" "i \<le> mu_idxLast g" "val pb (mu_partials1 g ! mu_idxLast g) \<noteq> 0"
  shows "val pb (mu_partials2 g ! i) = val pb (mu_partials1 g ! mu_idxLast g) powi (word_value (mu_isSigned g) (map (bit_of pb) (drop i (mu_unpacked2 g))))"
  using assms(4)
proof (induction "mu_idxLast g - i" arbitrary: i)
  case 0
  let ?l = "mu_idxLast g" and ?h = "val pb (mu_partials1 g ! mu_idxLast g)"
  have i: "i = ?l" using 0 by simp
  have u: "boolean pb (mu_unpacked2 g ! ?l)" "drop ?l (mu_unpacked2 g) = [mu_unpacked2 g ! ?l]"
    using assms(3) mu_wfD(4) [OF assms(2)] Cons_nth_drop_Suc [of ?l "mu_unpacked2 g"] by simp_all
  have "mu_isSigned g \<Longrightarrow> val pb (mu_partials1 g ! 0) = inverse ?h"
  proof -
    assume "mu_isSigned g"
    then have "?h * val pb (mu_partials1 g ! 0) = 1" using assms(1) by (simp add: mu_eqs_def Let_def)
    from inverse_unique [OF this] show ?thesis by simp
  qed
  then have "val pb (mu_partials2 g ! ?l) = mfac (val pb (mu_unpacked2 g ! ?l)) (if mu_isSigned g then inverse ?h else ?h)"
    using assms(1) by (simp add: mu_eqs_def Let_def)
  then show ?case unfolding i u(2) by (cases "mu_isSigned g") (simp_all add: word_value_single mfac_powi [OF u(1)] power_int_minus)
next
  case (Suc k)
  let ?l = "mu_idxLast g" and ?h = "val pb (mu_partials1 g ! mu_idxLast g)"
  have i: "i < ?l" using Suc.hyps(2) by simp
  have u: "boolean pb (mu_unpacked2 g ! i)" "drop i (mu_unpacked2 g) = mu_unpacked2 g ! i # drop (Suc i) (mu_unpacked2 g)" "drop (Suc i) (mu_unpacked2 g) \<noteq> []"
    using assms(3) mu_wfD(4) [OF assms(2)] i Cons_nth_drop_Suc [of i "mu_unpacked2 g"] by simp_all
  let ?e = "word_value (mu_isSigned g) (map (bit_of pb) (drop (Suc i) (mu_unpacked2 g)))"
  have "val pb (mu_partials2 g ! Suc i) = ?h powi ?e" using Suc.hyps(1) [of "Suc i"] Suc.hyps(2) i by simp
  then have "val pb (mu_partials2 g ! i) = (?h powi ?e)\<^sup>2 * ?h powi of_bool (bit_of pb (mu_unpacked2 g ! i))"
    using assms(1) i mfac_powi [OF u(1)] by (simp add: mu_eqs_def Let_def)
  also have "\<dots> = ?h powi (of_bool (bit_of pb (mu_unpacked2 g ! i)) + 2 * ?e)"
    by (rule powi_horner [OF assms(5)])
  finally show ?case using u(2,3) by (simp add: word_value_Cons)
qed

lemma mu_product:
  assumes "mu_eqs g pb" "mu_wf g" "\<forall>u \<in> set (mu_unpacked1 g) \<union> set (mu_unpacked2 g). boolean pb u"
  shows "val pb (mu_partials2 g ! 0) = getGF2E_X powi
    (word_value (mu_isSigned g) (map (bit_of pb) (mu_unpacked1 g)) * word_value (mu_isSigned g) (map (bit_of pb) (mu_unpacked2 g)))"
proof -
  let ?h = "val pb (mu_partials1 g ! mu_idxLast g)"
  have "?h = getGF2E_X powi (word_value (mu_isSigned g) (map (bit_of pb) (mu_unpacked1 g)))"
    using mp_chain_power [of "mu_multPack1 g" pb] assms mp_wfD(2) [OF mu_wfD(1) [OF assms(2)]] by (simp add: mu_eqs_def Let_def mu_multPack1_def)
  moreover from this have "?h \<noteq> 0" using getGF2E_X_nonzero by simp
  ultimately show ?thesis using mu_horner [OF assms(1,2), of 0] assms(3) by (simp add: power_int_mult)
qed

text \<open>The witness code as a sequence of assignments.\<close>

definition mu_assigns :: "Multiplication_Gadget \<Rightarrow> FElem \<Rightarrow> nat \<Rightarrow> assign list" where
  "mu_assigns g h k = map (\<lambda>i. (mu_partials2 g ! i, \<lambda>pb. val pb (mu_partials2 g ! (i + 1)) * val pb (mu_partials2 g ! (i + 1)) * (if val pb (mu_unpacked2 g ! i) = 1 then h else 1))) (rev [0..<k])"

definition mu_all_assigns :: "Multiplication_Gadget \<Rightarrow> FElem \<Rightarrow> assign list" where
  "mu_all_assigns g h = (let l = mu_idxLast g; c = (if mu_isSigned g then inverse h else h) in
     (mu_partials1 g ! 0, \<lambda>_. if mu_isSigned g then c else 0) # (mu_partials2 g ! l, \<lambda>pb. if val pb (mu_unpacked2 g ! l) \<noteq> 1 then 1 else c) # mu_assigns g h l)"

lemma mu_witness_run: "Multiplication_witness g pb = (let w = mp_values (mu_multPack1 g) pb in run (mu_all_assigns g (val w (mu_partials1 g ! mu_idxLast g))) w)"
proof -
  have "fold (mu_step g h) is = run (map (\<lambda>i. (mu_partials2 g ! i, \<lambda>pb. val pb (mu_partials2 g ! (i + 1)) * val pb (mu_partials2 g ! (i + 1)) * (if val pb (mu_unpacked2 g ! i) = 1 then h else 1))) is)" for h "is"
    unfolding run_def fold_map by (rule arg_cong [where f = "\<lambda>f. fold f is"]) (auto simp: fun_eq_iff mu_step_def Let_def)
  then show ?thesis by (simp add: Multiplication_witness_def mu_all_assigns_def mu_assigns_def Let_def)
qed

lemma mu_assigns_targets: "targets (mu_assigns g h k) = (\<lambda>i. var_index (mu_partials2 g ! i)) ` {..<k}"
  by (simp add: mu_assigns_def atLeast0LessThan)

lemma mu_sequential: "mu_wf g \<Longrightarrow> k \<le> mu_idxLast g \<Longrightarrow> sequential (mu_assigns g h k)"
proof (induction k)
  case (Suc k)
  let ?W = "(\<lambda>i. var_index (mu_partials2 g ! i)) ` {..k}"
  note wf = mu_wfD [OF Suc.prems(1)]
  have p: "var_index (mu_partials2 g ! Suc k) \<notin> ?W" by (rule notin_imageI) (use wf(9) Suc.prems(2) in simp)
  have "mu_unpacked2 g ! k \<in> set (mu_unpacked2 g)" using wf(4) Suc.prems(2) by simp
  then have u: "var_index (mu_unpacked2 g ! k) \<notin> ?W" by (intro notin_imageI) (use wf(10) [of "mu_unpacked2 g ! k"] Suc.prems(2) in simp)
  have "ignores ?W (\<lambda>pb. val pb (mu_partials2 g ! Suc k) * val pb (mu_partials2 g ! Suc k) * (if val pb (mu_unpacked2 g ! k) = 1 then h else 1))"
    by (rule ignoresI) (simp add: p u)
  moreover have "?W = insert (var_index (mu_partials2 g ! k)) (targets (mu_assigns g h k))"
    by (simp add: mu_assigns_targets lessThan_Suc_atMost [symmetric] lessThan_Suc)
  moreover have "var_index (mu_partials2 g ! k) \<notin> targets (mu_assigns g h k)"
    unfolding mu_assigns_targets by (rule notin_imageI) (use wf(9) Suc.prems(2) in simp)
  ultimately show ?case using Suc by (simp add: mu_assigns_def)
qed (simp add: mu_assigns_def)

lemma mu_all_sequential: "mu_wf g \<Longrightarrow> sequential (mu_all_assigns g h)"
proof -
  assume a: "mu_wf g"
  let ?l = "mu_idxLast g"
  note wf = mu_wfD [OF a]
  have "mu_unpacked2 g ! ?l \<in> set (mu_unpacked2 g)" using wf(4) by simp
  then have ul: "var_index (mu_unpacked2 g ! ?l) \<noteq> var_index (mu_partials2 g ! i)" if "i \<le> ?l" for i using wf(10) [of "mu_unpacked2 g ! ?l"] that by simp
  have "var_index (mu_unpacked2 g ! ?l) \<notin> targets (mu_assigns g h ?l)" unfolding mu_assigns_targets by (rule notin_imageI) (simp add: ul)
  then have u: "var_index (mu_unpacked2 g ! ?l) \<notin> insert (var_index (mu_partials2 g ! ?l)) (targets (mu_assigns g h ?l))" using ul by simp
  have "ignores (insert (var_index (mu_partials2 g ! ?l)) (targets (mu_assigns g h ?l))) (\<lambda>pb. if val pb (mu_unpacked2 g ! ?l) \<noteq> 1 then 1 else c)" for c :: FElem
    by (rule ignoresI) (use u in simp)
  moreover have "var_index (mu_partials2 g ! ?l) \<notin> targets (mu_assigns g h ?l)" unfolding mu_assigns_targets by (rule notin_imageI) (use wf(9) in simp)
  moreover have "var_index (mu_partials1 g ! 0) \<notin> insert (var_index (mu_partials2 g ! ?l)) (targets (mu_assigns g h ?l))"
  proof -
    have "var_index (mu_partials1 g ! 0) \<notin> targets (mu_assigns g h ?l)" unfolding mu_assigns_targets by (rule notin_imageI) (use wf(7) in simp)
    then show ?thesis using wf(7) by simp
  qed
  ultimately show ?thesis using mu_sequential [OF a order.refl] by (simp add: mu_all_assigns_def Let_def ignores_def)
qed

lemma mu_all_targets: "mu_wf g \<Longrightarrow> targets (mu_all_assigns g h) = insert (var_index (mu_partials1 g ! 0)) (var_index ` set (mu_partials2 g))"
proof -
  assume a: "mu_wf g"
  have "var_index ` set (mu_partials2 g) = (\<lambda>i. var_index (mu_partials2 g ! i)) ` {..mu_idxLast g}"
    using mu_wfD(6) [OF a] by (simp add: set_conv_nth image_image lessThan_Suc_atMost [symmetric] setcompr_eq_image lessThan_def)
  then show ?thesis by (simp add: mu_all_assigns_def Let_def mu_assigns_targets lessThan_Suc_atMost [symmetric] lessThan_Suc)
qed

lemma writes_only_run: "(\<And>pb. targets (f pb) = W) \<Longrightarrow> writes_only W (\<lambda>pb. run (f pb) pb)"
  using writes_onlyD [OF run_writes] by (simp add: writes_only_def)

lemma mu_writes: "mu_wf g \<Longrightarrow> writes_only (mu_written g) (Multiplication_witness g)"
proof -
  assume a: "mu_wf g"
  let ?l = "mu_idxLast g"
  note wf = mu_wfD [OF a]
  have "writes_only (insert (var_index (mu_partials1 g ! 0)) (var_index ` set (mu_partials2 g))) (\<lambda>w. run (mu_all_assigns g (val w (mu_partials1 g ! ?l))) w)"
    by (rule writes_only_run) (rule mu_all_targets [OF a])
  from writes_only_comp [OF mp_values_writes [OF wf(1)] this]
  have "writes_only (chain_targets (mu_partials1 g) ?l \<union> {var_index (mu_partials1 g ! ?l)} \<union> insert (var_index (mu_partials1 g ! 0)) (var_index ` set (mu_partials2 g)))
      (Multiplication_witness g)"
    by (simp add: mu_witness_run [abs_def] Let_def mu_multPack1_def mu_idxLast_def)
  moreover have "var_index ` set (mu_partials1 g) = insert (var_index (mu_partials1 g ! 0)) (insert (var_index (mu_partials1 g ! ?l)) (chain_targets (mu_partials1 g) ?l))"
  proof -
    have "{..<Suc ?l} = insert 0 (insert ?l {1..<?l})" using wf(2) by auto
    moreover have "var_index ` set (mu_partials1 g) = (\<lambda>i. var_index (mu_partials1 g ! i)) ` {..<Suc ?l}"
      using wf(5) by (simp add: set_conv_nth image_image setcompr_eq_image lessThan_def)
    ultimately show ?thesis by (simp add: chain_targets_def del: lessThan_Suc)
  qed
  ultimately show ?thesis by (simp add: mu_written_def image_Un Un_ac insert_commute)
qed

lemma mu_witness_eqs:
  assumes "mu_wf g" "pb_inv pb" "\<forall>u \<in> set (mu_unpacked1 g) \<union> set (mu_unpacked2 g). boolean pb u"
  shows "mu_eqs g (Multiplication_witness g pb)"
proof -
  let ?l = "mu_idxLast g" and ?mp = "mu_multPack1 g"
  define w0 where "w0 = mp_values ?mp pb"
  define h where "h = val w0 (mu_partials1 g ! ?l)"
  define w where "w = run (mu_all_assigns g h) w0"
  note wf = mu_wfD [OF assms(1)]
  have ww: "Multiplication_witness g pb = w" by (simp add: mu_witness_run Let_def w0_def w_def h_def)
  have inv0: "pb_inv w0" unfolding w0_def by (rule writes_onlyD(1) [OF mp_values_writes [OF wf(1)] assms(2)])
  have same: "val w v = val w0 v" if "var_index v \<notin> insert (var_index (mu_partials1 g ! 0)) (var_index ` set (mu_partials2 g))" for v
    unfolding w_def by (rule writes_onlyD(4) [OF run_writes inv0]) (use that mu_all_targets [OF assms(1)] in simp)
  have P2: "x \<in> set (mu_partials2 g) \<Longrightarrow> \<exists>j \<le> ?l. x = mu_partials2 g ! j" for x using wf(6) by (auto simp: in_set_conv_nth less_Suc_eq_le)
  have P1: "val w (mu_partials1 g ! i) = val w0 (mu_partials1 g ! i)" if "0 < i" "i \<le> ?l" for i
  proof (rule same)
    have "var_index (mu_partials1 g ! i) \<notin> var_index ` set (mu_partials2 g)" by (rule notin_imageI) (use P2 wf(7) that in metis)
    then show "var_index (mu_partials1 g ! i) \<notin> insert (var_index (mu_partials1 g ! 0)) (var_index ` set (mu_partials2 g))" using wf(8) [of i 0] that by simp
  qed
  have U: "val w u = val w0 u" "val w u = val pb u" if u: "u \<in> set (mu_unpacked1 g) \<union> set (mu_unpacked2 g)" for u
  proof -
    have "var_index u \<notin> var_index ` set (mu_partials2 g)" by (rule notin_imageI) (use P2 wf(10) [OF u] in metis)
    then show 1: "val w u = val w0 u" using wf(10) [OF u, of 0] by (intro same) simp
    have "var_index u \<notin> chain_targets (mu_partials1 g) ?l" unfolding chain_targets_def by (rule notin_imageI) (use wf(10) [OF u] in simp)
    then have "var_index u \<notin> chain_targets (mp_partials ?mp) (length (mp_unpacked ?mp) - 1) \<union> (if mp_packingMode ?mp = PACK then {var_index (mp_packed ?mp)} else {})"
      using wf(10) [OF u, of ?l] by (simp add: mu_multPack1_def mu_idxLast_def)
    then have "val w0 u = val pb u" unfolding w0_def by (rule writes_onlyD(4) [OF mp_values_writes [OF wf(1)] assms(2)])
    then show "val w u = val pb u" using 1 by simp
  qed
  have hw: "val w (mu_partials1 g ! ?l) = h" using P1 wf(2) by (simp add: h_def)
  have mp: "mp_unpacked ?mp = mu_unpacked1 g" "mp_partials ?mp = mu_partials1 g" "mp_packed ?mp = mu_partials1 g ! ?l" "length (mu_unpacked1 g) - 1 = ?l"
    by (simp_all add: mu_multPack1_def mu_idxLast_def)
  have chain0: "mp_chain ?mp w0" unfolding w0_def by (rule mp_values_chain(2) [OF wf(1) assms(2)]) (simp add: mu_multPack1_def)
  note cs = chain_same [of "mu_unpacked1 g" w w0 ?l "mu_partials1 g"]
  have chain: "mp_chain ?mp w"
    using chain0 cs(1) cs(3) U(1) P1 wf(2,3) hw unfolding mp_chain_def mp h_def by auto
  have bool: "boolean w u" if "u \<in> set (mu_unpacked1 g) \<union> set (mu_unpacked2 g)" for u using assms(3) U(2) [OF that] that by (simp add: boolean_def)
  have "h = getGF2E_X powi (word_value (mu_isSigned g) (map (bit_of w) (mu_unpacked1 g)))"
    using mp_chain_power [OF chain] bool mp_wfD(2) [OF wf(1)] hw by (simp add: mp) (simp add: mu_multPack1_def)
  then have h0: "h \<noteq> 0" using getGF2E_X_nonzero by simp
  note vals = run_values [OF mu_all_sequential [OF assms(1), of h] inv0, folded w_def]
  have m: "mfac (val w u) c = (if val w u = 1 then c else 1)" if "u \<in> set (mu_unpacked1 g) \<union> set (mu_unpacked2 g)" for u c
    using bool [OF that] by (auto simp: boolean_def mfac_def)
  have v0: "val w (mu_partials1 g ! 0) = (if mu_isSigned g then inverse h else 0)" by (rule vals) (simp add: mu_all_assigns_def Let_def)
  have vl: "val w (mu_partials2 g ! ?l) = (if val w (mu_unpacked2 g ! ?l) \<noteq> 1 then 1 else if mu_isSigned g then inverse h else h)"
    by (rule vals) (simp add: mu_all_assigns_def Let_def)
  have vi: "val w (mu_partials2 g ! i) = val w (mu_partials2 g ! (i + 1)) * val w (mu_partials2 g ! (i + 1)) * (if val w (mu_unpacked2 g ! i) = 1 then h else 1)" if "i < ?l" for i
    by (rule vals) (use that in \<open>auto simp: mu_all_assigns_def Let_def mu_assigns_def\<close>)
  have u2: "mu_unpacked2 g ! i \<in> set (mu_unpacked1 g) \<union> set (mu_unpacked2 g)" if "i \<le> ?l" for i using that wf(4) by simp
  show ?thesis unfolding ww mu_eqs_def Let_def hw
    using chain h0 v0 vl m [OF u2] vi by (simp add: power2_eq_square)
qed

lemma mu_plain: "(p, nm) \<in> set (Multiplication_constraints g) \<Longrightarrow> plain p"
  using mp_plain [of p nm "mu_multPack1 g"] by (auto simp: Multiplication_constraints_def Let_def split: if_splits)

lemma mu_over:
  assumes "mu_wf g" "(p, nm) \<in> set (Multiplication_constraints g)"
  shows "cp_over {v. v \<in> set (mu_unpacked1 g) \<union> set (mu_unpacked2 g) \<or> var_index v \<in> mu_written g} p"
proof -
  let ?l = "mu_idxLast g"
  note wf = mu_wfD [OF assms(1)]
  define V where "V = {v. v \<in> set (mu_unpacked1 g) \<union> set (mu_unpacked2 g) \<or> var_index v \<in> mu_written g}"
  have u: "mu_unpacked2 g ! i \<in> V" and q: "mu_partials1 g ! i \<in> V" "mu_partials2 g ! i \<in> V" if "i \<le> ?l" for i
    using that wf(4-6) by (auto simp: V_def mu_written_def)
  have mp: "cp_over V p" if "(p, nm) \<in> set (MultiplicationPacking_constraints (mu_multPack1 g))"
  proof -
    have "{v. v \<in> set (mp_unpacked (mu_multPack1 g)) \<or> v = mp_packed (mu_multPack1 g) \<or> var_index v \<in> chain_targets (mp_partials (mu_multPack1 g)) (length (mp_unpacked (mu_multPack1 g)) - 1)} \<subseteq> V"
      using wf(5) q(1) [of ?l] by (auto simp: V_def mu_multPack1_def chain_targets_def mu_written_def mu_idxLast_def)
    then show ?thesis using mp_vars [OF wf(1) that] unfolding cp_over_def by blast
  qed
  have "cp_over V p" using assms(2) mp u q wf(2) by (auto simp: Multiplication_constraints_def Let_def Suc_le_eq split: if_splits)
  then show ?thesis unfolding V_def .
qed

lemma mu_complete:
  assumes "mu_wf g" "pb_inv pb" "mu_pre g pb" "(p, nm) \<in> set (Multiplication_constraints g)"
  shows "holds (Multiplication_witness g pb) p"
proof -
  let ?w = "Multiplication_witness g pb" and ?l = "mu_idxLast g"
  note wf = mu_wfD [OF assms(1)]
  have "pv ?w p = 0" using mu_constraints_iff [of g ?w] mu_witness_eqs [OF assms(1,2)] assms(3,4) by (auto simp: mu_pre_def)
  moreover have "assigned ?w v" if "v \<in> cp_vars p" for v
    using mu_over [OF assms(1,4)] that assms(3) writes_onlyD(3) [OF mu_writes [OF assms(1)] assms(2)] by (auto simp: cp_over_def mu_pre_def)
  ultimately show ?thesis by (simp add: holds_iff mu_plain [OF assms(4)])
qed

interpretation multiplication: gadget mu_opcode Multiplication_constraints Multiplication_witness mu_wf mu_pre mu_written
proof
  show "mu_pre g pb'" if "mu_pre g pb" "assignment pb' = assignment pb" "fresh pb' = fresh pb" for g pb pb'
    using that val_same [OF that(2,3)] assigned_same [OF that(2)] by (simp add: mu_pre_def boolean_def)
qed (rule mu_writes mu_complete; assumption)+

section \<open>Correctness\<close>

text \<open>The board is satisfied and its constraints do not mention the variables a gadget is going to write.\<close>

definition ready :: "Opcode \<Rightarrow> int set \<Rightarrow> Protoboard \<Rightarrow> bool" where
  "ready opcode W pb \<longleftrightarrow> pb_isSatisfied opcode pb = Inr True \<and>
     (\<forall>c \<in> set (pb_constraintSystem opcode pb). plain (constraint_poly c) \<and> var_index ` cp_vars (constraint_poly c) \<inter> W = {})"

lemma readyD: "ready opcode W pb \<Longrightarrow> pb_isSatisfied opcode pb = Inr True"
  "ready opcode W pb \<Longrightarrow> \<forall>c \<in> set (pb_constraintSystem opcode pb). plain (constraint_poly c) \<and> var_index ` cp_vars (constraint_poly c) \<inter> W = {}"
  by (simp_all add: ready_def)

lemma mp_witness_run:
  assumes "mp_wf g" "mp_pre (g, n) pb"
  shows "MultiplicationPacking_generateWitness g (int n) pb = Inr (mp_run (g, n) pb)"
  using assms mp_wfD(2) [OF assms(1)] floorlog_leI [of n 2 "length (mp_unpacked g)"]
  by (auto simp: MultiplicationPacking_generateWitness_def mp_run_def mp_bits_def mp_pre_def split: if_splits)

text \<open>Property C27. The packing gadgets in the exponent: on boolean words every assignment that satisfies the
  constraints of \<open>MultiplicationPacking_Gadget\<close> or \<open>DoubleMultPack_Gadget\<close> has as packed element the
  generator to the power of the word, unsigned or in two's complement; the witness code satisfies the
  constraints, in both packing modes; and words with fewer than two bits are accessed out of bounds.\<close>

theorem power_packing_correct:
  assumes "pb_inv pb"
  shows "(mp_wf g \<longrightarrow> (\<forall>u \<in> set (mp_unpacked g). boolean pb u) \<longrightarrow> (\<forall>(p, nm) \<in> set (MultiplicationPacking_constraints g). holds pb p) \<longrightarrow>
      val pb (mp_packed g) = getGF2E_X powi (word_value (mp_isSigned g) (map (bit_of pb) (mp_unpacked g))))
    \<and> (dm_wf d \<longrightarrow> (\<forall>u \<in> set (dm_bits d). boolean pb u) \<longrightarrow> (\<forall>(p, nm) \<in> set (DoubleMultPack_constraints d). holds pb p) \<longrightarrow>
      val pb (dm_packed d) = getGF2E_X powi (word_value (dm_isSigned d) (map (bit_of pb) (dm_unpacked1 d @ dm_unpacked2 d))))
    \<and> (mp_wf g \<longrightarrow> mp_pre (g, n) pb \<longrightarrow> ready (mp_opcode g) (mp_written (g, n)) pb \<longrightarrow>
      res_bind (res_bind (MultiplicationPacking_generateConstraints g pb) (MultiplicationPacking_generateWitness g (int n))) (pb_isSatisfied (mp_opcode g)) = Inr True)
    \<and> (dm_wf d \<longrightarrow> dm_pre d pb \<longrightarrow> ready (dm_opcode d) (dm_written d) pb \<longrightarrow>
      res_bind (res_bind (DoubleMultPack_generateConstraints d pb) (DoubleMultPack_generateWitness d)) (pb_isSatisfied (dm_opcode d)) = Inr True)
    \<and> (length (mp_unpacked g) < 2 \<longrightarrow> MultiplicationPacking_generateConstraints g pb = Inl OutOfBounds)"
proof (intro conjI impI)
  assume wf: "mp_wf g" and b: "\<forall>u \<in> set (mp_unpacked g). boolean pb u" and h: "\<forall>(p, nm) \<in> set (MultiplicationPacking_constraints g). holds pb p"
  have "\<forall>(p, nm) \<in> set (MultiplicationPacking_constraints g). pv pb p = 0" using h mp_plain holds_iff by blast
  then show "val pb (mp_packed g) = getGF2E_X powi (word_value (mp_isSigned g) (map (bit_of pb) (mp_unpacked g)))"
    using mp_chain_power [OF _ mp_wfD(2) [OF wf] b] mp_constraints_iff by blast
next
  assume wf: "dm_wf d" and b: "\<forall>u \<in> set (dm_bits d). boolean pb u" and h: "\<forall>(p, nm) \<in> set (DoubleMultPack_constraints d). holds pb p"
  have "\<forall>(p, nm) \<in> set (DoubleMultPack_constraints d). pv pb p = 0" using h dm_plain holds_iff by blast
  then show "val pb (dm_packed d) = getGF2E_X powi (word_value (dm_isSigned d) (map (bit_of pb) (dm_unpacked1 d @ dm_unpacked2 d)))"
    using dm_chain_power [OF wf _ b] dm_constraints_iff [OF wf] unfolding dm_bits_def by blast
next
  assume wf: "mp_wf g" and pre: "mp_pre (g, n) pb" and r: "ready (mp_opcode g) (mp_written (g, n)) pb"
  let ?b = "add_constraints (mp_opcode g) (MultiplicationPacking_constraints g) pb"
  have "mp_pre (g, n) ?b" by (rule multiplication_packing.pre_board [OF pre add_constraints_facts(2) [OF assms] add_constraints_fresh])
  then show "res_bind (res_bind (MultiplicationPacking_generateConstraints g pb) (MultiplicationPacking_generateWitness g (int n))) (pb_isSatisfied (mp_opcode g)) = Inr True"
    using multiplication_packing.gadget_satisfied [of "(g, n)" pb] wf assms pre readyD [OF r] mp_wfD(2) [OF wf]
    by (simp add: MultiplicationPacking_generateConstraints_def mp_witness_run [OF wf])
next
  assume wf: "dm_wf d" and pre: "dm_pre d pb" and r: "ready (dm_opcode d) (dm_written d) pb"
  show "res_bind (res_bind (DoubleMultPack_generateConstraints d pb) (DoubleMultPack_generateWitness d)) (pb_isSatisfied (dm_opcode d)) = Inr True"
    using double_mult_pack.gadget_satisfied [OF wf assms pre readyD(1) [OF r] readyD(2) [OF r]] dm_lengths(4) [OF wf]
    by (simp add: DoubleMultPack_generateConstraints_def DoubleMultPack_generateWitness_def)
qed (simp add: MultiplicationPacking_generateConstraints_def)

text \<open>Unpacking the fifth power of the generator into three bits.\<close>

definition three_bit_pack :: MultiplicationPacking_Gadget where
  "three_bit_pack = (let v = \<lambda>i. \<lparr>var_index = i, var_newIndex = -1, var_name = ''v''\<rparr> in
     \<lparr>mp_packingMode = UNPACK, mp_unpacked = [v 0, v 1, v 2], mp_partials = [v 3, v 4, v 5], mp_packed = v 6, mp_isSigned = False, mp_opcode = Op_MEMORY\<rparr>)"

theorem power_packing_correct_witness:
  "res_bind (res_bind (MultiplicationPacking_generateConstraints three_bit_pack (set_val (mp_packed three_bit_pack) (getGF2E_X ^ 5) (Protoboard_create 0)))
     (MultiplicationPacking_generateWitness three_bit_pack 5)) (pb_isSatisfied Op_MEMORY) = Inr True"
proof -
  let ?pb = "set_val (mp_packed three_bit_pack) (getGF2E_X ^ 5) (Protoboard_create 0)"
  have inv: "pb_inv ?pb" by simp
  have "res_bind (res_bind (MultiplicationPacking_generateConstraints three_bit_pack ?pb) (MultiplicationPacking_generateWitness three_bit_pack (int 5)))
      (pb_isSatisfied (mp_opcode three_bit_pack)) = Inr True"
    by (rule power_packing_correct [OF inv, THEN conjunct2, THEN conjunct2, THEN conjunct1, rule_format (no_asm)])
      (simp_all add: three_bit_pack_def Let_def mp_wf_def mp_pre_def chain_targets_def ready_def pb_isSatisfied_iff atLeastLessThanSuc eval_nat_numeral)
  then show ?thesis by (simp add: three_bit_pack_def Let_def)
qed

text \<open>Property C28. \<open>Multiplication_Gadget\<close> multiplies in the exponent: with boolean words every assignment that
  satisfies its constraints has in \<open>partials2[0]\<close> the generator to the power of the product of the two
  words, unsigned or in two's complement; the witness code satisfies the constraints; and words with fewer than
  two bits are accessed out of bounds.\<close>

theorem multiplication_gadget_correct:
  assumes "pb_inv pb"
  shows "(mu_wf g \<longrightarrow> (\<forall>u \<in> set (mu_unpacked1 g) \<union> set (mu_unpacked2 g). boolean pb u) \<longrightarrow> (\<forall>(p, nm) \<in> set (Multiplication_constraints g). holds pb p) \<longrightarrow>
      val pb (mu_partials2 g ! 0) = getGF2E_X powi
        (word_value (mu_isSigned g) (map (bit_of pb) (mu_unpacked1 g)) * word_value (mu_isSigned g) (map (bit_of pb) (mu_unpacked2 g))))
    \<and> (mu_wf g \<longrightarrow> mu_pre g pb \<longrightarrow> ready (mu_opcode g) (mu_written g) pb \<longrightarrow>
      res_bind (res_bind (Multiplication_generateConstraints g pb) (Multiplication_generateWitness g)) (pb_isSatisfied (mu_opcode g)) = Inr True)
    \<and> (length (mu_unpacked1 g) < 2 \<longrightarrow> Multiplication_generateConstraints g pb = Inl OutOfBounds \<and> Multiplication_generateWitness g pb = Inl OutOfBounds)"
proof (intro conjI impI)
  assume wf: "mu_wf g" and b: "\<forall>u \<in> set (mu_unpacked1 g) \<union> set (mu_unpacked2 g). boolean pb u" and h: "\<forall>(p, nm) \<in> set (Multiplication_constraints g). holds pb p"
  have "\<forall>(p, nm) \<in> set (Multiplication_constraints g). pv pb p = 0" using h mu_plain holds_iff by blast
  then show "val pb (mu_partials2 g ! 0) = getGF2E_X powi
      (word_value (mu_isSigned g) (map (bit_of pb) (mu_unpacked1 g)) * word_value (mu_isSigned g) (map (bit_of pb) (mu_unpacked2 g)))"
    using mu_product [OF _ wf b] mu_constraints_iff by blast
next
  assume wf: "mu_wf g" and pre: "mu_pre g pb" and r: "ready (mu_opcode g) (mu_written g) pb"
  have "\<not> length (mu_unpacked1 g) < 2" using wf by (simp add: mu_wf_def Let_def)
  then show "res_bind (res_bind (Multiplication_generateConstraints g pb) (Multiplication_generateWitness g)) (pb_isSatisfied (mu_opcode g)) = Inr True"
    using multiplication.gadget_satisfied [OF wf assms pre readyD(1) [OF r] readyD(2) [OF r]]
    by (simp add: Multiplication_generateConstraints_def Multiplication_generateWitness_def)
qed (simp_all add: Multiplication_generateConstraints_def Multiplication_generateWitness_def)

text \<open>Signed, two bits: -1 times 1.\<close>

definition two_bit_mult :: Multiplication_Gadget where
  "two_bit_mult = (let v = \<lambda>i. \<lparr>var_index = i, var_newIndex = -1, var_name = ''v''\<rparr> in
     \<lparr>mu_unpacked1 = [v 0, v 1], mu_unpacked2 = [v 2, v 3], mu_partials1 = [v 4, v 5], mu_partials2 = [v 6, v 7], mu_isSigned = True, mu_opcode = Op_SMULH\<rparr>)"

definition two_bit_words :: Protoboard where
  "two_bit_words = (let v = \<lambda>i. \<lparr>var_index = i, var_newIndex = -1, var_name = ''v''\<rparr> in
     set_val (v 3) 0 (set_val (v 2) 1 (set_val (v 1) 1 (set_val (v 0) 1 (Protoboard_create 0)))))"

theorem multiplication_gadget_correct_witness:
  "res_bind (res_bind (Multiplication_generateConstraints two_bit_mult two_bit_words) (Multiplication_generateWitness two_bit_mult)) (pb_isSatisfied Op_SMULH) = Inr True"
proof -
  have inv: "pb_inv two_bit_words" by (simp add: two_bit_words_def Let_def)
  have "res_bind (res_bind (Multiplication_generateConstraints two_bit_mult two_bit_words) (Multiplication_generateWitness two_bit_mult))
      (pb_isSatisfied (mu_opcode two_bit_mult)) = Inr True"
    by (rule multiplication_gadget_correct [OF inv, THEN conjunct2, THEN conjunct1, rule_format (no_asm)])
      (simp_all add: two_bit_mult_def two_bit_words_def Let_def mu_wf_def mu_pre_def boolean_def ready_def pb_isSatisfied_iff)
  then show ?thesis by (simp add: two_bit_mult_def Let_def)
qed

end
