(* ===== verification/AluBase.thy ===== *)
theory AluBase
  imports AdditionGadget GreaterEqualGadget MultiplicationGadgets
begin

text \<open>
  What the gadgets of \<open>ALU.cpp\<close> share: the variables of \<open>generalPurpose.hpp\<close> that carry the
  inputs and outputs of the arithmetic unit, the file-scope variables all opcodes use as
  scratch space, the two initialisation functions, and the constraints for the result flag.
  A component gadget adds its constraints to the systems of one or more opcodes, so a
  constraint is tagged with the opcode it is added for.
\<close>

section \<open>Inputs, outputs and scratch variables\<close>

definition REGISTER_LENGTH :: nat where "REGISTER_LENGTH = 16"

record ALUInput =
  arg1_val :: Variable
  arg2_val :: Variable
  dest_val :: Variable
  in_flag :: Variable
  in_pc :: "Variable list"

record ALUOutput =
  out_flag :: Variable
  out_result :: Variable
  out_isMemOp :: Variable
  out_address :: Variable
  out_isLoadOp :: Variable
  out_value :: Variable

text \<open>\<open>opcodeAux1_\<close> and \<open>opcodeAux2_\<close> are references to \<open>opcodeResult_\<close> and \<open>opcodeCarry_\<close>.\<close>

record ALUVariables =
  pInverse :: Variable
  unpackedArg1 :: "Variable list"
  unpackedArg2 :: "Variable list"
  opcodeResult :: "Variable list"
  opcodeCarry :: "Variable list"
  opcodeAux3 :: "Variable list"
  opcodeAux4 :: "Variable list"
  opcodeAux5 :: "Variable list"
  opcodeAux6 :: "Variable list"
  opcodeAux7 :: "Variable list"

abbreviation opcodeAux1 :: "ALUVariables \<Rightarrow> Variable list" where "opcodeAux1 \<equiv> opcodeResult"
abbreviation opcodeAux2 :: "ALUVariables \<Rightarrow> Variable list" where "opcodeAux2 \<equiv> opcodeCarry"

record ALU_Component_Gadget =
  inputs :: ALUInput
  results :: ALUOutput
  vars :: ALUVariables
  registerLength :: nat
  standAlone :: bool

definition word_arrays :: "ALUVariables \<Rightarrow> Variable list list" where
  "word_arrays vs = [unpackedArg1 vs, unpackedArg2 vs, opcodeResult vs, opcodeCarry vs, opcodeAux3 vs, opcodeAux4 vs, opcodeAux5 vs, opcodeAux6 vs, opcodeAux7 vs]"

definition zero_all :: "Variable list \<Rightarrow> Protoboard \<Rightarrow> Protoboard" where
  "zero_all vs pb = fold (\<lambda>v. set_val v 0) vs pb"

definition initMemResult :: "ALUOutput \<Rightarrow> Protoboard \<Rightarrow> Protoboard" where
  "initMemResult res pb = zero_all [out_isMemOp res, out_isLoadOp res, out_value res, out_address res] pb"

definition initGeneralOpcodes :: "ALUVariables \<Rightarrow> Protoboard \<Rightarrow> Protoboard" where
  "initGeneralOpcodes vs pb = zero_all (pInverse vs # concat (map (\<lambda>i. map (\<lambda>a. a ! i) (word_arrays vs)) [0..<REGISTER_LENGTH])) pb"

text \<open>The first two statements of every witness function.\<close>

definition alu_init :: "ALU_Component_Gadget \<Rightarrow> Protoboard \<Rightarrow> Protoboard" where
  "alu_init g pb = initMemResult (results g) (initGeneralOpcodes (vars g) pb)"

section \<open>Tagged constraints\<close>

type_synonym tagged = "Opcode \<times> CircuitPolynomial \<times> string"

definition add_tagged :: "tagged list \<Rightarrow> Protoboard \<Rightarrow> Protoboard" where
  "add_tagged cs pb = fold (\<lambda>(op, p, nm). addGeneralConstraint p nm op) cs pb"

definition tag :: "Opcode \<Rightarrow> (CircuitPolynomial \<times> string) list \<Rightarrow> tagged list" where
  "tag op cs = map (Pair op) cs"

definition own :: "Opcode \<Rightarrow> tagged list \<Rightarrow> (CircuitPolynomial \<times> string) list" where
  "own op cs = map snd (filter (\<lambda>c. fst c = op) cs)"

lemma own_simps [simp]: "own op [] = []" "own op ((op', c) # cs) = (if op' = op then c # own op cs else own op cs)"
  "own op (cs @ ds) = own op cs @ own op ds" "own op (tag op' es) = (if op' = op then es else [])"
  by (auto simp: own_def tag_def filter_map o_def)

lemma add_tagged_append: "add_tagged (cs @ ds) pb = add_tagged ds (add_tagged cs pb)"
  by (simp add: add_tagged_def)

lemma add_tagged_tag: "add_tagged (tag op cs) pb = add_constraints op cs pb"
  unfolding add_tagged_def tag_def add_constraints_def fold_map by (rule fold_cong) auto

lemma add_tagged_facts:
  assumes "pb_inv pb"
  shows "pb_inv (add_tagged cs pb)" "assignment (add_tagged cs pb) = assignment pb" "fresh (add_tagged cs pb) = fresh pb"
    "pb_constraintSystem op (add_tagged cs pb) = pb_constraintSystem op pb @ map (\<lambda>(p, nm). \<lparr>constraint_poly = p, constraint_name = nm\<rparr>) (own op cs)"
proof -
  have "pb_inv (add_tagged cs pb) \<and> assignment (add_tagged cs pb) = assignment pb \<and> fresh (add_tagged cs pb) = fresh pb \<and>
    pb_constraintSystem op (add_tagged cs pb) = pb_constraintSystem op pb @ map (\<lambda>(p, nm). \<lparr>constraint_poly = p, constraint_name = nm\<rparr>) (own op cs)"
    using assms
  proof (induction cs arbitrary: pb)
    case (Cons c cs)
    obtain op' p nm where c: "c = (op', p, nm)" by (metis prod_cases3)
    have inv: "pb_inv (addGeneralConstraint p nm op' pb)" using Cons.prems by simp
    have "add_tagged (c # cs) pb = add_tagged cs (addGeneralConstraint p nm op' pb)" by (simp add: add_tagged_def c)
    with Cons.IH [OF inv] show ?case by (auto simp: c addGeneralConstraint_system [OF Cons.prems] addConstraint_def)
  qed (simp add: add_tagged_def)
  then show "pb_inv (add_tagged cs pb)" "assignment (add_tagged cs pb) = assignment pb" "fresh (add_tagged cs pb) = fresh pb"
    "pb_constraintSystem op (add_tagged cs pb) = pb_constraintSystem op pb @ map (\<lambda>(p, nm). \<lparr>constraint_poly = p, constraint_name = nm\<rparr>) (own op cs)"
    by blast+
qed

section \<open>Pieces of the component gadgets\<close>

text \<open>A loop over \<open>registerLength\<close> bits stays inside the arrays.\<close>

definition guarded :: "ALU_Component_Gadget \<Rightarrow> 'a \<Rightarrow> 'a result" where
  "guarded g x = (if registerLength g \<le> REGISTER_LENGTH then Inr x else Inl OutOfBounds)"

definition unpacker :: "Opcode \<Rightarrow> Variable list \<Rightarrow> Variable \<Rightarrow> CompressionPacking_Gadget" where
  "unpacker op vs v = \<lparr>cpk_packingMode = UNPACK, cpk_unpacked = vs, cpk_packed = v, cpk_opcode = op\<rparr>"

definition packer :: "Opcode \<Rightarrow> Variable list \<Rightarrow> Variable \<Rightarrow> CompressionPacking_Gadget" where
  "packer op vs v = \<lparr>cpk_packingMode = PACK, cpk_unpacked = vs, cpk_packed = v, cpk_opcode = op\<rparr>"

definition unpackArg1_g :: "Opcode \<Rightarrow> ALU_Component_Gadget \<Rightarrow> CompressionPacking_Gadget" where
  "unpackArg1_g op g = unpacker op (unpackedArg1 (vars g)) (arg1_val (inputs g))"

definition unpackArg2_g :: "Opcode \<Rightarrow> ALU_Component_Gadget \<Rightarrow> CompressionPacking_Gadget" where
  "unpackArg2_g op g = unpacker op (unpackedArg2 (vars g)) (arg2_val (inputs g))"

definition standAlone_constraints :: "Opcode \<Rightarrow> ALU_Component_Gadget \<Rightarrow> tagged list" where
  "standAlone_constraints op g = (if standAlone g then tag op (CompressionPacking_constraints (unpackArg1_g op g))
     @ tag op (CompressionPacking_constraints (unpackArg2_g op g)) else [])"

text \<open>The first four statements of the witness functions that unpack both arguments.\<close>

definition unpack_args :: "Opcode \<Rightarrow> ALU_Component_Gadget \<Rightarrow> Protoboard \<Rightarrow> Protoboard" where
  "unpack_args op g pb = CompressionPacking_generateWitness (unpackArg2_g op g) (CompressionPacking_generateWitness (unpackArg1_g op g) (alu_init g pb))"

definition isMemOp_zero :: "Opcode \<Rightarrow> ALU_Component_Gadget \<Rightarrow> tagged" where
  "isMemOp_zero op g = (op, cp_var (out_isMemOp (results g)), ''isMemOp = 0'')"

text \<open>The product of two variables: built with the operator, or with the initializer list of the constructor.\<close>

definition var_times :: "Variable \<Rightarrow> Variable \<Rightarrow> CircuitPolynomial" where
  "var_times a b = cp_times (cp_var a) (cp_var b)"

definition var_prod :: "Variable \<Rightarrow> Variable \<Rightarrow> CircuitPolynomial" where
  "var_prod a b = PolyPROD [lc_var a, lc_var b]"

definition zero_flag_constraints :: "(Variable \<Rightarrow> Variable \<Rightarrow> CircuitPolynomial) \<Rightarrow> Opcode \<Rightarrow> ALU_Component_Gadget \<Rightarrow> tagged list" where
  "zero_flag_constraints mul op g = (let r = out_result (results g); f = out_flag (results g) in
     [(op, mul r f, ''flag * result= 0''),
      (op, cp_plus (mul r (pInverse (vars g))) (cp_lc (lc_plus (lc_var f) (lc_const 1))), ''result * invResult = 1 - flag'')])"

definition set_result :: "ALU_Component_Gadget \<Rightarrow> FElem \<Rightarrow> Protoboard \<Rightarrow> Protoboard" where
  "set_result g res pb = (let
     pb = set_val (out_result (results g)) res pb;
     pb = set_val (out_flag (results g)) (if res = 0 then 1 else 0) pb
     in set_val (pInverse (vars g)) (if res \<noteq> 0 then inverse res else 1) pb)"

text \<open>The loops \<open>polynomial = polynomial + F * x_i\<close> and \<open>res += f * x_i\<close>.\<close>

definition weighted_poly :: "('a \<Rightarrow> CircuitPolynomial) \<Rightarrow> 'a list \<Rightarrow> CircuitPolynomial" where
  "weighted_poly F es = fst (fold (\<lambda>e (polynomial, x_i). (cp_plus polynomial (cp_times (F e) (cp_const x_i)), x_i * getGF2E_X)) es (cp_const 0, 1))"

definition weighted_value :: "('a \<Rightarrow> FElem) \<Rightarrow> 'a list \<Rightarrow> FElem" where
  "weighted_value f es = fst (fold (\<lambda>e (res, x_i). (res + f e * x_i, x_i * getGF2E_X)) es (0, 1))"

lemma weighted_value_eq: "weighted_value f es = pack_sum 1 (map f es)"
proof -
  have "fst (fold (\<lambda>e (res, x_i). (res + f e * x_i, x_i * getGF2E_X)) es (r, x)) = r + pack_sum x (map f es)" for r x
    by (induction es arbitrary: r x) (simp_all add: add.assoc mult.commute)
  then show ?thesis by (simp add: weighted_value_def)
qed

lemma weighted_poly_facts:
  "pv pb (weighted_poly F es) = pack_sum 1 (map (\<lambda>e. pv pb (F e)) es)"
  "(\<And>e. e \<in> set es \<Longrightarrow> plain (F e)) \<Longrightarrow> plain (weighted_poly F es)"
  "(\<And>e. e \<in> set es \<Longrightarrow> cp_over V (F e)) \<Longrightarrow> cp_over V (weighted_poly F es)"
proof -
  let ?f = "\<lambda>e (polynomial, x_i). (cp_plus polynomial (cp_times (F e) (cp_const x_i)), x_i * getGF2E_X)"
  have "pv pb (fst (fold ?f es (p, x))) = pv pb p + pack_sum x (map (\<lambda>e. pv pb (F e)) es)" for p x
    by (induction es arbitrary: p x) (simp_all add: add.assoc mult.commute pv_simps)
  then show "pv pb (weighted_poly F es) = pack_sum 1 (map (\<lambda>e. pv pb (F e)) es)" by (simp add: weighted_poly_def pv_simps)
  have "plain p \<Longrightarrow> (\<And>e. e \<in> set es \<Longrightarrow> plain (F e)) \<Longrightarrow> plain (fst (fold ?f es (p, x)))" for p x
    by (induction es arbitrary: p x) auto
  then show "(\<And>e. e \<in> set es \<Longrightarrow> plain (F e)) \<Longrightarrow> plain (weighted_poly F es)" by (simp add: weighted_poly_def)
  have "cp_over V p \<Longrightarrow> (\<And>e. e \<in> set es \<Longrightarrow> cp_over V (F e)) \<Longrightarrow> cp_over V (fst (fold ?f es (p, x)))" for p x
    by (induction es arbitrary: p x) auto
  then show "(\<And>e. e \<in> set es \<Longrightarrow> cp_over V (F e)) \<Longrightarrow> cp_over V (weighted_poly F es)" by (simp add: weighted_poly_def)
qed

text \<open>What the two flag constraints say.\<close>

lemma zero_flag:
  fixes r f i :: FElem
  assumes "r * f = 0" "r * i + (f + 1) = 0"
  shows "f = (if r = 0 then 1 else 0)"
proof (cases "r = 0")
  case True
  then show ?thesis using assms(2) by (simp add: fe_add_eq_0)
qed (use assms(1) in simp)

section \<open>Well-formed components\<close>

definition output_vars :: "ALUOutput \<Rightarrow> Variable list" where
  "output_vars r = [out_flag r, out_result r, out_isMemOp r, out_address r, out_isLoadOp r, out_value r]"

definition input_vars :: "ALUInput \<Rightarrow> Variable list" where
  "input_vars i = [arg1_val i, arg2_val i, dest_val i, in_flag i]"

definition scratch_vars :: "ALUVariables \<Rightarrow> Variable list" where
  "scratch_vars vs = pInverse vs # concat (word_arrays vs)"

definition alu_vars :: "ALU_Component_Gadget \<Rightarrow> Variable list" where
  "alu_vars g = input_vars (inputs g) @ output_vars (results g) @ scratch_vars (vars g)"

definition alu_wf :: "ALU_Component_Gadget \<Rightarrow> bool" where
  "alu_wf g \<longleftrightarrow> registerLength g = REGISTER_LENGTH \<and> (\<forall>a \<in> set (word_arrays (vars g)). length a = REGISTER_LENGTH)
     \<and> distinct (map var_index (alu_vars g))"

definition alu_written :: "ALU_Component_Gadget \<Rightarrow> int set" where
  "alu_written g = var_index ` set (output_vars (results g) @ scratch_vars (vars g))"

definition alu_pre :: "ALU_Component_Gadget \<Rightarrow> Protoboard \<Rightarrow> bool" where
  "alu_pre g pb \<longleftrightarrow> (\<forall>v \<in> set (input_vars (inputs g)). assigned pb v)"

definition mem_out :: "ALUOutput \<Rightarrow> Variable list" where
  "mem_out r = [out_isMemOp r, out_isLoadOp r, out_value r, out_address r]"

lemma alu_lengths:
  assumes "alu_wf g"
  shows "length (unpackedArg1 (vars g)) = 16" "length (unpackedArg2 (vars g)) = 16" "length (opcodeResult (vars g)) = 16" "length (opcodeCarry (vars g)) = 16"
    "length (opcodeAux3 (vars g)) = 16" "length (opcodeAux4 (vars g)) = 16" "length (opcodeAux5 (vars g)) = 16" "length (opcodeAux6 (vars g)) = 16" "length (opcodeAux7 (vars g)) = 16"
    "registerLength g = 16"
  using assms by (simp_all add: alu_wf_def word_arrays_def REGISTER_LENGTH_def)

lemma alu_pre_board: "alu_pre g pb \<Longrightarrow> assignment pb' = assignment pb \<Longrightarrow> alu_pre g pb'"
  unfolding alu_pre_def assigned_def by simp

lemma zero_all_facts:
  assumes "pb_inv pb"
  shows "pb_inv (zero_all vs pb)" "pb_constraintSystem op (zero_all vs pb) = pb_constraintSystem op pb"
    "assigned (zero_all vs pb) u \<longleftrightarrow> var_index u \<in> var_index ` set vs \<or> assigned pb u"
    "val (zero_all vs pb) u = (if var_index u \<in> var_index ` set vs then 0 else val pb u)"
proof -
  have "pb_inv (zero_all vs pb) \<and> pb_constraintSystem op (zero_all vs pb) = pb_constraintSystem op pb
    \<and> (assigned (zero_all vs pb) u \<longleftrightarrow> var_index u \<in> var_index ` set vs \<or> assigned pb u)
    \<and> val (zero_all vs pb) u = (if var_index u \<in> var_index ` set vs then 0 else val pb u)"
    using assms
  proof (induction vs arbitrary: pb)
    case (Cons v vs)
    have e: "zero_all (v # vs) pb = zero_all vs (set_val v 0 pb)" by (simp add: zero_all_def)
    show ?case using Cons.IH [of "set_val v 0 pb"] Cons.prems unfolding e by simp
  qed (simp add: zero_all_def)
  then show "pb_inv (zero_all vs pb)" "pb_constraintSystem op (zero_all vs pb) = pb_constraintSystem op pb"
    "assigned (zero_all vs pb) u \<longleftrightarrow> var_index u \<in> var_index ` set vs \<or> assigned pb u"
    "val (zero_all vs pb) u = (if var_index u \<in> var_index ` set vs then 0 else val pb u)" by blast+
qed

lemma init_vars:
  assumes "alu_wf g"
  shows "set (pInverse (vars g) # concat (map (\<lambda>i. map (\<lambda>a. a ! i) (word_arrays (vars g))) [0..<REGISTER_LENGTH])) = set (scratch_vars (vars g))"
proof -
  have "set (concat (map (\<lambda>i. map (\<lambda>a. a ! i) (word_arrays (vars g))) [0..<REGISTER_LENGTH])) = (\<Union>a \<in> set (word_arrays (vars g)). (!) a ` {0..<REGISTER_LENGTH})" by auto
  also have "\<dots> = (\<Union>a \<in> set (word_arrays (vars g)). set a)"
    using assms by (intro SUP_cong) (auto simp: alu_wf_def set_conv_nth image_def)
  finally show ?thesis by (simp add: scratch_vars_def)
qed

lemma alu_init_facts:
  assumes "alu_wf g" "pb_inv pb"
  defines "W \<equiv> var_index ` set (mem_out (results g) @ scratch_vars (vars g))"
  shows "pb_inv (alu_init g pb)" "pb_constraintSystem op (alu_init g pb) = pb_constraintSystem op pb"
    "assigned (alu_init g pb) u \<longleftrightarrow> var_index u \<in> W \<or> assigned pb u" "val (alu_init g pb) u = (if var_index u \<in> W then 0 else val pb u)"
proof -
  let ?vs = "pInverse (vars g) # concat (map (\<lambda>i. map (\<lambda>a. a ! i) (word_arrays (vars g))) [0..<REGISTER_LENGTH])"
  have e: "alu_init g pb = zero_all (mem_out (results g)) (zero_all ?vs pb)" by (simp add: alu_init_def initMemResult_def initGeneralOpcodes_def mem_out_def)
  note z = zero_all_facts [OF assms(2), where vs = ?vs]
  note y = zero_all_facts [OF z(1), where vs = "mem_out (results g)"]
  have W: "var_index u \<in> W \<longleftrightarrow> var_index u \<in> var_index ` set (mem_out (results g)) \<or> var_index u \<in> var_index ` set ?vs"
    unfolding W_def set_append image_Un init_vars [OF assms(1)] by blast
  show "pb_inv (alu_init g pb)" "pb_constraintSystem op (alu_init g pb) = pb_constraintSystem op pb" unfolding e using y(1,2) z(2) by simp_all
  show "assigned (alu_init g pb) u \<longleftrightarrow> var_index u \<in> W \<or> assigned pb u" "val (alu_init g pb) u = (if var_index u \<in> W then 0 else val pb u)"
    unfolding e y(3,4) z(3,4) W by auto
qed

lemma alu_init_writes: "alu_wf g \<Longrightarrow> writes_only (var_index ` set (mem_out (results g) @ scratch_vars (vars g))) (alu_init g)"
  unfolding writes_only_def using alu_init_facts by simp

section \<open>The variables by position\<close>

text \<open>\<open>ix g k\<close> is the index of the \<open>k\<close>-th variable of a component. Positions turn every question
  about distinct variables into one about natural numbers.\<close>

definition ix :: "ALU_Component_Gadget \<Rightarrow> nat \<Rightarrow> int" where
  "ix g k = var_index (alu_vars g ! k)"

text \<open>An array of the component that starts at position \<open>b\<close>.\<close>

definition arr :: "ALU_Component_Gadget \<Rightarrow> nat \<Rightarrow> Variable list \<Rightarrow> bool" where
  "arr g b vs \<longleftrightarrow> length vs = 16 \<and> (\<forall>i < 16. var_index (vs ! i) = ix g (b + i))"

lemma alu_vars_length: "alu_wf g \<Longrightarrow> length (alu_vars g) = 155"
  by (simp add: alu_vars_def input_vars_def output_vars_def scratch_vars_def word_arrays_def alu_lengths)

lemma ix_eq [simp]: "alu_wf g \<Longrightarrow> k < 155 \<Longrightarrow> l < 155 \<Longrightarrow> ix g k = ix g l \<longleftrightarrow> k = l"
  using alu_vars_length [of g] nth_eq_iff_index_eq [of "map var_index (alu_vars g)" k l]
  by (simp add: ix_def alu_wf_def)

lemma positions_less [simp]: "c \<le> 155 \<Longrightarrow> {b..<c} \<subseteq> {..<155 :: nat}"
  by auto

lemma ix_image [simp]:
  assumes "alu_wf g" "k < 155" "K \<subseteq> {..<155}"
  shows "ix g k \<in> ix g ` K \<longleftrightarrow> k \<in> K"
proof
  assume "ix g k \<in> ix g ` K"
  then obtain l where "l \<in> K" "ix g k = ix g l" by blast
  then show "k \<in> K" using assms by auto
qed blast

lemma alu_positions:
  assumes "alu_wf g"
  shows "var_index (arg1_val (inputs g)) = ix g 0" "var_index (arg2_val (inputs g)) = ix g 1" "var_index (dest_val (inputs g)) = ix g 2"
    "var_index (in_flag (inputs g)) = ix g 3" "var_index (out_flag (results g)) = ix g 4" "var_index (out_result (results g)) = ix g 5"
    "var_index (out_isMemOp (results g)) = ix g 6" "var_index (out_address (results g)) = ix g 7" "var_index (out_isLoadOp (results g)) = ix g 8"
    "var_index (out_value (results g)) = ix g 9" "var_index (pInverse (vars g)) = ix g 10"
  by (simp_all add: ix_def alu_vars_def input_vars_def output_vars_def scratch_vars_def)

lemma alu_arrays:
  assumes "alu_wf g"
  shows "arr g 11 (unpackedArg1 (vars g))" "arr g 27 (unpackedArg2 (vars g))" "arr g 43 (opcodeResult (vars g))" "arr g 59 (opcodeCarry (vars g))"
    "arr g 75 (opcodeAux3 (vars g))" "arr g 91 (opcodeAux4 (vars g))" "arr g 107 (opcodeAux5 (vars g))" "arr g 123 (opcodeAux6 (vars g))" "arr g 139 (opcodeAux7 (vars g))"
  using alu_lengths [OF assms]
  by (simp_all add: arr_def ix_def alu_vars_def input_vars_def output_vars_def scratch_vars_def word_arrays_def nth_append)

lemma arr_index: "arr g b vs \<Longrightarrow> i < 16 \<Longrightarrow> var_index (vs ! i) = ix g (b + i)"
  by (simp add: arr_def)

lemma arr_length: "arr g b vs \<Longrightarrow> length vs = 16"
  by (simp add: arr_def)

lemma arr_set: "arr g b vs \<Longrightarrow> var_index ` set vs = ix g ` {b..<b + 16}"
proof -
  assume a: "arr g b vs"
  have "var_index ` set vs = (\<lambda>i. ix g (b + i)) ` {0..<16}"
    using a by (force simp: arr_def set_conv_nth image_def)
  also have "\<dots> = ix g ` ((+) b ` {0..<16})" unfolding image_image ..
  also have "(+) b ` {0..<16} = {b..<b + 16}" by (simp add: add.commute)
  finally show ?thesis .
qed

lemma arr_distinct:
  assumes "alu_wf g" "arr g b vs" "b + 16 \<le> 155"
  shows "distinct (map var_index vs)"
  using assms by (simp add: distinct_conv_nth arr_def)

text \<open>Disjointness of two arrays, or of an array and single variables, by positions.\<close>

lemma ix_disjoint:
  assumes "alu_wf g" "A \<subseteq> {..<155}" "B \<subseteq> {..<155}" "A \<inter> B = {}"
  shows "ix g ` A \<inter> ix g ` B = {}"
proof -
  have "inj_on (ix g) {..<155}" using assms(1) by (intro inj_onI) simp
  then have "ix g ` (A \<inter> B) = ix g ` A \<inter> ix g ` B" using assms(2,3) by (intro inj_on_image_Int)
  then show ?thesis using assms(4) by simp
qed

lemma drop_positions: "alu_wf g \<Longrightarrow> n \<le> 155 \<Longrightarrow> var_index ` set (drop n (alu_vars g)) = ix g ` {n..<155}"
proof -
  assume "alu_wf g" "n \<le> 155"
  then have "var_index ` set (drop n (alu_vars g)) = (\<lambda>i. ix g (n + i)) ` {0..<155 - n}"
    by (force simp: set_conv_nth alu_vars_length ix_def image_def)
  also have "\<dots> = ix g ` ((+) n ` {0..<155 - n})" unfolding image_image ..
  also have "(+) n ` {0..<155 - n} = {n..<155}" using \<open>n \<le> 155\<close> by simp
  finally show ?thesis .
qed

lemma alu_written_positions:
  assumes "alu_wf g"
  shows "alu_written g = ix g ` {4..<155}" "var_index ` set (mem_out (results g) @ scratch_vars (vars g)) = ix g ` {6..<155}"
proof -
  have "drop 4 (alu_vars g) = output_vars (results g) @ scratch_vars (vars g)" by (simp add: alu_vars_def input_vars_def)
  then show "alu_written g = ix g ` {4..<155}" using drop_positions [OF assms, of 4] by (simp add: alu_written_def)
  have "set (drop 6 (alu_vars g)) = set (mem_out (results g) @ scratch_vars (vars g))" by (auto simp: alu_vars_def input_vars_def output_vars_def mem_out_def)
  then show "var_index ` set (mem_out (results g) @ scratch_vars (vars g)) = ix g ` {6..<155}" using drop_positions [OF assms, of 6] by simp
qed

end
