(* ===== verification/AluComponent.thy ===== *)
theory AluComponent
  imports AluBase
begin

text \<open>
  The contract of the classes derived from \<open>ALU_Component_Gadget\<close>, as the locale
  \<open>alu_component\<close>: the witness code returns, assigns the component's own variables and makes
  the constraints hold that the component adds for its opcode. The rest of the theory says what the
  packing gadgets do inside a component, in terms of the numbers that variables and words hold.
\<close>

section \<open>Changes of a board\<close>

definition changes :: "int set \<Rightarrow> Protoboard \<Rightarrow> Protoboard \<Rightarrow> bool" where
  "changes W pb w \<longleftrightarrow> pb_inv pb \<and> pb_inv w \<and> (\<forall>op. pb_constraintSystem op w = pb_constraintSystem op pb)
     \<and> (\<forall>v. (assigned w v \<longleftrightarrow> var_index v \<in> W \<or> assigned pb v) \<and> (var_index v \<notin> W \<longrightarrow> val w v = val pb v))"

lemma changes_writes: "writes_only W f \<Longrightarrow> pb_inv pb \<Longrightarrow> changes W pb (f pb)"
  by (simp add: changes_def writes_only_def)

lemma changesD:
  assumes "changes W pb w"
  shows "pb_inv pb" "pb_inv w" "pb_constraintSystem op w = pb_constraintSystem op pb" "assigned w v \<longleftrightarrow> var_index v \<in> W \<or> assigned pb v"
    "var_index v \<notin> W \<Longrightarrow> val w v = val pb v"
  using assms unfolding changes_def by blast+

lemma changes_trans: "changes V pb u \<Longrightarrow> changes W u w \<Longrightarrow> changes (V \<union> W) pb w"
  unfolding changes_def by auto

lemma changes_set_val: "pb_inv pb \<Longrightarrow> changes {var_index v} pb (set_val v x pb)"
  by (simp add: changes_def)

lemma changes_zero_all: "pb_inv pb \<Longrightarrow> changes (var_index ` set vs) pb (zero_all vs pb)"
  by (simp add: changes_def zero_all_facts)

text \<open>A polynomial without selectors holds when its variables are assigned and its value is 0.\<close>

lemma holdsI: "plain p \<Longrightarrow> cp_over {v. assigned pb v} p \<Longrightarrow> pv pb p = 0 \<Longrightarrow> holds pb p"
  by (auto simp: holds_iff cp_over_def)

lemma holds_zero: "plain p \<Longrightarrow> holds pb p \<Longrightarrow> pv pb p = 0"
  by (simp add: holds_iff)

lemma holds_changes:
  assumes "changes W pb w" "plain p" "var_index ` cp_vars p \<inter> W = {}" "holds pb p"
  shows "holds w p"
proof -
  have "pv w p = pv pb p" unfolding pv_def using assms(3) by (intro cp_val_cong changesD(5) [OF assms(1)]) auto
  then show ?thesis using assms(4) by (simp add: holds_iff [OF assms(2)] changesD(4) [OF assms(1)])
qed

section \<open>The contract of a component\<close>

text \<open>The constraints a component adds for one opcode are satisfied.\<close>

definition sat :: "Opcode \<Rightarrow> tagged list \<Rightarrow> Protoboard \<Rightarrow> bool" where
  "sat op cs pb \<longleftrightarrow> (\<forall>(p, nm) \<in> set (own op cs). holds pb p)"

lemma sat_simps [simp]: "sat op [] pb" "sat op ((op', p, nm) # cs) pb \<longleftrightarrow> (op' = op \<longrightarrow> holds pb p) \<and> sat op cs pb"
  "sat op (cs @ ds) pb \<longleftrightarrow> sat op cs pb \<and> sat op ds pb" "sat op (tag op' es) pb \<longleftrightarrow> (op' = op \<longrightarrow> (\<forall>(p, nm) \<in> set es. holds pb p))"
  by (auto simp: sat_def)

locale alu_component =
  fixes op :: Opcode and constraints :: "ALU_Component_Gadget \<Rightarrow> tagged list"
    and generateWitness :: "ALU_Component_Gadget \<Rightarrow> Protoboard \<Rightarrow> Protoboard result"
    and pre :: "ALU_Component_Gadget \<Rightarrow> Protoboard \<Rightarrow> bool" and outs :: "nat set"
  assumes runs: "alu_wf g \<Longrightarrow> pb_inv pb \<Longrightarrow> pre g pb \<Longrightarrow>
      \<exists>w. generateWitness g pb = Inr w \<and> changes (ix g ` outs) pb w \<and> sat op (constraints g) w"
    and pre_tagged: "pb_inv pb \<Longrightarrow> pre g pb \<Longrightarrow> pre g (add_tagged cs pb)"
begin

lemma satisfied:
  assumes "alu_wf g" "pb_inv pb" "pre g pb" "ready op (ix g ` outs) pb"
  shows "res_bind (generateWitness g (add_tagged (constraints g) pb)) (pb_isSatisfied op) = Inr True"
proof -
  let ?b = "add_tagged (constraints g) pb"
  note t = add_tagged_facts [OF assms(2), where cs = "constraints g"]
  obtain w where w: "generateWitness g ?b = Inr w" "changes (ix g ` outs) ?b w" "sat op (constraints g) w"
    using runs [OF assms(1) t(1) pre_tagged [OF assms(2,3)]] by blast
  have "holds w (constraint_poly c)" if c: "c \<in> set (pb_constraintSystem op w)" for c
  proof (cases "c \<in> set (pb_constraintSystem op pb)")
    case True
    let ?p = "constraint_poly c"
    have p: "plain ?p" "var_index ` cp_vars ?p \<inter> ix g ` outs = {}" "holds pb ?p"
      using assms(4) True by (simp_all add: ready_def pb_isSatisfied_iff)
    have "holds ?b ?p" using p(3) by (simp add: holds_def t(2))
    then show ?thesis by (rule holds_changes [OF w(2) p(1,2)])
  next
    case False
    then have "c \<in> (\<lambda>(p, nm). \<lparr>constraint_poly = p, constraint_name = nm\<rparr>) ` set (own op (constraints g))"
      using c unfolding changesD(3) [OF w(2)] t(4) by simp
    then show ?thesis using w(3) by (auto simp: sat_def)
  qed
  then show ?thesis by (simp add: w(1) pb_isSatisfied_iff)
qed

end

section \<open>Numbers on the board\<close>

definition num :: "Protoboard \<Rightarrow> Variable \<Rightarrow> nat" where
  "num pb v = unat (element (val pb v))"

definition bnum :: "Protoboard \<Rightarrow> Variable list \<Rightarrow> nat" where
  "bnum pb vs = bits_nat (map (bit_of pb) vs)"

definition booleans :: "Protoboard \<Rightarrow> Variable list \<Rightarrow> bool" where
  "booleans pb vs \<longleftrightarrow> (\<forall>v \<in> set vs. boolean pb v)"

definition bits_of :: "Protoboard \<Rightarrow> Variable list \<Rightarrow> nat \<Rightarrow> bool" where
  "bits_of pb vs n \<longleftrightarrow> (\<forall>i < length vs. val pb (vs ! i) = (if bit n i then 1 else 0))"

lemma num_less: "num pb v < 2 ^ 64"
  using unsigned_less [of "element (val pb v)"] by (simp add: num_def)

lemma val_num: "val pb v = fe (num pb v)"
  by (simp add: num_def fe_def)

lemma num_fe: "val pb v = fe n \<Longrightarrow> n < 2 ^ 64 \<Longrightarrow> num pb v = n"
  by (simp add: num_def unat_fe)

lemma bnum_less: "bnum pb vs < 2 ^ length vs"
  using bits_nat_less [of "map (bit_of pb) vs"] by (simp add: bnum_def)

lemma bits_of_booleans: "bits_of pb vs n \<Longrightarrow> booleans pb vs"
  by (auto simp: bits_of_def booleans_def boolean_def in_set_conv_nth)

lemma bits_of_bnum: "bits_of pb vs n \<Longrightarrow> bnum pb vs = take_bit (length vs) n"
  unfolding bnum_def by (rule bits_nat_of_bits) (auto simp: bits_of_def bit_of_def bit_take_bit_iff)

lemma bits_of_iff: "bits_of pb vs n \<longleftrightarrow> booleans pb vs \<and> bnum pb vs = take_bit (length vs) n"
proof
  assume a: "booleans pb vs \<and> bnum pb vs = take_bit (length vs) n"
  have "val pb (vs ! i) = (if bit n i then 1 else 0)" if i: "i < length vs" for i
  proof -
    have "bit (bnum pb vs) i \<longleftrightarrow> bit_of pb (vs ! i)" using i by (simp add: bnum_def bit_bits_nat)
    moreover have "boolean pb (vs ! i)" using a i by (simp add: booleans_def)
    ultimately show ?thesis using a i by (simp add: bit_take_bit_iff val_boolean)
  qed
  then show "bits_of pb vs n" by (simp add: bits_of_def)
qed (simp add: bits_of_booleans bits_of_bnum)

lemma pack_bnum: "booleans pb vs \<Longrightarrow> length vs \<le> 64 \<Longrightarrow> pack_sum 1 (map (val pb) vs) = fe (bnum pb vs)"
  unfolding bnum_def by (rule pack_sum_boolean) (simp_all add: booleans_def)

section \<open>Packing inside a component\<close>

lemma packer_wf:
  assumes "alu_wf g" "arr g b vs" "b + 16 \<le> 155" "var_index v = ix g k" "k < 155" "k \<notin> {b..<b + 16}"
  shows "cpk_wf (unpacker op vs v)" "cpk_wf (packer op vs v)"
proof -
  have "ix g k \<notin> ix g ` {b..<b + 16}" using assms by simp
  then show "cpk_wf (unpacker op vs v)" "cpk_wf (packer op vs v)"
    using arr_distinct [OF assms(1-3)] by (simp_all add: cpk_wf_def unpacker_def packer_def arr_length [OF assms(2)] assms(4) arr_set [OF assms(2)])
qed

lemma unpacker_facts:
  fixes op :: Opcode
  assumes "alu_wf g" "arr g b vs" "b + 16 \<le> 155" "var_index v = ix g k" "k < 155" "k \<notin> {b..<b + 16}" "pb_inv pb"
  defines "w \<equiv> CompressionPacking_generateWitness (unpacker op vs v) pb"
  shows "changes (ix g ` {b..<b + 16}) pb w" "bits_of w vs (num pb v)"
proof -
  note wf = packer_wf(1) [OF assms(1-6), of op]
  show "changes (ix g ` {b..<b + 16}) pb w" using changes_writes [OF cpk_writes [OF wf] assms(7)] arr_set [OF assms(2)]
    by (simp add: w_def cpk_written_def unpacker_def)
  show "bits_of w vs (num pb v)" using cpk_unpack_bits [OF wf _ assms(7)]
    by (simp add: bits_of_def w_def num_def unpacker_def)
qed

lemma packer_facts:
  fixes op :: Opcode
  assumes "alu_wf g" "arr g b vs" "b + 16 \<le> 155" "var_index v = ix g k" "k < 155" "k \<notin> {b..<b + 16}" "pb_inv pb"
  defines "w \<equiv> CompressionPacking_generateWitness (packer op vs v) pb"
  shows "changes {ix g k} pb w" "val w v = pack_sum 1 (map (val pb) vs)"
proof -
  note wf = packer_wf(2) [OF assms(1-6), of op]
  show "changes {ix g k} pb w" using changes_writes [OF cpk_writes [OF wf] assms(7)] assms(4)
    by (simp add: w_def cpk_written_def packer_def)
  show "val w v = pack_sum 1 (map (val pb) vs)" using assms(7) arr_length [OF assms(2)]
    by (simp add: w_def packer_def CompressionPacking_generateWitness_def ExtensionDegree_def pack_value_eq)
qed

lemma packer_constraints:
  assumes "length vs = 16"
  shows "\<forall>(p, nm) \<in> set (CompressionPacking_constraints (packer op vs v)). holds pb p \<Longrightarrow> val pb v = pack_sum 1 (map (val pb) vs)"
    and "assigned pb v \<Longrightarrow> \<forall>u \<in> set vs. assigned pb u \<Longrightarrow> val pb v = pack_sum 1 (map (val pb) vs) \<Longrightarrow>
      \<forall>(p, nm) \<in> set (CompressionPacking_constraints (packer op vs v)). holds pb p"
proof -
  let ?p = "cp_plus (cp_lc (fst (pack_loop vs (lc_const 0, 1)))) (cp_var v)"
  have c: "CompressionPacking_constraints (packer op vs v) = [(?p, ''packed = packedPoly'')]"
    using assms by (simp add: CompressionPacking_constraints_def packer_def ExtensionDegree_def)
  have z: "pv pb ?p = 0 \<longleftrightarrow> val pb v = pack_sum 1 (map (val pb) vs)" by (simp add: pv_simps lv_pack_loop lv_simps eq_0_swap)
  show "\<forall>(p, nm) \<in> set (CompressionPacking_constraints (packer op vs v)). holds pb p \<Longrightarrow> val pb v = pack_sum 1 (map (val pb) vs)"
    using holds_zero [of ?p pb] z by (simp add: c)
  assume a: "assigned pb v" "\<forall>u \<in> set vs. assigned pb u" "val pb v = pack_sum 1 (map (val pb) vs)"
  have "cp_over {v. assigned pb v} ?p" unfolding cp_over_def using a(1,2) by (intro order.trans [OF pack_constraint_vars]) auto
  then show "\<forall>(p, nm) \<in> set (CompressionPacking_constraints (packer op vs v)). holds pb p"
    using holdsI [of ?p pb] z a(3) by (simp add: c)
qed

lemma unpacker_constraints:
  assumes "length vs = 16"
  shows "(\<forall>(p, nm) \<in> set (CompressionPacking_constraints (unpacker op vs v)). holds pb p) \<longleftrightarrow> (\<forall>u \<in> set vs. assigned pb u) \<and> booleans pb vs"
proof -
  have "CompressionPacking_constraints (unpacker op vs v) = map bool_constraint vs"
    using assms by (simp add: CompressionPacking_constraints_def unpacker_def ExtensionDegree_def)
  moreover have "holds pb (booleanity u) \<longleftrightarrow> assigned pb u \<and> boolean pb u" for u
    by (simp add: holds_iff pv_booleanity boolean_def)
  ultimately show ?thesis by (auto simp: bool_constraint_def booleans_def)
qed

section \<open>Changes by position\<close>

lemma alu_init_changes:
  assumes "alu_wf g" "pb_inv pb"
  shows "changes (ix g ` {6..<155}) pb (alu_init g pb)" "var_index v = ix g k \<Longrightarrow> k \<in> {6..<155} \<Longrightarrow> val (alu_init g pb) v = 0"
  using changes_writes [OF alu_init_writes [OF assms(1)] assms(2)] alu_init_facts(4) [OF assms, of v]
  unfolding alu_written_positions(2) [OF assms(1)] by simp_all

lemma changes_val:
  "changes (ix g ` K) pb w \<Longrightarrow> alu_wf g \<Longrightarrow> K \<subseteq> {..<155} \<Longrightarrow> var_index v = ix g k \<Longrightarrow> k < 155 \<Longrightarrow> k \<notin> K \<Longrightarrow> val w v = val pb v"
  using ix_image [of g k K] changesD(5) [of "ix g ` K" pb w v] by simp

lemma changes_subset:
  "changes (ix g ` K) pb w \<Longrightarrow> changes (ix g ` L) w u \<Longrightarrow> L \<subseteq> K \<Longrightarrow> changes (ix g ` K) pb u"
  using changes_trans [of "ix g ` K" pb w "ix g ` L" u] by (simp add: image_Un [symmetric] Un_absorb2)

lemma changes_join: "changes (ix g ` K) pb u \<Longrightarrow> changes (ix g ` L) u w \<Longrightarrow> K \<union> L = M \<Longrightarrow> changes (ix g ` M) pb w"
  using changes_trans [of "ix g ` K" pb u "ix g ` L" w] by (auto simp: image_Un)

lemma changes_position: "alu_wf g \<Longrightarrow> pb_inv pb \<Longrightarrow> var_index v = ix g k \<Longrightarrow> changes (ix g ` {k}) pb (set_val v x pb)"
  using changes_set_val [of pb v x] by simp

lemma arr_assigned: "changes (ix g ` K) pb u \<Longrightarrow> arr g b vs \<Longrightarrow> {b..<b + 16} \<subseteq> K \<Longrightarrow> \<forall>v \<in> set vs. assigned u v"
proof -
  assume "changes (ix g ` K) pb u" "arr g b vs" "{b..<b + 16} \<subseteq> K"
  moreover from this(2,3) have "var_index ` set vs \<subseteq> ix g ` K" by (simp add: arr_set image_mono)
  ultimately show ?thesis by (simp add: changesD(4) image_subset_iff)
qed

lemma all_assigned:
  assumes "changes (ix g ` {4..<155}) pb w" "alu_wf g" "alu_pre g pb"
  shows "\<forall>v \<in> set (alu_vars g). assigned w v"
proof
  fix v assume v: "v \<in> set (alu_vars g)"
  then obtain k where k: "k < 155" "v = alu_vars g ! k" unfolding in_set_conv_nth alu_vars_length [OF assms(2)] by blast
  show "assigned w v"
  proof (cases "k < 4")
    case True
    then have "v \<in> set (input_vars (inputs g))" using k nth_mem [of k "input_vars (inputs g)"]
      by (simp add: alu_vars_def nth_append input_vars_def [of "inputs g", THEN arg_cong, of length])
    then show ?thesis using assms(3) by (simp add: changesD(4) [OF assms(1)] alu_pre_def)
  next
    case False
    then have "var_index v \<in> ix g ` {4..<155}" using k by (auto simp: ix_def)
    then show ?thesis by (simp add: changesD(4) [OF assms(1)])
  qed
qed

text \<open>The members of the list of all variables.\<close>

lemmas alu_vars_members = alu_vars_def input_vars_def output_vars_def scratch_vars_def word_arrays_def

lemma bits_of_changes:
  assumes "bits_of pb vs n" "changes (ix g ` K) pb w" "alu_wf g" "arr g b vs" "b + 16 \<le> 155" "K \<subseteq> {..<155}" "K \<inter> {b..<b + 16} = {}"
  shows "bits_of w vs n"
proof -
  have "val w (vs ! i) = val pb (vs ! i)" if "i < 16" for i
  proof (rule changes_val [OF assms(2,3,6) arr_index [OF assms(4) that]])
    show "b + i \<notin> K" using assms(7) that by auto
  qed (use assms(5) that in simp)
  then show ?thesis using assms(1) by (simp add: bits_of_def arr_length [OF assms(4)])
qed

lemma unpack_args_facts:
  assumes "alu_wf g" "pb_inv pb"
  shows "changes (ix g ` {6..<155}) pb (unpack_args op g pb)"
    "bits_of (unpack_args op g pb) (unpackedArg1 (vars g)) (num pb (arg1_val (inputs g)))"
    "bits_of (unpack_args op g pb) (unpackedArg2 (vars g)) (num pb (arg2_val (inputs g)))"
    "var_index v = ix g k \<Longrightarrow> k \<in> {6..<11} \<union> {43..<155} \<Longrightarrow> val (unpack_args op g pb) v = 0"
    "var_index v = ix g k \<Longrightarrow> k < 6 \<Longrightarrow> val (unpack_args op g pb) v = val pb v"
proof -
  let ?i = "alu_init g pb" and ?u1 = "unpackedArg1 (vars g)" and ?u2 = "unpackedArg2 (vars g)"
  let ?v = "CompressionPacking_generateWitness (unpacker op ?u1 (arg1_val (inputs g))) ?i"
  let ?w = "CompressionPacking_generateWitness (unpacker op ?u2 (arg2_val (inputs g))) ?v"
  note i = alu_init_changes [OF assms] and p = alu_positions [OF assms(1)] and a = alu_arrays [OF assms(1)]
  have "0 \<notin> {11..<11 + 16 :: nat}" "1 \<notin> {27..<27 + 16 :: nat}" by auto
  note u = unpacker_facts [OF assms(1) a(1) _ p(1) _ this(1) changesD(2) [OF i(1)], of op]
    and u' = unpacker_facts [OF assms(1) a(2) _ p(2) _ this(2) changesD(2), of _ _ ?v op]
  have u: "changes (ix g ` {11..<11 + 16}) ?i ?v" "bits_of ?v ?u1 (num ?i (arg1_val (inputs g)))" using u by simp_all
  have w: "changes (ix g ` {27..<27 + 16}) ?v ?w" "bits_of ?w ?u2 (num ?v (arg2_val (inputs g)))" using u' [OF _ _ u(1)] by simp_all
  have e: "unpack_args op g pb = ?w" by (simp add: unpack_args_def unpackArg1_g_def unpackArg2_g_def)
  have n: "num ?i (arg1_val (inputs g)) = num pb (arg1_val (inputs g))" "num ?v (arg2_val (inputs g)) = num pb (arg2_val (inputs g))"
    using changes_val [OF i(1) assms(1) _ p(1)] changes_val [OF i(1) assms(1) _ p(2)] changes_val [OF u(1) assms(1) _ p(2)] by (simp_all add: num_def)
  show "changes (ix g ` {6..<155}) pb (unpack_args op g pb)"
    unfolding e by (rule changes_subset [OF changes_subset [OF i(1) u(1)] w(1)]) auto
  show "bits_of (unpack_args op g pb) ?u1 (num pb (arg1_val (inputs g)))" unfolding e n(1) [symmetric]
    by (rule bits_of_changes [OF u(2) w(1) assms(1) a(1)]) auto
  show "bits_of (unpack_args op g pb) ?u2 (num pb (arg2_val (inputs g)))" unfolding e n(2) [symmetric] by (rule w(2))
  have same: "val ?w v = val ?i v" if "var_index v = ix g k" "k < 155" "k \<notin> {11..<43}"
  proof -
    have "k \<notin> {11..<11 + 16}" "k \<notin> {27..<27 + 16}" using that(3) by auto
    then show ?thesis using changes_val [OF w(1) assms(1) _ that(1,2)] changes_val [OF u(1) assms(1) _ that(1,2)] by simp
  qed
  show "val (unpack_args op g pb) v = 0" if "var_index v = ix g k" "k \<in> {6..<11} \<union> {43..<155}"
    unfolding e using same [OF that(1)] i(2) [OF that(1)] that(2) by auto
  show "val (unpack_args op g pb) v = val pb v" if "var_index v = ix g k" "k < 6"
    unfolding e using same [OF that(1)] changes_val [OF i(1) assms(1) _ that(1)] that(2) by simp
qed

lemma positions_map: "arr g b vs \<Longrightarrow> map var_index vs = map (ix g) [b..<b + 16]"
  by (rule nth_equalityI) (simp_all add: arr_def)

lemma ix_distinct: "alu_wf g \<Longrightarrow> set ks \<subseteq> {..<155} \<Longrightarrow> distinct (map (ix g) ks) \<longleftrightarrow> distinct ks"
proof -
  assume "alu_wf g" "set ks \<subseteq> {..<155}"
  then have "inj_on (ix g) (set ks)" by (intro inj_onI) (metis ix_eq lessThan_iff subsetD)
  then show ?thesis by (simp add: distinct_map)
qed

section \<open>A component with its board\<close>

text \<open>The component whose variables have the indices 0 to 154, and a board with its inputs.\<close>

definition sample_var :: "nat \<Rightarrow> Variable" where
  "sample_var i = \<lparr>var_index = int i, var_newIndex = -1, var_name = ''v''\<rparr>"

definition sample_word :: "nat \<Rightarrow> Variable list" where
  "sample_word b = map sample_var [b..<b + 16]"

definition sample_component :: ALU_Component_Gadget where
  "sample_component = \<lparr>inputs = \<lparr>arg1_val = sample_var 0, arg2_val = sample_var 1, dest_val = sample_var 2, in_flag = sample_var 3, in_pc = []\<rparr>,
     results = \<lparr>out_flag = sample_var 4, out_result = sample_var 5, out_isMemOp = sample_var 6, out_address = sample_var 7, out_isLoadOp = sample_var 8, out_value = sample_var 9\<rparr>,
     vars = \<lparr>pInverse = sample_var 10, unpackedArg1 = sample_word 11, unpackedArg2 = sample_word 27, opcodeResult = sample_word 43, opcodeCarry = sample_word 59,
       opcodeAux3 = sample_word 75, opcodeAux4 = sample_word 91, opcodeAux5 = sample_word 107, opcodeAux6 = sample_word 123, opcodeAux7 = sample_word 139\<rparr>,
     registerLength = 16, standAlone = True\<rparr>"

definition sample_board :: "nat \<Rightarrow> nat \<Rightarrow> nat \<Rightarrow> FElem \<Rightarrow> Protoboard" where
  "sample_board a b d f = set_val (sample_var 3) f (set_val (sample_var 2) (fe d) (set_val (sample_var 1) (fe b) (set_val (sample_var 0) (fe a) (Protoboard_create 0))))"

lemma sample_component_wf: "alu_wf sample_component"
proof -
  have "map var_index (alu_vars sample_component) = map int [0..<155]" by code_simp
  then show ?thesis by (simp add: alu_wf_def distinct_map inj_on_def) (simp add: sample_component_def word_arrays_def sample_word_def REGISTER_LENGTH_def)
qed

lemma sample_board_facts:
  "pb_inv (sample_board a b d f)" "alu_pre sample_component (sample_board a b d f)" "pb_constraintSystem op (sample_board a b d f) = []"
  "a < 2 ^ 64 \<Longrightarrow> num (sample_board a b d f) (arg1_val (inputs sample_component)) = a"
  "b < 2 ^ 64 \<Longrightarrow> num (sample_board a b d f) (arg2_val (inputs sample_component)) = b"
  "val (sample_board a b d f) (dest_val (inputs sample_component)) = fe d" "val (sample_board a b d f) (in_flag (inputs sample_component)) = f"
  by (simp_all add: sample_board_def sample_component_def sample_var_def alu_pre_def input_vars_def num_def unat_fe)

end
