(* ===== verification/AluLogic.thy ===== *)
theory AluLogic
  imports AluComponent
begin

text \<open>
  The bitwise opcodes of \<open>ALU.cpp\<close>: \<open>ALU_XOR_Gadget\<close>, \<open>ALU_AND_Gadget\<close>, \<open>ALU_OR_Gadget\<close> and
  \<open>ALU_NOT_Gadget\<close>. Their result is a field element whose bits are the result of the operation,
  and their flag says whether it is 0.
\<close>

section \<open>The gadgets\<close>

definition XOR_constraints :: "ALU_Component_Gadget \<Rightarrow> tagged list" where
  "XOR_constraints g = [(Op_XOR, cp_lc (lc_plus (lc_plus (lc_var (arg1_val (inputs g))) (lc_var (arg2_val (inputs g)))) (lc_var (out_result (results g)))),
       ''arg1_val + arg2_val + dest_val = 0'')]
     @ zero_flag_constraints var_times Op_XOR g @ [isMemOp_zero Op_XOR g]"

definition XOR_generateWitness :: "ALU_Component_Gadget \<Rightarrow> Protoboard \<Rightarrow> Protoboard result" where
  "XOR_generateWitness g pb = (let
     pb = alu_init g pb;
     res = val pb (arg1_val (inputs g)) + val pb (arg2_val (inputs g));
     pb = set_result g res pb
     in if length (unpackedArg1 (vars g)) = length (unpackedArg2 (vars g)) then Inr pb else Inl AssertFailed)"

definition AND_bit :: "ALU_Component_Gadget \<Rightarrow> nat \<Rightarrow> CircuitPolynomial" where
  "AND_bit g i = var_times (unpackedArg1 (vars g) ! i) (unpackedArg2 (vars g) ! i)"

definition AND_constraints :: "ALU_Component_Gadget \<Rightarrow> tagged list" where
  "AND_constraints g = (let polynomial = weighted_poly (AND_bit g) [0..<registerLength g] in
     standAlone_constraints Op_AND g
     @ [(Op_AND, cp_plus polynomial (cp_var (out_result (results g))), ''sum_{i=0}^{registerLength-1} uinput1[i] * uinput2[i] * X^i + result = 0'')]
     @ zero_flag_constraints var_prod Op_AND g @ [isMemOp_zero Op_AND g])"

text \<open>The loop at the end of the witness code clears words again.\<close>

definition clear_words :: "Variable list list \<Rightarrow> Protoboard \<Rightarrow> Protoboard" where
  "clear_words as pb = zero_all (concat (map (\<lambda>i. map (\<lambda>a. a ! i) as) [0..<REGISTER_LENGTH])) pb"

definition AND_generateWitness :: "ALU_Component_Gadget \<Rightarrow> Protoboard \<Rightarrow> Protoboard result" where
  "AND_generateWitness g pb = (let
     pb = unpack_args Op_AND g pb;
     res = weighted_value (\<lambda>i. val pb (unpackedArg1 (vars g) ! i) * val pb (unpackedArg2 (vars g) ! i)) [0..<registerLength g]
     in guarded g (clear_words [opcodeResult (vars g), opcodeCarry (vars g)] (set_result g res pb)))"

definition OR_bit :: "ALU_Component_Gadget \<Rightarrow> nat \<Rightarrow> CircuitPolynomial" where
  "OR_bit g i = (let first = lc_plus (lc_var (unpackedArg1 (vars g) ! i)) (lc_const 1);
     second = lc_plus (lc_var (unpackedArg2 (vars g) ! i)) (lc_const 1)
     in cp_plus (cp_times (cp_lc first) (cp_lc second)) (cp_const 1))"

definition OR_constraints :: "ALU_Component_Gadget \<Rightarrow> tagged list" where
  "OR_constraints g = (let polynomial = weighted_poly (OR_bit g) [0..<registerLength g] in
     standAlone_constraints Op_OR g
     @ [(Op_OR, cp_plus polynomial (cp_var (out_result (results g))), ''sum_{i=0}^{registerLength-1} (1+(1+uinput1[i]) * (1+uinput2[i])) * X^i + result = 0'')]
     @ zero_flag_constraints var_times Op_OR g @ [isMemOp_zero Op_OR g])"

definition OR_generateWitness :: "ALU_Component_Gadget \<Rightarrow> Protoboard \<Rightarrow> Protoboard result" where
  "OR_generateWitness g pb = (let
     pb = unpack_args Op_OR g pb;
     res = weighted_value (\<lambda>i. 1 + (1 + val pb (unpackedArg1 (vars g) ! i)) * (1 + val pb (unpackedArg2 (vars g) ! i))) [0..<registerLength g]
     in guarded g (clear_words [opcodeResult (vars g), opcodeCarry (vars g)] (set_result g res pb)))"

text \<open>The loop \<open>allOnes += x_i\<close>.\<close>

definition allOnes :: "nat \<Rightarrow> FElem" where
  "allOnes n = fst (fold (\<lambda>_ (allOnes, x_i). (allOnes + x_i, x_i * getGF2E_X)) [0..<n] (0, 1))"

definition NOT_constraints :: "ALU_Component_Gadget \<Rightarrow> tagged list" where
  "NOT_constraints g = [(Op_NOT, cp_lc (lc_plus (lc_plus (lc_var (arg1_val (inputs g))) (lc_const (allOnes (registerLength g)))) (lc_var (out_result (results g)))),
       ''(111...1) + arg1 + result = 0'')]
     @ zero_flag_constraints var_times Op_NOT g @ [isMemOp_zero Op_NOT g]"

definition NOT_generateWitness :: "ALU_Component_Gadget \<Rightarrow> Protoboard \<Rightarrow> Protoboard result" where
  "NOT_generateWitness g pb = (let
     pb = alu_init g pb;
     res = allOnes (registerLength g) + val pb (arg1_val (inputs g))
     in Inr (clear_words [unpackedArg1 (vars g), unpackedArg2 (vars g), opcodeResult (vars g), opcodeCarry (vars g)] (set_result g res pb)))"

section \<open>The result flag\<close>

definition zero_flagged :: "ALU_Component_Gadget \<Rightarrow> Protoboard \<Rightarrow> bool" where
  "zero_flagged g pb \<longleftrightarrow> val pb (out_flag (results g)) = (if val pb (out_result (results g)) = 0 then 1 else 0) \<and> val pb (out_isMemOp (results g)) = 0"

lemma pv_var_mul [simp]: "pv pb (var_times a b) = val pb a * val pb b" "pv pb (var_prod a b) = val pb a * val pb b"
  by (simp_all add: var_times_def var_prod_def pv_simps lv_simps)

lemma var_mul_plain [simp]: "plain (var_times a b)" "plain (var_prod a b)"
  by (simp_all add: var_times_def var_prod_def)

lemma var_mul_over [simp]: "a \<in> V \<Longrightarrow> b \<in> V \<Longrightarrow> cp_over V (var_times a b)" "a \<in> V \<Longrightarrow> b \<in> V \<Longrightarrow> cp_over V (var_prod a b)"
  by (simp_all add: var_times_def var_prod_def)

lemma zero_flag_sound:
  assumes "sat op (zero_flag_constraints mul op g @ [isMemOp_zero op g]) pb" "mul = var_times \<or> mul = var_prod"
  shows "zero_flagged g pb"
proof -
  let ?r = "out_result (results g)" and ?f = "out_flag (results g)"
  have "pv pb (mul ?r ?f) = 0" "pv pb (cp_plus (mul ?r (pInverse (vars g))) (cp_lc (lc_plus (lc_var ?f) (lc_const 1)))) = 0"
      "pv pb (cp_var (out_isMemOp (results g))) = 0"
    using assms by (auto intro!: holds_zero simp: zero_flag_constraints_def isMemOp_zero_def Let_def)
  then have "val pb ?r * val pb ?f = 0" "val pb ?r * val pb (pInverse (vars g)) + (val pb ?f + 1) = 0" "val pb (out_isMemOp (results g)) = 0"
    using assms(2) by (auto simp: pv_simps lv_simps)
  from zero_flag [OF this(1,2)] this(3) show ?thesis by (simp add: zero_flagged_def)
qed

lemma zero_flag_complete:
  assumes "val pb (out_flag (results g)) = (if val pb (out_result (results g)) = 0 then 1 else 0)"
    "val pb (pInverse (vars g)) = (if val pb (out_result (results g)) \<noteq> 0 then inverse (val pb (out_result (results g))) else 1)"
    "val pb (out_isMemOp (results g)) = 0" "mul = var_times \<or> mul = var_prod"
    "\<forall>v \<in> {out_result (results g), out_flag (results g), pInverse (vars g), out_isMemOp (results g)}. assigned pb v"
  shows "sat op (zero_flag_constraints mul op g @ [isMemOp_zero op g]) pb"
  using assms by (auto intro!: holdsI simp: zero_flag_constraints_def isMemOp_zero_def Let_def pv_simps lv_simps)

section \<open>The witness code\<close>

lemma set_result_facts:
  assumes "alu_wf g" "pb_inv pb"
  shows "changes (ix g ` {4, 5, 10}) pb (set_result g res pb)" "val (set_result g res pb) (out_result (results g)) = res"
    "val (set_result g res pb) (out_flag (results g)) = (if res = 0 then 1 else 0)"
    "val (set_result g res pb) (pInverse (vars g)) = (if res \<noteq> 0 then inverse res else 1)"
proof -
  note p = alu_positions [OF assms(1)]
  show "changes (ix g ` {4, 5, 10}) pb (set_result g res pb)"
    using assms p by (auto simp: changes_def set_result_def Let_def)
  show "val (set_result g res pb) (out_result (results g)) = res"
    "val (set_result g res pb) (out_flag (results g)) = (if res = 0 then 1 else 0)"
    "val (set_result g res pb) (pInverse (vars g)) = (if res \<noteq> 0 then inverse res else 1)"
    using assms p by (simp_all add: set_result_def Let_def)
qed

lemma clear_words_changes:
  assumes "pb_inv pb" "\<forall>a \<in> set as. length a = REGISTER_LENGTH"
  shows "changes (\<Union>a \<in> set as. var_index ` set a) pb (clear_words as pb)"
proof -
  have "set (concat (map (\<lambda>i. map (\<lambda>a. a ! i) as) [0..<REGISTER_LENGTH])) = (\<Union>a \<in> set as. (!) a ` {0..<REGISTER_LENGTH})" by auto
  also have "\<dots> = (\<Union>a \<in> set as. set a)" using assms(2) by (intro SUP_cong) (auto simp: set_conv_nth image_def)
  finally show ?thesis using changes_zero_all [OF assms(1)] unfolding clear_words_def by (metis image_UN)
qed

lemma clear_words_positions:
  assumes "alu_wf g" "pb_inv pb"
  shows "changes (ix g ` {43..<75}) pb (clear_words [opcodeResult (vars g), opcodeCarry (vars g)] pb)"
    "changes (ix g ` {11..<75}) pb (clear_words [unpackedArg1 (vars g), unpackedArg2 (vars g), opcodeResult (vars g), opcodeCarry (vars g)] pb)"
proof -
  note a = alu_arrays [OF assms(1)] and l = alu_lengths [OF assms(1)]
  have "ix g ` {43..<75} = ix g ` {43..<43 + 16} \<union> ix g ` {59..<59 + 16}" unfolding image_Un [symmetric] by (rule arg_cong [where f = "(`) (ix g)"]) auto
  moreover have "ix g ` {11..<75} = ix g ` {11..<11 + 16} \<union> (ix g ` {27..<27 + 16} \<union> (ix g ` {43..<43 + 16} \<union> ix g ` {59..<59 + 16}))"
    unfolding image_Un [symmetric] by (rule arg_cong [where f = "(`) (ix g)"]) auto
  ultimately show "changes (ix g ` {43..<75}) pb (clear_words [opcodeResult (vars g), opcodeCarry (vars g)] pb)"
    "changes (ix g ` {11..<75}) pb (clear_words [unpackedArg1 (vars g), unpackedArg2 (vars g), opcodeResult (vars g), opcodeCarry (vars g)] pb)"
    using clear_words_changes [OF assms(2), of "[opcodeResult (vars g), opcodeCarry (vars g)]"]
      clear_words_changes [OF assms(2), of "[unpackedArg1 (vars g), unpackedArg2 (vars g), opcodeResult (vars g), opcodeCarry (vars g)]"]
      arr_set [OF a(1)] arr_set [OF a(2)] arr_set [OF a(3)] arr_set [OF a(4)] by (simp_all add: l REGISTER_LENGTH_def)
qed

text \<open>What is common to the four components: the result is set on a board that only the initialisation and
  the unpacking have changed, and then words are cleared.\<close>

lemma result_runs:
  assumes wf: "alu_wf g" and pre: "alu_pre g pb" and u: "changes (ix g ` {6..<155}) pb u" and z: "val u (out_isMemOp (results g)) = 0"
    and c: "changes (ix g ` C) (set_result g res u) w" "C \<subseteq> {11..<155}"
  shows "changes (ix g ` {4..<155}) pb w" "val w (out_result (results g)) = res" "mul = var_times \<or> mul = var_prod \<Longrightarrow> sat op (zero_flag_constraints mul op g @ [isMemOp_zero op g]) w"
    "\<forall>v \<in> set (alu_vars g). assigned w v"
    "var_index v = ix g k \<Longrightarrow> k < 155 \<Longrightarrow> k \<notin> {4, 5, 10} \<union> C \<Longrightarrow> val w v = val u v"
proof -
  note p = alu_positions [OF wf] and s = set_result_facts [OF wf changesD(2) [OF u], of res]
  have C: "C \<subseteq> {..<155}" using c(2) by auto
  have low: "k \<notin> C" if "k < 11" for k using c(2) that by auto
  have "{6..<155} \<union> {4, 5, 10} \<union> C = {4..<155}" using c(2) by auto
  then show ch: "changes (ix g ` {4..<155}) pb w"
    using changes_trans [OF changes_trans [OF u s(1)] c(1)] by (simp only: image_Un [symmetric])
  have keep: "val w v = val (set_result g res u) v" if "var_index v = ix g k" "k < 11" for v k
    by (rule changes_val [OF c(1) wf C that(1)]) (use that low in auto)
  show r: "val w (out_result (results g)) = res" using keep [OF p(6)] s(2) by simp
  show as: "\<forall>v \<in> set (alu_vars g). assigned w v" by (rule all_assigned [OF ch wf pre])
  have "val (set_result g res u) (out_isMemOp (results g)) = 0" using changes_val [OF s(1) wf _ p(7)] z by simp
  then show "sat op (zero_flag_constraints mul op g @ [isMemOp_zero op g]) w" if "mul = var_times \<or> mul = var_prod"
    using keep [OF p(5)] keep [OF p(11)] keep [OF p(7)] r s(3,4) as that
    by (intro zero_flag_complete) (auto simp: alu_vars_def output_vars_def scratch_vars_def)
  show "val w v = val u v" if "var_index v = ix g k" "k < 155" "k \<notin> {4, 5, 10} \<union> C"
    using changes_val [OF c(1) wf C that(1,2)] changes_val [OF s(1) wf _ that(1,2)] that(3) by simp
qed

section \<open>Bits of the result\<close>

lemma weighted_bits:
  assumes "\<And>i. i < n \<Longrightarrow> f i = (if bit N i then 1 else 0)" "N < 2 ^ n" "n \<le> 64"
  shows "pack_sum 1 (map f [0..<n]) = fe N"
proof -
  have m: "map f [0..<n] = map (\<lambda>b. if b then 1 else 0) (map (bit N) [0..<n])" using assms(1) by simp
  have "bits_nat (map (bit N) [0..<n]) = N" by (rule bits_nat_of_bits) (use assms(2) in simp_all)
  then show ?thesis unfolding m using pack_sum_bits [of 0 "map (bit N) [0..<n]"] assms(3) by simp
qed

lemma allOnes_eq: "n \<le> 64 \<Longrightarrow> allOnes n = fe (2 ^ n - 1)"
proof -
  assume n: "n \<le> 64"
  have "fst (fold (\<lambda>_ (allOnes, x_i). (allOnes + x_i, x_i * getGF2E_X)) is (a, x)) = a + pack_sum x (map (\<lambda>_. 1) is)" for "is" :: "nat list" and a x
    by (induction "is" arbitrary: a x) (simp_all add: add.assoc)
  then have "allOnes n = pack_sum 1 (map (\<lambda>_. 1) [0..<n])" by (simp add: allOnes_def)
  also have "\<dots> = fe (2 ^ n - 1)" unfolding mask_eq_exp_minus_1 [symmetric]
    by (rule weighted_bits) (use n in \<open>simp_all add: bit_mask_iff mask_nat_less_exp\<close>)
  finally show ?thesis .
qed

lemma bit_bnum: "booleans pb vs \<Longrightarrow> i < length vs \<Longrightarrow> val pb (vs ! i) = (if bit (bnum pb vs) i then 1 else 0)"
  by (simp add: bnum_def bit_bits_nat booleans_def val_boolean)

lemma nat_bitwise_less:
  fixes a b :: nat
  assumes "a < 2 ^ n" "b < 2 ^ n"
  shows "a AND b < 2 ^ n" "a OR b < 2 ^ n" "a XOR b < 2 ^ n"
  using assms by (metis take_bit_and take_bit_or take_bit_xor take_bit_nat_eq_self_iff)+

section \<open>Soundness of the constraints\<close>

lemma XOR_sound:
  assumes "sat Op_XOR (XOR_constraints g) pb"
  shows "num pb (out_result (results g)) = num pb (arg1_val (inputs g)) XOR num pb (arg2_val (inputs g)) \<and> zero_flagged g pb"
proof -
  let ?n1 = "num pb (arg1_val (inputs g))" and ?n2 = "num pb (arg2_val (inputs g))"
  have "pv pb (cp_lc (lc_plus (lc_plus (lc_var (arg1_val (inputs g))) (lc_var (arg2_val (inputs g)))) (lc_var (out_result (results g))))) = 0"
    using assms by (intro holds_zero) (simp_all add: XOR_constraints_def)
  then have "val pb (out_result (results g)) = val pb (arg1_val (inputs g)) + val pb (arg2_val (inputs g))" by (simp add: pv_simps lv_simps eq_0_swap)
  also have "\<dots> = fe (?n1 XOR ?n2)" by (simp add: val_num fe_xor)
  finally have "num pb (out_result (results g)) = ?n1 XOR ?n2" by (rule num_fe) (intro nat_bitwise_less num_less)
  moreover have "zero_flagged g pb" using assms by (intro zero_flag_sound [of Op_XOR var_times]) (simp_all add: XOR_constraints_def)
  ultimately show ?thesis ..
qed

lemma weighted_sound:
  assumes "alu_wf g" "holds pb (cp_plus (weighted_poly F [0..<registerLength g]) (cp_var (out_result (results g))))" "\<And>i. plain (F i)"
    "\<And>i. i < 16 \<Longrightarrow> pv pb (F i) = (if bit N i then 1 else 0)" "N < 2 ^ 16"
  shows "num pb (out_result (results g)) = N"
proof -
  have "pv pb (cp_plus (weighted_poly F [0..<registerLength g]) (cp_var (out_result (results g)))) = 0"
    by (rule holds_zero [OF _ assms(2)]) (simp add: weighted_poly_facts(2) assms(3))
  then have "val pb (out_result (results g)) = pack_sum 1 (map (\<lambda>i. pv pb (F i)) [0..<16])"
    by (simp add: pv_simps weighted_poly_facts(1) alu_lengths [OF assms(1)] eq_0_swap)
  also have "\<dots> = fe N" by (rule weighted_bits) (use assms(4,5) in auto)
  finally show ?thesis by (rule num_fe) (use assms(5) in simp)
qed

lemma AND_sound:
  assumes "alu_wf g" "sat Op_AND (AND_constraints g) pb" "booleans pb (unpackedArg1 (vars g))" "booleans pb (unpackedArg2 (vars g))"
  shows "num pb (out_result (results g)) = bnum pb (unpackedArg1 (vars g)) AND bnum pb (unpackedArg2 (vars g)) \<and> zero_flagged g pb"
proof
  show "num pb (out_result (results g)) = bnum pb (unpackedArg1 (vars g)) AND bnum pb (unpackedArg2 (vars g))"
    using assms(2) bit_bnum [OF assms(3)] bit_bnum [OF assms(4)] bnum_less [of pb "unpackedArg1 (vars g)"] bnum_less [of pb "unpackedArg2 (vars g)"]
    by (intro weighted_sound [OF assms(1), where F = "AND_bit g"]) (simp_all add: AND_constraints_def AND_bit_def alu_lengths [OF assms(1)] bit_and_iff nat_bitwise_less [where n = 16, simplified])
  show "zero_flagged g pb" using assms(2) by (intro zero_flag_sound [of Op_AND var_prod]) (simp_all add: AND_constraints_def)
qed

lemma OR_sound:
  assumes "alu_wf g" "sat Op_OR (OR_constraints g) pb" "booleans pb (unpackedArg1 (vars g))" "booleans pb (unpackedArg2 (vars g))"
  shows "num pb (out_result (results g)) = bnum pb (unpackedArg1 (vars g)) OR bnum pb (unpackedArg2 (vars g)) \<and> zero_flagged g pb"
proof
  show "num pb (out_result (results g)) = bnum pb (unpackedArg1 (vars g)) OR bnum pb (unpackedArg2 (vars g))"
    using assms(2) bit_bnum [OF assms(3)] bit_bnum [OF assms(4)] bnum_less [of pb "unpackedArg1 (vars g)"] bnum_less [of pb "unpackedArg2 (vars g)"]
    by (intro weighted_sound [OF assms(1), where F = "OR_bit g"]) (simp_all add: OR_constraints_def OR_bit_def alu_lengths [OF assms(1)] bit_or_iff pv_simps lv_simps nat_bitwise_less [where n = 16, simplified])
  show "zero_flagged g pb" using assms(2) by (intro zero_flag_sound [of Op_OR var_times]) (simp_all add: OR_constraints_def)
qed

lemma NOT_sound:
  assumes "alu_wf g" "sat Op_NOT (NOT_constraints g) pb"
  shows "num pb (out_result (results g)) = num pb (arg1_val (inputs g)) XOR 0xFFFF \<and> zero_flagged g pb"
proof
  have "pv pb (cp_lc (lc_plus (lc_plus (lc_var (arg1_val (inputs g))) (lc_const (allOnes (registerLength g)))) (lc_var (out_result (results g))))) = 0"
    using assms(2) by (intro holds_zero) (simp_all add: NOT_constraints_def)
  then have "val pb (out_result (results g)) = val pb (arg1_val (inputs g)) + fe 0xFFFF"
    by (simp add: pv_simps lv_simps eq_0_swap allOnes_eq alu_lengths [OF assms(1)])
  also have "\<dots> = fe (num pb (arg1_val (inputs g)) XOR 0xFFFF)" by (simp add: val_num fe_xor)
  finally show "num pb (out_result (results g)) = num pb (arg1_val (inputs g)) XOR 0xFFFF" by (rule num_fe) (intro nat_bitwise_less num_less, simp)
  show "zero_flagged g pb" using assms by (intro zero_flag_sound [of Op_NOT var_times]) (simp_all add: NOT_constraints_def)
qed

section \<open>Completeness of the witness code\<close>

lemma standAlone_sat:
  assumes "alu_wf g" "bits_of w (unpackedArg1 (vars g)) n1" "bits_of w (unpackedArg2 (vars g)) n2" "\<forall>v \<in> set (alu_vars g). assigned w v"
  shows "sat op (standAlone_constraints op g) w"
  using assms(2-4) alu_lengths(1,2) [OF assms(1)]
  by (auto simp: standAlone_constraints_def unpackArg1_g_def unpackArg2_g_def unpacker_constraints bits_of_booleans
      alu_vars_def scratch_vars_def word_arrays_def)

lemma XOR_runs:
  assumes "alu_wf g" "pb_inv pb" "alu_pre g pb"
  shows "\<exists>w. XOR_generateWitness g pb = Inr w \<and> changes (ix g ` {4..<155}) pb w \<and> sat Op_XOR (XOR_constraints g) w"
proof -
  let ?u = "alu_init g pb" and ?a1 = "arg1_val (inputs g)" and ?a2 = "arg2_val (inputs g)"
  let ?res = "val ?u ?a1 + val ?u ?a2" and ?w = "set_result g (val (alu_init g pb) (arg1_val (inputs g)) + val (alu_init g pb) (arg2_val (inputs g))) (alu_init g pb)"
  note p = alu_positions [OF assms(1)] and i = alu_init_changes [OF assms(1,2)]
  have c: "changes (ix g ` {}) ?w ?w" using set_result_facts(1) [OF assms(1) changesD(2) [OF i(1)], of ?res] by (simp add: changes_def)
  have "val ?u (out_isMemOp (results g)) = 0" using i(2) [OF p(7)] by simp
  note r = result_runs [OF assms(1,3) i(1) this c empty_subsetI]
  have "sat Op_XOR (XOR_constraints g) ?w"
    using r(2,3,4) r(5) [OF p(1)] r(5) [OF p(2)]
    by (auto intro!: holdsI simp: XOR_constraints_def pv_simps lv_simps alu_vars_def input_vars_def output_vars_def)
  then show ?thesis using r(1) by (simp add: XOR_generateWitness_def Let_def alu_lengths [OF assms(1)])
qed

text \<open>The common course of \<open>AND\<close> and \<open>OR\<close>, for a bit function \<open>f\<close>.\<close>

lemma weighted_runs:
  fixes op :: Opcode and pb :: Protoboard
  assumes wf: "alu_wf g" and inv: "pb_inv pb" and pre: "alu_pre g pb"
    and F: "\<And>w i. pv w (F i) = f (val w (unpackedArg1 (vars g) ! i)) (val w (unpackedArg2 (vars g) ! i))" "\<And>i. plain (F i)"
      "\<And>V i. unpackedArg1 (vars g) ! i \<in> V \<Longrightarrow> unpackedArg2 (vars g) ! i \<in> V \<Longrightarrow> cp_over V (F i)"
    and mul: "mul = var_times \<or> mul = var_prod"
  defines "u \<equiv> unpack_args op g pb"
  defines "w \<equiv> clear_words [opcodeResult (vars g), opcodeCarry (vars g)] (set_result g
    (weighted_value (\<lambda>i. f (val u (unpackedArg1 (vars g) ! i)) (val u (unpackedArg2 (vars g) ! i))) [0..<registerLength g]) u)"
  shows "changes (ix g ` {4..<155}) pb w"
    "sat op (standAlone_constraints op g @ [(op, cp_plus (weighted_poly F [0..<registerLength g]) (cp_var (out_result (results g))), nm)]
      @ zero_flag_constraints mul op g @ [isMemOp_zero op g]) w"
    "bits_of w (unpackedArg1 (vars g)) (num pb (arg1_val (inputs g)))" "bits_of w (unpackedArg2 (vars g)) (num pb (arg2_val (inputs g)))"
proof -
  let ?u1 = "unpackedArg1 (vars g)" and ?u2 = "unpackedArg2 (vars g)"
  let ?res = "weighted_value (\<lambda>i. f (val u (?u1 ! i)) (val u (?u2 ! i))) [0..<registerLength g]"
  note p = alu_positions [OF wf] and a = alu_arrays [OF wf] and l = alu_lengths [OF wf]
    and U = unpack_args_facts [OF wf inv, where op = op, folded u_def]
  note S = set_result_facts [OF wf changesD(2) [OF U(1)], of ?res]
  have C: "changes (ix g ` {43..<75}) (set_result g ?res u) w" unfolding w_def by (rule clear_words_positions(1) [OF wf changesD(2) [OF S(1)]])
  have "val u (out_isMemOp (results g)) = 0" using U(4) [OF p(7)] by simp
  note R = result_runs [OF wf pre U(1) this C]
  show "changes (ix g ` {4..<155}) pb w" using R(1) by simp
  have "changes (ix g ` ({4, 5, 10} \<union> {43..<75})) u w" using changes_trans [OF S(1) C] by (simp only: image_Un)
  note B = bits_of_changes [OF _ this wf]
  show b1: "bits_of w ?u1 (num pb (arg1_val (inputs g)))" by (rule B [OF U(2) a(1)]) auto
  show b2: "bits_of w ?u2 (num pb (arg2_val (inputs g)))" by (rule B [OF U(3) a(2)]) auto
  have same: "val w (?u1 ! i) = val u (?u1 ! i)" "val w (?u2 ! i) = val u (?u2 ! i)" if "i < 16" for i
    using b1 b2 U(2,3) that by (simp_all add: bits_of_def l)
  have as: "\<forall>v \<in> set (alu_vars g). assigned w v" using R(4) by simp
  have "holds w (cp_plus (weighted_poly F [0..<registerLength g]) (cp_var (out_result (results g))))"
  proof (rule holdsI)
    have "pack_sum 1 (map (\<lambda>i. pv w (F i)) [0..<16]) = ?res" unfolding weighted_value_eq l F(1)
      by (rule arg_cong [where f = "pack_sum 1"]) (simp add: same)
    then show "pv w (cp_plus (weighted_poly F [0..<registerLength g]) (cp_var (out_result (results g)))) = 0"
      using R(2) by (simp add: pv_simps weighted_poly_facts(1) l)
    have "cp_over {v. assigned w v} (F i)" if "i < 16" for i
      using as that l by (intro F(3)) (simp_all add: alu_vars_def scratch_vars_def word_arrays_def)
    then show "cp_over {v. assigned w v} (cp_plus (weighted_poly F [0..<registerLength g]) (cp_var (out_result (results g))))"
      using as by (intro cp_over_simps(5) weighted_poly_facts(3)) (simp_all add: l alu_vars_def output_vars_def)
  qed (simp add: weighted_poly_facts(2) F(2))
  then show "sat op (standAlone_constraints op g @ [(op, cp_plus (weighted_poly F [0..<registerLength g]) (cp_var (out_result (results g))), nm)]
      @ zero_flag_constraints mul op g @ [isMemOp_zero op g]) w"
    using standAlone_sat [OF wf b1 b2 as, of op] R(3) [OF _ mul, of op] by simp
qed

lemma AND_runs:
  assumes "alu_wf g" "pb_inv pb" "alu_pre g pb"
  shows "\<exists>w. AND_generateWitness g pb = Inr w \<and> changes (ix g ` {4..<155}) pb w \<and> sat Op_AND (AND_constraints g) w
    \<and> bits_of w (unpackedArg1 (vars g)) (num pb (arg1_val (inputs g))) \<and> bits_of w (unpackedArg2 (vars g)) (num pb (arg2_val (inputs g)))"
  using weighted_runs [OF assms, where F = "AND_bit g" and f = "(*)" and op = Op_AND and mul = var_prod]
  by (simp add: AND_generateWitness_def AND_constraints_def AND_bit_def Let_def guarded_def alu_lengths [OF assms(1)] REGISTER_LENGTH_def)

lemma OR_runs:
  assumes "alu_wf g" "pb_inv pb" "alu_pre g pb"
  shows "\<exists>w. OR_generateWitness g pb = Inr w \<and> changes (ix g ` {4..<155}) pb w \<and> sat Op_OR (OR_constraints g) w
    \<and> bits_of w (unpackedArg1 (vars g)) (num pb (arg1_val (inputs g))) \<and> bits_of w (unpackedArg2 (vars g)) (num pb (arg2_val (inputs g)))"
  using weighted_runs [OF assms, where F = "OR_bit g" and f = "\<lambda>a b. 1 + (1 + a) * (1 + b)" and op = Op_OR and mul = var_times]
  by (simp add: OR_generateWitness_def OR_constraints_def OR_bit_def Let_def guarded_def alu_lengths [OF assms(1)] REGISTER_LENGTH_def pv_simps lv_simps add.commute)

lemma NOT_runs:
  assumes "alu_wf g" "pb_inv pb" "alu_pre g pb"
  shows "\<exists>w. NOT_generateWitness g pb = Inr w \<and> changes (ix g ` {4..<155}) pb w \<and> sat Op_NOT (NOT_constraints g) w"
proof -
  let ?u = "alu_init g pb" let ?s = "set_result g (allOnes (registerLength g) + val ?u (arg1_val (inputs g))) ?u"
  let ?w = "clear_words [unpackedArg1 (vars g), unpackedArg2 (vars g), opcodeResult (vars g), opcodeCarry (vars g)] ?s"
  note p = alu_positions [OF assms(1)] and i = alu_init_changes [OF assms(1,2)]
  have c: "changes (ix g ` {11..<75}) ?s ?w"
    by (rule clear_words_positions(2) [OF assms(1) changesD(2) [OF set_result_facts(1) [OF assms(1) changesD(2) [OF i(1)]]]])
  have "val ?u (out_isMemOp (results g)) = 0" using i(2) [OF p(7)] by simp
  note r = result_runs [OF assms(1,3) i(1) this c]
  have "sat Op_NOT (NOT_constraints g) ?w"
    using r(2-4) r(5) [OF _ p(1)]
    by (auto intro!: holdsI simp: NOT_constraints_def pv_simps lv_simps alu_vars_def input_vars_def output_vars_def)
  then show ?thesis using r(1) by (simp add: NOT_generateWitness_def Let_def)
qed

lemma alu_pre_tagged: "pb_inv pb \<Longrightarrow> alu_pre g pb \<Longrightarrow> alu_pre g (add_tagged cs pb)"
  by (rule alu_pre_board) (simp_all add: add_tagged_facts)

interpretation alu_xor: alu_component Op_XOR XOR_constraints XOR_generateWitness alu_pre "{4..<155}"
  by unfold_locales (simp_all add: XOR_runs alu_pre_tagged)

interpretation alu_and: alu_component Op_AND AND_constraints AND_generateWitness alu_pre "{4..<155}"
  by unfold_locales (use AND_runs in blast, rule alu_pre_tagged)

interpretation alu_or: alu_component Op_OR OR_constraints OR_generateWitness alu_pre "{4..<155}"
  by unfold_locales (use OR_runs in blast, rule alu_pre_tagged)

interpretation alu_not: alu_component Op_NOT NOT_constraints NOT_generateWitness alu_pre "{4..<155}"
  by unfold_locales (simp_all add: NOT_runs alu_pre_tagged)

section \<open>Correctness\<close>



end
