(* ===== verification/AluArith.thy ===== *)
theory AluArith
  imports AluLogic
begin

text \<open>
  Addition and subtraction, \<open>ALU_ADD_Gadget\<close> and \<open>ALU_SUB_Gadget\<close> of \<open>ALU.cpp\<close>. Both are built
  from \<open>Addition_Gadget\<close>; the subtraction adds its result to the second argument and demands the
  first one as the sum.
\<close>

section \<open>The gadgets\<close>

definition add_g :: "Opcode \<Rightarrow> ALU_Component_Gadget \<Rightarrow> Addition_Gadget" where
  "add_g op g = \<lparr>add_input1 = unpackedArg1 (vars g), add_input2 = unpackedArg2 (vars g), add_result = opcodeResult (vars g),
     add_carry = opcodeCarry (vars g), add_flag = out_flag (results g), add_opcode = op\<rparr>"

text \<open>The last constraint of \<open>ALU_ADD_Gadget\<close> is added for the opcode \<open>SUB\<close>.\<close>

definition ADD_constraints :: "ALU_Component_Gadget \<Rightarrow> tagged list" where
  "ADD_constraints g = standAlone_constraints Op_ADD g @ tag Op_ADD (Addition_constraints (add_g Op_ADD g))
     @ tag Op_ADD (CompressionPacking_constraints (packer Op_ADD (opcodeResult (vars g)) (out_result (results g))))
     @ [isMemOp_zero Op_SUB g]"

definition ADD_generateWitness :: "ALU_Component_Gadget \<Rightarrow> Protoboard \<Rightarrow> Protoboard result" where
  "ADD_generateWitness g pb = res_bind (Addition_generateWitness (add_g Op_ADD g) (unpack_args Op_ADD g pb))
     (\<lambda>pb. Inr (CompressionPacking_generateWitness (packer Op_ADD (opcodeResult (vars g)) (out_result (results g))) pb))"

definition SUB_constraints :: "ALU_Component_Gadget \<Rightarrow> tagged list" where
  "SUB_constraints g = (if standAlone g then tag Op_SUB (CompressionPacking_constraints (unpacker Op_SUB (unpackedArg1 (vars g)) (arg2_val (inputs g))))
       @ tag Op_SUB (CompressionPacking_constraints (unpacker Op_SUB (unpackedArg2 (vars g)) (out_result (results g)))) else [])
     @ tag Op_SUB (Addition_constraints (add_g Op_SUB g))
     @ tag Op_SUB (CompressionPacking_constraints (packer Op_SUB (opcodeResult (vars g)) (arg1_val (inputs g))))
     @ [isMemOp_zero Op_SUB g]"

definition SUB_generateWitness :: "ALU_Component_Gadget \<Rightarrow> Protoboard \<Rightarrow> Protoboard result" where
  "SUB_generateWitness g pb = (let
     pb = CompressionPacking_generateWitness (unpacker Op_SUB (unpackedArg1 (vars g)) (arg2_val (inputs g))) (alu_init g pb);
     operand1 = mapFieldElementToInteger 0 (registerLength g) (val pb (arg1_val (inputs g)));
     operand2 = mapFieldElementToInteger 0 (registerLength g) (val pb (arg2_val (inputs g)));
     pb = set_val (out_result (results g)) (mapIntegerToFieldElement 0 (registerLength g) (operand1 - operand2)) pb;
     pb = CompressionPacking_generateWitness (unpacker Op_SUB (unpackedArg2 (vars g)) (out_result (results g))) pb
     in Addition_generateWitness (add_g Op_SUB g) pb)"

section \<open>The adder inside a component\<close>

lemma add_g_wf:
  assumes "alu_wf g"
  shows "add_wf (add_g op g)" "add_written (add_g op g) = ix g ` ({43..<59} \<union> {60..<75} \<union> {4})"
proof -
  note a = alu_arrays [OF assms] and l = alu_lengths [OF assms] and p = alu_positions [OF assms]
  have outs: "map var_index (add_outs (add_g op g)) = map (ix g) ([43..<59] @ [60..<75] @ [4])"
    using positions_map [OF a(3)] positions_map [OF a(4)] p(5) by (simp add: add_outs_def add_g_def map_tl)
  then have set: "var_index ` set (add_outs (add_g op g)) = ix g ` ({43..<59} \<union> {60..<75} \<union> {4})"
    by (metis image_set set_append set_upt list.set(1,2) sup_assoc)
  show "add_written (add_g op g) = ix g ` ({43..<59} \<union> {60..<75} \<union> {4})" using set by (simp add: add_written_def)
  have "distinct (map var_index (add_outs (add_g op g)))" unfolding outs by (subst ix_distinct [OF assms]) auto
  moreover have "var_index ` (set (unpackedArg1 (vars g)) \<union> set (unpackedArg2 (vars g))) = ix g ` ({11..<27} \<union> {27..<43})"
    using arr_set [OF a(1)] arr_set [OF a(2)] by (simp add: image_Un)
  moreover have "ix g ` ({11..<27} \<union> {27..<43}) \<inter> ix g ` ({43..<59} \<union> {60..<75} \<union> {4}) = {}" by (rule ix_disjoint [OF assms]) auto
  ultimately show "add_wf (add_g op g)" unfolding add_wf_def set by (simp add: add_g_def l)
qed

lemma adder_sound:
  assumes "alu_wf g" "pb_inv pb" "booleans pb (unpackedArg1 (vars g))" "booleans pb (unpackedArg2 (vars g))" "\<forall>(p, nm) \<in> set (Addition_constraints (add_g op g)). holds pb p"
  shows "bnum pb (opcodeResult (vars g)) + 2 ^ 16 * of_bool (bit_of pb (out_flag (results g))) = bnum pb (unpackedArg1 (vars g)) + bnum pb (unpackedArg2 (vars g))"
    "booleans pb (opcodeResult (vars g))" "boolean pb (out_flag (results g))"
proof -
  have "\<forall>v \<in> set (add_input1 (add_g op g)) \<union> set (add_input2 (add_g op g)). boolean pb v" using assms(3,4) by (simp add: booleans_def add_g_def ball_Un)
  note s = addition_gadget_correct_facts(1) [OF assms(2) add_g_wf(1) [OF assms(1)] this assms(5)]
  show "bnum pb (opcodeResult (vars g)) + 2 ^ 16 * of_bool (bit_of pb (out_flag (results g))) = bnum pb (unpackedArg1 (vars g)) + bnum pb (unpackedArg2 (vars g))"
    using s [THEN conjunct1] by (simp add: bnum_def add_g_def alu_lengths [OF assms(1)])
  show "booleans pb (opcodeResult (vars g))" "boolean pb (out_flag (results g))" using s [THEN conjunct2] by (simp_all add: booleans_def add_g_def)
qed

lemma adder_runs:
  fixes op :: Opcode
  assumes "alu_wf g" "pb_inv u" "bits_of u (unpackedArg1 (vars g)) n1" "bits_of u (unpackedArg2 (vars g)) n2"
    "\<forall>v \<in> set (unpackedArg1 (vars g)) \<union> set (unpackedArg2 (vars g)). assigned u v"
  defines "w \<equiv> Addition_witness (add_g op g) u"
  shows "Addition_generateWitness (add_g op g) u = Inr w" "changes (ix g ` ({43..<59} \<union> {60..<75} \<union> {4})) u w"
    "\<forall>(p, nm) \<in> set (Addition_constraints (add_g op g)). holds w p" "bits_of w (unpackedArg1 (vars g)) n1" "bits_of w (unpackedArg2 (vars g)) n2"
proof -
  note a = alu_arrays [OF assms(1)] and wf = add_g_wf [OF assms(1), of op]
  have pre: "add_pre (add_g op g) u" using assms(5) bits_of_booleans [OF assms(3)] bits_of_booleans [OF assms(4)]
    by (auto simp: add_pre_def add_g_def booleans_def)
  show "Addition_generateWitness (add_g op g) u = Inr w" by (simp add: Addition_generateWitness_def add_wf_sizes [OF wf(1)] w_def)
  show c: "changes (ix g ` ({43..<59} \<union> {60..<75} \<union> {4})) u w" unfolding w_def wf(2) [symmetric] by (rule changes_writes [OF add_writes [OF wf(1)] assms(2)])
  show "\<forall>(p, nm) \<in> set (Addition_constraints (add_g op g)). holds w p" using add_complete [OF wf(1) assms(2) pre] by (auto simp: w_def)
  show "bits_of w (unpackedArg1 (vars g)) n1" by (rule bits_of_changes [OF assms(3) c assms(1) a(1)]) auto
  show "bits_of w (unpackedArg2 (vars g)) n2" by (rule bits_of_changes [OF assms(4) c assms(1) a(2)]) auto
qed

text \<open>The adder's constraints do not mention the arguments, the packed result or the outputs for the memory.\<close>

lemma adder_frame:
  assumes "alu_wf g" "changes (ix g ` K) u w" "K \<subseteq> {..<155} - ({4} \<union> {11..<75})" "\<forall>(p, nm) \<in> set (Addition_constraints (add_g op g)). holds u p"
  shows "\<forall>(p, nm) \<in> set (Addition_constraints (add_g op g)). holds w p"
proof -
  note a = alu_arrays [OF assms(1)] and wf = add_g_wf [OF assms(1), of op]
  have "holds w p" if "(p, nm) \<in> set (Addition_constraints (add_g op g))" for p nm
  proof (rule holds_changes [OF assms(2) addition_constraints_plain [OF that]])
    have "var_index ` cp_vars p \<subseteq> var_index ` set (unpackedArg1 (vars g)) \<union> var_index ` set (unpackedArg2 (vars g)) \<union> add_written (add_g op g)"
      using addition_vars [OF wf(1) that] by (auto simp: add_written_def add_g_def)
    also have "\<dots> \<subseteq> ix g ` ({4} \<union> {11..<75})" unfolding arr_set [OF a(1)] arr_set [OF a(2)] wf(2) by auto
    finally have sub: "var_index ` cp_vars p \<subseteq> ix g ` ({4} \<union> {11..<75})" .
    have "ix g ` ({4} \<union> {11..<75}) \<inter> ix g ` K = {}" by (rule ix_disjoint [OF assms(1)]) (use assms(3) in auto)
    then show "var_index ` cp_vars p \<inter> ix g ` K = {}" using sub by blast
    show "holds u p" using assms(4) that by blast
  qed
  then show ?thesis by blast
qed

section \<open>Addition\<close>

lemma ADD_sound:
  assumes "alu_wf g" "pb_inv pb" "sat Op_ADD (ADD_constraints g) pb" "booleans pb (unpackedArg1 (vars g))" "booleans pb (unpackedArg2 (vars g))"
  shows "num pb (out_result (results g)) + 2 ^ 16 * of_bool (bit_of pb (out_flag (results g))) = bnum pb (unpackedArg1 (vars g)) + bnum pb (unpackedArg2 (vars g))"
    "boolean pb (out_flag (results g))" "num pb (out_result (results g)) < 2 ^ 16"
proof -
  note l = alu_lengths [OF assms(1)]
  have h: "\<forall>(p, nm) \<in> set (Addition_constraints (add_g Op_ADD g)). holds pb p"
    "\<forall>(p, nm) \<in> set (CompressionPacking_constraints (packer Op_ADD (opcodeResult (vars g)) (out_result (results g)))). holds pb p"
    using assms(3) by (simp_all add: ADD_constraints_def)
  note s = adder_sound [OF assms(1,2,4,5) h(1)]
  have "val pb (out_result (results g)) = fe (bnum pb (opcodeResult (vars g)))"
    using packer_constraints(1) [OF l(3) h(2)] pack_bnum [OF s(2)] l(3) by simp
  then have "num pb (out_result (results g)) = bnum pb (opcodeResult (vars g))"
    using bnum_less [of pb "opcodeResult (vars g)"] by (intro num_fe) (simp_all add: l(3))
  then show "num pb (out_result (results g)) + 2 ^ 16 * of_bool (bit_of pb (out_flag (results g))) = bnum pb (unpackedArg1 (vars g)) + bnum pb (unpackedArg2 (vars g))"
    "num pb (out_result (results g)) < 2 ^ 16"
    using s(1) bnum_less [of pb "opcodeResult (vars g)"] by (simp_all add: l)
  show "boolean pb (out_flag (results g))" by (rule s(3))
qed

lemma ADD_runs:
  assumes "alu_wf g" "pb_inv pb" "alu_pre g pb"
  shows "\<exists>w. ADD_generateWitness g pb = Inr w \<and> changes (ix g ` {4..<155}) pb w \<and> sat Op_ADD (ADD_constraints g) w
    \<and> bits_of w (unpackedArg1 (vars g)) (num pb (arg1_val (inputs g))) \<and> bits_of w (unpackedArg2 (vars g)) (num pb (arg2_val (inputs g)))"
proof -
  note p = alu_positions [OF assms(1)] and a = alu_arrays [OF assms(1)] and l = alu_lengths [OF assms(1)]
  define u where "u = unpack_args Op_ADD g pb"
  define x where "x = Addition_witness (add_g Op_ADD g) u"
  define w where "w = CompressionPacking_generateWitness (packer Op_ADD (opcodeResult (vars g)) (out_result (results g))) x"
  note U = unpack_args_facts [OF assms(1,2), where op = Op_ADD, folded u_def]
  have as: "\<forall>v \<in> set (unpackedArg1 (vars g)) \<union> set (unpackedArg2 (vars g)). assigned u v"
    using arr_assigned [OF U(1) a(1)] arr_assigned [OF U(1) a(2)] by auto
  note X = adder_runs [OF assms(1) changesD(2) [OF U(1)] U(2,3) as, where op = Op_ADD, folded x_def]
  have "5 \<notin> {43..<43 + 16 :: nat}" by simp
  note W = packer_facts [OF assms(1) a(3) _ p(6) _ this changesD(2) [OF X(2)], where op = Op_ADD, folded w_def, simplified]
  have c5: "changes (ix g ` {5}) x w" using W(1) by simp
  have c: "changes (ix g ` {4..<155}) pb w" by (rule changes_join [OF changes_join [OF U(1) X(2) refl] c5]) auto
  note all = all_assigned [OF c assms(1,3)]
  have b: "bits_of w (unpackedArg1 (vars g)) (num pb (arg1_val (inputs g)))" "bits_of w (unpackedArg2 (vars g)) (num pb (arg2_val (inputs g)))"
    using bits_of_changes [OF X(4) c5 assms(1) a(1)] bits_of_changes [OF X(5) c5 assms(1) a(2)] by simp_all
  have same: "map (val w) (opcodeResult (vars g)) = map (val x) (opcodeResult (vars g))"
    by (rule nth_equalityI) (simp_all add: l changes_val [OF c5 assms(1) _ arr_index [OF a(3)]])
  have "\<forall>(p, nm) \<in> set (CompressionPacking_constraints (packer Op_ADD (opcodeResult (vars g)) (out_result (results g)))). holds w p"
  proof (rule packer_constraints(2) [OF l(3)])
    show "val w (out_result (results g)) = pack_sum 1 (map (val w) (opcodeResult (vars g)))" unfolding same by (rule W(2))
  qed (use all in \<open>simp_all add: alu_vars_members\<close>)
  moreover have "\<forall>(p, nm) \<in> set (Addition_constraints (add_g Op_ADD g)). holds w p" by (rule adder_frame [OF assms(1) c5 _ X(3)]) auto
  ultimately have "sat Op_ADD (ADD_constraints g) w" using standAlone_sat [OF assms(1) b all, of Op_ADD]
    by (simp add: ADD_constraints_def isMemOp_zero_def)
  moreover have "ADD_generateWitness g pb = Inr w" using X(1) by (simp add: ADD_generateWitness_def w_def u_def)
  ultimately show ?thesis using b c by blast
qed

section \<open>Subtraction\<close>

definition minus16 :: "nat \<Rightarrow> nat \<Rightarrow> nat" where
  "minus16 a b = (a + 2 ^ 16 - b) mod 2 ^ 16"

lemma sum_minus16:
  assumes "a < 2 ^ 16" "b < 2 ^ 16" "a + 2 ^ 16 * of_bool f = b + r" "r < 2 ^ 16"
  shows "r = minus16 a b" "f \<longleftrightarrow> a < b"
  using assms by (cases f; simp add: minus16_def; linarith?)+

lemma minus16_sum: "a < 2 ^ 16 \<Longrightarrow> b < 2 ^ 16 \<Longrightarrow> (b + minus16 a b) mod 2 ^ 16 = a"
  by (simp add: minus16_def mod_add_right_eq)

lemma unat_map_fe: "n < 64 \<Longrightarrow> unat (mapFieldElementToInteger 0 n e) = take_bit n (unat (element e))"
  by (simp add: mapFieldElementToInteger_def and_bitmask unsigned_take_bit_eq)

lemma map_int_fe: "n < 64 \<Longrightarrow> mapIntegerToFieldElement 0 n w = fe (take_bit n (unat w))"
  by (simp add: mapIntegerToFieldElement_def and_bitmask fe_def flip: unsigned_take_bit_eq)

lemma take_bit_diff:
  fixes v w :: "64 word"
  assumes "unat v < 2 ^ 16" "unat w < 2 ^ 16"
  shows "take_bit 16 (unat (v - w)) = minus16 (unat v) (unat w)"
proof -
  have "int (take_bit 16 (unat (v - w))) = uint (v - w) mod 2 ^ 16" by (simp add: take_bit_eq_mod zmod_int)
  also have "uint (v - w) = (uint v - uint w) mod 2 ^ 64" using uint_word_ariths(2) [of v w] by simp
  also have "(uint v - uint w) mod 2 ^ 64 mod 2 ^ 16 = take_bit 16 (uint v - uint w)" by (simp add: take_bit_eq_mod mod_mod_cancel)
  also have "\<dots> = int (minus16 (unat v) (unat w))"
    using assms mod_add_self2 [of "uint v - uint w" "2 ^ 16"] by (simp add: minus16_def take_bit_eq_mod zmod_int of_nat_diff add_diff_eq diff_add_eq)
  finally show ?thesis by simp
qed

lemma SUB_sound:
  assumes "alu_wf g" "pb_inv pb" "sat Op_SUB (SUB_constraints g) pb"
    "bits_of pb (unpackedArg1 (vars g)) (num pb (arg2_val (inputs g)))" "bits_of pb (unpackedArg2 (vars g)) (num pb (out_result (results g)))"
    "num pb (arg2_val (inputs g)) < 2 ^ 16" "num pb (out_result (results g)) < 2 ^ 16"
  shows "num pb (out_result (results g)) = minus16 (num pb (arg1_val (inputs g))) (num pb (arg2_val (inputs g)))"
    "val pb (out_flag (results g)) = (if num pb (arg1_val (inputs g)) < num pb (arg2_val (inputs g)) then 1 else 0)" "val pb (out_isMemOp (results g)) = 0"
proof -
  note l = alu_lengths [OF assms(1)]
  have h: "\<forall>(p, nm) \<in> set (Addition_constraints (add_g Op_SUB g)). holds pb p"
    "\<forall>(p, nm) \<in> set (CompressionPacking_constraints (packer Op_SUB (opcodeResult (vars g)) (arg1_val (inputs g)))). holds pb p"
    "holds pb (cp_var (out_isMemOp (results g)))"
    using assms(3) by (simp_all add: SUB_constraints_def isMemOp_zero_def)
  note s = adder_sound [OF assms(1,2) bits_of_booleans [OF assms(4)] bits_of_booleans [OF assms(5)] h(1)]
  have "val pb (arg1_val (inputs g)) = fe (bnum pb (opcodeResult (vars g)))"
    using packer_constraints(1) [OF l(3) h(2)] pack_bnum [OF s(2)] l(3) by simp
  then have n: "num pb (arg1_val (inputs g)) = bnum pb (opcodeResult (vars g))" "num pb (arg1_val (inputs g)) < 2 ^ 16"
    using bnum_less [of pb "opcodeResult (vars g)"] num_fe [of pb "arg1_val (inputs g)"] by (simp_all add: l(3))
  have "num pb (arg1_val (inputs g)) + 2 ^ 16 * of_bool (bit_of pb (out_flag (results g))) = num pb (arg2_val (inputs g)) + num pb (out_result (results g))"
    using s(1) assms(4-7) by (simp add: n(1) bits_of_iff l take_bit_nat_eq_self)
  note r = sum_minus16 [OF n(2) assms(6) this assms(7)]
  show "num pb (out_result (results g)) = minus16 (num pb (arg1_val (inputs g))) (num pb (arg2_val (inputs g)))" by (rule r(1))
  show "val pb (out_flag (results g)) = (if num pb (arg1_val (inputs g)) < num pb (arg2_val (inputs g)) then 1 else 0)"
    using r(2) val_boolean [OF s(3)] by simp
  show "val pb (out_isMemOp (results g)) = 0" using holds_zero [OF _ h(3)] by (simp add: pv_simps)
qed

definition sub_pre :: "ALU_Component_Gadget \<Rightarrow> Protoboard \<Rightarrow> bool" where
  "sub_pre g pb \<longleftrightarrow> alu_pre g pb \<and> num pb (arg1_val (inputs g)) < 2 ^ 16"

lemma SUB_runs:
  assumes "alu_wf g" "pb_inv pb" "sub_pre g pb"
  shows "\<exists>w. SUB_generateWitness g pb = Inr w \<and> changes (ix g ` {4..<155}) pb w \<and> sat Op_SUB (SUB_constraints g) w
    \<and> bits_of w (unpackedArg1 (vars g)) (num pb (arg2_val (inputs g))) \<and> bits_of w (unpackedArg2 (vars g)) (num w (out_result (results g)))
    \<and> num w (out_result (results g)) = minus16 (num pb (arg1_val (inputs g))) (take_bit 16 (num pb (arg2_val (inputs g))))"
proof -
  note p = alu_positions [OF assms(1)] and a = alu_arrays [OF assms(1)] and l = alu_lengths [OF assms(1)] and i = alu_init_changes [OF assms(1,2)]
  let ?a1 = "arg1_val (inputs g)" and ?a2 = "arg2_val (inputs g)" and ?r = "out_result (results g)"
  let ?n = "minus16 (num pb ?a1) (take_bit 16 (num pb ?a2))"
  define u where "u = CompressionPacking_generateWitness (unpacker Op_SUB (unpackedArg1 (vars g)) ?a2) (alu_init g pb)"
  define v where "v = set_val ?r (fe ?n) u"
  define x where "x = CompressionPacking_generateWitness (unpacker Op_SUB (unpackedArg2 (vars g)) ?r) v"
  define w where "w = Addition_witness (add_g Op_SUB g) x"
  have pos: "1 \<notin> {11..<11 + 16 :: nat}" "5 \<notin> {27..<27 + 16 :: nat}" by auto
  note U = unpacker_facts [OF assms(1) a(1) _ p(2) _ pos(1) changesD(2) [OF i(1)], where op = Op_SUB, folded u_def, simplified]
  have V: "changes (ix g ` {5}) u v" unfolding v_def by (rule changes_position [OF assms(1) changesD(2) [OF U(1)] p(6)])
  note X = unpacker_facts [OF assms(1) a(2) _ p(6) _ pos(2) changesD(2) [OF V], where op = Op_SUB, folded x_def, simplified]
  have c: "changes (ix g ` {5..<155}) pb x" by (rule changes_join [OF changes_join [OF changes_join [OF i(1) U(1) refl] V refl] X(1)]) auto
  have as: "\<forall>v \<in> set (unpackedArg1 (vars g)) \<union> set (unpackedArg2 (vars g)). assigned x v"
    using arr_assigned [OF c a(1)] arr_assigned [OF c a(2)] by auto
  have n2: "num (alu_init g pb) ?a2 = num pb ?a2" using changes_val [OF i(1) assms(1) _ p(2)] by (simp add: num_def)
  have "?n < 2 ^ 16" by (simp add: minus16_def)
  then have nv: "num v ?r = ?n" using changesD(2) [OF U(1)] by (intro num_fe) (simp_all add: v_def)
  have b1: "bits_of x (unpackedArg1 (vars g)) (num pb ?a2)" unfolding n2 [symmetric]
    using bits_of_changes [OF bits_of_changes [OF U(2) V assms(1) a(1)] X(1) assms(1) a(1)] by simp
  note W = adder_runs [OF assms(1) changesD(2) [OF X(1)] b1 X(2) as, where op = Op_SUB, folded w_def]
  have c': "changes (ix g ` {4..<155}) pb w" by (rule changes_join [OF c W(2)]) auto
  note all = all_assigned [OF c' assms(1)]
  have nw: "num w ?r = ?n" using changes_val [OF W(2) assms(1) _ p(6)] changes_val [OF X(1) assms(1) _ p(6)] nv by (simp add: num_def)
  have g: "SUB_generateWitness g pb = Inr w"
  proof -
    have "val u ?a1 = val pb ?a1" "val u ?a2 = val pb ?a2"
      using changes_val [OF U(1) assms(1) _ p(1)] changes_val [OF i(1) assms(1) _ p(1)] changes_val [OF U(1) assms(1) _ p(2)] changes_val [OF i(1) assms(1) _ p(2)] by simp_all
    moreover have "take_bit 16 (num pb ?a1) = num pb ?a1" using assms(3) by (simp add: sub_pre_def take_bit_nat_eq_self)
    moreover have "take_bit 16 (unat (mapFieldElementToInteger 0 16 e - mapFieldElementToInteger 0 16 f)) = minus16 (take_bit 16 (unat (element e))) (take_bit 16 (unat (element f)))" for e f
      using take_bit_diff [of "mapFieldElementToInteger 0 16 e" "mapFieldElementToInteger 0 16 f"]
        take_bit_nat_less_exp [of 16 "unat (element e)"] take_bit_nat_less_exp [of 16 "unat (element f)"] by (simp add: unat_map_fe)
    ultimately have "mapIntegerToFieldElement 0 16 (mapFieldElementToInteger 0 16 (val u ?a1) - mapFieldElementToInteger 0 16 (val u ?a2)) = fe ?n"
      by (simp add: map_int_fe num_def)
    then show ?thesis using W(1) unfolding SUB_generateWitness_def l Let_def u_def [symmetric] by (simp add: v_def [symmetric] x_def [symmetric])
  qed
  have n1: "num w ?a1 = num pb ?a1" using changes_val [OF c' assms(1) _ p(1)] by (simp add: num_def)
  note S = adder_sound [OF assms(1) changesD(2) [OF W(2)] bits_of_booleans [OF W(4)] bits_of_booleans [OF W(5)] W(3)]
  have "bnum w (opcodeResult (vars g)) = (bnum w (unpackedArg1 (vars g)) + bnum w (unpackedArg2 (vars g))) mod 2 ^ 16"
    using bnum_less [of w "opcodeResult (vars g)"] unfolding S(1) [symmetric] by (simp add: l)
  also have "\<dots> = num pb ?a1"
    using bits_of_bnum [OF W(4)] bits_of_bnum [OF W(5)] nv assms(3) minus16_sum [OF _ take_bit_nat_less_exp, of "num pb ?a1" "num pb ?a2"] \<open>?n < 2 ^ 16\<close>
    by (simp add: l sub_pre_def take_bit_nat_eq_self)
  finally have "val w ?a1 = pack_sum 1 (map (val w) (opcodeResult (vars g)))" using pack_bnum [OF S(2)] n1 by (simp add: l val_num)
  then have "\<forall>(p, nm) \<in> set (CompressionPacking_constraints (packer Op_SUB (opcodeResult (vars g)) ?a1)). holds w p"
    using all assms(3) by (intro packer_constraints(2) [OF l(3)]) (simp_all add: alu_vars_members sub_pre_def)
  moreover have "val w (out_isMemOp (results g)) = 0"
    using changes_val [OF W(2) assms(1) _ p(7)] changes_val [OF X(1) assms(1) _ p(7)] changes_val [OF V assms(1) _ p(7)]
      changes_val [OF U(1) assms(1) _ p(7)] i(2) [OF p(7)] by simp
  ultimately have "sat Op_SUB (SUB_constraints g) w" 
    using W(3) all assms(3) unpacker_constraints [of _ Op_SUB _ w] bits_of_booleans [OF W(4)] bits_of_booleans [OF W(5)] l
    by (auto intro!: holdsI simp: SUB_constraints_def isMemOp_zero_def sub_pre_def alu_vars_members pv_simps)
  then show ?thesis using g c' W(4,5) nv nw by auto
qed

lemma sub_pre_tagged: "pb_inv pb \<Longrightarrow> sub_pre g pb \<Longrightarrow> sub_pre g (add_tagged cs pb)"
  using alu_pre_tagged [of pb g cs] val_same [of "add_tagged cs pb" pb] by (simp add: sub_pre_def num_def add_tagged_facts)

interpretation alu_add: alu_component Op_ADD ADD_constraints ADD_generateWitness alu_pre "{4..<155}"
  by unfold_locales (use ADD_runs in blast, rule alu_pre_tagged)

interpretation alu_sub: alu_component Op_SUB SUB_constraints SUB_generateWitness sub_pre "{4..<155}"
  by unfold_locales (use SUB_runs in blast, rule sub_pre_tagged)

section \<open>Correctness\<close>



end
