(* ===== verification/AluCompare.thy ===== *)
theory AluCompare
  imports AluArith
begin

text \<open>
  The comparisons of \<open>ALU.cpp\<close>: \<open>ALU_CMPE_Gadget\<close> on the packed arguments, and \<open>ALU_CMPA_Gadget\<close>,
  \<open>ALU_CMPAE_Gadget\<close>, \<open>ALU_CMPG_Gadget\<close> and \<open>ALU_CMPGE_Gadget\<close>, which translate the three-valued
  outcome of \<open>GreaterEqual_Gadget\<close> into the flag.
\<close>

section \<open>The gadgets\<close>

text \<open>The first constraint of \<open>ALU_CMPE_Gadget\<close> is added for the opcode \<open>NOT\<close>.\<close>

definition CMPE_constraints :: "ALU_Component_Gadget \<Rightarrow> tagged list" where
  "CMPE_constraints g = (let
     sum = lc_plus (lc_var (arg1_val (inputs g))) (lc_var (arg2_val (inputs g)));
     f = out_flag (results g)
     in [(Op_NOT, cp_times (cp_lc sum) (cp_var f), ''flag * (arg1_val + arg2_val)= 0''),
         (Op_CMPE, cp_plus (cp_times (cp_lc sum) (cp_var (pInverse (vars g)))) (cp_lc (lc_plus (lc_var f) (lc_const 1))), ''(arg1_val + arg2_val) * invResult = 1 - flag''),
         isMemOp_zero Op_CMPE g])"

definition CMPE_generateWitness :: "ALU_Component_Gadget \<Rightarrow> Protoboard \<Rightarrow> Protoboard result" where
  "CMPE_generateWitness g pb = (let
     pb = alu_init g pb;
     arg1Val = val pb (arg1_val (inputs g));
     arg2Val = val pb (arg2_val (inputs g));
     pb = set_val (out_flag (results g)) (if arg1Val = arg2Val then 1 else 0) pb;
     pb = set_val (pInverse (vars g)) (if arg1Val = arg2Val then 1 else inverse (arg1Val + arg2Val)) pb
     in Inr (set_val (out_result (results g)) 0 pb))"

definition isGEQ :: "ALU_Component_Gadget \<Rightarrow> Variable" where
  "isGEQ g = opcodeAux2 (vars g) ! 0"

definition compareArgs :: "bool \<Rightarrow> Opcode \<Rightarrow> ALU_Component_Gadget \<Rightarrow> GreaterEqual_Gadget" where
  "compareArgs isSigned op g = \<lparr>ge_var1 = unpackedArg1 (vars g), ge_var2 = unpackedArg2 (vars g), ge_flags = opcodeAux2 (vars g),
     ge_flagGEQ = isGEQ g, ge_isSigned = isSigned, ge_opcode = op\<rparr>"

text \<open>\<open>isGEQ * (isGEQ + c) * q\<close>.\<close>

definition geq_term :: "ALU_Component_Gadget \<Rightarrow> FElem \<Rightarrow> FElem \<Rightarrow> CircuitPolynomial" where
  "geq_term g c q = cp_times (cp_times (cp_lc (lc_plus (lc_var (isGEQ g)) (lc_const c))) (cp_var (isGEQ g))) (cp_const q)"

text \<open>\<open>CMPA\<close> and \<open>CMPG\<close>; then \<open>CMPAE\<close> and \<open>CMPGE\<close>.\<close>

definition above_constraints :: "bool \<Rightarrow> Opcode \<Rightarrow> ALU_Component_Gadget \<Rightarrow> tagged list" where
  "above_constraints isSigned op g = standAlone_constraints op g @ tag op (GreaterEqual_constraints (compareArgs isSigned op g))
     @ [(op, cp_plus (geq_term g getGF2E_X (inverse (1 + getGF2E_X))) (cp_var (out_flag (results g))), ''flag=isGEQ*(isGEQ+g)*(1+g)^{-1}''),
        isMemOp_zero op g]"

definition above_equal_constraints :: "bool \<Rightarrow> Opcode \<Rightarrow> ALU_Component_Gadget \<Rightarrow> tagged list" where
  "above_equal_constraints isSigned op g = (let inv1 = inverse (1 + getGF2E_X); inv2 = inverse getGF2E_X * inv1 in
     standAlone_constraints op g @ tag op (GreaterEqual_constraints (compareArgs isSigned op g))
     @ [(op, cp_plus (cp_plus (geq_term g getGF2E_X inv1) (cp_var (out_flag (results g)))) (geq_term g 1 inv2),
          ''flag=isGEQ*(isGEQ+g)*(1+g)^{-1}+isGEQ*(isGEQ+1)*(g(1+g))^{-1}''),
        isMemOp_zero op g])"

definition set_flag :: "ALU_Component_Gadget \<Rightarrow> (FElem \<Rightarrow> bool) \<Rightarrow> Protoboard \<Rightarrow> Protoboard" where
  "set_flag g P pb = (let pb = set_val (out_flag (results g)) (if P (val pb (isGEQ g)) then 1 else 0) pb
     in set_val (out_result (results g)) 0 pb)"

definition above_generateWitness :: "bool \<Rightarrow> Opcode \<Rightarrow> ALU_Component_Gadget \<Rightarrow> Protoboard \<Rightarrow> Protoboard result" where
  "above_generateWitness isSigned op g pb = res_bind (GreaterEqual_generateWitness (compareArgs isSigned op g) (unpack_args op g pb))
     (\<lambda>pb. Inr (set_flag g (\<lambda>flag. 1 = flag) pb))"

definition above_equal_generateWitness :: "bool \<Rightarrow> Opcode \<Rightarrow> ALU_Component_Gadget \<Rightarrow> Protoboard \<Rightarrow> Protoboard result" where
  "above_equal_generateWitness isSigned op g pb = res_bind (GreaterEqual_generateWitness (compareArgs isSigned op g) (unpack_args op g pb))
     (\<lambda>pb. Inr (set_flag g (\<lambda>flag. 1 = flag \<or> getGF2E_X = flag) pb))"

definition CMPA_constraints :: "ALU_Component_Gadget \<Rightarrow> tagged list" where "CMPA_constraints = above_constraints False Op_CMPA"
definition CMPG_constraints :: "ALU_Component_Gadget \<Rightarrow> tagged list" where "CMPG_constraints = above_constraints True Op_CMPG"
definition CMPAE_constraints :: "ALU_Component_Gadget \<Rightarrow> tagged list" where "CMPAE_constraints = above_equal_constraints False Op_CMPAE"
definition CMPGE_constraints :: "ALU_Component_Gadget \<Rightarrow> tagged list" where "CMPGE_constraints = above_equal_constraints True Op_CMPGE"

definition CMPA_generateWitness :: "ALU_Component_Gadget \<Rightarrow> Protoboard \<Rightarrow> Protoboard result" where
  "CMPA_generateWitness = above_generateWitness False Op_CMPA"
definition CMPG_generateWitness :: "ALU_Component_Gadget \<Rightarrow> Protoboard \<Rightarrow> Protoboard result" where
  "CMPG_generateWitness = above_generateWitness True Op_CMPG"
definition CMPAE_generateWitness :: "ALU_Component_Gadget \<Rightarrow> Protoboard \<Rightarrow> Protoboard result" where
  "CMPAE_generateWitness = above_equal_generateWitness False Op_CMPAE"
definition CMPGE_generateWitness :: "ALU_Component_Gadget \<Rightarrow> Protoboard \<Rightarrow> Protoboard result" where
  "CMPGE_generateWitness = above_equal_generateWitness True Op_CMPGE"

section \<open>The comparison inside a component\<close>

definition sint16 :: "nat \<Rightarrow> int" where
  "sint16 n = (if n < 2 ^ 15 then int n else int n - 2 ^ 16)"

definition read16 :: "bool \<Rightarrow> nat \<Rightarrow> int" where
  "read16 isSigned n = (if isSigned then sint16 n else int n)"

lemma word_value_read16: "length bs = 16 \<Longrightarrow> word_value s (bs :: bool list) = read16 s (bits_nat bs)"
proof (cases s)
  case True
  assume l: "length bs = 16"
  then have "bs \<noteq> []" by auto
  then have e: "bits_nat bs = bits_nat (butlast bs) + 2 ^ 15 * of_bool (last bs)" 
    using bits_nat_snoc [of "butlast bs" "last bs"] l by simp
  have "bits_nat (butlast bs) < 2 ^ 15" using bits_nat_less [of "butlast bs"] l by simp
  then show ?thesis using True l by (cases "last bs") (simp_all add: word_value_def read16_def sint16_def e)
qed (simp add: word_value_def read16_def)

lemma compareArgs_wf:
  assumes "alu_wf g"
  shows "ge_wf (compareArgs s op g)" "ge_written (compareArgs s op g) = ix g ` {59..<75 - of_bool s}"
    "0 \<le> ge_first (compareArgs s op g)"
proof -
  note a = alu_arrays [OF assms] and l = alu_lengths [OF assms]
  have ne: "opcodeAux2 (vars g) \<noteq> []" using l(4) by auto
  have fl: "isGEQ g # tl (opcodeAux2 (vars g)) = opcodeAux2 (vars g)" using ne by (cases "opcodeAux2 (vars g)") (simp_all add: isGEQ_def)
  have first: "nat (ge_first (compareArgs s op g)) = 15 - of_bool s" "0 < ge_first (compareArgs s op g)" by (simp_all add: ge_first_def compareArgs_def l)
  have "ix g ` ({11..<27} \<union> {27..<43}) \<inter> ix g ` {59..<59 + 16} = {}" by (rule ix_disjoint [OF assms]) auto
  moreover have "var_index ` (set (unpackedArg1 (vars g)) \<union> set (unpackedArg2 (vars g))) = ix g ` ({11..<27} \<union> {27..<43})"
    using arr_set [OF a(1)] arr_set [OF a(2)] by (simp add: image_Un)
  moreover have "distinct (map var_index (opcodeAux2 (vars g)))" by (rule arr_distinct [OF assms a(4)]) simp
  ultimately show "ge_wf (compareArgs s op g)" using first(2) fl arr_set [OF a(4)]
    unfolding ge_wf_def by (simp add: compareArgs_def l del: list.map list.set)
  have "ge_currFlag (compareArgs s op g) i = opcodeAux2 (vars g) ! i" for i by (simp add: ge_currFlag_def compareArgs_def isGEQ_def)
  then show "ge_written (compareArgs s op g) = ix g ` {59..<75 - of_bool s}"
  proof -
    assume c: "\<And>i. ge_currFlag (compareArgs s op g) i = opcodeAux2 (vars g) ! i"
    have "ge_written (compareArgs s op g) = (\<lambda>i. ix g (59 + i)) ` {..<16 - of_bool s}" unfolding ge_written_def first(1) c
      by (rule image_cong) (use arr_index [OF a(4)] in \<open>cases s; auto\<close>)+
    also have "\<dots> = ix g ` ((+) 59 ` {0..<16 - of_bool s})" unfolding image_image lessThan_atLeast0 ..
    also have "(+) 59 ` {0..<16 - of_bool s} = {59..<75 - of_bool s :: nat}" by (cases s) simp_all
    finally show ?thesis .
  qed
  show "0 \<le> ge_first (compareArgs s op g)" using first(2) by simp
qed

lemma geq_outcome:
  assumes "x = 0 \<or> x = 1 \<or> x = getGF2E_X"
  shows "(x + getGF2E_X) * x * inverse (1 + getGF2E_X) = (if x = 1 then 1 else 0)"
    "(x + 1) * x * (inverse getGF2E_X * inverse (1 + getGF2E_X)) = (if x = getGF2E_X then 1 else 0)"
proof -
  have n: "1 + getGF2E_X \<noteq> 0" "getGF2E_X \<noteq> 0" "getGF2E_X \<noteq> 1" using g_neq by (simp_all add: add.commute)
  show "(x + getGF2E_X) * x * inverse (1 + getGF2E_X) = (if x = 1 then 1 else 0)" using assms n by auto
  have "(getGF2E_X + 1) * getGF2E_X * (inverse getGF2E_X * inverse (1 + getGF2E_X)) = (1 :: FElem)"
  proof -
    have "(getGF2E_X + 1) * getGF2E_X * (inverse getGF2E_X * inverse (1 + getGF2E_X)) = ((1 + getGF2E_X) * inverse (1 + getGF2E_X)) * (getGF2E_X * inverse getGF2E_X)"
      by (simp only: ac_simps)
    then show ?thesis using n by simp
  qed
  then show "(x + 1) * x * (inverse getGF2E_X * inverse (1 + getGF2E_X)) = (if x = getGF2E_X then 1 else 0)" using assms n by auto
qed

lemma pv_geq_term: "pv pb (geq_term g c q) = (val pb (isGEQ g) + c) * val pb (isGEQ g) * q"
  by (simp add: geq_term_def pv_simps lv_simps)

lemma geq_term_plain [simp]: "plain (geq_term g c q)" "isGEQ g \<in> V \<Longrightarrow> cp_over V (geq_term g c q)"
  by (simp_all add: geq_term_def)

lemma compare_sound:
  assumes "alu_wf g" "pb_inv pb" "booleans pb (unpackedArg1 (vars g))" "booleans pb (unpackedArg2 (vars g))"
    "\<forall>(p, nm) \<in> set (GreaterEqual_constraints (compareArgs s op g)). holds pb p"
  shows "val pb (isGEQ g) = cmp (read16 s (bnum pb (unpackedArg1 (vars g)))) (read16 s (bnum pb (unpackedArg2 (vars g))))"
proof -
  note l = alu_lengths [OF assms(1)]
  have b: "\<forall>v \<in> set (ge_var1 (compareArgs s op g)) \<union> set (ge_var2 (compareArgs s op g)). boolean pb v"
    using assms(3,4) by (simp add: compareArgs_def booleans_def ball_Un)
  have "ge_value (compareArgs s op g) pb (ge_var1 (compareArgs s op g)) = read16 s (bnum pb (unpackedArg1 (vars g)))"
    "ge_value (compareArgs s op g) pb (ge_var2 (compareArgs s op g)) = read16 s (bnum pb (unpackedArg2 (vars g)))"
    by (simp_all add: ge_value_def word_value_read16 compareArgs_def bnum_def l)
  then show ?thesis using greater_equal_correct_facts(1) [OF assms(2) compareArgs_wf(1) [OF assms(1)] b assms(5)]
    by (simp only:) (simp add: compareArgs_def)
qed

lemma cmp_outcomes: "(cmp a b = 1) = (b < a)" "(cmp a b = 1 \<or> cmp a b = getGF2E_X) = (b \<le> a)" for a b :: int
  using g_neq by (auto simp: cmp_def)

lemma above_sound:
  assumes "alu_wf g" "pb_inv pb" "booleans pb (unpackedArg1 (vars g))" "booleans pb (unpackedArg2 (vars g))" "sat op (above_constraints s op g) pb"
  shows "val pb (out_flag (results g)) = (if read16 s (bnum pb (unpackedArg2 (vars g))) < read16 s (bnum pb (unpackedArg1 (vars g))) then 1 else 0)"
    "val pb (out_isMemOp (results g)) = 0"
proof -
  have h: "\<forall>(p, nm) \<in> set (GreaterEqual_constraints (compareArgs s op g)). holds pb p"
    "holds pb (cp_plus (geq_term g getGF2E_X (inverse (1 + getGF2E_X))) (cp_var (out_flag (results g))))" "holds pb (cp_var (out_isMemOp (results g)))"
    using assms(5) by (simp_all add: above_constraints_def isMemOp_zero_def)
  note c = compare_sound [OF assms(1-4) h(1)]
  show "val pb (out_flag (results g)) = (if read16 s (bnum pb (unpackedArg2 (vars g))) < read16 s (bnum pb (unpackedArg1 (vars g))) then 1 else 0)"
    using holds_zero [OF _ h(2)] unfolding cmp_outcomes(1) [symmetric] geq_outcome(1) [OF cmp_values, symmetric] by (simp add: pv_simps pv_geq_term c eq_0_swap)
  show "val pb (out_isMemOp (results g)) = 0" using holds_zero [OF _ h(3)] by (simp add: pv_simps)
qed

lemma above_equal_sound:
  assumes "alu_wf g" "pb_inv pb" "booleans pb (unpackedArg1 (vars g))" "booleans pb (unpackedArg2 (vars g))" "sat op (above_equal_constraints s op g) pb"
  shows "val pb (out_flag (results g)) = (if read16 s (bnum pb (unpackedArg2 (vars g))) \<le> read16 s (bnum pb (unpackedArg1 (vars g))) then 1 else 0)"
    "val pb (out_isMemOp (results g)) = 0"
proof -
  let ?q = "cp_plus (cp_plus (geq_term g getGF2E_X (inverse (1 + getGF2E_X))) (cp_var (out_flag (results g)))) (geq_term g 1 (inverse getGF2E_X * inverse (1 + getGF2E_X)))"
  have h: "\<forall>(p, nm) \<in> set (GreaterEqual_constraints (compareArgs s op g)). holds pb p" "holds pb ?q" "holds pb (cp_var (out_isMemOp (results g)))"
    using assms(5) by (simp_all add: above_equal_constraints_def isMemOp_zero_def Let_def)
  let ?a = "read16 s (bnum pb (unpackedArg1 (vars g)))" and ?b = "read16 s (bnum pb (unpackedArg2 (vars g)))"
  note c = compare_sound [OF assms(1-4) h(1)]
  have "(if cmp ?a ?b = 1 then 1 else 0) + val pb (out_flag (results g)) + (if cmp ?a ?b = getGF2E_X then 1 else 0) = 0"
    using holds_zero [OF _ h(2)] geq_outcome [OF cmp_values, of ?a ?b] by (simp add: pv_simps pv_geq_term c)
  then show "val pb (out_flag (results g)) = (if ?b \<le> ?a then 1 else 0)"
    unfolding cmp_outcomes(2) [symmetric] using g_neq by (auto simp: eq_0_swap split: if_splits)
  show "val pb (out_isMemOp (results g)) = 0" using holds_zero [OF _ h(3)] by (simp add: pv_simps)
qed

lemma changes_two:
  "pb_inv pb \<Longrightarrow> var_index a = ix g k \<Longrightarrow> var_index b = ix g l \<Longrightarrow> changes (ix g ` {k, l}) pb (set_val b y (set_val a x pb))"
  by (auto simp: changes_def)

lemma compare_runs:
  fixes op :: Opcode and s :: bool and P :: "FElem \<Rightarrow> bool"
  assumes wf: "alu_wf g" and inv: "pb_inv pb" and pre: "alu_pre g pb"
  defines "x \<equiv> GreaterEqual_witness (compareArgs s op g) (unpack_args op g pb)"
  defines "w \<equiv> set_flag g P x"
  shows "GreaterEqual_generateWitness (compareArgs s op g) (unpack_args op g pb) = Inr x" "changes (ix g ` {4..<155}) pb w"
    "\<forall>(p, nm) \<in> set (GreaterEqual_constraints (compareArgs s op g)). holds w p" "\<forall>v \<in> set (alu_vars g). assigned w v"
    "bits_of w (unpackedArg1 (vars g)) (num pb (arg1_val (inputs g)))" "bits_of w (unpackedArg2 (vars g)) (num pb (arg2_val (inputs g)))"
    "val w (out_flag (results g)) = (if P (val w (isGEQ g)) then 1 else 0)" "val w (out_isMemOp (results g)) = 0"
proof -
  note p = alu_positions [OF wf] and a = alu_arrays [OF wf] and l = alu_lengths [OF wf] and U = unpack_args_facts [OF wf inv, where op = op]
    and G = compareArgs_wf [OF wf, of s op]
  have pre': "ge_pre (compareArgs s op g) (unpack_args op g pb)"
    using arr_assigned [OF U(1) a(1)] arr_assigned [OF U(1) a(2)] bits_of_booleans [OF U(2)] bits_of_booleans [OF U(3)]
    by (auto simp: ge_pre_def compareArgs_def booleans_def)
  show "GreaterEqual_generateWitness (compareArgs s op g) (unpack_args op g pb) = Inr x" using G(3) by (simp add: GreaterEqual_generateWitness_def x_def)
  have X: "changes (ix g ` {59..<75 - of_bool s}) (unpack_args op g pb) x"
    unfolding x_def G(2) [symmetric] by (rule changes_writes [OF ge_writes [OF G(1)] changesD(2) [OF U(1)]])
  have W: "changes (ix g ` {4, 5}) x w"
    unfolding w_def set_flag_def Let_def by (rule changes_two [OF changesD(2) [OF X] p(5,6)])
  have sub: "{59..<75 - of_bool s} \<subseteq> {..<155 :: nat}" by auto
  show c: "changes (ix g ` {4..<155}) pb w" by (rule changes_join [OF changes_join [OF U(1) X refl] W]) auto
  show "\<forall>v \<in> set (alu_vars g). assigned w v" by (rule all_assigned [OF c wf pre])
  show "bits_of w (unpackedArg1 (vars g)) (num pb (arg1_val (inputs g)))"
    by (rule bits_of_changes [OF bits_of_changes [OF U(2) X wf a(1)] W wf a(1)]) auto
  show "bits_of w (unpackedArg2 (vars g)) (num pb (arg2_val (inputs g)))"
    by (rule bits_of_changes [OF bits_of_changes [OF U(3) X wf a(2)] W wf a(2)]) auto
  have q: "var_index (isGEQ g) = ix g 59" using arr_index [OF a(4), of 0] by (simp add: isGEQ_def)
  have f: "val w (isGEQ g) = val x (isGEQ g)" using changes_val [OF W wf _ q] by simp
  show "val w (out_flag (results g)) = (if P (val w (isGEQ g)) then 1 else 0)"
    unfolding f using changesD(2) [OF X] p wf by (simp add: w_def set_flag_def Let_def)
  show "val w (out_isMemOp (results g)) = 0"
    using changes_val [OF W wf _ p(7)] changes_val [OF X wf sub p(7)] U(4) [OF p(7)] by simp
  have "holds w p" if "(p, nm) \<in> set (GreaterEqual_constraints (compareArgs s op g))" for p nm
  proof (rule holds_changes [OF W ge_vars(1) [OF G(1) that]])
    show "holds x p" unfolding x_def by (rule ge_complete [OF G(1) changesD(2) [OF U(1)] pre' that])
    have "var_index ` cp_vars p \<subseteq> var_index ` set (unpackedArg1 (vars g)) \<union> var_index ` set (unpackedArg2 (vars g)) \<union> ge_written (compareArgs s op g)"
      using ge_vars(2) [OF G(1) that] by (auto simp: cp_over_def ge_written_def compareArgs_def)
    also have "\<dots> \<subseteq> ix g ` {11..<75}" unfolding arr_set [OF a(1)] arr_set [OF a(2)] G(2) by auto
    finally have "var_index ` cp_vars p \<subseteq> ix g ` {11..<75}" .
    moreover have "ix g ` {11..<75} \<inter> ix g ` {4, 5} = {}" by (rule ix_disjoint [OF wf]) auto
    ultimately show "var_index ` cp_vars p \<inter> ix g ` {4, 5} = {}" by blast
  qed
  then show "\<forall>(p, nm) \<in> set (GreaterEqual_constraints (compareArgs s op g)). holds w p" by blast
qed

lemma compare_members:
  assumes "alu_wf g"
  shows "isGEQ g \<in> set (alu_vars g)" "out_flag (results g) \<in> set (alu_vars g)" "out_isMemOp (results g) \<in> set (alu_vars g)"
  using alu_lengths(4) [OF assms] by (simp_all add: isGEQ_def alu_vars_members)

lemma above_runs:
  assumes "alu_wf g" "pb_inv pb" "alu_pre g pb"
  shows "\<exists>w. above_generateWitness s op g pb = Inr w \<and> changes (ix g ` {4..<155}) pb w \<and> sat op (above_constraints s op g) w
    \<and> bits_of w (unpackedArg1 (vars g)) (num pb (arg1_val (inputs g))) \<and> bits_of w (unpackedArg2 (vars g)) (num pb (arg2_val (inputs g)))"
proof -
  define w where "w = set_flag g (\<lambda>flag. 1 = flag) (GreaterEqual_witness (compareArgs s op g) (unpack_args op g pb))"
  note r = compare_runs(1) [OF assms, where s = s and op = op] compare_runs(2-8) [OF assms, where s = s and op = op and P = "\<lambda>flag. 1 = flag", folded w_def]
  have as: "assigned w (isGEQ g)" "assigned w (out_flag (results g))" "assigned w (out_isMemOp (results g))"
    using r(4) compare_members [OF assms(1)] by blast+
  have c: "val w (isGEQ g) = 0 \<or> val w (isGEQ g) = 1 \<or> val w (isGEQ g) = getGF2E_X"
    unfolding compare_sound [OF assms(1) changesD(2) [OF r(2)] bits_of_booleans [OF r(5)] bits_of_booleans [OF r(6)] r(3)] by (rule cmp_values)
  have "holds w (cp_plus (geq_term g getGF2E_X (inverse (1 + getGF2E_X))) (cp_var (out_flag (results g))))"
    using as r(7) by (intro holdsI) (simp_all add: pv_simps pv_geq_term geq_outcome(1) [OF c])
  moreover have "holds w (cp_var (out_isMemOp (results g)))" using as r(8) by (intro holdsI) (simp_all add: pv_simps)
  ultimately have "sat op (above_constraints s op g) w" using r(3) standAlone_sat [OF assms(1) r(5,6,4), of op]
    by (simp add: above_constraints_def isMemOp_zero_def)
  then show ?thesis using r(1,2,5,6) by (simp only: above_generateWitness_def res_bind_simps w_def [symmetric]) blast
qed

lemma above_equal_runs:
  assumes "alu_wf g" "pb_inv pb" "alu_pre g pb"
  shows "\<exists>w. above_equal_generateWitness s op g pb = Inr w \<and> changes (ix g ` {4..<155}) pb w \<and> sat op (above_equal_constraints s op g) w
    \<and> bits_of w (unpackedArg1 (vars g)) (num pb (arg1_val (inputs g))) \<and> bits_of w (unpackedArg2 (vars g)) (num pb (arg2_val (inputs g)))"
proof -
  define w where "w = set_flag g (\<lambda>flag. 1 = flag \<or> getGF2E_X = flag) (GreaterEqual_witness (compareArgs s op g) (unpack_args op g pb))"
  note r = compare_runs(1) [OF assms, where s = s and op = op] compare_runs(2-8) [OF assms, where s = s and op = op and P = "\<lambda>flag. 1 = flag \<or> getGF2E_X = flag", folded w_def]
  have as: "assigned w (isGEQ g)" "assigned w (out_flag (results g))" "assigned w (out_isMemOp (results g))"
    using r(4) compare_members [OF assms(1)] by blast+
  have c: "val w (isGEQ g) = 0 \<or> val w (isGEQ g) = 1 \<or> val w (isGEQ g) = getGF2E_X"
    unfolding compare_sound [OF assms(1) changesD(2) [OF r(2)] bits_of_booleans [OF r(5)] bits_of_booleans [OF r(6)] r(3)] by (rule cmp_values)
  have "holds w (cp_plus (cp_plus (geq_term g getGF2E_X (inverse (1 + getGF2E_X))) (cp_var (out_flag (results g)))) (geq_term g 1 (inverse getGF2E_X * inverse (1 + getGF2E_X))))"
  proof (rule holdsI)
    have "val w (out_flag (results g)) = (if val w (isGEQ g) = 1 then 1 else 0) + (if val w (isGEQ g) = getGF2E_X then 1 else 0)" using r(7) g_neq(2) by auto
    then show "pv w (cp_plus (cp_plus (geq_term g getGF2E_X (inverse (1 + getGF2E_X))) (cp_var (out_flag (results g)))) (geq_term g 1 (inverse getGF2E_X * inverse (1 + getGF2E_X)))) = 0"
      unfolding pv_simps pv_geq_term geq_outcome [OF c] by simp
  qed (use as in simp_all)
  moreover have "holds w (cp_var (out_isMemOp (results g)))" using as r(8) by (intro holdsI) (simp_all add: pv_simps)
  ultimately have "sat op (above_equal_constraints s op g) w" using r(3) standAlone_sat [OF assms(1) r(5,6,4), of op]
    by (simp add: above_equal_constraints_def isMemOp_zero_def Let_def)
  then show ?thesis using r(1,2,5,6) by (simp only: above_equal_generateWitness_def res_bind_simps w_def [symmetric]) blast
qed

section \<open>Equality\<close>

lemma CMPE_sound:
  assumes "sat Op_CMPE (CMPE_constraints g) pb"
  shows "val pb (arg1_val (inputs g)) = val pb (arg2_val (inputs g)) \<Longrightarrow> val pb (out_flag (results g)) = 1" "val pb (out_isMemOp (results g)) = 0"
    "sat Op_NOT (CMPE_constraints g) pb \<Longrightarrow> val pb (out_flag (results g)) = (if val pb (arg1_val (inputs g)) = val pb (arg2_val (inputs g)) then 1 else 0)"
proof -
  let ?s = "lc_plus (lc_var (arg1_val (inputs g))) (lc_var (arg2_val (inputs g)))" and ?f = "out_flag (results g)"
  have h: "holds pb (cp_plus (cp_times (cp_lc ?s) (cp_var (pInverse (vars g)))) (cp_lc (lc_plus (lc_var ?f) (lc_const 1))))" "holds pb (cp_var (out_isMemOp (results g)))"
    using assms by (simp_all add: CMPE_constraints_def isMemOp_zero_def Let_def)
  have e: "(val pb (arg1_val (inputs g)) + val pb (arg2_val (inputs g))) * val pb (pInverse (vars g)) + (val pb ?f + 1) = 0"
    using holds_zero [OF _ h(1)] by (simp add: pv_simps lv_simps)
  show "val pb ?f = 1" if "val pb (arg1_val (inputs g)) = val pb (arg2_val (inputs g))" using e that by (simp add: fe_add_eq_0)
  show "val pb (out_isMemOp (results g)) = 0" using holds_zero [OF _ h(2)] by (simp add: pv_simps)
  assume "sat Op_NOT (CMPE_constraints g) pb"
  then have "holds pb (cp_times (cp_lc ?s) (cp_var ?f))" by (simp add: CMPE_constraints_def Let_def)
  then have "(val pb (arg1_val (inputs g)) + val pb (arg2_val (inputs g))) * val pb ?f = 0" by (auto dest!: holds_zero [rotated] simp: pv_simps lv_simps)
  from zero_flag [OF this e] show "val pb ?f = (if val pb (arg1_val (inputs g)) = val pb (arg2_val (inputs g)) then 1 else 0)" by (simp add: fe_add_eq_0)
qed

text \<open>The board after the three assignments of the witness code, for any values of the flag and the inverse.\<close>

lemma CMPE_board:
  assumes "alu_wf g" "pb_inv pb" "alu_pre g pb"
  defines "w \<equiv> \<lambda>x y. set_val (out_result (results g)) 0 (set_val (pInverse (vars g)) y (set_val (out_flag (results g)) x (alu_init g pb)))"
  defines "d \<equiv> val pb (arg1_val (inputs g)) + val pb (arg2_val (inputs g))"
  shows "changes (ix g ` {4..<155}) pb (w x y)" "val (w x y) (out_flag (results g)) = x"
    "d * y + (x + 1) = 0 \<Longrightarrow> sat Op_CMPE (CMPE_constraints g) (w x y)" "d * x = 0 \<Longrightarrow> sat Op_NOT (CMPE_constraints g) (w x y)"
proof -
  note p = alu_positions [OF assms(1)] and i = alu_init_changes [OF assms(1,2)]
  have W: "changes (ix g ` {4, 10, 5}) (alu_init g pb) (w x y)" using p changesD(2) [OF i(1)] by (auto simp: w_def changes_def)
  show c: "changes (ix g ` {4..<155}) pb (w x y)" by (rule changes_join [OF i(1) W]) auto
  note all = all_assigned [OF c assms(1,3)]
  have v: "val (w x y) (out_flag (results g)) = x" "val (w x y) (pInverse (vars g)) = y" "val (w x y) (out_isMemOp (results g)) = 0"
    "val (w x y) (arg1_val (inputs g)) = val pb (arg1_val (inputs g))" "val (w x y) (arg2_val (inputs g)) = val pb (arg2_val (inputs g))"
    using p assms(1) changesD(2) [OF i(1)] i(2) [OF p(7)] changes_val [OF c assms(1) _ p(1)] changes_val [OF c assms(1) _ p(2)] by (simp_all add: w_def)
  show "val (w x y) (out_flag (results g)) = x" by (rule v(1))
  show "sat Op_CMPE (CMPE_constraints g) (w x y)" if "d * y + (x + 1) = 0"
    using all v that unfolding d_def by (auto intro!: holdsI simp: CMPE_constraints_def isMemOp_zero_def Let_def pv_simps lv_simps alu_vars_members)
  show "sat Op_NOT (CMPE_constraints g) (w x y)" if "d * x = 0"
    using all v that unfolding d_def by (auto intro!: holdsI simp: CMPE_constraints_def isMemOp_zero_def Let_def pv_simps lv_simps alu_vars_members)
qed

lemma CMPE_runs:
  assumes "alu_wf g" "pb_inv pb" "alu_pre g pb"
  shows "\<exists>w. CMPE_generateWitness g pb = Inr w \<and> changes (ix g ` {4..<155}) pb w \<and> sat Op_CMPE (CMPE_constraints g) w \<and> sat Op_NOT (CMPE_constraints g) w"
proof -
  let ?a = "val pb (arg1_val (inputs g))" and ?b = "val pb (arg2_val (inputs g))"
  note p = alu_positions [OF assms(1)] and i = alu_init_changes [OF assms(1,2)]
  have v: "val (alu_init g pb) (arg1_val (inputs g)) = ?a" "val (alu_init g pb) (arg2_val (inputs g)) = ?b"
    using changes_val [OF i(1) assms(1) _ p(1)] changes_val [OF i(1) assms(1) _ p(2)] by simp_all
  have "(?a + ?b) * (if ?a = ?b then 1 else inverse (?a + ?b)) + ((if ?a = ?b then 1 else 0) + 1) = 0" "(?a + ?b) * (if ?a = ?b then 1 else 0) = 0"
    using fe_add_eq_0 [of ?a ?b] by simp_all
  from CMPE_board(1) [OF assms, where x = "if ?a = ?b then 1 else 0" and y = "if ?a = ?b then 1 else inverse (?a + ?b)"]
    CMPE_board(3) [OF assms this(1)] CMPE_board(4) [OF assms this(2), where y = "if ?a = ?b then 1 else inverse (?a + ?b)"]
  show ?thesis unfolding CMPE_generateWitness_def Let_def v by blast
qed

interpretation alu_cmpe: alu_component Op_CMPE CMPE_constraints CMPE_generateWitness alu_pre "{4..<155}"
  by unfold_locales (use CMPE_runs in blast, rule alu_pre_tagged)

interpretation alu_cmpa: alu_component Op_CMPA CMPA_constraints CMPA_generateWitness alu_pre "{4..<155}"
  unfolding CMPA_constraints_def CMPA_generateWitness_def by unfold_locales (use above_runs in blast, rule alu_pre_tagged)

interpretation alu_cmpg: alu_component Op_CMPG CMPG_constraints CMPG_generateWitness alu_pre "{4..<155}"
  unfolding CMPG_constraints_def CMPG_generateWitness_def by unfold_locales (use above_runs in blast, rule alu_pre_tagged)

interpretation alu_cmpae: alu_component Op_CMPAE CMPAE_constraints CMPAE_generateWitness alu_pre "{4..<155}"
  unfolding CMPAE_constraints_def CMPAE_generateWitness_def by unfold_locales (use above_equal_runs in blast, rule alu_pre_tagged)

interpretation alu_cmpge: alu_component Op_CMPGE CMPGE_constraints CMPGE_generateWitness alu_pre "{4..<155}"
  unfolding CMPGE_constraints_def CMPGE_generateWitness_def by unfold_locales (use above_equal_runs in blast, rule alu_pre_tagged)

section \<open>Correctness\<close>

text \<open>Property C31. The comparisons. With boolean unpacked words every assignment that satisfies the constraints
  of \<open>ALU_CMPA_Gadget\<close>, \<open>ALU_CMPAE_Gadget\<close>, \<open>ALU_CMPG_Gadget\<close> or \<open>ALU_CMPGE_Gadget\<close> has the outcome of the
  unsigned or two's complement comparison of the words in the flag. For \<open>ALU_CMPE_Gadget\<close> the flag is
  determined by the constraints it adds to the systems of \<open>CMPE\<close> and \<open>NOT\<close> together; the system of
  \<open>CMPE\<close> alone, which lacks the one added for \<open>NOT\<close>, accepts a set flag for all arguments. The
  witness code of all five computes the outcome for the arguments, for the order of their low 16 bits, and on a
  satisfied board it satisfies the opcode's system.\<close>

theorem alu_compare_correct:
  assumes "alu_wf g" "pb_inv pb"
  shows "(booleans pb (unpackedArg1 (vars g)) \<longrightarrow> booleans pb (unpackedArg2 (vars g)) \<longrightarrow> sat Op_CMPA (CMPA_constraints g) pb \<longrightarrow>
      val pb (out_flag (results g)) = (if read16 False (bnum pb (unpackedArg2 (vars g))) < read16 False (bnum pb (unpackedArg1 (vars g))) then 1 else 0))
    \<and> (booleans pb (unpackedArg1 (vars g)) \<longrightarrow> booleans pb (unpackedArg2 (vars g)) \<longrightarrow> sat Op_CMPAE (CMPAE_constraints g) pb \<longrightarrow>
      val pb (out_flag (results g)) = (if read16 False (bnum pb (unpackedArg2 (vars g))) \<le> read16 False (bnum pb (unpackedArg1 (vars g))) then 1 else 0))
    \<and> (booleans pb (unpackedArg1 (vars g)) \<longrightarrow> booleans pb (unpackedArg2 (vars g)) \<longrightarrow> sat Op_CMPG (CMPG_constraints g) pb \<longrightarrow>
      val pb (out_flag (results g)) = (if read16 True (bnum pb (unpackedArg2 (vars g))) < read16 True (bnum pb (unpackedArg1 (vars g))) then 1 else 0))
    \<and> (booleans pb (unpackedArg1 (vars g)) \<longrightarrow> booleans pb (unpackedArg2 (vars g)) \<longrightarrow> sat Op_CMPGE (CMPGE_constraints g) pb \<longrightarrow>
      val pb (out_flag (results g)) = (if read16 True (bnum pb (unpackedArg2 (vars g))) \<le> read16 True (bnum pb (unpackedArg1 (vars g))) then 1 else 0))
    \<and> (sat Op_CMPE (CMPE_constraints g) pb \<longrightarrow> sat Op_NOT (CMPE_constraints g) pb \<longrightarrow>
      val pb (out_flag (results g)) = (if val pb (arg1_val (inputs g)) = val pb (arg2_val (inputs g)) then 1 else 0))
    \<and> (alu_pre g pb \<longrightarrow> (\<exists>w. sat Op_CMPE (CMPE_constraints g) w \<and> val w (arg1_val (inputs g)) = val pb (arg1_val (inputs g))
      \<and> val w (arg2_val (inputs g)) = val pb (arg2_val (inputs g)) \<and> val w (out_flag (results g)) = 1))
    \<and> (alu_pre g pb \<longrightarrow> (\<exists>w. CMPA_generateWitness g pb = Inr w \<and> val w (out_flag (results g)) =
        (if read16 False (take_bit 16 (num pb (arg2_val (inputs g)))) < read16 False (take_bit 16 (num pb (arg1_val (inputs g)))) then 1 else 0))
      \<and> (\<exists>w. CMPAE_generateWitness g pb = Inr w \<and> val w (out_flag (results g)) =
        (if read16 False (take_bit 16 (num pb (arg2_val (inputs g)))) \<le> read16 False (take_bit 16 (num pb (arg1_val (inputs g)))) then 1 else 0))
      \<and> (\<exists>w. CMPG_generateWitness g pb = Inr w \<and> val w (out_flag (results g)) =
        (if read16 True (take_bit 16 (num pb (arg2_val (inputs g)))) < read16 True (take_bit 16 (num pb (arg1_val (inputs g)))) then 1 else 0))
      \<and> (\<exists>w. CMPGE_generateWitness g pb = Inr w \<and> val w (out_flag (results g)) =
        (if read16 True (take_bit 16 (num pb (arg2_val (inputs g)))) \<le> read16 True (take_bit 16 (num pb (arg1_val (inputs g)))) then 1 else 0))
      \<and> (\<exists>w. CMPE_generateWitness g pb = Inr w \<and> val w (out_flag (results g)) = (if val pb (arg1_val (inputs g)) = val pb (arg2_val (inputs g)) then 1 else 0)))
    \<and> (alu_pre g pb \<longrightarrow> (ready Op_CMPA (alu_written g) pb \<longrightarrow> res_bind (CMPA_generateWitness g (add_tagged (CMPA_constraints g) pb)) (pb_isSatisfied Op_CMPA) = Inr True)
      \<and> (ready Op_CMPAE (alu_written g) pb \<longrightarrow> res_bind (CMPAE_generateWitness g (add_tagged (CMPAE_constraints g) pb)) (pb_isSatisfied Op_CMPAE) = Inr True)
      \<and> (ready Op_CMPG (alu_written g) pb \<longrightarrow> res_bind (CMPG_generateWitness g (add_tagged (CMPG_constraints g) pb)) (pb_isSatisfied Op_CMPG) = Inr True)
      \<and> (ready Op_CMPGE (alu_written g) pb \<longrightarrow> res_bind (CMPGE_generateWitness g (add_tagged (CMPGE_constraints g) pb)) (pb_isSatisfied Op_CMPGE) = Inr True)
      \<and> (ready Op_CMPE (alu_written g) pb \<longrightarrow> res_bind (CMPE_generateWitness g (add_tagged (CMPE_constraints g) pb)) (pb_isSatisfied Op_CMPE) = Inr True))"
proof (intro conjI impI)
  note p = alu_positions [OF assms(1)] and l = alu_lengths [OF assms(1)] and W = alu_written_positions(1) [OF assms(1)]
  show "val pb (out_flag (results g)) = (if read16 False (bnum pb (unpackedArg2 (vars g))) < read16 False (bnum pb (unpackedArg1 (vars g))) then 1 else 0)" if "booleans pb (unpackedArg1 (vars g))" "booleans pb (unpackedArg2 (vars g))" "sat Op_CMPA (CMPA_constraints g) pb"
    by (rule above_sound(1) [OF assms that(1,2) that(3) [unfolded CMPA_constraints_def]])
  show "val pb (out_flag (results g)) = (if read16 False (bnum pb (unpackedArg2 (vars g))) \<le> read16 False (bnum pb (unpackedArg1 (vars g))) then 1 else 0)" if "booleans pb (unpackedArg1 (vars g))" "booleans pb (unpackedArg2 (vars g))" "sat Op_CMPAE (CMPAE_constraints g) pb"
    by (rule above_equal_sound(1) [OF assms that(1,2) that(3) [unfolded CMPAE_constraints_def]])
  show "val pb (out_flag (results g)) = (if read16 True (bnum pb (unpackedArg2 (vars g))) < read16 True (bnum pb (unpackedArg1 (vars g))) then 1 else 0)" if "booleans pb (unpackedArg1 (vars g))" "booleans pb (unpackedArg2 (vars g))" "sat Op_CMPG (CMPG_constraints g) pb"
    by (rule above_sound(1) [OF assms that(1,2) that(3) [unfolded CMPG_constraints_def]])
  show "val pb (out_flag (results g)) = (if read16 True (bnum pb (unpackedArg2 (vars g))) \<le> read16 True (bnum pb (unpackedArg1 (vars g))) then 1 else 0)" if "booleans pb (unpackedArg1 (vars g))" "booleans pb (unpackedArg2 (vars g))" "sat Op_CMPGE (CMPGE_constraints g) pb"
    by (rule above_equal_sound(1) [OF assms that(1,2) that(3) [unfolded CMPGE_constraints_def]])
  show "val pb (out_flag (results g)) = (if val pb (arg1_val (inputs g)) = val pb (arg2_val (inputs g)) then 1 else 0)"
    if "sat Op_CMPE (CMPE_constraints g) pb" "sat Op_NOT (CMPE_constraints g) pb" by (rule CMPE_sound(3) [OF that])
  assume pre: "alu_pre g pb"
  have same: "val w (arg1_val (inputs g)) = val pb (arg1_val (inputs g))" "val w (arg2_val (inputs g)) = val pb (arg2_val (inputs g))"
    if "changes (ix g ` {4..<155}) pb w" for w
    using changes_val [OF that assms(1) _ p(1)] changes_val [OF that assms(1) _ p(2)] by simp_all
  note forged = CMPE_board [OF assms pre, where x = 1 and y = 0]
  show "\<exists>w. sat Op_CMPE (CMPE_constraints g) w \<and> val w (arg1_val (inputs g)) = val pb (arg1_val (inputs g))
      \<and> val w (arg2_val (inputs g)) = val pb (arg2_val (inputs g)) \<and> val w (out_flag (results g)) = 1"
    using forged(2) forged(3) same [OF forged(1)] by auto
  show "\<exists>w. CMPE_generateWitness g pb = Inr w \<and> val w (out_flag (results g)) = (if val pb (arg1_val (inputs g)) = val pb (arg2_val (inputs g)) then 1 else 0)"
    using CMPE_runs [OF assms pre] CMPE_sound(3) same by metis
  show "\<exists>w. CMPA_generateWitness g pb = Inr w \<and> val w (out_flag (results g)) =
        (if read16 False (take_bit 16 (num pb (arg2_val (inputs g)))) < read16 False (take_bit 16 (num pb (arg1_val (inputs g)))) then 1 else 0)"
    using above_runs [OF assms pre, of False Op_CMPA] above_sound(1) [OF assms(1) changesD(2)] unfolding bits_of_iff l CMPA_generateWitness_def by metis
  show "\<exists>w. CMPAE_generateWitness g pb = Inr w \<and> val w (out_flag (results g)) =
        (if read16 False (take_bit 16 (num pb (arg2_val (inputs g)))) \<le> read16 False (take_bit 16 (num pb (arg1_val (inputs g)))) then 1 else 0)"
    using above_equal_runs [OF assms pre, of False Op_CMPAE] above_equal_sound(1) [OF assms(1) changesD(2)] unfolding bits_of_iff l CMPAE_generateWitness_def by metis
  show "\<exists>w. CMPG_generateWitness g pb = Inr w \<and> val w (out_flag (results g)) =
        (if read16 True (take_bit 16 (num pb (arg2_val (inputs g)))) < read16 True (take_bit 16 (num pb (arg1_val (inputs g)))) then 1 else 0)"
    using above_runs [OF assms pre, of True Op_CMPG] above_sound(1) [OF assms(1) changesD(2)] unfolding bits_of_iff l CMPG_generateWitness_def by metis
  show "\<exists>w. CMPGE_generateWitness g pb = Inr w \<and> val w (out_flag (results g)) =
        (if read16 True (take_bit 16 (num pb (arg2_val (inputs g)))) \<le> read16 True (take_bit 16 (num pb (arg1_val (inputs g)))) then 1 else 0)"
    using above_equal_runs [OF assms pre, of True Op_CMPGE] above_equal_sound(1) [OF assms(1) changesD(2)] unfolding bits_of_iff l CMPGE_generateWitness_def by metis
  show "res_bind (CMPA_generateWitness g (add_tagged (CMPA_constraints g) pb)) (pb_isSatisfied Op_CMPA) = Inr True" if "ready Op_CMPA (alu_written g) pb"
    using alu_cmpa.satisfied [OF assms pre] that by (simp add: W)
  show "res_bind (CMPAE_generateWitness g (add_tagged (CMPAE_constraints g) pb)) (pb_isSatisfied Op_CMPAE) = Inr True" if "ready Op_CMPAE (alu_written g) pb"
    using alu_cmpae.satisfied [OF assms pre] that by (simp add: W)
  show "res_bind (CMPG_generateWitness g (add_tagged (CMPG_constraints g) pb)) (pb_isSatisfied Op_CMPG) = Inr True" if "ready Op_CMPG (alu_written g) pb"
    using alu_cmpg.satisfied [OF assms pre] that by (simp add: W)
  show "res_bind (CMPGE_generateWitness g (add_tagged (CMPGE_constraints g) pb)) (pb_isSatisfied Op_CMPGE) = Inr True" if "ready Op_CMPGE (alu_written g) pb"
    using alu_cmpge.satisfied [OF assms pre] that by (simp add: W)
  show "res_bind (CMPE_generateWitness g (add_tagged (CMPE_constraints g) pb)) (pb_isSatisfied Op_CMPE) = Inr True" if "ready Op_CMPE (alu_written g) pb"
    using alu_cmpe.satisfied [OF assms pre] that by (simp add: W)
qed

theorem alu_compare_correct_witness:
  "\<exists>w. CMPG_generateWitness sample_component (sample_board 3 65535 0 0) = Inr w \<and> val w (out_flag (results sample_component)) = 1"
proof -
  have "\<exists>w. CMPG_generateWitness sample_component (sample_board 3 65535 0 0) = Inr w \<and> val w (out_flag (results sample_component)) =
      (if read16 True (take_bit 16 (num (sample_board 3 65535 0 0) (arg2_val (inputs sample_component))))
        < read16 True (take_bit 16 (num (sample_board 3 65535 0 0) (arg1_val (inputs sample_component)))) then 1 else 0)"
    by (rule alu_compare_correct [OF sample_component_wf sample_board_facts(1), THEN conjunct2, THEN conjunct2, THEN conjunct2, THEN conjunct2, THEN conjunct2,
      THEN conjunct2, THEN conjunct1, THEN mp, OF sample_board_facts(2), THEN conjunct2, THEN conjunct2, THEN conjunct1])
  then show ?thesis by (simp add: sample_board_facts(4,5) read16_def sint16_def)
qed

end
