(* ===== verification/AluMove.thy ===== *)
theory AluMove
  imports AluCompare
begin

text \<open>
  The opcodes of \<open>ALU.cpp\<close> that move a value: \<open>ALU_JMP_Gadget\<close>, \<open>ALU_CJMP_Gadget\<close>,
  \<open>ALU_CNJMP_Gadget\<close> and \<open>ALU_MOV_Gadget\<close> copy the second argument to the result,
  \<open>ALU_STOREW_Gadget\<close> and \<open>ALU_LOADW_Gadget\<close> access the memory of the board, and
  \<open>ALU_ANSWER_Gadget\<close> binds the output of the program with a boundary constraint. The
  counter and the output are global variables of the source, here the record \<open>alu_globals\<close>.
\<close>

section \<open>The gadgets\<close>

definition jump_constraints :: "Opcode \<Rightarrow> ALU_Component_Gadget \<Rightarrow> tagged list" where
  "jump_constraints op g =
     [(op, cp_lc (lc_plus (lc_var (out_flag (results g))) (lc_var (in_flag (inputs g)))), ''inputs.flag_ = results.flag_''),
      (op, cp_lc (lc_plus (lc_var (out_result (results g))) (lc_var (arg2_val (inputs g)))), ''inputs.arg2_val = result.result'')]"

definition copy_generateWitness :: "ALU_Component_Gadget \<Rightarrow> Protoboard \<Rightarrow> Protoboard result" where
  "copy_generateWitness g pb = (let
     pb = alu_init g pb;
     pb = set_val (out_flag (results g)) (val pb (in_flag (inputs g))) pb
     in Inr (set_val (out_result (results g)) (val pb (arg2_val (inputs g))) pb))"

definition JMP_constraints :: "ALU_Component_Gadget \<Rightarrow> tagged list" where "JMP_constraints = jump_constraints Op_JMP"
definition CJMP_constraints :: "ALU_Component_Gadget \<Rightarrow> tagged list" where "CJMP_constraints = jump_constraints Op_CJMP"
definition CNJMP_constraints :: "ALU_Component_Gadget \<Rightarrow> tagged list" where "CNJMP_constraints = jump_constraints Op_CNJMP"

definition JMP_generateWitness :: "ALU_Component_Gadget \<Rightarrow> Protoboard \<Rightarrow> Protoboard result" where "JMP_generateWitness = copy_generateWitness"
definition CJMP_generateWitness :: "ALU_Component_Gadget \<Rightarrow> Protoboard \<Rightarrow> Protoboard result" where "CJMP_generateWitness = copy_generateWitness"
definition CNJMP_generateWitness :: "ALU_Component_Gadget \<Rightarrow> Protoboard \<Rightarrow> Protoboard result" where "CNJMP_generateWitness = copy_generateWitness"

definition MOV_constraints :: "ALU_Component_Gadget \<Rightarrow> tagged list" where
  "MOV_constraints g =
     [(Op_MOV, cp_lc (lc_plus (lc_var (in_flag (inputs g))) (lc_var (out_flag (results g)))), ''inputs_.flag = results.flag_''),
      (Op_MOV, cp_lc (lc_plus (lc_var (arg2_val (inputs g))) (lc_var (out_result (results g)))), ''results.result = inputs.arg2_val'')]"

definition MOV_generateWitness :: "ALU_Component_Gadget \<Rightarrow> Protoboard \<Rightarrow> Protoboard result" where "MOV_generateWitness = copy_generateWitness"

definition STOREW_constraints :: "ALU_Component_Gadget \<Rightarrow> tagged list" where
  "STOREW_constraints g =
     [(Op_STOREW, cp_lc (lc_plus (lc_var (out_isMemOp (results g))) (lc_const 1)), ''isMemOp = 1''),
      (Op_STOREW, cp_var (out_isLoadOp (results g)), ''isLoadOp = 0''),
      (Op_STOREW, cp_lc (lc_plus (lc_var (in_flag (inputs g))) (lc_var (out_flag (results g)))), ''inputs_.flag = results.flag_''),
      (Op_STOREW, cp_lc (lc_plus (lc_var (out_value (results g))) (lc_var (dest_val (inputs g)))), ''inputs_.value_ = inputs_.dest_val'')]"

definition STOREW_generateWitness :: "ALU_Component_Gadget \<Rightarrow> Protoboard \<Rightarrow> Protoboard result" where
  "STOREW_generateWitness g pb = (let
     pb = alu_init g pb;
     pb = set_val (out_isMemOp (results g)) 1 pb;
     pb = set_val (out_isLoadOp (results g)) 0 pb;
     memoryAddress = val pb (arg2_val (inputs g));
     value = val pb (dest_val (inputs g));
     pb = storeValue memoryAddress value pb;
     pb = set_val (out_value (results g)) value pb;
     pb = set_val (out_address (results g)) memoryAddress pb
     in Inr (set_val (out_flag (results g)) (val pb (in_flag (inputs g))) pb))"

definition LOADW_constraints :: "ALU_Component_Gadget \<Rightarrow> tagged list" where
  "LOADW_constraints g =
     [(Op_LOADW, cp_lc (lc_plus (lc_var (out_isMemOp (results g))) (lc_const 1)), ''isMemOp = 1''),
      (Op_LOADW, cp_lc (lc_plus (lc_var (out_isLoadOp (results g))) (lc_const 1)), ''isLoadOp = 1''),
      (Op_LOADW, cp_lc (lc_plus (lc_var (in_flag (inputs g))) (lc_var (out_flag (results g)))), ''inputs_.flag = results.flag_'')]"

definition LOADW_generateWitness :: "ALU_Component_Gadget \<Rightarrow> Protoboard \<Rightarrow> Protoboard result" where
  "LOADW_generateWitness g pb = (let
     pb = alu_init g pb;
     pb = set_val (out_isLoadOp (results g)) 1 pb;
     pb = set_val (out_isMemOp (results g)) 1 pb;
     address = val pb (arg2_val (inputs g))
     in res_bind (loadValue address pb) (\<lambda>value. let
     pb = set_val (out_address (results g)) address pb;
     pb = set_val (out_value (results g)) value pb
     in Inr (set_val (out_flag (results g)) (val pb (in_flag (inputs g))) pb)))"

section \<open>Answers and the global state\<close>

record alu_globals =
  max_timestep :: nat
  program_output :: FElem
  first_answer :: bool

definition resetALU_GadgetGlobalState :: "alu_globals \<Rightarrow> alu_globals" where
  "resetALU_GadgetGlobalState gl = gl\<lparr>max_timestep := 1\<rparr>"

definition ANSWER_generateConstraints :: "alu_globals \<Rightarrow> ALU_Component_Gadget \<Rightarrow> Protoboard \<Rightarrow> Protoboard" where
  "ANSWER_generateConstraints gl g pb = (if max_timestep gl > 1
     then addBoundaryConstraint (arg2_val (inputs g)) (max_timestep gl) (program_output gl) pb else pb)"

definition ANSWER_generateWitness :: "alu_globals \<Rightarrow> ALU_Component_Gadget \<Rightarrow> Protoboard \<Rightarrow> alu_globals \<times> Protoboard" where
  "ANSWER_generateWitness gl g pb = (let pb = alu_init g pb in
     (if first_answer gl then gl\<lparr>first_answer := False, program_output := (if 1 = program_output gl then val pb (arg2_val (inputs g)) else program_output gl)\<rparr> else gl, pb))"

section \<open>Soundness of the constraints\<close>

lemma copy_sound:
  assumes "sat op (jump_constraints op g) pb \<or> sat Op_MOV (MOV_constraints g) pb"
  shows "val pb (out_result (results g)) = val pb (arg2_val (inputs g))" "val pb (out_flag (results g)) = val pb (in_flag (inputs g))"
  using assms by (auto simp: jump_constraints_def MOV_constraints_def fe_add_eq_0 pv_simps lv_simps dest!: holds_zero [rotated])

lemma STOREW_sound:
  assumes "sat Op_STOREW (STOREW_constraints g) pb"
  shows "val pb (out_isMemOp (results g)) = 1" "val pb (out_isLoadOp (results g)) = 0" "val pb (out_flag (results g)) = val pb (in_flag (inputs g))"
    "val pb (out_value (results g)) = val pb (dest_val (inputs g))"
  using assms by (auto simp: STOREW_constraints_def fe_add_eq_0 pv_simps lv_simps dest!: holds_zero [rotated])

lemma LOADW_sound:
  assumes "sat Op_LOADW (LOADW_constraints g) pb"
  shows "val pb (out_isMemOp (results g)) = 1" "val pb (out_isLoadOp (results g)) = 1" "val pb (out_flag (results g)) = val pb (in_flag (inputs g))"
  using assms by (auto simp: LOADW_constraints_def fe_add_eq_0 pv_simps lv_simps dest!: holds_zero [rotated])

section \<open>The memory of the board\<close>

lemma memory_simps [simp]:
  "memory (set_val v x pb) = memory pb" "memory (addGeneralConstraint q nm op pb) = memory pb"
  by (simp_all add: set_val_def addGeneralConstraint_def addMemoryConstraint_def Let_def)

lemma memory_zero_all [simp]: "memory (zero_all vs pb) = memory pb"
  by (induction vs arbitrary: pb) (simp_all add: zero_all_def)

lemma memory_init [simp]: "memory (alu_init g pb) = memory pb"
  by (simp add: alu_init_def initMemResult_def initGeneralOpcodes_def)

lemma memory_tagged [simp]: "memory (add_tagged cs pb) = memory pb"
  by (induction cs arbitrary: pb) (auto simp: add_tagged_def)

lemma storeValue_facts [simp]:
  "pb_inv pb \<Longrightarrow> pb_inv (storeValue a x pb)" "assignment (storeValue a x pb) = assignment pb" "fresh (storeValue a x pb) = fresh pb"
  "pb_constraintSystem op (storeValue a x pb) = pb_constraintSystem op pb"
  by (simp_all add: storeValue_def pb_inv_def map_inv_put pb_constraintSystem_def)

lemma storeValue_val [simp]: "val (storeValue a x pb) v = val pb v" "assigned (storeValue a x pb) v = assigned pb v"
  by (rule val_same assigned_same; simp)+

lemma loadValue_memory: "memory pb' = memory pb \<Longrightarrow> loadValue a pb' = loadValue a pb"
  by (simp add: loadValue_def)

section \<open>Completeness of the witness code\<close>

lemma copy_board:
  assumes "alu_wf g" "pb_inv pb" "alu_pre g pb"
  shows "\<exists>w. copy_generateWitness g pb = Inr w \<and> changes (ix g ` {4..<155}) pb w \<and> sat op (jump_constraints op g) w \<and> sat Op_MOV (MOV_constraints g) w"
proof -
  note p = alu_positions [OF assms(1)] and i = alu_init_changes [OF assms(1,2)]
  let ?w = "set_val (out_result (results g)) (val pb (arg2_val (inputs g))) (set_val (out_flag (results g)) (val pb (in_flag (inputs g))) (alu_init g pb))"
  have v: "val (alu_init g pb) (arg2_val (inputs g)) = val pb (arg2_val (inputs g))" "val (alu_init g pb) (in_flag (inputs g)) = val pb (in_flag (inputs g))"
    using changes_val [OF i(1) assms(1) _ p(2)] changes_val [OF i(1) assms(1) _ p(4)] by simp_all
  have g: "copy_generateWitness g pb = Inr ?w" using p assms(1) changesD(2) [OF i(1)] by (simp add: copy_generateWitness_def Let_def v)
  have c: "changes (ix g ` {4..<155}) pb ?w" by (rule changes_join [OF i(1) changes_two [OF changesD(2) [OF i(1)] p(5,6)]]) auto
  have "val ?w (out_result (results g)) = val ?w (arg2_val (inputs g))" "val ?w (out_flag (results g)) = val ?w (in_flag (inputs g))"
    using p assms(1) changesD(2) [OF i(1)] by (simp_all add: v)
  then have "sat op (jump_constraints op g) ?w" "sat Op_MOV (MOV_constraints g) ?w" using all_assigned [OF c assms(1,3)]
    by (auto intro!: holdsI simp: jump_constraints_def MOV_constraints_def pv_simps lv_simps alu_vars_members)
  then show ?thesis using g c by blast
qed

lemma STOREW_runs:
  assumes "alu_wf g" "pb_inv pb" "alu_pre g pb"
  shows "\<exists>w. STOREW_generateWitness g pb = Inr w \<and> changes (ix g ` ({4} \<union> {6..<155})) pb w \<and> sat Op_STOREW (STOREW_constraints g) w
    \<and> val w (out_address (results g)) = val pb (arg2_val (inputs g)) \<and> memory w = map_put (val pb (arg2_val (inputs g))) (val pb (dest_val (inputs g))) (memory pb)"
proof -
  note p = alu_positions [OF assms(1)] and i = alu_init_changes [OF assms(1,2)]
  let ?a = "val pb (arg2_val (inputs g))" and ?d = "val pb (dest_val (inputs g))" and ?f = "val pb (in_flag (inputs g))"
  define w where "w = set_val (out_flag (results g)) ?f (set_val (out_address (results g)) ?a (set_val (out_value (results g)) ?d
    (storeValue ?a ?d (set_val (out_isLoadOp (results g)) 0 (set_val (out_isMemOp (results g)) 1 (alu_init g pb))))))"
  have v: "val (alu_init g pb) (arg2_val (inputs g)) = ?a" "val (alu_init g pb) (dest_val (inputs g)) = ?d" "val (alu_init g pb) (in_flag (inputs g)) = ?f"
    using changes_val [OF i(1) assms(1) _ p(2)] changes_val [OF i(1) assms(1) _ p(3)] changes_val [OF i(1) assms(1) _ p(4)] by simp_all
  have g: "STOREW_generateWitness g pb = Inr w" using p assms(1) changesD(2) [OF i(1)] by (simp add: STOREW_generateWitness_def Let_def v w_def)
  have W: "changes (ix g ` {4, 6, 7, 8, 9}) (alu_init g pb) w" using p changesD(2) [OF i(1)] by (auto simp: w_def changes_def)
  have c: "changes (ix g ` ({4} \<union> {6..<155})) pb w" by (rule changes_join [OF i(1) W]) auto
  have val: "val w (out_isMemOp (results g)) = 1" "val w (out_isLoadOp (results g)) = 0" "val w (out_flag (results g)) = val w (in_flag (inputs g))"
    "val w (out_value (results g)) = val w (dest_val (inputs g))" "val w (out_address (results g)) = ?a"
    using p assms(1) changesD(2) [OF i(1)] by (simp_all add: w_def v)
  have "assigned w (out_isMemOp (results g))" "assigned w (out_isLoadOp (results g))" "assigned w (out_flag (results g))" "assigned w (out_value (results g))"
    "assigned w (in_flag (inputs g))" "assigned w (dest_val (inputs g))"
    using p assms(1) changesD(2) [OF i(1)] assms(3) changesD(4) [OF i(1)] by (simp_all add: w_def alu_pre_def input_vars_def)
  then have "sat Op_STOREW (STOREW_constraints g) w" using val
    by (auto intro!: holdsI simp: STOREW_constraints_def pv_simps lv_simps)
  moreover have "memory w = map_put ?a ?d (memory pb)" by (simp add: w_def) (simp add: storeValue_def)
  ultimately show ?thesis using g c val(5) by blast
qed

definition load_pre :: "ALU_Component_Gadget \<Rightarrow> Protoboard \<Rightarrow> bool" where
  "load_pre g pb \<longleftrightarrow> alu_pre g pb \<and> map_find (memory pb) (val pb (arg2_val (inputs g))) \<noteq> None"

lemma LOADW_unset:
  assumes "alu_wf g" "pb_inv pb" "map_find (memory pb) (val pb (arg2_val (inputs g))) = None"
  shows "LOADW_generateWitness g pb = Inl AssertFailed"
proof -
  note p = alu_positions [OF assms(1)] and i = alu_init_changes [OF assms(1,2)]
  have "val (alu_init g pb) (arg2_val (inputs g)) = val pb (arg2_val (inputs g))" using changes_val [OF i(1) assms(1) _ p(2)] by simp
  then show ?thesis using p assms changesD(2) [OF i(1)] by (simp add: LOADW_generateWitness_def Let_def loadValue_def)
qed

lemma LOADW_runs:
  assumes "alu_wf g" "pb_inv pb" "load_pre g pb"
  shows "\<exists>w. LOADW_generateWitness g pb = Inr w \<and> changes (ix g ` ({4} \<union> {6..<155})) pb w \<and> sat Op_LOADW (LOADW_constraints g) w
    \<and> val w (out_address (results g)) = val pb (arg2_val (inputs g)) \<and> map_find (memory pb) (val pb (arg2_val (inputs g))) = Some (val w (out_value (results g)))"
proof -
  note p = alu_positions [OF assms(1)] and i = alu_init_changes [OF assms(1,2)]
  obtain d where d: "map_find (memory pb) (val pb (arg2_val (inputs g))) = Some d" using assms(3) by (auto simp: load_pre_def)
  let ?a = "val pb (arg2_val (inputs g))" and ?f = "val pb (in_flag (inputs g))"
  define w where "w = set_val (out_flag (results g)) ?f (set_val (out_value (results g)) d (set_val (out_address (results g)) ?a
    (set_val (out_isMemOp (results g)) 1 (set_val (out_isLoadOp (results g)) 1 (alu_init g pb)))))"
  have v: "val (alu_init g pb) (arg2_val (inputs g)) = ?a" "val (alu_init g pb) (in_flag (inputs g)) = ?f"
    using changes_val [OF i(1) assms(1) _ p(2)] changes_val [OF i(1) assms(1) _ p(4)] by simp_all
  have g: "LOADW_generateWitness g pb = Inr w" using p assms(1) d changesD(2) [OF i(1)] by (simp add: LOADW_generateWitness_def Let_def v w_def loadValue_def)
  have W: "changes (ix g ` {4, 6, 7, 8, 9}) (alu_init g pb) w" using p changesD(2) [OF i(1)] by (auto simp: w_def changes_def)
  have c: "changes (ix g ` ({4} \<union> {6..<155})) pb w" by (rule changes_join [OF i(1) W]) auto
  have val: "val w (out_isMemOp (results g)) = 1" "val w (out_isLoadOp (results g)) = 1" "val w (out_flag (results g)) = val w (in_flag (inputs g))"
    "val w (out_value (results g)) = d" "val w (out_address (results g)) = ?a"
    using p assms(1) changesD(2) [OF i(1)] by (simp_all add: w_def v)
  have "assigned w (out_isMemOp (results g))" "assigned w (out_isLoadOp (results g))" "assigned w (out_flag (results g))" "assigned w (in_flag (inputs g))"
    using p assms(1) changesD(2) [OF i(1)] assms(3) changesD(4) [OF i(1)] by (simp_all add: w_def load_pre_def alu_pre_def input_vars_def)
  then have "sat Op_LOADW (LOADW_constraints g) w" using val
    by (auto intro!: holdsI simp: LOADW_constraints_def pv_simps lv_simps)
  then show ?thesis using g c val(4,5) d by blast
qed

lemma load_pre_tagged: "pb_inv pb \<Longrightarrow> load_pre g pb \<Longrightarrow> load_pre g (add_tagged cs pb)"
  using alu_pre_tagged [of pb g cs] val_same [of "add_tagged cs pb" pb] by (simp add: load_pre_def add_tagged_facts)

interpretation alu_jmp: alu_component Op_JMP JMP_constraints JMP_generateWitness alu_pre "{4..<155}"
  unfolding JMP_constraints_def JMP_generateWitness_def by unfold_locales (use copy_board in blast, rule alu_pre_tagged)

interpretation alu_cjmp: alu_component Op_CJMP CJMP_constraints CJMP_generateWitness alu_pre "{4..<155}"
  unfolding CJMP_constraints_def CJMP_generateWitness_def by unfold_locales (use copy_board in blast, rule alu_pre_tagged)

interpretation alu_cnjmp: alu_component Op_CNJMP CNJMP_constraints CNJMP_generateWitness alu_pre "{4..<155}"
  unfolding CNJMP_constraints_def CNJMP_generateWitness_def by unfold_locales (use copy_board in blast, rule alu_pre_tagged)

interpretation alu_mov: alu_component Op_MOV MOV_constraints MOV_generateWitness alu_pre "{4..<155}"
  unfolding MOV_generateWitness_def by unfold_locales (use copy_board in blast, rule alu_pre_tagged)

interpretation alu_storew: alu_component Op_STOREW STOREW_constraints STOREW_generateWitness alu_pre "{4} \<union> {6..<155}"
  by unfold_locales (use STOREW_runs in blast, rule alu_pre_tagged)

interpretation alu_loadw: alu_component Op_LOADW LOADW_constraints LOADW_generateWitness load_pre "{4} \<union> {6..<155}"
  by unfold_locales (use LOADW_runs in blast, rule load_pre_tagged)

section \<open>Correctness\<close>

text \<open>Property C32. Moves and memory accesses. Every assignment that satisfies the constraints of the jumps or of
  \<open>MOV\<close> passes the second argument and the flag on; those of \<open>STOREW\<close> and \<open>LOADW\<close> mark the
  step as a store of the destination's value or as a load. The witness code of \<open>STOREW\<close> changes the
  memory at the address in the second argument and nowhere else, and that of a following \<open>LOADW\<close> at this
  address reports the stored value; \<open>LOADW\<close> fails an assertion at an address that was never written. On a
  satisfied board the witness code of all six satisfies the opcode's system.\<close>

theorem alu_move_correct:
  assumes "alu_wf g" "pb_inv pb"
  shows "(sat Op_JMP (JMP_constraints g) pb \<longrightarrow> val pb (out_result (results g)) = val pb (arg2_val (inputs g)) \<and> val pb (out_flag (results g)) = val pb (in_flag (inputs g)))
    \<and> (sat Op_CJMP (CJMP_constraints g) pb \<longrightarrow> val pb (out_result (results g)) = val pb (arg2_val (inputs g)) \<and> val pb (out_flag (results g)) = val pb (in_flag (inputs g)))
    \<and> (sat Op_CNJMP (CNJMP_constraints g) pb \<longrightarrow> val pb (out_result (results g)) = val pb (arg2_val (inputs g)) \<and> val pb (out_flag (results g)) = val pb (in_flag (inputs g)))
    \<and> (sat Op_MOV (MOV_constraints g) pb \<longrightarrow> val pb (out_result (results g)) = val pb (arg2_val (inputs g)) \<and> val pb (out_flag (results g)) = val pb (in_flag (inputs g)))
    \<and> (sat Op_STOREW (STOREW_constraints g) pb \<longrightarrow> val pb (out_isMemOp (results g)) = 1 \<and> val pb (out_isLoadOp (results g)) = 0
      \<and> val pb (out_value (results g)) = val pb (dest_val (inputs g)) \<and> val pb (out_flag (results g)) = val pb (in_flag (inputs g)))
    \<and> (sat Op_LOADW (LOADW_constraints g) pb \<longrightarrow> val pb (out_isMemOp (results g)) = 1 \<and> val pb (out_isLoadOp (results g)) = 1
      \<and> val pb (out_flag (results g)) = val pb (in_flag (inputs g)))
    \<and> (alu_pre g pb \<longrightarrow> (\<exists>w. STOREW_generateWitness g pb = Inr w \<and> val w (out_address (results g)) = val pb (arg2_val (inputs g))
      \<and> loadValue (val pb (arg2_val (inputs g))) w = Inr (val pb (dest_val (inputs g)))
      \<and> (\<forall>a. a \<noteq> val pb (arg2_val (inputs g)) \<longrightarrow> loadValue a w = loadValue a pb)
      \<and> (\<exists>x. LOADW_generateWitness g w = Inr x \<and> val x (out_address (results g)) = val pb (arg2_val (inputs g)) \<and> val x (out_value (results g)) = val pb (dest_val (inputs g)))))
    \<and> (loadValue (val pb (arg2_val (inputs g))) pb = Inl AssertFailed \<longrightarrow> LOADW_generateWitness g pb = Inl AssertFailed)
    \<and> (alu_pre g pb \<longrightarrow> (ready Op_JMP (alu_written g) pb \<longrightarrow> res_bind (JMP_generateWitness g (add_tagged (JMP_constraints g) pb)) (pb_isSatisfied Op_JMP) = Inr True)
      \<and> (ready Op_CJMP (alu_written g) pb \<longrightarrow> res_bind (CJMP_generateWitness g (add_tagged (CJMP_constraints g) pb)) (pb_isSatisfied Op_CJMP) = Inr True)
      \<and> (ready Op_CNJMP (alu_written g) pb \<longrightarrow> res_bind (CNJMP_generateWitness g (add_tagged (CNJMP_constraints g) pb)) (pb_isSatisfied Op_CNJMP) = Inr True)
      \<and> (ready Op_MOV (alu_written g) pb \<longrightarrow> res_bind (MOV_generateWitness g (add_tagged (MOV_constraints g) pb)) (pb_isSatisfied Op_MOV) = Inr True)
      \<and> (ready Op_STOREW (alu_written g) pb \<longrightarrow> res_bind (STOREW_generateWitness g (add_tagged (STOREW_constraints g) pb)) (pb_isSatisfied Op_STOREW) = Inr True)
      \<and> (loadValue (val pb (arg2_val (inputs g))) pb \<noteq> Inl AssertFailed \<longrightarrow> ready Op_LOADW (alu_written g) pb \<longrightarrow>
        res_bind (LOADW_generateWitness g (add_tagged (LOADW_constraints g) pb)) (pb_isSatisfied Op_LOADW) = Inr True))"
proof (intro conjI impI)
  note p = alu_positions [OF assms(1)] and W = alu_written_positions(1) [OF assms(1)]
  have sub: "ready op (alu_written g) pb \<Longrightarrow> ready op (ix g ` ({4} \<union> {6..<155})) pb" for op
    unfolding W ready_def by (force simp: disjoint_iff)
  show "LOADW_generateWitness g pb = Inl AssertFailed" if "loadValue (val pb (arg2_val (inputs g))) pb = Inl AssertFailed"
    using that by (intro LOADW_unset [OF assms]) (simp add: loadValue_def split: option.splits)
  assume pre: "alu_pre g pb"
  obtain w where w: "STOREW_generateWitness g pb = Inr w" "changes (ix g ` ({4} \<union> {6..<155})) pb w" "val w (out_address (results g)) = val pb (arg2_val (inputs g))"
    "memory w = map_put (val pb (arg2_val (inputs g))) (val pb (dest_val (inputs g))) (memory pb)" using STOREW_runs [OF assms pre] by blast
  have m: "map_inv (memory pb)" using assms(2) by (simp add: pb_inv_def)
  have same: "val w (arg2_val (inputs g)) = val pb (arg2_val (inputs g))" using changes_val [OF w(2) assms(1) _ p(2)] by auto
  have ld: "loadValue (val pb (arg2_val (inputs g))) w = Inr (val pb (dest_val (inputs g)))" "\<forall>a. a \<noteq> val pb (arg2_val (inputs g)) \<longrightarrow> loadValue a w = loadValue a pb"
    by (simp_all add: loadValue_def w(4) map_find_put [OF m])
  have "load_pre g w" using pre changesD(4) [OF w(2)] by (simp add: load_pre_def alu_pre_def same w(4) map_find_put [OF m])
  then obtain x where x: "LOADW_generateWitness g w = Inr x" "val x (out_address (results g)) = val pb (arg2_val (inputs g))"
      "map_find (memory w) (val pb (arg2_val (inputs g))) = Some (val x (out_value (results g)))"
    using LOADW_runs [OF assms(1) changesD(2) [OF w(2)]] same by auto
  then have "val x (out_value (results g)) = val pb (dest_val (inputs g))" by (simp add: w(4) map_find_put [OF m])
  then show "\<exists>w. STOREW_generateWitness g pb = Inr w \<and> val w (out_address (results g)) = val pb (arg2_val (inputs g))
      \<and> loadValue (val pb (arg2_val (inputs g))) w = Inr (val pb (dest_val (inputs g)))
      \<and> (\<forall>a. a \<noteq> val pb (arg2_val (inputs g)) \<longrightarrow> loadValue a w = loadValue a pb)
      \<and> (\<exists>x. LOADW_generateWitness g w = Inr x \<and> val x (out_address (results g)) = val pb (arg2_val (inputs g)) \<and> val x (out_value (results g)) = val pb (dest_val (inputs g)))"
    using w(1,3) ld x(1,2) by blast
  show "res_bind (JMP_generateWitness g (add_tagged (JMP_constraints g) pb)) (pb_isSatisfied Op_JMP) = Inr True" if "ready Op_JMP (alu_written g) pb"
    using alu_jmp.satisfied [OF assms pre] that by (simp add: W)
  show "res_bind (CJMP_generateWitness g (add_tagged (CJMP_constraints g) pb)) (pb_isSatisfied Op_CJMP) = Inr True" if "ready Op_CJMP (alu_written g) pb"
    using alu_cjmp.satisfied [OF assms pre] that by (simp add: W)
  show "res_bind (CNJMP_generateWitness g (add_tagged (CNJMP_constraints g) pb)) (pb_isSatisfied Op_CNJMP) = Inr True" if "ready Op_CNJMP (alu_written g) pb"
    using alu_cnjmp.satisfied [OF assms pre] that by (simp add: W)
  show "res_bind (MOV_generateWitness g (add_tagged (MOV_constraints g) pb)) (pb_isSatisfied Op_MOV) = Inr True" if "ready Op_MOV (alu_written g) pb"
    using alu_mov.satisfied [OF assms pre] that by (simp add: W)
  show "res_bind (STOREW_generateWitness g (add_tagged (STOREW_constraints g) pb)) (pb_isSatisfied Op_STOREW) = Inr True" if "ready Op_STOREW (alu_written g) pb"
    by (rule alu_storew.satisfied [OF assms pre sub [OF that]])
  show "res_bind (LOADW_generateWitness g (add_tagged (LOADW_constraints g) pb)) (pb_isSatisfied Op_LOADW) = Inr True"
    if "loadValue (val pb (arg2_val (inputs g))) pb \<noteq> Inl AssertFailed" "ready Op_LOADW (alu_written g) pb"
  proof (rule alu_loadw.satisfied [OF assms _ sub [OF that(2)]])
    show "load_pre g pb" using pre that(1) by (auto simp: load_pre_def loadValue_def split: option.splits)
  qed
qed (simp_all add: copy_sound [of Op_JMP] copy_sound [of Op_CJMP] copy_sound [of Op_CNJMP] copy_sound [of Op_MOV] JMP_constraints_def CJMP_constraints_def CNJMP_constraints_def STOREW_sound LOADW_sound)

theorem alu_move_correct_witness:
  "\<exists>w. STOREW_generateWitness sample_component (sample_board 0 7 9 0) = Inr w \<and>
    (\<exists>x. LOADW_generateWitness sample_component w = Inr x \<and> val x (out_value (results sample_component)) = fe 9)"
proof -
  note c = alu_move_correct [OF sample_component_wf sample_board_facts(1), THEN conjunct2, THEN conjunct2, THEN conjunct2, THEN conjunct2, THEN conjunct2,
      THEN conjunct2, THEN conjunct1, THEN mp, OF sample_board_facts(2), of 0 7 9 0]
  then show ?thesis unfolding sample_board_facts(6) by blast
qed

end
