(* ===== verification/GeneratorOrder.thy ===== *)
theory GeneratorOrder
  imports MultiplicationGadgets GreaterEqualGadget
begin

text \<open>
  The generator \<open>getGF2E_X\<close> has an order of more than \<open>2 ^ 32\<close>, so that an exponent of up to 32
  bits is determined by the power. The multiplication gadgets work with powers of this generator,
  and the soundness of the opcodes that are built from them rests on this fact. The order
  divides \<open>2 ^ 64 - 1\<close>, and the prime factors 257, 641 and 65537 of this number divide the order
  because the power for the complementary factor is not 1.
\<close>

section \<open>Powers of the generator\<close>

lemma X_fe: "getGF2E_X = fe 2"
  by (simp add: getGF2E_X_def xFE_eval)

lemma fe_times: "a < 2 ^ 64 \<Longrightarrow> b < 2 ^ 64 \<Longrightarrow> fe a * fe b = fe (rmul a b)"
  using fe_unat [of "fe a * fe b"] by (simp add: times_FieldElement_def felem_times_def c_mul_rmul unat_fe)

text \<open>Square and multiply along the binary digits of the exponent.\<close>

fun xpow :: "num \<Rightarrow> nat" where
  "xpow num.One = 2"
| "xpow (num.Bit0 n) = rsq (xpow n)"
| "xpow (num.Bit1 n) = rmul 2 (rsq (xpow n))"

lemma xpow_power: "xpow n < 2 ^ 64" "getGF2E_X ^ numeral n = fe (xpow n)"
proof -
  have "xpow n < 2 ^ 64 \<and> getGF2E_X ^ numeral n = fe (xpow n)"
  proof (induction n)
    case One
    show ?case by (simp add: X_fe)
  next
    case (Bit0 n)
    then have "getGF2E_X ^ (numeral n + numeral n) = fe (rsq (xpow n))" unfolding power_add rsq_rmul by (simp add: fe_times)
    then show ?case using Bit0 rmul_less [of "xpow n" "xpow n"] unfolding numeral_Bit0 [symmetric] xpow.simps rsq_rmul by simp
  next
    case (Bit1 n)
    have r: "rsq (xpow n) < 2 ^ 64" unfolding rsq_rmul using Bit1 by (intro rmul_less) simp_all
    have "getGF2E_X ^ (numeral n + numeral n) = fe (rsq (xpow n))" unfolding power_add rsq_rmul using Bit1 by (simp add: fe_times)
    then have "getGF2E_X ^ (numeral n + numeral n + 1) = fe (rmul 2 (rsq (xpow n)))"
      using fe_times [OF _ r, of 2] unfolding power_add power_one_right by (simp only: X_fe mult.commute) simp
    then show ?case using rmul_less [OF _ r, of 2] unfolding numeral_Bit1 [symmetric] xpow.simps by simp
  qed
  then show "xpow n < 2 ^ 64" "getGF2E_X ^ numeral n = fe (xpow n)" by blast+
qed

lemma pmul_2: "pmul 2 b = 2 * b"
  by (simp add: pmul_rec [of 2] pmul_rec [of 1])

lemma fe_neq_1: "a < 2 ^ 64 \<Longrightarrow> a \<noteq> 1 \<Longrightarrow> fe a \<noteq> 1"
  by (metis fe_1 one_less_numeral_iff semiring_norm(76) unat_fe one_less_power pos2 zero_less_numeral)

lemmas xpow_eval = rmul_def pmul_2 rsq_eval

lemma X_powers:
  "getGF2E_X ^ 71777214294589695 \<noteq> 1" "getGF2E_X ^ 28778071877862015 \<noteq> 1" "getGF2E_X ^ 281470681808895 \<noteq> 1"
  unfolding xpow_power(2) by (rule fe_neq_1 [OF xpow_power(1)], simp add: xpow_eval)+

section \<open>Three prime factors\<close>

lemma divisor_check:
  fixes p d :: nat
  assumes "list_all (\<lambda>d. int p mod d \<noteq> 0) [2..int n]" "0 < p" "p < (n + 1) * (n + 1)" "d dvd p"
  shows "d = 1 \<or> d = p"
proof -
  obtain k where k: "p = d * k" using assms(4) by blast
  have small: "e \<le> 1" if "e dvd p" "e \<le> n" for e
  proof (rule ccontr)
    assume "\<not> e \<le> 1"
    then have "int p mod int e \<noteq> 0" using assms(1) that(2) by (simp add: list_all_iff)
    then show False using that(1) by (simp add: zmod_int [symmetric] mod_eq_0_iff_dvd)
  qed
  have "d \<le> n \<or> k \<le> n"
  proof (rule ccontr)
    assume "\<not> (d \<le> n \<or> k \<le> n)"
    then have "(n + 1) * (n + 1) \<le> d * k" by (intro mult_le_mono) simp_all
    then show False using assms(3) k by simp
  qed
  then have "d \<le> 1 \<or> k \<le> 1" using small [of d] small [of k] k by auto
  moreover have "0 < d" "0 < k" using assms(2) k by (auto intro: Nat.gr0I)
  ultimately show ?thesis using k by auto
qed

definition no_divisors :: "nat \<Rightarrow> bool" where
  "no_divisors p \<longleftrightarrow> (\<forall>d. d dvd p \<longrightarrow> d = 1 \<or> d = p)"

lemma primes: "no_divisors 257" "no_divisors 641" "no_divisors 65537"
proof -
  have "list_all (\<lambda>d. int 257 mod d \<noteq> 0) [2..int 16]" "list_all (\<lambda>d. int 641 mod d \<noteq> 0) [2..int 25]" "list_all (\<lambda>d. int 65537 mod d \<noteq> 0) [2..int 256]"
    by (simp only: of_nat_numeral, code_simp)+
  note c = this [THEN divisor_check]
  show "no_divisors 257" "no_divisors 641" "no_divisors 65537" unfolding no_divisors_def using c by simp_all
qed

lemma no_divisors_coprime: "no_divisors p \<Longrightarrow> \<not> p dvd e \<Longrightarrow> coprime e p"
  unfolding no_divisors_def by (metis coprime_iff_gcd_eq_1 gcd_dvd1 gcd_dvd2)

section \<open>The order\<close>

lemma X_full: "getGF2E_X ^ (2 ^ 64 - 1) = 1"
proof -
  have "getGF2E_X ^ (2 ^ 64 - 1) * getGF2E_X = getGF2E_X ^ (2 ^ 64)" by (metis power_minus_mult zero_less_numeral zero_less_power)
  then show ?thesis using fermat [of getGF2E_X] g_neq(1) by (metis mult_cancel_right1)
qed

lemma order_divisor:
  assumes "getGF2E_X ^ e = 1" "e dvd p * k" "getGF2E_X ^ k \<noteq> 1" "no_divisors p"
  shows "p dvd e"
proof (rule ccontr)
  assume "\<not> p dvd e"
  then have "e dvd k" using no_divisors_coprime [OF assms(4)] assms(2) by (simp add: coprime_dvd_mult_right_iff)
  then show False using assms(1,3) by (metis dvdE power_mult power_one)
qed

theorem X_order:
  assumes "getGF2E_X ^ m = 1" "m < 2 ^ 32"
  shows "m = 0"
proof (rule ccontr)
  assume m: "m \<noteq> 0"
  define e where "e = gcd m (2 ^ 64 - 1)"
  obtain x y where "m * x = (2 ^ 64 - 1) * y + e" using bezout_nat [OF m, of "2 ^ 64 - 1"] unfolding e_def by blast
  then have "getGF2E_X ^ (m * x) = getGF2E_X ^ ((2 ^ 64 - 1) * y) * getGF2E_X ^ e" by (simp only: power_add)
  then have e: "getGF2E_X ^ e = 1" using assms(1) X_full by (simp only: power_mult power_one mult_1_left)
  have d: "e dvd 2 ^ 64 - 1" "e dvd m" "e \<noteq> 0" using m by (simp_all add: e_def)
  have "257 dvd e" "641 dvd e" "65537 dvd e"
    using order_divisor [OF e _ X_powers(1) primes(1)] order_divisor [OF e _ X_powers(2) primes(2)] order_divisor [OF e _ X_powers(3) primes(3)] d(1) by simp_all
  moreover have "coprime (257 :: nat) 641" "coprime (257 * 641 :: nat) 65537" by (rule no_divisors_coprime [OF primes(2)] no_divisors_coprime [OF primes(3)]; simp)+
  ultimately have "257 * 641 * 65537 dvd e" by (meson divides_mult)
  then have "257 * 641 * 65537 \<le> e" using d(3) by (intro dvd_imp_le) auto
  moreover have "e \<le> m" using d(2) m by (intro dvd_imp_le) auto
  ultimately show False using assms(2) by simp
qed

text \<open>Exponents that differ by less than \<open>2 ^ 32\<close> are determined by the power.\<close>

theorem X_powi_inject:
  assumes "getGF2E_X powi a = getGF2E_X powi b" "\<bar>a - b\<bar> < 2 ^ 32"
  shows "a = b"
proof -
  have *: "a = b" if "getGF2E_X powi a = getGF2E_X powi b" "b \<le> a" "a - b < 2 ^ 32" for a b
  proof -
    have "getGF2E_X powi (a - b) = 1" using that(1) g_neq(1) by (simp add: power_int_diff)
    then have "getGF2E_X ^ nat (a - b) = 1" using that(2) by (simp add: power_int_def)
    moreover have "nat (a - b) < 2 ^ 32" using that(3) by simp
    ultimately show ?thesis using X_order [of "nat (a - b)"] that(2) by simp
  qed
  show ?thesis using * [of a b] * [of b a] assms by (cases "b \<le> a") auto
qed

end
