(* ===== verification/MemoryConstraints.thy ===== *)
theory MemoryConstraints
  imports AluComponent GeneratorOrder
begin

text \<open>
  \<open>MemoryConsraints.cpp\<close>: the constraints between two neighbouring rows of the memory trace, sorted by
  address and time. The gadget compares the two addresses and the two timestamps (powers of the
  generator) bit by bit, and gates everything with the second row's \<open>isMemOp\<close>. The last section lifts the
  constraints on neighbours to a whole trace: a load returns what the access before it left at its address.
\<close>

section \<open>The gadget\<close>

record MemoryTraceVariables =
  mt_isMemOp :: Variable
  mt_address :: Variable
  mt_value :: Variable
  mt_isLoad :: Variable
  mt_timeStamp :: Variable

record MemoryConstraints_Gadget =
  mc_first :: MemoryTraceVariables
  mc_second :: MemoryTraceVariables
  mc_vars :: ALUVariables

text \<open>The gadgets that \<open>init\<close> creates, over the scratch variables the constructor selects.\<close>

definition unpackAddr1_g :: "MemoryConstraints_Gadget \<Rightarrow> CompressionPacking_Gadget" where
  "unpackAddr1_g m = unpacker Op_MEMORY (unpackedArg1 (mc_vars m)) (mt_address (mc_first m))"

definition unpackAddr2_g :: "MemoryConstraints_Gadget \<Rightarrow> CompressionPacking_Gadget" where
  "unpackAddr2_g m = unpacker Op_MEMORY (unpackedArg2 (mc_vars m)) (mt_address (mc_second m))"

definition addressIsGEQ :: "MemoryConstraints_Gadget \<Rightarrow> Variable" where
  "addressIsGEQ m = opcodeAux3 (mc_vars m) ! 0"

definition timestampIsGEQ :: "MemoryConstraints_Gadget \<Rightarrow> Variable" where
  "timestampIsGEQ m = opcodeAux4 (mc_vars m) ! 0"

definition compareAddresses :: "MemoryConstraints_Gadget \<Rightarrow> GreaterEqual_Gadget" where
  "compareAddresses m = \<lparr>ge_var1 = unpackedArg2 (mc_vars m), ge_var2 = unpackedArg1 (mc_vars m), ge_flags = opcodeAux3 (mc_vars m),
     ge_flagGEQ = addressIsGEQ m, ge_isSigned = False, ge_opcode = Op_MEMORY\<rparr>"

definition unpackTimestamp1_g :: "MemoryConstraints_Gadget \<Rightarrow> MultiplicationPacking_Gadget" where
  "unpackTimestamp1_g m = \<lparr>mp_packingMode = UNPACK, mp_unpacked = opcodeAux1 (mc_vars m), mp_partials = opcodeAux5 (mc_vars m),
     mp_packed = mt_timeStamp (mc_first m), mp_isSigned = False, mp_opcode = Op_MEMORY\<rparr>"

definition unpackTimestamp2_g :: "MemoryConstraints_Gadget \<Rightarrow> MultiplicationPacking_Gadget" where
  "unpackTimestamp2_g m = \<lparr>mp_packingMode = UNPACK, mp_unpacked = opcodeAux2 (mc_vars m), mp_partials = opcodeAux6 (mc_vars m),
     mp_packed = mt_timeStamp (mc_second m), mp_isSigned = False, mp_opcode = Op_MEMORY\<rparr>"

definition compareTimestamps_g :: "MemoryConstraints_Gadget \<Rightarrow> GreaterEqual_Gadget" where
  "compareTimestamps_g m = \<lparr>ge_var1 = opcodeAux2 (mc_vars m), ge_var2 = opcodeAux1 (mc_vars m), ge_flags = opcodeAux4 (mc_vars m),
     ge_flagGEQ = timestampIsGEQ m, ge_isSigned = False, ge_opcode = Op_MEMORY\<rparr>"

text \<open>\<open>init\<close>: the assertions of the constructors it calls.\<close>

definition MemoryConstraints_create :: "MemoryConstraints_Gadget \<Rightarrow> MemoryConstraints_Gadget result" where
  "MemoryConstraints_create m = res_bind (GreaterEqual_create (compareAddresses m)) (\<lambda>_.
     res_bind (MultiplicationPacking_create (unpackTimestamp1_g m)) (\<lambda>_.
     res_bind (MultiplicationPacking_create (unpackTimestamp2_g m)) (\<lambda>_.
     res_bind (GreaterEqual_create (compareTimestamps_g m)) (\<lambda>_. Inr m))))"

definition gate_memory :: "MemoryConstraints_Gadget \<Rightarrow> Constraint \<Rightarrow> Protoboard \<Rightarrow> Protoboard" where
  "gate_memory m c pb = addGeneralConstraint (cp_times (constraint_poly c) (cp_var (mt_isMemOp (mc_second m))))
     (''isMemOp*isMemOp' * '' @ constraint_name c) Op_MEMORY pb"

definition memory_rules :: "MemoryConstraints_Gadget \<Rightarrow> (CircuitPolynomial \<times> string) list" where
  "memory_rules m = (let op1 = mt_isMemOp (mc_first m); op2 = mt_isMemOp (mc_second m); a = addressIsGEQ m; t = timestampIsGEQ m;
     plus1 = \<lambda>v. cp_lc (lc_plus (lc_var v) (lc_const 1)) in
     [(cp_times (plus1 op1) (cp_var op2), ''(1 - isMemOp)* isMemOp'' @ [CHR 0x27]),
      (cp_times (cp_times (cp_lc (lc_plus (lc_var a) (lc_const getGF2E_X))) (cp_var op2)) (plus1 a),
        ''isMemOp * isMemOp' * (1 + addrflagEqual) * (1 + addrflagGreater)''),
      (cp_times (cp_times (cp_times (cp_times (cp_var op2) (cp_var a)) (plus1 a)) (cp_var (mt_isLoad (mc_second m))))
          (cp_lc (lc_plus (lc_var (mt_value (mc_first m))) (lc_var (mt_value (mc_second m))))),
        ''isMemOp* isMemOp' *addrflagEqual*isLoad' *(value - value') = 0''),
      (cp_times (cp_times (cp_times (cp_var op2) (cp_var a)) (plus1 a)) (plus1 t),
        ''isMemOp * isMemOp' * addrflagEqual *(1 +  timestampflagGreater)'')])"

definition MemoryConstraints_generateConstraints :: "MemoryConstraints_Gadget \<Rightarrow> Protoboard \<Rightarrow> Protoboard result" where
  "MemoryConstraints_generateConstraints m pb = (if pb_constraintSystem Op_MEMORY pb \<noteq> [] then Inl AssertFailed else
     let pb = CompressionPacking_generateConstraints (unpackAddr1_g m) pb;
         pb = CompressionPacking_generateConstraints (unpackAddr2_g m) pb;
         pb = GreaterEqual_generateConstraints (compareAddresses m) pb in
     res_bind (MultiplicationPacking_generateConstraints (unpackTimestamp1_g m) pb) (\<lambda>pb.
     res_bind (MultiplicationPacking_generateConstraints (unpackTimestamp2_g m) pb) (\<lambda>pb.
     let pb = GreaterEqual_generateConstraints (compareTimestamps_g m) pb;
         cons = pb_constraintSystem Op_MEMORY pb;
         pb = clearConstraintSystem Op_MEMORY pb;
         pb = fold (gate_memory m) cons pb in
     Inr (fold (\<lambda>(p, nm). addMemoryConstraint p nm) (memory_rules m) pb))))"

definition MemoryConstraints_generateWitness :: "MemoryConstraints_Gadget \<Rightarrow> Protoboard \<Rightarrow> Protoboard result" where
  "MemoryConstraints_generateWitness m pb = (
     let pb = CompressionPacking_generateWitness (unpackAddr1_g m) pb;
         pb = CompressionPacking_generateWitness (unpackAddr2_g m) pb in
     res_bind (GreaterEqual_generateWitness (compareAddresses m) pb) (\<lambda>pb.
     res_bind (getDegreeOfFElem (val pb (mt_timeStamp (mc_first m))) pb) (\<lambda>degree1.
     res_bind (getDegreeOfFElem (val pb (mt_timeStamp (mc_second m))) pb) (\<lambda>degree2.
     res_bind (MultiplicationPacking_generateWitness (unpackTimestamp1_g m) (int degree1) pb) (\<lambda>pb.
     res_bind (MultiplicationPacking_generateWitness (unpackTimestamp2_g m) (int degree2) pb) (\<lambda>pb.
     GreaterEqual_generateWitness (compareTimestamps_g m) pb))))))"

section \<open>The system of the gadget\<close>

definition mc_pieces :: "MemoryConstraints_Gadget \<Rightarrow> (CircuitPolynomial \<times> string) list" where
  "mc_pieces m = CompressionPacking_constraints (unpackAddr1_g m) @ CompressionPacking_constraints (unpackAddr2_g m)
     @ GreaterEqual_constraints (compareAddresses m) @ MultiplicationPacking_constraints (unpackTimestamp1_g m)
     @ MultiplicationPacking_constraints (unpackTimestamp2_g m) @ GreaterEqual_constraints (compareTimestamps_g m)"

definition mc_polys :: "MemoryConstraints_Gadget \<Rightarrow> CircuitPolynomial list" where
  "mc_polys m = map (\<lambda>(p, nm). cp_times p (cp_var (mt_isMemOp (mc_second m)))) (mc_pieces m) @ map fst (memory_rules m)"

text \<open>The variables, in the order of a component of the arithmetic unit, whose positions are used below.\<close>

definition mc_component :: "MemoryConstraints_Gadget \<Rightarrow> ALU_Component_Gadget" where
  "mc_component m = \<lparr>inputs = \<lparr>arg1_val = mt_address (mc_first m), arg2_val = mt_address (mc_second m), dest_val = mt_timeStamp (mc_first m),
       in_flag = mt_timeStamp (mc_second m), in_pc = []\<rparr>,
     results = \<lparr>out_flag = mt_isMemOp (mc_first m), out_result = mt_isMemOp (mc_second m), out_isMemOp = mt_value (mc_first m),
       out_address = mt_value (mc_second m), out_isLoadOp = mt_isLoad (mc_first m), out_value = mt_isLoad (mc_second m)\<rparr>,
     vars = mc_vars m, registerLength = 16, standAlone = False\<rparr>"

definition mc_wf :: "MemoryConstraints_Gadget \<Rightarrow> bool" where
  "mc_wf m \<longleftrightarrow> alu_wf (mc_component m)"

lemma mc_component_simps [simp]:
  "vars (mc_component m) = mc_vars m" "arg1_val (inputs (mc_component m)) = mt_address (mc_first m)"
  "arg2_val (inputs (mc_component m)) = mt_address (mc_second m)" "dest_val (inputs (mc_component m)) = mt_timeStamp (mc_first m)"
  "in_flag (inputs (mc_component m)) = mt_timeStamp (mc_second m)"
  "out_flag (results (mc_component m)) = mt_isMemOp (mc_first m)" "out_result (results (mc_component m)) = mt_isMemOp (mc_second m)"
  "out_isMemOp (results (mc_component m)) = mt_value (mc_first m)" "out_address (results (mc_component m)) = mt_value (mc_second m)"
  "out_isLoadOp (results (mc_component m)) = mt_isLoad (mc_first m)" "out_value (results (mc_component m)) = mt_isLoad (mc_second m)"
  by (simp_all add: mc_component_def)

lemmas mc_positions = alu_positions [of "mc_component m" for m, unfolded mc_component_simps, folded mc_wf_def]
lemmas mc_arrays = alu_arrays [of "mc_component m" for m, unfolded mc_component_simps, folded mc_wf_def]
lemmas mc_lengths = alu_lengths [of "mc_component m" for m, unfolded mc_component_simps, folded mc_wf_def]

lemma system_add_constraints:
  "pb_inv pb \<Longrightarrow> map constraint_poly (pb_constraintSystem op (add_constraints op cs pb)) = map constraint_poly (pb_constraintSystem op pb) @ map fst cs"
  by (auto simp: add_constraints_facts)

lemma memory_fold:
  assumes "pb_inv pb"
  shows "pb_inv (fold (gate_memory m) cs pb)" "assignment (fold (gate_memory m) cs pb) = assignment pb"
    "map constraint_poly (pb_constraintSystem Op_MEMORY (fold (gate_memory m) cs pb)) = map constraint_poly (pb_constraintSystem Op_MEMORY pb)
      @ map (\<lambda>c. cp_times (constraint_poly c) (cp_var (mt_isMemOp (mc_second m)))) cs"
    "pb_inv (fold (\<lambda>(p, nm). addMemoryConstraint p nm) es pb)" "assignment (fold (\<lambda>(p, nm). addMemoryConstraint p nm) es pb) = assignment pb"
    "map constraint_poly (pb_constraintSystem Op_MEMORY (fold (\<lambda>(p, nm). addMemoryConstraint p nm) es pb)) = map constraint_poly (pb_constraintSystem Op_MEMORY pb) @ map fst es"
proof -
  have "pb_inv (fold (gate_memory m) cs pb) \<and> assignment (fold (gate_memory m) cs pb) = assignment pb \<and>
    map constraint_poly (pb_constraintSystem Op_MEMORY (fold (gate_memory m) cs pb)) = map constraint_poly (pb_constraintSystem Op_MEMORY pb)
      @ map (\<lambda>c. cp_times (constraint_poly c) (cp_var (mt_isMemOp (mc_second m)))) cs"
    using assms by (induction cs arbitrary: pb) (auto simp: gate_memory_def addGeneralConstraint_system addConstraint_def)
  then show "pb_inv (fold (gate_memory m) cs pb)" "assignment (fold (gate_memory m) cs pb) = assignment pb"
    "map constraint_poly (pb_constraintSystem Op_MEMORY (fold (gate_memory m) cs pb)) = map constraint_poly (pb_constraintSystem Op_MEMORY pb)
      @ map (\<lambda>c. cp_times (constraint_poly c) (cp_var (mt_isMemOp (mc_second m)))) cs" by blast+
  have am: "addMemoryConstraint p nm = addGeneralConstraint p nm Op_MEMORY" for p nm by (simp add: fun_eq_iff addGeneralConstraint_def)
  have e: "fold (\<lambda>(p, nm). addMemoryConstraint p nm) es pb = add_constraints Op_MEMORY es pb" by (simp add: add_constraints_def am)
  show "pb_inv (fold (\<lambda>(p, nm). addMemoryConstraint p nm) es pb)" "assignment (fold (\<lambda>(p, nm). addMemoryConstraint p nm) es pb) = assignment pb"
    "map constraint_poly (pb_constraintSystem Op_MEMORY (fold (\<lambda>(p, nm). addMemoryConstraint p nm) es pb)) = map constraint_poly (pb_constraintSystem Op_MEMORY pb) @ map fst es"
    unfolding e using add_constraints_facts [OF assms] system_add_constraints [OF assms] by simp_all
qed

lemma board_kept:
  "fresh (add_constraints op es pb) = fresh pb" "degreeTranslation (add_constraints op es pb) = degreeTranslation pb"
  "fresh (fold (gate_memory m) cs pb) = fresh pb" "degreeTranslation (fold (gate_memory m) cs pb) = degreeTranslation pb"
  "fresh (fold (\<lambda>(p, nm). addMemoryConstraint p nm) es pb) = fresh pb" "degreeTranslation (fold (\<lambda>(p, nm). addMemoryConstraint p nm) es pb) = degreeTranslation pb"
proof -
  have g: "degreeTranslation (addGeneralConstraint p nm op q) = degreeTranslation q" for p nm op q
    by (simp add: addGeneralConstraint_def addMemoryConstraint_def Let_def)
  show "fresh (add_constraints op es pb) = fresh pb" "degreeTranslation (add_constraints op es pb) = degreeTranslation pb"
    unfolding add_constraints_def by (induction es arbitrary: pb) (auto simp: g)
  show "fresh (fold (gate_memory m) cs pb) = fresh pb" "degreeTranslation (fold (gate_memory m) cs pb) = degreeTranslation pb"
    by (induction cs arbitrary: pb) (auto simp: g gate_memory_def)
  show "fresh (fold (\<lambda>(p, nm). addMemoryConstraint p nm) es pb) = fresh pb" "degreeTranslation (fold (\<lambda>(p, nm). addMemoryConstraint p nm) es pb) = degreeTranslation pb"
    by (induction es arbitrary: pb) (auto simp: addMemoryConstraint_def)
qed

lemma clear_memory: "pb_inv pb \<Longrightarrow> pb_inv (clearConstraintSystem Op_MEMORY pb)" "assignment (clearConstraintSystem Op_MEMORY pb) = assignment pb"
  "pb_constraintSystem Op_MEMORY (clearConstraintSystem Op_MEMORY pb) = []"
  by (simp_all add: clearConstraintSystem_def pb_inv_def pb_constraintSystem_def)

lemma mc_system:
  assumes "mc_wf m" "pb_inv pb" "pb_constraintSystem Op_MEMORY pb = []"
  obtains pb' where "MemoryConstraints_generateConstraints m pb = Inr pb'" "pb_inv pb'" "assignment pb' = assignment pb" "fresh pb' = fresh pb"
    "degreeTranslation pb' = degreeTranslation pb" "map constraint_poly (pb_constraintSystem Op_MEMORY pb') = mc_polys m"
proof -
  note l = mc_lengths [OF assms(1)]
  define b where "b = add_constraints Op_MEMORY (mc_pieces m) pb"
  have ac: "add_constraints op cs (add_constraints op ds pb) = add_constraints op (ds @ cs) pb" for op cs ds and pb :: Protoboard
    by (simp add: add_constraints_def)
  let ?c = "clearConstraintSystem Op_MEMORY b"
  let ?d = "fold (gate_memory m) (pb_constraintSystem Op_MEMORY b) ?c"
  let ?e = "fold (\<lambda>(p, nm). addMemoryConstraint p nm) (memory_rules m) ?d"
  have b: "pb_inv b" "assignment b = assignment pb" "map constraint_poly (pb_constraintSystem Op_MEMORY b) = map fst (mc_pieces m)"
    using add_constraints_facts [OF assms(2)] system_add_constraints [OF assms(2)] assms(3) by (simp_all add: b_def)
  have "MemoryConstraints_generateConstraints m pb = Inr ?e"
    by (simp add: MemoryConstraints_generateConstraints_def assms(3) CompressionPacking_generateConstraints_def GreaterEqual_generateConstraints_def
      MultiplicationPacking_generateConstraints_def unpackTimestamp1_g_def unpackTimestamp2_g_def l b_def mc_pieces_def ac
      unpackAddr1_g_def unpackAddr2_g_def unpacker_def compareAddresses_def compareTimestamps_g_def Let_def)
  moreover have "pb_inv ?e" "assignment ?e = assignment pb" using memory_fold clear_memory b by simp_all
  moreover have "fresh ?e = fresh pb \<and> degreeTranslation ?e = degreeTranslation pb"
    by (simp add: board_kept b_def) (simp add: clearConstraintSystem_def board_kept)
  moreover have "map constraint_poly (pb_constraintSystem Op_MEMORY ?e) = mc_polys m"
  proof -
    have "map constraint_poly (pb_constraintSystem Op_MEMORY ?e) = map ((\<lambda>p. cp_times p (cp_var (mt_isMemOp (mc_second m)))) \<circ> constraint_poly) (pb_constraintSystem Op_MEMORY b) @ map fst (memory_rules m)"
      using memory_fold [OF clear_memory(1) [OF b(1)]] by (simp add: memory_fold(6) clear_memory(3) comp_def)
    also have "\<dots> = mc_polys m" unfolding map_map [symmetric] b(3) by (simp add: mc_polys_def case_prod_beta)
    finally show ?thesis .
  qed
  ultimately show thesis using that by blast
qed

section \<open>Soundness\<close>

text \<open>Comparisons and unpacked powers over arrays of a component.\<close>

lemma array_ge:
  fixes op :: Opcode
  assumes "alu_wf g" "arr g b u" "arr g c v" "arr g d f" "b + 16 \<le> 155" "c + 16 \<le> 155" "d + 16 \<le> 155"
    "({b..<b + 16} \<union> {c..<c + 16}) \<inter> {d..<d + 16} = {}"
  defines "e \<equiv> \<lparr>ge_var1 = u, ge_var2 = v, ge_flags = f, ge_flagGEQ = f ! 0, ge_isSigned = False, ge_opcode = op\<rparr>"
  shows "ge_wf e" "ge_written e = ix g ` {d..<d + 16}" "nat (ge_first e) = 15"
proof -
  note l = arr_length [OF assms(2)] arr_length [OF assms(3)] arr_length [OF assms(4)]
  have fl: "f ! 0 # tl f = f" using l(3) by (cases f) simp_all
  show first: "nat (ge_first e) = 15" by (simp add: ge_first_def e_def l)
  have "ix g ` ({b..<b + 16} \<union> {c..<c + 16}) \<inter> ix g ` {d..<d + 16} = {}" using assms(5-8) by (intro ix_disjoint [OF assms(1)]) auto
  then show "ge_wf e" using arr_distinct [OF assms(1,4,7)] arr_set [OF assms(2)] arr_set [OF assms(3)] arr_set [OF assms(4)] fl
    unfolding ge_wf_def by (simp add: e_def l ge_first_def image_Un del: list.map list.set)
  have "ge_currFlag e i = f ! i" for i by (simp add: ge_currFlag_def e_def)
  then have "ge_written e = (\<lambda>i. ix g (d + i)) ` {0..<16}" unfolding ge_written_def first
    by (intro image_cong) (use arr_index [OF assms(4)] in auto)
  also have "\<dots> = ix g ` ((+) d ` {0..<16})" unfolding image_image ..
  also have "(+) d ` {0..<16} = {d..<d + 16}" by (simp add: add.commute)
  finally show "ge_written e = ix g ` {d..<d + 16}" .
qed

lemma array_mp:
  fixes op :: Opcode
  assumes "alu_wf g" "arr g b u" "arr g c q" "b + 16 \<le> 155" "c + 16 \<le> 155" "var_index v = ix g k" "k < 155"
    "{b..<b + 16} \<inter> {c..<c + 16} = {}" "k \<notin> {b..<b + 16} \<union> {c..<c + 16}"
  defines "e \<equiv> \<lparr>mp_packingMode = UNPACK, mp_unpacked = u, mp_partials = q, mp_packed = v, mp_isSigned = False, mp_opcode = op\<rparr>"
  shows "mp_wf e" "mp_written (e, n) = ix g ` ({b..<b + 16} \<union> {c + 1..<c + 15})" "chain_targets q 15 = ix g ` {c + 1..<c + 15}"
proof -
  note l = arr_length [OF assms(2)] arr_length [OF assms(3)]
  have "chain_targets q 15 = (\<lambda>i. ix g (c + i)) ` {1..<15}" unfolding chain_targets_def
    by (intro image_cong) (use arr_index [OF assms(3)] in auto)
  also have "\<dots> = ix g ` ((+) c ` {1..<15})" unfolding image_image ..
  also have "(+) c ` {1..<15} = {c + 1..<c + 15}" by (simp add: add.commute)
  finally show t: "chain_targets q 15 = ix g ` {c + 1..<c + 15}" .
  have "map (\<lambda>i. var_index (q ! i)) [1..<15] = map (ix g) (map ((+) c) [1..<15])" using arr_index [OF assms(3)] by simp
  moreover have "distinct (map (ix g) (map ((+) c) [1..<15]))"
    by (subst ix_distinct [OF assms(1)]) (use assms(5) in \<open>auto simp: distinct_map\<close>)
  ultimately have d: "distinct (map (\<lambda>i. var_index (q ! i)) [1..<15])" by (simp only:)
  have "ix g ` {b..<b + 16} \<inter> ix g ` {c + 1..<c + 15} = {}" using assms(4,5,8) by (intro ix_disjoint [OF assms(1)]) auto
  moreover have "ix g k \<notin> ix g ` ({b..<b + 16} \<union> {c + 1..<c + 15})"
    using assms(4,5,7,9) by (subst ix_image [OF assms(1)]) auto
  ultimately show "mp_wf e" using arr_distinct [OF assms(1,2,4)] d
    by (simp add: mp_wf_def e_def l t arr_set [OF assms(2)] assms(6) image_Un)
  show "mp_written (e, n) = ix g ` ({b..<b + 16} \<union> {c + 1..<c + 15})" by (auto simp: mp_written_def e_def l t arr_set [OF assms(2)])
qed

lemma mc_gadgets:
  assumes "mc_wf m"
  shows "ge_wf (compareAddresses m)" "ge_written (compareAddresses m) = ix (mc_component m) ` {75..<91}"
    "ge_wf (compareTimestamps_g m)" "ge_written (compareTimestamps_g m) = ix (mc_component m) ` {91..<107}"
    "mp_wf (unpackTimestamp1_g m)" "mp_written (unpackTimestamp1_g m, n) = ix (mc_component m) ` ({43..<59} \<union> {108..<122})"
    "mp_wf (unpackTimestamp2_g m)" "mp_written (unpackTimestamp2_g m, n) = ix (mc_component m) ` ({59..<75} \<union> {124..<138})"
proof -
  have wf: "alu_wf (mc_component m)" using assms by (simp add: mc_wf_def)
  note a = mc_arrays [OF assms] and p = mc_positions [OF assms]
  have d: "({27..<27 + 16} \<union> {11..<11 + 16}) \<inter> {75..<75 + 16 :: nat} = {}" "({59..<59 + 16} \<union> {43..<43 + 16}) \<inter> {91..<91 + 16 :: nat} = {}"
    "{43..<43 + 16} \<inter> {107..<107 + 16 :: nat} = {}" "{59..<59 + 16} \<inter> {123..<123 + 16 :: nat} = {}" by auto
  show "ge_wf (compareAddresses m)" "ge_written (compareAddresses m) = ix (mc_component m) ` {75..<91}"
    using array_ge [OF wf a(2) a(1) a(5) _ _ _ d(1), where op = Op_MEMORY] by (simp_all add: compareAddresses_def addressIsGEQ_def)
  show "ge_wf (compareTimestamps_g m)" "ge_written (compareTimestamps_g m) = ix (mc_component m) ` {91..<107}"
    using array_ge [OF wf a(4) a(3) a(6) _ _ _ d(2), where op = Op_MEMORY] by (simp_all add: compareTimestamps_g_def timestampIsGEQ_def)
  show "mp_wf (unpackTimestamp1_g m)" "mp_written (unpackTimestamp1_g m, n) = ix (mc_component m) ` ({43..<59} \<union> {108..<122})"
    using array_mp(1,2) [OF wf a(3) a(7) _ _ p(3) _ d(3), where op = Op_MEMORY] by (simp_all add: unpackTimestamp1_g_def)
  show "mp_wf (unpackTimestamp2_g m)" "mp_written (unpackTimestamp2_g m, n) = ix (mc_component m) ` ({59..<75} \<union> {124..<138})"
    using array_mp(1,2) [OF wf a(4) a(8) _ _ p(4) _ d(4), where op = Op_MEMORY] by (simp_all add: unpackTimestamp2_g_def)
qed

text \<open>The values that satisfy the ungated constraints.\<close>

definition mc_eqs :: "MemoryConstraints_Gadget \<Rightarrow> Protoboard \<Rightarrow> bool" where
  "mc_eqs m pb \<longleftrightarrow> (\<forall>(p, nm) \<in> set (mc_pieces m). pv pb p = 0)"

lemma unpacker_pv: "length vs = 16 \<Longrightarrow> (\<forall>(p, nm) \<in> set (CompressionPacking_constraints (unpacker op vs v)). pv pb p = 0) \<longleftrightarrow> booleans pb vs"
  by (auto simp: CompressionPacking_constraints_def unpacker_def ExtensionDegree_def bool_constraint_def booleans_def boolean_def pv_booleanity)

lemma unsigned_cmp: "word_value False (map (bit_of pb) vs) = int (bnum pb vs)"
  by (simp add: word_value_def bnum_def)

lemma mc_values:
  assumes "mc_wf m" "mc_eqs m pb"
  shows "booleans pb (unpackedArg1 (mc_vars m))" "booleans pb (unpackedArg2 (mc_vars m))"
    "val pb (addressIsGEQ m) = cmp (int (bnum pb (unpackedArg2 (mc_vars m)))) (int (bnum pb (unpackedArg1 (mc_vars m))))"
    "val pb (mt_timeStamp (mc_first m)) = getGF2E_X ^ bnum pb (opcodeAux1 (mc_vars m))"
    "val pb (mt_timeStamp (mc_second m)) = getGF2E_X ^ bnum pb (opcodeAux2 (mc_vars m))"
    "val pb (timestampIsGEQ m) = cmp (int (bnum pb (opcodeAux2 (mc_vars m)))) (int (bnum pb (opcodeAux1 (mc_vars m))))"
proof -
  note l = mc_lengths [OF assms(1)] and g = mc_gadgets [OF assms(1)]
  have e: "\<forall>(p, nm) \<in> set (CompressionPacking_constraints (unpackAddr1_g m)). pv pb p = 0" "\<forall>(p, nm) \<in> set (CompressionPacking_constraints (unpackAddr2_g m)). pv pb p = 0"
    "\<forall>(p, nm) \<in> set (GreaterEqual_constraints (compareAddresses m)). pv pb p = 0" "\<forall>(p, nm) \<in> set (MultiplicationPacking_constraints (unpackTimestamp1_g m)). pv pb p = 0"
    "\<forall>(p, nm) \<in> set (MultiplicationPacking_constraints (unpackTimestamp2_g m)). pv pb p = 0" "\<forall>(p, nm) \<in> set (GreaterEqual_constraints (compareTimestamps_g m)). pv pb p = 0"
    using assms(2) by (simp_all add: mc_eqs_def mc_pieces_def ball_Un)
  show b: "booleans pb (unpackedArg1 (mc_vars m))" "booleans pb (unpackedArg2 (mc_vars m))"
    using e(1,2) unpacker_pv [OF l(1)] unpacker_pv [OF l(2)] by (simp_all add: unpackAddr1_g_def unpackAddr2_g_def)
  have t: "mp_chain (unpackTimestamp1_g m) pb" "booleans pb (opcodeAux1 (mc_vars m))" "mp_chain (unpackTimestamp2_g m) pb" "booleans pb (opcodeAux2 (mc_vars m))"
    using e(4,5) unfolding mp_constraints_iff by (simp_all add: unpackTimestamp1_g_def unpackTimestamp2_g_def booleans_def)
  show "val pb (mt_timeStamp (mc_first m)) = getGF2E_X ^ bnum pb (opcodeAux1 (mc_vars m))"
    using mp_chain_power [OF t(1)] t(2) by (simp add: unpackTimestamp1_g_def l booleans_def unsigned_cmp)
  show "val pb (mt_timeStamp (mc_second m)) = getGF2E_X ^ bnum pb (opcodeAux2 (mc_vars m))"
    using mp_chain_power [OF t(3)] t(4) by (simp add: unpackTimestamp2_g_def l booleans_def unsigned_cmp)
  show "val pb (addressIsGEQ m) = cmp (int (bnum pb (unpackedArg2 (mc_vars m)))) (int (bnum pb (unpackedArg1 (mc_vars m))))"
    using ge_flag_value [OF g(1)] ge_constraints_iff [OF g(1)] e(3) b by (simp add: compareAddresses_def booleans_def ball_Un ge_value_def unsigned_cmp)
  show "val pb (timestampIsGEQ m) = cmp (int (bnum pb (opcodeAux2 (mc_vars m)))) (int (bnum pb (opcodeAux1 (mc_vars m))))"
    using ge_flag_value [OF g(3)] ge_constraints_iff [OF g(3)] e(6) t(2,4) by (simp add: compareTimestamps_g_def booleans_def ball_Un ge_value_def unsigned_cmp)
qed

lemma mc_plain:
  assumes "mc_wf m"
  shows "(p, nm) \<in> set (mc_pieces m) \<Longrightarrow> plain p" "(p, nm) \<in> set (memory_rules m) \<Longrightarrow> plain p" "p \<in> set (mc_polys m) \<Longrightarrow> plain p"
proof -
  note g = mc_gadgets [OF assms] and l = mc_lengths [OF assms]
  show *: "plain p" if h: "(p, nm) \<in> set (mc_pieces m)" for p nm
  proof -
    consider "(p, nm) \<in> set (CompressionPacking_constraints (unpackAddr1_g m)) \<union> set (CompressionPacking_constraints (unpackAddr2_g m))"
      | "(p, nm) \<in> set (GreaterEqual_constraints (compareAddresses m))" | "(p, nm) \<in> set (GreaterEqual_constraints (compareTimestamps_g m))"
      | "(p, nm) \<in> set (MultiplicationPacking_constraints (unpackTimestamp1_g m))" | "(p, nm) \<in> set (MultiplicationPacking_constraints (unpackTimestamp2_g m))"
      using h by (auto simp: mc_pieces_def)
    then show ?thesis
    proof cases
      case 1
      then show ?thesis by (auto simp: CompressionPacking_constraints_def unpackAddr1_g_def unpackAddr2_g_def unpacker_def bool_constraint_def Let_def)
    qed (use ge_vars(1) [OF g(1)] ge_vars(1) [OF g(3)] mp_plain in blast)+
  qed
  show **: "plain p" if "(p, nm) \<in> set (memory_rules m)" for p nm using that by (auto simp: memory_rules_def Let_def)
  show "plain p" if "p \<in> set (mc_polys m)" using that * ** by (auto simp: mc_polys_def)
qed

text \<open>The order of two neighbouring rows.\<close>

definition mem_step :: "MemoryConstraints_Gadget \<Rightarrow> Protoboard \<Rightarrow> nat \<Rightarrow> nat \<Rightarrow> bool" where
  "mem_step m pb s t \<longleftrightarrow> (val pb (mt_isMemOp (mc_second m)) = 1 \<longrightarrow> val pb (mt_isMemOp (mc_first m)) = 1
     \<and> num pb (mt_address (mc_first m)) \<le> num pb (mt_address (mc_second m))
     \<and> (num pb (mt_address (mc_first m)) = num pb (mt_address (mc_second m)) \<longrightarrow> s < t
       \<and> (val pb (mt_isLoad (mc_second m)) = 1 \<longrightarrow> val pb (mt_value (mc_first m)) = val pb (mt_value (mc_second m)))))"

text \<open>The bits the comparison of addresses works on are those of the addresses.\<close>

definition addr_linked :: "MemoryConstraints_Gadget \<Rightarrow> Protoboard \<Rightarrow> bool" where
  "addr_linked m pb \<longleftrightarrow> bnum pb (unpackedArg1 (mc_vars m)) = num pb (mt_address (mc_first m))
     \<and> bnum pb (unpackedArg2 (mc_vars m)) = num pb (mt_address (mc_second m))"

lemma rules_pv:
  "(\<forall>(p, nm) \<in> set (memory_rules m). pv pb p = 0) \<longleftrightarrow> (let op1 = val pb (mt_isMemOp (mc_first m)); op2 = val pb (mt_isMemOp (mc_second m));
     a = val pb (addressIsGEQ m); t = val pb (timestampIsGEQ m) in
     op2 = 0 \<or> op1 = 1 \<and> (a = getGF2E_X \<or> a = 1) \<and> (a \<noteq> 1 \<longrightarrow> a \<noteq> 0 \<longrightarrow> t = 1 \<and>
       (val pb (mt_isLoad (mc_second m)) = 0 \<or> val pb (mt_value (mc_first m)) = val pb (mt_value (mc_second m)))))"
  by (auto simp: memory_rules_def Let_def pv_simps lv_simps fe_add_eq_0)

lemma mc_sound:
  assumes "mc_wf m" "\<forall>p \<in> set (mc_polys m). holds pb p" "addr_linked m pb"
  shows "val pb (mt_isMemOp (mc_second m)) = 1 \<Longrightarrow> \<exists>s t. s < 2 ^ 16 \<and> t < 2 ^ 16 \<and> val pb (mt_timeStamp (mc_first m)) = getGF2E_X ^ s
    \<and> val pb (mt_timeStamp (mc_second m)) = getGF2E_X ^ t \<and> mem_step m pb s t"
proof -
  assume op: "val pb (mt_isMemOp (mc_second m)) = 1"
  have z: "pv pb p = 0" if "p \<in> set (mc_polys m)" for p using assms(2) that holds_zero [OF mc_plain(3) [OF assms(1) that]] by blast
  have eqs: "mc_eqs m pb" unfolding mc_eqs_def
  proof clarify
    fix p nm assume "(p, nm) \<in> set (mc_pieces m)"
    then have "cp_times p (cp_var (mt_isMemOp (mc_second m))) \<in> set (mc_polys m)" by (force simp: mc_polys_def)
    from z [OF this] show "pv pb p = 0" by (simp add: pv_simps op)
  qed
  note v = mc_values [OF assms(1) eqs] and l = mc_lengths [OF assms(1)]
  have "\<forall>(p, nm) \<in> set (memory_rules m). pv pb p = 0" using z by (force simp: mc_polys_def)
  note r = this [unfolded rules_pv Let_def op v(3,6)]
  let ?s = "bnum pb (opcodeAux1 (mc_vars m))" and ?t = "bnum pb (opcodeAux2 (mc_vars m))"
  have "mem_step m pb ?s ?t" using r assms(3) g_neq by (auto simp: mem_step_def addr_linked_def cmp_def op split: if_splits)
  moreover have "?s < 2 ^ 16" "?t < 2 ^ 16" using bnum_less [of pb "opcodeAux1 (mc_vars m)"] bnum_less [of pb "opcodeAux2 (mc_vars m)"] by (simp_all add: l)
  ultimately show ?thesis using v(4,5) by blast
qed

section \<open>Completeness\<close>

lemma degree_run [simp]: "degreeTranslation (run as pb) = degreeTranslation pb"
  by (induction as arbitrary: pb) (auto simp: set_val_def)

lemma degree_cpk [simp]: "degreeTranslation (CompressionPacking_generateWitness g pb) = degreeTranslation pb"
proof -
  have "degreeTranslation (fold (unpack_step v) xs b) = degreeTranslation b" for v xs b
    by (induction xs arbitrary: b) (auto simp: unpack_step_def set_val_def split: prod.split)
  then show ?thesis by (auto simp: CompressionPacking_generateWitness_def set_val_def Let_def split: PackingMode.split)
qed

lemma ge_over:
  "ge_wf g \<Longrightarrow> (p, nm) \<in> set (GreaterEqual_constraints g) \<Longrightarrow>
    var_index ` cp_vars p \<subseteq> var_index ` set (ge_var1 g) \<union> var_index ` set (ge_var2 g) \<union> ge_written g"
  using ge_vars(2) [of g p nm] by (auto simp: cp_over_def ge_written_def)

lemma mp_over:
  "mp_wf g \<Longrightarrow> mp_packingMode g = UNPACK \<Longrightarrow> (p, nm) \<in> set (MultiplicationPacking_constraints g) \<Longrightarrow>
    var_index ` cp_vars p \<subseteq> insert (var_index (mp_packed g)) (mp_written (g, n))"
  using mp_vars [of g p nm] by (auto simp: cp_over_def mp_written_def)

lemma mc_over:
  assumes "mc_wf m"
  shows "(p, nm) \<in> set (GreaterEqual_constraints (compareAddresses m)) \<Longrightarrow> var_index ` cp_vars p \<subseteq> ix (mc_component m) ` ({11..<43} \<union> {75..<91})"
    "(p, nm) \<in> set (GreaterEqual_constraints (compareTimestamps_g m)) \<Longrightarrow> var_index ` cp_vars p \<subseteq> ix (mc_component m) ` ({43..<75} \<union> {91..<107})"
    "(p, nm) \<in> set (MultiplicationPacking_constraints (unpackTimestamp1_g m)) \<Longrightarrow> var_index ` cp_vars p \<subseteq> ix (mc_component m) ` ({2} \<union> {43..<59} \<union> {108..<122})"
    "(p, nm) \<in> set (MultiplicationPacking_constraints (unpackTimestamp2_g m)) \<Longrightarrow> var_index ` cp_vars p \<subseteq> ix (mc_component m) ` ({3} \<union> {59..<75} \<union> {124..<138})"
    "(p, nm) \<in> set (CompressionPacking_constraints (unpackAddr1_g m)) \<Longrightarrow> var_index ` cp_vars p \<subseteq> ix (mc_component m) ` {11..<27}"
    "(p, nm) \<in> set (CompressionPacking_constraints (unpackAddr2_g m)) \<Longrightarrow> var_index ` cp_vars p \<subseteq> ix (mc_component m) ` {27..<43}"
proof -
  note g = mc_gadgets [OF assms] and a = mc_arrays [OF assms] and p = mc_positions [OF assms] and l = mc_lengths [OF assms]
  have u: "ix g ` {11..<43} = ix g ` {27..<27 + 16} \<union> ix g ` {11..<11 + 16}" "ix g ` {43..<75} = ix g ` {59..<59 + 16} \<union> ix g ` {43..<43 + 16}" for g
    unfolding image_Un [symmetric] by (rule arg_cong [of _ _ "image (ix g)"]; auto)+
  show "(p, nm) \<in> set (GreaterEqual_constraints (compareAddresses m)) \<Longrightarrow> var_index ` cp_vars p \<subseteq> ix (mc_component m) ` ({11..<43} \<union> {75..<91})"
    using ge_over [OF g(1)] by (simp only: g(2) image_Un u) (simp add: compareAddresses_def arr_set [OF a(1)] arr_set [OF a(2)])
  show "(p, nm) \<in> set (GreaterEqual_constraints (compareTimestamps_g m)) \<Longrightarrow> var_index ` cp_vars p \<subseteq> ix (mc_component m) ` ({43..<75} \<union> {91..<107})"
    using ge_over [OF g(3)] by (simp only: g(4) image_Un u) (simp add: compareTimestamps_g_def arr_set [OF a(3)] arr_set [OF a(4)])
  show "(p, nm) \<in> set (MultiplicationPacking_constraints (unpackTimestamp1_g m)) \<Longrightarrow> var_index ` cp_vars p \<subseteq> ix (mc_component m) ` ({2} \<union> {43..<59} \<union> {108..<122})"
    using mp_over [OF g(5), of p nm 0] p(3) by (simp only: g(6)) (simp add: unpackTimestamp1_g_def)
  show "(p, nm) \<in> set (MultiplicationPacking_constraints (unpackTimestamp2_g m)) \<Longrightarrow> var_index ` cp_vars p \<subseteq> ix (mc_component m) ` ({3} \<union> {59..<75} \<union> {124..<138})"
    using mp_over [OF g(7), of p nm 0] p(4) by (simp only: g(8)) (simp add: unpackTimestamp2_g_def)
  have b: "cp_vars (booleanity v) \<subseteq> {v}" for v using cp_over_booleanity [of v "{v}"] by (simp add: cp_over_def)
  show "var_index ` cp_vars p \<subseteq> ix (mc_component m) ` {11..<27}" if h: "(p, nm) \<in> set (CompressionPacking_constraints (unpackAddr1_g m))"
  proof -
    obtain v where "v \<in> set (unpackedArg1 (mc_vars m))" "p = booleanity v"
      using h l by (auto simp: CompressionPacking_constraints_def unpackAddr1_g_def unpacker_def bool_constraint_def ExtensionDegree_def)
    then show ?thesis using b [of v] arr_set [OF a(1)] by auto
  qed
  show "var_index ` cp_vars p \<subseteq> ix (mc_component m) ` {27..<43}" if h: "(p, nm) \<in> set (CompressionPacking_constraints (unpackAddr2_g m))"
  proof -
    obtain v where "v \<in> set (unpackedArg2 (mc_vars m))" "p = booleanity v"
      using h l by (auto simp: CompressionPacking_constraints_def unpackAddr2_g_def unpacker_def bool_constraint_def ExtensionDegree_def)
    then show ?thesis using b [of v] arr_set [OF a(2)] by auto
  qed
qed

text \<open>What the witness code needs: rows in order, with timestamps whose exponents the board knows.\<close>

definition mc_rows :: "MemoryConstraints_Gadget \<Rightarrow> Variable list" where
  "mc_rows m = input_vars (inputs (mc_component m)) @ output_vars (results (mc_component m))"

definition mc_pre :: "MemoryConstraints_Gadget \<Rightarrow> nat \<Rightarrow> nat \<Rightarrow> Protoboard \<Rightarrow> bool" where
  "mc_pre m s t pb \<longleftrightarrow> (\<forall>v \<in> set (mc_rows m). assigned pb v) \<and> s < 2 ^ 16 \<and> t < 2 ^ 16
     \<and> val pb (mt_timeStamp (mc_first m)) = getGF2E_X ^ s \<and> val pb (mt_timeStamp (mc_second m)) = getGF2E_X ^ t
     \<and> getDegreeOfFElem (getGF2E_X ^ s) pb = Inr s \<and> getDegreeOfFElem (getGF2E_X ^ t) pb = Inr t
     \<and> num pb (mt_address (mc_first m)) < 2 ^ 16 \<and> num pb (mt_address (mc_second m)) < 2 ^ 16
     \<and> boolean pb (mt_isMemOp (mc_second m)) \<and> boolean pb (mt_isLoad (mc_second m)) \<and> mem_step m pb s t"

lemma frame_holds:
  assumes "alu_wf g" "holds b q" "changes (ix g ` K) b w" "plain q" "var_index ` cp_vars q \<subseteq> ix g ` L" "K \<subseteq> {..<155}" "L \<subseteq> {..<155}" "L \<inter> K = {}"
  shows "holds w q"
proof (rule holds_changes [OF assms(3,4) _ assms(2)])
  show "var_index ` cp_vars q \<inter> ix g ` K = {}" using ix_disjoint [OF assms(1,7,6,8)] assms(5) by blast
qed

text \<open>The first half of the witness code: the addresses.\<close>

lemma mc_address_runs:
  assumes wf: "mc_wf m" and inv: "pb_inv pb"
  obtains c where "GreaterEqual_generateWitness (compareAddresses m) (CompressionPacking_generateWitness (unpackAddr2_g m) (CompressionPacking_generateWitness (unpackAddr1_g m) pb)) = Inr c"
    "changes (ix (mc_component m) ` ({11..<43} \<union> {75..<91})) pb c" "degreeTranslation c = degreeTranslation pb"
    "bits_of c (unpackedArg1 (mc_vars m)) (num pb (mt_address (mc_first m)))" "bits_of c (unpackedArg2 (mc_vars m)) (num pb (mt_address (mc_second m)))"
    "\<forall>(q, nm) \<in> set (GreaterEqual_constraints (compareAddresses m)). holds c q"
proof -
  let ?g = "mc_component m"
  have cwf: "alu_wf ?g" using wf by (simp add: mc_wf_def)
  note g = mc_gadgets [OF wf] and a = mc_arrays [OF wf] and p = mc_positions [OF wf]
  have nk: "0 \<notin> {11..<11 + 16 :: nat}" "1 \<notin> {27..<27 + 16 :: nat}" by auto
  define u where "u = CompressionPacking_generateWitness (unpackAddr1_g m) pb"
  define v where "v = CompressionPacking_generateWitness (unpackAddr2_g m) u"
  define c where "c = GreaterEqual_witness (compareAddresses m) v"
  have u: "changes (ix ?g ` {11..<11 + 16}) pb u" "bits_of u (unpackedArg1 (mc_vars m)) (num pb (mt_address (mc_first m)))"
    using unpacker_facts [OF cwf a(1) _ p(1) _ nk(1) inv, where op = Op_MEMORY] by (simp_all add: u_def unpackAddr1_g_def)
  have v: "changes (ix ?g ` {27..<27 + 16}) u v" "bits_of v (unpackedArg2 (mc_vars m)) (num u (mt_address (mc_second m)))"
    using unpacker_facts [OF cwf a(2) _ p(2) _ nk(2) changesD(2) [OF u(1)], where op = Op_MEMORY] by (simp_all add: v_def unpackAddr2_g_def)
  have uv: "changes (ix ?g ` {11..<43}) pb v" by (rule changes_join [OF u(1) v(1)]) auto
  have n2: "num u (mt_address (mc_second m)) = num pb (mt_address (mc_second m))" using changes_val [OF u(1) cwf _ p(2)] by (simp add: num_def)
  have b1: "bits_of v (unpackedArg1 (mc_vars m)) (num pb (mt_address (mc_first m)))" by (rule bits_of_changes [OF u(2) v(1) cwf a(1)]) auto
  have gpre: "ge_pre (compareAddresses m) v"
    using arr_assigned [OF uv a(1)] arr_assigned [OF uv a(2)] bits_of_booleans [OF b1] bits_of_booleans [OF v(2)]
    by (auto simp: ge_pre_def compareAddresses_def booleans_def)
  have c: "changes (ix ?g ` {75..<91}) v c" unfolding c_def g(2) [symmetric] by (rule changes_writes [OF ge_writes [OF g(1)] changesD(2) [OF uv]])
  show thesis
  proof (rule that [of c])
    show "changes (ix ?g ` ({11..<43} \<union> {75..<91})) pb c" by (rule changes_join [OF uv c refl])
    show "bits_of c (unpackedArg1 (mc_vars m)) (num pb (mt_address (mc_first m)))" by (rule bits_of_changes [OF b1 c cwf a(1)]) auto
    show "bits_of c (unpackedArg2 (mc_vars m)) (num pb (mt_address (mc_second m)))"
      unfolding n2 [symmetric] by (rule bits_of_changes [OF v(2) c cwf a(2)]) auto
    show "degreeTranslation c = degreeTranslation pb" unfolding c_def ge_witness_run [OF g(1)] v_def u_def by simp
    show "\<forall>(q, nm) \<in> set (GreaterEqual_constraints (compareAddresses m)). holds c q"
      using ge_complete [OF g(1) changesD(2) [OF uv] gpre] unfolding c_def by blast
  qed (use ge_wfD(3) [OF g(1)] in \<open>simp add: GreaterEqual_generateWitness_def c_def v_def u_def\<close>)
qed

lemma timestamp_bits:
  assumes "\<forall>(q, nm) \<in> set (MultiplicationPacking_constraints e). holds w q" "mp_packingMode e = UNPACK" "x \<in> set (mp_unpacked e)"
  shows "boolean w x"
proof -
  have "bool_constraint x \<in> set (MultiplicationPacking_constraints e)" using assms(2,3) by (auto simp: MultiplicationPacking_constraints_def Let_def)
  then have "holds w (booleanity x)" using assms(1) by (force simp: bool_constraint_def)
  then show ?thesis by (simp add: holds_iff pv_booleanity boolean_def)
qed

text \<open>The second half: the timestamps.\<close>

lemma mc_time_runs:
  assumes wf: "mc_wf m" and inv: "pb_inv c"
    and d1: "mp_pre (unpackTimestamp1_g m, s) c" and e1: "mp_pre (unpackTimestamp2_g m, t) c"
  obtains d e w where "MultiplicationPacking_generateWitness (unpackTimestamp1_g m) (int s) c = Inr d"
    "MultiplicationPacking_generateWitness (unpackTimestamp2_g m) (int t) d = Inr e" "GreaterEqual_generateWitness (compareTimestamps_g m) e = Inr w"
    "changes (ix (mc_component m) ` ({43..<75} \<union> {91..<107} \<union> {108..<122} \<union> {124..<138})) c w"
    "\<forall>(q, nm) \<in> set (MultiplicationPacking_constraints (unpackTimestamp1_g m)). holds w q" "\<forall>(q, nm) \<in> set (MultiplicationPacking_constraints (unpackTimestamp2_g m)). holds w q"
    "\<forall>(q, nm) \<in> set (GreaterEqual_constraints (compareTimestamps_g m)). holds w q"
proof -
  let ?g = "mc_component m"
  have cwf: "alu_wf ?g" using wf by (simp add: mc_wf_def)
  note g = mc_gadgets [OF wf] and a = mc_arrays [OF wf] and p = mc_positions [OF wf] and o = mc_over [OF wf] and l = mc_lengths [OF wf]
  define d where "d = mp_run (unpackTimestamp1_g m, s) c"
  define e where "e = mp_run (unpackTimestamp2_g m, t) d"
  define w where "w = GreaterEqual_witness (compareTimestamps_g m) e"
  have d: "changes (ix ?g ` ({43..<59} \<union> {108..<122})) c d"
    unfolding d_def g(6) [where n = s, symmetric] by (rule changes_writes [OF multiplication_packing.frame inv]) (simp add: g(5))
  have td: "val d (mt_timeStamp (mc_second m)) = val c (mt_timeStamp (mc_second m))" using changes_val [OF d cwf _ p(4)] by auto
  have e2: "mp_pre (unpackTimestamp2_g m, t) d" using e1 td changesD(4) [OF d] by (simp add: mp_pre_def unpackTimestamp2_g_def)
  have e: "changes (ix ?g ` ({59..<75} \<union> {124..<138})) d e"
    unfolding e_def g(8) [where n = t, symmetric] by (rule changes_writes [OF multiplication_packing.frame changesD(2) [OF d]]) (simp add: g(7))
  have h1: "holds e q" if "(q, nm) \<in> set (MultiplicationPacking_constraints (unpackTimestamp1_g m))" for q nm
    by (rule frame_holds [OF cwf _ e _ o(3) [OF that]], unfold d_def)
      (use multiplication_packing.complete [of "(unpackTimestamp1_g m, s)", OF _ inv d1] that g(5) in \<open>auto intro: mp_plain\<close>)
  have h2: "holds e q" if "(q, nm) \<in> set (MultiplicationPacking_constraints (unpackTimestamp2_g m))" for q nm
    using multiplication_packing.complete [of "(unpackTimestamp2_g m, t)", OF _ changesD(2) [OF d] e2] that g(7) by (simp add: e_def)
  have ce: "changes (ix ?g ` ({43..<75} \<union> {108..<122} \<union> {124..<138})) c e" by (rule changes_join [OF d e]) auto
  have wpre: "ge_pre (compareTimestamps_g m) e"
  proof -
    have "{43..<43 + 16} \<subseteq> {43..<75} \<union> {108..<122} \<union> {124..<138 :: nat}" "{59..<59 + 16} \<subseteq> {43..<75} \<union> {108..<122} \<union> {124..<138 :: nat}" by auto
    then have "\<forall>x \<in> set (opcodeAux1 (mc_vars m)) \<union> set (opcodeAux2 (mc_vars m)). assigned e x"
      using arr_assigned [OF ce a(3)] arr_assigned [OF ce a(4)] by blast
    moreover have "\<forall>x \<in> set (opcodeAux1 (mc_vars m)). boolean e x" "\<forall>x \<in> set (opcodeAux2 (mc_vars m)). boolean e x"
    proof -
      have "\<forall>(q, nm) \<in> set (MultiplicationPacking_constraints (unpackTimestamp1_g m)). holds e q" "\<forall>(q, nm) \<in> set (MultiplicationPacking_constraints (unpackTimestamp2_g m)). holds e q"
        using h1 h2 by blast+
      then show "\<forall>x \<in> set (opcodeAux1 (mc_vars m)). boolean e x" "\<forall>x \<in> set (opcodeAux2 (mc_vars m)). boolean e x"
        using timestamp_bits [of "unpackTimestamp1_g m" e] timestamp_bits [of "unpackTimestamp2_g m" e] by (simp_all add: unpackTimestamp1_g_def unpackTimestamp2_g_def)
    qed
    ultimately show ?thesis by (auto simp: ge_pre_def compareTimestamps_g_def)
  qed
  have w: "changes (ix ?g ` {91..<107}) e w" unfolding w_def g(4) [symmetric] by (rule changes_writes [OF ge_writes [OF g(3)] changesD(2) [OF e]])
  have "changes (ix ?g ` ({43..<75} \<union> {91..<107} \<union> {108..<122} \<union> {124..<138})) c w" by (rule changes_join [OF ce w]) auto
  moreover have "holds w q" if "(q, nm) \<in> set (MultiplicationPacking_constraints (unpackTimestamp1_g m))" for q nm
    by (rule frame_holds [OF cwf h1 [OF that] w mp_plain [OF that] o(3) [OF that]]) auto
  moreover have "holds w q" if "(q, nm) \<in> set (MultiplicationPacking_constraints (unpackTimestamp2_g m))" for q nm
    by (rule frame_holds [OF cwf h2 [OF that] w mp_plain [OF that] o(4) [OF that]]) auto
  moreover have "\<forall>(q, nm) \<in> set (GreaterEqual_constraints (compareTimestamps_g m)). holds w q"
    using ge_complete [OF g(3) changesD(2) [OF e] wpre] unfolding w_def by blast
  moreover have "GreaterEqual_generateWitness (compareTimestamps_g m) e = Inr w" using ge_wfD(3) [OF g(3)] by (simp add: GreaterEqual_generateWitness_def w_def)
  ultimately show thesis using that mp_witness_run [OF g(5) d1] mp_witness_run [OF g(7) e2] unfolding d_def [symmetric] e_def [symmetric] by blast
qed

lemma mc_runs:
  assumes wf: "mc_wf m" and inv: "pb_inv pb" and pre: "mc_pre m s t pb"
  obtains w where "MemoryConstraints_generateWitness m pb = Inr w" "changes (ix (mc_component m) ` ({11..<107} \<union> {108..<122} \<union> {124..<138})) pb w"
    "\<forall>(p, nm) \<in> set (mc_pieces m). holds w p" "addr_linked m w"
proof -
  let ?g = "mc_component m"
  have cwf: "alu_wf ?g" using wf by (simp add: mc_wf_def)
  note g = mc_gadgets [OF wf] and a = mc_arrays [OF wf] and p = mc_positions [OF wf] and o = mc_over [OF wf] and l = mc_lengths [OF wf]
  obtain c where c: "GreaterEqual_generateWitness (compareAddresses m) (CompressionPacking_generateWitness (unpackAddr2_g m) (CompressionPacking_generateWitness (unpackAddr1_g m) pb)) = Inr c"
    "changes (ix ?g ` ({11..<43} \<union> {75..<91})) pb c" "degreeTranslation c = degreeTranslation pb"
    "bits_of c (unpackedArg1 (mc_vars m)) (num pb (mt_address (mc_first m)))" "bits_of c (unpackedArg2 (mc_vars m)) (num pb (mt_address (mc_second m)))"
    "\<forall>(q, nm) \<in> set (GreaterEqual_constraints (compareAddresses m)). holds c q" by (rule mc_address_runs [OF wf inv])
  have ts: "val c (mt_timeStamp (mc_first m)) = getGF2E_X ^ s" "val c (mt_timeStamp (mc_second m)) = getGF2E_X ^ t"
    using changes_val [OF c(2) cwf _ p(3)] changes_val [OF c(2) cwf _ p(4)] pre by (auto simp: mc_pre_def)
  have as: "assigned c (mt_timeStamp (mc_first m))" "assigned c (mt_timeStamp (mc_second m))"
    using changesD(4) [OF c(2)] pre by (simp_all add: mc_pre_def mc_rows_def input_vars_def)
  have pre2: "mp_pre (unpackTimestamp1_g m, s) c" "mp_pre (unpackTimestamp2_g m, t) c"
    using ts as pre by (simp_all add: mp_pre_def unpackTimestamp1_g_def unpackTimestamp2_g_def l mc_pre_def)
  obtain d e w where w: "MultiplicationPacking_generateWitness (unpackTimestamp1_g m) (int s) c = Inr d"
    "MultiplicationPacking_generateWitness (unpackTimestamp2_g m) (int t) d = Inr e" "GreaterEqual_generateWitness (compareTimestamps_g m) e = Inr w"
    "changes (ix ?g ` ({43..<75} \<union> {91..<107} \<union> {108..<122} \<union> {124..<138})) c w"
    "\<forall>(q, nm) \<in> set (MultiplicationPacking_constraints (unpackTimestamp1_g m)). holds w q" "\<forall>(q, nm) \<in> set (MultiplicationPacking_constraints (unpackTimestamp2_g m)). holds w q"
    "\<forall>(q, nm) \<in> set (GreaterEqual_constraints (compareTimestamps_g m)). holds w q" by (rule mc_time_runs [OF wf changesD(2) [OF c(2)] pre2])
  have pw: "changes (ix ?g ` ({11..<107} \<union> {108..<122} \<union> {124..<138})) pb w" by (rule changes_join [OF c(2) w(4)]) auto
  have B: "bits_of w (unpackedArg1 (mc_vars m)) (num pb (mt_address (mc_first m)))" "bits_of w (unpackedArg2 (mc_vars m)) (num pb (mt_address (mc_second m)))"
    by (rule bits_of_changes [OF c(4) w(4) cwf a(1)] bits_of_changes [OF c(5) w(4) cwf a(2)]; auto)+
  have au: "\<forall>x \<in> set (unpackedArg1 (mc_vars m)). assigned w x" "\<forall>x \<in> set (unpackedArg2 (mc_vars m)). assigned w x"
    by (rule arr_assigned [OF pw a(1)] arr_assigned [OF pw a(2)]; auto)+
  have h: "\<forall>(q, nm) \<in> set (CompressionPacking_constraints (unpackAddr1_g m)). holds w q" "\<forall>(q, nm) \<in> set (CompressionPacking_constraints (unpackAddr2_g m)). holds w q"
    using unpacker_constraints [OF l(1)] unpacker_constraints [OF l(2)] au B bits_of_booleans by (auto simp: unpackAddr1_g_def unpackAddr2_g_def)
  have "holds w q" if "(q, nm) \<in> set (GreaterEqual_constraints (compareAddresses m))" for q nm
    by (rule frame_holds [OF cwf _ w(4) ge_vars(1) [OF g(1) that] o(1) [OF that]]) (use c(6) that in auto)
  then have all: "\<forall>(q, nm) \<in> set (mc_pieces m). holds w q" using h w(5-7) by (auto simp: mc_pieces_def)
  have same: "num w (mt_address (mc_first m)) = num pb (mt_address (mc_first m))" "num w (mt_address (mc_second m)) = num pb (mt_address (mc_second m))"
    using changes_val [OF pw cwf _ p(1)] changes_val [OF pw cwf _ p(2)] by (auto simp: num_def)
  have lk: "addr_linked m w" using bits_of_bnum [OF B(1)] bits_of_bnum [OF B(2)] pre by (simp add: addr_linked_def same l mc_pre_def take_bit_nat_eq_self)
  have "MemoryConstraints_generateWitness m pb = Inr w"
    using pre c(1) w(1-3) by (simp add: MemoryConstraints_generateWitness_def Let_def ts getDegreeOfFElem_def c(3) mc_pre_def)
  then show thesis by (rule that [OF _ pw all lk])
qed

lemma X_power_inject: "getGF2E_X ^ a = getGF2E_X ^ b \<Longrightarrow> a < 2 ^ 16 \<Longrightarrow> b < 2 ^ 16 \<Longrightarrow> a = b"
  using X_powi_inject [of "int a" "int b"] by simp

lemma mc_rules:
  assumes wf: "mc_wf m" and pre: "mc_pre m s t pb" and w: "changes (ix (mc_component m) ` ({11..<107} \<union> {108..<122} \<union> {124..<138})) pb w"
    "\<forall>(p, nm) \<in> set (mc_pieces m). holds w p" "addr_linked m w"
  shows "\<forall>p \<in> set (mc_polys m). holds w p"
proof -
  let ?g = "mc_component m" and ?K = "{11..<107} \<union> {108..<122} \<union> {124..<138 :: nat}"
  have cwf: "alu_wf ?g" using wf by (simp add: mc_wf_def)
  note p = mc_positions [OF wf] and l = mc_lengths [OF wf]
  have same: "val w x = val pb x" if "var_index x = ix ?g k" "k < 11" for x k using changes_val [OF w(1) cwf _ that(1)] that(2) by auto
  have eqs: "mc_eqs m w" unfolding mc_eqs_def using w(2) mc_plain(1) [OF wf] holds_zero by blast
  note v = mc_values [OF wf eqs]
  have b: "bnum w (opcodeAux1 (mc_vars m)) = s" "bnum w (opcodeAux2 (mc_vars m)) = t"
    using v(4,5) same [OF p(3)] same [OF p(4)] pre bnum_less [of w "opcodeAux1 (mc_vars m)"] bnum_less [of w "opcodeAux2 (mc_vars m)"]
    by (auto intro!: X_power_inject simp: mc_pre_def l)
  have st: "mem_step m w s t" using pre same [OF p(5)] same [OF p(6)] same [OF p(1)] same [OF p(2)] same [OF p(7)] same [OF p(8)] same [OF p(10)]
    by (simp add: mc_pre_def mem_step_def num_def)
  have bl: "boolean w (mt_isMemOp (mc_second m))" "boolean w (mt_isLoad (mc_second m))"
    using pre same [OF p(6)] same [OF p(10)] by (simp_all add: mc_pre_def boolean_def)
  have r: "\<forall>(p, nm) \<in> set (memory_rules m). pv w p = 0" unfolding rules_pv Let_def v(3,6) b
    using st bl w(3) by (auto simp: mem_step_def cmp_def addr_linked_def boolean_def)
  have asg: "assigned w x" if "x \<in> set (mc_rows m) \<or> x \<in> set (opcodeAux3 (mc_vars m)) \<or> x \<in> set (opcodeAux4 (mc_vars m))" for x
  proof -
    have "x \<in> set (mc_rows m) \<Longrightarrow> assigned w x" using changesD(4) [OF w(1), of x] pre by (simp add: mc_pre_def)
    moreover have "\<forall>x \<in> set (opcodeAux3 (mc_vars m)). assigned w x" "\<forall>x \<in> set (opcodeAux4 (mc_vars m)). assigned w x"
      by (rule arr_assigned [OF w(1) mc_arrays(5) [OF wf]] arr_assigned [OF w(1) mc_arrays(6) [OF wf]]; auto)+
    ultimately show ?thesis using that by blast
  qed
  have "opcodeAux3 (mc_vars m) ! 0 \<in> set (opcodeAux3 (mc_vars m))" "opcodeAux4 (mc_vars m) ! 0 \<in> set (opcodeAux4 (mc_vars m))" by (rule nth_mem, simp add: l)+
  then have geq: "assigned w (addressIsGEQ m)" "assigned w (timestampIsGEQ m)" by (simp_all add: asg addressIsGEQ_def timestampIsGEQ_def)
  have rows: "assigned w (mt_isMemOp (mc_first m))" "assigned w (mt_isMemOp (mc_second m))" "assigned w (mt_isLoad (mc_second m))"
    "assigned w (mt_value (mc_first m))" "assigned w (mt_value (mc_second m))" by (rule asg, simp add: mc_rows_def output_vars_def)+
  have "cp_over {x. assigned w x} q" if "(q, nm) \<in> set (memory_rules m)" for q nm
    using that rows geq by (auto simp: memory_rules_def Let_def)
  then have "holds w q" if "(q, nm) \<in> set (memory_rules m)" for q nm using that r mc_plain(2) [OF wf] by (blast intro: holdsI)
  moreover have "holds w (cp_times q (cp_var (mt_isMemOp (mc_second m))))" if "(q, nm) \<in> set (mc_pieces m)" for q nm
  proof -
    have h: "holds w q" "plain q" using w(2) that mc_plain(1) [OF wf] by blast+
    then have "cp_over {x. assigned w x} q" by (auto simp: holds_iff cp_over_def)
    then show ?thesis using h rows(2) holds_zero [OF h(2,1)] by (intro holdsI) (simp_all add: pv_simps)
  qed
  ultimately show ?thesis by (auto simp: mc_polys_def)
qed

lemma subset_disjoint: "X \<subseteq> A \<Longrightarrow> y \<in> B \<Longrightarrow> A \<inter> B = {} \<Longrightarrow> X \<inter> {y} = {}"
  by blast

text \<open>The system does not mention the addresses: their bits are the only link.\<close>

lemma mc_address_free:
  assumes "mc_wf m" "pb_inv pb" "q \<in> set (mc_polys m)" "holds pb q" "v = mt_address (mc_first m) \<or> v = mt_address (mc_second m)"
  shows "holds (set_val v x pb) q"
proof -
  let ?g = "mc_component m"
  have cwf: "alu_wf ?g" using assms(1) by (simp add: mc_wf_def)
  note p = mc_positions [OF assms(1)] and o = mc_over [OF assms(1)] and a = mc_arrays [OF assms(1)] and l = mc_lengths [OF assms(1)]
  have P: "var_index ` cp_vars q' \<subseteq> ix ?g ` {2..<155}" if h: "(q', nm) \<in> set (mc_pieces m)" for q' nm
  proof -
    have sub: "{11..<43} \<union> {75..<91} \<subseteq> {2..<155 :: nat}" "{43..<75} \<union> {91..<107} \<subseteq> {2..<155 :: nat}" "{2} \<union> {43..<59} \<union> {108..<122} \<subseteq> {2..<155 :: nat}"
      "{3} \<union> {59..<75} \<union> {124..<138} \<subseteq> {2..<155 :: nat}" "{11..<27} \<subseteq> {2..<155 :: nat}" "{27..<43} \<subseteq> {2..<155 :: nat}" by auto
    note s = sub [THEN image_mono, of "ix ?g"]
    show ?thesis using h unfolding mc_pieces_def set_append Un_iff
      using o(1) [THEN order.trans, OF _ s(1)] o(2) [THEN order.trans, OF _ s(2)] o(3) [THEN order.trans, OF _ s(3)] o(4) [THEN order.trans, OF _ s(4)]
        o(5) [THEN order.trans, OF _ s(5)] o(6) [THEN order.trans, OF _ s(6)] by blast
  qed
  have geq: "var_index (addressIsGEQ m) \<in> ix ?g ` {2..<155}" "var_index (timestampIsGEQ m) \<in> ix ?g ` {2..<155}"
    using arr_index [OF a(5), of 0] arr_index [OF a(6), of 0] by (simp_all add: addressIsGEQ_def timestampIsGEQ_def cwf)
  define V where "V = {u :: Variable. var_index u \<in> ix ?g ` {2..<155}}"
  have V: "mt_isMemOp (mc_second m) \<in> V" "mt_isMemOp (mc_first m) \<in> V" "mt_isLoad (mc_second m) \<in> V" "mt_value (mc_first m) \<in> V"
    "mt_value (mc_second m) \<in> V" "addressIsGEQ m \<in> V" "timestampIsGEQ m \<in> V" using geq unfolding V_def mem_Collect_eq p by (simp_all add: cwf)
  have "cp_over V q"
  proof (cases "q \<in> set (map fst (memory_rules m))")
    case True
    then show ?thesis using V by (auto simp: memory_rules_def Let_def)
  next
    case False
    then obtain q' nm where q: "(q', nm) \<in> set (mc_pieces m)" "q = cp_times q' (cp_var (mt_isMemOp (mc_second m)))"
      using assms(3) by (auto simp: mc_polys_def)
    have "cp_over V q'" using P [OF q(1)] by (auto simp: cp_over_def V_def)
    then show ?thesis using V(1) by (simp add: q(2))
  qed
  then have "var_index ` cp_vars q \<subseteq> ix ?g ` {2..<155}" by (auto simp: cp_over_def V_def)
  moreover have "var_index v \<in> ix ?g ` {0, 1}" using assms(5) p(1,2) by auto
  moreover have "ix ?g ` {2..<155} \<inter> ix ?g ` {0, 1} = {}" by (rule ix_disjoint [OF cwf]) auto
  ultimately have "var_index ` cp_vars q \<inter> {var_index v} = {}" by (rule subset_disjoint)
  then show ?thesis by (rule holds_changes [OF changes_set_val [OF assms(2)] mc_plain(3) [OF assms(1,3)] _ assms(4)])
qed

section \<open>Correctness\<close>

text \<open>Property C37. \<open>MemoryConstraints\<close>. On a board without memory constraints \<open>generateConstraints\<close> succeeds, otherwise it
  fails its assertion. Every assignment that satisfies the system it leaves, in which the unpacked words
  hold the two addresses, has its rows in order when the second is a memory operation: the first is one too,
  the addresses do not decrease, and at equal addresses the time increases and a load keeps the value. The
  words are not tied to the addresses by the system: it stays satisfied when an address is replaced by
  anything. For rows in order the witness code returns and satisfies the system.\<close>

theorem memory_constraints_correct:
  assumes "mc_wf m" "pb_inv pb"
  shows "(pb_constraintSystem Op_MEMORY pb \<noteq> [] \<longrightarrow> MemoryConstraints_generateConstraints m pb = Inl AssertFailed)
    \<and> (pb_constraintSystem Op_MEMORY pb = [] \<longrightarrow> (\<exists>sys. MemoryConstraints_generateConstraints m pb = Inr sys
      \<and> (\<forall>w. pb_inv w \<longrightarrow> cs_isSatisfied (assignment w) (pb_constraintSystem Op_MEMORY sys) = Inr True \<longrightarrow>
        (addr_linked m w \<longrightarrow> val w (mt_isMemOp (mc_second m)) = 1 \<longrightarrow> (\<exists>s t. s < 2 ^ 16 \<and> t < 2 ^ 16
          \<and> val w (mt_timeStamp (mc_first m)) = getGF2E_X ^ s \<and> val w (mt_timeStamp (mc_second m)) = getGF2E_X ^ t \<and> mem_step m w s t))
        \<and> cs_isSatisfied (assignment (set_val (mt_address (mc_second m)) x w)) (pb_constraintSystem Op_MEMORY sys) = Inr True)
      \<and> (\<forall>s t. mc_pre m s t pb \<longrightarrow> res_bind (MemoryConstraints_generateWitness m sys) (pb_isSatisfied Op_MEMORY) = Inr True)))"
proof (intro conjI impI)
  show "MemoryConstraints_generateConstraints m pb = Inl AssertFailed" if "pb_constraintSystem Op_MEMORY pb \<noteq> []"
    using that by (simp add: MemoryConstraints_generateConstraints_def)
  assume e: "pb_constraintSystem Op_MEMORY pb = []"
  obtain sys where sys: "MemoryConstraints_generateConstraints m pb = Inr sys" "pb_inv sys" "assignment sys = assignment pb" "fresh sys = fresh pb"
    "degreeTranslation sys = degreeTranslation pb" "map constraint_poly (pb_constraintSystem Op_MEMORY sys) = mc_polys m" by (rule mc_system [OF assms e])
  have holds: "cs_isSatisfied (assignment w) (pb_constraintSystem Op_MEMORY sys) = Inr True \<longleftrightarrow> (\<forall>p \<in> set (mc_polys m). holds w p)" for w
    unfolding cs_isSatisfied_True sys(6) [symmetric] by (simp add: holds_def)
  show "\<exists>sys. MemoryConstraints_generateConstraints m pb = Inr sys
      \<and> (\<forall>w. pb_inv w \<longrightarrow> cs_isSatisfied (assignment w) (pb_constraintSystem Op_MEMORY sys) = Inr True \<longrightarrow>
        (addr_linked m w \<longrightarrow> val w (mt_isMemOp (mc_second m)) = 1 \<longrightarrow> (\<exists>s t. s < 2 ^ 16 \<and> t < 2 ^ 16
          \<and> val w (mt_timeStamp (mc_first m)) = getGF2E_X ^ s \<and> val w (mt_timeStamp (mc_second m)) = getGF2E_X ^ t \<and> mem_step m w s t))
        \<and> cs_isSatisfied (assignment (set_val (mt_address (mc_second m)) x w)) (pb_constraintSystem Op_MEMORY sys) = Inr True)
      \<and> (\<forall>s t. mc_pre m s t pb \<longrightarrow> res_bind (MemoryConstraints_generateWitness m sys) (pb_isSatisfied Op_MEMORY) = Inr True)"
  proof (rule exI [of _ sys], intro conjI allI impI)
    fix w assume w: "pb_inv w" "cs_isSatisfied (assignment w) (pb_constraintSystem Op_MEMORY sys) = Inr True"
    show "cs_isSatisfied (assignment (set_val (mt_address (mc_second m)) x w)) (pb_constraintSystem Op_MEMORY sys) = Inr True"
      using mc_address_free [OF assms(1) w(1)] w(2) unfolding holds by blast
    show "\<exists>s t. s < 2 ^ 16 \<and> t < 2 ^ 16 \<and> val w (mt_timeStamp (mc_first m)) = getGF2E_X ^ s \<and> val w (mt_timeStamp (mc_second m)) = getGF2E_X ^ t \<and> mem_step m w s t"
      if "addr_linked m w" "val w (mt_isMemOp (mc_second m)) = 1" using mc_sound [OF assms(1) _ that] w(2) unfolding holds by blast
  next
    fix s t assume pre: "mc_pre m s t pb"
    have v: "val sys v = val pb v" "assigned sys v = assigned pb v" for v by (rule val_same [OF sys(3,4)] assigned_same [OF sys(3)])+
    have pre': "mc_pre m s t sys" using pre by (simp add: mc_pre_def v num_def boolean_def mem_step_def getDegreeOfFElem_def sys(5))
    obtain w where w: "MemoryConstraints_generateWitness m sys = Inr w" "changes (ix (mc_component m) ` ({11..<107} \<union> {108..<122} \<union> {124..<138})) sys w"
      "\<forall>(p, nm) \<in> set (mc_pieces m). holds w p" "addr_linked m w" by (rule mc_runs [OF assms(1) sys(2) pre'])
    show "res_bind (MemoryConstraints_generateWitness m sys) (pb_isSatisfied Op_MEMORY) = Inr True"
      using mc_rules [OF assms(1) pre' w(2-4)] holds [of w] by (simp add: w(1) pb_isSatisfied_alt changesD(3) [OF w(2)])
  qed (rule sys(1))
qed

text \<open>A store of 7 at address 5 and a load of it, at times 1 and 2.\<close>

definition store_load :: MemoryConstraints_Gadget where
  "store_load = \<lparr>mc_first = \<lparr>mt_isMemOp = sample_var 4, mt_address = sample_var 0, mt_value = sample_var 6, mt_isLoad = sample_var 8, mt_timeStamp = sample_var 2\<rparr>,
     mc_second = \<lparr>mt_isMemOp = sample_var 5, mt_address = sample_var 1, mt_value = sample_var 7, mt_isLoad = sample_var 9, mt_timeStamp = sample_var 3\<rparr>,
     mc_vars = vars sample_component\<rparr>"

definition store_load_board :: Protoboard where
  "store_load_board = addDegreeTranslation (getGF2E_X ^ 1) 1 (addDegreeTranslation (getGF2E_X ^ 2) 2 (fold (\<lambda>(i, x). set_val (sample_var i) x)
     [(0, fe 5), (1, fe 5), (2, getGF2E_X ^ 1), (3, getGF2E_X ^ 2), (4, 1), (5, 1), (6, fe 7), (7, fe 7), (8, 0), (9, 1)] (Protoboard_create 0)))"

lemma store_load_wf: "mc_wf store_load"
proof -
  have "mc_component store_load = sample_component\<lparr>standAlone := False\<rparr>" by (simp add: mc_component_def store_load_def sample_component_def)
  then show ?thesis using sample_component_wf by (simp add: mc_wf_def alu_wf_def alu_vars_def)
qed

lemma addDegreeTranslation_facts:
  assumes "pb_inv pb"
  shows "pb_inv (addDegreeTranslation x d pb)" "val (addDegreeTranslation x d pb) v = val pb v" "assigned (addDegreeTranslation x d pb) v = assigned pb v"
    "pb_constraintSystem op (addDegreeTranslation x d pb) = pb_constraintSystem op pb"
    "getDegreeOfFElem y (addDegreeTranslation x d pb) = (if y = x \<and> getDegreeOfFElem x pb = Inl OutOfRange then Inr d else getDegreeOfFElem y pb)"
  using assms by (auto simp: addDegreeTranslation_def pb_inv_def map_inv_put val_def assigned_def pb_constraintSystem_def getDegreeOfFElem_def map_find_put split: option.splits)

lemma store_load_facts: "pb_inv store_load_board" "pb_constraintSystem Op_MEMORY store_load_board = []" "mc_pre store_load 1 2 store_load_board"
proof -
  define b where "b = fold (\<lambda>(i, x). set_val (sample_var i) x) [(0, fe 5), (1, fe 5), (2, getGF2E_X ^ 1), (3, getGF2E_X ^ 2), (4, 1), (5, 1), (6, fe 7), (7, fe 7), (8, 0), (9, 1)] (Protoboard_create 0)"
  have b: "pb_inv b" "pb_constraintSystem Op_MEMORY b = []" "getDegreeOfFElem x b = Inl OutOfRange" for x
    by (simp_all add: b_def getDegreeOfFElem_def) (simp add: set_val_def Protoboard_create_def)
  have v: "val b (sample_var 0) = fe 5" "val b (sample_var 1) = fe 5" "val b (sample_var 2) = getGF2E_X ^ 1" "val b (sample_var 3) = getGF2E_X ^ 2"
    "val b (sample_var 4) = 1" "val b (sample_var 5) = 1" "val b (sample_var 6) = fe 7" "val b (sample_var 7) = fe 7" "val b (sample_var 8) = 0" "val b (sample_var 9) = 1"
    "i < 10 \<Longrightarrow> assigned b (sample_var i)" for i by (auto simp: b_def sample_var_def, arith)
  have e: "store_load_board = addDegreeTranslation (getGF2E_X ^ 1) 1 (addDegreeTranslation (getGF2E_X ^ 2) 2 b)" by (simp add: store_load_board_def b_def)
  note f = addDegreeTranslation_facts [OF b(1)]
  note f2 = addDegreeTranslation_facts [OF f(1)]
  have "getGF2E_X ^ 1 \<noteq> getGF2E_X ^ 2" using X_power_inject [of 1 2] by auto
  then have d: "getDegreeOfFElem (getGF2E_X ^ 1) store_load_board = Inr 1" "getDegreeOfFElem (getGF2E_X ^ 2) store_load_board = Inr 2" by (simp_all add: e f2 f b(3))
  show "pb_inv store_load_board" "pb_constraintSystem Op_MEMORY store_load_board = []" by (simp_all add: e f2 f b)
  have "val store_load_board x = val b x" "assigned store_load_board x = assigned b x" for x by (simp_all add: e f2 f)
  then show "mc_pre store_load 1 2 store_load_board" using d v
    by (simp add: mc_pre_def mc_rows_def mc_component_def input_vars_def output_vars_def store_load_def num_def unat_fe boolean_def mem_step_def)
qed

theorem memory_constraints_correct_witness:
  "\<exists>sys. MemoryConstraints_generateConstraints store_load store_load_board = Inr sys
    \<and> res_bind (MemoryConstraints_generateWitness store_load sys) (pb_isSatisfied Op_MEMORY) = Inr True"
  using memory_constraints_correct [OF store_load_wf store_load_facts(1), THEN conjunct2, THEN mp, OF store_load_facts(2)] store_load_facts(3) by blast

section \<open>A whole trace\<close>

lemma sorted_trace:
  fixes A T :: "nat \<Rightarrow> nat" and V :: "nat \<Rightarrow> 'v"
  assumes step: "\<And>i. i < n \<Longrightarrow> M (Suc i) \<Longrightarrow> M i \<and> A i \<le> A (Suc i) \<and> (A i = A (Suc i) \<longrightarrow> T i < T (Suc i) \<and> (L (Suc i) \<longrightarrow> V i = V (Suc i)))"
    and j: "j \<le> n" "M j" "L j" and k: "k \<le> n" "M k" "A k = A j" "T k < T j"
    and gap: "\<And>l. 0 < l \<Longrightarrow> l \<le> n \<Longrightarrow> M l \<Longrightarrow> A l = A j \<Longrightarrow> \<not> (T k < T l \<and> T l < T j)"
  shows "V k = V j"
proof -
  have up: "M a \<and> A a \<le> A b \<and> (A a = A b \<longrightarrow> a < b \<longrightarrow> T a < T b)" if "a \<le> b" "b \<le> n" "M b" for a b
    using that
  proof (induction b)
    case (Suc b)
    show ?case
    proof (cases "a = Suc b")
      case False
      then have ab: "a \<le> b" "b \<le> n" using Suc.prems(1,2) by simp_all
      have s: "M b" "A b \<le> A (Suc b)" "A b = A (Suc b) \<Longrightarrow> T b < T (Suc b)" using step [of b] Suc.prems(2,3) by simp_all
      note ih = Suc.IH [OF ab s(1)]
      have "T a < T (Suc b)" if "A a = A (Suc b)"
      proof -
        have "A b = A (Suc b)" "A a = A b" using that ih s(2) by simp_all
        then show ?thesis using s(3) ih ab(1) by (cases "a = b") auto
      qed
      then show ?thesis using ih s(2) by auto
    qed (use Suc.prems in simp)
  qed simp
  have "k < j" using up [of j k] k j(1) by (cases "k < j") (auto simp: not_less le_less)
  then obtain i where i: "j = Suc i" "k \<le> i" by (cases j) auto
  have "M i \<and> A i \<le> A j \<and> (A i = A j \<longrightarrow> T i < T j \<and> V i = V j)" using step [of i] j by (simp add: i(1))
  moreover have "A k \<le> A i" "A k = A i \<Longrightarrow> k < i \<Longrightarrow> T k < T i" using up [OF i(2)] j(1) calculation by (auto simp: i(1))
  ultimately have a: "A i = A j" "T i < T j" "V i = V j" "M i" using k(3) by simp_all
  then have "k = i" using gap [of i] j(1) i k(3) \<open>A k = A i \<Longrightarrow> k < i \<Longrightarrow> T k < T i\<close> by (cases "k < i") auto
  then show ?thesis using a(3) by simp
qed

record mem_access =
  acc_isMemOp :: FElem
  acc_address :: nat
  acc_value :: FElem
  acc_isLoad :: FElem
  acc_timeStamp :: FElem

definition mem_row :: "Protoboard \<Rightarrow> MemoryTraceVariables \<Rightarrow> mem_access" where
  "mem_row pb r = \<lparr>acc_isMemOp = val pb (mt_isMemOp r), acc_address = num pb (mt_address r), acc_value = val pb (mt_value r),
     acc_isLoad = val pb (mt_isLoad r), acc_timeStamp = val pb (mt_timeStamp r)\<rparr>"

text \<open>The boards of the neighbouring pairs of a trace, and its rows.\<close>

definition trace_rows :: "MemoryConstraints_Gadget \<Rightarrow> Protoboard list \<Rightarrow> mem_access list" where
  "trace_rows m bs = mem_row (hd bs) (mc_first m) # map (\<lambda>b. mem_row b (mc_second m)) bs"

definition trace_linked :: "MemoryConstraints_Gadget \<Rightarrow> Protoboard list \<Rightarrow> bool" where
  "trace_linked m bs \<longleftrightarrow> bs \<noteq> [] \<and> (\<forall>i < length bs - 1. mem_row (bs ! i) (mc_second m) = mem_row (bs ! Suc i) (mc_first m))
     \<and> (\<forall>b \<in> set bs. addr_linked m b)"

lemma trace_nth: "trace_linked m bs \<Longrightarrow> i < length bs \<Longrightarrow>
    trace_rows m bs ! i = mem_row (bs ! i) (mc_first m) \<and> trace_rows m bs ! Suc i = mem_row (bs ! i) (mc_second m)"
  by (cases i) (auto simp: trace_rows_def trace_linked_def hd_conv_nth)

lemma trace_step:
  assumes "mc_wf m" "trace_linked m bs" "\<forall>b \<in> set bs. \<forall>p \<in> set (mc_polys m). holds b p" "i < length bs" "acc_isMemOp (trace_rows m bs ! Suc i) = 1"
  obtains s t where "s < 2 ^ 16" "t < 2 ^ 16" "acc_timeStamp (trace_rows m bs ! i) = getGF2E_X ^ s" "acc_timeStamp (trace_rows m bs ! Suc i) = getGF2E_X ^ t"
    "acc_isMemOp (trace_rows m bs ! i) = 1" "acc_address (trace_rows m bs ! i) \<le> acc_address (trace_rows m bs ! Suc i)"
    "acc_address (trace_rows m bs ! i) = acc_address (trace_rows m bs ! Suc i) \<longrightarrow> s < t
      \<and> (acc_isLoad (trace_rows m bs ! Suc i) = 1 \<longrightarrow> acc_value (trace_rows m bs ! i) = acc_value (trace_rows m bs ! Suc i))"
proof -
  have b: "bs ! i \<in> set bs" using assms(4) by simp
  note n = trace_nth [OF assms(2,4)]
  have op: "val (bs ! i) (mt_isMemOp (mc_second m)) = 1" using n assms(5) by (simp add: mem_row_def)
  have "\<forall>p \<in> set (mc_polys m). holds (bs ! i) p" "addr_linked m (bs ! i)" using assms(2,3) b by (simp_all add: trace_linked_def)
  from mc_sound [OF assms(1) this op] obtain s t where "s < 2 ^ 16" "t < 2 ^ 16" "val (bs ! i) (mt_timeStamp (mc_first m)) = getGF2E_X ^ s"
    "val (bs ! i) (mt_timeStamp (mc_second m)) = getGF2E_X ^ t" "mem_step m (bs ! i) s t" by blast
  then show thesis using op by (intro that [of s t]) (simp_all add: n mem_row_def mem_step_def)
qed



end
