(* ===== verification/TinyRamProgram.thy ===== *)
theory TinyRamProgram
  imports Protoboard
begin

text \<open>
  \<open>TinyRAMInstance.hpp\<close> and \<open>TinyRAMInstance.cpp\<close>: machine instructions, programs, their printed form and the
  reader of program files. The reader uses \<open>std::regex\<close> to split the text and \<open>std::stoul\<close> to read numbers;
  a number goes through an \<open>int\<close> before it is stored as a \<open>size_t\<close>.
\<close>

section \<open>Instructions and programs\<close>

record MachineInstruction =
  mi_opcode :: Opcode
  arg2isImmediate :: bool
  destIdx :: size_t
  arg1Idx :: size_t
  arg2IdxOrImmediate :: size_t

record RAMArchParams =
  numRegisters :: nat
  arch_registerLength :: nat

record TinyRAMProgram =
  program_name :: string
  archParams :: RAMArchParams
  code :: "MachineInstruction list"

definition TinyRAMProgram_create :: "string \<Rightarrow> nat \<Rightarrow> nat \<Rightarrow> TinyRAMProgram" where
  "TinyRAMProgram_create nm n wordSize = \<lparr>program_name = nm,
     archParams = \<lparr>numRegisters = n, arch_registerLength = wordSize\<rparr>, code = []\<rparr>"

definition program_size :: "TinyRAMProgram \<Rightarrow> nat" where
  "program_size p = length (code p)"

definition getInstructionAtPc :: "TinyRAMProgram \<Rightarrow> nat \<Rightarrow> MachineInstruction result" where
  "getInstructionAtPc p pc = (if pc < length (code p) then Inr (code p ! pc) else Inl OutOfBounds)"

definition addInstruction :: "MachineInstruction \<Rightarrow> TinyRAMProgram \<Rightarrow> TinyRAMProgram" where
  "addInstruction i p = p\<lparr>code := code p @ [i]\<rparr>"

definition pcLength :: "TinyRAMProgram \<Rightarrow> nat result" where
  "pcLength p = (let codeSize = length (code p) in
     if codeSize = 0 then Inl Fatal else if codeSize = 1 then Inr 1 else Inr (Log2ceiled codeSize))"

section \<open>Names of the opcodes\<close>

definition opcodeToString :: "Opcode \<Rightarrow> string" where
  "opcodeToString op = (case op of Op_MEMORY \<Rightarrow> ''MEMORY'' | Op_NONE \<Rightarrow> ''NONE'' | Op_AND \<Rightarrow> ''AND'' | Op_OR \<Rightarrow> ''OR'' | Op_XOR \<Rightarrow> ''XOR''
     | Op_NOT \<Rightarrow> ''NOT'' | Op_ADD \<Rightarrow> ''ADD'' | Op_SUB \<Rightarrow> ''SUB'' | Op_MULL \<Rightarrow> ''MULL'' | Op_UMULH \<Rightarrow> ''UMULH'' | Op_SMULH \<Rightarrow> ''SMULH''
     | Op_UDIV \<Rightarrow> ''UDIV'' | Op_UMOD \<Rightarrow> ''UMOD'' | Op_SHL \<Rightarrow> ''SHL'' | Op_SHR \<Rightarrow> ''SHR'' | Op_SHAR \<Rightarrow> ''SHAR'' | Op_CMPE \<Rightarrow> ''CMPE''
     | Op_CMPA \<Rightarrow> ''CMPA'' | Op_CMPAE \<Rightarrow> ''CMPAE'' | Op_CMPG \<Rightarrow> ''CMPG'' | Op_CMPGE \<Rightarrow> ''CMPGE'' | Op_MOV \<Rightarrow> ''MOV'' | Op_CMOV \<Rightarrow> ''CMOV''
     | Op_JMP \<Rightarrow> ''JMP'' | Op_CJMP \<Rightarrow> ''CJMP'' | Op_CNJMP \<Rightarrow> ''CNJMP'' | Op_RESERVED_OPCODE_24 \<Rightarrow> ''RESERVED_OPCODE_24''
     | Op_RESERVED_OPCODE_25 \<Rightarrow> ''RESERVED_OPCODE_25'' | Op_STOREB \<Rightarrow> ''STOREB'' | Op_LOADB \<Rightarrow> ''LOADB'' | Op_STOREW \<Rightarrow> ''STOREW''
     | Op_LOADW \<Rightarrow> ''LOADW'' | Op_READ \<Rightarrow> ''READ'' | Op_ANSWER \<Rightarrow> ''ANSWER'' | Op_NUM_OPCODES \<Rightarrow> ''NUM_OPCODES'')"

text \<open>What the reader can throw.\<close>

datatype parse_error = UnfamiliarInstruction | ExpectedRegister | BadFormat | InvalidArgument | NumberOutOfRange

definition opcodeFromString :: "string \<Rightarrow> parse_error + Opcode" where
  "opcodeFromString op =
    (if op = ''MEMORY'' then Inr Op_MEMORY else if op = ''NONE'' then Inr Op_NONE else if op = ''AND'' then Inr Op_AND
     else if op = ''OR'' then Inr Op_OR else if op = ''XOR'' then Inr Op_XOR else if op = ''NOT'' then Inr Op_NOT
     else if op = ''ADD'' then Inr Op_ADD else if op = ''SUB'' then Inr Op_SUB else if op = ''MULL'' then Inr Op_MULL
     else if op = ''UMULH'' then Inr Op_UMULH else if op = ''SMULH'' then Inr Op_SMULH else if op = ''UDIV'' then Inr Op_UDIV
     else if op = ''UMOD'' then Inr Op_UMOD else if op = ''SHL'' then Inr Op_SHL else if op = ''SHR'' then Inr Op_SHR
     else if op = ''SHAR'' then Inr Op_SHAR else if op = ''CMPE'' then Inr Op_CMPE else if op = ''CMPA'' then Inr Op_CMPA
     else if op = ''CMPAE'' then Inr Op_CMPAE else if op = ''CMPG'' then Inr Op_CMPG else if op = ''CMPGE'' then Inr Op_CMPGE
     else if op = ''MOV'' then Inr Op_MOV else if op = ''CMOV'' then Inr Op_CMOV else if op = ''JMP'' then Inr Op_JMP
     else if op = ''CJMP'' then Inr Op_CJMP else if op = ''CNJMP'' then Inr Op_CNJMP
     else if op = ''RESERVED_OPCODE_24'' then Inr Op_RESERVED_OPCODE_24 else if op = ''RESERVED_OPCODE_25'' then Inr Op_RESERVED_OPCODE_25
     else if op = ''STOREB'' then Inr Op_STOREB else if op = ''LOADB'' then Inr Op_LOADB else if op = ''STOREW'' then Inr Op_STOREW
     else if op = ''LOADW'' then Inr Op_LOADW else if op = ''READ'' then Inr Op_READ else if op = ''ANSWER'' then Inr Op_ANSWER
     else if op = ''NUM_OPCODES'' then Inr Op_NUM_OPCODES else Inl UnfamiliarInstruction)"

section \<open>Printing\<close>

definition instruction_print :: "MachineInstruction \<Rightarrow> string" where
  "instruction_print i = opcodeToString (mi_opcode i) @ '' r'' @ nat_digits (unat (destIdx i)) @ '' r'' @ nat_digits (unat (arg1Idx i))
     @ (if arg2isImmediate i then '' '' else '' r'') @ nat_digits (unat (arg2IdxOrImmediate i)) @ [CHR 0x0A]"

definition program_print :: "TinyRAMProgram \<Rightarrow> string" where
  "program_print p = concat (map instruction_print (code p))"

section \<open>Reading\<close>

text \<open>
  \<open>std::sregex_token_iterator\<close> with submatch -1 for a pattern \<open>[...]+\<close>: the maximal runs of characters that do
  not match, where a run in front of the first match may be empty and one behind the last match is left out
  when it is empty; without a match the whole text is the only token.
\<close>

function regex_tokens :: "(char \<Rightarrow> bool) \<Rightarrow> string \<Rightarrow> string \<Rightarrow> string list" where
  "regex_tokens sep tok [] = (if tok = [] then [] else [rev tok])"
| "regex_tokens sep tok (c # cs) = (if sep c then rev tok # regex_tokens sep [] (dropWhile sep cs) else regex_tokens sep (c # tok) cs)"
  by pat_completeness auto
termination by (relation "measure (\<lambda>(sep, tok, s). length s)") (auto simp: less_Suc_eq_le length_dropWhile_le)

definition regex_split :: "(char \<Rightarrow> bool) \<Rightarrow> string \<Rightarrow> string list" where
  "regex_split sep s = (if s = [] then [[]] else regex_tokens sep [] s)"

definition isspace :: "char \<Rightarrow> bool" where
  "isspace c \<longleftrightarrow> c \<in> {CHR '' '', CHR 0x09, CHR 0x0A, CHR 0x0B, CHR 0x0C, CHR 0x0D}"

text \<open>\<open>std::stoul\<close> in base 10: white space, a sign, digits; the rest of the text is ignored.\<close>

definition digit_value :: "char \<Rightarrow> nat option" where
  "digit_value c = (let n = of_char c in if 48 \<le> n \<and> n \<le> 57 then Some (n - 48) else None)"

fun read_digits :: "string \<Rightarrow> nat \<Rightarrow> nat" where
  "read_digits [] n = n"
| "read_digits (c # cs) n = (case digit_value c of None \<Rightarrow> n | Some d \<Rightarrow> read_digits cs (10 * n + d))"

definition stoul :: "string \<Rightarrow> parse_error + 64 word" where
  "stoul s = (let s = dropWhile isspace s;
     neg = (s \<noteq> [] \<and> hd s = CHR ''-'');
     s = (if s \<noteq> [] \<and> (hd s = CHR ''-'' \<or> hd s = CHR ''+'') then tl s else s) in
     if s = [] \<or> digit_value (hd s) = None then Inl InvalidArgument
     else let n = read_digits s 0 in if 2 ^ 64 \<le> n then Inl NumberOutOfRange
     else Inr (if neg then - of_nat n else of_nat n))"

text \<open>The functions return \<open>int\<close>: the low 32 bits, which the assignment to a \<open>size_t\<close> extends with the sign.\<close>

definition as_int :: "64 word \<Rightarrow> size_t" where
  "as_int w = scast (ucast w :: 32 word)"

definition isReg :: "string \<Rightarrow> bool" where
  "isReg s \<longleftrightarrow> 1 < length s \<and> s ! 0 = CHR ''r''"

definition getImmidiate :: "string \<Rightarrow> parse_error + size_t" where
  "getImmidiate s = map_sum id as_int (stoul s)"

definition getRegNum :: "string \<Rightarrow> parse_error + size_t" where
  "getRegNum s = (if \<not> isReg s then Inl ExpectedRegister else map_sum id as_int (stoul (drop 1 s)))"

definition parse_bind :: "parse_error + 'a \<Rightarrow> ('a \<Rightarrow> parse_error + 'b) \<Rightarrow> parse_error + 'b" where
  "parse_bind r f = (case r of Inl e \<Rightarrow> Inl e | Inr x \<Rightarrow> f x)"

definition MachineInstruction_parse :: "string \<Rightarrow> parse_error + MachineInstruction" where
  "MachineInstruction_parse line = (let words = regex_split (\<lambda>c. isspace c \<or> c = CHR '','') line in
     if length words \<noteq> 4 then Inl BadFormat else
     parse_bind (opcodeFromString (words ! 0)) (\<lambda>op.
     parse_bind (getRegNum (words ! 1)) (\<lambda>dst.
     parse_bind (getRegNum (words ! 2)) (\<lambda>arg1.
     let imm = \<not> isReg (words ! 3) in
     parse_bind (if \<not> imm then getRegNum (words ! 3) else getImmidiate (words ! 3)) (\<lambda>arg2.
     Inr \<lparr>mi_opcode = op, arg2isImmediate = imm, destIdx = dst, arg1Idx = arg1, arg2IdxOrImmediate = arg2\<rparr>)))))"

text \<open>The contents of the file are a parameter.\<close>

fun add_lines :: "string list \<Rightarrow> TinyRAMProgram \<Rightarrow> parse_error + TinyRAMProgram" where
  "add_lines [] p = Inr p"
| "add_lines (l # ls) p = parse_bind (MachineInstruction_parse l) (\<lambda>i. add_lines ls (addInstruction i p))"

definition addInstructionsFromFile :: "string \<Rightarrow> TinyRAMProgram \<Rightarrow> parse_error + TinyRAMProgram" where
  "addInstructionsFromFile content p = add_lines (regex_split (\<lambda>c. c = CHR 0x0A) content) p"

section \<open>Numbers\<close>

lemma digit_char: "d < 10 \<Longrightarrow> digit_value (char_of (48 + d)) = Some d" for d :: nat
  by (simp add: digit_value_def)

lemma read_nat_digits: "read_digits (nat_digits n @ cs) 0 = read_digits cs n"
proof (induction n arbitrary: cs rule: nat_digits.induct)
  case (1 n)
  show ?case
  proof (cases "n < 10")
    case True
    then show ?thesis by (simp add: nat_digits.simps digit_char)
  next
    case False
    have "read_digits (nat_digits n @ cs) 0 = read_digits (nat_digits (n div 10) @ char_of (48 + n mod 10) # cs) 0"
      using False by (simp add: nat_digits.simps [of n])
    also have "\<dots> = read_digits cs (10 * (n div 10) + n mod 10)" using 1 [OF False] by (simp add: digit_char)
    finally show ?thesis by simp
  qed
qed

lemma nat_digits_chars: "c \<in> set (nat_digits n) \<Longrightarrow> \<exists>d :: nat. d < 10 \<and> c = char_of (48 + d)"
proof (induction n rule: nat_digits.induct)
  case (1 n)
  show ?case
  proof (cases "n < 10")
    case False
    then have "c \<in> set (nat_digits (n div 10)) \<or> c = char_of (48 + n mod 10)" using "1.prems" by (auto simp: nat_digits.simps [of n])
    then show ?thesis using 1(1) [OF False] mod_less_divisor [of 10 n] by (metis zero_less_numeral)
  qed (use "1.prems" in \<open>auto simp: nat_digits.simps\<close>)
qed

lemma digit_not_space: "d < 10 \<Longrightarrow> \<not> isspace (char_of (48 + d)) \<and> char_of (48 + d) \<notin> {CHR '','', CHR ''-'', CHR ''+'', CHR ''r''}" for d :: nat
proof -
  assume d: "d < 10"
  have ne: "char_of (48 + d) \<noteq> c" if "of_char c < (48 :: nat) \<or> 58 \<le> (of_char c :: nat)" for c
  proof
    assume "char_of (48 + d) = c"
    then have "of_char c = 48 + d" using d by (auto simp: of_char_of)
    then show False using that d by simp
  qed
  show ?thesis by (simp add: isspace_def ne)
qed

lemma nat_digits_nonempty [simp]: "nat_digits n \<noteq> []"
  by (simp add: nat_digits.simps [of n])

lemma stoul_nat_digits: "n < 2 ^ 64 \<Longrightarrow> stoul (nat_digits n) = Inr (of_nat n)"
proof -
  assume n: "n < 2 ^ 64"
  obtain c cs where c: "nat_digits n = c # cs" by (cases "nat_digits n") auto
  obtain d :: nat where d: "d < 10" "c = char_of (48 + d)" using nat_digits_chars [of c n] c by auto
  have "dropWhile isspace (nat_digits n) = nat_digits n" using digit_not_space [OF d(1)] by (simp add: c d(2))
  moreover have "read_digits (nat_digits n) 0 = n" using read_nat_digits [of n "[]"] by simp
  ultimately show ?thesis using digit_not_space [OF d(1)] digit_char [OF d(1)] n by (simp add: stoul_def Let_def c d(2))
qed

lemma as_int_small: "unat w < 2 ^ 31 \<Longrightarrow> as_int w = w"
proof -
  assume w: "unat w < 2 ^ 31"
  have high: "\<not> bit w k" if "31 \<le> k" for k using not_bit_less [OF w that] by (simp add: bit_unat)
  show ?thesis
  proof (rule bit_word_eqI)
    fix k assume k: "k < LENGTH(64)"
    show "bit (as_int w) k = bit w k"
      using high [of k] high [of 31] k by (cases "k < 31") (simp_all add: as_int_def bit_signed_iff bit_unsigned_iff min_def)
  qed
qed

lemma as_int_large: "2 ^ 31 \<le> n \<Longrightarrow> n < 2 ^ 32 \<Longrightarrow> unat (as_int (of_nat n)) = n + 2 ^ 64 - 2 ^ 32"
proof -
  assume n: "2 ^ 31 \<le> n" "n < 2 ^ 32"
  then have "n < 2 ^ 64" by simp
  then have u: "(ucast (of_nat n :: 64 word) :: 32 word) = word_of_int (int n)" by (simp add: unsigned_of_nat take_bit_nat_eq_self)
  have "(int n + 2 ^ 31) mod 2 ^ 32 = (int n + 2 ^ 31 - 2 ^ 32) mod 2 ^ 32" by (simp only: minus_mod_self2)
  then have "(int n + 2 ^ 31) mod 2 ^ 32 = int n + 2 ^ 31 - 2 ^ 32" using n by simp
  then have "sint (word_of_int (int n) :: 32 word) = int n - 2 ^ 32"
    by (simp add: sint_sbintrunc' signed_take_bit_eq_take_bit_shift take_bit_eq_mod del: of_int_of_nat_eq)
  then have "as_int (of_nat n) = word_of_int (int n - 2 ^ 32)" unfolding as_int_def u by (simp only: scast_eq)
  then have "uint (as_int (of_nat n)) = (int n - 2 ^ 32) mod 2 ^ 64" by (simp only: uint_word_of_int) simp
  also have "\<dots> = (int n - 2 ^ 32 + 2 ^ 64) mod 2 ^ 64" by (simp only: mod_add_self2)
  also have "\<dots> = int n - 2 ^ 32 + 2 ^ 64" using n by (intro mod_pos_pos_trivial) auto
  finally have "int (unat (as_int (of_nat n))) = int n - 2 ^ 32 + 2 ^ 64" by (simp only: uint_nat)
  then show ?thesis using n by (simp del: int_nat_eq uint_nat unat_eq_nat_uint add: nat_eq_iff flip: of_nat_eq_iff [where ?'a = int])
qed

section \<open>Round trips\<close>

lemma regex_tokens_word:
  "(\<forall>x \<in> set w. \<not> sep x) \<Longrightarrow> sep c \<Longrightarrow> regex_tokens sep tok (w @ c # rest) = (rev tok @ w) # regex_tokens sep [] (dropWhile sep rest)"
  by (induction w arbitrary: tok) simp_all

lemma regex_tokens_last: "(\<forall>x \<in> set w. \<not> sep x) \<Longrightarrow> w \<noteq> [] \<Longrightarrow> regex_tokens sep tok w = [rev tok @ w]"
proof (induction w arbitrary: tok)
  case (Cons c w)
  then show ?case by (cases w) simp_all
qed simp

lemma opcode_names: "opcodeFromString (opcodeToString op) = Inr op"
  by (cases op) (simp_all add: opcodeToString_def opcodeFromString_def)

abbreviation separator :: "char \<Rightarrow> bool" where "separator \<equiv> \<lambda>c. isspace c \<or> c = CHR '',''"

lemma opcode_chars: "\<forall>c \<in> set (opcodeToString op). \<not> separator c" "opcodeToString op \<noteq> []"
  by (cases op; simp add: opcodeToString_def isspace_def)+

lemma digits_chars: "\<forall>c \<in> set (nat_digits n). \<not> separator c"
  using digit_not_space nat_digits_chars by (metis insertCI)

text \<open>The four words of a printed instruction.\<close>

definition instruction_words :: "MachineInstruction \<Rightarrow> string list" where
  "instruction_words i = [opcodeToString (mi_opcode i), CHR ''r'' # nat_digits (unat (destIdx i)), CHR ''r'' # nat_digits (unat (arg1Idx i)),
     (if arg2isImmediate i then [] else ''r'') @ nat_digits (unat (arg2IdxOrImmediate i))]"

lemma print_words: "instruction_print i = instruction_words i ! 0 @ CHR '' '' # instruction_words i ! 1 @ CHR '' '' # instruction_words i ! 2
    @ CHR '' '' # instruction_words i ! 3 @ [CHR 0x0A]"
  by (simp add: instruction_print_def instruction_words_def)

lemma separators [simp]: "separator (CHR '' '')" "separator (CHR 0x0A)" "\<not> separator (CHR ''r'')"
  by (simp_all add: isspace_def)

lemma words_chars:
  assumes "k < 4"
  shows "(\<forall>c \<in> set (instruction_words i ! k). \<not> separator c) \<and> instruction_words i ! k \<noteq> []"
proof -
  note f = opcode_chars [of "mi_opcode i"] digits_chars [of "unat (destIdx i)"] digits_chars [of "unat (arg1Idx i)"] digits_chars [of "unat (arg2IdxOrImmediate i)"] separators(3)
  have "k = 0 \<or> k = 1 \<or> k = 2 \<or> k = 3" using assms by arith
  then show ?thesis using f by (elim disjE) (simp_all add: instruction_words_def)
qed

lemma dropWhile_word: "\<forall>c \<in> set w. \<not> sep c \<Longrightarrow> w \<noteq> [] \<Longrightarrow> dropWhile sep (w @ q) = w @ q"
  by (cases w) simp_all

lemma split_words:
  assumes "r = [] \<or> r = [CHR 0x0A]"
  shows "regex_split separator (instruction_words i ! 0 @ CHR '' '' # instruction_words i ! 1 @ CHR '' '' # instruction_words i ! 2 @ CHR '' '' # instruction_words i ! 3 @ r)
    = instruction_words i"
proof -
  have tokens: "regex_tokens sep [] (a @ x # b @ x # c @ x # d @ r) = [a, b, c, d]"
    if "\<forall>y \<in> set a. \<not> sep y" "\<forall>y \<in> set b. \<not> sep y" "\<forall>y \<in> set c. \<not> sep y" "\<forall>y \<in> set d. \<not> sep y" "b \<noteq> []" "c \<noteq> []" "d \<noteq> []" "sep x" "sep (CHR 0x0A)"
    for sep a b c d and x :: char
  proof -
    have "regex_tokens sep [] (d @ r) = [d]"
      using assms regex_tokens_word [OF that(4,9), of "[]" "[]"] regex_tokens_last [OF that(4,7), of "[]"] by auto
    then show ?thesis using that by (simp add: regex_tokens_word dropWhile_word)
  qed
  let ?w = "\<lambda>k. instruction_words i ! k"
  have "regex_tokens separator [] (?w 0 @ CHR '' '' # ?w 1 @ CHR '' '' # ?w 2 @ CHR '' '' # ?w 3 @ r) = [?w 0, ?w 1, ?w 2, ?w 3]"
    by (rule tokens) (use words_chars [of 0 i] words_chars [of 1 i] words_chars [of 2 i] words_chars [of 3 i] separators in \<open>blast | simp\<close>)+
  then show ?thesis by (simp add: regex_split_def instruction_words_def)
qed

definition small :: "MachineInstruction \<Rightarrow> bool" where
  "small i \<longleftrightarrow> unat (destIdx i) < 2 ^ 31 \<and> unat (arg1Idx i) < 2 ^ 31 \<and> unat (arg2IdxOrImmediate i) < 2 ^ 31"

lemma parse_words:
  assumes "small i" "r = [] \<or> r = [CHR 0x0A]"
  shows "MachineInstruction_parse (instruction_words i ! 0 @ CHR '' '' # instruction_words i ! 1 @ CHR '' '' # instruction_words i ! 2 @ CHR '' '' # instruction_words i ! 3 @ r) = Inr i"
proof -
  have reg: "getRegNum (CHR ''r'' # nat_digits (unat w)) = Inr w" "isReg (CHR ''r'' # nat_digits (unat w))" if "unat w < 2 ^ 31" for w :: size_t
    using that stoul_nat_digits [of "unat w"] unsigned_less [of w] nat_digits_nonempty [of "unat w"] by (simp_all add: getRegNum_def isReg_def as_int_small)
  have imm: "getImmidiate (nat_digits (unat w)) = Inr w" "\<not> isReg (nat_digits (unat w))" if "unat w < 2 ^ 31" for w :: size_t
  proof -
    show "getImmidiate (nat_digits (unat w)) = Inr w" using that stoul_nat_digits [of "unat w"] unsigned_less [of w] by (simp add: getImmidiate_def as_int_small)
    have "nat_digits (unat w) ! 0 \<in> set (nat_digits (unat w))" by (rule nth_mem) simp
    then show "\<not> isReg (nat_digits (unat w))" using nat_digits_chars digit_not_space by (fastforce simp: isReg_def)
  qed
  show ?thesis unfolding MachineInstruction_parse_def split_words [OF assms(2)]
    using assms(1) reg imm by (cases i) (simp add: instruction_words_def parse_bind_def opcode_names small_def Let_def)
qed

lemma parse_print: "small i \<Longrightarrow> MachineInstruction_parse (instruction_print i) = Inr i" "small i \<Longrightarrow> MachineInstruction_parse (butlast (instruction_print i)) = Inr i"
  using parse_words [of i "[CHR 0x0A]"] parse_words [of i "[]"] by (simp_all add: print_words butlast_append)

lemma print_line: "\<forall>c \<in> set (butlast (instruction_print i)). c \<noteq> CHR 0x0A" "instruction_print i = butlast (instruction_print i) @ [CHR 0x0A]"
    "hd (instruction_print i) \<noteq> CHR 0x0A" "instruction_print i \<noteq> []"
proof -
  have c: "\<forall>c \<in> set (instruction_words i ! k). c \<noteq> CHR 0x0A" if "k < 4" for k using words_chars [OF that, of i] by (auto simp: isspace_def)
  show "\<forall>c \<in> set (butlast (instruction_print i)). c \<noteq> CHR 0x0A" "instruction_print i = butlast (instruction_print i) @ [CHR 0x0A]"
    using c [of 0] c [of 1] c [of 2] c [of 3] by (auto simp: print_words butlast_append)
  show "hd (instruction_print i) \<noteq> CHR 0x0A" "instruction_print i \<noteq> []" using words_chars [of 0 i] c [of 0] by (cases "instruction_words i ! 0"; simp add: print_words)+
qed

lemma split_lines: "is \<noteq> [] \<Longrightarrow> regex_tokens (\<lambda>c. c = CHR 0x0A) [] (concat (map instruction_print is)) = map (\<lambda>i. butlast (instruction_print i)) is"
proof (induction "is")
  case (Cons i "is")
  let ?s = "\<lambda>c. c = CHR 0x0A"
  have d: "dropWhile ?s (concat (map instruction_print is)) = concat (map instruction_print is)"
    using print_line(3,4) by (cases "is") (auto simp: dropWhile_eq_self_iff hd_append)
  have "regex_tokens ?s [] (concat (map instruction_print (i # is))) = butlast (instruction_print i) # regex_tokens ?s [] (concat (map instruction_print is))"
    using regex_tokens_word [of "butlast (instruction_print i)" ?s "CHR 0x0A" "[]" "concat (map instruction_print is)"] print_line(1) [of i]
    by (subst list.map, subst concat.simps, subst print_line(2)) (simp add: d del: butlast.simps)
  then show ?case using Cons.IH by (cases "is") simp_all
qed simp

lemma add_lines_print: "\<forall>i \<in> set is. small i \<Longrightarrow> add_lines (map (\<lambda>i. butlast (instruction_print i)) is) p = Inr (p\<lparr>code := code p @ is\<rparr>)"
  by (induction "is" arbitrary: p) (simp_all add: parse_print(2) parse_bind_def addInstruction_def)

text \<open>Property C38. Programs survive printing and reading. The name of every opcode is read back as the opcode. An
  instruction whose numbers are below 2^31 is read back from its printed line. Reading the printed text of a
  program with such instructions appends them to a program, in order. The printed text of the empty
  program, though, is rejected, and a register number from 2^31 to 2^32 - 1 is read as a number near 2^64.\<close>

theorem program_round_trip:
  "opcodeFromString (opcodeToString op) = Inr op
    \<and> (small i \<longrightarrow> MachineInstruction_parse (instruction_print i) = Inr i)
    \<and> (code p \<noteq> [] \<longrightarrow> (\<forall>i \<in> set (code p). small i) \<longrightarrow> addInstructionsFromFile (program_print p) q = Inr (q\<lparr>code := code q @ code p\<rparr>))
    \<and> (code p = [] \<longrightarrow> addInstructionsFromFile (program_print p) q = Inl BadFormat)
    \<and> (2 ^ 31 \<le> n \<longrightarrow> n < 2 ^ 32 \<longrightarrow> map_sum id unat (getRegNum (CHR ''r'' # nat_digits n)) = Inr (n + 2 ^ 64 - 2 ^ 32))"
proof (intro conjI impI)
  show "opcodeFromString (opcodeToString op) = Inr op" by (rule opcode_names)
  show "MachineInstruction_parse (instruction_print i) = Inr i" if "small i" by (rule parse_print(1) [OF that])
  show "addInstructionsFromFile (program_print p) q = Inr (q\<lparr>code := code q @ code p\<rparr>)" if c: "code p \<noteq> []" "\<forall>i \<in> set (code p). small i"
  proof -
    have "program_print p \<noteq> []" using c(1) print_line(4) by (cases "code p") (auto simp: program_print_def)
    then show ?thesis unfolding addInstructionsFromFile_def regex_split_def using add_lines_print [OF c(2)]
      by (simp only: if_False) (simp only: program_print_def split_lines [OF c(1)])
  qed
  show "addInstructionsFromFile (program_print p) q = Inl BadFormat" if "code p = []"
    using that by (simp add: addInstructionsFromFile_def regex_split_def program_print_def MachineInstruction_parse_def parse_bind_def)
  show "map_sum id unat (getRegNum (CHR ''r'' # nat_digits n)) = Inr (n + 2 ^ 64 - 2 ^ 32)" if "2 ^ 31 \<le> n" "n < 2 ^ 32"
    using that stoul_nat_digits [of n] as_int_large [OF that] nat_digits_nonempty [of n] by (simp add: getRegNum_def isReg_def)
qed

theorem program_round_trip_witness:
  "MachineInstruction_parse (instruction_print \<lparr>mi_opcode = Op_ADD, arg2isImmediate = True, destIdx = 1, arg1Idx = 2, arg2IdxOrImmediate = 30\<rparr>)
    = Inr \<lparr>mi_opcode = Op_ADD, arg2isImmediate = True, destIdx = 1, arg1Idx = 2, arg2IdxOrImmediate = 30\<rparr>"
  by (rule program_round_trip [THEN conjunct2, THEN conjunct1, THEN mp]) (simp add: small_def)

end
