(* ===== verification/BitExtract.thy ===== *)
theory BitExtract
  imports FieldElement
begin

text \<open>
  \<open>BitExtract.cpp\<close>: for a bit number there is a constant \<open>c\<close> such that the elements \<open>c * (w * w + w)\<close> are exactly
  those whose bit with this number is 0. A constraint with an auxiliary \<open>w\<close> thus states that a bit is 0, and
  \<open>extractBit\<close> computes the \<open>w\<close>, by the inverse of a matrix of bits. A matrix is the list of its rows, each row a word.
\<close>

section \<open>The constants\<close>

abbreviation DIM :: nat where "DIM \<equiv> 64"
abbreviation matDim :: nat where "matDim \<equiv> 63"

definition invExtrArr :: "FieldElement list" where
  "invExtrArr = map (mapIntegerToFieldElement 0 DIM)
    [1 + 2 + 4 + 8, 8 + 2, 8 + 4, 16 + 8, 0x5CB972E5CB972E52, 0xDB6DB6DB6DB6DB6A, 0xB6DB6DB6DB6DB6CF, 0x6DB6DB6DB6DB6D85,
     0xDB6DB6DB6DB6DB0A, 0xB6DB6DB6DB6DB00F, 0xDB6DB6DB6DB6C00A, 0x6DB6DB6DB6DB0005, 0x6DB6DB6DB6D80005, 0xDB6DB6DB6D80000A,
     0xDB6DB6DB6C00000A, 0xB6DB6DB60000000F, 0xB6DB6D800000000F, 0x6DB6D80000000005, 0xDB6DB0000000000A, 0xDB6C00000000000A,
     0x6DB0000000000005, 0x6C00000000000005, 0xB6DB6DB6DB6DB60F, 0x6DB6DB6DB6DB6C05, 0xDB6DB6DB6DB6D80A, 0x6DB6DB6DB6DB6005,
     0xB6DB6DB6DB6D800F]"

text \<open>The position of the constant for a bit number in the array; a \<open>throw\<close> without an exception ends the program.\<close>

definition invExtr_position :: "int \<Rightarrow> nat option" where
  "invExtr_position = map_of [(-1, 0), (0, 1), (1, 2), (2, 3), (3, 4), (4, 5), (5, 6), (6, 7), (7, 8), (11, 9), (13, 10), (15, 11),
     (18, 12), (22, 13), (25, 14), (32, 15), (38, 16), (42, 17), (43, 18), (49, 19), (51, 20), (57, 21), (8, 22), (9, 23), (10, 24),
     (12, 25), (14, 26)]"

definition invExtrConsts :: "int \<Rightarrow> FieldElement result" where
  "invExtrConsts i = (case invExtr_position i of None \<Rightarrow> Inl Fatal | Some k \<Rightarrow> Inr (invExtrArr ! k))"

section \<open>Inversion of a matrix of bits\<close>

type_synonym matBitExt_t = "size_t list"

text \<open>One row operation, on the matrix and on the unit matrix beside it.\<close>

definition row_xor :: "nat \<Rightarrow> nat \<Rightarrow> matBitExt_t \<times> matBitExt_t \<Rightarrow> matBitExt_t \<times> matBitExt_t" where
  "row_xor i r = (\<lambda>(srcMat, unitMat). (srcMat[i := srcMat ! i XOR srcMat ! r], unitMat[i := unitMat ! i XOR unitMat ! r]))"

fun find_row :: "size_t \<Rightarrow> nat \<Rightarrow> nat list \<Rightarrow> matBitExt_t \<times> matBitExt_t \<Rightarrow> matBitExt_t \<times> matBitExt_t" where
  "find_row colMask currCol [] m = m"
| "find_row colMask currCol (r # rs) m = (if fst m ! r AND colMask \<noteq> 0 then row_xor currCol r m else find_row colMask currCol rs m)"

definition clear_row :: "size_t \<Rightarrow> nat \<Rightarrow> nat \<Rightarrow> matBitExt_t \<times> matBitExt_t \<Rightarrow> matBitExt_t \<times> matBitExt_t" where
  "clear_row colMask currCol r m = (if r = currCol then m else if fst m ! r AND colMask \<noteq> 0 then row_xor r currCol m else m)"

definition getInv_column :: "nat \<Rightarrow> matBitExt_t \<times> matBitExt_t \<Rightarrow> (matBitExt_t \<times> matBitExt_t) result" where
  "getInv_column currCol m = (let colMask = push_bit currCol 1;
     m = (if fst m ! currCol AND colMask = 0 then find_row colMask currCol [currCol + 1..<matDim] m else m)
     in if fst m ! currCol AND colMask = 0 then Inl AssertFailed else Inr (fold (clear_row colMask currCol) [0..<matDim] m))"

definition getInv :: "matBitExt_t \<Rightarrow> matBitExt_t result" where
  "getInv src = res_map snd (fold (\<lambda>currCol r. res_bind r (getInv_column currCol)) [0..<matDim]
     (Inr (src, map (\<lambda>i. push_bit i 1) [0..<matDim])))"

section \<open>Extraction\<close>

definition matrix_row :: "int \<Rightarrow> size_t \<Rightarrow> size_t" where
  "matrix_row bitNum v = fst (fold (\<lambda>j (row, v). (row OR push_bit j (if int j < bitNum then v AND 1 else drop_bit 1 (v AND 2)), drop_bit 1 v))
     [0..<DIM - 1] (0, v))"

definition matForBitExtr :: "int \<Rightarrow> matBitExt_t result" where
  "matForBitExtr bitNum = res_bind (invExtrConsts bitNum) (\<lambda>invExtractBit.
     getInv (fst (fold (\<lambda>i (M, y). (M @ [matrix_row bitNum (mapFieldElementToInteger 0 64 (invExtractBit * (y * y + y)))], y * xFE))
       [0..<matDim] ([], xFE))))"

definition vcoeffs :: "int \<Rightarrow> size_t \<Rightarrow> size_t" where
  "vcoeffs bitNum tvec = fold (\<lambda>j v. v OR ((if int j < bitNum then tvec else drop_bit 1 tvec) AND push_bit j 1)) [0..<DIM - 1] 0"

definition mat_vec :: "size_t \<Rightarrow> matBitExt_t \<Rightarrow> size_t" where
  "mat_vec coeffs invM = fold (\<lambda>i v. if drop_bit i coeffs AND 1 \<noteq> 0 then v XOR invM ! i else v) [0..<matDim] 0"

definition extractBit_with :: "FieldElement \<Rightarrow> int \<Rightarrow> matBitExt_t \<Rightarrow> FieldElement" where
  "extractBit_with elem bitNum invM = (let v = mat_vec (vcoeffs bitNum (mapFieldElementToInteger 0 64 elem)) invM
     in fst (fold (\<lambda>j (y, tmp). (if v AND push_bit j 1 \<noteq> 0 then y + tmp else y, tmp * xFE)) [0..<DIM - 1] (0, xFE)))"

definition extractBit :: "FieldElement \<Rightarrow> int \<Rightarrow> FieldElement result" where
  "extractBit elem bitNum = res_map (extractBit_with elem bitNum) (matForBitExtr bitNum)"

section \<open>Products of a vector and a matrix\<close>

primrec comb :: "size_t \<Rightarrow> matBitExt_t \<Rightarrow> nat \<Rightarrow> size_t" where
  "comb v M 0 = 0"
| "comb v M (Suc n) = comb v M n XOR (if bit v n then M ! n else 0)"

lemma drop_and_1: "drop_bit i v AND 1 \<noteq> 0 \<longleftrightarrow> bit v i" for v :: "'a::len word"
  by (simp add: and_one_eq bit_iff_odd_drop_bit odd_iff_mod_2_eq_one)

lemma mat_vec_comb: "mat_vec v M = comb v M matDim"
proof -
  have "fold (\<lambda>i a. if drop_bit i v AND 1 \<noteq> 0 then a XOR M ! i else a) [0..<n] 0 = comb v M n" for n
    by (induction n) (simp_all only: upt_Suc fold_append comb.simps drop_and_1, simp_all)
  then show ?thesis by (simp add: mat_vec_def)
qed

lemma comb_xor: "comb (a XOR b) M n = comb a M n XOR comb b M n"
  by (induction n) (auto simp: bit_xor_iff xor_simps)

lemma bit_unit: "bit (push_bit r 1 :: size_t) k \<longleftrightarrow> r = k \<and> k < 64"
  by (auto simp: bit_exp_iff)

lemma comb_unit: "n \<le> 64 \<Longrightarrow> comb (push_bit r 1) M n = (if r < n then M ! r else 0)"
  by (induction n) (auto simp only: comb.simps bit_unit less_Suc_eq xor_self_eq xor.left_neutral xor.right_neutral if_False if_True split: if_splits)

lemma comb_0 [simp]: "comb 0 M n = 0"
  by (induction n) simp_all

lemma comb_update: "c < length M \<Longrightarrow> comb v (M[c := M ! c XOR w]) n = comb v M n XOR (if c < n \<and> bit v c then w else 0)"
  by (induction n) (auto simp: nth_list_update less_Suc_eq xor_simps)

lemma comb_bit: "bit (comb v M n) k \<longleftrightarrow> odd (card {i. i < n \<and> bit v i \<and> bit (M ! i) k})"
proof (induction n)
  case (Suc n)
  have "{i. i < Suc n \<and> bit v i \<and> bit (M ! i) k} = {i. i < n \<and> bit v i \<and> bit (M ! i) k} \<union> (if bit v n \<and> bit (M ! n) k then {n} else {})"
    by (auto simp: less_Suc_eq)
  moreover have "finite {i. i < n \<and> bit v i \<and> bit (M ! i) k}" by simp
  ultimately show ?case using Suc by (simp add: bit_xor_iff)
qed simp

lemma comb_map: "n \<le> length M \<Longrightarrow> comb (comb v U m) M n = comb v (map (\<lambda>u. comb u M n) U) m" if "m \<le> length U"
  using that by (induction m) (simp_all add: comb_xor)

section \<open>Gaussian elimination\<close>

text \<open>
  The state before column \<open>col\<close>: the rows beside the matrix say how its rows are combined from the
  rows of the source, the columns in front of \<open>col\<close> are those of the unit matrix, and the rows are independent.
\<close>

definition independent :: "matBitExt_t \<Rightarrow> bool" where
  "independent M \<longleftrightarrow> (\<forall>v. \<not> bit v 63 \<longrightarrow> comb v M matDim = 0 \<longrightarrow> v = 0)"

definition gauss_inv :: "matBitExt_t \<Rightarrow> nat \<Rightarrow> matBitExt_t \<times> matBitExt_t \<Rightarrow> bool" where
  "gauss_inv src col = (\<lambda>(s, u). length s = matDim \<and> length u = matDim \<and> independent s
    \<and> (\<forall>r < matDim. \<not> bit (s ! r) 63 \<and> comb (u ! r) src matDim = s ! r \<and> (\<forall>c < col. bit (s ! r) c \<longleftrightarrow> r = c)))"

lemma independent_row_xor:
  assumes "independent s" "length s = matDim" "i \<noteq> r" "i < matDim" "r < matDim"
  shows "independent (s[i := s ! i XOR s ! r])"
  unfolding independent_def
proof (intro allI impI)
  fix v :: size_t
  assume v: "\<not> bit v 63" and 0: "comb v (s[i := s ! i XOR s ! r]) matDim = 0"
  let ?w = "v XOR (if bit v i then push_bit r 1 else 0)"
  have "comb ?w s matDim = comb v (s[i := s ! i XOR s ! r]) matDim"
    using assms comb_update [of i s v "s ! r" matDim] by (simp add: comb_xor comb_unit del: push_bit_of_1)
  moreover have "\<not> bit ?w 63" using v assms(5) by (simp add: bit_xor_iff bit_unit del: push_bit_of_1)
  ultimately have w: "?w = 0" using assms(1) 0 by (simp add: independent_def)
  have "\<not> bit v i"
  proof
    assume b: "bit v i"
    then have "v = push_bit r 1" using w by (simp only: if_True xor_eq_0_iff)
    then show False using b assms(3) by (simp only: bit_unit)
  qed
  then show "v = 0" using w by simp
qed

lemma gauss_row_xor:
  assumes "gauss_inv src col m" "i \<noteq> r" "i < matDim" "r < matDim" "col \<le> r"
  shows "gauss_inv src col (row_xor i r m)"
proof -
  obtain s u where m: "m = (s, u)" by (cases m)
  have "independent (s[i := s ! i XOR s ! r])" using assms m by (intro independent_row_xor) (simp_all add: gauss_inv_def)
  then show ?thesis using assms by (auto simp: m gauss_inv_def row_xor_def nth_list_update comb_xor bit_xor_iff)
qed

lemma pivot_ex:
  assumes "gauss_inv src col (s, u)" "col < matDim"
  shows "\<exists>r. col \<le> r \<and> r < matDim \<and> bit (s ! r) col"
proof (rule ccontr)
  assume no: "\<not> ?thesis"
  define A where "A = {v :: size_t. \<not> bit v 63}"
  have A: "comb v s matDim \<in> A" if "v \<in> A" for v
  proof -
    have "{i. i < matDim \<and> bit v i \<and> bit (s ! i) 63} = {}" using assms(1) by (auto simp: gauss_inv_def)
    then show ?thesis unfolding A_def mem_Collect_eq comb_bit by (simp only: card.empty even_zero not_not)
  qed
  have "inj_on (\<lambda>v. comb v s matDim) A"
  proof (rule inj_onI)
    fix a b assume ab: "a \<in> A" "b \<in> A" "comb a s matDim = comb b s matDim"
    then have "comb (a XOR b) s matDim = 0" by (simp add: comb_xor)
    moreover have "\<not> bit (a XOR b) 63" using ab by (simp add: A_def bit_xor_iff)
    ultimately have "a XOR b = 0" using assms(1) by (simp add: gauss_inv_def independent_def)
    then show "a = b" by (simp add: xor_eq_0_iff)
  qed
  then have "(\<lambda>v. comb v s matDim) ` A = A" using A by (intro endo_inj_surj) auto
  moreover have "push_bit col 1 \<in> A" using assms(2) by (simp add: A_def bit_unit del: push_bit_of_1)
  ultimately obtain v where v: "comb v s matDim = push_bit col 1" by (metis (mono_tags, lifting) imageE)
  have "bit (comb v s matDim) col" using assms(2) by (simp add: v bit_unit del: push_bit_of_1)
  then obtain i where i: "i < matDim" "bit v i" "bit (s ! i) col" unfolding comb_bit by (metis (mono_tags, lifting) card.empty empty_Collect_eq even_zero)
  then have ic: "i < col" using no by (meson not_le)
  then have "{j. j < matDim \<and> bit v j \<and> bit (s ! j) i} = {i}" using assms(1) i by (auto simp: gauss_inv_def)
  then have "bit (comb v s matDim) i" by (simp add: comb_bit)
  then show False using ic by (simp add: v bit_unit del: push_bit_of_1)
qed

lemma find_row_ok:
  "\<exists>r \<in> set rs. bit (fst m ! r) c \<Longrightarrow> \<exists>r \<in> set rs. bit (fst m ! r) c \<and> find_row (push_bit c 1) c rs m = row_xor c r m"
  by (induction rs) (auto simp only: find_row.simps and_push_bit_1 not_not if_True if_False set_simps bex_simps split: if_splits)

lemma clear_rows:
  assumes "gauss_inv src col m" "col < matDim" "bit (fst m ! col) col" "n \<le> matDim"
  shows "gauss_inv src col (fold (clear_row (push_bit col 1) col) [0..<n] m)
    \<and> fst (fold (clear_row (push_bit col 1) col) [0..<n] m) ! col = fst m ! col
    \<and> (\<forall>r < n. r \<noteq> col \<longrightarrow> \<not> bit (fst (fold (clear_row (push_bit col 1) col) [0..<n] m) ! r) col)"
  using assms(4)
proof (induction n)
  case (Suc n)
  let ?m = "fold (clear_row (push_bit col 1) col) [0..<n] m"
  have IH: "gauss_inv src col ?m" "fst ?m ! col = fst m ! col" "\<forall>r < n. r \<noteq> col \<longrightarrow> \<not> bit (fst ?m ! r) col" using Suc by simp_all
  have f: "fold (clear_row (push_bit col 1) col) [0..<Suc n] m = clear_row (push_bit col 1) col n ?m" by simp
  show ?case
  proof (cases "n = col \<or> \<not> bit (fst ?m ! n) col")
    case True
    then have "clear_row (push_bit col 1) col n ?m = ?m" unfolding clear_row_def and_push_bit_1 by auto
    then show ?thesis using IH True unfolding f by (auto simp: less_Suc_eq)
  next
    case False
    then have c: "clear_row (push_bit col 1) col n ?m = row_xor n col ?m" unfolding clear_row_def and_push_bit_1 by auto
    have "gauss_inv src col (row_xor n col ?m)" using IH(1) False assms(2) Suc.prems by (intro gauss_row_xor) auto
    moreover have "length (fst ?m) = matDim" using IH(1) by (auto simp: gauss_inv_def split: prod.splits)
    ultimately show ?thesis using IH False assms(2,3) Suc.prems unfolding f c
      by (auto simp: row_xor_def nth_list_update bit_xor_iff less_Suc_eq split: prod.splits)
  qed
qed (use assms in simp)

lemma getInv_column_ok:
  assumes "gauss_inv src col m" "col < matDim"
  shows "\<exists>m'. getInv_column col m = Inr m' \<and> gauss_inv src (Suc col) m'"
proof -
  obtain s u where m: "m = (s, u)" by (cases m)
  let ?m = "if bit (fst m ! col) col then m else find_row (push_bit col 1) col [col + 1..<matDim] m"
  have p: "gauss_inv src col ?m \<and> bit (fst ?m ! col) col"
  proof (cases "bit (fst m ! col) col")
    case False
    obtain r where r: "col \<le> r" "r < matDim" "bit (s ! r) col" using pivot_ex assms m by blast
    then have "r \<noteq> col" using False m by auto
    then have "\<exists>r \<in> set [col + 1..<matDim]. bit (fst m ! r) col" using r m by auto
    from find_row_ok [OF this] obtain r where r: "r \<in> set [col + 1..<matDim]" "bit (fst m ! r) col"
      "find_row (push_bit col 1) col [col + 1..<matDim] m = row_xor col r m" by blast
    then have "gauss_inv src col (row_xor col r m)" using assms by (intro gauss_row_xor) auto
    then show ?thesis using False r assms by (auto simp: m row_xor_def gauss_inv_def bit_xor_iff)
  qed (use assms in simp)
  let ?f = "fold (clear_row (push_bit col 1) col) [0..<matDim] ?m"
  have c: "gauss_inv src col ?f" "fst ?f ! col = fst ?m ! col" "\<forall>r < matDim. r \<noteq> col \<longrightarrow> \<not> bit (fst ?f ! r) col"
    using clear_rows [of src col ?m matDim] p assms(2) by auto
  have "getInv_column col m = Inr ?f" using p unfolding getInv_column_def Let_def and_push_bit_1 by auto
  moreover have "gauss_inv src (Suc col) ?f" using c p by (auto simp: gauss_inv_def less_Suc_eq split: prod.splits)
  ultimately show ?thesis by blast
qed

lemma getInv_correct:
  assumes "independent M" "length M = matDim" "\<forall>r < matDim. \<not> bit (M ! r) 63"
  shows "\<exists>U. getInv M = Inr U \<and> (\<forall>v. \<not> bit v 63 \<longrightarrow> comb (comb v U matDim) M matDim = v)"
proof -
  let ?u = "map (\<lambda>i. push_bit i 1) [0..<matDim] :: size_t list"
  have "\<exists>m. fold (\<lambda>c r. res_bind r (getInv_column c)) [0..<n] (Inr (M, ?u)) = Inr m \<and> gauss_inv M n m" if "n \<le> matDim" for n
    using that
  proof (induction n)
    case 0
    show ?case using assms by (simp add: gauss_inv_def comb_unit del: push_bit_of_1)
  next
    case (Suc n)
    then obtain m where "fold (\<lambda>c r. res_bind r (getInv_column c)) [0..<n] (Inr (M, ?u)) = Inr m" "gauss_inv M n m" by auto
    then show ?case using getInv_column_ok [of M n m] Suc.prems by auto
  qed
  from this [of matDim] obtain s U where f: "fold (\<lambda>c r. res_bind r (getInv_column c)) [0..<matDim] (Inr (M, ?u)) = Inr (s, U)" "gauss_inv M matDim (s, U)"
    by auto
  have s: "s ! r = push_bit r 1" if "r < matDim" for r
  proof (rule bit_word_eqI)
    fix k assume k: "k < LENGTH(64)"
    then show "bit (s ! r) k \<longleftrightarrow> bit (push_bit r 1 :: size_t) k" using f(2) that unfolding bit_unit
      by (cases "k = 63") (auto simp: gauss_inv_def less_Suc_eq_le)
  qed
  have "comb (comb v U matDim) M matDim = v" if "\<not> bit v 63" for v
  proof -
    have "comb (comb v U matDim) M matDim = comb v (map (\<lambda>u. comb u M matDim) U) matDim" using f(2) assms(2) by (intro comb_map) (simp_all add: gauss_inv_def)
    also have "\<dots> = comb v s matDim"
    proof -
      have "map (\<lambda>u. comb u M matDim) U = s" using f(2) by (intro nth_equalityI) (auto simp: gauss_inv_def)
      then show ?thesis by simp
    qed
    also have "\<dots> = v"
    proof (rule bit_word_eqI)
      fix k assume "k < LENGTH(64)"
      then have k: "k < 64" by simp
      have "{i. i < matDim \<and> bit v i \<and> bit (s ! i) k} = (if k < matDim \<and> bit v k then {k} else {})" using k by (auto simp: s bit_unit simp del: push_bit_of_1)
      moreover have "k = 63 \<or> k < matDim" using k by linarith
      ultimately show "bit (comb v s matDim) k = bit v k" using that unfolding comb_bit by auto
    qed
    finally show ?thesis .
  qed
  then show ?thesis using f(1) unfolding getInv_def by auto
qed

section \<open>The matrix of a bit number\<close>

abbreviation kept :: "int \<Rightarrow> nat \<Rightarrow> nat" where "kept bitNum j \<equiv> if int j < bitNum then j else Suc j"

lemma bit_vcoeffs: "bit (vcoeffs b t) j \<longleftrightarrow> j < matDim \<and> bit t (kept b j)"
proof -
  have "bit (fold (\<lambda>j v. v OR ((if int j < b then t else drop_bit 1 t) AND push_bit j 1)) [0..<n] 0) j \<longleftrightarrow> j < n \<and> bit t (kept b j)"
    if "n \<le> matDim" for n using that
  proof (induction n)
    case (Suc n)
    then show ?case by (auto simp: bit_or_iff bit_and_iff bit_unit bit_drop_bit_eq less_Suc_eq simp del: push_bit_of_1)
  qed simp
  then show ?thesis by (simp add: vcoeffs_def)
qed

lemma matrix_row_vcoeffs: "matrix_row b v = vcoeffs b v"
proof -
  let ?f = "\<lambda>j (row, v :: size_t). (row OR push_bit j (if int j < b then v AND 1 else drop_bit 1 (v AND 2)), drop_bit 1 v)"
  have b1: "bit (w AND 1) k \<longleftrightarrow> k = 0 \<and> bit w 0" for w :: size_t and k by (auto simp: bit_and_iff bit_1_iff)
  have b2: "bit (drop_bit 1 (w AND 2)) k \<longleftrightarrow> k = 0 \<and> bit w 1" for w :: size_t and k
    by (cases k) (simp_all add: bit_and_iff bit_drop_bit_eq bit_2_iff)
  have "snd (fold ?f [0..<n] (0, v)) = drop_bit n v \<and>
    (\<forall>j. bit (fst (fold ?f [0..<n] (0, v))) j \<longleftrightarrow> j < n \<and> bit v (kept b j))" if "n \<le> matDim" for n
    using that
  proof (induction n)
    case (Suc n)
    obtain row w where r: "fold ?f [0..<n] (0, v) = (row, w)" by (cases "fold ?f [0..<n] (0, v)")
    then have IH: "w = drop_bit n v" "\<And>j. bit row j \<longleftrightarrow> j < n \<and> bit v (kept b j)" using Suc by auto
    have e: "bit (if int n < b then w AND 1 else drop_bit 1 (w AND 2)) k \<longleftrightarrow> k = 0 \<and> bit v (kept b n)" for k
      unfolding if_distrib [of "\<lambda>w. bit w k"] b1 b2 IH(1) by (simp add: bit_drop_bit_eq)
    have "bit (push_bit n (if int n < b then w AND 1 else drop_bit 1 (w AND 2))) j \<longleftrightarrow> j = n \<and> bit v (kept b j)" for j
      unfolding bit_push_bit_iff e using Suc.prems by auto
    then have "bit (row OR push_bit n (if int n < b then w AND 1 else drop_bit 1 (w AND 2))) j \<longleftrightarrow> j < Suc n \<and> bit v (kept b j)" for j
      unfolding bit_or_iff IH(2) by (auto simp: less_Suc_eq)
    moreover have "fold ?f [0..<Suc n] (0, v) = (row OR push_bit n (if int n < b then w AND 1 else drop_bit 1 (w AND 2)), drop_bit 1 w)"
      using r by (simp only: upt_Suc fold_append le0 if_True fold_simps o_apply prod.case)
    ultimately show ?case unfolding IH(1) by (simp only: fst_conv snd_conv drop_bit_drop_bit plus_1_eq_Suc) simp
  qed simp
  then show ?thesis unfolding matrix_row_def by (intro bit_word_eqI) (simp add: bit_vcoeffs)
qed

lemma vcoeffs_xor: "vcoeffs b (v XOR w) = vcoeffs b v XOR vcoeffs b w"
  by (rule bit_word_eqI) (auto simp: bit_vcoeffs bit_xor_iff)

definition bit_map :: "FieldElement \<Rightarrow> FieldElement \<Rightarrow> FieldElement" where
  "bit_map c y = c * (y * y + y)"

lemma bit_map_add: "bit_map c (y + z) = bit_map c y + bit_map c z"
  using fe_sq_add [of y z] by (simp add: bit_map_def power2_eq_square algebra_simps)

primrec power_sum :: "size_t \<Rightarrow> nat \<Rightarrow> FieldElement" where
  "power_sum v 0 = 0"
| "power_sum v (Suc n) = power_sum v n + (if bit v n then xFE ^ Suc n else 0)"

lemma element_add: "element (a + b) = element a XOR element b"
  by (simp add: fe_defs)

lemma bit_x_power: "k < 64 \<Longrightarrow> bit (element (xFE ^ k)) j \<longleftrightarrow> j = k"
proof -
  assume k: "k < 64"
  have "unat (element (xFE ^ k)) = 2 ^ k" unfolding xFE_eval x_power [OF k] using power_strict_increasing [OF k, of "2 :: nat"] by (intro unat_fe) simp
  then have "bit (element (xFE ^ k)) j \<longleftrightarrow> bit (2 ^ k :: nat) j" by (simp flip: bit_unat)
  then show ?thesis by (auto simp: bit_exp_iff)
qed

lemma bit_power_sum: "n \<le> matDim \<Longrightarrow> bit (element (power_sum v n)) k \<longleftrightarrow> (\<exists>j < n. k = Suc j \<and> bit v j)"
  by (induction n) (auto simp: element_add bit_xor_iff bit_x_power less_Suc_eq fe_defs simp del: power_Suc)

lemma comb_rows: "n \<le> m \<Longrightarrow> comb v (map (\<lambda>i. vcoeffs b (element (bit_map c (xFE ^ Suc i)))) [0..<m]) n = vcoeffs b (element (bit_map c (power_sum v n)))"
proof (induction n)
  case 0
  have "element (bit_map c 0) = 0" by (simp add: bit_map_def) (simp add: fe_defs)
  then show ?case by (intro bit_word_eqI) (simp add: bit_vcoeffs)
next
  case (Suc n)
  then show ?case by (cases "bit v n") (simp_all add: bit_map_add element_add vcoeffs_xor del: power_Suc)
qed

lemma matrix_rows:
  "fst (fold (\<lambda>i (M, y). (M @ [matrix_row b (mapFieldElementToInteger 0 64 (c * (y * y + y)))], y * xFE)) [0..<n] ([], xFE))
    = map (\<lambda>i. vcoeffs b (element (bit_map c (xFE ^ Suc i)))) [0..<n]"
proof -
  have "fold (\<lambda>i (M, y). (M @ [matrix_row b (mapFieldElementToInteger 0 64 (c * (y * y + y)))], y * xFE)) [0..<n] ([], xFE)
    = (map (\<lambda>i. vcoeffs b (element (bit_map c (xFE ^ Suc i)))) [0..<n], xFE ^ Suc n)"
    by (induction n) (simp_all add: matrix_row_vcoeffs mapFieldElementToInteger_def bit_map_def mult.commute)
  then show ?thesis by simp
qed

lemma extract_sum: "extractBit_with e b U = power_sum (comb (vcoeffs b (element e)) U matDim) matDim"
proof -
  let ?v = "comb (vcoeffs b (element e)) U matDim"
  have "fold (\<lambda>j (y, tmp). (if ?v AND push_bit j 1 \<noteq> 0 then y + tmp else y, tmp * xFE)) [0..<n] (0, xFE) = (power_sum ?v n, xFE ^ Suc n)" for n
    unfolding and_push_bit_1 by (induction n) (simp_all add: mult.commute)
  then show ?thesis unfolding extractBit_with_def Let_def mat_vec_comb by (simp add: mapFieldElementToInteger_def del: push_bit_of_1)
qed

section \<open>The linear function of a constant\<close>

text \<open>
  The elements \<open>c * (y * y + y)\<close> all have an even number of ones at the positions of a mask: the bit itself,
  and all bits for the number -1. It is enough to see this for the powers of x, and the products of a constant
  with the powers of x come from repeated shifting.
\<close>

definition parity :: "nat \<Rightarrow> nat" where "parity n = lin (\<lambda>_. 1) 0 n"

lemma parity_xor: "parity (a XOR b) = parity a XOR parity b"
  by (simp add: parity_def lin_xor)

definition bit_mask :: "int \<Rightarrow> nat" where
  "bit_mask b = (if b = -1 then 2 ^ 64 - 1 else 2 ^ nat b)"

definition vanishes :: "int \<Rightarrow> FieldElement \<Rightarrow> bool" where
  "vanishes b e \<longleftrightarrow> parity (unat (element e) AND bit_mask b) = 0"

definition xtimes :: "nat \<Rightarrow> nat" where
  "xtimes a = (if a < 2 ^ 63 then 2 * a else (2 * a - 2 ^ 64) XOR 27)"

fun x_parities :: "nat \<Rightarrow> nat \<Rightarrow> nat \<Rightarrow> nat list" where
  "x_parities m a 0 = []"
| "x_parities m a (Suc n) = parity (a AND m) # x_parities m (xtimes a) n"

fun evens :: "'a list \<Rightarrow> 'a list" where
  "evens (a # b # l) = a # evens l"
| "evens l = l"

definition constant_check :: "int \<Rightarrow> nat \<Rightarrow> bool" where
  "constant_check b c \<longleftrightarrow> evens (x_parities (bit_mask b) c 127) = take 64 (x_parities (bit_mask b) c 127)"

lemma x_parities_numeral: "x_parities m a (numeral k) = parity (a AND m) # x_parities m (xtimes a) (pred_numeral k)"
  by (simp add: numeral_eq_Suc)

lemma xtimes_numeral: "xtimes (numeral n) = (let d = 2 * numeral n in if d < 2 ^ 64 then d else (d - 2 ^ 64) XOR 27)"
  by (simp add: xtimes_def Let_def)

lemmas constant_eval = constant_check_def bit_mask_def x_parities_numeral xtimes_numeral parity_def

lemma constant_checks:
  "constant_check (- 1) 15" "constant_check 0 10" "constant_check 1 12" "constant_check 2 24"
  "constant_check 3 6681497853469601362" "constant_check 4 15811494920322472810" "constant_check 5 13176245766935393999" "constant_check 6 7905747460161236357"
  "constant_check 7 15811494920322472714" "constant_check 11 13176245766935392271" "constant_check 13 15811494920322465802" "constant_check 15 7905747460161208325"
  "constant_check 18 7905747460161011717" "constant_check 22 15811494920318877706" "constant_check 25 15811494920293711882" "constant_check 32 13176245763253993487"
  "constant_check 38 13176245531325759503" "constant_check 42 7905743690407084037" "constant_check 43 15811487380814168074" "constant_check 49 15811012391790968842"
  "constant_check 51 7903817346035220485" "constant_check 57 7782220156096217093" "constant_check 8 13176245766935393807" "constant_check 9 7905747460161235973"
  "constant_check 10 15811494920322471946" "constant_check 12 7905747460161232901" "constant_check 14 13176245766935379983"
  by (simp_all add: constant_eval)

lemma nfold_small: "a < 2 ^ 64 \<Longrightarrow> nfold a = a"
  by (simp add: nfold_def pmul_27 take_bit_nat_eq_self drop_bit_0_less)

lemma fe_xtimes: "a < 2 ^ 64 \<Longrightarrow> xFE * fe a = fe (xtimes a) \<and> xtimes a < 2 ^ 64"
proof -
  assume a: "a < 2 ^ 64"
  have two: "pmul 2 a = 2 * a" by (simp add: pmul_rec [of 2] pmul_rec [of 1])
  have "xtimes a = rmul 2 a"
  proof (cases "a < 2 ^ 63")
    case True
    then have "nfold (2 * a) = 2 * a" by (intro nfold_small) simp
    then show ?thesis using True by (simp add: xtimes_def rmul_def two)
  next
    case False
    then have "2 * a div 2 ^ 64 = 1" "2 * a mod 2 ^ 64 = 2 * a - 2 ^ 64" using a by (simp_all add: div_nat_eqI le_mod_geq)
    then have "nfold (2 * a) = (2 * a - 2 ^ 64) XOR 27" by (simp add: nfold_def pmul_27 drop_bit_eq_div take_bit_eq_mod xor.assoc)
    moreover have "(2 * a - 2 ^ 64) XOR 27 < 2 ^ 64" using a by (intro xor_less_2p) auto
    then have "nfold ((2 * a - 2 ^ 64) XOR 27) = (2 * a - 2 ^ 64) XOR 27" by (rule nfold_small)
    ultimately show ?thesis using False by (simp add: xtimes_def rmul_def two)
  qed
  moreover have "xFE * fe a = fe (rmul 2 a)"
    using fe_unat [of "xFE * fe a"] a by (simp add: xFE_eval times_FieldElement_def felem_times_def c_mul_rmul unat_fe)
  ultimately show ?thesis using rmul_less [of 2 a] a by simp
qed

lemma x_parities_nth: "a < 2 ^ 64 \<Longrightarrow> i < n \<Longrightarrow> x_parities m a n ! i = parity (unat (element (xFE ^ i * fe a)) AND m)"
proof (induction n arbitrary: a i)
  case (Suc n)
  show ?case
  proof (cases i)
    case (Suc j)
    have "x_parities m (xtimes a) n ! j = parity (unat (element (xFE ^ j * fe (xtimes a))) AND m)"
      using Suc.IH [of "xtimes a" j] fe_xtimes [OF Suc.prems(1)] Suc Suc.prems(2) by simp
    moreover have "xFE ^ Suc j * fe a = xFE ^ j * fe (xtimes a)" using fe_xtimes [OF Suc.prems(1)] by (simp only: power_Suc2 mult.assoc)
    ultimately show ?thesis using Suc by (simp del: power_Suc)
  qed (use Suc.prems in \<open>simp add: unat_fe\<close>)
qed simp

lemma length_x_parities [simp]: "length (x_parities m a n) = n"
  by (induction n arbitrary: a) simp_all

lemma evens_nth: "2 * i < length l \<Longrightarrow> evens l ! i = l ! (2 * i)"
proof (induction l arbitrary: i rule: evens.induct)
  case (1 a b l)
  then show ?case by (cases i) simp_all
qed simp_all

lemma and_xor_nat: "(a XOR b) AND m = (a AND m) XOR (b AND m)" for a b m :: nat
  by (rule bit_eqI) (auto simp: bit_simps)

lemma vanishes_basis:
  assumes "constant_check b c" "c < 2 ^ 64" "i < 64"
  shows "vanishes b (bit_map (fe c) (xFE ^ i))"
proof -
  let ?l = "x_parities (bit_mask b) c 127"
  have "?l ! (2 * i) = ?l ! i" using assms(1,3) evens_nth [of i ?l] nth_take [of i 64 ?l] unfolding constant_check_def by simp
  then have "parity (unat (element (xFE ^ (2 * i) * fe c)) AND bit_mask b) = parity (unat (element (xFE ^ i * fe c)) AND bit_mask b)"
    using assms(2,3) by (simp add: x_parities_nth)
  moreover have "bit_map (fe c) (xFE ^ i) = xFE ^ (2 * i) * fe c + xFE ^ i * fe c"
    by (simp add: bit_map_def algebra_simps power_mult_distrib flip: power_add mult_2)
  ultimately show ?thesis by (simp add: vanishes_def unat_plus and_xor_nat parity_xor)
qed

lemma vanishes_image:
  assumes "constant_check b c" "c < 2 ^ 64"
  shows "vanishes b (bit_map (fe c) y)"
proof -
  let ?f = "\<lambda>n. parity (unat (element (bit_map (fe c) (fe n))) AND bit_mask b)"
  have "?f (unat (element y)) = 0"
  proof (rule additive_ext [where n = 64 and f = ?f and g = "\<lambda>_. 0"])
    show "?f (m XOR n) = ?f m XOR ?f n" for m n by (simp add: fe_xor bit_map_add unat_plus and_xor_nat parity_xor)
    show "?f (2 ^ i) = 0" if "i < 64" for i
      using vanishes_basis [OF assms that] x_power [OF that] by (simp add: vanishes_def xFE_eval)
    show "unat (element y) < 2 ^ 64" by (rule unat_less_64)
  qed simp
  then show ?thesis by (simp add: vanishes_def fe_unat)
qed

lemma table_checked:
  assumes "invExtrConsts b = Inr c"
  shows "constant_check b (unat (element c))" "c \<noteq> 0" "b < 64" "-1 \<le> b"
proof -
  obtain k where k: "invExtr_position b = Some k" "c = invExtrArr ! k" using assms by (auto simp: invExtrConsts_def split: option.splits)
  have "constant_check b (unat (element c)) \<and> element c \<noteq> 0 \<and> b < 64 \<and> -1 \<le> b" using k(1) unfolding k(2) invExtr_position_def
    by (auto simp: invExtrArr_def mapIntegerToFieldElement_def constant_checks split: if_splits)
  then show "constant_check b (unat (element c))" "c \<noteq> 0" "b < 64" "-1 \<le> b" by (auto simp: fe_defs)
qed

section \<open>Correctness\<close>

lemma vanishes_bit: "0 \<le> b \<Longrightarrow> b < 64 \<Longrightarrow> vanishes b e \<longleftrightarrow> \<not> bit (element e) (nat b)"
proof -
  assume b: "0 \<le> b" "b < 64"
  have p: "parity (2 ^ n) = 1" for n
  proof -
    have "lin (\<lambda>_. 1) k (2 ^ n) = 1" for k by (induction n arbitrary: k) (simp_all add: lin.simps [of _ _ "2 * _"] lin.simps [of _ _ "Suc 0"] lin.simps [of _ _ 0])
    then show ?thesis by (simp add: parity_def)
  qed
  have "unat (element e) AND 2 ^ nat b = (if bit (element e) (nat b) then 2 ^ nat b else 0)"
    by (rule bit_eqI) (auto simp: bit_and_iff bit_exp_iff bit_unat)
  then show ?thesis using b p by (simp add: vanishes_def bit_mask_def parity_def lin.simps [of _ _ 0])
qed

lemma vanishes_ext:
  assumes "vanishes b a" "vanishes b e" "vcoeffs b (element a) = vcoeffs b (element e)" "-1 \<le> b" "b < 64"
  shows "a = e"
proof -
  define k where "k = (if b = -1 then 0 else nat b)"
  have eq: "bit (element a) j = bit (element e) j" if jk: "j < 64" "j \<noteq> k" for j
  proof -
    obtain i where i: "i < matDim" "kept b i = j"
    proof (cases "int j < b")
      case True
      then show ?thesis using jk assms(4,5) by (intro that [of j]) auto
    next
      case False
      then have "0 < j" "\<not> int (j - 1) < b" using jk assms(4) by (auto simp: k_def split: if_splits)
      then show ?thesis using jk(1) by (intro that [of "j - 1"]) auto
    qed
    show ?thesis using assms(3) i(1) bit_vcoeffs [of b "element a" i] bit_vcoeffs [of b "element e" i] unfolding i(2) by simp
  qed
  have d: "j = k" if "bit (element (a + e)) j" for j
    using eq [of j] that bit_imp_le_length [OF that] by (auto simp: element_add bit_xor_iff)
  have v: "vanishes b (a + e)" using assms(1,2) by (simp add: vanishes_def unat_plus and_xor_nat parity_xor)
  have "\<not> bit (element (a + e)) k"
  proof
    assume bk: "bit (element (a + e)) k"
    have u: "unat (element (a + e)) = 2 ^ k"
    proof (rule bit_eqI)
      fix n
      show "bit (unat (element (a + e))) n = bit (2 ^ k :: nat) n" unfolding bit_unat bit_exp_iff using d [of n] bk by auto
    qed
    show False
    proof (cases "b = -1")
      case True
      then have "unat (element (a + e)) AND bit_mask b = 1" using u by (simp add: k_def bit_mask_def)
      then show False using v by (simp add: vanishes_def parity_def)
    next
      case False
      then show False using v bk vanishes_bit [of b "a + e"] assms(4,5) by (simp add: k_def)
    qed
  qed
  then have "element (a + e) = 0" using d by (intro bit_word_eqI) (simp, blast)
  then have "a + e = 0" by (cases "a + e") (simp add: fe_defs)
  then show ?thesis by (simp add: fe_add_eq_0)
qed

lemma extractBit_ok:
  assumes "invExtrConsts b = Inr c"
  shows "\<exists>w. extractBit e b = Inr w \<and> (vanishes b e \<longrightarrow> c * (w * w + w) = e)"
proof -
  note t = table_checked [OF assms]
  have im: "vanishes b (bit_map c y)" for y using vanishes_image [OF t(1) unat_less_64] by (simp add: fe_unat)
  define M where "M = map (\<lambda>i. vcoeffs b (element (bit_map c (xFE ^ Suc i)))) [0..<matDim]"
  have comb: "comb v M matDim = vcoeffs b (element (bit_map c (power_sum v matDim)))" for v by (simp only: M_def comb_rows [OF order_refl])
  have "independent M" unfolding independent_def
  proof (intro allI impI)
    fix v :: size_t
    assume v: "\<not> bit v 63" "comb v M matDim = 0"
    let ?y = "power_sum v matDim"
    have zero: "element 0 = 0" "vcoeffs b 0 = 0" by (simp_all add: fe_defs) (rule bit_word_eqI, simp add: bit_vcoeffs)
    have "vanishes b 0" by (simp add: vanishes_def zero parity_def)
    then have "bit_map c ?y = 0" using im v(2) t(3,4) zero by (intro vanishes_ext [of b]) (simp_all add: comb)
    then have "?y * ?y + ?y = 0" using t(2) by (simp add: bit_map_def)
    then have "?y * (?y + 1) = 0" by (simp add: distrib_left)
    moreover have "?y + 1 \<noteq> 0"
    proof
      assume "?y + 1 = 0"
      then have "?y = 1" by (simp add: fe_add_eq_0)
      then show False using bit_power_sum [of matDim v 0] by (simp add: fe_defs bit_1_iff)
    qed
    ultimately have "?y = 0" by simp
    then have "\<not> bit v j" if "j < matDim" for j using bit_power_sum [of matDim v "Suc j"] that by (simp add: zero)
    moreover have "j < matDim \<or> j = 63" if "j < 64" for j using that by linarith
    ultimately show "v = 0" using v(1) by (intro bit_word_eqI) (simp, blast)
  qed
  moreover have "length M = matDim" "\<forall>r < matDim. \<not> bit (M ! r) 63" by (simp_all add: M_def bit_vcoeffs)
  ultimately obtain U where U: "getInv M = Inr U" "\<And>v. \<not> bit v 63 \<Longrightarrow> comb (comb v U matDim) M matDim = v" using getInv_correct [of M] by blast
  define w where "w = extractBit_with e b U"
  have "vcoeffs b (element (bit_map c w)) = vcoeffs b (element e)"
    unfolding w_def extract_sum comb [symmetric] by (rule U(2)) (simp add: bit_vcoeffs)
  then have "bit_map c w = e" if "vanishes b e" using im that t(3,4) by (intro vanishes_ext)
  moreover have "extractBit e b = Inr w" unfolding extractBit_def matForBitExtr_def assms using U(1) by (simp add: matrix_rows M_def w_def del: power_Suc)
  ultimately show ?thesis by (auto simp: bit_map_def)
qed

text \<open>Property C5. Every constant of the table is right and \<open>extractBit\<close> finds its witness: for a bit number with a
  constant \<open>c\<close>, no element \<open>c * (w * w + w)\<close> has the bit, and for an element without the bit \<open>extractBit\<close>
  returns a \<open>w\<close> with \<open>c * (w * w + w)\<close> equal to the element, so that the elimination never fails its
  assertion. The number -1 stands for the exclusive-or of all bits.\<close>

theorem extractBit_correct:
  assumes "invExtrConsts b = Inr c"
  shows "(0 \<le> b \<longrightarrow> \<not> bit (element (c * (w * w + w))) (nat b))
    \<and> (b = -1 \<longrightarrow> parity (unat (element (c * (w * w + w)))) = 0)
    \<and> (\<exists>v. extractBit e b = Inr v \<and> (0 \<le> b \<longrightarrow> \<not> bit (element e) (nat b) \<longrightarrow> c * (v * v + v) = e)
      \<and> (b = -1 \<longrightarrow> parity (unat (element e)) = 0 \<longrightarrow> c * (v * v + v) = e))"
proof -
  note t = table_checked [OF assms]
  have im: "vanishes b (c * (w * w + w))" using vanishes_image [OF t(1) unat_less_64, of w] by (simp add: fe_unat bit_map_def)
  have all: "vanishes (-1) x \<longleftrightarrow> parity (unat (element x)) = 0" for x
  proof -
    have "unat (element x) AND mask 64 = unat (element x)" by (simp only: take_bit_nat_eq_self [OF unat_less_64] flip: take_bit_eq_mask)
    then show ?thesis by (simp add: vanishes_def bit_mask_def mask_eq_exp_minus_1)
  qed
  show ?thesis using im all extractBit_ok [OF assms, of e] vanishes_bit [OF _ t(3)] by (cases "b = -1") auto
qed

theorem extractBit_correct_witness: "\<not> bit (element (mapIntegerToFieldElement 0 64 10 * (0 * 0 + 0))) (nat 0)"
  by (rule extractBit_correct [THEN conjunct1, THEN mp]) (simp_all add: invExtrConsts_def invExtr_position_def invExtrArr_def)

end
