(* ===== verification/TraceLines.thy ===== *)
theory TraceLines
  imports AluComponent TinyRamProgram
begin

text \<open>
  The variables of a line of the execution trace (\<open>generalPurpose.hpp\<close>) and the constraints that depend on the
  line of the program: selector sums over the bits of the program counter. A constraint of this kind says on a
  board what its polynomial for the current line says.
\<close>

section \<open>Lines of the trace\<close>

record TraceVariables =
  tr_timeStamp :: Variable
  tr_flag :: Variable
  tr_pc :: "Variable list"
  tr_registers :: "Variable list"

record FollowingTraceVariables =
  ft_first :: TraceVariables
  ft_second :: TraceVariables

definition TraceVariables_create :: "nat \<Rightarrow> nat \<Rightarrow> int \<Rightarrow> (TraceVariables \<times> int) result" where
  "TraceVariables_create pcLen numberOfRegisters next =
     res_bind (newVariable ''timeStamp'' next) (\<lambda>(t, next). res_bind (newVariable ''flag'' next) (\<lambda>(f, next).
     res_bind (VariableArray pcLen ''pc'' next) (\<lambda>(pc, next). res_bind (VariableArray numberOfRegisters ''register'' next) (\<lambda>(rs, next).
     Inr (\<lparr>tr_timeStamp = t, tr_flag = f, tr_pc = pc, tr_registers = rs\<rparr>, next)))))"

definition FollowingTraceVariables_create :: "nat \<Rightarrow> nat \<Rightarrow> int \<Rightarrow> (FollowingTraceVariables \<times> int) result" where
  "FollowingTraceVariables_create pcLen numberOfRegisters next =
     res_bind (TraceVariables_create pcLen numberOfRegisters next) (\<lambda>(a, next).
     res_bind (TraceVariables_create pcLen numberOfRegisters next) (\<lambda>(b, next). Inr (\<lparr>ft_first = a, ft_second = b\<rparr>, next)))"

definition TraceVariables_size :: "TraceVariables \<Rightarrow> nat" where
  "TraceVariables_size t = 2 + length (tr_pc t) + length (tr_registers t)"

definition trace_vars :: "TraceVariables \<Rightarrow> Variable list" where
  "trace_vars t = tr_timeStamp t # tr_flag t # tr_pc t @ tr_registers t"

text \<open>A \<open>size_t\<close> in an \<open>unsigned int\<close>, and an access to a register by it.\<close>

definition as_unsigned :: "size_t \<Rightarrow> nat" where
  "as_unsigned w = unat (ucast w :: 32 word)"

definition register_at :: "Variable list \<Rightarrow> nat \<Rightarrow> Variable result" where
  "register_at rs i = (if i < length rs then Inr (rs ! i) else Inl OutOfBounds)"

lemma res_list_failure: "r \<in> set rs \<Longrightarrow> isl r \<Longrightarrow> (\<And>x. x \<in> set rs \<Longrightarrow> isl x \<Longrightarrow> x = Inl e) \<Longrightarrow> res_list rs = Inl e"
proof (induction rs)
  case (Cons a rs)
  show ?case
  proof (cases a)
    case (Inl x)
    then show ?thesis using Cons.prems(3) [of a] by simp
  next
    case (Inr x)
    then have "res_list rs = Inl e" using Cons by auto
    then show ?thesis by (simp add: Inr)
  qed
qed simp

section \<open>Selector sums on a board\<close>

text \<open>
  \<open>SelectorSum::eval\<close> copies the assignment to a vector. It does so without an access out of range when the
  indices of the assigned variables are not negative and less than twice their number.
\<close>

definition compact_board :: "Protoboard \<Rightarrow> bool" where
  "compact_board pb \<longleftrightarrow> (\<forall>k \<in> fst ` set (assignment pb). 0 \<le> k \<and> k < int (2 * length (assignment pb)))"

definition reads_pc :: "Protoboard \<Rightarrow> Variable list \<Rightarrow> nat \<Rightarrow> bool" where
  "reads_pc pb pc n \<longleftrightarrow> n < 2 ^ length pc \<and> (\<forall>j < length pc. assigned pb (pc ! j) \<and> val pb (pc ! j) = (if bit n j then 1 else 0))"

lemma selector_cells:
  assumes "pb_inv pb" "compact_board pb" "assigned pb v"
  shows "sel_defined (ByMap (assignment pb)) (var_index v)" "sel_env (ByMap (assignment pb)) (var_index v) = val pb v"
proof -
  obtain x where x: "assignmentToVector (assignment pb) = Inr x" "length x = 2 * length (assignment pb)" "\<forall>i < length x. x ! i = map_find (assignment pb) (int i)"
    using assignmentToVector_small [of "assignment pb"] assms(1,2) by (auto simp: compact_board_def pb_inv_def)
  obtain y where y: "map_find (assignment pb) (var_index v) = Some y" using assms(3) by (auto simp: assigned_def)
  then have "var_index v \<in> fst ` set (assignment pb)" by (force simp: map_find_def dest: map_of_SomeD)
  then have k: "0 \<le> var_index v" "nat (var_index v) < length x" using assms(2) x(2) by (auto simp: compact_board_def nat_less_iff)
  then have "cell x (var_index v) = Inr y" using x(3) y by (auto simp: cell_def)
  then show "sel_defined (ByMap (assignment pb)) (var_index v)" "sel_env (ByMap (assignment pb)) (var_index v) = val pb v"
    using y by (simp_all add: sel_defined_def sel_env_def pt_cells_def x(1) val_def)
qed

lemma selected:
  assumes "varset_inv vs" and "pb_inv pb" "compact_board pb" "reads_pc pb pc n" "pc \<noteq> []"
    "\<forall>c \<in> set cs. plain c \<and> (\<forall>v \<in> cp_vars c. assigned pb v)" "\<forall>k \<in> set s2c. k < length cs"
    and "length rel = length s2c" "length s2c \<le> 2 ^ length pc" "n < length s2c"
  shows "holds pb (PolySELECTORSUM (SelectorSum cs (map var_index pc) vs s2c rel)) \<longleftrightarrow> (rel ! n \<longrightarrow> pv pb (cs ! (s2c ! n)) = 0)"
proof -
  let ?S = "SelectorSum cs (map var_index pc) vs s2c rel" and ?pt = "ByMap (assignment pb)"
  have c: "cp_val (pt_val ?pt) (sel_env ?pt) c = pv pb c" if "c \<in> set cs" for c
    unfolding pv_def using assms(6) that by (intro cp_val_cong) (auto simp: plain_def assigned_point(2))
  have "cp_eval ?pt (PolySELECTORSUM ?S) = Inr (cp_val (pt_val ?pt) (sel_env ?pt) (PolySELECTORSUM ?S))"
  proof (rule cp_eval_correct)
    show "cp_ok (PolySELECTORSUM ?S)" using assms by (auto simp: SelectorSum_ok_def selectorNum_def list_all_iff plain_def)
    show "\<forall>v \<in> cp_vars (PolySELECTORSUM ?S). pt_defined ?pt v" using assms(6) by (auto simp: assigned_point(1))
    show "\<forall>i \<in> cp_sels (PolySELECTORSUM ?S). sel_defined ?pt i"
      using assms(4,6) selector_cells(1) [OF assms(2,3)] by (auto simp: reads_pc_def plain_def in_set_conv_nth)
  qed
  also have "cp_val (pt_val ?pt) (sel_env ?pt) (PolySELECTORSUM ?S)
      = (\<Sum>k\<leftarrow>[0..<length s2c]. if k = n then (if rel ! n then pv pb (cs ! (s2c ! n)) else 0) else 0)"
    unfolding cp_val.simps SelectorSum_val_def map_SelectorSum_sel SelectorSum.sel selectorNum_def
  proof (intro arg_cong [where f = sum_list] map_cong refl)
    fix k assume k: "k \<in> set [0..<length s2c]"
    have "map (sel_env ?pt) (map var_index pc) ! j = (if bit n j then 1 else 0)" if "j < length pc" for j
      using that assms(4) selector_cells(2) [OF assms(2,3), of "pc ! j"] by (simp add: reads_pc_def)
    then have "sel_val (map (sel_env ?pt) (map var_index pc)) k = (if k = n then 1 else 0)"
      using assms(4,9) k by (intro sel_val_bool) (auto simp: reads_pc_def)
    moreover have "s2c ! k < length cs" using assms(7) k by simp
    ultimately show "(if rel ! k then sel_val (map (sel_env ?pt) (map var_index pc)) k * map (cp_val (pt_val ?pt) (sel_env ?pt)) cs ! (s2c ! k) else 0)
        = (if k = n then (if rel ! n then pv pb (cs ! (s2c ! n)) else 0) else 0)" using c by (cases "k = n") simp_all
  qed
  also have "\<dots> = (if rel ! n then pv pb (cs ! (s2c ! n)) else 0)" using assms(10) by (simp add: sum_list_delta)
  finally show ?thesis by (auto simp: holds_def cp_isSatisfied_def)
qed

lemma selector_of:
  assumes "make_SelectorSum_all cs pc s2c = Inr S"
  shows "S = SelectorSum cs (map var_index pc) (set_insert_all pc []) s2c (replicate (length s2c) True)" "pc \<noteq> []"
  using assms by (auto simp: make_SelectorSum_all_def split: if_splits)

text \<open>The selector sums of a board stay satisfied when other variables change.\<close>

lemma reads_pc_changes:
  assumes "reads_pc pb pc n" "changes W pb w" "var_index ` set pc \<inter> W = {}"
  shows "reads_pc w pc n"
proof -
  have "var_index (pc ! j) \<notin> W" if "j < length pc" for j using assms(3) that nth_mem by blast
  then show ?thesis using assms(1) changesD(4,5) [OF assms(2)] by (auto simp: reads_pc_def)
qed

end
