(* ===== verification/AluInputs.thy ===== *)
theory AluInputs
  imports TraceLines
begin

text \<open>
  \<open>ALUInputConsistency.cpp\<close>: the arguments of the arithmetic unit are the registers, or the immediate value, that the
  instruction at the program counter names.
\<close>

record ALUInputConsistency =
  aic_input :: TraceVariables
  aic_output :: ALUInput
  aic_program :: TinyRAMProgram
  aic_registerLength :: nat

definition ALUInputConsistency_create :: "nat \<Rightarrow> nat \<Rightarrow> TraceVariables \<Rightarrow> ALUInput \<Rightarrow> ALUInputConsistency" where
  "ALUInputConsistency_create numRegs regLength input output = \<lparr>aic_input = input, aic_output = output,
     aic_program = TinyRAMProgram_create ''program'' numRegs regLength, aic_registerLength = regLength\<rparr>"

definition aic_setProgram :: "TinyRAMProgram \<Rightarrow> ALUInputConsistency \<Rightarrow> ALUInputConsistency" where
  "aic_setProgram program g = g\<lparr>aic_program := program\<rparr>"

definition immediate :: "ALUInputConsistency \<Rightarrow> MachineInstruction \<Rightarrow> FElem" where
  "immediate g i = mapIntegerToFieldElement 0 (aic_registerLength g) (arg2IdxOrImmediate i)"

text \<open>The polynomials of one line: for the two arguments and for the destination.\<close>

definition line_polys :: "ALUInputConsistency \<Rightarrow> MachineInstruction \<Rightarrow> (CircuitPolynomial \<times> CircuitPolynomial \<times> CircuitPolynomial) result" where
  "line_polys g i = (let rs = tr_registers (aic_input g); out = aic_output g in
     res_bind (if \<not> arg2isImmediate i
       then res_map (\<lambda>r. cp_lc (lc_plus (lc_var r) (lc_var (arg2_val out)))) (register_at rs (as_unsigned (arg2IdxOrImmediate i)))
       else Inr (cp_lc (lc_plus (lc_var (arg2_val out)) (lc_const (immediate g i))))) (\<lambda>arg2Poly.
     res_bind (register_at rs (as_unsigned (arg1Idx i))) (\<lambda>r1.
     res_bind (register_at rs (as_unsigned (destIdx i))) (\<lambda>rd.
     Inr (cp_lc (lc_plus (lc_var r1) (lc_var (arg1_val out))), arg2Poly, cp_lc (lc_plus (lc_var rd) (lc_var (dest_val out))))))))"

definition ALUInputConsistency_constraints :: "ALUInputConsistency \<Rightarrow> (CircuitPolynomial \<times> string) list result" where
  "ALUInputConsistency_constraints g = (if program_size (aic_program g) = 0 then Inl AssertFailed else
     res_bind (res_list (map (line_polys g) (code (aic_program g)))) (\<lambda>ps. let
       selectorToConstraint = [0..<program_size (aic_program g)];
       selectorRelevant = replicate (program_size (aic_program g)) True;
       opcodeVars = getPCVars (tr_pc (aic_input g));
       sum = \<lambda>polys. make_SelectorSum polys opcodeVars selectorToConstraint selectorRelevant in
     res_bind (sum (map fst ps)) (\<lambda>SArg1. res_bind (sum (map (fst \<circ> snd) ps)) (\<lambda>SArg2. res_bind (sum (map (snd \<circ> snd) ps)) (\<lambda>SDest.
     Inr [(PolySELECTORSUM SArg1, ''SelectorSum_ARG1''), (PolySELECTORSUM SArg2, ''SelectorSum_ARG2''), (PolySELECTORSUM SDest, ''SelectorSum_Dest'')])))))"

definition ALUInputConsistency_generateConstraints :: "ALUInputConsistency \<Rightarrow> Protoboard \<Rightarrow> Protoboard result" where
  "ALUInputConsistency_generateConstraints g pb = res_map (\<lambda>cs. add_constraints Op_NONE cs pb) (ALUInputConsistency_constraints g)"

definition ALUInputConsistency_generateWitness :: "ALUInputConsistency \<Rightarrow> nat \<Rightarrow> Protoboard \<Rightarrow> Protoboard result" where
  "ALUInputConsistency_generateWitness g i pb = (if \<not> i < program_size (aic_program g) then Inl AssertFailed else let
     inst = code (aic_program g) ! i; rs = tr_registers (aic_input g); out = aic_output g in
     res_bind (if \<not> arg2isImmediate inst
       then res_map (\<lambda>r. set_val (arg2_val out) (val pb r) pb) (register_at rs (as_unsigned (arg2IdxOrImmediate inst)))
       else Inr (set_val (arg2_val out) (immediate g inst) pb)) (\<lambda>pb.
     res_bind (register_at rs (as_unsigned (arg1Idx inst))) (\<lambda>r1. let pb = set_val (arg1_val out) (val pb r1) pb in
     res_map (\<lambda>rd. set_val (dest_val out) (val pb rd) pb) (register_at rs (as_unsigned (destIdx inst))))))"

section \<open>What a line asks for\<close>

definition names_registers :: "nat \<Rightarrow> MachineInstruction \<Rightarrow> bool" where
  "names_registers n i \<longleftrightarrow> as_unsigned (arg1Idx i) < n \<and> as_unsigned (destIdx i) < n \<and> (\<not> arg2isImmediate i \<longrightarrow> as_unsigned (arg2IdxOrImmediate i) < n)"

definition arg2_value :: "ALUInputConsistency \<Rightarrow> Protoboard \<Rightarrow> MachineInstruction \<Rightarrow> FElem" where
  "arg2_value g pb i = (if arg2isImmediate i then immediate g i else val pb (tr_registers (aic_input g) ! as_unsigned (arg2IdxOrImmediate i)))"

definition inputs_consistent :: "ALUInputConsistency \<Rightarrow> Protoboard \<Rightarrow> MachineInstruction \<Rightarrow> bool" where
  "inputs_consistent g pb i \<longleftrightarrow> (let rs = tr_registers (aic_input g); out = aic_output g in
     val pb (arg1_val out) = val pb (rs ! as_unsigned (arg1Idx i)) \<and> val pb (arg2_val out) = arg2_value g pb i
     \<and> val pb (dest_val out) = val pb (rs ! as_unsigned (destIdx i)))"

definition aic_wf :: "ALUInputConsistency \<Rightarrow> bool" where
  "aic_wf g \<longleftrightarrow> tr_pc (aic_input g) \<noteq> [] \<and> program_size (aic_program g) \<le> 2 ^ length (tr_pc (aic_input g))
     \<and> (\<forall>i \<in> set (code (aic_program g)). names_registers (length (tr_registers (aic_input g))) i)
     \<and> distinct [var_index (arg1_val (aic_output g)), var_index (arg2_val (aic_output g)), var_index (dest_val (aic_output g))]
     \<and> var_index ` set (trace_vars (aic_input g)) \<inter> {var_index (arg1_val (aic_output g)), var_index (arg2_val (aic_output g)), var_index (dest_val (aic_output g))} = {}"

definition aic_vars :: "ALUInputConsistency \<Rightarrow> Variable set" where
  "aic_vars g = set (tr_registers (aic_input g)) \<union> {arg1_val (aic_output g), arg2_val (aic_output g), dest_val (aic_output g)}"

lemma line_polys_ok:
  assumes "names_registers (length (tr_registers (aic_input g))) i"
  shows "\<exists>p1 p2 pd. line_polys g i = Inr (p1, p2, pd) \<and> (\<forall>p \<in> {p1, p2, pd}. plain p \<and> cp_vars p \<subseteq> aic_vars g)
    \<and> pv pb p1 = val pb (tr_registers (aic_input g) ! as_unsigned (arg1Idx i)) + val pb (arg1_val (aic_output g))
    \<and> pv pb p2 = arg2_value g pb i + val pb (arg2_val (aic_output g))
    \<and> pv pb pd = val pb (tr_registers (aic_input g) ! as_unsigned (destIdx i)) + val pb (dest_val (aic_output g))"
proof -
  have over: "cp_vars p \<subseteq> aic_vars g \<longleftrightarrow> cp_over (aic_vars g) p" for p by (simp add: cp_over_def)
  show ?thesis using assms unfolding over
    by (auto simp: line_polys_def names_registers_def register_at_def Let_def arg2_value_def aic_vars_def pv_simps lv_simps add.commute)
qed

definition lines :: "ALUInputConsistency \<Rightarrow> (CircuitPolynomial \<times> CircuitPolynomial \<times> CircuitPolynomial) list" where
  "lines g = map (projr \<circ> line_polys g) (code (aic_program g))"

definition line_sum :: "ALUInputConsistency \<Rightarrow> CircuitPolynomial list \<Rightarrow> CircuitPolynomial" where
  "line_sum g polys = PolySELECTORSUM (SelectorSum polys (map var_index (tr_pc (aic_input g))) (set_insert_all (tr_pc (aic_input g)) [])
     [0..<program_size (aic_program g)] (replicate (program_size (aic_program g)) True))"

lemma aic_constraints:
  assumes "aic_wf g" "program_size (aic_program g) \<noteq> 0"
  shows "ALUInputConsistency_constraints g = Inr [(line_sum g (map fst (lines g)), ''SelectorSum_ARG1''),
    (line_sum g (map (fst \<circ> snd) (lines g)), ''SelectorSum_ARG2''), (line_sum g (map (snd \<circ> snd) (lines g)), ''SelectorSum_Dest'')]"
proof -
  have "line_polys g i = Inr (projr (line_polys g i))" if "i \<in> set (code (aic_program g))" for i
    using line_polys_ok [of g i undefined] assms(1) that by (auto simp: aic_wf_def)
  then have "res_list (map (line_polys g) (code (aic_program g))) = Inr (lines g)" by (simp add: res_list_eq_Inr lines_def)
  then show ?thesis using assms by (simp add: ALUInputConsistency_constraints_def Let_def make_SelectorSum_def getPCVars_eq line_sum_def aic_wf_def)
qed

lemma line_sum_holds:
  assumes "aic_wf g" "pb_inv pb" "compact_board pb" "reads_pc pb (tr_pc (aic_input g)) n" "n < program_size (aic_program g)" "\<forall>v \<in> aic_vars g. assigned pb v"
    and "length ps = program_size (aic_program g)" "\<forall>p \<in> set ps. plain p \<and> cp_vars p \<subseteq> aic_vars g"
  shows "holds pb (line_sum g ps) \<longleftrightarrow> pv pb (ps ! n) = 0"
  unfolding line_sum_def using assms
  by (subst selected [where n = n]) (auto simp: aic_wf_def set_insert_all_inv)

lemma aic_holds:
  assumes "aic_wf g" "pb_inv pb" "compact_board pb" "reads_pc pb (tr_pc (aic_input g)) n" "n < program_size (aic_program g)" "\<forall>v \<in> aic_vars g. assigned pb v"
  shows "\<exists>cs. ALUInputConsistency_constraints g = Inr cs \<and> ((\<forall>(p, nm) \<in> set cs. holds pb p) \<longleftrightarrow> inputs_consistent g pb (code (aic_program g) ! n))"
proof -
  note h = line_sum_holds [OF assms]
  have len: "length (lines g) = program_size (aic_program g)" by (simp add: lines_def program_size_def)
  have ok: "plain (f l) \<and> cp_vars (f l) \<subseteq> aic_vars g" if l: "l \<in> set (lines g)" and f: "f \<in> {fst, fst \<circ> snd, snd \<circ> snd}" for l f
  proof -
    obtain i where i: "i \<in> set (code (aic_program g))" "l = projr (line_polys g i)" using l by (auto simp: lines_def)
    then have "names_registers (length (tr_registers (aic_input g))) i" using assms(1) by (simp add: aic_wf_def)
    from line_polys_ok [OF this, of pb] obtain p1 p2 pd where
      q: "line_polys g i = Inr (p1, p2, pd)" "\<forall>p \<in> {p1, p2, pd}. plain p \<and> cp_vars p \<subseteq> aic_vars g" by blast
    then show ?thesis using f by (auto simp: i(2))
  qed
  have "holds pb (line_sum g (map f (lines g))) \<longleftrightarrow> pv pb (f (lines g ! n)) = 0" if "f \<in> {fst, fst \<circ> snd, snd \<circ> snd}" for f
  proof -
    have "\<forall>p \<in> set (map f (lines g)). plain p \<and> cp_vars p \<subseteq> aic_vars g" using ok [OF _ that] by auto
    then show ?thesis using h [of "map f (lines g)"] assms(5) by (simp add: len)
  qed
  then have e: "holds pb (line_sum g (map fst (lines g))) \<longleftrightarrow> pv pb (fst (lines g ! n)) = 0"
    "holds pb (line_sum g (map (fst \<circ> snd) (lines g))) \<longleftrightarrow> pv pb ((fst \<circ> snd) (lines g ! n)) = 0"
    "holds pb (line_sum g (map (snd \<circ> snd) (lines g))) \<longleftrightarrow> pv pb ((snd \<circ> snd) (lines g ! n)) = 0" by blast+
  let ?i = "code (aic_program g) ! n"
  have n: "names_registers (length (tr_registers (aic_input g))) ?i" using assms(1,5) by (simp add: aic_wf_def program_size_def)
  obtain p1 p2 pd where q: "line_polys g ?i = Inr (p1, p2, pd)"
    "pv pb p1 = val pb (tr_registers (aic_input g) ! as_unsigned (arg1Idx ?i)) + val pb (arg1_val (aic_output g))"
    "pv pb p2 = arg2_value g pb ?i + val pb (arg2_val (aic_output g))"
    "pv pb pd = val pb (tr_registers (aic_input g) ! as_unsigned (destIdx ?i)) + val pb (dest_val (aic_output g))"
    using line_polys_ok [OF n, of pb] by blast
  have "lines g ! n = (p1, p2, pd)" using q(1) assms(5) by (simp add: lines_def program_size_def)
  then have "(\<forall>(p, nm) \<in> set [(line_sum g (map fst (lines g)), ''SelectorSum_ARG1''), (line_sum g (map (fst \<circ> snd) (lines g)), ''SelectorSum_ARG2''),
      (line_sum g (map (snd \<circ> snd) (lines g)), ''SelectorSum_Dest'')]. holds pb p) \<longleftrightarrow> pv pb p1 = 0 \<and> pv pb p2 = 0 \<and> pv pb pd = 0"
    by (simp only: list.set ball_simps prod.case e o_apply fst_conv snd_conv) simp
  moreover have "pv pb p1 = 0 \<and> pv pb p2 = 0 \<and> pv pb pd = 0 \<longleftrightarrow> inputs_consistent g pb ?i"
    unfolding q(2-4) fe_add_eq_0 inputs_consistent_def Let_def by metis
  moreover have "program_size (aic_program g) \<noteq> 0" using assms(5) by simp
  ultimately show ?thesis using aic_constraints [OF assms(1)] by blast
qed

lemma aic_witness:
  assumes "aic_wf g" "pb_inv pb" "n < program_size (aic_program g)"
  shows "\<exists>w. ALUInputConsistency_generateWitness g n pb = Inr w \<and> inputs_consistent g w (code (aic_program g) ! n)
    \<and> changes {var_index (arg1_val (aic_output g)), var_index (arg2_val (aic_output g)), var_index (dest_val (aic_output g))} pb w"
proof -
  let ?i = "code (aic_program g) ! n" and ?rs = "tr_registers (aic_input g)" and ?o = "aic_output g"
  have n: "names_registers (length ?rs) ?i" using assms(1,3) by (simp add: aic_wf_def program_size_def)
  define w where "w = (let pb = set_val (arg2_val ?o) (arg2_value g pb ?i) pb; pb = set_val (arg1_val ?o) (val pb (?rs ! as_unsigned (arg1Idx ?i))) pb
    in set_val (dest_val ?o) (val pb (?rs ! as_unsigned (destIdx ?i))) pb)"
  have r: "var_index (?rs ! k) \<notin> {var_index (arg1_val ?o), var_index (arg2_val ?o), var_index (dest_val ?o)}" if "k < length ?rs" for k
  proof -
    have "?rs ! k \<in> set (trace_vars (aic_input g))" using that by (simp add: trace_vars_def)
    then show ?thesis using assms(1) unfolding aic_wf_def by blast
  qed
  have "ALUInputConsistency_generateWitness g n pb = Inr w" using n assms(3)
    by (simp add: ALUInputConsistency_generateWitness_def w_def Let_def register_at_def names_registers_def arg2_value_def)
  moreover have "changes {var_index (arg1_val ?o), var_index (arg2_val ?o), var_index (dest_val ?o)} pb w"
    using assms(2) by (auto simp: changes_def w_def Let_def)
  moreover have "inputs_consistent g w ?i"
    using n r [of "as_unsigned (arg1Idx ?i)"] r [of "as_unsigned (destIdx ?i)"] r [of "as_unsigned (arg2IdxOrImmediate ?i)"] assms(1,2)
    by (auto simp: inputs_consistent_def Let_def w_def names_registers_def aic_wf_def arg2_value_def)
  ultimately show ?thesis by blast
qed

section \<open>Correctness\<close>

lemma line_polys_failure: "line_polys g i = Inl OutOfBounds \<longleftrightarrow> \<not> names_registers (length (tr_registers (aic_input g))) i" "isl (line_polys g i) \<Longrightarrow> line_polys g i = Inl OutOfBounds"
  by (auto simp: line_polys_def names_registers_def register_at_def Let_def split: if_splits)

text \<open>Property C39. The constraints of \<open>ALUInputConsistency\<close> say exactly that the arguments of the arithmetic unit are those
  of the instruction at the program counter: the registers it names, or its immediate value. The witness code
  assigns these values and changes no other variable. An empty program and a line number beyond the program
  fail an assertion, and an instruction with a register number beyond the registers is an access out of range.\<close>

theorem alu_inputs_correct:
  assumes "pb_inv pb"
  shows "(aic_wf g \<longrightarrow> compact_board pb \<longrightarrow> reads_pc pb (tr_pc (aic_input g)) n \<longrightarrow> n < program_size (aic_program g) \<longrightarrow> (\<forall>v \<in> aic_vars g. assigned pb v) \<longrightarrow>
      (\<exists>pb'. ALUInputConsistency_generateConstraints g pb = Inr pb' \<and>
        (pb_isSatisfied Op_NONE pb' = Inr True \<longleftrightarrow> pb_isSatisfied Op_NONE pb = Inr True \<and> inputs_consistent g pb (code (aic_program g) ! n))))
    \<and> (aic_wf g \<longrightarrow> n < program_size (aic_program g) \<longrightarrow> (\<exists>w. ALUInputConsistency_generateWitness g n pb = Inr w \<and> inputs_consistent g w (code (aic_program g) ! n)
      \<and> changes {var_index (arg1_val (aic_output g)), var_index (arg2_val (aic_output g)), var_index (dest_val (aic_output g))} pb w))
    \<and> (program_size (aic_program g) = 0 \<longrightarrow> ALUInputConsistency_generateConstraints g pb = Inl AssertFailed)
    \<and> (program_size (aic_program g) \<le> n \<longrightarrow> ALUInputConsistency_generateWitness g n pb = Inl AssertFailed)
    \<and> (i \<in> set (code (aic_program g)) \<longrightarrow> \<not> names_registers (length (tr_registers (aic_input g))) i \<longrightarrow> ALUInputConsistency_generateConstraints g pb = Inl OutOfBounds)"
proof (intro conjI impI)
  assume a: "aic_wf g" "compact_board pb" "reads_pc pb (tr_pc (aic_input g)) n" "n < program_size (aic_program g)" "\<forall>v \<in> aic_vars g. assigned pb v"
  obtain cs where cs: "ALUInputConsistency_constraints g = Inr cs" "(\<forall>(p, nm) \<in> set cs. holds pb p) \<longleftrightarrow> inputs_consistent g pb (code (aic_program g) ! n)"
    using aic_holds [OF a(1) assms a(2-5)] by blast
  show "\<exists>pb'. ALUInputConsistency_generateConstraints g pb = Inr pb' \<and>
      (pb_isSatisfied Op_NONE pb' = Inr True \<longleftrightarrow> pb_isSatisfied Op_NONE pb = Inr True \<and> inputs_consistent g pb (code (aic_program g) ! n))"
    using cs add_constraints_isSatisfied [OF assms] by (simp add: ALUInputConsistency_generateConstraints_def)
next
  show "ALUInputConsistency_generateConstraints g pb = Inl OutOfBounds" if "i \<in> set (code (aic_program g))" "\<not> names_registers (length (tr_registers (aic_input g))) i"
  proof -
    have "res_list (map (line_polys g) (code (aic_program g))) = Inl OutOfBounds"
    proof (rule res_list_failure [of "line_polys g i"])
      show "isl (line_polys g i)" using that(2) line_polys_failure(1) [of g i] by simp
    qed (use that(1) line_polys_failure(2) [of g] in auto)
    moreover have "program_size (aic_program g) \<noteq> 0" using that(1) by (auto simp: program_size_def)
    ultimately show ?thesis by (simp add: ALUInputConsistency_generateConstraints_def ALUInputConsistency_constraints_def)
  qed
qed (use aic_witness [OF _ assms] in \<open>blast | simp add: ALUInputConsistency_generateConstraints_def ALUInputConsistency_constraints_def ALUInputConsistency_generateWitness_def\<close>)+

definition sample_inputs :: ALUInputConsistency where
  "sample_inputs = \<lparr>aic_input = \<lparr>tr_timeStamp = sample_var 0, tr_flag = sample_var 1, tr_pc = [sample_var 2], tr_registers = [sample_var 3]\<rparr>,
     aic_output = \<lparr>arg1_val = sample_var 4, arg2_val = sample_var 5, dest_val = sample_var 6, in_flag = sample_var 1, in_pc = [sample_var 2]\<rparr>,
     aic_program = \<lparr>program_name = ''p'', archParams = \<lparr>numRegisters = 1, arch_registerLength = 16\<rparr>,
       code = [\<lparr>mi_opcode = Op_MOV, arg2isImmediate = True, destIdx = 0, arg1Idx = 0, arg2IdxOrImmediate = 7\<rparr>]\<rparr>,
     aic_registerLength = 16\<rparr>"

theorem alu_inputs_correct_witness:
  "\<exists>w. ALUInputConsistency_generateWitness sample_inputs 0 (Protoboard_create 0) = Inr w
    \<and> inputs_consistent sample_inputs w (code (aic_program sample_inputs) ! 0)"
proof -
  have "aic_wf sample_inputs" by (simp add: aic_wf_def sample_inputs_def program_size_def names_registers_def as_unsigned_def trace_vars_def sample_var_def)
  then show ?thesis using alu_inputs_correct [OF pb_inv_create, of sample_inputs 0, THEN conjunct2, THEN conjunct1]
    by (auto simp: sample_inputs_def program_size_def)
qed

end
