(* ===== verification/TraceSteps.thy ===== *)
theory TraceSteps
  imports TraceLines AluArith MemoryConstraints
begin

text \<open>
  \<open>traceConsistency.cpp\<close>: how the time stamp, the program counter and the registers of a line of the trace follow
  from the line before it and from the outputs of the arithmetic unit. An abstract step, \<open>trace_step\<close>, says this in
  terms of values; the constraints and the witness code are shown to implement it.
\<close>

record TraceConsistency =
  tc_aluOutput :: ALUOutput
  tc_following :: FollowingTraceVariables
  tc_program :: TinyRAMProgram

definition TraceConsistency_create :: "nat \<Rightarrow> nat \<Rightarrow> ALUOutput \<Rightarrow> FollowingTraceVariables \<Rightarrow> TraceConsistency" where
  "TraceConsistency_create numRegs regLength output following = \<lparr>tc_aluOutput = output, tc_following = following,
     tc_program = TinyRAMProgram_create ''program'' numRegs regLength\<rparr>"

definition tc_setProgram :: "TinyRAMProgram \<Rightarrow> TraceConsistency \<Rightarrow> TraceConsistency" where
  "tc_setProgram program g = g\<lparr>tc_program := program\<rparr>"

abbreviation tc_first :: "TraceConsistency \<Rightarrow> TraceVariables" where "tc_first g \<equiv> ft_first (tc_following g)"
abbreviation tc_second :: "TraceConsistency \<Rightarrow> TraceVariables" where "tc_second g \<equiv> ft_second (tc_following g)"

section \<open>Constraints\<close>

definition times_term :: "Variable \<Rightarrow> FElem \<Rightarrow> LinearCombination" where
  "times_term v c = lc_term (LinearTerm_times (LinearTerm_of v) c)"

definition timeStampConsistency :: "TraceConsistency \<Rightarrow> CircuitPolynomial \<times> string" where
  "timeStampConsistency g = (cp_lc (lc_plus (times_term (tr_timeStamp (tc_first g)) getGF2E_X) (lc_var (tr_timeStamp (tc_second g)))),
     ''timestamp1 + timestamp0 * x'')"

text \<open>The packed program counter; the loop multiplies \<open>x_i\<close> by the generator before each use.\<close>

definition packed_pc :: "Variable list \<Rightarrow> nat \<Rightarrow> LinearCombination result" where
  "packed_pc pc len = (if pc = [] \<or> length pc < len then Inl OutOfBounds
     else Inr (fst (pack_loop (take (len - 1) (tl pc)) (times_term (hd pc) 1, getGF2E_X))))"

definition next_line :: "nat \<Rightarrow> nat \<Rightarrow> FElem" where
  "next_line len i = mapIntegerToFieldElement 0 len (of_nat (i + 1))"

definition pc_line :: "TraceConsistency \<Rightarrow> LinearCombination \<Rightarrow> nat \<Rightarrow> nat \<Rightarrow> CircuitPolynomial list \<times> nat list \<Rightarrow> (CircuitPolynomial list \<times> nat list) result" where
  "pc_line g pcPacked len i = (\<lambda>(constraints, selectorToConstraint).
     res_bind (getSelector (program_size (tc_program g)) i (tr_pc (tc_first g))) (\<lambda>selector_i. let
       opcode = mi_opcode (code (tc_program g) ! i);
       jump = lc_plus pcPacked (lc_var (out_result (tc_aluOutput g)));
       step = lc_plus pcPacked (lc_const (next_line len i));
       flag = tr_flag (tc_first g); notFlag = lc_plus (lc_var flag) (lc_const 1) in
     Inr (if opcode = Op_JMP then (constraints, selectorToConstraint[i := 0])
       else if opcode = Op_ANSWER then (constraints, selectorToConstraint[i := 1])
       else (constraints @ [if opcode = Op_CJMP then cp_plus (cp_times (cp_lc jump) (cp_var flag)) (cp_times (cp_lc notFlag) (cp_lc step))
           else if opcode = Op_CNJMP then cp_plus (cp_times (cp_lc notFlag) (cp_lc jump)) (cp_times (cp_lc step) (cp_var flag))
           else cp_lc step], selectorToConstraint[i := length constraints]))))"

definition pcConsistency :: "TraceConsistency \<Rightarrow> (CircuitPolynomial \<times> string) result" where
  "pcConsistency g = res_bind (pcLength (tc_program g)) (\<lambda>len.
     res_bind (packed_pc (tr_pc (tc_second g)) len) (\<lambda>pcPacked. res_bind (packed_pc (tr_pc (tc_first g)) len) (\<lambda>prevPcPacked.
     res_bind (fold (\<lambda>i st. res_bind st (pc_line g pcPacked len i)) [0..<program_size (tc_program g)]
       (Inr ([cp_lc (lc_plus pcPacked (lc_var (out_result (tc_aluOutput g)))), cp_lc (lc_plus pcPacked prevPcPacked)],
         replicate (program_size (tc_program g)) 0))) (\<lambda>(constraints, selectorToConstraint).
     res_map (\<lambda>S. (PolySELECTORSUM S, ''sum_{i=0}^{programLength} (selector(i) * (pcAsFElem + (i+1)))''))
       (make_SelectorSum_all constraints (getPCVars (tr_pc (tc_first g))) selectorToConstraint)))))"

text \<open>Which of the three constraints of a register an instruction with this destination selects.\<close>

definition result_opcodes :: "Opcode set" where
  "result_opcodes = {Op_ADD, Op_SUB, Op_AND, Op_OR, Op_XOR, Op_MOV, Op_SHL, Op_SHR, Op_MULL, Op_RESERVED_OPCODE_24}"

definition keep_opcodes :: "Opcode set" where
  "keep_opcodes = {Op_JMP, Op_CJMP, Op_CNJMP, Op_CMPE, Op_CMPA, Op_CMPAE, Op_CMPG, Op_CMPGE, Op_STOREW, Op_ANSWER}"

definition register_choice :: "nat \<Rightarrow> MachineInstruction \<Rightarrow> nat result" where
  "register_choice i inst = (if as_unsigned (destIdx inst) = i
     then if mi_opcode inst \<in> result_opcodes then Inr 0 else if mi_opcode inst \<in> keep_opcodes then Inr 1
       else if mi_opcode inst = Op_LOADW then Inr 2 else Inl Fatal
     else Inr 1)"

definition registerConsistency_at :: "TraceConsistency \<Rightarrow> nat \<Rightarrow> (CircuitPolynomial \<times> string) result" where
  "registerConsistency_at g i = (let regiSecond = tr_registers (tc_second g) ! i; regiFirst = tr_registers (tc_first g) ! i;
       sum = \<lambda>v. cp_lc (lc_plus (lc_var regiSecond) (lc_var v)) in
     res_bind (res_list (map (register_choice i) (code (tc_program g)))) (\<lambda>selectorToConstraint.
     res_map (\<lambda>S. (PolySELECTORSUM S, ''sum_{i=0}^{programLength} (selector(i) * (R'' @ [CHR 0x27] @ ''_j - R_j_OR_ALUres))''))
       (make_SelectorSum_all [sum (out_result (tc_aluOutput g)), sum regiFirst, sum (out_value (tc_aluOutput g))]
         (getPCVars (tr_pc (tc_first g))) selectorToConstraint)))"

definition registerConsistency :: "TraceConsistency \<Rightarrow> (CircuitPolynomial \<times> string) list result" where
  "registerConsistency g = (if length (tr_registers (tc_first g)) \<noteq> length (tr_registers (tc_second g)) then Inl AssertFailed
     else res_list (map (registerConsistency_at g) [0..<length (tr_registers (tc_first g))]))"

definition TraceConsistency_constraints :: "TraceConsistency \<Rightarrow> (CircuitPolynomial \<times> string) list result" where
  "TraceConsistency_constraints g = (if var_index (out_flag (tc_aluOutput g)) \<noteq> var_index (tr_flag (tc_second g)) then Inl AssertFailed
     else if program_size (tc_program g) = 0 then Inl AssertFailed
     else res_bind (pcConsistency g) (\<lambda>pcs. res_map (\<lambda>rs. timeStampConsistency g # pcs # rs) (registerConsistency g)))"

definition TraceConsistency_generateConstraints :: "TraceConsistency \<Rightarrow> Protoboard \<Rightarrow> Protoboard result" where
  "TraceConsistency_generateConstraints g pb = res_map (\<lambda>cs. add_constraints Op_NONE cs pb) (TraceConsistency_constraints g)"

section \<open>Witness\<close>

definition timeStampWitness :: "TraceConsistency \<Rightarrow> Protoboard \<Rightarrow> Protoboard result" where
  "timeStampWitness g pb = (let timeStamp0 = tr_timeStamp (tc_first g); timeStamp1 = tr_timeStamp (tc_second g);
     pb = set_val timeStamp1 (val pb timeStamp0 * getGF2E_X) pb in
     res_map (\<lambda>timeStampDegree. addDegreeTranslation (val pb timeStamp1) (timeStampDegree + 1) pb)
       (if val pb timeStamp0 = 1 then Inr 0 else getDegreeOfFElem (val pb timeStamp0) pb))"

definition write_pc :: "Variable list \<Rightarrow> nat \<Rightarrow> Protoboard \<Rightarrow> Protoboard" where
  "write_pc pc nextPC pb = fst (fold (\<lambda>v (pb, n). (set_val v (if odd n then 1 else 0) pb, n div 2)) pc (pb, nextPC))"

definition pcWitness :: "TraceConsistency \<Rightarrow> nat \<Rightarrow> Protoboard \<Rightarrow> Protoboard result" where
  "pcWitness g nextPC pb = res_bind (pcLength (tc_program g)) (\<lambda>len.
     if length (tr_pc (tc_second g)) \<noteq> len then Inl AssertFailed else Inr (write_pc (tr_pc (tc_second g)) nextPC pb))"

text \<open>The opcodes of \<open>registersWitness\<close> are those of \<open>registerConsistency\<close> but for \<open>CMPGE\<close>.\<close>

definition register_witness :: "TraceConsistency \<Rightarrow> MachineInstruction \<Rightarrow> nat \<Rightarrow> Protoboard \<Rightarrow> Protoboard result" where
  "register_witness g inst i pb = (let regiSecond = tr_registers (tc_second g) ! i; regiFirst = tr_registers (tc_first g) ! i;
     copy = \<lambda>v. Inr (set_val regiSecond (val pb v) pb) in
     if as_unsigned (destIdx inst) \<noteq> i then copy regiFirst
     else if mi_opcode inst \<in> result_opcodes then copy (out_result (tc_aluOutput g))
     else if mi_opcode inst \<in> keep_opcodes - {Op_CMPGE} then copy regiFirst
     else if mi_opcode inst = Op_LOADW then copy (out_value (tc_aluOutput g)) else Inl Fatal)"

definition registersWitness :: "TraceConsistency \<Rightarrow> nat \<Rightarrow> Protoboard \<Rightarrow> Protoboard result" where
  "registersWitness g programLine pb = (if length (tr_registers (tc_first g)) \<noteq> length (tr_registers (tc_second g)) then Inl AssertFailed
     else fold (\<lambda>i st. res_bind st (register_witness g (code (tc_program g) ! programLine) i)) [0..<length (tr_registers (tc_first g))] (Inr pb))"

definition jump_target :: "TraceConsistency \<Rightarrow> nat \<Rightarrow> Protoboard \<Rightarrow> nat result" where
  "jump_target g programLine pb = (let inst = code (tc_program g) ! programLine in
     if arg2isImmediate inst then Inr (as_unsigned (arg2IdxOrImmediate inst))
     else res_bind (register_at (tr_registers (tc_first g)) (as_unsigned (arg2IdxOrImmediate inst))) (\<lambda>r.
       res_map (\<lambda>len. as_unsigned (mapFieldElementToInteger 0 len (val pb r))) (pcLength (tc_program g))))"

definition TraceConsistency_generateWitness :: "TraceConsistency \<Rightarrow> nat \<Rightarrow> Protoboard \<Rightarrow> Protoboard result" where
  "TraceConsistency_generateWitness g programLine pb = (if program_size (tc_program g) = 0 then Inl AssertFailed
     else if \<not> programLine < program_size (tc_program g) then Inl AssertFailed
     else res_bind (timeStampWitness g pb) (\<lambda>pb. let opcode = mi_opcode (code (tc_program g) ! programLine) in
     res_bind (if opcode = Op_JMP \<or> opcode = Op_CJMP \<or> opcode = Op_CNJMP then
         res_bind (jump_target g programLine pb) (\<lambda>nextLine.
           if opcode = Op_JMP then pcWitness g nextLine pb
           else if opcode = Op_CJMP then if val pb (tr_flag (tc_first g)) = 1 then pcWitness g nextLine pb else pcWitness g (programLine + 1) pb
           else if val pb (tr_flag (tc_first g)) = 0 then pcWitness g nextLine pb else pcWitness g (programLine + 1) pb)
       else if opcode = Op_ANSWER then pcWitness g programLine pb
       else pcWitness g (programLine + 1) pb) (registersWitness g programLine)))"

section \<open>The abstract step\<close>

definition pc_value :: "TraceVariables \<Rightarrow> Protoboard \<Rightarrow> FElem" where
  "pc_value t pb = pack_sum 1 (map (val pb) (tr_pc t))"

definition expected_pc :: "TraceConsistency \<Rightarrow> Protoboard \<Rightarrow> nat \<Rightarrow> FElem" where
  "expected_pc g pb n = (let opcode = mi_opcode (code (tc_program g) ! n); flag = val pb (tr_flag (tc_first g));
     jump = val pb (out_result (tc_aluOutput g)); step = next_line (length (tr_pc (tc_first g))) n in
     if opcode = Op_JMP \<or> opcode = Op_CJMP \<and> flag = 1 \<or> opcode = Op_CNJMP \<and> flag = 0 then jump
     else if opcode = Op_ANSWER then pc_value (tc_first g) pb else step)"

definition expected_register :: "TraceConsistency \<Rightarrow> Protoboard \<Rightarrow> nat \<Rightarrow> nat \<Rightarrow> FElem" where
  "expected_register g pb n i = (let inst = code (tc_program g) ! n in
     if as_unsigned (destIdx inst) = i \<and> mi_opcode inst \<in> result_opcodes then val pb (out_result (tc_aluOutput g))
     else if as_unsigned (destIdx inst) = i \<and> mi_opcode inst = Op_LOADW then val pb (out_value (tc_aluOutput g))
     else val pb (tr_registers (tc_first g) ! i))"

definition trace_step :: "TraceConsistency \<Rightarrow> Protoboard \<Rightarrow> nat \<Rightarrow> bool" where
  "trace_step g pb n \<longleftrightarrow> val pb (tr_timeStamp (tc_second g)) = val pb (tr_timeStamp (tc_first g)) * getGF2E_X
     \<and> pc_value (tc_second g) pb = expected_pc g pb n
     \<and> (\<forall>i < length (tr_registers (tc_second g)). val pb (tr_registers (tc_second g) ! i) = expected_register g pb n i)"

definition supported :: "TraceConsistency \<Rightarrow> MachineInstruction \<Rightarrow> bool" where
  "supported g inst \<longleftrightarrow> (as_unsigned (destIdx inst) < length (tr_registers (tc_first g)) \<longrightarrow> mi_opcode inst \<in> result_opcodes \<union> keep_opcodes \<union> {Op_LOADW})"

definition all_supported :: "TraceConsistency \<Rightarrow> bool" where
  "all_supported g \<longleftrightarrow> (\<forall>inst \<in> set (code (tc_program g)). supported g inst)"

definition tc_vars :: "TraceConsistency \<Rightarrow> Variable set" where
  "tc_vars g = set (trace_vars (tc_first g)) \<union> set (trace_vars (tc_second g)) \<union> {out_result (tc_aluOutput g), out_value (tc_aluOutput g)}"

definition tc_written :: "TraceConsistency \<Rightarrow> Variable list" where
  "tc_written g = tr_timeStamp (tc_second g) # tr_pc (tc_second g) @ tr_registers (tc_second g)"

definition tc_wf :: "TraceConsistency \<Rightarrow> bool" where
  "tc_wf g \<longleftrightarrow> pcLength (tc_program g) = Inr (length (tr_pc (tc_first g))) \<and> length (tr_pc (tc_second g)) = length (tr_pc (tc_first g))
     \<and> length (tr_pc (tc_first g)) \<le> 32 \<and> length (tr_registers (tc_second g)) = length (tr_registers (tc_first g))
     \<and> var_index (out_flag (tc_aluOutput g)) = var_index (tr_flag (tc_second g))
     \<and> distinct (map var_index (tc_written g))
     \<and> var_index ` set (tc_written g) \<inter> var_index ` (set (trace_vars (tc_first g)) \<union> {out_result (tc_aluOutput g), out_value (tc_aluOutput g)}) = {}"

section \<open>The constraints state the step\<close>

lemma pcLength_bound: "pcLength p = Inr len \<Longrightarrow> 0 < program_size p \<and> program_size p \<le> 2 ^ len \<and> 0 < len \<and> Log2ceiled (program_size p) \<le> len"
proof -
  assume a: "pcLength p = Inr len"
  let ?n = "length (code p)"
  show ?thesis
  proof (cases "?n \<le> 1")
    case True
    then have "?n = 0 \<or> ?n = 1" by linarith
    then show ?thesis using a by (auto simp: pcLength_def Let_def program_size_def Log2ceiled_def floorlog_def split: if_splits)
  next
    case False
    then have len: "len = floorlog 2 (?n - 1)" using a by (auto simp: pcLength_def Let_def Log2ceiled_def split: if_splits)
    have "?n - 1 < 2 ^ floorlog 2 (?n - 1)" using floorlog_bounds [of "?n - 1" 2] False by simp
    moreover have "0 < floorlog 2 (?n - 1)" using False by (simp add: floorlog_def)
    moreover have "0 < ?n" "?n \<le> Suc (?n - 1)" using False by linarith+
    ultimately have "?n \<le> 2 ^ floorlog 2 (?n - 1)" by linarith
    then show ?thesis using \<open>0 < ?n\<close> \<open>0 < floorlog 2 (?n - 1)\<close> len by (simp add: program_size_def Log2ceiled_def)
  qed
qed

lemma packed_pc_ok:
  assumes "pc \<noteq> []" "len = length pc"
  shows "\<exists>l. packed_pc pc len = Inr l \<and> lc_vars l \<subseteq> set pc \<and> (\<forall>pb. lv pb l = pack_sum 1 (map (val pb) pc))"
proof -
  obtain v vs where pc: "pc = v # vs" using assms(1) by (cases pc) auto
  let ?l = "fst (pack_loop vs (times_term v 1, getGF2E_X))"
  have "packed_pc pc len = Inr ?l" using assms(2) by (simp add: packed_pc_def pc)
  moreover have "lc_vars ?l \<subseteq> set pc"
    using pack_loop_vars [of vs "times_term v 1" getGF2E_X] by (auto simp: pc times_term_def lc_term_def lc_vars_def LinearTerm_times_def LinearTerm_of_def split: if_splits)
  moreover have "lv pb ?l = pack_sum 1 (map (val pb) pc)" for pb
    by (simp add: lv_pack_loop pc times_term_def lv_simps LinearTerm_times_def LinearTerm_of_def)
  ultimately show ?thesis by blast
qed

text \<open>What the loop over the lines has established after \<open>m\<close> of them.\<close>

definition pc_table :: "TraceConsistency \<Rightarrow> nat \<Rightarrow> CircuitPolynomial list \<times> nat list \<Rightarrow> bool" where
  "pc_table g m = (\<lambda>(cs, s2c). length s2c = program_size (tc_program g) \<and> 2 \<le> length cs
     \<and> (\<forall>c \<in> set cs. plain c \<and> cp_over (tc_vars g) c) \<and> (\<forall>k \<in> set s2c. k < length cs)
     \<and> (\<forall>pb. pv pb (cs ! 0) = pc_value (tc_second g) pb + val pb (out_result (tc_aluOutput g)) \<and> pv pb (cs ! 1) = pc_value (tc_second g) pb + pc_value (tc_first g) pb)
     \<and> (\<forall>i < m. \<forall>pb. boolean pb (tr_flag (tc_first g)) \<longrightarrow> (pv pb (cs ! (s2c ! i)) = 0 \<longleftrightarrow> pc_value (tc_second g) pb = expected_pc g pb i)))"

lemma pc_line_ok:
  assumes "tc_wf g" "pc_table g i st" "i < program_size (tc_program g)" "lc_vars l \<subseteq> tc_vars g" "\<forall>pb. lv pb l = pc_value (tc_second g) pb"
  shows "\<exists>st'. pc_line g l (length (tr_pc (tc_first g))) i st = Inr st' \<and> pc_table g (Suc i) st'"
proof -
  obtain cs s2c where st: "st = (cs, s2c)" by (cases st)
  let ?len = "length (tr_pc (tc_first g))" and ?op = "mi_opcode (code (tc_program g) ! i)"
  note b = pcLength_bound [of "tc_program g" ?len]
  have "\<exists>s. getSelector (program_size (tc_program g)) i (tr_pc (tc_first g)) = Inr s"
    using getSelector_val [of "tr_pc (tc_first g)" "program_size (tc_program g)" i] b assms(1,3) by (auto simp: tc_wf_def)
  then obtain s where s: "getSelector (program_size (tc_program g)) i (tr_pc (tc_first g)) = Inr s" by blast
  have t: "length s2c = program_size (tc_program g)" "2 \<le> length cs" "\<forall>c \<in> set cs. plain c \<and> cp_over (tc_vars g) c" "\<forall>k \<in> set s2c. k < length cs"
    "\<And>pb. pv pb (cs ! 0) = pc_value (tc_second g) pb + val pb (out_result (tc_aluOutput g))" "\<And>pb. pv pb (cs ! 1) = pc_value (tc_second g) pb + pc_value (tc_first g) pb"
    "\<And>j pb. j < i \<Longrightarrow> boolean pb (tr_flag (tc_first g)) \<Longrightarrow> pv pb (cs ! (s2c ! j)) = 0 \<longleftrightarrow> pc_value (tc_second g) pb = expected_pc g pb j"
    using assms(2) by (auto simp: pc_table_def st)
  have lt: "s2c ! j < length cs" if "j < i" for j using t(1,4) that assms(3) by simp
  have step: "pc_table g (Suc i) (cs @ ex, s2c[i := k])"
    if "k < length (cs @ ex)" "\<forall>c \<in> set ex. plain c \<and> cp_over (tc_vars g) c"
      "\<And>pb. boolean pb (tr_flag (tc_first g)) \<Longrightarrow> pv pb ((cs @ ex) ! k) = 0 \<longleftrightarrow> pc_value (tc_second g) pb = expected_pc g pb i" for ex k
  proof -
    have "pv pb ((cs @ ex) ! (s2c[i := k] ! j)) = 0 \<longleftrightarrow> pc_value (tc_second g) pb = expected_pc g pb j" if "j < Suc i" "boolean pb (tr_flag (tc_first g))" for j pb
      using t(1,7) lt [of j] that \<open>\<And>pb. boolean pb (tr_flag (tc_first g)) \<Longrightarrow> _\<close> [OF that(2)] assms(3)
      by (cases "j = i") (auto simp: nth_append)
    moreover have "\<forall>k' \<in> set (s2c[i := k]). k' < length (cs @ ex)" 
    proof
      fix k' assume "k' \<in> set (s2c[i := k])"
      then have "k' = k \<or> k' \<in> set s2c" using set_update_subset_insert [of s2c i k] by blast
      then show "k' < length (cs @ ex)" using that(1) t(4) by auto
    qed
    ultimately show ?thesis using t(1-3,5,6) that(2) by (auto simp: pc_table_def nth_append)
  qed
  have lo: "lc_over (tc_vars g) l" using assms(4) by (simp add: lc_over_def)
  have v: "out_result (tc_aluOutput g) \<in> tc_vars g" "tr_flag (tc_first g) \<in> tc_vars g" by (auto simp: tc_vars_def trace_vars_def)
  have fl: "val pb (tr_flag (tc_first g)) = 0 \<or> val pb (tr_flag (tc_first g)) = 1" if "boolean pb (tr_flag (tc_first g))" for pb using that by (simp add: boolean_def)
  have ext: "pc_table g (Suc i) (cs @ [c], s2c[i := length cs])" if "plain c" "cp_over (tc_vars g) c"
      "\<And>pb. boolean pb (tr_flag (tc_first g)) \<Longrightarrow> pv pb c = 0 \<longleftrightarrow> pc_value (tc_second g) pb = expected_pc g pb i" for c
    using step [of "length cs" "[c]"] that by simp
  let ?f = "tr_flag (tc_first g)" and ?jump = "lc_plus l (lc_var (out_result (tc_aluOutput g)))" and ?step = "lc_plus l (lc_const (next_line ?len i))"
  let ?not = "lc_plus (lc_var ?f) (lc_const 1)"
  consider "?op = Op_JMP" | "?op = Op_ANSWER" | "?op = Op_CJMP" | "?op = Op_CNJMP" | "?op \<notin> {Op_JMP, Op_ANSWER, Op_CJMP, Op_CNJMP}" by blast
  then show ?thesis
  proof cases
    case 1
    moreover have "cs \<noteq> []" using t(2) by auto
    ultimately show ?thesis using step [of 0 "[]"] t(5) by (simp add: pc_line_def st s expected_pc_def Let_def fe_add_eq_0)
  next
    case 2
    moreover have "1 < length cs" using t(2) by simp
    ultimately show ?thesis using step [of 1 "[]"] t(6) by (simp add: pc_line_def st s expected_pc_def Let_def fe_add_eq_0)
  next
    case 3
    let ?c = "cp_plus (cp_times (cp_lc ?jump) (cp_var ?f)) (cp_times (cp_lc ?not) (cp_lc ?step))"
    have "pc_table g (Suc i) (cs @ [?c], s2c[i := length cs])"
    proof (rule ext)
      fix pb assume "boolean pb ?f"
      from fl [OF this] show "pv pb ?c = 0 \<longleftrightarrow> pc_value (tc_second g) pb = expected_pc g pb i"
        by (auto simp: 3 pv_simps lv_simps assms(5) expected_pc_def Let_def fe_add_eq_0)
    qed (use lo v in simp_all)
    then show ?thesis using 3 by (simp add: pc_line_def st s Let_def)
  next
    case 4
    let ?c = "cp_plus (cp_times (cp_lc ?not) (cp_lc ?jump)) (cp_times (cp_lc ?step) (cp_var ?f))"
    have "pc_table g (Suc i) (cs @ [?c], s2c[i := length cs])"
    proof (rule ext)
      fix pb assume "boolean pb ?f"
      from fl [OF this] show "pv pb ?c = 0 \<longleftrightarrow> pc_value (tc_second g) pb = expected_pc g pb i"
        by (auto simp: 4 pv_simps lv_simps assms(5) expected_pc_def Let_def fe_add_eq_0)
    qed (use lo v in simp_all)
    then show ?thesis using 4 by (simp add: pc_line_def st s Let_def)
  next
    case 5
    have "pc_table g (Suc i) (cs @ [cp_lc ?step], s2c[i := length cs])"
      by (rule ext) (use 5 lo assms(5) in \<open>auto simp: pv_simps lv_simps expected_pc_def Let_def fe_add_eq_0\<close>)
    then show ?thesis using 5 by (simp add: pc_line_def st s Let_def)
  qed
qed

lemma pc_lines_ok:
  assumes "tc_wf g" "lc_vars l \<subseteq> tc_vars g" "\<forall>pb. lv pb l = pc_value (tc_second g) pb" "pc_table g 0 st" "m \<le> program_size (tc_program g)"
  shows "\<exists>st'. fold (\<lambda>i st. res_bind st (pc_line g l (length (tr_pc (tc_first g))) i)) [0..<m] (Inr st) = Inr st' \<and> pc_table g m st'"
  using assms(5)
proof (induction m)
  case (Suc m)
  then obtain st' where st': "fold (\<lambda>i st. res_bind st (pc_line g l (length (tr_pc (tc_first g))) i)) [0..<m] (Inr st) = Inr st'" "pc_table g m st'" by auto
  from pc_line_ok [OF assms(1) st'(2) _ assms(2,3)] Suc.prems show ?case by (simp add: st'(1))
qed (use assms(4) in simp)

text \<open>What the current line, number \<open>n\<close>, needs of the board.\<close>

definition on_line :: "TraceConsistency \<Rightarrow> nat \<Rightarrow> Protoboard \<Rightarrow> bool" where
  "on_line g n pb \<longleftrightarrow> pb_inv pb \<and> compact_board pb \<and> reads_pc pb (tr_pc (tc_first g)) n \<and> n < program_size (tc_program g)
     \<and> (\<forall>v \<in> tc_vars g. assigned pb v) \<and> boolean pb (tr_flag (tc_first g))"

lemma selected_on_line:
  assumes "tc_wf g" "on_line g n pb" "make_SelectorSum_all cs (getPCVars (tr_pc (tc_first g))) s2c = Inr S"
    "length s2c = program_size (tc_program g)" "\<forall>c \<in> set cs. plain c \<and> cp_over (tc_vars g) c" "\<forall>k \<in> set s2c. k < length cs"
  shows "holds pb (PolySELECTORSUM S) \<longleftrightarrow> pv pb (cs ! (s2c ! n)) = 0"
proof -
  note S = selector_of [OF assms(3) [unfolded getPCVars_eq]]
  have "program_size (tc_program g) \<le> 2 ^ length (tr_pc (tc_first g))" using pcLength_bound assms(1) by (auto simp: tc_wf_def)
  then show ?thesis unfolding S(1) using assms S(2)
    by (subst selected [where n = n]) (auto simp: on_line_def set_insert_all_inv cp_over_def)
qed

lemma selector_total: "pc \<noteq> [] \<Longrightarrow> \<exists>S. make_SelectorSum_all cs (getPCVars pc) s2c = Inr S"
  by (simp add: make_SelectorSum_all_def getPCVars_eq)

lemma pc_nonempty: "tc_wf g \<Longrightarrow> tr_pc (tc_first g) \<noteq> [] \<and> tr_pc (tc_second g) \<noteq> []"
  using pcLength_bound by (fastforce simp: tc_wf_def)

lemma pcConsistency_ok:
  assumes "tc_wf g"
  shows "\<exists>p nm. pcConsistency g = Inr (p, nm) \<and> (\<forall>n pb. on_line g n pb \<longrightarrow> (holds pb p \<longleftrightarrow> pc_value (tc_second g) pb = expected_pc g pb n))"
proof -
  let ?f = "tc_first g" and ?s = "tc_second g" and ?n = "program_size (tc_program g)"
  have len: "pcLength (tc_program g) = Inr (length (tr_pc ?f))" "length (tr_pc ?s) = length (tr_pc ?f)" using assms by (simp_all add: tc_wf_def)
  obtain l where l: "packed_pc (tr_pc ?s) (length (tr_pc ?f)) = Inr l" "lc_vars l \<subseteq> set (tr_pc ?s)" "\<forall>pb. lv pb l = pc_value ?s pb"
    using packed_pc_ok [of "tr_pc ?s" "length (tr_pc ?f)"] pc_nonempty [OF assms] len(2) by (auto simp: pc_value_def)
  obtain l' where l': "packed_pc (tr_pc ?f) (length (tr_pc ?f)) = Inr l'" "lc_vars l' \<subseteq> set (tr_pc ?f)" "\<forall>pb. lv pb l' = pc_value ?f pb"
    using packed_pc_ok [of "tr_pc ?f"] pc_nonempty [OF assms] by (auto simp: pc_value_def)
  have over: "lc_over (tc_vars g) l" "lc_over (tc_vars g) l'" "out_result (tc_aluOutput g) \<in> tc_vars g"
    using l(2) l'(2) by (auto simp: lc_over_def tc_vars_def trace_vars_def)
  let ?st = "([cp_lc (lc_plus l (lc_var (out_result (tc_aluOutput g)))), cp_lc (lc_plus l l')], replicate ?n 0)"
  have "pc_table g 0 ?st" using over l(3) l'(3) by (auto simp: pc_table_def pv_simps lv_simps)
  moreover have "lc_vars l \<subseteq> tc_vars g" using over(1) by (simp add: lc_over_def)
  ultimately obtain cs s2c where st: "fold (\<lambda>i st. res_bind st (pc_line g l (length (tr_pc ?f)) i)) [0..<?n] (Inr ?st) = Inr (cs, s2c)" "pc_table g ?n (cs, s2c)"
    using pc_lines_ok [OF assms _ l(3), of ?st ?n] by auto
  obtain S where S: "make_SelectorSum_all cs (getPCVars (tr_pc ?f)) s2c = Inr S" using selector_total pc_nonempty [OF assms] by blast
  have "holds pb (PolySELECTORSUM S) \<longleftrightarrow> pc_value ?s pb = expected_pc g pb n" if "on_line g n pb" for n pb
    using selected_on_line [OF assms that S] st(2) that by (auto simp: pc_table_def on_line_def)
  moreover have "pcConsistency g = Inr (PolySELECTORSUM S, ''sum_{i=0}^{programLength} (selector(i) * (pcAsFElem + (i+1)))'')"
    by (simp add: pcConsistency_def len(1) l(1) l'(1) st(1) S del: upt_Suc replicate_Suc)
  ultimately show ?thesis by blast
qed

lemma register_choice_ok:
  assumes "supported g inst" "i < length (tr_registers (tc_first g))"
  shows "\<exists>k. register_choice i inst = Inr k \<and> k < 3"
  using assms by (auto simp: supported_def register_choice_def)

lemma registerConsistency_at_ok:
  assumes "tc_wf g" "i < length (tr_registers (tc_first g))" "all_supported g"
  shows "\<exists>p nm. registerConsistency_at g i = Inr (p, nm)
    \<and> (\<forall>n pb. on_line g n pb \<longrightarrow> (holds pb p \<longleftrightarrow> val pb (tr_registers (tc_second g) ! i) = expected_register g pb n i))"
proof -
  let ?f = "tc_first g" and ?s = "tc_second g" and ?o = "tc_aluOutput g"
  let ?sum = "\<lambda>v. cp_lc (lc_plus (lc_var (tr_registers ?s ! i)) (lc_var v))"
  let ?cs = "[?sum (out_result ?o), ?sum (tr_registers ?f ! i), ?sum (out_value ?o)]"
  define s2c where "s2c = map (projr \<circ> register_choice i) (code (tc_program g))"
  have c: "register_choice i inst = Inr (projr (register_choice i inst)) \<and> projr (register_choice i inst) < 3" if "inst \<in> set (code (tc_program g))" for inst
    using register_choice_ok [OF _ assms(2)] assms(3) that unfolding all_supported_def by fastforce
  then have r: "res_list (map (register_choice i) (code (tc_program g))) = Inr s2c" by (simp add: res_list_eq_Inr s2c_def)
  obtain S where S: "make_SelectorSum_all ?cs (getPCVars (tr_pc ?f)) s2c = Inr S" using selector_total pc_nonempty [OF assms(1)] by blast
  have k: "\<forall>k \<in> set s2c. k < length ?cs" using c by (auto simp: s2c_def numeral_3_eq_3 [symmetric])
  have in_regs: "tr_registers ?s ! i \<in> tc_vars g" "tr_registers ?f ! i \<in> tc_vars g" "out_result ?o \<in> tc_vars g" "out_value ?o \<in> tc_vars g"
    using assms by (simp_all add: tc_vars_def trace_vars_def tc_wf_def)
  have ln: "length s2c = program_size (tc_program g)" by (simp add: s2c_def program_size_def)
  have "holds pb (PolySELECTORSUM S) \<longleftrightarrow> val pb (tr_registers ?s ! i) = expected_register g pb n i" if l: "on_line g n pb" for n pb
  proof -
    let ?inst = "code (tc_program g) ! n"
    have n: "n < length (code (tc_program g))" using l by (simp add: on_line_def program_size_def)
    have "holds pb (PolySELECTORSUM S) \<longleftrightarrow> pv pb (?cs ! (s2c ! n)) = 0"
      by (rule selected_on_line [OF assms(1) l S ln _ k]) (use in_regs in simp)
    moreover have "s2c ! n = projr (register_choice i ?inst)" using n by (simp add: s2c_def)
    moreover have "supported g ?inst" using assms(3) n by (simp add: all_supported_def)
    ultimately show ?thesis using assms(2)
      by (auto simp: register_choice_def supported_def expected_register_def Let_def pv_simps lv_simps fe_add_eq_0 result_opcodes_def keep_opcodes_def)
  qed
  then show ?thesis by (simp add: registerConsistency_at_def Let_def r S)
qed

lemma timeStamp_holds:
  "on_line g n pb \<Longrightarrow> holds pb (fst (timeStampConsistency g)) \<longleftrightarrow> val pb (tr_timeStamp (tc_second g)) = val pb (tr_timeStamp (tc_first g)) * getGF2E_X"
proof -
  assume "on_line g n pb"
  then have a: "assigned pb (tr_timeStamp (tc_first g))" "assigned pb (tr_timeStamp (tc_second g))" by (simp_all add: on_line_def tc_vars_def trace_vars_def)
  let ?p = "fst (timeStampConsistency g)"
  have v: "times_term v c = lc_term (LinearTerm_times (LinearTerm_of v) c)" for v c by (simp add: times_term_def)
  have "plain ?p" by (simp add: timeStampConsistency_def)
  moreover have "cp_over {tr_timeStamp (tc_first g), tr_timeStamp (tc_second g)} ?p"
    by (auto simp: timeStampConsistency_def v lc_over_def lc_term_def lc_vars_def LinearTerm_times_def LinearTerm_of_def lc_plus_def lc_var_def)
  moreover have "pv pb ?p = val pb (tr_timeStamp (tc_first g)) * getGF2E_X + val pb (tr_timeStamp (tc_second g))"
    by (simp add: timeStampConsistency_def v pv_simps lv_simps LinearTerm_times_def LinearTerm_of_def mult.commute)
  ultimately show ?thesis using a by (auto simp: holds_iff cp_over_def fe_add_eq_0)
qed

lemma tc_holds:
  assumes "tc_wf g" "all_supported g"
  shows "\<exists>cs. TraceConsistency_constraints g = Inr cs \<and> (\<forall>n pb. on_line g n pb \<longrightarrow> ((\<forall>(p, nm) \<in> set cs. holds pb p) \<longleftrightarrow> trace_step g pb n))"
proof -
  let ?k = "length (tr_registers (tc_first g))"
  obtain p nm where p: "pcConsistency g = Inr (p, nm)" "\<And>n pb. on_line g n pb \<Longrightarrow> holds pb p \<longleftrightarrow> pc_value (tc_second g) pb = expected_pc g pb n"
    using pcConsistency_ok [OF assms(1)] by blast
  have "\<forall>i \<in> {..<?k}. \<exists>c. registerConsistency_at g i = Inr c \<and> (\<forall>n pb. on_line g n pb \<longrightarrow> (holds pb (fst c) \<longleftrightarrow> val pb (tr_registers (tc_second g) ! i) = expected_register g pb n i))"
    using registerConsistency_at_ok [OF assms(1) _ assms(2)] by fastforce
  then obtain C where C: "\<And>i. i < ?k \<Longrightarrow> registerConsistency_at g i = Inr (C i)"
    "\<And>i n pb. i < ?k \<Longrightarrow> on_line g n pb \<Longrightarrow> holds pb (fst (C i)) \<longleftrightarrow> val pb (tr_registers (tc_second g) ! i) = expected_register g pb n i"
    by (metis lessThan_iff)
  have k: "length (tr_registers (tc_second g)) = ?k" using assms(1) by (simp add: tc_wf_def)
  have "res_list (map (registerConsistency_at g) [0..<?k]) = Inr (map C [0..<?k])" using C(1) by (simp add: res_list_eq_Inr)
  then have "registerConsistency g = Inr (map C [0..<?k])" using k by (simp add: registerConsistency_def)
  moreover have "program_size (tc_program g) \<noteq> 0" using pcLength_bound assms(1) by (auto simp: tc_wf_def)
  ultimately have "TraceConsistency_constraints g = Inr (timeStampConsistency g # (p, nm) # map C [0..<?k])"
    using assms(1) by (simp add: TraceConsistency_constraints_def p(1) tc_wf_def)
  moreover have "(\<forall>(p, nm) \<in> set (timeStampConsistency g # (p, nm) # map C [0..<?k]). holds pb p) \<longleftrightarrow> trace_step g pb n" if "on_line g n pb" for n pb
    using timeStamp_holds [OF that] p(2) [OF that] C(2) [OF _ that] by (auto simp: trace_step_def k case_prod_beta)
  ultimately show ?thesis by blast
qed

section \<open>The witness code makes the step\<close>

lemma write_pc_Cons: "write_pc (v # vs) n pb = write_pc vs (n div 2) (set_val v (if odd n then 1 else 0) pb)"
  by (simp add: write_pc_def)

lemma write_pc_facts:
  assumes "pb_inv pb" "distinct (map var_index pc)"
  shows "changes (var_index ` set pc) pb (write_pc pc n pb) \<and> map (val (write_pc pc n pb)) pc = map (\<lambda>b. if b then 1 else 0) (map (bit n) [0..<length pc])"
  using assms
proof (induction pc arbitrary: n pb)
  case Nil
  then show ?case by (simp add: write_pc_def changes_def)
next
  case (Cons v vs)
  let ?b = "set_val v (if odd n then 1 else 0) pb"
  have ih: "changes (var_index ` set vs) ?b (write_pc vs (n div 2) ?b)"
    "map (val (write_pc vs (n div 2) ?b)) vs = map (\<lambda>b. if b then 1 else 0) (map (bit (n div 2)) [0..<length vs])"
    using Cons.IH [of ?b "n div 2"] Cons.prems by simp_all
  have "changes (insert (var_index v) (var_index ` set vs)) pb (write_pc vs (n div 2) ?b)"
    using changes_trans [OF changes_set_val [OF Cons.prems(1)] ih(1)] by simp
  moreover have "val (write_pc vs (n div 2) ?b) v = (if odd n then 1 else 0)"
    using changesD(5) [OF ih(1), of v] Cons.prems by simp
  moreover have "map (bit n) [0..<Suc (length vs)] = odd n # map (bit (n div 2)) [0..<length vs]"
    by (simp only: upt_conv_Cons [OF zero_less_Suc] map_Suc_upt [symmetric] list.map map_map o_def bit_0 bit_Suc)
  ultimately show ?case using ih(2) by (simp add: write_pc_Cons del: upt_Suc)
qed

lemma bits_nat_bits: "bits_nat (map (bit n) [0..<k]) = take_bit k n"
  by (rule bit_eqI) (auto simp: bit_bits_nat bit_take_bit_iff)

lemma pack_bits: "k \<le> 64 \<Longrightarrow> pack_sum 1 (map (\<lambda>b. if b then 1 else 0) (map (bit n) [0..<k])) = fe (take_bit k n)"
  using pack_sum_bits [of 0 "map (bit n) [0..<k]"] by (simp only: bits_nat_bits) simp

lemma write_pc_value:
  assumes "pb_inv pb" "distinct (map var_index pc)" "length pc \<le> 64"
  shows "pack_sum 1 (map (val (write_pc pc n pb)) pc) = fe (take_bit (length pc) n)"
  using write_pc_facts [OF assms(1,2), of n] pack_bits [OF assms(3), of n] by simp

lemma reads_pc_value:
  assumes "reads_pc pb (tr_pc t) n" "length (tr_pc t) \<le> 64"
  shows "pc_value t pb = fe n"
proof -
  have "map (val pb) (tr_pc t) = map (\<lambda>b. if b then 1 else 0) (map (bit n) [0..<length (tr_pc t)])"
    using assms(1) by (auto simp: reads_pc_def intro: nth_equalityI)
  then show ?thesis using pack_bits [OF assms(2), of n] assms(1) by (simp add: pc_value_def reads_pc_def take_bit_nat_eq_self del: map_map)
qed

lemma next_line_value: "len \<le> 32 \<Longrightarrow> next_line len i = fe (take_bit len (i + 1))"
  by (simp add: next_line_def map_int_fe unsigned_of_nat take_bit_take_bit min_def del: of_nat_Suc of_nat_add)

lemma getDegree_set_val [simp]: "getDegreeOfFElem e (set_val v x pb) = getDegreeOfFElem e pb"
  by (simp add: getDegreeOfFElem_def set_val_def)

lemma timeStampWitness_ok:
  assumes "pb_inv pb" "var_index (tr_timeStamp (tc_first g)) \<noteq> var_index (tr_timeStamp (tc_second g))"
    "val pb (tr_timeStamp (tc_first g)) = 1 \<and> d = 0 \<or> getDegreeOfFElem (val pb (tr_timeStamp (tc_first g))) pb = Inr d \<and> val pb (tr_timeStamp (tc_first g)) \<noteq> 1"
  shows "\<exists>w. timeStampWitness g pb = Inr w \<and> changes {var_index (tr_timeStamp (tc_second g))} pb w
    \<and> val w (tr_timeStamp (tc_second g)) = val pb (tr_timeStamp (tc_first g)) * getGF2E_X
    \<and> (getDegreeOfFElem (val w (tr_timeStamp (tc_second g))) pb = Inl OutOfRange \<longrightarrow> getDegreeOfFElem (val w (tr_timeStamp (tc_second g))) w = Inr (d + 1))"
proof -
  let ?x = "val pb (tr_timeStamp (tc_first g)) * getGF2E_X" and ?t = "tr_timeStamp (tc_second g)"
  let ?b = "set_val ?t ?x pb"
  have b: "val ?b (tr_timeStamp (tc_first g)) = val pb (tr_timeStamp (tc_first g))" "val ?b ?t = ?x" "getDegreeOfFElem e ?b = getDegreeOfFElem e pb" "pb_inv ?b" for e
    using assms(1,2) by simp_all
  let ?w = "addDegreeTranslation ?x (d + 1) ?b"
  have "timeStampWitness g pb = Inr ?w" using assms(3) by (auto simp: timeStampWitness_def Let_def b(1-3))
  moreover have f: "val ?w v = val ?b v" "assigned ?w v = assigned ?b v" "pb_inv ?w" "pb_constraintSystem op ?w = pb_constraintSystem op ?b"
    "getDegreeOfFElem ?x pb = Inl OutOfRange \<Longrightarrow> getDegreeOfFElem ?x ?w = Inr (d + 1)" for v op
    using addDegreeTranslation_facts [OF b(4)] by simp_all
  moreover have "changes {var_index ?t} pb ?w" using assms(1) f(3) unfolding changes_def f(1,2,4) by simp
  ultimately show ?thesis using b(2) by auto
qed

lemma register_witness_ok:
  assumes "supported g inst" "mi_opcode inst \<noteq> Op_CMPGE \<or> as_unsigned (destIdx inst) \<noteq> i" "i < length (tr_registers (tc_first g))" "inst = code (tc_program g) ! n"
  shows "register_witness g inst i pb = Inr (set_val (tr_registers (tc_second g) ! i) (expected_register g pb n i) pb)"
  using assms by (auto simp: register_witness_def supported_def expected_register_def Let_def result_opcodes_def keep_opcodes_def)

text \<open>The values a step is computed from: the first line and the outputs of the arithmetic unit.\<close>

definition tc_read :: "TraceConsistency \<Rightarrow> Variable set" where
  "tc_read g = set (trace_vars (tc_first g)) \<union> {out_result (tc_aluOutput g), out_value (tc_aluOutput g)}"

lemma tc_read_frame:
  assumes "tc_wf g" "changes V pb w" "V \<subseteq> var_index ` set (tc_written g)"
  shows "\<forall>v \<in> tc_read g. val w v = val pb v"
proof
  fix v assume "v \<in> tc_read g"
  then have "var_index v \<notin> V" using assms(1,3) unfolding tc_wf_def tc_read_def by blast
  then show "val w v = val pb v" by (rule changesD(5) [OF assms(2)])
qed

lemma expected_frame:
  assumes "\<forall>v \<in> tc_read g. val w v = val pb v"
  shows "i < length (tr_registers (tc_first g)) \<Longrightarrow> expected_register g w n i = expected_register g pb n i" "expected_pc g w n = expected_pc g pb n"
proof -
  have v: "val w (out_result (tc_aluOutput g)) = val pb (out_result (tc_aluOutput g))" "val w (out_value (tc_aluOutput g)) = val pb (out_value (tc_aluOutput g))"
    "val w (tr_flag (tc_first g)) = val pb (tr_flag (tc_first g))" using assms by (simp_all add: tc_read_def trace_vars_def)
  have "pc_value (tc_first g) w = pc_value (tc_first g) pb" unfolding pc_value_def
    by (intro arg_cong [where f = "pack_sum 1"] map_cong refl) (use assms in \<open>simp add: tc_read_def trace_vars_def\<close>)
  then show "expected_pc g w n = expected_pc g pb n" by (simp add: expected_pc_def Let_def v)
  show "expected_register g w n i = expected_register g pb n i" if "i < length (tr_registers (tc_first g))"
  proof -
    have "val w (tr_registers (tc_first g) ! i) = val pb (tr_registers (tc_first g) ! i)" using assms that by (simp add: tc_read_def trace_vars_def)
    then show ?thesis by (simp add: expected_register_def Let_def v)
  qed
qed

lemma registers_loop:
  assumes "tc_wf g" "pb_inv pb" "supported g (code (tc_program g) ! n)" "m \<le> length (tr_registers (tc_first g))"
    "mi_opcode (code (tc_program g) ! n) = Op_CMPGE \<Longrightarrow> m \<le> as_unsigned (destIdx (code (tc_program g) ! n))"
  shows "\<exists>w. fold (\<lambda>i st. res_bind st (register_witness g (code (tc_program g) ! n) i)) [0..<m] (Inr pb) = Inr w
    \<and> changes (var_index ` set (take m (tr_registers (tc_second g)))) pb w \<and> (\<forall>i < m. val w (tr_registers (tc_second g) ! i) = expected_register g pb n i)"
  using assms(4,5)
proof (induction m)
  case 0
  then show ?case using assms(2) by (simp add: changes_def)
next
  case (Suc m)
  let ?rs = "tr_registers (tc_second g)" and ?inst = "code (tc_program g) ! n"
  obtain w where w: "fold (\<lambda>i st. res_bind st (register_witness g ?inst i)) [0..<m] (Inr pb) = Inr w"
    "changes (var_index ` set (take m ?rs)) pb w" "\<forall>i < m. val w (?rs ! i) = expected_register g pb n i"
    using Suc.IH Suc.prems by (meson Suc_leD)
  have len: "m < length ?rs" using Suc.prems assms(1) by (simp add: tc_wf_def)
  have d: "distinct (map var_index ?rs)" using assms(1) by (simp add: tc_wf_def tc_written_def)
  have "\<forall>v \<in> tc_read g. val w v = val pb v"
    by (rule tc_read_frame [OF assms(1) w(2)]) (auto simp: tc_written_def dest: in_set_takeD)
  then have e: "expected_register g w n m = expected_register g pb n m" using expected_frame(1) Suc.prems(1) by simp
  let ?w = "set_val (?rs ! m) (expected_register g pb n m) w"
  have r: "register_witness g ?inst m w = Inr ?w"
    using register_witness_ok [OF assms(3) _ _ refl, of m w] Suc.prems e by (fastforce simp: Suc_le_eq)
  have "var_index (?rs ! i) \<noteq> var_index (?rs ! m)" if "i < m" for i
    using nth_eq_iff_index_eq [OF d, of i m] that len by simp
  then have "\<forall>i < Suc m. val ?w (?rs ! i) = expected_register g pb n i" using w(3) changesD(2) [OF w(2)] by (auto simp: less_Suc_eq)
  moreover have "changes (var_index ` set (take (Suc m) ?rs)) pb ?w"
    using changes_trans [OF w(2) changes_set_val [OF changesD(2) [OF w(2)]], of "?rs ! m"] len by (simp add: take_Suc_conv_app_nth)
  ultimately show ?case by (simp add: w(1) r)
qed

definition pc_branch :: "TraceConsistency \<Rightarrow> nat \<Rightarrow> Protoboard \<Rightarrow> nat result" where
  "pc_branch g n pb = (let opcode = mi_opcode (code (tc_program g) ! n); flag = val pb (tr_flag (tc_first g)) in
     if opcode = Op_JMP \<or> opcode = Op_CJMP \<or> opcode = Op_CNJMP then res_map (\<lambda>nextLine.
       if opcode = Op_JMP \<or> opcode = Op_CJMP \<and> flag = 1 \<or> opcode = Op_CNJMP \<and> flag = 0 then nextLine else n + 1) (jump_target g n pb)
     else Inr (if opcode = Op_ANSWER then n else n + 1))"

lemma generateWitness_branch:
  "TraceConsistency_generateWitness g n pb = (if program_size (tc_program g) = 0 \<or> \<not> n < program_size (tc_program g) then Inl AssertFailed
     else res_bind (timeStampWitness g pb) (\<lambda>pb. res_bind (res_bind (pc_branch g n pb) (\<lambda>N. pcWitness g N pb)) (registersWitness g n)))"
proof -
  have "(if opcode = Op_JMP \<or> opcode = Op_CJMP \<or> opcode = Op_CNJMP then
         res_bind (jump_target g n pb) (\<lambda>nextLine.
           if opcode = Op_JMP then pcWitness g nextLine pb
           else if opcode = Op_CJMP then if val pb (tr_flag (tc_first g)) = 1 then pcWitness g nextLine pb else pcWitness g (n + 1) pb
           else if val pb (tr_flag (tc_first g)) = 0 then pcWitness g nextLine pb else pcWitness g (n + 1) pb)
       else if opcode = Op_ANSWER then pcWitness g n pb else pcWitness g (n + 1) pb) = res_bind (pc_branch g n pb) (\<lambda>N. pcWitness g N pb)"
    if "opcode = mi_opcode (code (tc_program g) ! n)" for opcode pb
    unfolding pc_branch_def Let_def that [symmetric] by (cases "jump_target g n pb") auto
  then show ?thesis by (simp add: TraceConsistency_generateWitness_def Let_def)
qed

text \<open>The arithmetic unit has computed the target of a jump.\<close>

definition jump_ok :: "TraceConsistency \<Rightarrow> nat \<Rightarrow> Protoboard \<Rightarrow> bool" where
  "jump_ok g n pb \<longleftrightarrow> (mi_opcode (code (tc_program g) ! n) \<in> {Op_JMP, Op_CJMP, Op_CNJMP} \<longrightarrow>
     (\<exists>t. jump_target g n pb = Inr t \<and> val pb (out_result (tc_aluOutput g)) = fe (take_bit (length (tr_pc (tc_first g))) t)))"

definition knows_degree :: "TraceConsistency \<Rightarrow> Protoboard \<Rightarrow> bool" where
  "knows_degree g pb \<longleftrightarrow> val pb (tr_timeStamp (tc_first g)) = 1 \<or> \<not> isl (getDegreeOfFElem (val pb (tr_timeStamp (tc_first g))) pb)"

lemma pc_branch_ok:
  assumes "tc_wf g" "reads_pc pb (tr_pc (tc_first g)) n" "jump_ok g n pb"
  shows "\<exists>N. pc_branch g n pb = Inr N \<and> fe (take_bit (length (tr_pc (tc_first g))) N) = expected_pc g pb n"
proof -
  have len: "length (tr_pc (tc_first g)) \<le> 32" using assms(1) by (simp add: tc_wf_def)
  have "n < 2 ^ length (tr_pc (tc_first g))" using assms(2) by (simp add: reads_pc_def)
  then have "fe (take_bit (length (tr_pc (tc_first g))) n) = pc_value (tc_first g) pb"
    using reads_pc_value [OF assms(2)] len by (simp add: take_bit_nat_eq_self)
  then show ?thesis using assms(3) next_line_value [OF len, of n] by (auto simp: pc_branch_def expected_pc_def jump_ok_def Let_def)
qed

lemma tc_before_registers:
  assumes "tc_wf g" "pb_inv pb" "n < program_size (tc_program g)" "reads_pc pb (tr_pc (tc_first g)) n" "jump_ok g n pb" "knows_degree g pb"
  shows "\<exists>u. TraceConsistency_generateWitness g n pb = registersWitness g n u
    \<and> changes (insert (var_index (tr_timeStamp (tc_second g))) (var_index ` set (tr_pc (tc_second g)))) pb u
    \<and> val u (tr_timeStamp (tc_second g)) = val pb (tr_timeStamp (tc_first g)) * getGF2E_X \<and> pc_value (tc_second g) u = expected_pc g pb n"
proof -
  let ?t = "tr_timeStamp (tc_second g)" and ?f = "tc_first g"
  have d: "var_index ?t \<notin> var_index ` set (tr_pc (tc_second g))" "distinct (map var_index (tr_pc (tc_second g)))" "var_index (tr_timeStamp ?f) \<noteq> var_index ?t"
    using assms(1) by (auto simp: tc_wf_def tc_written_def trace_vars_def)
  have "\<exists>d. val pb (tr_timeStamp ?f) = 1 \<and> d = 0 \<or> getDegreeOfFElem (val pb (tr_timeStamp ?f)) pb = Inr d \<and> val pb (tr_timeStamp ?f) \<noteq> 1"
    using assms(6) by (cases "getDegreeOfFElem (val pb (tr_timeStamp ?f)) pb") (auto simp: knows_degree_def)
  then obtain v where v: "timeStampWitness g pb = Inr v" "changes {var_index ?t} pb v" "val v ?t = val pb (tr_timeStamp ?f) * getGF2E_X"
    using timeStampWitness_ok [OF assms(2) d(3)] by blast
  have same: "\<forall>x \<in> tc_read g. val v x = val pb x" by (rule tc_read_frame [OF assms(1) v(2)]) (simp add: tc_written_def)
  have regs: "val v (tr_registers ?f ! i) = val pb (tr_registers ?f ! i)" if "i < length (tr_registers ?f)" for i
    using same that by (simp add: tc_read_def trace_vars_def)
  have "jump_target g n v = jump_target g n pb" using regs by (auto simp: jump_target_def Let_def register_at_def)
  moreover have "reads_pc v (tr_pc ?f) n"
    by (rule reads_pc_changes [OF assms(4) v(2)]) (use assms(1) in \<open>auto simp: tc_wf_def tc_written_def trace_vars_def\<close>)
  moreover have "val v (out_result (tc_aluOutput g)) = val pb (out_result (tc_aluOutput g))" using same by (simp add: tc_read_def)
  ultimately obtain N where N: "pc_branch g n v = Inr N" "fe (take_bit (length (tr_pc ?f)) N) = expected_pc g v n"
    using pc_branch_ok [OF assms(1), of v n] assms(5) by (auto simp: jump_ok_def)
  let ?u = "write_pc (tr_pc (tc_second g)) N v"
  have len: "pcLength (tc_program g) = Inr (length (tr_pc ?f))" "length (tr_pc (tc_second g)) = length (tr_pc ?f)" "length (tr_pc ?f) \<le> 32"
    using assms(1) by (simp_all add: tc_wf_def)
  have inv: "pb_inv v" using changesD(2) [OF v(2)] .
  have c: "changes (var_index ` set (tr_pc (tc_second g))) v ?u" using write_pc_facts [OF inv d(2)] by blast
  have "TraceConsistency_generateWitness g n pb = registersWitness g n ?u"
    using assms(3) by (simp add: generateWitness_branch v(1) N(1) pcWitness_def len(1,2))
  moreover have "pc_value (tc_second g) ?u = expected_pc g pb n"
    using write_pc_value [OF inv d(2), of N] N(2) len(2,3) expected_frame(2) [OF same] by (simp add: pc_value_def)
  moreover have "val ?u ?t = val pb (tr_timeStamp ?f) * getGF2E_X" using changesD(5) [OF c d(1)] v(3) by simp
  ultimately show ?thesis using changes_trans [OF v(2) c] by auto
qed

lemma tc_witness:
  assumes "tc_wf g" "pb_inv pb" "n < program_size (tc_program g)" "reads_pc pb (tr_pc (tc_first g)) n" "jump_ok g n pb" "knows_degree g pb"
    and "supported g (code (tc_program g) ! n)"
    "mi_opcode (code (tc_program g) ! n) = Op_CMPGE \<Longrightarrow> length (tr_registers (tc_first g)) \<le> as_unsigned (destIdx (code (tc_program g) ! n))"
  shows "\<exists>w. TraceConsistency_generateWitness g n pb = Inr w \<and> trace_step g w n \<and> changes (var_index ` set (tc_written g)) pb w"
proof -
  let ?rs = "tr_registers (tc_second g)" and ?k = "length (tr_registers (tc_first g))"
  let ?V = "insert (var_index (tr_timeStamp (tc_second g))) (var_index ` set (tr_pc (tc_second g)))"
  have k: "length ?rs = ?k" using assms(1) by (simp add: tc_wf_def)
  obtain u where u: "TraceConsistency_generateWitness g n pb = registersWitness g n u" "changes ?V pb u"
    "val u (tr_timeStamp (tc_second g)) = val pb (tr_timeStamp (tc_first g)) * getGF2E_X" "pc_value (tc_second g) u = expected_pc g pb n"
    using tc_before_registers [OF assms(1-6)] by blast
  obtain w where w: "registersWitness g n u = Inr w" "changes (var_index ` set ?rs) u w" "\<forall>i < ?k. val w (?rs ! i) = expected_register g u n i"
    using registers_loop [OF assms(1) changesD(2) [OF u(2)] assms(7) order_refl assms(8)] by (auto simp: registersWitness_def k)
  have c: "changes (var_index ` set (tc_written g)) pb w"
    using changes_trans [OF u(2) w(2)] by (simp add: tc_written_def image_Un)
  have e: "\<forall>v \<in> tc_read g. val u v = val pb v" "\<forall>v \<in> tc_read g. val w v = val pb v"
    using tc_read_frame [OF assms(1) u(2)] tc_read_frame [OF assms(1) c] by (auto simp: tc_written_def)
  have out: "var_index v \<notin> var_index ` set ?rs" if "v \<in> insert (tr_timeStamp (tc_second g)) (set (tr_pc (tc_second g)))" for v
    using assms(1) that by (auto simp: tc_wf_def tc_written_def)
  have "pc_value (tc_second g) w = pc_value (tc_second g) u" unfolding pc_value_def
    by (intro arg_cong [where f = "pack_sum 1"] map_cong refl changesD(5) [OF w(2)] out) simp
  moreover have "val w (tr_timeStamp (tc_second g)) = val u (tr_timeStamp (tc_second g))" by (rule changesD(5) [OF w(2) out]) simp
  moreover have "val w (tr_timeStamp (tc_first g)) = val pb (tr_timeStamp (tc_first g))" using e(2) by (simp add: tc_read_def trace_vars_def)
  ultimately have "trace_step g w n"
    using u(3,4) w(3) expected_frame(1) [OF e(1)] expected_frame(1) [OF e(2)] expected_frame(2) [OF e(2)] by (simp add: trace_step_def k)
  then show ?thesis using u(1) w(1) c by simp
qed

section \<open>Instructions that end in a fatal error\<close>

lemma register_choice_failure: "isl (register_choice i inst) \<Longrightarrow> register_choice i inst = Inl Fatal"
  by (auto simp: register_choice_def split: if_splits)

lemma registerConsistency_at_failure:
  assumes "tc_wf g" "isl (registerConsistency_at g i)"
  shows "registerConsistency_at g i = Inl Fatal"
proof (cases "res_list (map (register_choice i) (code (tc_program g)))")
  case (Inl x)
  then obtain inst where "inst \<in> set (code (tc_program g))" "isl (register_choice i inst)"
    using res_list_eq_Inr [of "map (register_choice i) (code (tc_program g))" "map (projr \<circ> register_choice i) (code (tc_program g))"] by fastforce
  then have "res_list (map (register_choice i) (code (tc_program g))) = Inl Fatal"
    by (intro res_list_failure [of "register_choice i inst"]) (auto dest: register_choice_failure)
  then show ?thesis by (simp add: registerConsistency_at_def Let_def)
next
  case (Inr s2c)
  then show ?thesis using assms(2) selector_total pc_nonempty [OF assms(1)]
    by (auto simp: registerConsistency_at_def Let_def make_SelectorSum_all_def getPCVars_eq)
qed

lemma unsupported_constraints:
  assumes "tc_wf g" "inst \<in> set (code (tc_program g))" "\<not> supported g inst"
  shows "TraceConsistency_constraints g = Inl Fatal"
proof -
  let ?i = "as_unsigned (destIdx inst)" and ?k = "length (tr_registers (tc_first g))"
  have i: "?i < ?k" "register_choice ?i inst = Inl Fatal" using assms(3) by (auto simp: supported_def register_choice_def)
  have "register_choice ?i inst \<in> set (map (register_choice ?i) (code (tc_program g)))" using assms(2) by simp
  from res_list_failure [OF this, of Fatal] have "res_list (map (register_choice ?i) (code (tc_program g))) = Inl Fatal"
    using i(2) by (auto dest: register_choice_failure)
  then have c: "registerConsistency_at g ?i = Inl Fatal" by (simp add: registerConsistency_at_def Let_def)
  have "registerConsistency_at g ?i \<in> set (map (registerConsistency_at g) [0..<?k])" using i(1) by simp
  from res_list_failure [OF this, of Fatal] have "res_list (map (registerConsistency_at g) [0..<?k]) = Inl Fatal"
    using c by (auto dest: registerConsistency_at_failure [OF assms(1)])
  moreover have "program_size (tc_program g) \<noteq> 0" using assms(2) by (auto simp: program_size_def)
  moreover obtain p nm where "pcConsistency g = Inr (p, nm)" using pcConsistency_ok [OF assms(1)] by blast
  ultimately show ?thesis using assms(1) by (simp add: TraceConsistency_constraints_def registerConsistency_def tc_wf_def)
qed

lemma fold_res_failure: "fold (\<lambda>i st. res_bind st (f i)) xs (Inl e) = Inl e"
  by (induction xs) simp_all

lemma cmpge_witness:
  assumes "tc_wf g" "pb_inv pb" "n < program_size (tc_program g)" "reads_pc pb (tr_pc (tc_first g)) n" "knows_degree g pb"
    and "mi_opcode (code (tc_program g) ! n) = Op_CMPGE" "as_unsigned (destIdx (code (tc_program g) ! n)) < length (tr_registers (tc_first g))"
  shows "TraceConsistency_generateWitness g n pb = Inl Fatal"
proof -
  let ?inst = "code (tc_program g) ! n" and ?k = "length (tr_registers (tc_first g))"
  let ?d = "as_unsigned (destIdx ?inst)" and ?F = "\<lambda>i st. res_bind st (register_witness g ?inst i)"
  have "jump_ok g n pb" using assms(6) by (simp add: jump_ok_def)
  then obtain u where u: "TraceConsistency_generateWitness g n pb = registersWitness g n u" "pb_inv u"
    using tc_before_registers [OF assms(1-4) _ assms(5)] changesD(2) by blast
  have "supported g ?inst" using assms(6) by (simp add: supported_def keep_opcodes_def)
  then obtain w where "fold ?F [0..<?d] (Inr u) = Inr w"
    using registers_loop [OF assms(1) u(2), of n ?d] assms(7) by auto
  moreover have "register_witness g ?inst ?d w = Inl Fatal" using assms(6) by (simp add: register_witness_def Let_def result_opcodes_def)
  moreover have "[0..<?k] = [0..<?d] @ ?d # [Suc ?d..<?k]" using assms(7) by (metis le_add_diff_inverse less_imp_le_nat upt_add_eq_append upt_conv_Cons zero_le)
  ultimately have "fold ?F [0..<?k] (Inr u) = Inl Fatal" by (simp add: fold_res_failure)
  then show ?thesis using u(1) assms(1) by (simp add: registersWitness_def tc_wf_def)
qed

section \<open>Correctness\<close>

text \<open>Property C40. On a board whose program counter reads line \<open>n\<close>, the constraints of \<open>TraceConsistency\<close> hold exactly
  when the second line of the trace follows from the first by the instruction at line \<open>n\<close>: the time stamp is
  multiplied by the generator, the program counter is the jump target, the same line for \<open>ANSWER\<close> or the next line,
  and a register changes only if it is the destination of an instruction that writes one. The witness code makes
  this step and changes only the second line. A program with an opcode that \<open>registerConsistency\<close> does not list ends
  in a fatal error, and so does the witness code for \<open>CMPGE\<close>, which \<open>registersWitness\<close> does not list although the
  constraints accept it. An empty program and a line number beyond the program fail an assertion.\<close>

theorem trace_consistency_correct:
  assumes "pb_inv pb"
  shows "(tc_wf g \<longrightarrow> all_supported g \<longrightarrow> on_line g n pb \<longrightarrow> (\<exists>pb'. TraceConsistency_generateConstraints g pb = Inr pb' \<and>
        (pb_isSatisfied Op_NONE pb' = Inr True \<longleftrightarrow> pb_isSatisfied Op_NONE pb = Inr True \<and> trace_step g pb n)))
    \<and> (tc_wf g \<longrightarrow> n < program_size (tc_program g) \<longrightarrow> reads_pc pb (tr_pc (tc_first g)) n \<longrightarrow> jump_ok g n pb \<longrightarrow> knows_degree g pb \<longrightarrow>
        supported g (code (tc_program g) ! n) \<longrightarrow>
        (if mi_opcode (code (tc_program g) ! n) = Op_CMPGE \<and> as_unsigned (destIdx (code (tc_program g) ! n)) < length (tr_registers (tc_first g))
         then TraceConsistency_generateWitness g n pb = Inl Fatal
         else \<exists>w. TraceConsistency_generateWitness g n pb = Inr w \<and> trace_step g w n \<and> changes (var_index ` set (tc_written g)) pb w))
    \<and> (tc_wf g \<longrightarrow> \<not> all_supported g \<longrightarrow> TraceConsistency_generateConstraints g pb = Inl Fatal)
    \<and> (program_size (tc_program g) = 0 \<longrightarrow> TraceConsistency_generateConstraints g pb = Inl AssertFailed)
    \<and> (program_size (tc_program g) \<le> n \<longrightarrow> TraceConsistency_generateWitness g n pb = Inl AssertFailed)"
proof (intro conjI impI)
  assume a: "tc_wf g" "all_supported g" "on_line g n pb"
  obtain cs where cs: "TraceConsistency_constraints g = Inr cs" "(\<forall>(p, nm) \<in> set cs. holds pb p) \<longleftrightarrow> trace_step g pb n"
    using tc_holds [OF a(1,2)] a(3) by blast
  show "\<exists>pb'. TraceConsistency_generateConstraints g pb = Inr pb' \<and> (pb_isSatisfied Op_NONE pb' = Inr True \<longleftrightarrow> pb_isSatisfied Op_NONE pb = Inr True \<and> trace_step g pb n)"
    using cs add_constraints_isSatisfied [OF assms] by (simp add: TraceConsistency_generateConstraints_def)
next
  assume a: "tc_wf g" "n < program_size (tc_program g)" "reads_pc pb (tr_pc (tc_first g)) n" "jump_ok g n pb" "knows_degree g pb" "supported g (code (tc_program g) ! n)"
  show "if mi_opcode (code (tc_program g) ! n) = Op_CMPGE \<and> as_unsigned (destIdx (code (tc_program g) ! n)) < length (tr_registers (tc_first g))
     then TraceConsistency_generateWitness g n pb = Inl Fatal
     else \<exists>w. TraceConsistency_generateWitness g n pb = Inr w \<and> trace_step g w n \<and> changes (var_index ` set (tc_written g)) pb w"
    using cmpge_witness [OF a(1) assms a(2,3,5)] tc_witness [OF a(1) assms a(2-6)] by (auto simp: not_less)
next
  show "TraceConsistency_generateConstraints g pb = Inl Fatal" if "tc_wf g" "\<not> all_supported g"
    using unsupported_constraints [OF that(1)] that(2) by (auto simp: TraceConsistency_generateConstraints_def all_supported_def)
qed (auto simp: TraceConsistency_generateConstraints_def TraceConsistency_constraints_def TraceConsistency_generateWitness_def)

definition sample_step :: TraceConsistency where
  "sample_step = \<lparr>tc_aluOutput = \<lparr>out_flag = sample_var 5, out_result = sample_var 8, out_isMemOp = sample_var 10, out_address = sample_var 12, out_isLoadOp = sample_var 11, out_value = sample_var 9\<rparr>,
     tc_following = \<lparr>ft_first = \<lparr>tr_timeStamp = sample_var 0, tr_flag = sample_var 1, tr_pc = [sample_var 2], tr_registers = [sample_var 3]\<rparr>,
       ft_second = \<lparr>tr_timeStamp = sample_var 4, tr_flag = sample_var 5, tr_pc = [sample_var 6], tr_registers = [sample_var 7]\<rparr>\<rparr>,
     tc_program = \<lparr>program_name = ''p'', archParams = \<lparr>numRegisters = 1, arch_registerLength = 16\<rparr>,
       code = [\<lparr>mi_opcode = Op_MOV, arg2isImmediate = True, destIdx = 0, arg1Idx = 0, arg2IdxOrImmediate = 7\<rparr>,
         \<lparr>mi_opcode = Op_ANSWER, arg2isImmediate = True, destIdx = 0, arg1Idx = 0, arg2IdxOrImmediate = 0\<rparr>]\<rparr>\<rparr>"

definition sample_line :: Protoboard where
  "sample_line = set_val (sample_var 8) (fe 7) (set_val (sample_var 2) 0 (set_val (sample_var 0) 1 (Protoboard_create 0)))"

theorem trace_consistency_correct_witness:
  "\<exists>w. TraceConsistency_generateWitness sample_step 0 sample_line = Inr w \<and> trace_step sample_step w 0"
proof -
  have inv: "pb_inv sample_line" by (simp add: sample_line_def pb_inv_create)
  have wf: "tc_wf sample_step"
    by (simp add: tc_wf_def sample_step_def pcLength_def Log2ceiled_def floorlog_def program_size_def tc_written_def trace_vars_def sample_var_def)
  have n: "0 < program_size (tc_program sample_step)" by (simp add: sample_step_def program_size_def)
  have r: "reads_pc sample_line (tr_pc (tc_first sample_step)) 0"
    by (simp add: reads_pc_def sample_step_def sample_line_def sample_var_def pb_inv_create)
  have j: "jump_ok sample_step 0 sample_line" by (simp add: jump_ok_def sample_step_def)
  have k: "knows_degree sample_step sample_line" by (simp add: knows_degree_def sample_step_def sample_line_def sample_var_def pb_inv_create)
  have s: "supported sample_step (code (tc_program sample_step) ! 0)" by (simp add: supported_def sample_step_def result_opcodes_def)
  from trace_consistency_correct [OF inv, of sample_step 0, THEN conjunct2, THEN conjunct1, rule_format, OF wf n r j k s]
  show ?thesis by (auto simp: sample_step_def)
qed

end
