(* ===== verification/AluShift.thy ===== *)
theory AluShift
  imports AluArith BitExtract
begin

text \<open>
  The shifts, \<open>ALU_SHL_Gadget\<close> and \<open>ALU_SHR_Gadget\<close> of \<open>ALU.cpp\<close>. The low four bits of the second argument are
  variables; that the rest of it has these bits 0 is stated with the constants of \<open>BitExtract\<close>. The first argument
  is multiplied by powers of the generator, to a word of twice the length whose low or high half is the result.
  The shared variables of \<open>opcodeAux1_\<close> hold the bits, their witnesses and, at the end, four single values.
\<close>

section \<open>The gadgets\<close>

abbreviation auxArr :: "ALU_Component_Gadget \<Rightarrow> Variable list" where "auxArr g \<equiv> opcodeAux1 (vars g)"

definition registerLogLen :: "ALU_Component_Gadget \<Rightarrow> nat" where
  "registerLogLen g = floorlog 2 (registerLength g) - 1"

definition shift_dRes :: "ALU_Component_Gadget \<Rightarrow> Variable" where "shift_dRes g = auxArr g ! (registerLength g - 1)"
definition shift_rem :: "ALU_Component_Gadget \<Rightarrow> Variable" where "shift_rem g = auxArr g ! (registerLength g - 2)"
definition shift_invRem :: "ALU_Component_Gadget \<Rightarrow> Variable" where "shift_invRem g = auxArr g ! (registerLength g - 3)"
definition shift_witnessFlag :: "ALU_Component_Gadget \<Rightarrow> Variable" where "shift_witnessFlag g = auxArr g ! (registerLength g - 4)"

definition shift_bits :: "ALU_Component_Gadget \<Rightarrow> Variable list" where
  "shift_bits g = map (\<lambda>i. auxArr g ! i) [0..<registerLogLen g]"

definition unpackDouble_g :: "Opcode \<Rightarrow> ALU_Component_Gadget \<Rightarrow> DoubleUnpack_Gadget" where
  "unpackDouble_g op g = \<lparr>du_unpacked1 = unpackedArg1 (vars g), du_unpacked2 = unpackedArg2 (vars g), du_packed = shift_dRes g, du_opcode = op\<rparr>"

text \<open>The constants of the bits below 16 are in the table.\<close>

definition bit_const :: "nat \<Rightarrow> FElem" where
  "bit_const i = (case invExtrConsts (int i) of Inr c \<Rightarrow> c | Inl e \<Rightarrow> 0)"

definition trace_witness :: "nat \<Rightarrow> Variable \<Rightarrow> CircuitPolynomial" where
  "trace_witness i w = cp_times (cp_plus (var_times w w) (cp_var w)) (cp_const (bit_const i))"

definition var_term :: "Variable \<Rightarrow> FElem \<Rightarrow> LinearTerm" where
  "var_term v c = LinearTerm_times (LinearTerm_of v) c"

definition shift_bit_constraints :: "Opcode \<Rightarrow> ALU_Component_Gadget \<Rightarrow> tagged list" where
  "shift_bit_constraints op g = concat (map (\<lambda>i. tag op [bool_constraint (auxArr g ! i),
     (cp_plus (trace_witness i (auxArr g ! (i + registerLogLen g))) (cp_var (shift_rem g)), ''traceWitness'')]) [0..<registerLogLen g])"

text \<open>The loop \<open>tmpPoly = tmpPoly * (1 + v + v * x_i)\<close>, where \<open>x_i\<close> is squared, and the factor of the remainder.\<close>

definition shift_product :: "Variable list \<Rightarrow> CircuitPolynomial \<Rightarrow> FElem \<Rightarrow> CircuitPolynomial" where
  "shift_product vs p x = fst (fold (\<lambda>v (tmpPoly, x_i).
     (cp_times tmpPoly (cp_lc (lc_plus (lc_plus (lc_var v) (lc_const 1)) (lc_term (var_term v x_i)))), x_i * x_i)) vs (p, x))"

definition rem_factor :: "ALU_Component_Gadget \<Rightarrow> CircuitPolynomial" where
  "rem_factor g = cp_plus (var_times (shift_rem g) (shift_invRem g)) (cp_const 1)"

definition shift_result_constraints :: "Opcode \<Rightarrow> ALU_Component_Gadget \<Rightarrow> CircuitPolynomial \<Rightarrow> FElem \<Rightarrow> Variable list \<Rightarrow> tagged list" where
  "shift_result_constraints op g p x packed =
     [(op, cp_plus (cp_times (shift_product (shift_bits g) p x) (rem_factor g)) (cp_var (shift_dRes g)), ''doubleResult = tmpPoly''),
      (op, cp_times (rem_factor g) (cp_var (shift_rem g)), ''rem*(rem * invRem + 1)'')]
     @ (if standAlone g then tag op (DoubleUnpack_constraints (unpackDouble_g op g)) else [])
     @ tag op (CompressionPacking_constraints (packer op packed (out_result (results g))))
     @ [isMemOp_zero op g]"

definition SHL_constraints :: "ALU_Component_Gadget \<Rightarrow> tagged list" where
  "SHL_constraints g = shift_bit_constraints Op_SHL g
     @ [(Op_SHL, cp_lc (lc_plus (lc_plus (fst (pack_loop (shift_bits g) (lc_const 0, 1))) (lc_var (shift_rem g))) (lc_var (arg2_val (inputs g)))), ''[A] = tmpPoly''),
        (Op_SHL, cp_plus (cp_plus (trace_witness (registerLength g - 1) (shift_witnessFlag g)) (cp_var (arg1_val (inputs g))))
           (cp_term (var_term (out_flag (results g)) (power_fe getGF2E_X (int (registerLength g) - 1)))), ''flagWitness'')]
     @ tag Op_SHL [bool_constraint (out_flag (results g))]
     @ shift_result_constraints Op_SHL g (cp_var (arg1_val (inputs g))) getGF2E_X (unpackedArg1 (vars g))"

definition SHR_sum :: "Variable list \<Rightarrow> CircuitPolynomial" where
  "SHR_sum vs = fst (fold (\<lambda>v (tmpPoly, x_i). (cp_plus tmpPoly (cp_term (var_term v x_i)), x_i * getGF2E_X)) vs (cp_const 0, 1))"

definition SHR_constraints :: "ALU_Component_Gadget \<Rightarrow> tagged list" where
  "SHR_constraints g = shift_bit_constraints Op_SHR g
     @ [(Op_SHR, cp_plus (cp_plus (SHR_sum (shift_bits g)) (cp_var (shift_rem g))) (cp_var (arg2_val (inputs g))), ''[A] = tmpPoly''),
        (Op_SHR, cp_plus (cp_plus (trace_witness 0 (shift_witnessFlag g)) (cp_var (arg1_val (inputs g)))) (cp_var (out_flag (results g))), ''flagWitness'')]
     @ tag Op_SHR [bool_constraint (out_flag (results g))]
     @ shift_result_constraints Op_SHR g (cp_term (var_term (arg1_val (inputs g)) (power_fe getGF2E_X (int (registerLength g))))) (inverse getGF2E_X) (unpackedArg2 (vars g))"

section \<open>The witness\<close>

text \<open>The loop that takes the low bits of the second argument.\<close>

definition shift_take :: "ALU_Component_Gadget \<Rightarrow> nat list \<Rightarrow> Protoboard \<times> size_t \<Rightarrow> Protoboard \<times> size_t" where
  "shift_take g is = fold (\<lambda>i (pb, r). let mask = push_bit i 1 in (set_val (auxArr g ! i) (if r AND mask \<noteq> 0 then 1 else 0) pb, r AND NOT mask)) is"

definition shift_extract :: "ALU_Component_Gadget \<Rightarrow> FElem \<Rightarrow> nat list \<Rightarrow> Protoboard \<Rightarrow> Protoboard result" where
  "shift_extract g remainder is pb = fold (\<lambda>i st. res_bind st (\<lambda>pb.
     res_map (\<lambda>y. set_val (auxArr g ! (i + registerLogLen g)) y pb) (extractBit remainder (int i)))) is (Inr pb)"

definition shift_double :: "ALU_Component_Gadget \<Rightarrow> FElem \<Rightarrow> size_t \<Rightarrow> size_t \<Rightarrow> Protoboard \<Rightarrow> Protoboard" where
  "shift_double g remainder r doubleRes pb = (if r \<noteq> 0
     then set_val (shift_dRes g) 0 (set_val (shift_invRem g) (inverse remainder) pb)
     else set_val (shift_dRes g) (mapIntegerToFieldElement 0 ExtensionDegree doubleRes) (set_val (shift_invRem g) 0 pb))"

definition SHL_generateWitness :: "ALU_Component_Gadget \<Rightarrow> Protoboard \<Rightarrow> Protoboard result" where
  "SHL_generateWitness g pb = (let pb = alu_init g pb;
     operand2 = mapFieldElementToInteger 0 ExtensionDegree (val pb (arg2_val (inputs g)));
     (pb, r) = shift_take g [0..<registerLogLen g] (pb, operand2);
     remainder = mapIntegerToFieldElement 0 ExtensionDegree r;
     pb = set_val (shift_rem g) remainder pb
     in res_bind (shift_extract g remainder [0..<registerLogLen g] pb) (\<lambda>pb. let
     doubleRes = mapFieldElementToInteger 0 ExtensionDegree (val pb (arg1_val (inputs g)));
     fToggled = mapIntegerToFieldElement 0 ExtensionDegree (doubleRes AND NOT (push_bit (registerLength g - 1) 1));
     pb = set_val (out_flag (results g)) (if drop_bit (registerLength g - 1) doubleRes \<noteq> 0 then 1 else 0) pb
     in res_map (\<lambda>y. let pb = set_val (shift_witnessFlag g) y pb;
       pb = shift_double g remainder r (if sint operand2 \<ge> int (registerLength g) then 0 else push_bit (unat operand2) doubleRes) pb;
       pb = DoubleUnpack_generateWitness (unpackDouble_g Op_SHL g) pb
       in CompressionPacking_generateWitness (packer Op_SHL (unpackedArg1 (vars g)) (out_result (results g))) pb)
     (extractBit fToggled (int (registerLength g) - 1))))"

definition SHR_generateWitness :: "ALU_Component_Gadget \<Rightarrow> Protoboard \<Rightarrow> Protoboard result" where
  "SHR_generateWitness g pb = (let pb = alu_init g pb;
     operand2 = mapFieldElementToInteger 0 ExtensionDegree (val pb (arg2_val (inputs g)));
     (pb, r) = shift_take g [0..<registerLogLen g] (pb, operand2);
     remainder = mapIntegerToFieldElement 0 ExtensionDegree r;
     pb = set_val (shift_rem g) remainder pb
     in res_bind (shift_extract g remainder [0..<registerLogLen g] pb) (\<lambda>pb. let
     operand1 = val pb (arg1_val (inputs g));
     doubleRes = mapFieldElementToInteger 0 ExtensionDegree operand1;
     fRes = mapIntegerToFieldElement 0 1 doubleRes;
     pb = set_val (out_flag (results g)) fRes pb
     in res_map (\<lambda>y. let pb = set_val (shift_witnessFlag g) y pb;
       pb = shift_double g remainder r (if sint operand2 \<ge> int (registerLength g) then 0 else push_bit (registerLength g - unat operand2) doubleRes) pb;
       pb = DoubleUnpack_generateWitness (unpackDouble_g Op_SHR g) pb
       in CompressionPacking_generateWitness (packer Op_SHR (unpackedArg2 (vars g)) (out_result (results g))) pb)
     (extractBit (operand1 + fRes) 0)))"

section \<open>What the constraints say\<close>

lemma registerLogLen_4: "alu_wf g \<Longrightarrow> registerLogLen g = 4"
  using floorlog_power [of 1 2 4] by (simp add: registerLogLen_def alu_lengths floorlog_def)

lemma shift_positions:
  assumes "alu_wf g"
  shows "var_index (shift_dRes g) = ix g 58" "var_index (shift_rem g) = ix g 57" "var_index (shift_invRem g) = ix g 56" "var_index (shift_witnessFlag g) = ix g 55"
    "i < 16 \<Longrightarrow> var_index (auxArr g ! i) = ix g (43 + i)"
  using arr_index [OF alu_arrays(3) [OF assms]]
  by (simp_all add: shift_dRes_def shift_rem_def shift_invRem_def shift_witnessFlag_def alu_lengths [OF assms])

lemma shift_members:
  assumes "alu_wf g"
  shows "{shift_dRes g, shift_rem g, shift_invRem g, shift_witnessFlag g} \<subseteq> set (alu_vars g)" "i < 16 \<Longrightarrow> auxArr g ! i \<in> set (alu_vars g)"
  using alu_lengths [OF assms]
  by (simp_all add: shift_dRes_def shift_rem_def shift_invRem_def shift_witnessFlag_def alu_vars_members)

lemma shift_bits_4: "alu_wf g \<Longrightarrow> shift_bits g = map (\<lambda>i. auxArr g ! i) [0..<4]"
  by (simp add: shift_bits_def registerLogLen_4)

lemma bit_const: "i < 16 \<Longrightarrow> invExtrConsts (int i) = Inr (bit_const i)"
proof -
  assume "i < 16"
  then have "i \<in> set [0..<16]" by simp
  also have "[0..<16] = [0, 1, 2, 3, 4, 5, 6, 7, 8, 9, 10, 11, 12, 13, 14, 15 :: nat]" by code_simp
  finally show ?thesis by (auto simp: bit_const_def invExtrConsts_def invExtr_position_def)
qed

fun shift_prod :: "FElem \<Rightarrow> FElem list \<Rightarrow> FElem" where
  "shift_prod x [] = 1"
| "shift_prod x (v # vs) = (v + 1 + x * v) * shift_prod (x * x) vs"

lemma shift_product_facts:
  "pv pb (shift_product vs p x) = pv pb p * shift_prod x (map (val pb) vs)"
  "plain p \<Longrightarrow> plain (shift_product vs p x)" "cp_over V p \<Longrightarrow> set vs \<subseteq> V \<Longrightarrow> cp_over V (shift_product vs p x)"
proof -
  have e: "shift_product (v # vs) p x = shift_product vs (cp_times p (cp_lc (lc_plus (lc_plus (lc_var v) (lc_const 1)) (lc_term (var_term v x))))) (x * x)" for v vs p x
    by (simp add: shift_product_def)
  have n: "shift_product [] p x = p" for p x by (simp add: shift_product_def)
  have o: "lc_over V (lc_term (var_term v x))" if "v \<in> V" for v x
    using that by (auto simp: lc_over_def lc_term_def lc_vars_def var_term_def LinearTerm_times_def LinearTerm_of_def)
  show "pv pb (shift_product vs p x) = pv pb p * shift_prod x (map (val pb) vs)"
    by (induction vs arbitrary: p x) (simp_all add: e n pv_simps lv_simps var_term_def LinearTerm_times_def LinearTerm_of_def mult.assoc)
  show "plain p \<Longrightarrow> plain (shift_product vs p x)" by (induction vs arbitrary: p x) (simp_all add: e n)
  show "cp_over V p \<Longrightarrow> set vs \<subseteq> V \<Longrightarrow> cp_over V (shift_product vs p x)" by (induction vs arbitrary: p x) (simp_all add: e n o)
qed

lemma shift_prod_bool: "shift_prod x (map (\<lambda>b. if b then 1 else 0) bs) = x ^ bits_nat bs"
  by (induction bs arbitrary: x) (simp_all add: power_mult power2_eq_square)

lemma SHR_sum_facts:
  "pv pb (SHR_sum vs) = pack_sum 1 (map (val pb) vs)" "plain (SHR_sum vs)" "set vs \<subseteq> V \<Longrightarrow> cp_over V (SHR_sum vs)"
proof -
  let ?f = "\<lambda>v (tmpPoly, x_i). (cp_plus tmpPoly (cp_term (var_term v x_i)), x_i * getGF2E_X)"
  have o: "cp_over V (cp_term (var_term v x))" if "v \<in> V" for v x V
    using that by (auto simp: cp_over_def cp_term_def lc_term_def lc_const_def lc_vars_def var_term_def LinearTerm_times_def LinearTerm_of_def)
  have "pv pb (fst (fold ?f vs (p, x))) = pv pb p + pack_sum x (map (val pb) vs)" for p x
    by (induction vs arbitrary: p x) (simp_all add: pv_simps var_term_def LinearTerm_times_def LinearTerm_of_def add.assoc mult.commute)
  then show "pv pb (SHR_sum vs) = pack_sum 1 (map (val pb) vs)" by (simp add: SHR_sum_def pv_simps)
  have "plain p \<Longrightarrow> plain (fst (fold ?f vs (p, x)))" for p x by (induction vs arbitrary: p x) simp_all
  then show "plain (SHR_sum vs)" by (simp add: SHR_sum_def)
  have "cp_over V p \<Longrightarrow> set vs \<subseteq> V \<Longrightarrow> cp_over V (fst (fold ?f vs (p, x)))" for p x by (induction vs arbitrary: p x) (simp_all add: o)
  then show "set vs \<subseteq> V \<Longrightarrow> cp_over V (SHR_sum vs)" by (simp add: SHR_sum_def)
qed

text \<open>The equations of a shift.\<close>

definition bit_eqs :: "ALU_Component_Gadget \<Rightarrow> Protoboard \<Rightarrow> bool" where
  "bit_eqs g pb \<longleftrightarrow> (\<forall>i < 4. boolean pb (auxArr g ! i)
     \<and> val pb (shift_rem g) = bit_const i * (val pb (auxArr g ! (i + 4)) * val pb (auxArr g ! (i + 4)) + val pb (auxArr g ! (i + 4))))"

definition du_holds :: "Opcode \<Rightarrow> ALU_Component_Gadget \<Rightarrow> Protoboard \<Rightarrow> bool" where
  "du_holds op g pb \<longleftrightarrow> (standAlone g \<longrightarrow> (\<forall>(p, nm) \<in> set (DoubleUnpack_constraints (unpackDouble_g op g)). holds pb p))"

lemma pv_term: "pv pb (cp_term (var_term v c)) = c * val pb v"
  by (simp add: pv_simps var_term_def LinearTerm_times_def LinearTerm_of_def)

lemma over_term: "v \<in> V \<Longrightarrow> cp_over V (cp_term (var_term v c))"
  by (auto simp: cp_over_def cp_term_def lc_term_def lc_const_def lc_vars_def var_term_def LinearTerm_times_def LinearTerm_of_def)

lemma trace_witness_facts [simp]:
  "pv pb (trace_witness i w) = bit_const i * (val pb w * val pb w + val pb w)" "plain (trace_witness i w)" "w \<in> V \<Longrightarrow> cp_over V (trace_witness i w)"
  by (simp_all add: trace_witness_def var_times_def pv_simps mult.commute)

lemma rem_factor_facts [simp]:
  "pv pb (rem_factor g) = val pb (shift_rem g) * val pb (shift_invRem g) + 1" "plain (rem_factor g)"
  "shift_rem g \<in> V \<Longrightarrow> shift_invRem g \<in> V \<Longrightarrow> cp_over V (rem_factor g)"
  by (simp_all add: rem_factor_def var_times_def pv_simps)

lemma shift_power: "n \<le> 16 \<Longrightarrow> power_fe getGF2E_X (int n) = getGF2E_X ^ n"
  by (simp add: power_fe_unat unsigned_of_nat take_bit_nat_eq_self)

lemma bit_constraints_sat:
  assumes "alu_wf g"
  shows "sat op (shift_bit_constraints op g) pb \<Longrightarrow> bit_eqs g pb"
    and "\<forall>v \<in> set (alu_vars g). assigned pb v \<Longrightarrow> bit_eqs g pb \<Longrightarrow> sat op (shift_bit_constraints op g) pb"
proof -
  let ?p = "\<lambda>i. cp_plus (trace_witness i (auxArr g ! (i + 4))) (cp_var (shift_rem g))"
  have c: "own op (shift_bit_constraints op g) = concat (map (\<lambda>i. [bool_constraint (auxArr g ! i), (?p i, ''traceWitness'')]) [0..<4])"
    unfolding shift_bit_constraints_def registerLogLen_4 [OF assms] by (simp add: own_def tag_def upt_conv_Cons)
  have s: "sat op (shift_bit_constraints op g) pb \<longleftrightarrow> (\<forall>i < 4. holds pb (booleanity (auxArr g ! i)) \<and> holds pb (?p i))"
    unfolding sat_def c by (auto simp: bool_constraint_def)
  have z: "pv pb (?p i) = 0 \<longleftrightarrow> val pb (shift_rem g) = bit_const i * (val pb (auxArr g ! (i + 4)) * val pb (auxArr g ! (i + 4)) + val pb (auxArr g ! (i + 4)))" for i
    by (simp add: pv_simps eq_0_swap)
  have b: "holds pb (booleanity u) \<longleftrightarrow> assigned pb u \<and> boolean pb u" for u by (simp add: holds_iff pv_booleanity boolean_def)
  show "sat op (shift_bit_constraints op g) pb \<Longrightarrow> bit_eqs g pb"
    unfolding s bit_eqs_def b using holds_zero z by (metis plain_simps(2,6) trace_witness_facts(2))
  assume a: "\<forall>v \<in> set (alu_vars g). assigned pb v" and e: "bit_eqs g pb"
  have "holds pb (?p i)" if "i < 4" for i
    using a e that shift_members [OF assms] by (intro holdsI) (simp_all add: z bit_eqs_def)
  then show "sat op (shift_bit_constraints op g) pb" unfolding s b using a e shift_members(2) [OF assms] by (simp add: bit_eqs_def)
qed

definition result_eqs :: "FElem \<Rightarrow> FElem \<Rightarrow> Variable list \<Rightarrow> ALU_Component_Gadget \<Rightarrow> Protoboard \<Rightarrow> bool" where
  "result_eqs b x packed g pb \<longleftrightarrow> val pb (shift_dRes g) = b * shift_prod x (map (val pb) (shift_bits g)) * (val pb (shift_rem g) * val pb (shift_invRem g) + 1)
     \<and> val pb (shift_rem g) * (val pb (shift_rem g) * val pb (shift_invRem g) + 1) = 0
     \<and> val pb (out_result (results g)) = pack_sum 1 (map (val pb) packed) \<and> val pb (out_isMemOp (results g)) = 0"

lemma result_constraints_sat:
  assumes "alu_wf g" "plain p" "length packed = 16"
  shows "sat op (shift_result_constraints op g p x packed) pb \<Longrightarrow> result_eqs (pv pb p) x packed g pb \<and> du_holds op g pb"
    and "\<forall>v \<in> set (alu_vars g). assigned pb v \<Longrightarrow> cp_over (set (alu_vars g)) p \<Longrightarrow> set packed \<subseteq> set (alu_vars g) \<Longrightarrow>
      result_eqs (pv pb p) x packed g pb \<Longrightarrow> du_holds op g pb \<Longrightarrow> sat op (shift_result_constraints op g p x packed) pb"
proof -
  let ?d = "cp_plus (cp_times (shift_product (shift_bits g) p x) (rem_factor g)) (cp_var (shift_dRes g))" and ?r = "cp_times (rem_factor g) (cp_var (shift_rem g))"
  have s: "sat op (shift_result_constraints op g p x packed) pb \<longleftrightarrow> holds pb ?d \<and> holds pb ?r \<and> du_holds op g pb
    \<and> (\<forall>(p, nm) \<in> set (CompressionPacking_constraints (packer op packed (out_result (results g)))). holds pb p) \<and> holds pb (cp_var (out_isMemOp (results g)))"
    by (auto simp: shift_result_constraints_def du_holds_def isMemOp_zero_def)
  have pl: "plain ?d" "plain ?r" using assms(2) by (simp_all add: shift_product_facts(2))
  have z: "pv pb ?d = 0 \<longleftrightarrow> val pb (shift_dRes g) = pv pb p * shift_prod x (map (val pb) (shift_bits g)) * (val pb (shift_rem g) * val pb (shift_invRem g) + 1)"
    "pv pb ?r = 0 \<longleftrightarrow> val pb (shift_rem g) * (val pb (shift_rem g) * val pb (shift_invRem g) + 1) = 0"
    by (simp_all add: pv_simps shift_product_facts(1) eq_0_swap disj_commute)
  show "sat op (shift_result_constraints op g p x packed) pb \<Longrightarrow> result_eqs (pv pb p) x packed g pb \<and> du_holds op g pb"
    unfolding s result_eqs_def using holds_zero [OF pl(1), of pb, unfolded z(1)] holds_zero [OF pl(2), of pb, unfolded z(2)] packer_constraints(1) [OF assms(3)]
      holds_zero [of "cp_var (out_isMemOp (results g))"] by (auto simp: pv_simps)
  assume a: "\<forall>v \<in> set (alu_vars g). assigned pb v" "cp_over (set (alu_vars g)) p" "set packed \<subseteq> set (alu_vars g)" and e: "result_eqs (pv pb p) x packed g pb" "du_holds op g pb"
  have V: "set (alu_vars g) \<subseteq> {v. assigned pb v}" using a(1) by blast
  have m: "{shift_dRes g, shift_rem g, shift_invRem g} \<subseteq> set (alu_vars g)" "set (shift_bits g) \<subseteq> set (alu_vars g)"
    using shift_members [OF assms(1)] by (auto simp: shift_bits_4 [OF assms(1)])
  have o: "cp_over {v. assigned pb v} q" if "cp_over (set (alu_vars g)) q" for q using that V unfolding cp_over_def by blast
  have "holds pb ?d" "holds pb ?r" using m a(2) e(1)
    by (intro holdsI o pl; simp add: z result_eqs_def shift_product_facts(3))+
  moreover have "holds pb (cp_var (out_isMemOp (results g)))" using a(1) e(1) by (intro holdsI) (simp_all add: result_eqs_def pv_simps alu_vars_members)
  moreover have "\<forall>(p, nm) \<in> set (CompressionPacking_constraints (packer op packed (out_result (results g)))). holds pb p"
    using a(1,3) e(1) by (intro packer_constraints(2) [OF assms(3)]) (auto simp: result_eqs_def alu_vars_members)
  ultimately show "sat op (shift_result_constraints op g p x packed) pb" unfolding s using e(2) by blast
qed

text \<open>The constraints before the result: the second argument is the sum of its parts, and the flag is a bit of the first.\<close>

definition input_eqs :: "nat \<Rightarrow> ALU_Component_Gadget \<Rightarrow> Protoboard \<Rightarrow> bool" where
  "input_eqs fb g pb \<longleftrightarrow> bit_eqs g pb \<and> val pb (arg2_val (inputs g)) = pack_sum 1 (map (val pb) (shift_bits g)) + val pb (shift_rem g)
     \<and> val pb (arg1_val (inputs g)) + getGF2E_X ^ fb * val pb (out_flag (results g))
       = bit_const fb * (val pb (shift_witnessFlag g) * val pb (shift_witnessFlag g) + val pb (shift_witnessFlag g))
     \<and> boolean pb (out_flag (results g))"

lemma input_constraints_sat:
  assumes "alu_wf g" "plain q" "pv pb q = val pb (arg2_val (inputs g)) + (pack_sum 1 (map (val pb) (shift_bits g)) + val pb (shift_rem g))"
    "plain r" "pv pb r = bit_const fb * (val pb (shift_witnessFlag g) * val pb (shift_witnessFlag g) + val pb (shift_witnessFlag g))
      + (val pb (arg1_val (inputs g)) + getGF2E_X ^ fb * val pb (out_flag (results g)))"
  shows "sat op (shift_bit_constraints op g @ [(op, q, nq), (op, r, nr)] @ tag op [bool_constraint (out_flag (results g))]) pb \<Longrightarrow> input_eqs fb g pb"
    and "\<forall>v \<in> set (alu_vars g). assigned pb v \<Longrightarrow> cp_over (set (alu_vars g)) q \<Longrightarrow> cp_over (set (alu_vars g)) r \<Longrightarrow> input_eqs fb g pb \<Longrightarrow>
      sat op (shift_bit_constraints op g @ [(op, q, nq), (op, r, nr)] @ tag op [bool_constraint (out_flag (results g))]) pb"
proof -
  have b: "holds pb (booleanity u) \<longleftrightarrow> assigned pb u \<and> boolean pb u" for u by (simp add: holds_iff pv_booleanity boolean_def)
  show "sat op (shift_bit_constraints op g @ [(op, q, nq), (op, r, nr)] @ tag op [bool_constraint (out_flag (results g))]) pb \<Longrightarrow> input_eqs fb g pb"
    using bit_constraints_sat(1) [OF assms(1)] holds_zero [OF assms(2), of pb] holds_zero [OF assms(4), of pb]
    by (auto simp: input_eqs_def assms(3,5) fe_add_eq_0 bool_constraint_def b)
  assume a: "\<forall>v \<in> set (alu_vars g). assigned pb v" "cp_over (set (alu_vars g)) q" "cp_over (set (alu_vars g)) r" and e: "input_eqs fb g pb"
  have o: "cp_over {v. assigned pb v} p" if "cp_over (set (alu_vars g)) p" for p using that a(1) unfolding cp_over_def by blast
  have "holds pb q" "holds pb r" using e by (intro holdsI o a(2,3) assms(2,4); simp add: assms(3,5) input_eqs_def fe_add_eq_0)+
  moreover have "assigned pb (out_flag (results g))" using a(1) by (simp add: alu_vars_members)
  ultimately show "sat op (shift_bit_constraints op g @ [(op, q, nq), (op, r, nr)] @ tag op [bool_constraint (out_flag (results g))]) pb"
    using bit_constraints_sat(2) [OF assms(1) a(1)] e by (simp add: input_eqs_def bool_constraint_def b)
qed

lemma shift_words:
  "arg1_val (inputs g) \<in> set (alu_vars g)" "arg2_val (inputs g) \<in> set (alu_vars g)" "set (unpackedArg1 (vars g)) \<subseteq> set (alu_vars g)" "set (unpackedArg2 (vars g)) \<subseteq> set (alu_vars g)"
  by (auto simp: alu_vars_members)

lemma SHL_sat:
  assumes "alu_wf g"
  shows "sat Op_SHL (SHL_constraints g) pb \<Longrightarrow>
      input_eqs 15 g pb \<and> result_eqs (val pb (arg1_val (inputs g))) getGF2E_X (unpackedArg1 (vars g)) g pb \<and> du_holds Op_SHL g pb"
    and "\<forall>v \<in> set (alu_vars g). assigned pb v \<Longrightarrow> input_eqs 15 g pb \<Longrightarrow> result_eqs (val pb (arg1_val (inputs g))) getGF2E_X (unpackedArg1 (vars g)) g pb \<Longrightarrow>
      du_holds Op_SHL g pb \<Longrightarrow> sat Op_SHL (SHL_constraints g) pb"
proof -
  let ?q = "cp_lc (lc_plus (lc_plus (fst (pack_loop (shift_bits g) (lc_const 0, 1))) (lc_var (shift_rem g))) (lc_var (arg2_val (inputs g))))"
  let ?r = "cp_plus (cp_plus (trace_witness 15 (shift_witnessFlag g)) (cp_var (arg1_val (inputs g)))) (cp_term (var_term (out_flag (results g)) (getGF2E_X ^ 15)))"
  have c: "SHL_constraints g = (shift_bit_constraints Op_SHL g @ [(Op_SHL, ?q, ''[A] = tmpPoly''), (Op_SHL, ?r, ''flagWitness'')] @ tag Op_SHL [bool_constraint (out_flag (results g))])
      @ shift_result_constraints Op_SHL g (cp_var (arg1_val (inputs g))) getGF2E_X (unpackedArg1 (vars g))"
    using shift_power [of 15] by (simp add: SHL_constraints_def alu_lengths [OF assms])
  have m: "set (shift_bits g) \<subseteq> set (alu_vars g)" "shift_rem g \<in> set (alu_vars g)" "shift_witnessFlag g \<in> set (alu_vars g)"
    using shift_members [OF assms] by (auto simp: shift_bits_4 [OF assms])
  have "lc_over (set (alu_vars g)) (fst (pack_loop (shift_bits g) (lc_const 0, 1)))"
    using pack_loop_vars [of "shift_bits g" "lc_const 0" 1] m(1) by (auto simp: lc_over_def lc_const_def lc_vars_def)
  then have o: "cp_over (set (alu_vars g)) ?q" "cp_over (set (alu_vars g)) ?r" using m over_term by (simp_all add: alu_vars_members)
  note i = input_constraints_sat [OF assms, of ?q pb ?r 15 Op_SHL] and t = result_constraints_sat [OF assms, of "cp_var (arg1_val (inputs g))" "unpackedArg1 (vars g)"]
  have v: "pv pb ?q = val pb (arg2_val (inputs g)) + (pack_sum 1 (map (val pb) (shift_bits g)) + val pb (shift_rem g))"
    "pv pb ?r = bit_const 15 * (val pb (shift_witnessFlag g) * val pb (shift_witnessFlag g) + val pb (shift_witnessFlag g)) + (val pb (arg1_val (inputs g)) + getGF2E_X ^ 15 * val pb (out_flag (results g)))"
    by (simp_all add: pv_simps lv_simps lv_pack_loop var_term_def LinearTerm_times_def LinearTerm_of_def ac_simps)
  show "sat Op_SHL (SHL_constraints g) pb \<Longrightarrow>
      input_eqs 15 g pb \<and> result_eqs (val pb (arg1_val (inputs g))) getGF2E_X (unpackedArg1 (vars g)) g pb \<and> du_holds Op_SHL g pb"
    unfolding c sat_simps(3) using i(1) [OF _ v(1) _ v(2)] t(1) [of Op_SHL getGF2E_X pb] by (simp add: alu_lengths [OF assms] pv_simps)
  show "sat Op_SHL (SHL_constraints g) pb" if a: "\<forall>v \<in> set (alu_vars g). assigned pb v" "input_eqs 15 g pb"
    "result_eqs (val pb (arg1_val (inputs g))) getGF2E_X (unpackedArg1 (vars g)) g pb" "du_holds Op_SHL g pb"
    unfolding c sat_simps(3) using i(2) [OF _ v(1) _ v(2) a(1) o a(2)] t(2) [OF _ _ a(1), of getGF2E_X Op_SHL] a(3,4) shift_words(1,3) [of g]
    by (simp add: alu_lengths [OF assms] pv_simps)
qed

lemma SHR_sat:
  assumes "alu_wf g"
  shows "sat Op_SHR (SHR_constraints g) pb \<Longrightarrow>
      input_eqs 0 g pb \<and> result_eqs (getGF2E_X ^ 16 * val pb (arg1_val (inputs g))) (inverse getGF2E_X) (unpackedArg2 (vars g)) g pb \<and> du_holds Op_SHR g pb"
    and "\<forall>v \<in> set (alu_vars g). assigned pb v \<Longrightarrow> input_eqs 0 g pb \<Longrightarrow>
      result_eqs (getGF2E_X ^ 16 * val pb (arg1_val (inputs g))) (inverse getGF2E_X) (unpackedArg2 (vars g)) g pb \<Longrightarrow>
      du_holds Op_SHR g pb \<Longrightarrow> sat Op_SHR (SHR_constraints g) pb"
proof -
  let ?q = "cp_plus (cp_plus (SHR_sum (shift_bits g)) (cp_var (shift_rem g))) (cp_var (arg2_val (inputs g)))"
  let ?r = "cp_plus (cp_plus (trace_witness 0 (shift_witnessFlag g)) (cp_var (arg1_val (inputs g)))) (cp_var (out_flag (results g)))"
  let ?b = "cp_term (var_term (arg1_val (inputs g)) (getGF2E_X ^ 16))"
  have c: "SHR_constraints g = (shift_bit_constraints Op_SHR g @ [(Op_SHR, ?q, ''[A] = tmpPoly''), (Op_SHR, ?r, ''flagWitness'')] @ tag Op_SHR [bool_constraint (out_flag (results g))])
      @ shift_result_constraints Op_SHR g ?b (inverse getGF2E_X) (unpackedArg2 (vars g))"
    using shift_power [of 16] by (simp add: SHR_constraints_def alu_lengths [OF assms])
  have m: "set (shift_bits g) \<subseteq> set (alu_vars g)" "shift_rem g \<in> set (alu_vars g)" "shift_witnessFlag g \<in> set (alu_vars g)"
    using shift_members [OF assms] by (auto simp: shift_bits_4 [OF assms])
  then have o: "cp_over (set (alu_vars g)) ?q" "cp_over (set (alu_vars g)) ?r" using SHR_sum_facts(3) [OF m(1)] by (simp_all add: alu_vars_members)
  note i = input_constraints_sat [OF assms, of ?q pb ?r 0 Op_SHR] and t = result_constraints_sat [OF assms, of ?b "unpackedArg2 (vars g)"]
  have v: "pv pb ?q = val pb (arg2_val (inputs g)) + (pack_sum 1 (map (val pb) (shift_bits g)) + val pb (shift_rem g))"
    "pv pb ?r = bit_const 0 * (val pb (shift_witnessFlag g) * val pb (shift_witnessFlag g) + val pb (shift_witnessFlag g)) + (val pb (arg1_val (inputs g)) + getGF2E_X ^ 0 * val pb (out_flag (results g)))"
    by (simp_all add: pv_simps SHR_sum_facts(1) ac_simps)
  show "sat Op_SHR (SHR_constraints g) pb \<Longrightarrow>
      input_eqs 0 g pb \<and> result_eqs (getGF2E_X ^ 16 * val pb (arg1_val (inputs g))) (inverse getGF2E_X) (unpackedArg2 (vars g)) g pb \<and> du_holds Op_SHR g pb"
    unfolding c sat_simps(3) using i(1) [OF _ v(1) _ v(2)] t(1) [of Op_SHR "inverse getGF2E_X" pb] by (simp add: alu_lengths [OF assms] pv_term SHR_sum_facts(2))
  show "sat Op_SHR (SHR_constraints g) pb" if a: "\<forall>v \<in> set (alu_vars g). assigned pb v" "input_eqs 0 g pb"
    "result_eqs (getGF2E_X ^ 16 * val pb (arg1_val (inputs g))) (inverse getGF2E_X) (unpackedArg2 (vars g)) g pb" "du_holds Op_SHR g pb"
    unfolding c sat_simps(3) using i(2) [OF _ v(1) _ v(2) a(1) o a(2)] t(2) [OF _ _ a(1), of "inverse getGF2E_X" Op_SHR] a(3,4) shift_words(1,4) [of g]
    by (simp add: alu_lengths [OF assms] pv_term SHR_sum_facts(2) over_term)
qed

section \<open>The values of a shift\<close>

lemma fe_shift: "n * 2 ^ m < 2 ^ 64 \<Longrightarrow> fe n * getGF2E_X ^ m = fe (n * 2 ^ m)"
proof (induction m)
  case (Suc m)
  have "n * 2 ^ m < 2 ^ 63" using Suc.prems by simp
  then have "fe n * getGF2E_X ^ m = fe (n * 2 ^ m)" "getGF2E_X * fe (n * 2 ^ m) = fe (2 * (n * 2 ^ m))"
    using Suc.IH fe_xtimes [of "n * 2 ^ m"] by (simp_all add: getGF2E_X_def xtimes_def)
  then show ?case by (simp add: ac_simps)
qed simp

lemma bool_bits: "\<forall>v \<in> set vs. boolean pb v \<Longrightarrow> map (val pb) vs = map (\<lambda>b. if b then 1 else 0) (map (bit_of pb) vs)"
  by (auto simp: boolean_def bit_of_def)

lemma shift_parts:
  assumes "alu_wf g" "bit_eqs g pb" "val pb (arg2_val (inputs g)) = pack_sum 1 (map (val pb) (shift_bits g)) + val pb (shift_rem g)"
  shows "bnum pb (shift_bits g) = take_bit 4 (num pb (arg2_val (inputs g)))" "val pb (shift_rem g) = 0 \<longleftrightarrow> num pb (arg2_val (inputs g)) < 16"
proof -
  let ?k = "bnum pb (shift_bits g)" and ?e = "element (val pb (arg2_val (inputs g)))" and ?r = "element (val pb (shift_rem g))"
  have b: "booleans pb (shift_bits g)" using assms(2) by (auto simp: booleans_def shift_bits_4 [OF assms(1)] bit_eqs_def)
  have l: "length (shift_bits g) = 4" by (simp add: shift_bits_4 [OF assms(1)])
  have k: "?k < 16" using bnum_less [of pb "shift_bits g"] by (simp add: l)
  have "val pb (arg2_val (inputs g)) = fe ?k + val pb (shift_rem g)" using assms(3) pack_bnum [OF b] by (simp add: l)
  then have e: "?e = word_of_nat ?k XOR ?r" by (simp add: element_add fe_def)
  have r: "\<not> bit ?r i" if "i < 4" for i
    using assms(2) that extractBit_correct [OF bit_const, of i, THEN conjunct1] by (simp add: bit_eqs_def)
  have hi: "\<not> bit ?k i" if "4 \<le> i" for i
  proof -
    have "take_bit 4 ?k = ?k" using k by (simp add: take_bit_nat_eq_self)
    then show ?thesis using that by (metis bit_take_bit_iff not_less)
  qed
  have bits: "bit ?e i \<longleftrightarrow> (if i < 4 then bit ?k i else bit ?r i)" if "i < 64" for i
    using r [of i] hi [of i] that by (auto simp: e bit_xor_iff bit_of_nat_iff)
  show "?k = take_bit 4 (num pb (arg2_val (inputs g)))"
  proof (rule bit_eqI)
    fix n show "bit ?k n \<longleftrightarrow> bit (take_bit 4 (num pb (arg2_val (inputs g)))) n"
      using bits [of n] hi [of n] by (cases "n < 4") (auto simp: bit_take_bit_iff num_def bit_unsigned_iff)
  qed
  show "val pb (shift_rem g) = 0 \<longleftrightarrow> num pb (arg2_val (inputs g)) < 16"
  proof
    assume "val pb (shift_rem g) = 0"
    then have "?e = word_of_nat ?k" by (simp add: e fe_defs)
    then show "num pb (arg2_val (inputs g)) < 16" using k by (simp add: num_def unsigned_of_nat take_bit_nat_eq_self)
  next
    assume "num pb (arg2_val (inputs g)) < 16"
    then have "take_bit 4 (unat ?e) = unat ?e" by (simp add: take_bit_nat_eq_self num_def)
    then have "bit (unat ?e) i \<longleftrightarrow> i < 4 \<and> bit (unat ?e) i" for i using bit_take_bit_iff [of 4 "unat ?e" i] by simp
    moreover have "bit (unat ?e) i \<longleftrightarrow> bit ?e i" for i by (simp add: bit_unsigned_iff)
    ultimately have "\<not> bit ?e i" if "4 \<le> i" for i using that by (metis not_less)
    then have "\<not> bit ?r i" if "i < 64" for i using bits [OF that] r [of i] by (cases "i < 4") simp_all
    then have "?r = 0" by (intro bit_word_eqI) simp
    then show "val pb (shift_rem g) = 0" by (simp add: FieldElement.expand fe_defs)
  qed
qed

lemma double_value:
  assumes "alu_wf g" "input_eqs fb g pb" "result_eqs b x packed g pb"
  shows "val pb (shift_dRes g) = (if num pb (arg2_val (inputs g)) < 16 then b * x ^ num pb (arg2_val (inputs g)) else 0)"
proof -
  have i: "bit_eqs g pb" "val pb (arg2_val (inputs g)) = pack_sum 1 (map (val pb) (shift_bits g)) + val pb (shift_rem g)" using assms(2) by (simp_all add: input_eqs_def)
  note s = shift_parts [OF assms(1) i]
  have "map (val pb) (shift_bits g) = map (\<lambda>b. if b then 1 else 0) (map (bit_of pb) (shift_bits g))"
    using i(1) by (intro bool_bits) (auto simp: shift_bits_4 [OF assms(1)] bit_eqs_def)
  then have p: "shift_prod x (map (val pb) (shift_bits g)) = x ^ take_bit 4 (num pb (arg2_val (inputs g)))"
    by (simp add: shift_prod_bool bnum_def flip: s(1) del: map_map)
  have "val pb (shift_rem g) \<noteq> 0 \<Longrightarrow> val pb (shift_rem g) * val pb (shift_invRem g) + 1 = 0" using assms(3) by (auto simp: result_eqs_def)
  moreover have "num pb (arg2_val (inputs g)) < 16 \<Longrightarrow> take_bit 4 (num pb (arg2_val (inputs g))) = num pb (arg2_val (inputs g))" by (simp add: take_bit_nat_eq_self)
  ultimately show ?thesis using assms(3) s(2) by (auto simp: result_eqs_def p)
qed

lemma flag_value:
  assumes "input_eqs fb g pb" "fb < 16"
  shows "val pb (out_flag (results g)) = (if bit (num pb (arg1_val (inputs g))) fb then 1 else 0)"
proof -
  let ?f = "val pb (out_flag (results g))" and ?a = "element (val pb (arg1_val (inputs g)))"
  have "\<not> bit (element (val pb (arg1_val (inputs g)) + getGF2E_X ^ fb * ?f)) fb"
    using assms extractBit_correct [OF bit_const, of fb, THEN conjunct1] by (simp add: input_eqs_def)
  moreover have "getGF2E_X ^ fb = fe (2 ^ fb)" using x_power [of fb] assms(2) by (simp add: getGF2E_X_def xFE_eval)
  moreover have "bit (element (fe (2 ^ fb))) fb" using assms(2) by (simp add: fe_def bit_of_nat_iff bit_exp_iff)
  moreover have "?f = 0 \<or> ?f = 1" using assms(1) by (simp add: input_eqs_def boolean_def)
  moreover have "element (0 :: FElem) = 0" by (simp add: fe_defs)
  ultimately show ?thesis by (auto simp: element_add bit_xor_iff num_def bit_unsigned_iff)
qed

lemma du_wf_shift: "alu_wf g \<Longrightarrow> du_wf (unpackDouble_g op g)"
proof -
  assume g: "alu_wf g"
  have "map var_index (du_packed (unpackDouble_g op g) # du_unpacked1 (unpackDouble_g op g) @ du_unpacked2 (unpackDouble_g op g)) = map (ix g) (58 # [11..<11 + 16] @ [27..<27 + 16])"
    using shift_positions(1) [OF g] positions_map [OF alu_arrays(1) [OF g]] positions_map [OF alu_arrays(2) [OF g]] by (simp add: unpackDouble_g_def)
  moreover have "distinct (map (ix g) (58 # [11..<11 + 16] @ [27..<27 + 16]))" by (subst ix_distinct [OF g]) auto
  ultimately show ?thesis by (simp add: du_wf_def) (simp add: unpackDouble_g_def alu_lengths [OF g])
qed

lemma halves:
  assumes "alu_wf g" "pb_inv pb" "standAlone g" "du_holds op g pb"
  shows "num pb (shift_dRes g) = bnum pb (unpackedArg1 (vars g)) + 2 ^ 16 * bnum pb (unpackedArg2 (vars g))"
    "booleans pb (unpackedArg1 (vars g))" "booleans pb (unpackedArg2 (vars g))"
proof -
  note wf = du_wf_shift [OF assms(1), of op]
  have h: "\<forall>(p, nm) \<in> set (DoubleUnpack_constraints (unpackDouble_g op g)). holds pb p" using assms(3,4) by (simp add: du_holds_def)
  from double_unpack_correct_facts(1) [OF wf assms(2) h]
  show "num pb (shift_dRes g) = bnum pb (unpackedArg1 (vars g)) + 2 ^ 16 * bnum pb (unpackedArg2 (vars g))"
    by (simp add: unpackDouble_g_def num_def bnum_def alu_lengths [OF assms(1)])
  have "boolean pb v" if "v \<in> set (du_bits (unpackDouble_g op g))" for v
    using h that by (auto simp: du_constraints [OF wf] bool_constraint_def holds_iff pv_booleanity boolean_def)
  then show "booleans pb (unpackedArg1 (vars g))" "booleans pb (unpackedArg2 (vars g))" by (simp_all add: booleans_def du_bits_def unpackDouble_g_def)
qed

lemma packed_value:
  assumes "result_eqs b x packed g pb" "booleans pb packed" "length packed = 16"
  shows "num pb (out_result (results g)) = bnum pb packed"
  using assms pack_bnum [OF assms(2)] bnum_less [of pb packed] by (intro num_fe) (simp_all add: result_eqs_def)

lemma SHL_sound:
  assumes "alu_wf g" "pb_inv pb" "sat Op_SHL (SHL_constraints g) pb" "standAlone g" "num pb (arg1_val (inputs g)) < 2 ^ 16"
  shows "num pb (out_result (results g)) = take_bit 16 (push_bit (num pb (arg2_val (inputs g))) (num pb (arg1_val (inputs g))))"
    "val pb (out_flag (results g)) = (if bit (num pb (arg1_val (inputs g))) 15 then 1 else 0)" "val pb (out_isMemOp (results g)) = 0"
proof -
  let ?a = "num pb (arg1_val (inputs g))" and ?n = "num pb (arg2_val (inputs g))"
  note e = SHL_sat(1) [OF assms(1,3), THEN conjunct1] SHL_sat(1) [OF assms(1,3), THEN conjunct2, THEN conjunct1] SHL_sat(1) [OF assms(1,3), THEN conjunct2, THEN conjunct2]
  show "val pb (out_flag (results g)) = (if bit ?a 15 then 1 else 0)" by (rule flag_value [OF e(1)]) simp
  show "val pb (out_isMemOp (results g)) = 0" using e(2) by (simp add: result_eqs_def)
  note h = halves [OF assms(1,2,4) e(3)]
  have r: "num pb (out_result (results g)) = bnum pb (unpackedArg1 (vars g))" by (rule packed_value [OF e(2) h(2)]) (simp add: alu_lengths [OF assms(1)])
  also have "\<dots> = num pb (shift_dRes g) mod 2 ^ 16" using bnum_less [of pb "unpackedArg1 (vars g)"] by (simp add: h(1) alu_lengths [OF assms(1)])
  also have "\<dots> = take_bit 16 (push_bit ?n ?a)"
  proof (cases "?n < 16")
    case True
    then have "?a * 2 ^ ?n < 2 ^ 16 * 2 ^ 16" using assms(5) by (intro mult_less_le_imp_less power_increasing) simp_all
    then have "num pb (shift_dRes g) = ?a * 2 ^ ?n"
      using double_value [OF assms(1) e(1,2)] True fe_shift [of ?a ?n] by (intro num_fe) (simp_all add: val_num [of pb "arg1_val (inputs g)"])
    then show ?thesis by (simp add: take_bit_eq_mod push_bit_eq_mult)
  next
    case False
    then have "num pb (shift_dRes g) = 0" using double_value [OF assms(1) e(1,2)] by (simp add: num_def fe_defs)
    moreover have "take_bit 16 (push_bit ?n ?a) = 0" using False by (simp add: take_bit_push_bit)
    ultimately show ?thesis by simp
  qed
  finally show "num pb (out_result (results g)) = take_bit 16 (push_bit ?n ?a)" .
qed

lemma SHR_sound:
  assumes "alu_wf g" "pb_inv pb" "sat Op_SHR (SHR_constraints g) pb" "standAlone g" "num pb (arg1_val (inputs g)) < 2 ^ 16"
  shows "num pb (out_result (results g)) = drop_bit (num pb (arg2_val (inputs g))) (num pb (arg1_val (inputs g)))"
    "val pb (out_flag (results g)) = (if bit (num pb (arg1_val (inputs g))) 0 then 1 else 0)" "val pb (out_isMemOp (results g)) = 0"
proof -
  let ?a = "num pb (arg1_val (inputs g))" and ?n = "num pb (arg2_val (inputs g))"
  note e = SHR_sat(1) [OF assms(1,3), THEN conjunct1] SHR_sat(1) [OF assms(1,3), THEN conjunct2, THEN conjunct1] SHR_sat(1) [OF assms(1,3), THEN conjunct2, THEN conjunct2]
  show "val pb (out_flag (results g)) = (if bit ?a 0 then 1 else 0)" by (rule flag_value [OF e(1)]) simp
  show "val pb (out_isMemOp (results g)) = 0" using e(2) by (simp add: result_eqs_def)
  note h = halves [OF assms(1,2,4) e(3)]
  have r: "num pb (out_result (results g)) = bnum pb (unpackedArg2 (vars g))" by (rule packed_value [OF e(2) h(3)]) (simp add: alu_lengths [OF assms(1)])
  also have "\<dots> = num pb (shift_dRes g) div 2 ^ 16" using bnum_less [of pb "unpackedArg1 (vars g)"] by (simp add: h(1) alu_lengths [OF assms(1)])
  also have "\<dots> = drop_bit ?n ?a"
  proof (cases "?n < 16")
    case True
    have x: "getGF2E_X ^ 16 * inverse getGF2E_X ^ ?n = getGF2E_X ^ (16 - ?n)"
      using True getGF2E_X_nonzero by (simp add: power_diff field_class.field_divide_inverse power_inverse)
    have "?a * 2 ^ (16 - ?n) < 2 ^ 16 * 2 ^ 16" using assms(5) by (intro mult_less_le_imp_less power_increasing) simp_all
    then have "num pb (shift_dRes g) = ?a * 2 ^ (16 - ?n)"
      using double_value [OF assms(1) e(1,2)] True fe_shift [of ?a "16 - ?n"] x by (intro num_fe) (simp_all add: val_num [of pb "arg1_val (inputs g)"] ac_simps)
    moreover have "2 ^ 16 = (2 :: nat) ^ ?n * 2 ^ (16 - ?n)" using True by (simp flip: power_add)
    ultimately show ?thesis by (metis div_mult_mult2 drop_bit_eq_div power_not_zero zero_neq_numeral)
  next
    case False
    then have "num pb (shift_dRes g) = 0" using double_value [OF assms(1) e(1,2)] by (simp add: num_def fe_defs)
    moreover have "?a < 2 ^ ?n" using assms(5) False power_increasing [of 16 ?n "2 :: nat"] by simp
    ultimately show ?thesis by (simp add: drop_bit_eq_div)
  qed
  finally show "num pb (out_result (results g)) = drop_bit ?n ?a" .
qed

section \<open>The witness code\<close>

lemma shift_take_facts:
  assumes "alu_wf g" "pb_inv pb" "n \<le> 4" "shift_take g [0..<n] (pb, r) = (u, r')"
  shows "changes (ix g ` {43..<43 + n}) pb u" "\<forall>i < n. val u (auxArr g ! i) = (if bit r i then 1 else 0)" "\<And>j. bit r' j \<longleftrightarrow> n \<le> j \<and> bit r j"
proof -
  have "changes (ix g ` {43..<43 + n}) pb u \<and> (\<forall>i < n. val u (auxArr g ! i) = (if bit r i then 1 else 0)) \<and> (\<forall>j. bit r' j \<longleftrightarrow> n \<le> j \<and> bit r j)"
    using assms(3,4)
  proof (induction n arbitrary: u r')
    case 0
    then show ?case using assms(2) by (simp add: shift_take_def changes_def)
  next
    case (Suc n)
    obtain v q where v: "shift_take g [0..<n] (pb, r) = (v, q)" by (cases "shift_take g [0..<n] (pb, r)")
    then have ih: "changes (ix g ` {43..<43 + n}) pb v" "\<forall>i < n. val v (auxArr g ! i) = (if bit r i then 1 else 0)" "\<And>j. bit q j \<longleftrightarrow> n \<le> j \<and> bit r j"
      using Suc.IH [OF _ v] Suc.prems(1) by auto
    have e: "u = set_val (auxArr g ! n) (if bit q n then 1 else 0) v" "r' = q AND NOT (push_bit n 1)"
      using Suc.prems(2) v by (auto simp: shift_take_def Let_def bit_iff_and_push_bit_not_eq_0 split: prod.splits if_splits)
    have p: "var_index (auxArr g ! i) = ix g (43 + i)" if "i < 16" for i using shift_positions(5) [OF assms(1) that] .
    have c: "changes (ix g ` {43 + n}) v u" unfolding e using changes_set_val [OF changesD(2) [OF ih(1)], of "auxArr g ! n"] p [of n] Suc.prems(1) by simp
    have "changes (ix g ` {43..<43 + Suc n}) pb u" by (rule changes_join [OF ih(1) c]) auto
    moreover have "val u (auxArr g ! i) = (if bit r i then 1 else 0)" if "i < Suc n" for i
      using that ih(2,3) changesD(2) [OF ih(1)] p [of i] p [of n] Suc.prems(1) assms(1) by (cases "i = n") (simp_all add: e)
    moreover have "bit r' j \<longleftrightarrow> Suc n \<le> j \<and> bit r j" for j
      using ih(3) [of j] by (auto simp: e bit_and_iff bit_not_iff bit_exp_iff dest: bit_imp_le_length)
    ultimately show ?case by blast
  qed
  then show "changes (ix g ` {43..<43 + n}) pb u" "\<forall>i < n. val u (auxArr g ! i) = (if bit r i then 1 else 0)" "\<And>j. bit r' j \<longleftrightarrow> n \<le> j \<and> bit r j" by blast+
qed

lemma shift_extract_facts:
  assumes "alu_wf g" "pb_inv pb" "n \<le> 4" "\<forall>i < 4. \<not> bit (element remainder) i"
  shows "\<exists>u. shift_extract g remainder [0..<n] pb = Inr u \<and> changes (ix g ` {47..<47 + n}) pb u
    \<and> (\<forall>i < n. remainder = bit_const i * (val u (auxArr g ! (i + 4)) * val u (auxArr g ! (i + 4)) + val u (auxArr g ! (i + 4))))"
  using assms(3)
proof (induction n)
  case 0
  then show ?case using assms(2) by (simp add: shift_extract_def changes_def)
next
  case (Suc n)
  then obtain v where v: "shift_extract g remainder [0..<n] pb = Inr v" "changes (ix g ` {47..<47 + n}) pb v"
    "\<forall>i < n. remainder = bit_const i * (val v (auxArr g ! (i + 4)) * val v (auxArr g ! (i + 4)) + val v (auxArr g ! (i + 4)))" by auto
  have n: "n < 4" "n < 16" using Suc.prems by simp_all
  obtain y where y: "extractBit remainder (int n) = Inr y" "bit_const n * (y * y + y) = remainder"
    using extractBit_correct [OF bit_const [OF n(2)], THEN conjunct2, THEN conjunct2, of remainder] assms(4) n(1) by auto
  let ?u = "set_val (auxArr g ! (n + 4)) y v"
  have p: "var_index (auxArr g ! (i + 4)) = ix g (47 + i)" if "i < 4" for i using shift_positions(5) [OF assms(1), of "i + 4"] that by (simp add: add.commute)
  have c: "changes (ix g ` {47 + n}) v ?u" using changes_set_val [OF changesD(2) [OF v(2)], of "auxArr g ! (n + 4)"] p [OF n(1)] by simp
  have "shift_extract g remainder [0..<Suc n] pb = Inr ?u" using v(1) y(1) by (simp add: shift_extract_def registerLogLen_4 [OF assms(1)])
  moreover have "changes (ix g ` {47..<47 + Suc n}) pb ?u" by (rule changes_join [OF v(2) c]) auto
  moreover have "remainder = bit_const i * (val ?u (auxArr g ! (i + 4)) * val ?u (auxArr g ! (i + 4)) + val ?u (auxArr g ! (i + 4)))" if "i < Suc n" for i
    using that v(3) y(2) p [of i] p [OF n(1)] n(1) changesD(2) [OF v(2)] assms(1) by (cases "i = n") simp_all
  ultimately show ?case by blast
qed

lemma du_holdsI:
  assumes "alu_wf g" "\<forall>v \<in> set (alu_vars g). assigned pb v" "booleans pb (unpackedArg1 (vars g))" "booleans pb (unpackedArg2 (vars g))"
    "val pb (shift_dRes g) = pack_sum 1 (map (val pb) (unpackedArg1 (vars g) @ unpackedArg2 (vars g)))"
  shows "du_holds op g pb"
proof -
  let ?bs = "unpackedArg1 (vars g) @ unpackedArg2 (vars g)"
  let ?p = "cp_lc (lc_plus (fst (pack_loop ?bs (lc_const 0, 1))) (lc_var (shift_dRes g)))"
  have c: "DoubleUnpack_constraints (unpackDouble_g op g) = map bool_constraint ?bs @ [(?p, ''packed = packedPoly'')]"
    using du_constraints [OF du_wf_shift [OF assms(1)], of op] by (simp add: du_bits_def unpackDouble_g_def)
  have "lc_over {v. assigned pb v} (fst (pack_loop ?bs (lc_const 0, 1)))"
    using pack_loop_vars [of ?bs "lc_const 0" 1] assms(2) shift_words(3,4) [of g] by (auto simp: lc_over_def lc_const_def lc_vars_def)
  then have "holds pb ?p" using assms(2,5) shift_members(1) [OF assms(1)] by (intro holdsI) (simp_all add: du_pack_val)
  moreover have "holds pb (booleanity v)" if "v \<in> set ?bs" for v
    using that assms(2-4) shift_words(3,4) [of g] by (auto simp: holds_iff pv_booleanity booleans_def boolean_def)
  ultimately show ?thesis by (auto simp: du_holds_def c bool_constraint_def)
qed

text \<open>The steps that both shifts have, with the flag \<open>F\<close> (bit \<open>fb\<close> of the first argument) and the double word \<open>D\<close>.\<close>

definition shift_run :: "Opcode \<Rightarrow> Variable list \<Rightarrow> nat \<Rightarrow> FElem \<Rightarrow> size_t \<Rightarrow> ALU_Component_Gadget \<Rightarrow> Protoboard \<Rightarrow> Protoboard result" where
  "shift_run op packed fb F D g pb = (let (u, r) = shift_take g [0..<4] (alu_init g pb, element (val pb (arg2_val (inputs g)))) in
     res_bind (shift_extract g (FieldElement r) [0..<4] (set_val (shift_rem g) (FieldElement r) u)) (\<lambda>x.
     res_map (\<lambda>t. CompressionPacking_generateWitness (packer op packed (out_result (results g))) (DoubleUnpack_generateWitness (unpackDouble_g op g)
         (shift_double g (FieldElement r) r D (set_val (shift_witnessFlag g) t (set_val (out_flag (results g)) F x)))))
       (extractBit (val pb (arg1_val (inputs g)) + getGF2E_X ^ fb * F) (int fb))))"

lemma shift_double_facts:
  assumes "alu_wf g" "pb_inv pb"
  shows "changes (ix g ` {56, 58}) pb (shift_double g remainder r D pb)"
    "val (shift_double g remainder r D pb) (shift_invRem g) = (if r = 0 then 0 else inverse remainder)"
    "val (shift_double g remainder r D pb) (shift_dRes g) = (if r = 0 then FieldElement D else 0)"
proof -
  note p = shift_positions [OF assms(1)]
  have "changes (ix g ` {56, 58}) pb (set_val (shift_dRes g) a (set_val (shift_invRem g) b pb))" for a b
    using assms(2) by (auto simp: changes_def p)
  then show "changes (ix g ` {56, 58}) pb (shift_double g remainder r D pb)" by (simp add: shift_double_def)
  show "val (shift_double g remainder r D pb) (shift_invRem g) = (if r = 0 then 0 else inverse remainder)"
    "val (shift_double g remainder r D pb) (shift_dRes g) = (if r = 0 then FieldElement D else 0)"
    using assms by (simp_all add: shift_double_def p mapIntegerToFieldElement_def ExtensionDegree_def)
qed

lemma du_shift_changes:
  assumes "alu_wf g" "pb_inv pb"
  shows "changes (ix g ` {11..<43}) pb (DoubleUnpack_generateWitness (unpackDouble_g op g) pb)"
    "i < 32 \<Longrightarrow> val (DoubleUnpack_generateWitness (unpackDouble_g op g) pb) ((unpackedArg1 (vars g) @ unpackedArg2 (vars g)) ! i) = (if bit (num pb (shift_dRes g)) i then 1 else 0)"
proof -
  note a = alu_arrays [OF assms(1)] and wf = du_wf_shift [OF assms(1), of op]
  have "du_written (unpackDouble_g op g) = ix g ` ({11..<11 + 16} \<union> {27..<27 + 16})"
    unfolding image_Un arr_set [OF a(1), symmetric] arr_set [OF a(2), symmetric] by (simp add: du_written_def du_bits_def unpackDouble_g_def image_Un)
  moreover have "{11..<11 + 16} \<union> {27..<27 + 16} = {11..<43 :: nat}" by auto
  ultimately show "changes (ix g ` {11..<43}) pb (DoubleUnpack_generateWitness (unpackDouble_g op g) pb)"
    using changes_writes [OF du_writes [OF wf] assms(2)] by simp
  show "i < 32 \<Longrightarrow> val (DoubleUnpack_generateWitness (unpackDouble_g op g) pb) ((unpackedArg1 (vars g) @ unpackedArg2 (vars g)) ! i) = (if bit (num pb (shift_dRes g)) i then 1 else 0)"
    using du_bits_val [OF wf assms(2), of i] by (simp add: du_bits_def unpackDouble_g_def num_def alu_lengths [OF assms(1)])
qed

text \<open>The values at the end, where \<open>r\<close> is the second argument without its low bits.\<close>

definition shift_final :: "Variable list \<Rightarrow> nat \<Rightarrow> FElem \<Rightarrow> size_t \<Rightarrow> ALU_Component_Gadget \<Rightarrow> Protoboard \<Rightarrow> size_t \<Rightarrow> Protoboard \<Rightarrow> bool" where
  "shift_final packed fb F D g pb r w \<longleftrightarrow> (\<forall>j. bit r j \<longleftrightarrow> 4 \<le> j \<and> bit (element (val pb (arg2_val (inputs g)))) j)
     \<and> (\<forall>i < 4. val w (auxArr g ! i) = (if bit (element (val pb (arg2_val (inputs g)))) i then 1 else 0)) \<and> val w (shift_rem g) = FieldElement r
     \<and> (\<forall>i < 4. FieldElement r = bit_const i * (val w (auxArr g ! (i + 4)) * val w (auxArr g ! (i + 4)) + val w (auxArr g ! (i + 4))))
     \<and> val w (out_flag (results g)) = F
     \<and> bit_const fb * (val w (shift_witnessFlag g) * val w (shift_witnessFlag g) + val w (shift_witnessFlag g)) = val pb (arg1_val (inputs g)) + getGF2E_X ^ fb * F
     \<and> val w (shift_invRem g) = (if r = 0 then 0 else inverse (FieldElement r)) \<and> val w (shift_dRes g) = (if r = 0 then FieldElement D else 0)
     \<and> bits_of w (unpackedArg1 (vars g) @ unpackedArg2 (vars g)) (num w (shift_dRes g))
     \<and> val w (out_result (results g)) = pack_sum 1 (map (val w) packed) \<and> val w (out_isMemOp (results g)) = 0"

lemma shift_run_final:
  assumes "alu_wf g" "pb_inv pb" "fb < 16" "\<not> bit (element (val pb (arg1_val (inputs g)) + getGF2E_X ^ fb * F)) fb"
    "packed = unpackedArg1 (vars g) \<or> packed = unpackedArg2 (vars g)"
  shows "\<exists>w r. shift_run op packed fb F D g pb = Inr w \<and> changes (ix g ` {4..<155}) pb w \<and> shift_final packed fb F D g pb r w"
proof -
  let ?n = "element (val pb (arg2_val (inputs g)))" and ?a = "val pb (arg1_val (inputs g))"
  note p = alu_positions [OF assms(1)] and q = shift_positions [OF assms(1)] and a = alu_arrays [OF assms(1)] and l = alu_lengths [OF assms(1)]
  note i = alu_init_changes [OF assms(1,2)]
  obtain u r where u: "shift_take g [0..<4] (alu_init g pb, ?n) = (u, r)" by (cases "shift_take g [0..<4] (alu_init g pb, ?n)")
  note U = shift_take_facts [OF assms(1) changesD(2) [OF i(1)] order_refl u]
  let ?R = "FieldElement r"
  define v where "v = set_val (shift_rem g) ?R u"
  have V: "changes (ix g ` {57}) u v" unfolding v_def by (rule changes_position [OF assms(1) changesD(2) [OF U(1)] q(2)])
  have low: "\<forall>j < 4. \<not> bit (element ?R) j" using U(3) by simp
  obtain y where X: "shift_extract g ?R [0..<4] v = Inr y" "changes (ix g ` {47..<47 + 4}) v y"
    "\<forall>i < 4. ?R = bit_const i * (val y (auxArr g ! (i + 4)) * val y (auxArr g ! (i + 4)) + val y (auxArr g ! (i + 4)))"
    using shift_extract_facts [OF assms(1) changesD(2) [OF V] order_refl low] by blast
  obtain t where t: "extractBit (?a + getGF2E_X ^ fb * F) (int fb) = Inr t" "bit_const fb * (t * t + t) = ?a + getGF2E_X ^ fb * F"
    using extractBit_correct [OF bit_const [OF assms(3)], THEN conjunct2, THEN conjunct2, of "?a + getGF2E_X ^ fb * F"] assms(4) by auto
  define z where "z = set_val (out_flag (results g)) F y"
  have Z: "changes (ix g ` {4}) y z" unfolding z_def by (rule changes_position [OF assms(1) changesD(2) [OF X(2)] p(5)])
  define k where "k = set_val (shift_witnessFlag g) t z"
  have K: "changes (ix g ` {55}) z k" unfolding k_def by (rule changes_position [OF assms(1) changesD(2) [OF Z] q(4)])
  define d where "d = shift_double g ?R r D k"
  note D = shift_double_facts [OF assms(1) changesD(2) [OF K], of ?R r D, folded d_def]
  define e where "e = DoubleUnpack_generateWitness (unpackDouble_g op g) d"
  note E = du_shift_changes [OF assms(1) changesD(2) [OF D(1)], where op = op, folded e_def]
  define w where "w = CompressionPacking_generateWitness (packer op packed (out_result (results g))) e"
  obtain c where c: "arr g c packed" "c \<in> {11, 27}" using assms(5) a(1,2) by auto
  have "c + 16 \<le> 155" "5 \<notin> {c..<c + 16}" using c(2) by auto
  note W = packer_facts [OF assms(1) c(1) this(1) p(6) _ this(2) changesD(2) [OF E(1)], of op, folded w_def]
  have eq: "shift_run op packed fb F D g pb = Inr w" by (simp add: shift_run_def u X(1) [unfolded v_def] t(1) w_def e_def d_def k_def z_def)
  have Wc: "changes (ix g ` {5}) e w" using W(1) by simp
  text \<open>What changes between a step and the end.\<close>
  have dw: "changes (ix g ` ({5} \<union> {11..<43})) d w" by (rule changes_join [OF E(1) Wc]) auto
  have kw: "changes (ix g ` ({5} \<union> {11..<43} \<union> {56, 58})) k w" by (rule changes_join [OF D(1) dw]) auto
  have zw: "changes (ix g ` ({5} \<union> {11..<43} \<union> {55..<57} \<union> {58})) z w" by (rule changes_join [OF K kw]) auto
  have yw: "changes (ix g ` ({4..<6} \<union> {11..<43} \<union> {55..<57} \<union> {58})) y w" by (rule changes_join [OF Z zw]) auto
  have vw: "changes (ix g ` ({4..<6} \<union> {11..<43} \<union> {47..<51} \<union> {55..<57} \<union> {58})) v w" by (rule changes_join [OF X(2) yw]) auto
  have uw: "changes (ix g ` ({4..<6} \<union> {11..<43} \<union> {47..<51} \<union> {55..<59})) u w" by (rule changes_join [OF V vw]) auto
  have iw: "changes (ix g ` ({4..<6} \<union> {11..<51} \<union> {55..<59})) (alu_init g pb) w" by (rule changes_join [OF U(1) uw]) auto
  have all: "changes (ix g ` {4..<155}) pb w" by (rule changes_join [OF i(1) iw]) auto
  have "shift_final packed fb F D g pb r w" unfolding shift_final_def
  proof (intro conjI allI impI)
    fix i :: nat assume i4: "i < 4"
    show "val w (auxArr g ! i) = (if bit ?n i then 1 else 0)"
      using changes_val [OF uw assms(1) _ q(5), of i] U(2) i4 by auto
    have "val w (auxArr g ! (i + 4)) = val y (auxArr g ! (i + 4))" using changes_val [OF yw assms(1) _ q(5), of "i + 4"] i4 by auto
    then show "?R = bit_const i * (val w (auxArr g ! (i + 4)) * val w (auxArr g ! (i + 4)) + val w (auxArr g ! (i + 4)))" using X(3) i4 by simp
  next
    show "val w (shift_rem g) = ?R" using changes_val [OF vw assms(1) _ q(2)] changesD(2) [OF U(1)] by (auto simp: v_def)
    show "val w (out_flag (results g)) = F" using changes_val [OF zw assms(1) _ p(5)] changesD(2) [OF X(2)] by (auto simp: z_def)
    have "val w (shift_witnessFlag g) = t" using changes_val [OF kw assms(1) _ q(4)] changesD(2) [OF Z] by (auto simp: k_def)
    then show "bit_const fb * (val w (shift_witnessFlag g) * val w (shift_witnessFlag g) + val w (shift_witnessFlag g)) = ?a + getGF2E_X ^ fb * F" using t(2) by simp
    show "val w (shift_invRem g) = (if r = 0 then 0 else inverse ?R)" "val w (shift_dRes g) = (if r = 0 then FieldElement D else 0)"
      using changes_val [OF dw assms(1) _ q(3)] changes_val [OF dw assms(1) _ q(1)] D(2,3) by auto
    show "val w (out_isMemOp (results g)) = 0" using changes_val [OF iw assms(1) _ p(7)] i(2) [OF p(7)] by auto
  next
    have n: "num w (shift_dRes g) = num d (shift_dRes g)" using changes_val [OF dw assms(1) _ q(1)] by (auto simp: num_def)
    have "val w (us ! i) = val e (us ! i)" if "us = unpackedArg1 (vars g) \<or> us = unpackedArg2 (vars g)" "i < 16" for us i
      using changes_val [OF Wc assms(1) _ arr_index [OF a(1), of i]] changes_val [OF Wc assms(1) _ arr_index [OF a(2), of i]] that by auto
    then have "val w ((unpackedArg1 (vars g) @ unpackedArg2 (vars g)) ! i) = val e ((unpackedArg1 (vars g) @ unpackedArg2 (vars g)) ! i)" if "i < 32" for i
      using that by (simp add: nth_append l)
    then show "bits_of w (unpackedArg1 (vars g) @ unpackedArg2 (vars g)) (num w (shift_dRes g))"
      using E(2) by (simp add: bits_of_def n l del: nth_append)
    have m: "map (val w) packed = map (val e) packed"
      using changes_val [OF Wc assms(1) _ arr_index [OF c(1)]] c(2) arr_length [OF c(1)] by (intro nth_equalityI) auto
    show "val w (out_result (results g)) = pack_sum 1 (map (val w) packed)" unfolding m by (rule W(2)) simp
  qed (use U(3) in blast)+
  then show ?thesis using eq all by blast
qed


lemma clear_low:
  fixes r e :: size_t
  assumes "\<And>j. bit r j \<longleftrightarrow> 4 \<le> j \<and> bit e j"
  shows "r = 0 \<longleftrightarrow> unat e < 16" "e = word_of_nat (take_bit 4 (unat e)) XOR r"
proof -
  have "r = 0 \<longleftrightarrow> take_bit 4 (unat e) = unat e"
  proof
    assume r: "r = 0"
    show "take_bit 4 (unat e) = unat e"
    proof (rule bit_eqI)
      fix j show "bit (take_bit 4 (unat e)) j \<longleftrightarrow> bit (unat e) j" using assms [of j] by (auto simp: bit_take_bit_iff bit_unsigned_iff r)
    qed
  next
    assume "take_bit 4 (unat e) = unat e"
    then have "bit (unat e) j \<Longrightarrow> j < 4" for j using bit_take_bit_iff [of 4 "unat e" j] by simp
    then have "\<not> bit r j" for j using assms [of j] by (metis bit_unsigned_iff not_less possible_bit_nat)
    then show "r = 0" by (intro bit_word_eqI) simp
  qed
  then show "r = 0 \<longleftrightarrow> unat e < 16" by (simp add: take_bit_nat_eq_self_iff)
  show "e = word_of_nat (take_bit 4 (unat e)) XOR r"
  proof (rule bit_word_eqI)
    fix n assume "n < LENGTH(64)"
    then show "bit e n \<longleftrightarrow> bit (word_of_nat (take_bit 4 (unat e)) XOR r) n"
      by (cases "n < 4") (simp_all add: bit_xor_iff bit_of_nat_iff bit_take_bit_iff bit_unsigned_iff assms)
  qed
qed

lemma shift_final_eqs:
  assumes "alu_wf g" "shift_final packed fb F D g pb r w" "changes (ix g ` {4..<155}) pb w" "alu_pre g pb" "F = 0 \<or> F = 1" "unat D < 2 ^ 32"
    "num pb (arg2_val (inputs g)) < 16 \<Longrightarrow> FieldElement D = b * x ^ num pb (arg2_val (inputs g))"
  shows "input_eqs fb g w" "result_eqs b x packed g w" "du_holds op g w" "booleans w (unpackedArg1 (vars g))" "booleans w (unpackedArg2 (vars g))"
proof -
  let ?e = "element (val pb (arg2_val (inputs g)))"
  note f = assms(2) [unfolded shift_final_def]
  have r: "bit r j \<longleftrightarrow> 4 \<le> j \<and> bit ?e j" for j using f by blast
  have bits: "map (val w) (shift_bits g) = map (\<lambda>b. if b then 1 else 0) (map (bit ?e) [0..<4])" using f by (simp add: shift_bits_4 [OF assms(1)])
  have nat: "bits_nat (map (bit ?e) [0..<4]) = take_bit 4 (unat ?e)" by (rule bit_eqI) (auto simp: bit_bits_nat bit_take_bit_iff bit_unsigned_iff)
  have pk: "pack_sum 1 (map (val w) (shift_bits g)) = fe (take_bit 4 (unat ?e))"
    using pack_sum_bits [of 0 "map (bit ?e) [0..<4]"] nat unfolding bits by simp
  have same: "val w (arg1_val (inputs g)) = val pb (arg1_val (inputs g))" "val w (arg2_val (inputs g)) = val pb (arg2_val (inputs g))"
    using changes_val [OF assms(3,1) _ alu_positions(1) [OF assms(1)]] changes_val [OF assms(3,1) _ alu_positions(2) [OF assms(1)]] by simp_all
  have "val pb (arg2_val (inputs g)) = fe (take_bit 4 (unat ?e)) + FieldElement r"
    using clear_low(2) [OF r] by (simp add: FieldElement.expand element_add fe_def)
  then show "input_eqs fb g w" using f assms(5) pk same by (auto simp: input_eqs_def bit_eqs_def boolean_def)
  have z: "r = 0 \<longleftrightarrow> num pb (arg2_val (inputs g)) < 16" using clear_low(1) [OF r] by (simp add: num_def)
  have p: "shift_prod x (map (val w) (shift_bits g)) = x ^ take_bit 4 (unat ?e)" unfolding bits shift_prod_bool nat ..
  have zero: "FieldElement 0 = 0" by (simp add: fe_defs)
  show "result_eqs b x packed g w"
  proof (cases "r = 0")
    case True
    moreover have "take_bit 4 (unat ?e) = num pb (arg2_val (inputs g))" using True z by (simp add: take_bit_nat_eq_self num_def)
    ultimately show ?thesis using f assms(7) z p zero by (simp add: result_eqs_def)
  next
    case False
    then have "FieldElement r \<noteq> 0" by (simp add: fe_defs)
    then show ?thesis using f False by (simp add: result_eqs_def)
  qed
  have bo: "bits_of w (unpackedArg1 (vars g) @ unpackedArg2 (vars g)) (num w (shift_dRes g))" using f by blast
  note b = bits_of_booleans [OF bo]
  from b show u: "booleans w (unpackedArg1 (vars g))" "booleans w (unpackedArg2 (vars g))" by (simp_all add: booleans_def)
  have "num w (shift_dRes g) < 2 ^ 32" using f assms(6) by (auto simp: num_def fe_defs)
  then have "bnum w (unpackedArg1 (vars g) @ unpackedArg2 (vars g)) = num w (shift_dRes g)"
    using bits_of_bnum [OF bo] by (simp add: alu_lengths [OF assms(1)] take_bit_nat_eq_self)
  then have "val w (shift_dRes g) = pack_sum 1 (map (val w) (unpackedArg1 (vars g) @ unpackedArg2 (vars g)))"
    using pack_bnum [OF b] by (simp add: alu_lengths [OF assms(1)] val_num [of w "shift_dRes g"])
  then show "du_holds op g w" by (rule du_holdsI [OF assms(1) all_assigned [OF assms(3,1,4)] u])
qed

lemma shift_prefix:
  assumes "alu_wf g" "pb_inv pb"
  shows "\<exists>u r y. shift_take g [0..<4] (alu_init g pb, element (val pb (arg2_val (inputs g)))) = (u, r)
    \<and> shift_extract g (FieldElement r) [0..<4] (set_val (shift_rem g) (FieldElement r) u) = Inr y
    \<and> val y (arg1_val (inputs g)) = val pb (arg1_val (inputs g)) \<and> val (alu_init g pb) (arg2_val (inputs g)) = val pb (arg2_val (inputs g))"
proof -
  let ?n = "element (val pb (arg2_val (inputs g)))"
  note p = alu_positions [OF assms(1)] and i = alu_init_changes [OF assms]
  obtain u r where u: "shift_take g [0..<4] (alu_init g pb, ?n) = (u, r)" by (cases "shift_take g [0..<4] (alu_init g pb, ?n)")
  note U = shift_take_facts [OF assms(1) changesD(2) [OF i(1)] order_refl u]
  let ?v = "set_val (shift_rem g) (FieldElement r) u"
  have V: "changes (ix g ` {57}) u ?v" by (rule changes_position [OF assms(1) changesD(2) [OF U(1)] shift_positions(2) [OF assms(1)]])
  have "\<forall>j < 4. \<not> bit (element (FieldElement r)) j" using U(3) by simp
  then obtain y where X: "shift_extract g (FieldElement r) [0..<4] ?v = Inr y" "changes (ix g ` {47..<47 + 4}) ?v y"
    using shift_extract_facts [OF assms(1) changesD(2) [OF V] order_refl] by blast
  have "val y (arg1_val (inputs g)) = val pb (arg1_val (inputs g))"
    using changes_val [OF X(2) assms(1) _ p(1)] changes_val [OF V assms(1) _ p(1)] changes_val [OF U(1) assms(1) _ p(1)] changes_val [OF i(1) assms(1) _ p(1)] by simp
  moreover have "val (alu_init g pb) (arg2_val (inputs g)) = val pb (arg2_val (inputs g))" using changes_val [OF i(1) assms(1) _ p(2)] by simp
  ultimately show ?thesis using u X(1) by blast
qed

text \<open>The flag and the double word of the two shifts.\<close>

definition flag_bit :: "nat \<Rightarrow> FElem \<Rightarrow> FElem" where
  "flag_bit fb a = (if bit (element a) fb then 1 else 0)"

definition SHL_double :: "size_t \<Rightarrow> size_t \<Rightarrow> size_t" where
  "SHL_double n a = (if sint n \<ge> 16 then 0 else push_bit (unat n) a)"

definition SHR_double :: "size_t \<Rightarrow> size_t \<Rightarrow> size_t" where
  "SHR_double n a = (if sint n \<ge> 16 then 0 else push_bit (16 - unat n) a)"

lemma X_power_element: "k < 64 \<Longrightarrow> getGF2E_X ^ k = FieldElement (push_bit k 1)"
  using x_power [of k] by (simp add: getGF2E_X_def xFE_eval fe_def)

lemma toggled:
  assumes "k < 64"
  shows "a + getGF2E_X ^ k * flag_bit k a = FieldElement (element a AND NOT (push_bit k 1))" "\<not> bit (element (a + getGF2E_X ^ k * flag_bit k a)) k"
proof -
  have "element (a + getGF2E_X ^ k * flag_bit k a) = element a XOR (if bit (element a) k then push_bit k 1 else 0)"
    using X_power_element [OF assms] zero_FieldElement_def by (simp add: flag_bit_def element_add) (simp add: fe_defs)
  also have "\<dots> = element a AND NOT (push_bit k 1)"
    by (rule bit_word_eqI) (auto simp: bit_xor_iff bit_and_iff bit_not_iff bit_push_bit_iff bit_1_iff simp del: push_bit_of_1)
  finally have e: "element (a + getGF2E_X ^ k * flag_bit k a) = element a AND NOT (push_bit k 1)" .
  then show "a + getGF2E_X ^ k * flag_bit k a = FieldElement (element a AND NOT (push_bit k 1))" by (simp add: FieldElement.expand)
  show "\<not> bit (element (a + getGF2E_X ^ k * flag_bit k a)) k"
    using assms unfolding e by (simp add: bit_and_iff bit_not_iff bit_push_bit_iff bit_1_iff del: push_bit_of_1)
qed

lemma SHL_run:
  assumes "alu_wf g" "pb_inv pb" "num pb (arg1_val (inputs g)) < 2 ^ 16"
  defines "a \<equiv> val pb (arg1_val (inputs g))" and "n \<equiv> val pb (arg2_val (inputs g))"
  shows "SHL_generateWitness g pb = shift_run Op_SHL (unpackedArg1 (vars g)) 15 (flag_bit 15 a) (SHL_double (element n) (element a)) g pb"
proof -
  obtain u r y where p: "shift_take g [0..<4] (alu_init g pb, element n) = (u, r)"
    "shift_extract g (FieldElement r) [0..<4] (set_val (shift_rem g) (FieldElement r) u) = Inr y" "val y (arg1_val (inputs g)) = a" "val (alu_init g pb) (arg2_val (inputs g)) = n"
    using shift_prefix [OF assms(1,2)] by (auto simp: a_def n_def)
  have "unat (element a) div 2 ^ 15 = 0 \<or> unat (element a) div 2 ^ 15 = 1" using assms(3) by (simp add: num_def a_def) linarith
  then have "drop_bit 15 (element a) = 0 \<or> drop_bit 15 (element a) = 1"
    by (auto simp: word_unat_eq_iff drop_bit_eq_div unat_div)
  then have f: "drop_bit 15 (element a) \<noteq> 0 \<longleftrightarrow> bit (element a) 15" by (auto simp: bit_iff_odd_drop_bit)
  show ?thesis using toggled(1) [of 15 a]
    by (simp add: SHL_generateWitness_def shift_run_def registerLogLen_4 [OF assms(1)] alu_lengths [OF assms(1)] p f Let_def flag_bit_def SHL_double_def
      mapFieldElementToInteger_def mapIntegerToFieldElement_def ExtensionDegree_def a_def [symmetric] n_def [symmetric] del: power_Suc)
qed

lemma SHR_run:
  assumes "alu_wf g" "pb_inv pb"
  defines "a \<equiv> val pb (arg1_val (inputs g))" and "n \<equiv> val pb (arg2_val (inputs g))"
  shows "SHR_generateWitness g pb = shift_run Op_SHR (unpackedArg2 (vars g)) 0 (flag_bit 0 a) (SHR_double (element n) (element a)) g pb"
proof -
  obtain u r y where p: "shift_take g [0..<4] (alu_init g pb, element n) = (u, r)"
    "shift_extract g (FieldElement r) [0..<4] (set_val (shift_rem g) (FieldElement r) u) = Inr y" "val y (arg1_val (inputs g)) = a" "val (alu_init g pb) (arg2_val (inputs g)) = n"
    using shift_prefix [OF assms(1,2)] by (auto simp: a_def n_def)
  have f: "mapIntegerToFieldElement 0 1 (element a) = flag_bit 0 a"
    by (simp add: mapIntegerToFieldElement_def flag_bit_def and_bitmask take_bit_eq_mod fe_defs bit_0 odd_iff_mod_2_eq_one even_iff_mod_2_eq_zero)
  have m: "mapIntegerToFieldElement 0 64 q = FieldElement q" for q by (simp add: mapIntegerToFieldElement_def)
  show ?thesis
    by (simp add: SHR_generateWitness_def shift_run_def registerLogLen_4 [OF assms(1)] alu_lengths [OF assms(1)] p f [unfolded One_nat_def] Let_def SHR_double_def
      mapFieldElementToInteger_def ExtensionDegree_def a_def [symmetric] n_def [symmetric] m)
qed

lemma small_signed: "k < 64 \<Longrightarrow> signed_take_bit 63 (int k) = int k"
  by (intro signed_take_bit_int_eq_self) simp_all

lemma sint_small: "unat n < 64 \<Longrightarrow> sint n = int (unat n)" for n :: size_t
proof -
  assume "unat n < 64"
  note small_signed [OF this]
  moreover have "sint n = signed_take_bit 63 (int (unat n))" unfolding sint_uint uint_nat by simp
  ultimately show ?thesis by (rule trans [rotated])
qed

lemma double_words:
  assumes "unat a < 2 ^ 16"
  shows "unat (SHL_double n a) < 2 ^ 32" "unat n < 16 \<Longrightarrow> FieldElement (SHL_double n a) = FieldElement a * getGF2E_X ^ unat n"
    "unat (SHR_double n a) < 2 ^ 32" "unat n < 16 \<Longrightarrow> FieldElement (SHR_double n a) = (getGF2E_X ^ 16 * FieldElement a) * inverse getGF2E_X ^ unat n"
proof -
  have p: "unat (push_bit k a) = unat a * 2 ^ k \<and> unat a * 2 ^ k < 2 ^ 32" if "k \<le> 16" for k
  proof -
    have "unat a * 2 ^ k < 2 ^ 16 * 2 ^ 16" using assms that by (intro mult_less_le_imp_less power_increasing) simp_all
    then show ?thesis unfolding unsigned_push_bit_eq by (simp add: push_bit_eq_mult take_bit_nat_eq_self)
  qed
  have f: "FieldElement (push_bit k a) = FieldElement a * getGF2E_X ^ k" if "k \<le> 16" for k
  proof -
    have "FieldElement (push_bit k a) = fe (unat (push_bit k a))" "FieldElement a = fe (unat a)" by (simp_all only: fe_def of_nat_unat ucast_id)
    then show ?thesis using fe_shift [of "unat a" k] p [OF that] by simp
  qed
  have z: "push_bit (unat n) a = 0" if "sint n < 16" "\<not> unat n < 16"
  proof -
    have "\<not> unat n < 64" using that sint_small [of n] by linarith
    then show ?thesis by (intro bit_word_eqI) (simp add: bit_push_bit_iff)
  qed
  show "unat (SHL_double n a) < 2 ^ 32" using p [of "unat n"] z by (cases "unat n < 16") (auto simp: SHL_double_def not_le)
  show "unat (SHR_double n a) < 2 ^ 32" using p [of "16 - unat n"] by (auto simp: SHR_double_def)
  assume n: "unat n < 16"
  then have sn: "sint n < 16" using sint_small [of n] by linarith
  show "FieldElement (SHL_double n a) = FieldElement a * getGF2E_X ^ unat n" using n f [of "unat n"] sn by (simp add: SHL_double_def)
  have "getGF2E_X ^ 16 * inverse getGF2E_X ^ unat n = getGF2E_X ^ (16 - unat n)"
    using n getGF2E_X_nonzero by (simp add: power_diff field_class.field_divide_inverse power_inverse)
  then show "FieldElement (SHR_double n a) = (getGF2E_X ^ 16 * FieldElement a) * inverse getGF2E_X ^ unat n"
    using n f [of "16 - unat n"] sn by (simp add: SHR_double_def ac_simps)
qed

definition shift_pre :: "ALU_Component_Gadget \<Rightarrow> Protoboard \<Rightarrow> bool" where
  "shift_pre g pb \<longleftrightarrow> alu_pre g pb \<and> num pb (arg1_val (inputs g)) < 2 ^ 16"

lemma SHL_runs:
  assumes "alu_wf g" "pb_inv pb" "shift_pre g pb"
  shows "\<exists>w. SHL_generateWitness g pb = Inr w \<and> changes (ix g ` {4..<155}) pb w \<and> sat Op_SHL (SHL_constraints g) w
    \<and> input_eqs 15 g w \<and> result_eqs (val w (arg1_val (inputs g))) getGF2E_X (unpackedArg1 (vars g)) g w \<and> du_holds Op_SHL g w"
proof -
  let ?a = "val pb (arg1_val (inputs g))" and ?n = "val pb (arg2_val (inputs g))"
  have pre: "alu_pre g pb" "unat (element ?a) < 2 ^ 16" using assms(3) by (simp_all add: shift_pre_def num_def)
  note d = double_words [OF pre(2)]
  have "15 < (64 :: nat)" by simp
  from shift_run_final [OF assms(1,2) _ toggled(2) [OF this], of "unpackedArg1 (vars g)" Op_SHL "SHL_double (element ?n) (element ?a)"]
  obtain w r where w: "SHL_generateWitness g pb = Inr w" "changes (ix g ` {4..<155}) pb w"
    "shift_final (unpackedArg1 (vars g)) 15 (flag_bit 15 ?a) (SHL_double (element ?n) (element ?a)) g pb r w"
    using SHL_run [OF assms(1,2)] pre(2) by (auto simp: num_def)
  have same: "val w (arg1_val (inputs g)) = ?a" using changes_val [OF w(2) assms(1) _ alu_positions(1) [OF assms(1)]] by simp
  have "flag_bit 15 ?a = 0 \<or> flag_bit 15 ?a = 1" by (simp add: flag_bit_def)
  note e = shift_final_eqs [OF assms(1) w(3,2) pre(1) this d(1), where b = ?a and x = getGF2E_X, unfolded num_def, OF d(2) [simplified]]
  then show ?thesis using SHL_sat(2) [OF assms(1) all_assigned [OF w(2) assms(1) pre(1)]] w(1,2) same by auto
qed

lemma SHR_runs:
  assumes "alu_wf g" "pb_inv pb" "shift_pre g pb"
  shows "\<exists>w. SHR_generateWitness g pb = Inr w \<and> changes (ix g ` {4..<155}) pb w \<and> sat Op_SHR (SHR_constraints g) w
    \<and> input_eqs 0 g w \<and> result_eqs (getGF2E_X ^ 16 * val w (arg1_val (inputs g))) (inverse getGF2E_X) (unpackedArg2 (vars g)) g w \<and> du_holds Op_SHR g w"
proof -
  let ?a = "val pb (arg1_val (inputs g))" and ?n = "val pb (arg2_val (inputs g))"
  have pre: "alu_pre g pb" "unat (element ?a) < 2 ^ 16" using assms(3) by (simp_all add: shift_pre_def num_def)
  note d = double_words [OF pre(2)]
  have "0 < (64 :: nat)" by simp
  from shift_run_final [OF assms(1,2) _ toggled(2) [OF this], of "unpackedArg2 (vars g)" Op_SHR "SHR_double (element ?n) (element ?a)"]
  obtain w r where w: "SHR_generateWitness g pb = Inr w" "changes (ix g ` {4..<155}) pb w"
    "shift_final (unpackedArg2 (vars g)) 0 (flag_bit 0 ?a) (SHR_double (element ?n) (element ?a)) g pb r w"
    using SHR_run [OF assms(1,2)] by auto
  have same: "val w (arg1_val (inputs g)) = ?a" using changes_val [OF w(2) assms(1) _ alu_positions(1) [OF assms(1)]] by simp
  have "flag_bit 0 ?a = 0 \<or> flag_bit 0 ?a = 1" by (simp add: flag_bit_def)
  note e = shift_final_eqs [OF assms(1) w(3,2) pre(1) this d(3), where b = "getGF2E_X ^ 16 * ?a" and x = "inverse getGF2E_X", unfolded num_def, OF d(4) [simplified]]
  then show ?thesis using SHR_sat(2) [OF assms(1) all_assigned [OF w(2) assms(1) pre(1)]] w(1,2) same by auto
qed

section \<open>Outside of a stand-alone gadget\<close>

text \<open>Without the constraints of the double word nothing ties the packed word to the product.\<close>

lemma free_result:
  assumes "alu_wf g" "pb_inv u" "input_eqs fb g u" "result_eqs b x packed g u" "arr g c packed" "c \<in> {11, 27}" "m < 2 ^ 16"
  shows "\<exists>w. changes (ix g ` ({5} \<union> {c..<c + 16})) u w \<and> input_eqs fb g w \<and> result_eqs b x packed g w \<and> num w (out_result (results g)) = m \<and> booleans w packed"
proof -
  note p = alu_positions [OF assms(1)] and q = shift_positions [OF assms(1)]
  define v where "v = set_val (out_result (results g)) (fe m) u"
  have V: "changes (ix g ` {5}) u v" unfolding v_def by (rule changes_position [OF assms(1,2) p(6)])
  define w where "w = CompressionPacking_generateWitness (unpacker Op_NONE packed (out_result (results g))) v"
  have c: "c + 16 \<le> 155" "5 \<notin> {c..<c + 16}" using assms(6) by auto
  note W = unpacker_facts [OF assms(1,5) c(1) p(6) _ c(2) changesD(2) [OF V], of Op_NONE, folded w_def, simplified]
  have "changes (ix g ` ({5} \<union> {c..<c + 16})) u w" by (rule changes_join [OF V]) (use W(1) in simp_all)
  note uw = changes_val [OF this assms(1)]
  have same: "val w y = val u y" if "var_index y = ix g k" "k \<in> {0, 1, 4, 6} \<union> {43..<59}" for y k
    using uw [OF _ that(1)] that(2) assms(6) c(1) by auto
  have aux: "val w (auxArr g ! i) = val u (auxArr g ! i)" if "i < 16" for i using same [OF q(5) [OF that]] that by simp
  have vals: "val w (shift_dRes g) = val u (shift_dRes g)" "val w (shift_rem g) = val u (shift_rem g)" "val w (shift_invRem g) = val u (shift_invRem g)"
    "val w (shift_witnessFlag g) = val u (shift_witnessFlag g)" "val w (arg1_val (inputs g)) = val u (arg1_val (inputs g))" "val w (arg2_val (inputs g)) = val u (arg2_val (inputs g))"
    "val w (out_flag (results g)) = val u (out_flag (results g))" "val w (out_isMemOp (results g)) = val u (out_isMemOp (results g))"
    using same [OF q(1)] same [OF q(2)] same [OF q(3)] same [OF q(4)] same [OF p(1)] same [OF p(2)] same [OF p(5)] same [OF p(7)] by simp_all
  have bits: "map (val w) (shift_bits g) = map (val u) (shift_bits g)" using aux by (simp add: shift_bits_4 [OF assms(1)])
  have n: "num v (out_result (results g)) = m" using assms(2,7) by (intro num_fe) (simp_all add: v_def)
  have "num w (out_result (results g)) = m" using changes_val [OF W(1) assms(1) _ p(6)] n c assms(6) by (auto simp: num_def)
  moreover have bo: "booleans w packed" by (rule bits_of_booleans [OF W(2)])
  moreover have "pack_sum 1 (map (val w) packed) = fe m"
    using pack_bnum [OF bo] bits_of_bnum [OF W(2)] n assms(7) by (simp add: arr_length [OF assms(5)] take_bit_nat_eq_self)
  ultimately have "result_eqs b x packed g w" using assms(4) val_num [of w "out_result (results g)"] by (simp add: result_eqs_def vals bits del: map_eq_conv)
  moreover have "input_eqs fb g w" using assms(3) by (simp add: input_eqs_def bit_eqs_def boolean_def vals aux bits del: map_eq_conv)
  ultimately show ?thesis using \<open>changes (ix g ` ({5} \<union> {c..<c + 16})) u w\<close> \<open>num w (out_result (results g)) = m\<close> bo by blast
qed

lemma shift_free:
  assumes "alu_wf g" "pb_inv pb" "shift_pre g pb" "\<not> standAlone g" "m < 2 ^ 16"
  shows "\<exists>w. changes (ix g ` {4..<155}) pb w \<and> sat Op_SHL (SHL_constraints g) w \<and> num w (out_result (results g)) = m"
    "\<exists>w. changes (ix g ` {4..<155}) pb w \<and> sat Op_SHR (SHR_constraints g) w \<and> num w (out_result (results g)) = m"
proof -
  have pre: "alu_pre g pb" using assms(3) by (simp add: shift_pre_def)
  have free: "du_holds op g w" for op w using assms(4) by (simp add: du_holds_def)
  note a = alu_arrays [OF assms(1)]
  have arg1: "val w (arg1_val (inputs g)) = val u (arg1_val (inputs g))" if "changes (ix g ` ({5} \<union> {c..<c + 16})) u w" "c \<in> {11, 27}" for u w c
    using changes_val [OF that(1) assms(1) _ alu_positions(1) [OF assms(1)]] that(2) by auto
  obtain u where u: "changes (ix g ` {4..<155}) pb u" "input_eqs 15 g u" "result_eqs (val u (arg1_val (inputs g))) getGF2E_X (unpackedArg1 (vars g)) g u"
    using SHL_runs [OF assms(1-3)] by blast
  obtain w where w: "changes (ix g ` ({5} \<union> {11..<11 + 16})) u w" "input_eqs 15 g w" "result_eqs (val u (arg1_val (inputs g))) getGF2E_X (unpackedArg1 (vars g)) g w" "num w (out_result (results g)) = m"
    using free_result [OF assms(1) changesD(2) [OF u(1)] u(2,3) a(1) _ assms(5)] by auto
  have c: "changes (ix g ` {4..<155}) pb w" by (rule changes_join [OF u(1) w(1)]) auto
  have "sat Op_SHL (SHL_constraints g) w" using w(3) arg1 [OF w(1)] by (intro SHL_sat(2) [OF assms(1) all_assigned [OF c assms(1) pre] w(2) _ free]) simp
  then show "\<exists>w. changes (ix g ` {4..<155}) pb w \<and> sat Op_SHL (SHL_constraints g) w \<and> num w (out_result (results g)) = m" using c w(4) by blast
  obtain u where u: "changes (ix g ` {4..<155}) pb u" "input_eqs 0 g u" "result_eqs (getGF2E_X ^ 16 * val u (arg1_val (inputs g))) (inverse getGF2E_X) (unpackedArg2 (vars g)) g u"
    using SHR_runs [OF assms(1-3)] by blast
  obtain w where w: "changes (ix g ` ({5} \<union> {27..<27 + 16})) u w" "input_eqs 0 g w" "result_eqs (getGF2E_X ^ 16 * val u (arg1_val (inputs g))) (inverse getGF2E_X) (unpackedArg2 (vars g)) g w"
    "num w (out_result (results g)) = m" using free_result [OF assms(1) changesD(2) [OF u(1)] u(2,3) a(2) _ assms(5)] by auto
  have c: "changes (ix g ` {4..<155}) pb w" by (rule changes_join [OF u(1) w(1)]) auto
  have "sat Op_SHR (SHR_constraints g) w" using w(3) arg1 [OF w(1)] by (intro SHR_sat(2) [OF assms(1) all_assigned [OF c assms(1) pre] w(2) _ free]) simp
  then show "\<exists>w. changes (ix g ` {4..<155}) pb w \<and> sat Op_SHR (SHR_constraints g) w \<and> num w (out_result (results g)) = m" using c w(4) by blast
qed

section \<open>Correctness\<close>

lemma shift_pre_tagged: "pb_inv pb \<Longrightarrow> shift_pre g pb \<Longrightarrow> shift_pre g (add_tagged cs pb)"
  using alu_pre_tagged [of pb g cs] val_same [of "add_tagged cs pb" pb] by (simp add: shift_pre_def num_def add_tagged_facts)

interpretation alu_shl: alu_component Op_SHL SHL_constraints SHL_generateWitness shift_pre "{4..<155}"
  by unfold_locales (use SHL_runs in blast, rule shift_pre_tagged)

interpretation alu_shr: alu_component Op_SHR SHR_constraints SHR_generateWitness shift_pre "{4..<155}"
  by unfold_locales (use SHR_runs in blast, rule shift_pre_tagged)

text \<open>Property C33. Shifts. For a first argument of 16 bits, every assignment that satisfies the constraints of the
  stand-alone \<open>ALU_SHL_Gadget\<close> or \<open>ALU_SHR_Gadget\<close> has as its result the first argument shifted by the second,
  with zeros for shifts by 16 and more, and as its flag the bit at the end that is shifted out. The witness code
  computes an assignment that satisfies the opcode's system. When the gadget is not stand-alone, as in the arithmetic
  unit, the constraints of the double word are left out, and then every 16-bit number is the result of some
  assignment that satisfies the rest.\<close>

theorem alu_shift_correct:
  assumes "alu_wf g" "pb_inv pb"
  shows "(standAlone g \<longrightarrow> num pb (arg1_val (inputs g)) < 2 ^ 16 \<longrightarrow> sat Op_SHL (SHL_constraints g) pb \<longrightarrow>
      num pb (out_result (results g)) = take_bit 16 (push_bit (num pb (arg2_val (inputs g))) (num pb (arg1_val (inputs g))))
      \<and> val pb (out_flag (results g)) = (if bit (num pb (arg1_val (inputs g))) 15 then 1 else 0) \<and> val pb (out_isMemOp (results g)) = 0)
    \<and> (standAlone g \<longrightarrow> num pb (arg1_val (inputs g)) < 2 ^ 16 \<longrightarrow> sat Op_SHR (SHR_constraints g) pb \<longrightarrow>
      num pb (out_result (results g)) = drop_bit (num pb (arg2_val (inputs g))) (num pb (arg1_val (inputs g)))
      \<and> val pb (out_flag (results g)) = (if bit (num pb (arg1_val (inputs g))) 0 then 1 else 0) \<and> val pb (out_isMemOp (results g)) = 0)
    \<and> (shift_pre g pb \<longrightarrow> ready Op_SHL (alu_written g) pb \<longrightarrow> res_bind (SHL_generateWitness g (add_tagged (SHL_constraints g) pb)) (pb_isSatisfied Op_SHL) = Inr True)
    \<and> (shift_pre g pb \<longrightarrow> ready Op_SHR (alu_written g) pb \<longrightarrow> res_bind (SHR_generateWitness g (add_tagged (SHR_constraints g) pb)) (pb_isSatisfied Op_SHR) = Inr True)
    \<and> (\<not> standAlone g \<longrightarrow> shift_pre g pb \<longrightarrow> m < 2 ^ 16 \<longrightarrow>
      (\<exists>w. changes (alu_written g) pb w \<and> sat Op_SHL (SHL_constraints g) w \<and> num w (out_result (results g)) = m)
      \<and> (\<exists>w. changes (alu_written g) pb w \<and> sat Op_SHR (SHR_constraints g) w \<and> num w (out_result (results g)) = m))"
proof (intro conjI impI)
  note W = alu_written_positions(1) [OF assms(1)]
  show "res_bind (SHL_generateWitness g (add_tagged (SHL_constraints g) pb)) (pb_isSatisfied Op_SHL) = Inr True" if "shift_pre g pb" "ready Op_SHL (alu_written g) pb"
    using alu_shl.satisfied [OF assms that(1)] that(2) by (simp add: W)
  show "res_bind (SHR_generateWitness g (add_tagged (SHR_constraints g) pb)) (pb_isSatisfied Op_SHR) = Inr True" if "shift_pre g pb" "ready Op_SHR (alu_written g) pb"
    using alu_shr.satisfied [OF assms that(1)] that(2) by (simp add: W)
  assume "\<not> standAlone g" "shift_pre g pb" "m < 2 ^ 16"
  note f = shift_free [OF assms this(2,1,3)]
  show "\<exists>w. changes (alu_written g) pb w \<and> sat Op_SHL (SHL_constraints g) w \<and> num w (out_result (results g)) = m"
    "\<exists>w. changes (alu_written g) pb w \<and> sat Op_SHR (SHR_constraints g) w \<and> num w (out_result (results g)) = m" unfolding W by (rule f)+
qed (use SHL_sound [OF assms] SHR_sound [OF assms] in blast)+

theorem alu_shift_correct_witness:
  "res_bind (SHL_generateWitness sample_component (add_tagged (SHL_constraints sample_component) (sample_board 3 5 0 0))) (pb_isSatisfied Op_SHL) = Inr True"
proof -
  have "shift_pre sample_component (sample_board 3 5 0 0)" using sample_board_facts(2,4) by (simp add: shift_pre_def)
  moreover have "ready Op_SHL (alu_written sample_component) (sample_board 3 5 0 0)" by (simp add: ready_def sample_board_facts(3) pb_isSatisfied_iff)
  ultimately show ?thesis
    using alu_shift_correct [OF sample_component_wf sample_board_facts(1), THEN conjunct2, THEN conjunct2, THEN conjunct1] by blast
qed

end
