(* ===== verification/AluProduct.thy ===== *)
theory AluProduct
  imports AluCompare GeneratorOrder
begin

text \<open>
  The multiplication gadget inside the components of \<open>ALU.cpp\<close> that multiply or divide. It works on two words of
  the component and keeps its partial products in \<open>opcodeAux1_\<close> and \<open>opcodeAux2_\<close>; the product is the
  exponent of \<open>opcodeAux2_[0]\<close>. The first partial product of an unsigned multiplication is not part of its
  constraints, and the components use that variable for another value.
\<close>

section \<open>The gadgets\<close>

definition mult_g :: "bool \<Rightarrow> Opcode \<Rightarrow> Variable list \<Rightarrow> Variable list \<Rightarrow> ALU_Component_Gadget \<Rightarrow> Multiplication_Gadget" where
  "mult_g isSigned op word1 word2 g = \<lparr>mu_unpacked1 = word1, mu_unpacked2 = word2, mu_partials1 = opcodeAux1 (vars g),
     mu_partials2 = opcodeAux2 (vars g), mu_isSigned = isSigned, mu_opcode = op\<rparr>"

text \<open>The loops that write the bits of a number.\<close>

definition write_bits :: "Variable list \<Rightarrow> (nat \<Rightarrow> bool) \<Rightarrow> nat \<Rightarrow> Protoboard \<Rightarrow> Protoboard" where
  "write_bits vs b n pb = fold (\<lambda>i. set_val (vs ! i) (if b i then 1 else 0)) [0..<n] pb"

definition bool_constraints :: "ALU_Component_Gadget \<Rightarrow> Variable list \<Rightarrow> (CircuitPolynomial \<times> string) list" where
  "bool_constraints g vs = map (\<lambda>i. bool_constraint (vs ! i)) [0..<registerLength g]"

text \<open>\<open>x * (x * inverse + 1)\<close> is 0 when the inverse is 0 or the inverse of \<open>x\<close>, as \<open>x\<close> demands.\<close>

definition inverse_poly :: "LinearCombination \<Rightarrow> Variable \<Rightarrow> CircuitPolynomial" where
  "inverse_poly x i = cp_times (cp_lc x) (cp_plus (cp_times (cp_lc x) (cp_var i)) (cp_const 1))"

section \<open>Facts on words\<close>

lemma assigned_index: "var_index u = var_index v \<Longrightarrow> assigned pb u \<longleftrightarrow> assigned pb v"
  by (simp add: assigned_def)

lemma assigned_position: "\<forall>v \<in> set (alu_vars g). assigned pb v \<Longrightarrow> alu_wf g \<Longrightarrow> var_index v = ix g k \<Longrightarrow> k < 155 \<Longrightarrow> assigned pb v"
  using assigned_index [of v "alu_vars g ! k" pb] alu_vars_length [of g] by (simp add: ix_def)

lemma write_bits_facts:
  assumes "alu_wf g" "arr g b vs" "b + 16 \<le> 155" "pb_inv pb" "\<And>i. i < 16 \<Longrightarrow> B i = bit (N :: nat) i"
  shows "changes (ix g ` {b..<b + 16}) pb (write_bits vs B 16 pb)" "bits_of (write_bits vs B 16 pb) vs N"
proof -
  have "changes (ix g ` {b..<b + n}) pb (write_bits vs B n pb) \<and> (\<forall>i < n. val (write_bits vs B n pb) (vs ! i) = (if bit N i then 1 else 0))" if "n \<le> 16" for n
    using that
  proof (induction n)
    case 0
    then show ?case using assms(4) by (simp add: write_bits_def changes_def)
  next
    case (Suc n)
    let ?w = "write_bits vs B n pb"
    have IH: "changes (ix g ` {b..<b + n}) pb ?w" "\<And>i. i < n \<Longrightarrow> val ?w (vs ! i) = (if bit N i then 1 else 0)" using Suc by auto
    have e: "write_bits vs B (Suc n) pb = set_val (vs ! n) (if bit N n then 1 else 0) ?w" using assms(5) Suc.prems by (simp add: write_bits_def)
    have p: "var_index (vs ! i) = ix g (b + i)" if "i < 16" for i using assms(2) that by (simp add: arr_def)
    have "changes (ix g ` {b + n}) ?w (write_bits vs B (Suc n) pb)" unfolding e
      by (rule changes_position [OF assms(1) changesD(2) [OF IH(1)]]) (use p Suc.prems in simp)
    then have "changes (ix g ` {b..<b + Suc n}) pb (write_bits vs B (Suc n) pb)" by (rule changes_join [OF IH(1)]) auto
    moreover have "val (write_bits vs B (Suc n) pb) (vs ! i) = (if bit N i then 1 else 0)" if "i < Suc n" for i
    proof -
      have "ix g (b + i) = ix g (b + n) \<longleftrightarrow> i = n" using assms(1,3) that Suc.prems by simp
      then show ?thesis unfolding e using IH(2) [of i] changesD(2) [OF IH(1)] p that Suc.prems by (auto simp: less_Suc_eq)
    qed
    ultimately show ?case by blast
  qed
  from this [of 16] show "changes (ix g ` {b..<b + 16}) pb (write_bits vs B 16 pb)" "bits_of (write_bits vs B 16 pb) vs N"
    by (simp_all add: bits_of_def arr_length [OF assms(2)])
qed

lemma bool_constraints_sat:
  assumes "alu_wf g" "length vs = 16"
  shows "(\<forall>(p, nm) \<in> set (bool_constraints g vs). holds pb p) \<longleftrightarrow> (\<forall>u \<in> set vs. assigned pb u) \<and> booleans pb vs"
proof -
  have "bool_constraints g vs = map bool_constraint vs"
    unfolding bool_constraints_def alu_lengths(10) [OF assms(1)] by (rule nth_equalityI) (simp_all add: assms(2))
  moreover have "holds pb (booleanity u) \<longleftrightarrow> assigned pb u \<and> boolean pb u" for u by (simp add: holds_iff pv_booleanity boolean_def)
  ultimately show ?thesis by (auto simp: bool_constraint_def booleans_def)
qed

lemma inverse_poly_facts:
  "pv pb (inverse_poly x i) = lv pb x * (lv pb x * val pb i + 1)" "plain (inverse_poly x i)"
  "lc_over V x \<Longrightarrow> i \<in> V \<Longrightarrow> cp_over V (inverse_poly x i)"
  by (simp_all add: inverse_poly_def pv_simps)

lemma word_bit_tests: "w AND push_bit i 1 \<noteq> 0 \<longleftrightarrow> bit w i" "drop_bit i w AND 1 \<noteq> 0 \<longleftrightarrow> bit w i" for w :: "'a::len word"
proof -
  show "w AND push_bit i 1 \<noteq> 0 \<longleftrightarrow> bit w i" by (simp only: and_push_bit_1 not_not)
  show "drop_bit i w AND 1 \<noteq> 0 \<longleftrightarrow> bit w i" by (simp add: and_one_eq bit_iff_odd_drop_bit odd_iff_mod_2_eq_one)
qed

lemma fe_zero_iff: "n < 2 ^ 64 \<Longrightarrow> fe n = 0 \<longleftrightarrow> n = 0"
proof -
  assume n: "n < 2 ^ 64"
  have "element (0 :: FElem) = 0" by (simp add: fe_defs)
  moreover have "fe 0 = 0" by (simp add: fe_def fe_defs)
  ultimately show ?thesis using unat_fe [OF n] by (metis unat_0)
qed

lemma inverse_zero: "x * (x * i + 1) = 0 \<Longrightarrow> x * i = (if x = 0 then 0 else 1)" for x i :: FElem
  by (auto simp: fe_add_eq_0)

section \<open>The multiplication inside a component\<close>

text \<open>Two words of the component, at positions apart from those of the partial products.\<close>

definition factors :: "ALU_Component_Gadget \<Rightarrow> nat \<Rightarrow> nat \<Rightarrow> Variable list \<Rightarrow> Variable list \<Rightarrow> bool" where
  "factors g a b word1 word2 \<longleftrightarrow> arr g a word1 \<and> arr g b word2 \<and> a + 16 \<le> 155 \<and> b + 16 \<le> 155
     \<and> {a..<a + 16} \<inter> {43..<75} = {} \<and> {b..<b + 16} \<inter> {43..<75} = {}"

lemma factorsD:
  assumes "factors g a b word1 word2"
  shows "arr g a word1" "arr g b word2" "a + 16 \<le> 155" "b + 16 \<le> 155" "{a..<a + 16} \<inter> {43..<75} = {}" "{b..<b + 16} \<inter> {43..<75} = {}"
    "length word1 = 16" "length word2 = 16"
  using assms arr_length [of g a word1] arr_length [of g b word2] unfolding factors_def by blast+

lemma mult_g_wf:
  assumes "alu_wf g" "factors g a b word1 word2"
  shows "mu_wf (mult_g s op word1 word2 g)" "mu_written (mult_g s op word1 word2 g) = ix g ` {43..<75}"
proof -
  note f = factorsD [OF assms(2)] and r = alu_arrays [OF assms(1)] and l = alu_lengths [OF assms(1)]
  have p: "map var_index (opcodeResult (vars g) @ opcodeCarry (vars g)) = map (ix g) [43..<75]"
    using positions_map [OF r(3)] positions_map [OF r(4)] upt_add_eq_append [of 43 59 16] by simp
  have s: "var_index ` set (opcodeResult (vars g) @ opcodeCarry (vars g)) = ix g ` {43..<75}" by (metis p image_set set_upt)
  show "mu_written (mult_g s op word1 word2 g) = ix g ` {43..<75}" using s by (simp add: mu_written_def mult_g_def)
  have "distinct (map (ix g) [43..<75])" by (subst ix_distinct [OF assms(1)]) auto
  then have "distinct (map var_index (opcodeResult (vars g) @ opcodeCarry (vars g)))" unfolding p .
  moreover have "ix g ` ({a..<a + 16} \<union> {b..<b + 16}) \<inter> ix g ` {43..<75} = {}" by (rule ix_disjoint [OF assms(1)]) (use f(3-6) in auto)
  then have "var_index ` (set word1 \<union> set word2) \<inter> var_index ` set (opcodeResult (vars g) @ opcodeCarry (vars g)) = {}"
    unfolding s using arr_set [OF f(1)] arr_set [OF f(2)] by (simp add: image_Un)
  moreover have "distinct (map var_index word1)" by (rule arr_distinct [OF assms(1) f(1,3)])
  ultimately show "mu_wf (mult_g s op word1 word2 g)"
    unfolding mu_wf_def by (simp add: mult_g_def l f(7,8) Let_def)
qed

lemma mu_eqs_same:
  assumes "mu_wf g" "\<And>u. u \<in> set (mu_unpacked1 g) \<union> set (mu_unpacked2 g) \<union> set (mu_partials2 g) \<Longrightarrow> val w u = val pb u"
    "\<And>i. 0 < i \<Longrightarrow> i \<le> mu_idxLast g \<Longrightarrow> val w (mu_partials1 g ! i) = val pb (mu_partials1 g ! i)"
    "mu_isSigned g \<Longrightarrow> val w (mu_partials1 g ! 0) = val pb (mu_partials1 g ! 0)"
  shows "mu_eqs g w \<longleftrightarrow> mu_eqs g pb"
proof -
  note wf = mu_wfD [OF assms(1)]
  have m: "mu_idxLast g < length (mu_unpacked1 g)" "mu_idxLast g = length (mu_unpacked1 g) - 1" using wf(3) by simp_all
  note cs = chain_same [of "mu_unpacked1 g" w pb "mu_idxLast g" "mu_partials1 g"]
  have "mp_chain (mu_multPack1 g) w \<longleftrightarrow> mp_chain (mu_multPack1 g) pb" unfolding mp_chain_def
    using cs(1) [OF _ _ m(1)] cs(3) [OF _ _ m(1,2) wf(2)] assms(2,3) wf(2) by (auto simp: mu_multPack1_def wf(3) [symmetric])
  moreover have "val w (mu_partials1 g ! mu_idxLast g) = val pb (mu_partials1 g ! mu_idxLast g)" using assms(3) wf(2) by simp
  moreover have "val w (mu_unpacked2 g ! i) = val pb (mu_unpacked2 g ! i)" "val w (mu_partials2 g ! i) = val pb (mu_partials2 g ! i)" if "i \<le> mu_idxLast g" for i
    using assms(2) wf(4,6) that by simp_all
  ultimately show ?thesis unfolding mu_eqs_def Let_def using assms(4) by (auto simp: Suc_le_eq)
qed

text \<open>What the constraints depend on: the two words and the partial products.\<close>

definition mult_positions :: "bool \<Rightarrow> nat \<Rightarrow> nat \<Rightarrow> nat set" where
  "mult_positions s a b = {a..<a + 16} \<union> {b..<b + 16} \<union> {44..<75} \<union> (if s then {43} else {})"

lemma mult_frame:
  assumes "alu_wf g" "factors g a b word1 word2"
    "changes (ix g ` K) pb w" "K \<subseteq> {..<155}" "K \<inter> mult_positions s a b = {}" "mu_eqs (mult_g s op word1 word2 g) pb"
  shows "mu_eqs (mult_g s op word1 word2 g) w"
proof -
  note f = factorsD [OF assms(2)]
  note r = alu_arrays [OF assms(1)]
  have same: "val w v = val pb v" if "var_index v = ix g k" "k \<in> mult_positions s a b" for v k
    using that f(3,4) assms(5) by (intro changes_val [OF assms(3,1,4) that(1)]) (auto simp: mult_positions_def split: if_splits)
  have word: "val w v = val pb v" if "arr g c vs" "{c..<c + 16} \<subseteq> mult_positions s a b" "v \<in> set vs" for c vs v
  proof -
    have "var_index v \<in> ix g ` {c..<c + 16}" using arr_set [OF that(1)] that(3) by blast
    then show ?thesis using same that(2) by blast
  qed
  have sub: "{a..<a + 16} \<subseteq> mult_positions s a b" "{b..<b + 16} \<subseteq> mult_positions s a b" "{59..<59 + 16} \<subseteq> mult_positions s a b"
    unfolding mult_positions_def by (blast, blast, simp add: ivl_subset Un_assoc [symmetric] subset_iff)
  have "mu_eqs (mult_g s op word1 word2 g) w \<longleftrightarrow> mu_eqs (mult_g s op word1 word2 g) pb"
  proof (rule mu_eqs_same [OF mult_g_wf(1) [OF assms(1,2)]])
    show "val w u = val pb u" if "u \<in> set (mu_unpacked1 (mult_g s op word1 word2 g)) \<union> set (mu_unpacked2 (mult_g s op word1 word2 g)) \<union> set (mu_partials2 (mult_g s op word1 word2 g))" for u
      using that word [OF f(1) sub(1)] word [OF f(2) sub(2)] word [OF r(4) sub(3)] by (auto simp: mult_g_def)
    show "val w (mu_partials1 (mult_g s op word1 word2 g) ! i) = val pb (mu_partials1 (mult_g s op word1 word2 g) ! i)" if "0 < i" "i \<le> mu_idxLast (mult_g s op word1 word2 g)" for i
      using that same [OF arr_index [OF r(3), of i]] by (simp add: mult_g_def mu_idxLast_def f(7) mult_positions_def)
    show "val w (mu_partials1 (mult_g s op word1 word2 g) ! 0) = val pb (mu_partials1 (mult_g s op word1 word2 g) ! 0)" if "mu_isSigned (mult_g s op word1 word2 g)"
      using that same [OF arr_index [OF r(3), of 0]] by (simp add: mult_g_def mult_positions_def)
  qed
  then show ?thesis using assms(6) by simp
qed

lemma mult_value:
  assumes "alu_wf g" "factors g a b word1 word2"
    "mu_eqs (mult_g s op word1 word2 g) pb" "booleans pb word1" "booleans pb word2"
  shows "val pb (opcodeAux2 (vars g) ! 0) = getGF2E_X powi (read16 s (bnum pb word1) * read16 s (bnum pb word2))"
proof -
  note f = factorsD [OF assms(2)]
  have "\<forall>u \<in> set (mu_unpacked1 (mult_g s op word1 word2 g)) \<union> set (mu_unpacked2 (mult_g s op word1 word2 g)). boolean pb u"
    using assms(4,5) by (auto simp: mult_g_def booleans_def)
  from mu_product [OF assms(3) mult_g_wf(1) [OF assms(1,2)] this] show ?thesis
    by (simp add: mult_g_def word_value_read16 f(7,8) bnum_def)
qed

lemma mult_runs:
  fixes op :: Opcode and s :: bool
  assumes "alu_wf g" "factors g a b word1 word2"
    "pb_inv u" "bits_of u word1 n1" "bits_of u word2 n2"
  defines "w \<equiv> Multiplication_witness (mult_g s op word1 word2 g) u"
  shows "Multiplication_generateWitness (mult_g s op word1 word2 g) u = Inr w" "changes (ix g ` {43..<75}) u w" "mu_eqs (mult_g s op word1 word2 g) w"
    "bits_of w word1 n1" "bits_of w word2 n2"
proof -
  note f = factorsD [OF assms(2)]
  note wf = mult_g_wf [OF assms(1,2), of s op]
  show "Multiplication_generateWitness (mult_g s op word1 word2 g) u = Inr w"
    using mu_wfD(2,3) [OF wf(1)] by (simp add: Multiplication_generateWitness_def w_def)
  show c: "changes (ix g ` {43..<75}) u w" unfolding w_def wf(2) [symmetric] by (rule changes_writes [OF mu_writes [OF wf(1)] assms(3)])
  show "mu_eqs (mult_g s op word1 word2 g) w" unfolding w_def
    using bits_of_booleans [OF assms(4)] bits_of_booleans [OF assms(5)] by (intro mu_witness_eqs [OF wf(1) assms(3)]) (auto simp: mult_g_def booleans_def)
  show "bits_of w word1 n1" "bits_of w word2 n2"
    using bits_of_changes [OF assms(4) c assms(1) f(1,3)] bits_of_changes [OF assms(5) c assms(1) f(2,4)] f(5,6) by (simp_all add: Int_commute)
qed

lemma mult_sat:
  assumes "alu_wf g" "factors g a b word1 word2"
  shows "\<forall>(p, nm) \<in> set (Multiplication_constraints (mult_g s op word1 word2 g)). holds pb p \<Longrightarrow> mu_eqs (mult_g s op word1 word2 g) pb"
    and "\<forall>v \<in> set (alu_vars g). assigned pb v \<Longrightarrow> mu_eqs (mult_g s op word1 word2 g) pb \<Longrightarrow>
      \<forall>(p, nm) \<in> set (Multiplication_constraints (mult_g s op word1 word2 g)). holds pb p"
proof -
  note f = factorsD [OF assms(2)]
  let ?m = "mult_g s op word1 word2 g"
  note wf = mult_g_wf [OF assms(1,2), of s op]
  show "\<forall>(p, nm) \<in> set (Multiplication_constraints ?m). holds pb p \<Longrightarrow> mu_eqs ?m pb"
    using mu_constraints_iff [of ?m pb] mu_plain [of _ _ ?m] holds_zero by blast
  assume a: "\<forall>v \<in> set (alu_vars g). assigned pb v" and e: "mu_eqs ?m pb"
  have "assigned pb v" if "v \<in> set word1 \<union> set word2 \<or> var_index v \<in> mu_written ?m" for v
  proof -
    have "var_index v \<in> ix g ` ({a..<a + 16} \<union> {b..<b + 16} \<union> {43..<75})" using that arr_set [OF f(1)] arr_set [OF f(2)] unfolding wf(2) by blast
    then show ?thesis using assigned_position [OF a assms(1)] f(3,4) by auto
  qed
  then have "cp_over {v. assigned pb v} p" if "(p, nm) \<in> set (Multiplication_constraints ?m)" for p nm
    using mu_over [OF wf(1) that] by (auto simp: cp_over_def mult_g_def)
  then show "\<forall>(p, nm) \<in> set (Multiplication_constraints ?m). holds pb p"
    using mu_constraints_iff [of ?m pb] mu_plain [of _ _ ?m] e holdsI by blast
qed

end
