(* ===== verification/AluMul.thy ===== *)
theory AluMul
  imports AluProduct
begin

text \<open>
  The multiplications, \<open>ALU_MULL_Gadget\<close>, \<open>ALU_UMULH_Gadget\<close> and \<open>ALU_SMULH_Gadget\<close> of \<open>ALU.cpp\<close>. The product of
  the arguments, as an exponent of the generator, is compared with a word of twice the length; \<open>MULL\<close> returns the
  low half of it, \<open>UMULH\<close> and \<open>SMULH\<close> the high half.
\<close>

section \<open>The gadgets\<close>

abbreviation lowWord :: "ALU_Component_Gadget \<Rightarrow> Variable list" where "lowWord g \<equiv> opcodeAux3 (vars g)"
abbreviation highWord :: "ALU_Component_Gadget \<Rightarrow> Variable list" where "highWord g \<equiv> opcodeAux4 (vars g)"

abbreviation multArgs :: "bool \<Rightarrow> Opcode \<Rightarrow> ALU_Component_Gadget \<Rightarrow> Multiplication_Gadget" where
  "multArgs isSigned op g \<equiv> mult_g isSigned op (unpackedArg1 (vars g)) (unpackedArg2 (vars g)) g"

definition dmultPack_g :: "bool \<Rightarrow> Opcode \<Rightarrow> ALU_Component_Gadget \<Rightarrow> DoubleMultPack_Gadget" where
  "dmultPack_g isSigned op g = \<lparr>dm_unpacked1 = lowWord g, dm_unpacked2 = highWord g, dm_partials1 = opcodeAux5 (vars g), dm_partials2 = opcodeAux6 (vars g),
     dm_packed = opcodeAux2 (vars g) ! 0, dm_isSigned = isSigned, dm_opcode = op\<rparr>"

text \<open>The constraints up to the flag; \<open>unpackedResult\<close> and \<open>witnessBits\<close> are the two halves.\<close>

definition product_constraints :: "bool \<Rightarrow> Opcode \<Rightarrow> Variable list \<Rightarrow> Variable list \<Rightarrow> ALU_Component_Gadget \<Rightarrow> tagged list" where
  "product_constraints isSigned op unpackedResult witnessBits g = standAlone_constraints op g @ tag op (Multiplication_constraints (multArgs isSigned op g))
     @ tag op (CompressionPacking_constraints (unpacker op unpackedResult (out_result (results g))))
     @ tag op (bool_constraints g witnessBits) @ tag op (DoubleMultPack_constraints (dmultPack_g isSigned op g))"

definition product_flag_constraints :: "Opcode \<Rightarrow> Variable \<Rightarrow> string \<Rightarrow> ALU_Component_Gadget \<Rightarrow> tagged list" where
  "product_flag_constraints op x nm g = [(op, inverse_poly (lc_var x) (pInverse (vars g)), ''flag inv''),
     (op, cp_plus (cp_var (out_flag (results g))) (var_times x (pInverse (vars g))), nm)]"

definition MULL_constraints :: "ALU_Component_Gadget \<Rightarrow> tagged list" where
  "MULL_constraints g = product_constraints False Op_MULL (lowWord g) (highWord g) g
     @ tag Op_MULL (CompressionPacking_constraints (packer Op_MULL (highWord g) (opcodeAux1 (vars g) ! 0)))
     @ product_flag_constraints Op_MULL (opcodeAux1 (vars g) ! 0) ''mull flag'' g @ [isMemOp_zero Op_MULL g]"

definition UMULH_constraints :: "ALU_Component_Gadget \<Rightarrow> tagged list" where
  "UMULH_constraints g = product_constraints False Op_UMULH (highWord g) (lowWord g) g
     @ product_flag_constraints Op_UMULH (out_result (results g)) ''umulh flag'' g @ [isMemOp_zero Op_UMULH g]"

definition invNegative :: "ALU_Component_Gadget \<Rightarrow> Variable" where "invNegative g = opcodeAux5 (vars g) ! 0"

definition ones :: "ALU_Component_Gadget \<Rightarrow> FElem" where
  "ones g = mapIntegerToFieldElement 0 (registerLength g) 0xFFFF"

definition SMULH_constraints :: "ALU_Component_Gadget \<Rightarrow> tagged list" where
  "SMULH_constraints g = (let r = lc_var (out_result (results g)); n = lc_plus r (lc_const (ones g)) in
     product_constraints True Op_SMULH (highWord g) (lowWord g) g
     @ [(Op_SMULH, inverse_poly r (pInverse (vars g)), ''flag positive inv''),
        (Op_SMULH, inverse_poly n (invNegative g), ''flag negative inv''),
        (Op_SMULH, cp_plus (cp_plus (cp_plus (cp_var (out_flag (results g))) (cp_times (cp_lc r) (cp_var (pInverse (vars g)))))
           (cp_times (cp_lc n) (cp_var (invNegative g)))) (cp_const 1), ''flag''),
        isMemOp_zero Op_SMULH g])"

text \<open>The witness code up to the flag. \<open>res\<close> and \<open>b\<close> give the result and the bits of the other half for the two operands.\<close>

definition product_halves :: "Opcode \<Rightarrow> (size_t \<Rightarrow> size_t \<Rightarrow> FElem) \<Rightarrow> (size_t \<Rightarrow> size_t \<Rightarrow> nat \<Rightarrow> bool) \<Rightarrow> Variable list \<Rightarrow> Variable list \<Rightarrow>
    ALU_Component_Gadget \<Rightarrow> Protoboard \<Rightarrow> Protoboard result" where
  "product_halves op res b unpackedResult witnessBits g pb = (let
     operand1 = mapFieldElementToInteger 0 (registerLength g) (val pb (arg1_val (inputs g)));
     operand2 = mapFieldElementToInteger 0 (registerLength g) (val pb (arg2_val (inputs g)));
     pb = set_val (out_result (results g)) (res operand1 operand2) pb;
     pb = CompressionPacking_generateWitness (unpacker op unpackedResult (out_result (results g))) pb
     in guarded g (write_bits witnessBits (b operand1 operand2) (registerLength g) pb))"

definition product_witness :: "bool \<Rightarrow> Opcode \<Rightarrow> (size_t \<Rightarrow> size_t \<Rightarrow> FElem) \<Rightarrow> (size_t \<Rightarrow> size_t \<Rightarrow> nat \<Rightarrow> bool) \<Rightarrow> Variable list \<Rightarrow> Variable list \<Rightarrow>
    ALU_Component_Gadget \<Rightarrow> Protoboard \<Rightarrow> Protoboard result" where
  "product_witness isSigned op res b unpackedResult witnessBits g pb =
     res_bind (Multiplication_generateWitness (multArgs isSigned op g) (unpack_args op g pb)) (\<lambda>pb.
     res_bind (product_halves op res b unpackedResult witnessBits g pb) (DoubleMultPack_generateWitness (dmultPack_g isSigned op g)))"

definition set_product_flag :: "Variable \<Rightarrow> ALU_Component_Gadget \<Rightarrow> Protoboard \<Rightarrow> Protoboard" where
  "set_product_flag x g pb = (if val pb x = 0 then set_val (out_flag (results g)) 0 (set_val (pInverse (vars g)) 0 pb)
     else set_val (out_flag (results g)) 1 (set_val (pInverse (vars g)) (inverse (val pb x)) pb))"

definition MULL_generateWitness :: "ALU_Component_Gadget \<Rightarrow> Protoboard \<Rightarrow> Protoboard result" where
  "MULL_generateWitness g pb = res_map (\<lambda>pb. set_product_flag (opcodeAux1 (vars g) ! 0) g
       (CompressionPacking_generateWitness (packer Op_MULL (highWord g) (opcodeAux1 (vars g) ! 0)) pb))
     (product_witness False Op_MULL (\<lambda>a b. mapIntegerToFieldElement 0 (registerLength g) (a * b))
       (\<lambda>a b i. drop_bit (registerLength g) (a * b) AND push_bit i 1 \<noteq> 0) (lowWord g) (highWord g) g pb)"

definition UMULH_generateWitness :: "ALU_Component_Gadget \<Rightarrow> Protoboard \<Rightarrow> Protoboard result" where
  "UMULH_generateWitness g pb = res_map (set_product_flag (out_result (results g)) g)
     (product_witness False Op_UMULH (\<lambda>a b. mapIntegerToFieldElement 0 (registerLength g) (drop_bit (registerLength g) (a * b)))
       (\<lambda>a b i. drop_bit i (a * b) AND 1 \<noteq> 0) (highWord g) (lowWord g) g pb)"

text \<open>\<open>int32_t v = int16_t(a) * int16_t(b)\<close>, shifted with its sign.\<close>

definition signed_product :: "size_t \<Rightarrow> size_t \<Rightarrow> 32 word" where
  "signed_product a b = scast (ucast a :: 16 word) * scast (ucast b :: 16 word)"

definition set_signed_flag :: "ALU_Component_Gadget \<Rightarrow> Protoboard \<Rightarrow> Protoboard" where
  "set_signed_flag g pb = (let r = val pb (out_result (results g)) in
     if r \<noteq> 0 then let pb = set_val (pInverse (vars g)) (inverse r) pb in
       if ones g \<noteq> r then set_val (out_flag (results g)) 1 (set_val (invNegative g) (inverse (r + ones g)) pb)
       else set_val (out_flag (results g)) 0 pb
     else set_val (out_flag (results g)) 0 (set_val (invNegative g) (inverse (r + ones g)) pb))"

definition SMULH_generateWitness :: "ALU_Component_Gadget \<Rightarrow> Protoboard \<Rightarrow> Protoboard result" where
  "SMULH_generateWitness g pb = res_map (set_signed_flag g)
     (product_witness True Op_SMULH (\<lambda>a b. mapIntegerToFieldElement 0 (registerLength g) (scast (signed_drop_bit (registerLength g) (signed_product a b))))
       (\<lambda>a b i. signed_drop_bit i (signed_product a b) AND 1 \<noteq> 0) (highWord g) (lowWord g) g pb)"

section \<open>The double word inside a component\<close>

lemma args_factors: "alu_wf g \<Longrightarrow> factors g 11 27 (unpackedArg1 (vars g)) (unpackedArg2 (vars g))"
  using alu_arrays [of g] by (auto simp: factors_def)

lemma dmultPack_wf:
  assumes "alu_wf g"
  shows "dm_wf (dmultPack_g s op g)" "dm_written (dmultPack_g s op g) = ix g ` {108..<138}"
    "set (dm_bits (dmultPack_g s op g)) = set (lowWord g) \<union> set (highWord g)"
proof -
  let ?d = "dmultPack_g s op g"
  note a = alu_arrays [OF assms] and l = alu_lengths [OF assms]
  show b: "set (dm_bits ?d) = set (lowWord g) \<union> set (highWord g)" by (simp add: dm_bits_def dmultPack_g_def)
  have n: "dm_last ?d = 31" by (simp add: dm_last_def dmultPack_g_def l)
  have p: "var_index (dm_partials ?d ! i) = ix g (107 + i)" if "i < 32" for i
    using that arr_index [OF a(7), of i] arr_index [OF a(8), of "i - 16"] by (simp add: dm_partials_def dmultPack_g_def nth_append l not_less)
  have t: "chain_targets (dm_partials ?d) 31 = ix g ` {108..<138}"
  proof -
    have "chain_targets (dm_partials ?d) 31 = (\<lambda>i. ix g (107 + i)) ` {1..<31}" unfolding chain_targets_def by (rule image_cong) (simp_all add: p)
    also have "\<dots> = ix g ` ((+) 107 ` {1..<31})" by (simp only: image_image)
    finally show ?thesis by simp
  qed
  show "dm_written ?d = ix g ` {108..<138}" by (simp add: dm_written_def n t)
  have "map (\<lambda>i. var_index (dm_partials ?d ! i)) [1..<31] = map (ix g) (map ((+) 107) [1..<31])" by (simp add: p)
  moreover have "distinct (map (ix g) (map ((+) 107) [1..<31]))" by (subst ix_distinct [OF assms]) (auto simp: distinct_map)
  ultimately have d: "distinct (map (\<lambda>i. var_index (dm_partials ?d ! i)) [1..<31])" by presburger
  have "var_index ` set (dm_bits ?d) = ix g ` ({75..<91} \<union> {91..<107})" unfolding b using arr_set [OF a(5)] arr_set [OF a(6)] by (simp add: image_Un)
  moreover have "ix g ` ({75..<91} \<union> {91..<107}) \<inter> ix g ` {108..<138} = {}" by (rule ix_disjoint [OF assms]) auto
  ultimately have "chain_wf (dm_bits ?d) (dm_partials ?d) 31" unfolding chain_wf_def t using d by (simp add: dm_bits_def dmultPack_g_def l)
  moreover have "var_index (dm_packed ?d) = ix g 59" using arr_index [OF a(4), of 0] by (simp add: dmultPack_g_def)
  then have "var_index (dm_packed ?d) \<notin> ix g ` {108..<138}" using assms by simp
  ultimately show "dm_wf ?d" unfolding dm_wf_def n t by (simp add: dmultPack_g_def l)
qed

lemma double_frame:
  assumes "alu_wf g" "changes (ix g ` K) pb w" "K \<subseteq> {..<155}" "K \<inter> ({59} \<union> {75..<107} \<union> {108..<138}) = {}" "dm_chain (dmultPack_g s op g) pb"
  shows "dm_chain (dmultPack_g s op g) w"
proof -
  let ?d = "dmultPack_g s op g" and ?P = "{59} \<union> {75..<107} \<union> {108..<138} :: nat set"
  note a = alu_arrays [OF assms(1)] and wf = dmultPack_wf [OF assms(1), of s op]
  have same: "val w v = val pb v" if "var_index v \<in> ix g ` Q" "Q \<subseteq> ?P" for v Q
  proof -
    from that(1) obtain k where k: "k \<in> Q" "var_index v = ix g k" by blast
    have "k \<in> ?P" using k(1) that(2) by (rule set_rev_mp)
    then have "k < 155" "k \<notin> K" using assms(4) by auto
    then show ?thesis by (rule changes_val [OF assms(2,1,3) k(2)])
  qed
  have in_P: "{75..<75 + 16} \<subseteq> ?P" "{91..<91 + 16} \<subseteq> ?P" "{108..<138} \<subseteq> ?P" "{59} \<subseteq> ?P" by auto
  have bits: "val w u = val pb u" if "u \<in> set (dm_bits ?d)" for u
  proof (cases "u \<in> set (lowWord g)")
    case True
    then show ?thesis by (intro same [OF _ in_P(1)]) (simp only: arr_set [OF a(5), symmetric] imageI)
  next
    case False
    then have "u \<in> set (highWord g)" using that unfolding wf(3) by blast
    then show ?thesis by (intro same [OF _ in_P(2)]) (simp only: arr_set [OF a(6), symmetric] imageI)
  qed
  have parts: "val w (dm_partials ?d ! i) = val pb (dm_partials ?d ! i)" if "0 < i" "i < dm_last ?d" for i
    by (rule same [OF _ in_P(3)]) (use that in \<open>simp add: wf(2) [symmetric] dm_written_def chain_targets_def\<close>)
  have packed: "val w (dm_packed ?d) = val pb (dm_packed ?d)" using arr_index [OF a(4), of 0] by (intro same [OF _ in_P(4)]) (simp add: dmultPack_g_def)
  have m: "dm_last ?d < length (dm_bits ?d)" "dm_last ?d = length (dm_bits ?d) - 1" using dm_lengths(1) [OF wf(1)] by simp_all
  note cs = chain_same [of "dm_bits ?d" w pb "dm_last ?d" "dm_partials ?d"]
  have "chain_eq w (dm_bits ?d) (dm_partials ?d) i" if "0 < i" "i < dm_last ?d" for i
    using assms(5) cs(1) [OF bits parts m(1) that] that unfolding dm_chain_def m(2) [symmetric] by simp
  moreover have "val pb (dm_packed ?d) = chain_end pb (dm_bits ?d) (dm_partials ?d) (dm_isSigned ?d)" using assms(5) by (simp only: dm_chain_def)
  moreover have "chain_end w (dm_bits ?d) (dm_partials ?d) (dm_isSigned ?d) = chain_end pb (dm_bits ?d) (dm_partials ?d) (dm_isSigned ?d)"
    by (rule cs(3) [OF bits parts m dm_lengths(2) [OF wf(1)]])
  ultimately show ?thesis unfolding dm_chain_def m(2) [symmetric] packed by simp
qed

lemma double_sat:
  assumes "alu_wf g"
  shows "\<forall>(p, nm) \<in> set (DoubleMultPack_constraints (dmultPack_g s op g)). holds pb p \<Longrightarrow> dm_chain (dmultPack_g s op g) pb"
    and "\<forall>v \<in> set (alu_vars g). assigned pb v \<Longrightarrow> dm_chain (dmultPack_g s op g) pb \<Longrightarrow>
      \<forall>(p, nm) \<in> set (DoubleMultPack_constraints (dmultPack_g s op g)). holds pb p"
proof -
  let ?d = "dmultPack_g s op g"
  note a = alu_arrays [OF assms] and wf = dmultPack_wf [OF assms, of s op]
  show "\<forall>(p, nm) \<in> set (DoubleMultPack_constraints ?d). holds pb p \<Longrightarrow> dm_chain ?d pb"
    using dm_constraints_iff [OF wf(1), of pb] dm_plain [of _ _ ?d] holds_zero by blast
  assume as: "\<forall>v \<in> set (alu_vars g). assigned pb v" and e: "dm_chain ?d pb"
  have "assigned pb v" if "v \<in> set (dm_bits ?d) \<or> v = dm_packed ?d \<or> var_index v \<in> dm_written ?d" for v
  proof -
    have "v \<in> set (lowWord g) \<union> set (highWord g) \<Longrightarrow> assigned pb v" using as by (auto simp: alu_vars_members)
    moreover have "assigned pb (dm_packed ?d)" using assigned_position [OF as assms arr_index [OF a(4)], of 0] by (simp add: dmultPack_g_def)
    ultimately show ?thesis using that assigned_position [OF as assms] unfolding wf(2,3) by auto
  qed
  then have "cp_over {v. assigned pb v} p" if "(p, nm) \<in> set (DoubleMultPack_constraints ?d)" for p nm
    using dm_over [OF wf(1) that] by (auto simp: cp_over_def)
  then show "\<forall>(p, nm) \<in> set (DoubleMultPack_constraints ?d). holds pb p"
    using dm_constraints_iff [OF wf(1), of pb] dm_plain [of _ _ ?d] e holdsI by blast
qed

section \<open>The product as a double word\<close>

definition read32 :: "bool \<Rightarrow> nat \<Rightarrow> int" where
  "read32 isSigned n = (if isSigned \<and> 2 ^ 31 \<le> n then int n - 2 ^ 32 else int n)"

lemma word_value_read32: "length bs = 32 \<Longrightarrow> word_value s (bs :: bool list) = read32 s (bits_nat bs)"
proof (cases s)
  case True
  assume l: "length bs = 32"
  then have "bs \<noteq> []" by auto
  then have e: "bits_nat bs = bits_nat (butlast bs) + 2 ^ 31 * of_bool (last bs)" using bits_nat_snoc [of "butlast bs" "last bs"] l by simp
  have "bits_nat (butlast bs) < 2 ^ 31" using bits_nat_less [of "butlast bs"] l by simp
  then show ?thesis using True l by (cases "last bs") (simp_all add: word_value_def read32_def e)
qed (simp add: word_value_def read32_def)

lemma dm_word_value:
  assumes "alu_wf g"
  shows "word_value s (map (bit_of pb) (dm_bits (dmultPack_g s op g))) = read32 s (bnum pb (lowWord g) + 2 ^ 16 * bnum pb (highWord g))"
  using bits_nat_append [of "map (bit_of pb) (lowWord g)" "map (bit_of pb) (highWord g)"] alu_lengths(5,6) [OF assms]
  by (simp add: dm_bits_def dmultPack_g_def word_value_read32 bnum_def)

definition product_eqs :: "bool \<Rightarrow> Opcode \<Rightarrow> ALU_Component_Gadget \<Rightarrow> Protoboard \<Rightarrow> bool" where
  "product_eqs s op g pb \<longleftrightarrow> booleans pb (lowWord g) \<and> booleans pb (highWord g) \<and> mu_eqs (multArgs s op g) pb \<and> dm_chain (dmultPack_g s op g) pb"

lemma product_sat:
  assumes "alu_wf g" "{x, y} = {lowWord g, highWord g}"
  shows "sat op (product_constraints s op x y g) pb \<Longrightarrow> product_eqs s op g pb"
    and "\<forall>v \<in> set (alu_vars g). assigned pb v \<Longrightarrow> bits_of pb (unpackedArg1 (vars g)) n1 \<Longrightarrow> bits_of pb (unpackedArg2 (vars g)) n2 \<Longrightarrow>
      product_eqs s op g pb \<Longrightarrow> sat op (product_constraints s op x y g) pb"
proof -
  note l = alu_lengths [OF assms(1)]
  have n: "length x = 16" "length y = 16" using assms(2) l(5,6) by (auto simp: doubleton_eq_iff)
  have xy: "booleans pb x \<and> booleans pb y \<longleftrightarrow> booleans pb (lowWord g) \<and> booleans pb (highWord g)" using assms(2) by (auto simp: doubleton_eq_iff)
  have s: "sat op (product_constraints s op x y g) pb \<longleftrightarrow> sat op (standAlone_constraints op g) pb
    \<and> (\<forall>(p, nm) \<in> set (Multiplication_constraints (multArgs s op g)). holds pb p) \<and> ((\<forall>u \<in> set x. assigned pb u) \<and> booleans pb x)
    \<and> ((\<forall>u \<in> set y. assigned pb u) \<and> booleans pb y) \<and> (\<forall>(p, nm) \<in> set (DoubleMultPack_constraints (dmultPack_g s op g)). holds pb p)"
    unfolding product_constraints_def sat_simps unpacker_constraints [OF n(1)] bool_constraints_sat [OF assms(1) n(2)] by blast
  show "sat op (product_constraints s op x y g) pb \<Longrightarrow> product_eqs s op g pb"
    unfolding s product_eqs_def using mult_sat(1) [OF assms(1) args_factors [OF assms(1)]] double_sat(1) [OF assms(1)] xy by blast
  assume a: "\<forall>v \<in> set (alu_vars g). assigned pb v" and b: "bits_of pb (unpackedArg1 (vars g)) n1" "bits_of pb (unpackedArg2 (vars g)) n2" and e: "product_eqs s op g pb"
  have "\<forall>u \<in> set x \<union> set y. assigned pb u" using a assms(2) by (auto simp: doubleton_eq_iff alu_vars_members)
  then show "sat op (product_constraints s op x y g) pb"
    unfolding s using e [unfolded product_eqs_def] xy standAlone_sat [OF assms(1) b a] mult_sat(2) [OF assms(1) args_factors [OF assms(1)] a] double_sat(2) [OF assms(1) a]
    by (intro conjI) blast+
qed

lemma read16_bounds:
  assumes "a < 2 ^ 16" "b < 2 ^ 16" "n < 2 ^ 32"
  shows "\<bar>read16 s a * read16 s b - read32 s n\<bar> < 2 ^ 32"
proof (cases s)
  case True
  have "\<bar>sint16 x\<bar> \<le> 2 ^ 15" if "x < 2 ^ 16" for x using that by (auto simp: sint16_def)
  then have "\<bar>sint16 a * sint16 b\<bar> \<le> 2 ^ 15 * 2 ^ 15" unfolding abs_mult using assms by (intro mult_mono) simp_all
  moreover have "- (2 ^ 31) \<le> read32 True n" "read32 True n < 2 ^ 31" using assms(3) by (auto simp: read32_def)
  ultimately show ?thesis using True by (simp add: read16_def)
next
  case False
  have "a * b \<le> (2 ^ 16 - 1) * (2 ^ 16 - 1)" using assms by (intro mult_mono) simp_all
  then have "a * b < 2 ^ 32" by simp
  then have "int (a * b) < 2 ^ 32" by (metis of_nat_less_iff of_nat_numeral of_nat_power)
  moreover have "0 \<le> int (a * b)" by (rule of_nat_0_le_iff)
  moreover have "read16 s a * read16 s b = int (a * b)" "read32 s n = int n" using False by (simp_all add: read16_def read32_def)
  moreover have "int n < 2 ^ 32" using assms(3) by simp
  ultimately show ?thesis by linarith
qed

lemma product_value:
  assumes "alu_wf g" "product_eqs s op g pb" "booleans pb (unpackedArg1 (vars g))" "booleans pb (unpackedArg2 (vars g))"
  shows "read32 s (bnum pb (lowWord g) + 2 ^ 16 * bnum pb (highWord g)) = read16 s (bnum pb (unpackedArg1 (vars g))) * read16 s (bnum pb (unpackedArg2 (vars g)))"
proof -
  let ?n = "bnum pb (lowWord g) + 2 ^ 16 * bnum pb (highWord g)"
  note l = alu_lengths [OF assms(1)] and wf = dmultPack_wf [OF assms(1), of s op]
  have b: "bnum pb (lowWord g) < 2 ^ 16" "bnum pb (highWord g) < 2 ^ 16" "bnum pb (unpackedArg1 (vars g)) < 2 ^ 16" "bnum pb (unpackedArg2 (vars g)) < 2 ^ 16"
    using bnum_less [of pb "lowWord g"] bnum_less [of pb "highWord g"] bnum_less [of pb "unpackedArg1 (vars g)"] bnum_less [of pb "unpackedArg2 (vars g)"] by (simp_all only: l)
  have "val pb (opcodeAux2 (vars g) ! 0) = getGF2E_X powi (read16 s (bnum pb (unpackedArg1 (vars g))) * read16 s (bnum pb (unpackedArg2 (vars g))))"
    using assms(2) by (intro mult_value [OF assms(1) args_factors [OF assms(1)] _ assms(3,4), where op = op]) (simp add: product_eqs_def)
  moreover have "val pb (dm_packed (dmultPack_g s op g)) = getGF2E_X powi (word_value s (map (bit_of pb) (dm_bits (dmultPack_g s op g))))"
    using dm_chain_power [OF wf(1)] assms(2) unfolding wf(3) by (simp add: product_eqs_def booleans_def ball_Un) (simp add: dmultPack_g_def)
  ultimately have "getGF2E_X powi (read16 s (bnum pb (unpackedArg1 (vars g))) * read16 s (bnum pb (unpackedArg2 (vars g)))) = getGF2E_X powi (read32 s ?n)"
    unfolding dm_word_value [OF assms(1)] by (simp add: dmultPack_g_def)
  moreover have "?n < 2 ^ 32" using b(1,2) by simp
  ultimately show ?thesis using X_powi_inject read16_bounds [OF b(3,4)] by metis
qed

section \<open>Running the witness code\<close>

lemma bin_split_16: "take_bit 16 P + 2 ^ 16 * drop_bit 16 P = P" for P :: nat
  by (simp add: take_bit_eq_mod drop_bit_eq_div)

text \<open>The two ways to split a product: the result is its low half, or its high half.\<close>

definition split_product :: "ALU_Component_Gadget \<Rightarrow> nat \<Rightarrow> Variable list \<Rightarrow> nat \<Rightarrow> Variable list \<Rightarrow> nat \<Rightarrow> bool" where
  "split_product g P x r y q \<longleftrightarrow> P < 2 ^ 32 \<and> (x = lowWord g \<and> r = take_bit 16 P \<and> y = highWord g \<and> q = drop_bit 16 P
     \<or> x = highWord g \<and> r = drop_bit 16 P \<and> y = lowWord g \<and> q = P)"

lemma halves_run:
  assumes "alu_wf g" "pb_inv pb" "split_product g P x r y q"
    "res (mapFieldElementToInteger 0 16 (val pb (arg1_val (inputs g)))) (mapFieldElementToInteger 0 16 (val pb (arg2_val (inputs g)))) = fe r"
    "\<And>i. i < 16 \<Longrightarrow> b (mapFieldElementToInteger 0 16 (val pb (arg1_val (inputs g)))) (mapFieldElementToInteger 0 16 (val pb (arg2_val (inputs g)))) i = bit q i"
  shows "\<exists>w. product_halves op res b x y g pb = Inr w \<and> changes (ix g ` ({5} \<union> {75..<107})) pb w
    \<and> bits_of w (lowWord g) P \<and> bits_of w (highWord g) (drop_bit 16 P) \<and> num w (out_result (results g)) = r"
proof -
  note p = alu_positions [OF assms(1)] and a = alu_arrays [OF assms(1)] and l = alu_lengths [OF assms(1)]
  obtain c d where cd: "arr g c x" "arr g d y" "{c, d} = {75, 91}" using assms(3) a(5,6) unfolding split_product_def by blast
  then have n: "c + 16 \<le> 155" "d + 16 \<le> 155" "5 \<notin> {c..<c + 16}" "5 \<notin> {d..<d + 16}" "{d..<d + 16} \<inter> {c..<c + 16} = {}" "{c..<c + 16} \<union> {d..<d + 16} = {75..<107}"
    by (auto simp: doubleton_eq_iff)
  have r: "r < 2 ^ 16" using assms(3) drop_bit_less [of P 16 16] take_bit_nat_less_exp [of 16 P] by (auto simp: split_product_def)
  define u where "u = set_val (out_result (results g)) (fe r) pb"
  define v where "v = CompressionPacking_generateWitness (unpacker op x (out_result (results g))) u"
  let ?b = "b (mapFieldElementToInteger 0 16 (val pb (arg1_val (inputs g)))) (mapFieldElementToInteger 0 16 (val pb (arg2_val (inputs g))))"
  define w where "w = write_bits y ?b 16 v"
  have U: "changes (ix g ` {5}) pb u" unfolding u_def by (rule changes_position [OF assms(1,2) p(6)])
  have nu: "num u (out_result (results g)) = r" using r assms(2) by (intro num_fe) (simp_all add: u_def)
  note V = unpacker_facts [OF assms(1) cd(1) n(1) p(6) _ n(3) changesD(2) [OF U], of op, folded v_def, simplified]
  note W = write_bits_facts [OF assms(1) cd(2) n(2) changesD(2) [OF V(1)], of ?b q, OF assms(5), folded w_def]
  have UV: "changes (ix g ` ({5} \<union> {c..<c + 16})) pb v" by (rule changes_join [OF U V(1)]) simp
  have "{5} \<union> {c..<c + 16} \<union> {d..<d + 16} = {5} \<union> {75..<107}" unfolding Un_assoc n(6) ..
  from changes_join [OF UV W(1) this] have c: "changes (ix g ` ({5} \<union> {75..<107})) pb w" .
  have x: "bits_of w x r" using bits_of_changes [OF V(2) W(1) assms(1) cd(1) n(1) _ n(5)] n(2) by (simp add: nu)
  have "num w (out_result (results g)) = r"
    using changes_val [OF W(1) assms(1) _ p(6)] changes_val [OF V(1) assms(1) _ p(6)] n nu by (simp add: num_def)
  moreover have "product_halves op res b x y g pb = Inr w"
    using assms(4) by (simp add: product_halves_def Let_def guarded_def l REGISTER_LENGTH_def w_def v_def u_def)
  moreover have "bits_of w (lowWord g) P \<and> bits_of w (highWord g) (drop_bit 16 P)"
    using assms(3) x W(2) l(5,6) unfolding split_product_def bits_of_iff by (auto simp: take_bit_take_bit)
  ultimately show ?thesis using c by blast
qed

lemma product_runs:
  assumes "alu_wf g" "pb_inv pb" "split_product g P x r y q"
    and res: "res (mapFieldElementToInteger 0 16 (val pb (arg1_val (inputs g)))) (mapFieldElementToInteger 0 16 (val pb (arg2_val (inputs g)))) = fe r"
      "\<And>i. i < 16 \<Longrightarrow> b (mapFieldElementToInteger 0 16 (val pb (arg1_val (inputs g)))) (mapFieldElementToInteger 0 16 (val pb (arg2_val (inputs g)))) i = bit q i"
    and P: "read32 s P = read16 s (take_bit 16 (num pb (arg1_val (inputs g)))) * read16 s (take_bit 16 (num pb (arg2_val (inputs g))))"
  shows "\<exists>w. product_witness s op res b x y g pb = Inr w \<and> changes (ix g ` {5..<155}) pb w \<and> product_eqs s op g w
    \<and> bits_of w (unpackedArg1 (vars g)) (num pb (arg1_val (inputs g))) \<and> bits_of w (unpackedArg2 (vars g)) (num pb (arg2_val (inputs g)))
    \<and> bits_of w (lowWord g) P \<and> bits_of w (highWord g) (drop_bit 16 P) \<and> num w (out_result (results g)) = r
    \<and> (\<forall>k \<in> {6, 10, 107}. \<forall>v. var_index v = ix g k \<longrightarrow> val w v = 0)"
proof -
  let ?d = "dmultPack_g s op g" and ?m = "multArgs s op g"
  note p = alu_positions [OF assms(1)] and a = alu_arrays [OF assms(1)] and l = alu_lengths [OF assms(1)]
  note f = args_factors [OF assms(1)] and wf = dmultPack_wf [OF assms(1), of s op]
  define u where "u = unpack_args op g pb"
  define m where "m = Multiplication_witness ?m u"
  note U = unpack_args_facts [OF assms(1,2), where op = op, folded u_def]
  note M = mult_runs [OF assms(1) f changesD(2) [OF U(1)] U(2,3), of s op, folded m_def]
  have UM: "changes (ix g ` {6..<155}) pb m" by (rule changes_join [OF U(1) M(2)]) auto
  have args: "val m (arg1_val (inputs g)) = val pb (arg1_val (inputs g))" "val m (arg2_val (inputs g)) = val pb (arg2_val (inputs g))"
    using changes_val [OF UM assms(1) _ p(1)] changes_val [OF UM assms(1) _ p(2)] by simp_all
  obtain h where h: "product_halves op res b x y g m = Inr h" "changes (ix g ` ({5} \<union> {75..<107})) m h" "bits_of h (lowWord g) P"
    "bits_of h (highWord g) (drop_bit 16 P)" "num h (out_result (results g)) = r"
    using halves_run [OF assms(1) changesD(2) [OF UM] assms(3), of res b op] res unfolding args by blast
  have H: "bits_of h (unpackedArg1 (vars g)) (num pb (arg1_val (inputs g)))" "bits_of h (unpackedArg2 (vars g)) (num pb (arg2_val (inputs g)))"
    using bits_of_changes [OF M(4) h(2) assms(1) a(1)] bits_of_changes [OF M(5) h(2) assms(1) a(2)] by auto
  have eh: "mu_eqs ?m h" by (rule mult_frame [OF assms(1) f h(2) _ _ M(3)]) (auto simp: mult_positions_def)
  have bn: "bnum h (lowWord g) + 2 ^ 16 * bnum h (highWord g) = P"
    using assms(3) bits_of_bnum [OF h(3)] bits_of_bnum [OF h(4)] take_bit_nat_eq_self [of "drop_bit 16 P" 16] drop_bit_less [of P 16 16] bin_split_16 [of P]
    by (simp add: l split_product_def)
  have pre: "dm_pre ?d h"
  proof -
    have ch: "changes (ix g ` {5..<155}) pb h" by (rule changes_join [OF UM h(2)]) auto
    have "booleans h (lowWord g)" "booleans h (highWord g)" by (rule bits_of_booleans [OF h(3)] bits_of_booleans [OF h(4)])+
    moreover have "\<forall>u \<in> set (lowWord g) \<union> set (highWord g). assigned h u" using arr_assigned [OF ch a(5)] arr_assigned [OF ch a(6)] by auto
    moreover have "assigned h (dm_packed ?d)" using arr_assigned [OF ch a(4)] l(4) by (simp add: dmultPack_g_def)
    moreover have "val h (dm_packed ?d) = getGF2E_X powi (word_value s (map (bit_of h) (dm_bits ?d)))"
      unfolding dm_word_value [OF assms(1)] bn P
      using mult_value [OF assms(1) f eh bits_of_booleans [OF H(1)] bits_of_booleans [OF H(2)]] bits_of_bnum [OF H(1)] bits_of_bnum [OF H(2)] by (simp add: dmultPack_g_def l)
    ultimately show ?thesis unfolding dm_pre_def wf(3) by (simp add: booleans_def ball_Un) (simp add: dmultPack_g_def)
  qed
  define w where "w = DoubleMultPack_witness ?d h"
  have W: "changes (ix g ` {108..<138}) h w" unfolding w_def wf(2) [symmetric] by (rule changes_writes [OF dm_writes [OF wf(1)] changesD(2) [OF h(2)]])
  have "\<forall>(q, nm) \<in> set (DoubleMultPack_constraints ?d). holds w q" using dm_complete [OF wf(1) changesD(2) [OF h(2)] pre] by (auto simp: w_def)
  then have dw: "dm_chain ?d w" by (rule double_sat(1) [OF assms(1)])
  have ew: "mu_eqs ?m w" by (rule mult_frame [OF assms(1) f W _ _ eh]) (auto simp: mult_positions_def)
  have bits: "bits_of w (unpackedArg1 (vars g)) (num pb (arg1_val (inputs g)))" "bits_of w (unpackedArg2 (vars g)) (num pb (arg2_val (inputs g)))"
    "bits_of w (lowWord g) P" "bits_of w (highWord g) (drop_bit 16 P)"
    using bits_of_changes [OF H(1) W assms(1) a(1)] bits_of_changes [OF H(2) W assms(1) a(2)] bits_of_changes [OF h(3) W assms(1) a(5)] bits_of_changes [OF h(4) W assms(1) a(6)] by auto
  have "product_eqs s op g w" using dw ew bits_of_booleans [OF bits(3)] bits_of_booleans [OF bits(4)] by (simp add: product_eqs_def)
  moreover have "changes (ix g ` {5..<155}) pb w" by (rule changes_join [OF changes_join [OF UM h(2) refl] W]) auto
  moreover have "product_witness s op res b x y g pb = Inr w"
    using M(1) h(1) dm_lengths(4) [OF wf(1)] by (simp add: product_witness_def u_def [symmetric] DoubleMultPack_generateWitness_def w_def)
  moreover have "val w v = 0" if "k \<in> {6, 10, 107}" "var_index v = ix g k" for k v
  proof -
    have "val w v = val u v" using changes_val [OF W assms(1) _ that(2)] changes_val [OF h(2) assms(1) _ that(2)] changes_val [OF M(2) assms(1) _ that(2)] that(1) by auto
    then show ?thesis using U(4) [OF that(2)] that(1) by auto
  qed
  moreover have "num w (out_result (results g)) = r" using changes_val [OF W assms(1) _ p(6)] h(5) by (simp add: num_def)
  ultimately show ?thesis using bits by blast
qed

section \<open>The flags\<close>

definition flag_eqs :: "Variable \<Rightarrow> ALU_Component_Gadget \<Rightarrow> Protoboard \<Rightarrow> bool" where
  "flag_eqs x g pb \<longleftrightarrow> val pb x * val pb (pInverse (vars g)) = (if val pb x = 0 then 0 else 1)
     \<and> val pb (out_flag (results g)) = (if val pb x = 0 then 0 else 1) \<and> val pb (out_isMemOp (results g)) = 0"

lemma product_flag_sat:
  shows "sat op (product_flag_constraints op x nm g @ [isMemOp_zero op g]) pb \<Longrightarrow> flag_eqs x g pb"
    and "\<forall>v \<in> set (alu_vars g). assigned pb v \<Longrightarrow> assigned pb x \<Longrightarrow> flag_eqs x g pb \<Longrightarrow> sat op (product_flag_constraints op x nm g @ [isMemOp_zero op g]) pb"
proof -
  let ?i = "inverse_poly (lc_var x) (pInverse (vars g))" and ?f = "cp_plus (cp_var (out_flag (results g))) (var_times x (pInverse (vars g)))"
  have s: "sat op (product_flag_constraints op x nm g @ [isMemOp_zero op g]) pb \<longleftrightarrow> holds pb ?i \<and> holds pb ?f \<and> holds pb (cp_var (out_isMemOp (results g)))"
    by (simp add: product_flag_constraints_def isMemOp_zero_def)
  have v: "pv pb ?i = val pb x * (val pb x * val pb (pInverse (vars g)) + 1)" "pv pb ?f = 0 \<longleftrightarrow> val pb (out_flag (results g)) = val pb x * val pb (pInverse (vars g))"
    by (simp_all add: inverse_poly_facts(1) lv_simps pv_simps fe_add_eq_0)
  have pl: "plain ?i" "plain ?f" "plain (cp_var (out_isMemOp (results g)))" by (simp_all add: inverse_poly_facts(2))
  show "sat op (product_flag_constraints op x nm g @ [isMemOp_zero op g]) pb \<Longrightarrow> flag_eqs x g pb"
    unfolding s flag_eqs_def using holds_zero [OF pl(1), of pb] holds_zero [OF pl(2), of pb] holds_zero [OF pl(3), of pb] inverse_zero v by (auto simp: pv_simps)
  assume a: "\<forall>v \<in> set (alu_vars g). assigned pb v" "assigned pb x" and e: "flag_eqs x g pb"
  have m: "assigned pb (pInverse (vars g))" "assigned pb (out_flag (results g))" "assigned pb (out_isMemOp (results g))" using a(1) by (simp_all add: alu_vars_members)
  have "holds pb ?i" "holds pb ?f" "holds pb (cp_var (out_isMemOp (results g)))"
    using a(2) m e by (intro holdsI pl; simp add: inverse_poly_facts(3) v flag_eqs_def pv_simps split: if_splits)+
  then show "sat op (product_flag_constraints op x nm g @ [isMemOp_zero op g]) pb" unfolding s by blast
qed

lemma set_product_flag_facts:
  assumes "alu_wf g" "pb_inv pb" "var_index x = ix g k" "k < 155" "k \<notin> {4, 10}" "val pb (out_isMemOp (results g)) = 0"
  shows "changes (ix g ` {4, 10}) pb (set_product_flag x g pb)" "flag_eqs x g (set_product_flag x g pb)"
proof -
  note p = alu_positions [OF assms(1)]
  have n: "ix g k \<noteq> ix g 4" "ix g k \<noteq> ix g 10" "ix g 4 \<noteq> ix g 10" "ix g 6 \<noteq> ix g 4" "ix g 6 \<noteq> ix g 10" using assms(1,4,5) by auto
  obtain f i where e: "set_product_flag x g pb = set_val (out_flag (results g)) f (set_val (pInverse (vars g)) i pb)" "f = (if val pb x = 0 then 0 else 1)" "i = (if val pb x = 0 then 0 else inverse (val pb x))"
    by (simp add: set_product_flag_def)
  show "changes (ix g ` {4, 10}) pb (set_product_flag x g pb)" unfolding e(1)
    by (rule changes_join [OF changes_position [OF assms(1,2) p(11)] changes_position [OF assms(1) _ p(5)]]) (use assms(2) in auto)
  show "flag_eqs x g (set_product_flag x g pb)" unfolding e(1) flag_eqs_def using assms(2,3,6) p(5,7,11) n e(2,3) by simp
qed

section \<open>The operands\<close>

lemma unsigned_product:
  fixes x y :: FElem
  defines "a \<equiv> mapFieldElementToInteger 0 16 x" and "b \<equiv> mapFieldElementToInteger 0 16 y"
  defines "P \<equiv> take_bit 16 (unat (element x)) * take_bit 16 (unat (element y))"
  shows "P < 2 ^ 32" "unat (a * b) = P"
proof -
  have ab: "unat a = take_bit 16 (unat (element x))" "unat b = take_bit 16 (unat (element y))" by (simp_all add: a_def b_def unat_map_fe)
  have "unat a \<le> 2 ^ 16 - 1" "unat b \<le> 2 ^ 16 - 1" using take_bit_nat_less_exp [of 16] unfolding ab by (simp_all add: le_less_trans less_Suc_eq_le [symmetric])
  then have "unat a * unat b \<le> (2 ^ 16 - 1) * (2 ^ 16 - 1)" by (intro mult_mono) simp_all
  then show P: "P < 2 ^ 32" by (simp add: P_def ab)
  show "unat (a * b) = P" using P by (subst unat_mult_lem [THEN iffD1]) (simp_all add: P_def ab)
qed

lemma signed_take_bit_cases: "0 \<le> k \<Longrightarrow> k < 2 ^ Suc n \<Longrightarrow> signed_take_bit n k = (if k < 2 ^ n then k else k - 2 ^ Suc n)" for k :: int
proof (cases "k < 2 ^ n")
  case True
  assume "0 \<le> k"
  moreover have "- (2 ^ n) \<le> k" using calculation zero_less_power [of "2 :: int" n] by linarith
  ultimately show ?thesis using True by (simp add: signed_take_bit_int_eq_self)
next
  case False
  assume k: "0 \<le> k" "k < 2 ^ Suc n"
  have "take_bit (Suc n) (k + 2 ^ n) = take_bit (Suc n) (k - 2 ^ n)" using mod_add_self2 [of "k - 2 ^ n" "2 ^ Suc n"] by (simp add: take_bit_eq_mod add.commute)
  also have "\<dots> = k - 2 ^ n" using False k by (intro take_bit_int_eq_self) simp_all
  finally show ?thesis using False by (simp add: signed_take_bit_eq_take_bit_shift)
qed

lemma sint_cases: "sint w = (if unat w < 2 ^ (LENGTH('a) - 1) then int (unat w) else int (unat w) - 2 ^ LENGTH('a))" for w :: "'a::len word"
proof -
  have "uint w < 2 ^ Suc (LENGTH('a) - 1)" using unsigned_less [of w, where 'a = int] by simp
  moreover have "unat w < 2 ^ n \<longleftrightarrow> uint w < 2 ^ n" for n using of_nat_less_iff [of "unat w" "2 ^ n", where 'a = int] by (simp add: of_nat_unat)
  ultimately show ?thesis using signed_take_bit_cases [of "uint w" "LENGTH('a) - 1"] by (simp add: sint_uint)
qed

lemma read16_sint: "read16 True (take_bit 16 (unat w)) = sint (ucast w :: 16 word)" for w :: size_t
proof -
  have "unat (ucast w :: 16 word) = take_bit 16 (unat w)" by (simp add: unsigned_ucast_eq)
  then show ?thesis using sint_cases [of "ucast w :: 16 word"] by (simp add: read16_def sint16_def)
qed

lemma read32_sint: "read32 True (unat v) = sint v" for v :: "32 word"
  using sint_cases [of v] by (simp add: read32_def not_less)

lemma signed_product_value:
  "sint (signed_product a b) = sint (ucast a :: 16 word) * sint (ucast b :: 16 word)"
proof -
  have r: "- (2 ^ 15) \<le> sint w \<and> sint w < 2 ^ 15" for w :: "16 word" using sint_greater_eq [of w] sint_less [of w] by simp
  have b: "\<bar>sint (ucast a :: 16 word)\<bar> \<le> 2 ^ 15" "\<bar>sint (ucast b :: 16 word)\<bar> \<le> 2 ^ 15" using r [of "ucast a"] r [of "ucast b"] by linarith+
  then have "\<bar>sint (ucast a :: 16 word) * sint (ucast b :: 16 word)\<bar> \<le> 2 ^ 15 * 2 ^ 15" unfolding abs_mult by (intro mult_mono) simp_all
  then have m: "- (2 ^ 31) \<le> sint (ucast a :: 16 word) * sint (ucast b :: 16 word)" "sint (ucast a :: 16 word) * sint (ucast b :: 16 word) < 2 ^ 31" by auto
  have "signed_product a b = word_of_int (sint (ucast a :: 16 word) * sint (ucast b :: 16 word))" by (simp add: signed_product_def)
  then have "sint (signed_product a b) = signed_take_bit 31 (sint (ucast a :: 16 word) * sint (ucast b :: 16 word))"
    by (simp only: signed_of_int) simp
  then show ?thesis using m by (simp add: signed_take_bit_int_eq_self)
qed

lemma signed_high: "take_bit 16 (unat (scast (signed_drop_bit 16 v) :: size_t)) = drop_bit 16 (unat v)" for v :: "32 word"
  by (rule bit_eqI) (auto simp: bit_simps bit_unat dest: bit_imp_le_length)

lemma signed_low: "i < 16 \<Longrightarrow> signed_drop_bit i v AND 1 \<noteq> 0 \<longleftrightarrow> bit v i" for v :: "32 word"
  using word_bit_tests(2) [of 0 "signed_drop_bit i v"] by (simp add: bit_simps)

section \<open>Soundness\<close>

lemma product_nat:
  assumes "alu_wf g" "product_eqs False op g pb" "booleans pb (unpackedArg1 (vars g))" "booleans pb (unpackedArg2 (vars g))"
  shows "bnum pb (lowWord g) + 2 ^ 16 * bnum pb (highWord g) = bnum pb (unpackedArg1 (vars g)) * bnum pb (unpackedArg2 (vars g))"
    "bnum pb (lowWord g) = take_bit 16 (bnum pb (unpackedArg1 (vars g)) * bnum pb (unpackedArg2 (vars g)))"
    "bnum pb (highWord g) = drop_bit 16 (bnum pb (unpackedArg1 (vars g)) * bnum pb (unpackedArg2 (vars g)))"
proof -
  have "int (bnum pb (lowWord g) + 2 ^ 16 * bnum pb (highWord g)) = int (bnum pb (unpackedArg1 (vars g)) * bnum pb (unpackedArg2 (vars g)))"
    using product_value [OF assms] by (simp add: read32_def read16_def)
  then show e: "bnum pb (lowWord g) + 2 ^ 16 * bnum pb (highWord g) = bnum pb (unpackedArg1 (vars g)) * bnum pb (unpackedArg2 (vars g))" by (simp only: of_nat_eq_iff)
  have "bnum pb (lowWord g) < 2 ^ 16" using bnum_less [of pb "lowWord g"] by (simp only: alu_lengths(5) [OF assms(1)])
  then show "bnum pb (lowWord g) = take_bit 16 (bnum pb (unpackedArg1 (vars g)) * bnum pb (unpackedArg2 (vars g)))"
    "bnum pb (highWord g) = drop_bit 16 (bnum pb (unpackedArg1 (vars g)) * bnum pb (unpackedArg2 (vars g)))"
    unfolding e [symmetric] by (simp_all add: take_bit_eq_mod drop_bit_eq_div)
qed

lemma MULL_sat:
  "sat Op_MULL (MULL_constraints g) pb \<longleftrightarrow> sat Op_MULL (product_constraints False Op_MULL (lowWord g) (highWord g) g) pb
    \<and> (\<forall>(p, nm) \<in> set (CompressionPacking_constraints (packer Op_MULL (highWord g) (opcodeAux1 (vars g) ! 0))). holds pb p)
    \<and> sat Op_MULL (product_flag_constraints Op_MULL (opcodeAux1 (vars g) ! 0) ''mull flag'' g @ [isMemOp_zero Op_MULL g]) pb"
  by (simp add: MULL_constraints_def)

lemma MULL_sound:
  assumes "alu_wf g" "sat Op_MULL (MULL_constraints g) pb" "booleans pb (unpackedArg1 (vars g))" "booleans pb (unpackedArg2 (vars g))"
  defines "P \<equiv> bnum pb (unpackedArg1 (vars g)) * bnum pb (unpackedArg2 (vars g))"
  shows "bnum pb (lowWord g) = take_bit 16 P" "booleans pb (lowWord g)" "val pb (out_flag (results g)) = (if P < 2 ^ 16 then 0 else 1)" "val pb (out_isMemOp (results g)) = 0"
proof -
  note l = alu_lengths [OF assms(1)]
  have e: "product_eqs False Op_MULL g pb" using assms(2) product_sat(1) [OF assms(1), of "lowWord g" "highWord g"] unfolding MULL_sat by blast
  note n = product_nat [OF assms(1) e assms(3,4), folded P_def]
  show "bnum pb (lowWord g) = take_bit 16 P" by (rule n(2))
  show "booleans pb (lowWord g)" using e by (simp add: product_eqs_def)
  have hb: "booleans pb (highWord g)" using e by (simp add: product_eqs_def)
  have "val pb (opcodeAux1 (vars g) ! 0) = fe (bnum pb (highWord g))"
    using packer_constraints(1) [OF l(6)] assms(2) pack_bnum [OF hb] l(6) unfolding MULL_sat by auto
  then have "val pb (opcodeAux1 (vars g) ! 0) = 0 \<longleftrightarrow> bnum pb (highWord g) = 0" using bnum_less [of pb "highWord g"] by (simp add: l(6) fe_zero_iff)
  moreover have "flag_eqs (opcodeAux1 (vars g) ! 0) g pb" using assms(2) product_flag_sat(1) unfolding MULL_sat by blast
  moreover have "bnum pb (highWord g) = 0 \<longleftrightarrow> P < 2 ^ 16" unfolding n(3) by (simp add: drop_bit_eq_div div_eq_0_iff)
  ultimately show "val pb (out_flag (results g)) = (if P < 2 ^ 16 then 0 else 1)" "val pb (out_isMemOp (results g)) = 0" by (simp_all add: flag_eqs_def)
qed

lemma UMULH_sat:
  "sat Op_UMULH (UMULH_constraints g) pb \<longleftrightarrow> sat Op_UMULH (product_constraints False Op_UMULH (highWord g) (lowWord g) g) pb
    \<and> sat Op_UMULH (product_flag_constraints Op_UMULH (out_result (results g)) ''umulh flag'' g @ [isMemOp_zero Op_UMULH g]) pb"
  by (simp add: UMULH_constraints_def)

lemma UMULH_sound:
  assumes "alu_wf g" "sat Op_UMULH (UMULH_constraints g) pb" "booleans pb (unpackedArg1 (vars g))" "booleans pb (unpackedArg2 (vars g))"
  shows "bnum pb (highWord g) = drop_bit 16 (bnum pb (unpackedArg1 (vars g)) * bnum pb (unpackedArg2 (vars g)))"
    "val pb (out_flag (results g)) = (if val pb (out_result (results g)) = 0 then 0 else 1)" "val pb (out_isMemOp (results g)) = 0"
proof -
  have "product_eqs False Op_UMULH g pb" using assms(2) product_sat(1) [OF assms(1), of "highWord g" "lowWord g"] unfolding UMULH_sat by blast
  from product_nat(3) [OF assms(1) this assms(3,4)]
  show "bnum pb (highWord g) = drop_bit 16 (bnum pb (unpackedArg1 (vars g)) * bnum pb (unpackedArg2 (vars g)))" .
  have "flag_eqs (out_result (results g)) g pb" using assms(2) product_flag_sat(1) unfolding UMULH_sat by blast
  then show "val pb (out_flag (results g)) = (if val pb (out_result (results g)) = 0 then 0 else 1)" "val pb (out_isMemOp (results g)) = 0" by (simp_all add: flag_eqs_def)
qed

text \<open>The flag of \<open>SMULH\<close> tells the high half from 0 and from the word of ones.\<close>

definition signed_flag_eqs :: "ALU_Component_Gadget \<Rightarrow> Protoboard \<Rightarrow> bool" where
  "signed_flag_eqs g pb \<longleftrightarrow> (let r = val pb (out_result (results g)) in r * val pb (pInverse (vars g)) = (if r = 0 then 0 else 1)
     \<and> (r + ones g) * val pb (invNegative g) = (if r = ones g then 0 else 1) \<and> val pb (out_flag (results g)) = (if r = 0 \<or> r = ones g then 0 else 1)
     \<and> val pb (out_isMemOp (results g)) = 0)"

lemma ones_value: "alu_wf g \<Longrightarrow> ones g = fe 0xFFFF" "fe 0xFFFF \<noteq> 0"
proof -
  show "fe 0xFFFF \<noteq> 0" by (simp add: fe_zero_iff)
  show "alu_wf g \<Longrightarrow> ones g = fe 0xFFFF" by (simp add: ones_def map_int_fe alu_lengths)
qed

lemma SMULH_sat:
  assumes "alu_wf g"
  shows "sat Op_SMULH (SMULH_constraints g) pb \<Longrightarrow> sat Op_SMULH (product_constraints True Op_SMULH (highWord g) (lowWord g) g) pb \<and> signed_flag_eqs g pb"
    and "\<forall>v \<in> set (alu_vars g). assigned pb v \<Longrightarrow> sat Op_SMULH (product_constraints True Op_SMULH (highWord g) (lowWord g) g) pb \<Longrightarrow> signed_flag_eqs g pb \<Longrightarrow>
      sat Op_SMULH (SMULH_constraints g) pb"
proof -
  let ?r = "lc_var (out_result (results g))"
  let ?n = "lc_plus ?r (lc_const (ones g))" and ?x = "val pb (out_result (results g))" and ?i = "val pb (pInverse (vars g))" and ?j = "val pb (invNegative g)"
  let ?p = "inverse_poly ?r (pInverse (vars g))" and ?q = "inverse_poly ?n (invNegative g)"
  let ?f = "cp_plus (cp_plus (cp_plus (cp_var (out_flag (results g))) (cp_times (cp_lc ?r) (cp_var (pInverse (vars g))))) (cp_times (cp_lc ?n) (cp_var (invNegative g)))) (cp_const 1)"
  have s: "sat Op_SMULH (SMULH_constraints g) pb \<longleftrightarrow> sat Op_SMULH (product_constraints True Op_SMULH (highWord g) (lowWord g) g) pb
    \<and> holds pb ?p \<and> holds pb ?q \<and> holds pb ?f \<and> holds pb (cp_var (out_isMemOp (results g)))" by (simp add: SMULH_constraints_def Let_def isMemOp_zero_def)
  have pl: "plain ?p" "plain ?q" "plain ?f" "plain (cp_var (out_isMemOp (results g)))" by (simp_all add: inverse_poly_facts(2))
  have v: "pv pb ?p = ?x * (?x * ?i + 1)" "pv pb ?q = (?x + ones g) * ((?x + ones g) * ?j + 1)" "pv pb ?f = val pb (out_flag (results g)) + (?x * ?i + (?x + ones g) * ?j + 1)"
    by (simp_all add: inverse_poly_facts(1) pv_simps lv_simps add.assoc)
  have o: "ones g \<noteq> 0" using ones_value(1) [OF assms] ones_value(2) by simp
  have z: "?x + ones g = 0 \<longleftrightarrow> ?x = ones g" by (rule fe_add_eq_0)
  show "sat Op_SMULH (product_constraints True Op_SMULH (highWord g) (lowWord g) g) pb \<and> signed_flag_eqs g pb" if "sat Op_SMULH (SMULH_constraints g) pb"
  proof -
    have h: "pv pb ?p = 0" "pv pb ?q = 0" "pv pb ?f = 0" "val pb (out_isMemOp (results g)) = 0"
      using that holds_zero [OF pl(1), of pb] holds_zero [OF pl(2), of pb] holds_zero [OF pl(3), of pb] holds_zero [OF pl(4), of pb] unfolding s by (auto simp: pv_simps)
    have i: "?x * ?i = (if ?x = 0 then 0 else 1)" using inverse_zero h(1) unfolding v(1) by blast
    have j: "(?x + ones g) * ?j = (if ?x = ones g then 0 else 1)" using inverse_zero h(2) unfolding v(2) z [symmetric] by blast
    have "val pb (out_flag (results g)) = (if ?x = 0 then 0 else 1) + (if ?x = ones g then 0 else 1) + 1" using h(3) unfolding v(3) i j fe_add_eq_0 .
    then have "val pb (out_flag (results g)) = (if ?x = 0 \<or> ?x = ones g then 0 else 1)" using o by (auto simp: add.assoc)
    then show ?thesis unfolding signed_flag_eqs_def Let_def using that i j h(4) unfolding s by blast
  qed
  assume a: "\<forall>v \<in> set (alu_vars g). assigned pb v" and c: "sat Op_SMULH (product_constraints True Op_SMULH (highWord g) (lowWord g) g) pb" and e: "signed_flag_eqs g pb"
  have m: "assigned pb (pInverse (vars g))" "assigned pb (out_flag (results g))" "assigned pb (out_isMemOp (results g))" "assigned pb (out_result (results g))"
    using a by (simp_all add: alu_vars_members)
  have mi: "assigned pb (invNegative g)" using assigned_position [OF a assms arr_index [OF alu_arrays(7) [OF assms], of 0]] by (simp add: invNegative_def)
  have i: "?x * ?i = (if ?x = 0 then 0 else 1)" and j: "(?x + ones g) * ?j = (if ?x = ones g then 0 else 1)"
    and f: "val pb (out_flag (results g)) = (if ?x = 0 \<or> ?x = ones g then 0 else 1)" "val pb (out_isMemOp (results g)) = 0"
    using e by (simp_all only: signed_flag_eqs_def Let_def)
  have "pv pb ?p = 0" "pv pb ?q = 0" "pv pb ?f = 0" unfolding v i j f(1) using o by (auto simp: add.assoc)
  moreover have "cp_over {v. assigned pb v} ?p" "cp_over {v. assigned pb v} ?q" "cp_over {v. assigned pb v} ?f" using m mi by (simp_all add: inverse_poly_facts(3))
  ultimately have "holds pb ?p" "holds pb ?q" "holds pb ?f" using holdsI pl by blast+
  moreover have "holds pb (cp_var (out_isMemOp (results g)))" using m f(2) by (intro holdsI) (simp_all add: pv_simps)
  ultimately show "sat Op_SMULH (SMULH_constraints g) pb" unfolding s using c by blast
qed

lemma read32_high:
  assumes "x < 2 ^ 16" "y < 2 ^ 16"
  shows "take_bit 16 (drop_bit 16 (read32 True (x + 2 ^ 16 * y))) = int y"
proof -
  have "int (x + 2 ^ 16 * y) div 2 ^ 16 = int y" using assms(1) by simp
  moreover have "(int (x + 2 ^ 16 * y) - 2 ^ 32) div 2 ^ 16 = int (x + 2 ^ 16 * y) div 2 ^ 16 - 2 ^ 16"
    using div_mult_self1 [of "2 ^ 16 :: int" "int (x + 2 ^ 16 * y)" "- (2 ^ 16)"] by simp
  moreover have "(int y - 2 ^ 16) mod 2 ^ 16 = int y mod 2 ^ 16" using mod_add_self2 [of "int y - 2 ^ 16" "2 ^ 16"] by simp
  ultimately show ?thesis using assms(2) by (simp add: read32_def drop_bit_eq_div take_bit_eq_mod)
qed

lemma SMULH_sound:
  assumes "alu_wf g" "sat Op_SMULH (SMULH_constraints g) pb" "booleans pb (unpackedArg1 (vars g))" "booleans pb (unpackedArg2 (vars g))"
  shows "int (bnum pb (highWord g)) = take_bit 16 (drop_bit 16 (sint16 (bnum pb (unpackedArg1 (vars g))) * sint16 (bnum pb (unpackedArg2 (vars g)))))" "signed_flag_eqs g pb"
proof -
  have e: "product_eqs True Op_SMULH g pb" using SMULH_sat(1) [OF assms(1,2)] product_sat(1) [OF assms(1), of "highWord g" "lowWord g"] by blast
  have "bnum pb (lowWord g) < 2 ^ 16" "bnum pb (highWord g) < 2 ^ 16"
    using bnum_less [of pb "lowWord g"] bnum_less [of pb "highWord g"] by (simp_all only: alu_lengths(5,6) [OF assms(1)])
  from read32_high [OF this] show "int (bnum pb (highWord g)) = take_bit 16 (drop_bit 16 (sint16 (bnum pb (unpackedArg1 (vars g))) * sint16 (bnum pb (unpackedArg2 (vars g)))))"
    unfolding product_value [OF assms(1) e assms(3,4)] by (simp add: read16_def)
  show "signed_flag_eqs g pb" using SMULH_sat(1) [OF assms(1,2)] by blast
qed

section \<open>Completeness\<close>

lemma booleans_changes:
  assumes "booleans pb vs" "changes (ix g ` K) pb w" "alu_wf g" "arr g b vs" "b + 16 \<le> 155" "K \<subseteq> {..<155}" "K \<inter> {b..<b + 16} = {}"
  shows "booleans w vs"
proof -
  have "bits_of pb vs (bnum pb vs)" using assms(1) bnum_less [of pb vs] by (simp add: bits_of_iff take_bit_nat_eq_self)
  from bits_of_booleans [OF bits_of_changes [OF this assms(2-7)]] show ?thesis .
qed

lemma product_frame:
  assumes "alu_wf g" "changes (ix g ` K) pb w" "K \<subseteq> {4, 5, 10, 107} \<union> (if s then {} else {43})" "product_eqs s op g pb"
  shows "product_eqs s op g w"
proof -
  note a = alu_arrays [OF assms(1)]
  have K: "K \<subseteq> {..<155}" "K \<inter> {75..<75 + 16} = {}" "K \<inter> {91..<91 + 16} = {}" using assms(3) by (auto split: if_splits)
  have "mu_eqs (multArgs s op g) w" by (rule mult_frame [OF assms(1) args_factors [OF assms(1)] assms(2) K(1)])
    (use assms(3,4) in \<open>auto simp: mult_positions_def product_eqs_def split: if_splits\<close>)
  moreover have "dm_chain (dmultPack_g s op g) w" by (rule double_frame [OF assms(1,2) K(1)]) (use assms(3,4) in \<open>auto simp: product_eqs_def split: if_splits\<close>)
  ultimately show ?thesis using booleans_changes [OF _ assms(2,1) a(5) _ K(1,2)] booleans_changes [OF _ assms(2,1) a(6) _ K(1,3)] assms(4) by (simp add: product_eqs_def)
qed

text \<open>A run of the witness code that only the flags are missing from.\<close>

definition product_run :: "bool \<Rightarrow> Opcode \<Rightarrow> ALU_Component_Gadget \<Rightarrow> nat \<Rightarrow> nat \<Rightarrow> Protoboard \<Rightarrow> Protoboard \<Rightarrow> bool" where
  "product_run s op g P r pb w \<longleftrightarrow> changes (ix g ` {5..<155}) pb w \<and> product_eqs s op g w
    \<and> bits_of w (unpackedArg1 (vars g)) (num pb (arg1_val (inputs g))) \<and> bits_of w (unpackedArg2 (vars g)) (num pb (arg2_val (inputs g)))
    \<and> bits_of w (lowWord g) P \<and> bits_of w (highWord g) (drop_bit 16 P) \<and> num w (out_result (results g)) = r
    \<and> (\<forall>k \<in> {6, 10, 107}. \<forall>v. var_index v = ix g k \<longrightarrow> val w v = 0)"

lemma product_done:
  assumes "alu_wf g" "alu_pre g pb" "product_run s op g P r pb u" "changes (ix g ` K) u w" "{4} \<subseteq> K" "K \<subseteq> {4, 10, 107} \<union> (if s then {} else {43})"
    "{x, y} = {lowWord g, highWord g}"
  shows "changes (ix g ` {4..<155}) pb w" "\<forall>v \<in> set (alu_vars g). assigned w v" "sat op (product_constraints s op x y g) w"
    "bits_of w (unpackedArg1 (vars g)) (num pb (arg1_val (inputs g)))" "bits_of w (unpackedArg2 (vars g)) (num pb (arg2_val (inputs g)))"
    "bits_of w (lowWord g) P" "bits_of w (highWord g) (drop_bit 16 P)" "num w (out_result (results g)) = r"
proof -
  note a = alu_arrays [OF assms(1)]
  have u: "changes (ix g ` {5..<155}) pb u" "product_eqs s op g u" "bits_of u (unpackedArg1 (vars g)) (num pb (arg1_val (inputs g)))"
    "bits_of u (unpackedArg2 (vars g)) (num pb (arg2_val (inputs g)))" "bits_of u (lowWord g) P" "bits_of u (highWord g) (drop_bit 16 P)"
    using assms(3) by (simp_all add: product_run_def)
  have K: "K \<subseteq> {..<155}" "K \<inter> {11..<43} = {}" "K \<inter> {75..<107} = {}" using assms(6) by (auto split: if_splits)
  have "{4..<155} = insert 4 {5..<155 :: nat}" by auto
  then have "{5..<155} \<union> K = {4..<155}" using assms(5,6) by (auto split: if_splits)
  from changes_join [OF u(1) assms(4) this] show c: "changes (ix g ` {4..<155}) pb w" .
  show as: "\<forall>v \<in> set (alu_vars g). assigned w v" by (rule all_assigned [OF c assms(1,2)])
  have d: "K \<inter> {11..<11 + 16} = {}" "K \<inter> {27..<27 + 16} = {}" "K \<inter> {75..<75 + 16} = {}" "K \<inter> {91..<91 + 16} = {}" using K(2,3) by auto
  show b: "bits_of w (unpackedArg1 (vars g)) (num pb (arg1_val (inputs g)))" "bits_of w (unpackedArg2 (vars g)) (num pb (arg2_val (inputs g)))"
    "bits_of w (lowWord g) P" "bits_of w (highWord g) (drop_bit 16 P)"
    using bits_of_changes [OF u(3) assms(4,1) a(1) _ K(1) d(1)] bits_of_changes [OF u(4) assms(4,1) a(2) _ K(1) d(2)]
      bits_of_changes [OF u(5) assms(4,1) a(5) _ K(1) d(3)] bits_of_changes [OF u(6) assms(4,1) a(6) _ K(1) d(4)] by simp_all
  have "K \<subseteq> {4, 5, 10, 107} \<union> (if s then {} else {43})" using assms(6) by blast
  then show "sat op (product_constraints s op x y g) w" by (rule product_sat(2) [OF assms(1,7) as b(1,2) product_frame [OF assms(1,4) _ u(2)]])
  have "5 \<notin> K" using assms(6) by (auto split: if_splits)
  then show "num w (out_result (results g)) = r"
    using changes_val [OF assms(4,1) K(1) alu_positions(6) [OF assms(1)]] assms(3) by (simp add: product_run_def num_def)
qed

lemma unsigned_run:
  assumes "alu_wf g" "pb_inv pb"
  defines "P \<equiv> take_bit 16 (num pb (arg1_val (inputs g))) * take_bit 16 (num pb (arg2_val (inputs g)))"
  shows "\<exists>u. product_witness False Op_MULL (\<lambda>a b. mapIntegerToFieldElement 0 16 (a * b)) (\<lambda>a b i. drop_bit 16 (a * b) AND push_bit i 1 \<noteq> 0)
      (lowWord g) (highWord g) g pb = Inr u \<and> product_run False Op_MULL g P (take_bit 16 P) pb u"
    "\<exists>u. product_witness False Op_UMULH (\<lambda>a b. mapIntegerToFieldElement 0 16 (drop_bit 16 (a * b))) (\<lambda>a b i. drop_bit i (a * b) AND 1 \<noteq> 0)
      (highWord g) (lowWord g) g pb = Inr u \<and> product_run False Op_UMULH g P (drop_bit 16 P) pb u"
proof -
  let ?a = "mapFieldElementToInteger 0 16 (val pb (arg1_val (inputs g)))" and ?b = "mapFieldElementToInteger 0 16 (val pb (arg2_val (inputs g)))"
  note Q = unsigned_product [of "val pb (arg1_val (inputs g))" "val pb (arg2_val (inputs g))", folded num_def, folded P_def]
  have s: "split_product g P (lowWord g) (take_bit 16 P) (highWord g) (drop_bit 16 P)" "split_product g P (highWord g) (drop_bit 16 P) (lowWord g) P"
    using Q(1) by (simp_all add: split_product_def)
  have b: "bit (?a * ?b) i = bit P i" for i using bit_unat [of "?a * ?b" i] by (simp only: Q(2))
  have r: "read32 False P = read16 False (take_bit 16 (num pb (arg1_val (inputs g)))) * read16 False (take_bit 16 (num pb (arg2_val (inputs g))))"
    by (simp add: read32_def read16_def P_def)
  have lo: "mapIntegerToFieldElement 0 16 (?a * ?b) = fe (take_bit 16 P)" by (simp add: map_int_fe Q(2))
  have hi: "mapIntegerToFieldElement 0 16 (drop_bit 16 (?a * ?b)) = fe (drop_bit 16 P)"
    using drop_bit_less [of P 16 16] Q(1) by (simp add: map_int_fe unat_drop_bit_eq Q(2) take_bit_nat_eq_self)
  show "\<exists>u. product_witness False Op_MULL (\<lambda>a b. mapIntegerToFieldElement 0 16 (a * b)) (\<lambda>a b i. drop_bit 16 (a * b) AND push_bit i 1 \<noteq> 0)
      (lowWord g) (highWord g) g pb = Inr u \<and> product_run False Op_MULL g P (take_bit 16 P) pb u"
    unfolding product_run_def by (rule product_runs [OF assms(1,2) s(1) _ _ r]) (simp_all only: lo word_bit_tests bit_drop_bit_eq o_def b)
  show "\<exists>u. product_witness False Op_UMULH (\<lambda>a b. mapIntegerToFieldElement 0 16 (drop_bit 16 (a * b))) (\<lambda>a b i. drop_bit i (a * b) AND 1 \<noteq> 0)
      (highWord g) (lowWord g) g pb = Inr u \<and> product_run False Op_UMULH g P (drop_bit 16 P) pb u"
    unfolding product_run_def by (rule product_runs [OF assms(1,2) s(2) _ _ r]) (simp_all only: hi word_bit_tests b)
qed

lemma MULL_runs:
  assumes "alu_wf g" "pb_inv pb" "alu_pre g pb"
  shows "\<exists>w. MULL_generateWitness g pb = Inr w \<and> changes (ix g ` {4..<155}) pb w \<and> sat Op_MULL (MULL_constraints g) w
    \<and> num w (out_result (results g)) = take_bit 16 (take_bit 16 (num pb (arg1_val (inputs g))) * take_bit 16 (num pb (arg2_val (inputs g))))
    \<and> bits_of w (unpackedArg1 (vars g)) (num pb (arg1_val (inputs g))) \<and> bits_of w (unpackedArg2 (vars g)) (num pb (arg2_val (inputs g)))"
proof -
  let ?x = "opcodeAux1 (vars g) ! 0" and ?P = "take_bit 16 (num pb (arg1_val (inputs g))) * take_bit 16 (num pb (arg2_val (inputs g)))"
  note l = alu_lengths [OF assms(1)] and a = alu_arrays [OF assms(1)] and p = alu_positions [OF assms(1)]
  obtain u where u: "product_witness False Op_MULL (\<lambda>a b. mapIntegerToFieldElement 0 16 (a * b)) (\<lambda>a b i. drop_bit 16 (a * b) AND push_bit i 1 \<noteq> 0)
      (lowWord g) (highWord g) g pb = Inr u" "product_run False Op_MULL g ?P (take_bit 16 ?P) pb u" using unsigned_run(1) [OF assms(1,2)] by blast
  have uc: "changes (ix g ` {5..<155}) pb u" "bits_of u (highWord g) (drop_bit 16 ?P)" and z: "val u (out_isMemOp (results g)) = 0"
    using u(2) p(7) by (simp_all add: product_run_def)
  have px: "var_index ?x = ix g 43" using arr_index [OF a(3), of 0] by simp
  define v where "v = CompressionPacking_generateWitness (packer Op_MULL (highWord g) ?x) u"
  have "43 \<notin> {91..<91 + 16 :: nat}" by simp
  note V = packer_facts [OF assms(1) a(6) _ px _ this changesD(2) [OF uc(1)], where op = Op_MULL, folded v_def, simplified]
  have V1: "changes (ix g ` {43}) u v" using V(1) by simp
  have zv: "val v (out_isMemOp (results g)) = 0" using changes_val [OF V1 assms(1) _ p(7)] z by simp
  have "43 < (155 :: nat)" "43 \<notin> {4, 10 :: nat}" by simp_all
  note F = set_product_flag_facts [OF assms(1) changesD(2) [OF V1] px this zv]
  define w where "w = set_product_flag ?x g v"
  have W: "changes (ix g ` {4, 10, 43}) u w" unfolding w_def by (rule changes_join [OF V1 F(1)]) auto
  note D = product_done [OF assms(1,3) u(2) W _ _ refl, simplified]
  have "val w ?x = val v ?x" using changes_val [OF F(1) assms(1) _ px] by (simp add: w_def)
  also have "\<dots> = pack_sum 1 (map (val w) (highWord g))"
  proof -
    have "val w (highWord g ! i) = val u (highWord g ! i)" if "i < 16" for i using changes_val [OF W assms(1) _ arr_index [OF a(6) that]] that by simp
    then have e: "map (val w) (highWord g) = map (val u) (highWord g)" by (intro nth_equalityI) (simp_all add: l)
    show ?thesis unfolding V(2) e ..
  qed
  finally have pk: "val w ?x = pack_sum 1 (map (val w) (highWord g))" .
  have ax: "assigned w ?x" by (rule assigned_position [OF D(2) assms(1) px]) simp
  have "\<forall>(q, nm) \<in> set (CompressionPacking_constraints (packer Op_MULL (highWord g) ?x)). holds w q"
    by (rule packer_constraints(2) [OF l(6) ax _ pk]) (use D(2) in \<open>simp add: alu_vars_members\<close>)
  then have "sat Op_MULL (MULL_constraints g) w" unfolding MULL_sat using D(3) product_flag_sat(2) [OF D(2) ax F(2) [folded w_def]] by blast
  moreover have "MULL_generateWitness g pb = Inr w" unfolding MULL_generateWitness_def l(10) u(1) by (simp add: w_def v_def)
  ultimately show ?thesis using D by blast
qed

lemma UMULH_runs:
  assumes "alu_wf g" "pb_inv pb" "alu_pre g pb"
  shows "\<exists>w. UMULH_generateWitness g pb = Inr w \<and> changes (ix g ` {4..<155}) pb w \<and> sat Op_UMULH (UMULH_constraints g) w
    \<and> num w (out_result (results g)) = drop_bit 16 (take_bit 16 (num pb (arg1_val (inputs g))) * take_bit 16 (num pb (arg2_val (inputs g))))"
proof -
  let ?x = "out_result (results g)" and ?P = "take_bit 16 (num pb (arg1_val (inputs g))) * take_bit 16 (num pb (arg2_val (inputs g)))"
  note p = alu_positions [OF assms(1)]
  obtain u where u: "product_witness False Op_UMULH (\<lambda>a b. mapIntegerToFieldElement 0 16 (drop_bit 16 (a * b))) (\<lambda>a b i. drop_bit i (a * b) AND 1 \<noteq> 0)
      (highWord g) (lowWord g) g pb = Inr u" "product_run False Op_UMULH g ?P (drop_bit 16 ?P) pb u" using unsigned_run(2) [OF assms(1,2)] by blast
  have uc: "changes (ix g ` {5..<155}) pb u" and z: "val u (out_isMemOp (results g)) = 0" using u(2) p(7) by (simp_all add: product_run_def)
  have "5 < (155 :: nat)" "5 \<notin> {4, 10 :: nat}" by simp_all
  note F = set_product_flag_facts [OF assms(1) changesD(2) [OF uc] p(6) this z]
  define w where "w = set_product_flag ?x g u"
  note D = product_done [OF assms(1,3) u(2) F(1) [folded w_def] _ _ insert_commute, simplified]
  have ax: "assigned w ?x" by (rule assigned_position [OF D(2) assms(1) p(6)]) simp
  have "sat Op_UMULH (UMULH_constraints g) w" unfolding UMULH_sat using D(3) product_flag_sat(2) [OF D(2) ax F(2) [folded w_def]] by blast
  moreover have "UMULH_generateWitness g pb = Inr w" unfolding UMULH_generateWitness_def alu_lengths(10) [OF assms(1)] u(1) by (simp add: w_def)
  ultimately show ?thesis using D by blast
qed

lemma signed_run:
  assumes "alu_wf g" "pb_inv pb"
  shows "\<exists>u P. product_witness True Op_SMULH (\<lambda>a b. mapIntegerToFieldElement 0 16 (scast (signed_drop_bit 16 (signed_product a b))))
      (\<lambda>a b i. signed_drop_bit i (signed_product a b) AND 1 \<noteq> 0) (highWord g) (lowWord g) g pb = Inr u \<and> product_run True Op_SMULH g P (drop_bit 16 P) pb u \<and> P < 2 ^ 32"
proof -
  let ?a = "mapFieldElementToInteger 0 16 (val pb (arg1_val (inputs g)))" and ?b = "mapFieldElementToInteger 0 16 (val pb (arg2_val (inputs g)))"
  let ?v = "signed_product ?a ?b"
  have s: "split_product g (unat ?v) (highWord g) (drop_bit 16 (unat ?v)) (lowWord g) (unat ?v)" using unsigned_less [of ?v, where 'a = nat] by (simp add: split_product_def)
  have t: "take_bit 16 (unat ?a) = take_bit 16 (num pb (arg1_val (inputs g)))" "take_bit 16 (unat ?b) = take_bit 16 (num pb (arg2_val (inputs g)))"
    by (simp_all add: unat_map_fe num_def take_bit_take_bit)
  have r: "read32 True (unat ?v) = read16 True (take_bit 16 (num pb (arg1_val (inputs g)))) * read16 True (take_bit 16 (num pb (arg2_val (inputs g))))"
    unfolding read32_sint signed_product_value t [symmetric] read16_sint ..
  have hi: "mapIntegerToFieldElement 0 16 (scast (signed_drop_bit 16 ?v)) = fe (drop_bit 16 (unat ?v))" using map_int_fe [of 16] signed_high [of ?v] by simp
  have "\<exists>u. product_witness True Op_SMULH (\<lambda>a b. mapIntegerToFieldElement 0 16 (scast (signed_drop_bit 16 (signed_product a b))))
      (\<lambda>a b i. signed_drop_bit i (signed_product a b) AND 1 \<noteq> 0) (highWord g) (lowWord g) g pb = Inr u \<and> product_run True Op_SMULH g (unat ?v) (drop_bit 16 (unat ?v)) pb u"
    unfolding product_run_def by (rule product_runs [OF assms s _ _ r]) (simp_all only: hi signed_low bit_unat)
  then show ?thesis using unsigned_less [of ?v, where 'a = nat] by auto
qed

lemma set_signed_flag_facts:
  assumes "alu_wf g" "pb_inv pb" "val pb (out_isMemOp (results g)) = 0" "val pb (pInverse (vars g)) = 0" "val pb (invNegative g) = 0"
  shows "\<exists>K. changes (ix g ` K) pb (set_signed_flag g pb) \<and> {4} \<subseteq> K \<and> K \<subseteq> {4, 10, 107}" "signed_flag_eqs g (set_signed_flag g pb)"
proof -
  let ?r = "val pb (out_result (results g))"
  note p = alu_positions [OF assms(1)]
  have pi: "var_index (invNegative g) = ix g 107" using arr_index [OF alu_arrays(7) [OF assms(1)], of 0] by (simp add: invNegative_def)
  have o: "ones g \<noteq> 0" using ones_value(1) [OF assms(1)] ones_value(2) by simp
  have n: "i < 155 \<Longrightarrow> j < 155 \<Longrightarrow> i \<noteq> j \<Longrightarrow> ix g i \<noteq> ix g j" for i j using assms(1) by simp
  note c = changes_position [OF assms(1) _ p(11)] changes_position [OF assms(1) _ pi] changes_position [OF assms(1) _ p(5)]
  have i: "pb_inv (set_val v x pb)" for v x using assms(2) by simp
  consider "?r = 0" | "?r \<noteq> 0" "?r = ones g" | "?r \<noteq> 0" "?r \<noteq> ones g" by blast
  then have "(\<exists>K. changes (ix g ` K) pb (set_signed_flag g pb) \<and> {4} \<subseteq> K \<and> K \<subseteq> {4, 10, 107}) \<and> signed_flag_eqs g (set_signed_flag g pb)"
  proof cases
    case 1
    have e: "set_signed_flag g pb = set_val (out_flag (results g)) 0 (set_val (invNegative g) (inverse (?r + ones g)) pb)" using 1 by (simp add: set_signed_flag_def Let_def)
    have "changes (ix g ` {107, 4}) pb (set_signed_flag g pb)" unfolding e by (rule changes_join [OF c(2) c(3)]) (use assms(2) in auto)
    moreover have "signed_flag_eqs g (set_signed_flag g pb)" using assms(2-4) p pi n 1 o by (simp add: e signed_flag_eqs_def Let_def)
    ultimately show ?thesis by blast
  next
    case 2
    have e: "set_signed_flag g pb = set_val (out_flag (results g)) 0 (set_val (pInverse (vars g)) (inverse ?r) pb)" using 2 by (simp add: set_signed_flag_def Let_def)
    have "changes (ix g ` {10, 4}) pb (set_signed_flag g pb)" unfolding e by (rule changes_join [OF c(1) c(3)]) (use assms(2) in auto)
    moreover have "signed_flag_eqs g (set_signed_flag g pb)" using assms(2,3,5) p pi n 2 by (simp add: e signed_flag_eqs_def Let_def)
    ultimately show ?thesis by blast
  next
    case 3
    have e: "set_signed_flag g pb = set_val (out_flag (results g)) 1 (set_val (invNegative g) (inverse (?r + ones g)) (set_val (pInverse (vars g)) (inverse ?r) pb))"
      using 3 by (simp add: set_signed_flag_def Let_def)
    have "changes (ix g ` {10, 107, 4}) pb (set_signed_flag g pb)" unfolding e by (rule changes_join [OF changes_join [OF c(1) c(2) refl] c(3)]) (use assms(2) in auto)
    moreover have "?r + ones g \<noteq> 0" using 3 by (simp add: fe_add_eq_0)
    then have "signed_flag_eqs g (set_signed_flag g pb)" using assms(2,3) p pi n 3 by (simp add: e signed_flag_eqs_def Let_def)
    ultimately show ?thesis by blast
  qed
  then show "\<exists>K. changes (ix g ` K) pb (set_signed_flag g pb) \<and> {4} \<subseteq> K \<and> K \<subseteq> {4, 10, 107}" "signed_flag_eqs g (set_signed_flag g pb)" by blast+
qed

lemma SMULH_runs:
  assumes "alu_wf g" "pb_inv pb" "alu_pre g pb"
  shows "\<exists>w. SMULH_generateWitness g pb = Inr w \<and> changes (ix g ` {4..<155}) pb w \<and> sat Op_SMULH (SMULH_constraints g) w
    \<and> int (num w (out_result (results g))) = take_bit 16 (drop_bit 16 (sint16 (take_bit 16 (num pb (arg1_val (inputs g)))) * sint16 (take_bit 16 (num pb (arg2_val (inputs g))))))"
proof -
  note p = alu_positions [OF assms(1)]
  obtain u P where u: "product_witness True Op_SMULH (\<lambda>a b. mapIntegerToFieldElement 0 16 (scast (signed_drop_bit 16 (signed_product a b))))
      (\<lambda>a b i. signed_drop_bit i (signed_product a b) AND 1 \<noteq> 0) (highWord g) (lowWord g) g pb = Inr u" "product_run True Op_SMULH g P (drop_bit 16 P) pb u" "P < 2 ^ 32"
    using signed_run [OF assms(1,2)] by blast
  have pi: "var_index (invNegative g) = ix g 107" using arr_index [OF alu_arrays(7) [OF assms(1)], of 0] by (simp add: invNegative_def)
  have uc: "changes (ix g ` {5..<155}) pb u" and z: "val u (out_isMemOp (results g)) = 0" "val u (pInverse (vars g)) = 0" "val u (invNegative g) = 0"
    using u(2) p(7,11) pi by (simp_all add: product_run_def)
  define w where "w = set_signed_flag g u"
  note F = set_signed_flag_facts [OF assms(1) changesD(2) [OF uc] z, folded w_def]
  obtain K where K: "changes (ix g ` K) u w" "{4} \<subseteq> K" "K \<subseteq> {4, 10, 107} \<union> (if True then {} else {43})" using F(1) by auto
  note D = product_done [OF assms(1,3) u(2) K insert_commute]
  have sw: "sat Op_SMULH (SMULH_constraints g) w" by (rule SMULH_sat(2) [OF assms(1) D(2,3) F(2)])
  have "bnum w (highWord g) = num w (out_result (results g))"
    using bits_of_bnum [OF D(7)] D(8) u(3) drop_bit_less [of P 16 16] by (simp add: alu_lengths [OF assms(1)] take_bit_nat_eq_self)
  then have "int (num w (out_result (results g))) = take_bit 16 (drop_bit 16 (sint16 (take_bit 16 (num pb (arg1_val (inputs g)))) * sint16 (take_bit 16 (num pb (arg2_val (inputs g))))))"
    using SMULH_sound(1) [OF assms(1) sw bits_of_booleans [OF D(4)] bits_of_booleans [OF D(5)]] bits_of_bnum [OF D(4)] bits_of_bnum [OF D(5)]
    by (simp add: alu_lengths [OF assms(1)])
  moreover have "SMULH_generateWitness g pb = Inr w" unfolding SMULH_generateWitness_def alu_lengths(10) [OF assms(1)] u(1) by (simp add: w_def)
  ultimately show ?thesis using D(1) sw by blast
qed

section \<open>Correctness\<close>

text \<open>No constraint of \<open>MULL\<close> mentions the result.\<close>

lemma MULL_result_free:
  assumes "alu_wf g" "pb_inv pb" "sat Op_MULL (MULL_constraints g) pb" "\<forall>v \<in> set (alu_vars g). assigned pb v"
    "bits_of pb (unpackedArg1 (vars g)) n1" "bits_of pb (unpackedArg2 (vars g)) n2"
  shows "sat Op_MULL (MULL_constraints g) (set_val (out_result (results g)) y pb)"
proof -
  let ?x = "opcodeAux1 (vars g) ! 0" and ?w = "set_val (out_result (results g)) y pb"
  note l = alu_lengths [OF assms(1)] and a = alu_arrays [OF assms(1)] and p = alu_positions [OF assms(1)]
  have c: "changes (ix g ` {5}) pb ?w" by (rule changes_position [OF assms(1,2) p(6)])
  have as: "\<forall>v \<in> set (alu_vars g). assigned ?w v" using assms(4) by (simp add: changesD(4) [OF c])
  have px: "var_index ?x = ix g 43" using arr_index [OF a(3), of 0] by simp
  have ax: "assigned ?w ?x" by (rule assigned_position [OF as assms(1) px]) simp
  have same: "val ?w v = val pb v" if "var_index v = ix g k" "k < 155" "k \<noteq> 5" for v k using changes_val [OF c assms(1) _ that(1,2)] that(3) by simp
  have "map (val ?w) (highWord g) = map (val pb) (highWord g)" by (rule nth_equalityI) (simp_all add: l same [OF arr_index [OF a(6)]])
  moreover have "val pb ?x = pack_sum 1 (map (val pb) (highWord g))" using packer_constraints(1) [OF l(6)] assms(3) unfolding MULL_sat by blast
  ultimately have "val ?w ?x = pack_sum 1 (map (val ?w) (highWord g))" using same [OF px] by (simp del: map_eq_conv)
  then have "\<forall>(q, nm) \<in> set (CompressionPacking_constraints (packer Op_MULL (highWord g) ?x)). holds ?w q"
    using as by (intro packer_constraints(2) [OF l(6) ax]) (simp_all add: alu_vars_members)
  moreover have "flag_eqs ?x g pb" using assms(3) product_flag_sat(1) unfolding MULL_sat by blast
  then have "flag_eqs ?x g ?w" unfolding flag_eqs_def using same [OF px] same [OF p(5)] same [OF p(7)] same [OF p(11)] by simp
  moreover have "bits_of ?w (unpackedArg1 (vars g)) n1" "bits_of ?w (unpackedArg2 (vars g)) n2"
    using bits_of_changes [OF assms(5) c assms(1) a(1)] bits_of_changes [OF assms(6) c assms(1) a(2)] by simp_all
  moreover have "product_eqs False Op_MULL g pb" using assms(3) product_sat(1) [OF assms(1) refl] unfolding MULL_sat by blast
  from product_frame [OF assms(1) c _ this] have "product_eqs False Op_MULL g ?w" by simp
  ultimately show ?thesis unfolding MULL_sat using product_sat(2) [OF assms(1) refl as] product_flag_sat(2) [OF as ax] by blast
qed

interpretation alu_mull: alu_component Op_MULL MULL_constraints MULL_generateWitness alu_pre "{4..<155}"
  by unfold_locales (use MULL_runs in blast, rule alu_pre_tagged)

interpretation alu_umulh: alu_component Op_UMULH UMULH_constraints UMULH_generateWitness alu_pre "{4..<155}"
  by unfold_locales (use UMULH_runs in blast, rule alu_pre_tagged)

interpretation alu_smulh: alu_component Op_SMULH SMULH_constraints SMULH_generateWitness alu_pre "{4..<155}"
  by unfold_locales (use SMULH_runs in blast, rule alu_pre_tagged)

text \<open>Property C34. Multiplications. With boolean unpacked arguments every assignment that satisfies the constraints of
  \<open>ALU_MULL_Gadget\<close>, \<open>ALU_UMULH_Gadget\<close> or \<open>ALU_SMULH_Gadget\<close> has in the unpacked result the low half of the product, the
  high half, or the high half of the two's complement product; the flag of \<open>MULL\<close> says whether the high half is not 0, the
  flags of the others whether the result is not 0 (\<open>SMULH\<close>: neither 0 nor -1). The witness code computes these results
  for the low 16 bits of the arguments, and on a satisfied board it satisfies the opcode's system. The packed result of
  \<open>MULL\<close>, however, occurs in none of its constraints: every value of it belongs to a satisfying assignment.\<close>

theorem alu_multiplication_correct:
  assumes "alu_wf g" "pb_inv pb"
  shows "(booleans pb (unpackedArg1 (vars g)) \<longrightarrow> booleans pb (unpackedArg2 (vars g)) \<longrightarrow> sat Op_MULL (MULL_constraints g) pb \<longrightarrow>
      bnum pb (lowWord g) = take_bit 16 (bnum pb (unpackedArg1 (vars g)) * bnum pb (unpackedArg2 (vars g)))
      \<and> val pb (out_flag (results g)) = (if bnum pb (unpackedArg1 (vars g)) * bnum pb (unpackedArg2 (vars g)) < 2 ^ 16 then 0 else 1) \<and> val pb (out_isMemOp (results g)) = 0)
    \<and> (booleans pb (unpackedArg1 (vars g)) \<longrightarrow> booleans pb (unpackedArg2 (vars g)) \<longrightarrow> sat Op_UMULH (UMULH_constraints g) pb \<longrightarrow>
      bnum pb (highWord g) = drop_bit 16 (bnum pb (unpackedArg1 (vars g)) * bnum pb (unpackedArg2 (vars g)))
      \<and> val pb (out_flag (results g)) = (if val pb (out_result (results g)) = 0 then 0 else 1) \<and> val pb (out_isMemOp (results g)) = 0)
    \<and> (booleans pb (unpackedArg1 (vars g)) \<longrightarrow> booleans pb (unpackedArg2 (vars g)) \<longrightarrow> sat Op_SMULH (SMULH_constraints g) pb \<longrightarrow>
      int (bnum pb (highWord g)) = take_bit 16 (drop_bit 16 (sint16 (bnum pb (unpackedArg1 (vars g))) * sint16 (bnum pb (unpackedArg2 (vars g)))))
      \<and> val pb (out_flag (results g)) = (if val pb (out_result (results g)) \<in> {0, fe 0xFFFF} then 0 else 1) \<and> val pb (out_isMemOp (results g)) = 0)
    \<and> (alu_pre g pb \<longrightarrow>
      (\<exists>w. MULL_generateWitness g pb = Inr w \<and> num w (out_result (results g)) = take_bit 16 (take_bit 16 (num pb (arg1_val (inputs g))) * take_bit 16 (num pb (arg2_val (inputs g)))))
      \<and> (\<exists>w. UMULH_generateWitness g pb = Inr w \<and> num w (out_result (results g)) = drop_bit 16 (take_bit 16 (num pb (arg1_val (inputs g))) * take_bit 16 (num pb (arg2_val (inputs g)))))
      \<and> (\<exists>w. SMULH_generateWitness g pb = Inr w \<and> int (num w (out_result (results g)))
        = take_bit 16 (drop_bit 16 (sint16 (take_bit 16 (num pb (arg1_val (inputs g)))) * sint16 (take_bit 16 (num pb (arg2_val (inputs g))))))))
    \<and> (alu_pre g pb \<longrightarrow> (ready Op_MULL (alu_written g) pb \<longrightarrow> res_bind (MULL_generateWitness g (add_tagged (MULL_constraints g) pb)) (pb_isSatisfied Op_MULL) = Inr True)
      \<and> (ready Op_UMULH (alu_written g) pb \<longrightarrow> res_bind (UMULH_generateWitness g (add_tagged (UMULH_constraints g) pb)) (pb_isSatisfied Op_UMULH) = Inr True)
      \<and> (ready Op_SMULH (alu_written g) pb \<longrightarrow> res_bind (SMULH_generateWitness g (add_tagged (SMULH_constraints g) pb)) (pb_isSatisfied Op_SMULH) = Inr True))
    \<and> (alu_pre g pb \<longrightarrow> (\<exists>w. changes (alu_written g) pb w \<and> sat Op_MULL (MULL_constraints g) w \<and> val w (out_result (results g)) = y))"
proof (intro conjI impI)
  note W = alu_written_positions(1) [OF assms(1)]
  assume pre: "alu_pre g pb"
  show "\<exists>w. MULL_generateWitness g pb = Inr w \<and> num w (out_result (results g)) = take_bit 16 (take_bit 16 (num pb (arg1_val (inputs g))) * take_bit 16 (num pb (arg2_val (inputs g))))"
    using MULL_runs [OF assms pre] by blast
  show "\<exists>w. UMULH_generateWitness g pb = Inr w \<and> num w (out_result (results g)) = drop_bit 16 (take_bit 16 (num pb (arg1_val (inputs g))) * take_bit 16 (num pb (arg2_val (inputs g))))"
    using UMULH_runs [OF assms pre] by blast
  show "\<exists>w. SMULH_generateWitness g pb = Inr w \<and> int (num w (out_result (results g)))
      = take_bit 16 (drop_bit 16 (sint16 (take_bit 16 (num pb (arg1_val (inputs g)))) * sint16 (take_bit 16 (num pb (arg2_val (inputs g))))))"
    using SMULH_runs [OF assms pre] by blast
  show "res_bind (MULL_generateWitness g (add_tagged (MULL_constraints g) pb)) (pb_isSatisfied Op_MULL) = Inr True" if "ready Op_MULL (alu_written g) pb"
    using alu_mull.satisfied [OF assms pre] that by (simp add: W)
  show "res_bind (UMULH_generateWitness g (add_tagged (UMULH_constraints g) pb)) (pb_isSatisfied Op_UMULH) = Inr True" if "ready Op_UMULH (alu_written g) pb"
    using alu_umulh.satisfied [OF assms pre] that by (simp add: W)
  show "res_bind (SMULH_generateWitness g (add_tagged (SMULH_constraints g) pb)) (pb_isSatisfied Op_SMULH) = Inr True" if "ready Op_SMULH (alu_written g) pb"
    using alu_smulh.satisfied [OF assms pre] that by (simp add: W)
  obtain w where w: "changes (ix g ` {4..<155}) pb w" "sat Op_MULL (MULL_constraints g) w"
    "bits_of w (unpackedArg1 (vars g)) (num pb (arg1_val (inputs g)))" "bits_of w (unpackedArg2 (vars g)) (num pb (arg2_val (inputs g)))" using MULL_runs [OF assms pre] by blast
  have "changes (ix g ` {4..<155}) pb (set_val (out_result (results g)) y w)"
    by (rule changes_join [OF w(1) changes_position [OF assms(1) changesD(2) [OF w(1)] alu_positions(6) [OF assms(1)]]]) auto
  then show "\<exists>w. changes (alu_written g) pb w \<and> sat Op_MULL (MULL_constraints g) w \<and> val w (out_result (results g)) = y"
    using MULL_result_free [OF assms(1) changesD(2) [OF w(1)] w(2) all_assigned [OF w(1) assms(1) pre] w(3,4)] changesD(2) [OF w(1)] unfolding W by force
qed (use MULL_sound [OF assms(1)] UMULH_sound [OF assms(1)] SMULH_sound [OF assms(1)] ones_value(1) [OF assms(1)] in \<open>simp_all add: signed_flag_eqs_def Let_def\<close>)

theorem alu_multiplication_correct_witness:
  "\<exists>w. SMULH_generateWitness sample_component (sample_board 3 65535 0 0) = Inr w \<and> num w (out_result (results sample_component)) = 65535"
proof -
  have "\<exists>w. SMULH_generateWitness sample_component (sample_board 3 65535 0 0) = Inr w \<and> int (num w (out_result (results sample_component)))
      = take_bit 16 (drop_bit 16 (sint16 (take_bit 16 (num (sample_board 3 65535 0 0) (arg1_val (inputs sample_component))))
        * sint16 (take_bit 16 (num (sample_board 3 65535 0 0) (arg2_val (inputs sample_component))))))"
    by (rule alu_multiplication_correct [OF sample_component_wf sample_board_facts(1), THEN conjunct2, THEN conjunct2, THEN conjunct2, THEN conjunct1, THEN mp,
      OF sample_board_facts(2), THEN conjunct2, THEN conjunct2])
  then show ?thesis by (simp add: sample_board_facts(4,5) sint16_def take_bit_eq_mod drop_bit_eq_div)
qed

end
