(* ===== verification/AluDiv.thy ===== *)
theory AluDiv
  imports AluProduct
begin

text \<open>
  The divisions, \<open>ALU_UDIV_Gadget\<close> and \<open>ALU_UMOD_Gadget\<close> of \<open>ALU.cpp\<close>. Both multiply the divisor with the quotient in
  the exponent of the generator and relate the product to the dividend and the remainder. The comparison of divisor and remainder
  is run by the witness code, but its constraints are not generated.
\<close>

section \<open>The gadgets\<close>

abbreviation quotient :: "ALU_Component_Gadget \<Rightarrow> Variable list" where "quotient g \<equiv> opcodeAux3 (vars g)"
abbreviation remainder :: "ALU_Component_Gadget \<Rightarrow> Variable list" where "remainder g \<equiv> opcodeAux5 (vars g)"

definition multPack_g :: "Opcode \<Rightarrow> Variable list \<Rightarrow> Variable list \<Rightarrow> MultiplicationPacking_Gadget" where
  "multPack_g op unpacked partials = \<lparr>mp_packingMode = PACK, mp_unpacked = unpacked, mp_partials = partials,
     mp_packed = partials ! (REGISTER_LENGTH - 1), mp_isSigned = False, mp_opcode = op\<rparr>"

definition multPackArg1_g :: "Opcode \<Rightarrow> ALU_Component_Gadget \<Rightarrow> MultiplicationPacking_Gadget" where
  "multPackArg1_g op g = multPack_g op (unpackedArg1 (vars g)) (opcodeAux4 (vars g))"

definition multPackRemainder_g :: "Opcode \<Rightarrow> ALU_Component_Gadget \<Rightarrow> MultiplicationPacking_Gadget" where
  "multPackRemainder_g op g = multPack_g op (remainder g) (opcodeAux6 (vars g))"

definition GEQ_g :: "Opcode \<Rightarrow> ALU_Component_Gadget \<Rightarrow> GreaterEqual_Gadget" where
  "GEQ_g op g = \<lparr>ge_var1 = unpackedArg2 (vars g), ge_var2 = remainder g, ge_flags = opcodeAux7 (vars g),
     ge_flagGEQ = opcodeAux7 (vars g) ! 0, ge_isSigned = False, ge_opcode = op\<rparr>"

abbreviation divide_g :: "Opcode \<Rightarrow> ALU_Component_Gadget \<Rightarrow> Multiplication_Gadget" where
  "divide_g op g \<equiv> mult_g False op (unpackedArg2 (vars g)) (quotient g) g"

definition divisor_poly :: "ALU_Component_Gadget \<Rightarrow> CircuitPolynomial" where
  "divisor_poly g = cp_plus
     (cp_times (cp_var (arg2_val (inputs g)))
       (cp_plus (cp_var (opcodeAux2 (vars g) ! 0)) (var_times (opcodeAux4 (vars g) ! (REGISTER_LENGTH - 1)) (opcodeAux6 (vars g) ! (REGISTER_LENGTH - 1)))))
     (cp_times (cp_plus (var_times (arg2_val (inputs g)) (pInverse (vars g))) (cp_const 1)) (cp_var (out_result (results g))))"

definition scalar_constraints :: "Opcode \<Rightarrow> string \<Rightarrow> ALU_Component_Gadget \<Rightarrow> tagged list" where
  "scalar_constraints op nm g = (let arg2 = arg2_val (inputs g); inv = pInverse (vars g) in
     [(op, inverse_poly (lc_var arg2) inv, ''divisor inv''),
      (op, divisor_poly g, ''dividor!=0 -> res*divisor + remainder == arg1''),
      (op, cp_times (cp_var arg2) (cp_lc (lc_plus (lc_var (opcodeAux7 (vars g) ! 0)) (lc_const 1))), ''divisor!=0 -> remainder<divisor''),
      (op, cp_plus (cp_plus (cp_var (out_flag (results g))) (var_times arg2 inv)) (cp_const 1), nm)])"

definition division_constraints :: "Opcode \<Rightarrow> string \<Rightarrow> ALU_Component_Gadget \<Rightarrow> tagged list" where
  "division_constraints op nm g = tag op (Multiplication_constraints (divide_g op g))
     @ (if standAlone g then tag op (CompressionPacking_constraints (unpackArg1_g op g)) else [])
     @ tag op (MultiplicationPacking_constraints (multPackArg1_g op g)) @ tag op (MultiplicationPacking_constraints (multPackRemainder_g op g))
     @ scalar_constraints op nm g"

definition unpackArg2_constraints :: "Opcode \<Rightarrow> ALU_Component_Gadget \<Rightarrow> tagged list" where
  "unpackArg2_constraints op g = (if standAlone g then tag op (CompressionPacking_constraints (unpackArg2_g op g)) else [])"

text \<open>The bits of the remainder are constrained for the opcode \<open>UMOD\<close> in both classes.\<close>

definition UDIV_constraints :: "ALU_Component_Gadget \<Rightarrow> tagged list" where
  "UDIV_constraints g = unpackArg2_constraints Op_UDIV g @ tag Op_UDIV (CompressionPacking_constraints (unpacker Op_UDIV (quotient g) (out_result (results g))))
     @ tag Op_UMOD (bool_constraints g (remainder g)) @ division_constraints Op_UDIV ''udiv flag'' g @ [isMemOp_zero Op_UDIV g]"

definition UMOD_constraints :: "ALU_Component_Gadget \<Rightarrow> tagged list" where
  "UMOD_constraints g = unpackArg2_constraints Op_UMOD g
     @ tag Op_UMOD (concat (map (\<lambda>i. [bool_constraint (quotient g ! i), bool_constraint (remainder g ! i)]) [0..<registerLength g]))
     @ division_constraints Op_UMOD ''umod flag'' g
     @ tag Op_UMOD (CompressionPacking_constraints (packer Op_UMOD (remainder g) (out_result (results g)))) @ [isMemOp_zero Op_UMOD g]"

definition division_by_zero :: "ALU_Component_Gadget \<Rightarrow> Protoboard \<Rightarrow> Protoboard" where
  "division_by_zero g pb = set_val (out_flag (results g)) 1 (set_val (out_result (results g)) 0 (set_val (pInverse (vars g)) 0 pb))"

definition UDIV_numbers :: "ALU_Component_Gadget \<Rightarrow> Protoboard \<Rightarrow> Protoboard result" where
  "UDIV_numbers g pb = (let operand2 = mapFieldElementToInteger 0 (registerLength g) (val pb (arg2_val (inputs g))) in
     if 0 = operand2 then Inr (division_by_zero g pb)
     else let
       pb = set_val (pInverse (vars g)) (inverse (val pb (arg2_val (inputs g)))) pb;
       operand1 = mapFieldElementToInteger 0 (registerLength g) (val pb (arg1_val (inputs g)));
       pb = set_val (out_result (results g)) (mapIntegerToFieldElement 0 (registerLength g) (operand1 div operand2)) pb;
       rem = operand1 mod operand2
     in res_map (set_val (out_flag (results g)) 0) (guarded g (write_bits (remainder g) (\<lambda>i. drop_bit i rem AND 1 \<noteq> 0) (registerLength g) pb)))"

text \<open>The loop that writes the bits of two numbers.\<close>

definition write_pairs :: "Variable list \<Rightarrow> (nat \<Rightarrow> bool) \<Rightarrow> Variable list \<Rightarrow> (nat \<Rightarrow> bool) \<Rightarrow> nat \<Rightarrow> Protoboard \<Rightarrow> Protoboard" where
  "write_pairs us a vs b n pb = fold (\<lambda>i pb. set_val (vs ! i) (if b i then 1 else 0) (set_val (us ! i) (if a i then 1 else 0) pb)) [0..<n] pb"

definition UMOD_numbers :: "ALU_Component_Gadget \<Rightarrow> Protoboard \<Rightarrow> Protoboard result" where
  "UMOD_numbers g pb = (let operand2 = mapFieldElementToInteger 0 (registerLength g) (val pb (arg2_val (inputs g))) in
     if 0 = operand2 then Inr (division_by_zero g pb)
     else let
       pb = set_val (pInverse (vars g)) (inverse (val pb (arg2_val (inputs g)))) pb;
       operand1 = mapFieldElementToInteger 0 (registerLength g) (val pb (arg1_val (inputs g)));
       res = operand1 div operand2;
       rem = operand1 mod operand2;
       pb = set_val (out_result (results g)) (mapIntegerToFieldElement 0 (registerLength g) rem) pb
     in res_map (set_val (out_flag (results g)) 0) (guarded g (write_pairs (quotient g) (\<lambda>i. drop_bit i res AND 1 \<noteq> 0)
       (remainder g) (\<lambda>i. drop_bit i rem AND 1 \<noteq> 0) (registerLength g) pb)))"

definition unpack_both :: "Opcode \<Rightarrow> ALU_Component_Gadget \<Rightarrow> Protoboard \<Rightarrow> Protoboard" where
  "unpack_both op g pb = CompressionPacking_generateWitness (unpackArg2_g op g) (CompressionPacking_generateWitness (unpackArg1_g op g) pb)"

definition division_witness :: "Opcode \<Rightarrow> ALU_Component_Gadget \<Rightarrow> Protoboard \<Rightarrow> Protoboard result" where
  "division_witness op g pb = res_bind (Multiplication_generateWitness (divide_g op g) pb) (\<lambda>pb.
     res_bind (MultiplicationPacking_generateWitness (multPackArg1_g op g) (-1) pb) (\<lambda>pb.
     res_bind (MultiplicationPacking_generateWitness (multPackRemainder_g op g) (-1) pb) (GreaterEqual_generateWitness (GEQ_g op g))))"

definition UDIV_generateWitness :: "ALU_Component_Gadget \<Rightarrow> Protoboard \<Rightarrow> Protoboard result" where
  "UDIV_generateWitness g pb = res_bind (UDIV_numbers g (alu_init g pb)) (\<lambda>pb.
     division_witness Op_UDIV g (CompressionPacking_generateWitness (unpacker Op_UDIV (quotient g) (out_result (results g))) (unpack_both Op_UDIV g pb)))"

definition UMOD_generateWitness :: "ALU_Component_Gadget \<Rightarrow> Protoboard \<Rightarrow> Protoboard result" where
  "UMOD_generateWitness g pb = res_bind (UMOD_numbers g (alu_init g pb)) (\<lambda>pb.
     res_map (CompressionPacking_generateWitness (packer Op_UMOD (remainder g) (out_result (results g)))) (division_witness Op_UMOD g (unpack_both Op_UMOD g pb)))"

section \<open>The packing gadgets inside a component\<close>

lemma multPack_wf:
  assumes "alu_wf g" "arr g a U" "arr g p P" "a + 16 \<le> 155" "p + 16 \<le> 155" "{a..<a + 16} \<inter> {p..<p + 16} = {}"
  shows "mp_wf (multPack_g op U P)" "chain_targets P 15 = ix g ` {p + 1..<p + 15}"
proof -
  have t: "chain_targets P 15 = (\<lambda>i. ix g (p + i)) ` {1..<15}" unfolding chain_targets_def by (rule image_cong) (use assms(3) in \<open>simp_all add: arr_def\<close>)
  also have "\<dots> = ix g ` ((+) p ` {1..<15})" by (simp only: image_image)
  finally show c: "chain_targets P 15 = ix g ` {p + 1..<p + 15}" by (simp add: image_add_atLeastLessThan add.commute)
  have "map (\<lambda>i. var_index (P ! i)) [1..<15] = map (ix g) (map ((+) p) [1..<15])" using assms(3) by (simp add: arr_def)
  moreover have "distinct (map (ix g) (map ((+) p) [1..<15]))" using assms(5) by (subst ix_distinct [OF assms(1)]) (auto simp: distinct_map)
  ultimately have d: "distinct (map (\<lambda>i. var_index (P ! i)) [1..<15])" by presburger
  have pk: "var_index (P ! 15) = ix g (p + 15)" using assms(3) by (simp add: arr_def)
  have "ix g ` {a..<a + 16} \<inter> ix g ` {p + 1..<p + 15} = {}" by (rule ix_disjoint [OF assms(1)]) (use assms(4-6) in auto)
  moreover have "p + 15 \<notin> {a..<a + 16}" using assms(6) by auto
  then have "ix g (p + 15) \<notin> ix g ` {a..<a + 16}" using assms(1,4,5) by simp
  moreover have "{p + 1..<p + 15} \<subseteq> {..<155}" using assms(5) by auto
  then have "ix g (p + 15) \<notin> ix g ` {p + 1..<p + 15}" using assms(1,5) by simp
  ultimately show "mp_wf (multPack_g op U P)"
    using d arr_distinct [OF assms(1,2,4)] unfolding mp_wf_def by (simp add: multPack_g_def Let_def arr_length [OF assms(2)] arr_length [OF assms(3)] REGISTER_LENGTH_def c pk arr_set [OF assms(2)])
qed

lemma multPack_positions:
  assumes "alu_wf g" "arr g a U" "arr g p P" "a + 16 \<le> 155" "p + 16 \<le> 155" "{a..<a + 16} \<inter> {p..<p + 16} = {}"
  shows "chain_targets P 15 \<union> {var_index (P ! 15)} = ix g ` {p + 1..<p + 16}"
proof -
  have "{p + 1..<p + 16} = {p + 1..<p + 15} \<union> {p + 15}" by auto
  then show ?thesis unfolding multPack_wf(2) [OF assms] using assms(3) by (simp add: arr_def)
qed

lemma multPack_runs:
  fixes op :: Opcode
  assumes "alu_wf g" "arr g a U" "arr g p P" "a + 16 \<le> 155" "p + 16 \<le> 155" "{a..<a + 16} \<inter> {p..<p + 16} = {}" "pb_inv pb"
  defines "w \<equiv> mp_values (multPack_g op U P) pb"
  shows "MultiplicationPacking_generateWitness (multPack_g op U P) (-1) pb = Inr w" "changes (ix g ` {p + 1..<p + 16}) pb w" "mp_chain (multPack_g op U P) w"
proof -
  note wf = multPack_wf [OF assms(1-6)]
  show "MultiplicationPacking_generateWitness (multPack_g op U P) (-1) pb = Inr w"
    by (simp add: MultiplicationPacking_generateWitness_def multPack_g_def w_def arr_length [OF assms(2)])
  have "writes_only (ix g ` {p + 1..<p + 16}) (mp_values (multPack_g op U P))"
    using mp_values_writes [OF wf(1)] multPack_positions [OF assms(1-6)] by (simp add: multPack_g_def arr_length [OF assms(2)] REGISTER_LENGTH_def)
  from changes_writes [OF this assms(7)] show "changes (ix g ` {p + 1..<p + 16}) pb w" by (simp only: w_def)
  show "mp_chain (multPack_g op U P) w" unfolding w_def by (rule mp_values_chain(2) [OF wf(1) assms(7)]) (simp add: multPack_g_def)
qed

lemma multPack_frame:
  assumes "alu_wf g" "arr g a U" "arr g p P" "a + 16 \<le> 155" "p + 16 \<le> 155" "changes (ix g ` K) pb w" "K \<subseteq> {..<155}"
    "K \<inter> {a..<a + 16} = {}" "K \<inter> {p + 1..<p + 16} = {}" "mp_chain (multPack_g op U P) pb"
  shows "mp_chain (multPack_g op U P) w"
proof -
  have u: "val w v = val pb v" if "v \<in> set U" for v
  proof -
    have "var_index v \<in> ix g ` {a..<a + 16}" using arr_set [OF assms(2)] that by blast
    then obtain k where "k \<in> {a..<a + 16}" "var_index v = ix g k" by blast
    then show ?thesis using assms(4,8) by (intro changes_val [OF assms(6,1,7)]) auto
  qed
  have q: "val w (P ! i) = val pb (P ! i)" if "0 < i" "i < 16" for i
  proof (rule changes_val [OF assms(6,1,7) arr_index [OF assms(3) that(2)]])
    have "p + i \<in> {p + 1..<p + 16}" using that by simp
    then show "p + i \<notin> K" using assms(9) by blast
  qed (use assms(5) that in simp)
  have n: "15 < length U" "15 = length U - 1" by (simp_all add: arr_length [OF assms(2)])
  have q': "val w (P ! i) = val pb (P ! i)" if "0 < i" "i < 15" for i using q [of i] that by simp
  note cs = chain_same [of U w pb 15 P]
  have "chain_eq w U P i" if "0 < i" "i < 15" for i using assms(10) cs(1) [OF u q' n(1) that] that by (simp add: mp_chain_def multPack_g_def arr_length [OF assms(2)])
  moreover have "chain_end w U P False = chain_end pb U P False" by (rule cs(3) [OF u q' n]) simp_all
  ultimately show ?thesis using assms(10) q [of 15] by (simp add: mp_chain_def multPack_g_def arr_length [OF assms(2)] REGISTER_LENGTH_def)
qed

lemma multPack_value:
  assumes "arr g a U" "mp_chain (multPack_g op U P) pb" "booleans pb U"
  shows "val pb (P ! 15) = getGF2E_X powi (int (bnum pb U))"
  using mp_chain_power [OF assms(2)] assms(3) by (simp add: multPack_g_def REGISTER_LENGTH_def arr_length [OF assms(1)] word_value_def bnum_def booleans_def)

lemma multPack_sat:
  assumes "alu_wf g" "arr g a U" "arr g p P" "a + 16 \<le> 155" "p + 16 \<le> 155" "{a..<a + 16} \<inter> {p..<p + 16} = {}"
  shows "\<forall>(q, nm) \<in> set (MultiplicationPacking_constraints (multPack_g op U P)). holds pb q \<Longrightarrow> mp_chain (multPack_g op U P) pb"
    and "\<forall>v \<in> set (alu_vars g). assigned pb v \<Longrightarrow> mp_chain (multPack_g op U P) pb \<Longrightarrow>
      \<forall>(q, nm) \<in> set (MultiplicationPacking_constraints (multPack_g op U P)). holds pb q"
proof -
  let ?m = "multPack_g op U P"
  have c: "(\<forall>(q, nm) \<in> set (MultiplicationPacking_constraints ?m). pv pb q = 0) \<longleftrightarrow> mp_chain ?m pb" unfolding mp_constraints_iff by (simp add: multPack_g_def)
  show "\<forall>(q, nm) \<in> set (MultiplicationPacking_constraints ?m). holds pb q \<Longrightarrow> mp_chain ?m pb" using c mp_plain [of _ _ ?m] holds_zero by blast
  assume a: "\<forall>v \<in> set (alu_vars g). assigned pb v" and e: "mp_chain ?m pb"
  have "assigned pb v" if "v \<in> set U \<or> v = P ! 15 \<or> var_index v \<in> chain_targets P 15" for v
  proof -
    have "var_index v \<in> ix g ` ({a..<a + 16} \<union> {p + 1..<p + 16})" using that arr_set [OF assms(2)] multPack_positions [OF assms] by blast
    then show ?thesis using assigned_position [OF a assms(1)] assms(4,5) by auto
  qed
  then have "cp_over {v. assigned pb v} q" if "(q, nm) \<in> set (MultiplicationPacking_constraints ?m)" for q nm
    using mp_vars [OF multPack_wf(1) [OF assms] that] by (auto simp: cp_over_def multPack_g_def arr_length [OF assms(2)] REGISTER_LENGTH_def)
  then show "\<forall>(q, nm) \<in> set (MultiplicationPacking_constraints ?m). holds pb q" using c mp_plain [of _ _ ?m] e holdsI by blast
qed

section \<open>The comparison inside a component\<close>

lemma GEQ_wf:
  assumes "alu_wf g"
  shows "ge_wf (GEQ_g op g)" "ge_written (GEQ_g op g) = ix g ` {139..<155}" "0 \<le> ge_first (GEQ_g op g)"
proof -
  note a = alu_arrays [OF assms] and l = alu_lengths [OF assms]
  have ne: "opcodeAux7 (vars g) \<noteq> []" using l(9) by auto
  have fl: "opcodeAux7 (vars g) ! 0 # tl (opcodeAux7 (vars g)) = opcodeAux7 (vars g)" using ne by (cases "opcodeAux7 (vars g)") simp_all
  have first: "ge_first (GEQ_g op g) = 15" by (simp add: ge_first_def GEQ_g_def l)
  have "ix g ` ({27..<43} \<union> {107..<123}) \<inter> ix g ` {139..<139 + 16} = {}" by (rule ix_disjoint [OF assms]) auto
  moreover have "var_index ` (set (unpackedArg2 (vars g)) \<union> set (remainder g)) = ix g ` ({27..<43} \<union> {107..<123})"
    using arr_set [OF a(2)] arr_set [OF a(7)] by (simp add: image_Un)
  moreover have "distinct (map var_index (opcodeAux7 (vars g)))" by (rule arr_distinct [OF assms a(9)]) simp
  ultimately show "ge_wf (GEQ_g op g)" using first fl arr_set [OF a(9)]
    unfolding ge_wf_def by (simp add: GEQ_g_def l del: list.map list.set)
  have c: "ge_currFlag (GEQ_g op g) i = opcodeAux7 (vars g) ! i" for i by (simp add: ge_currFlag_def GEQ_g_def)
  have "ge_written (GEQ_g op g) = (\<lambda>i. ix g (139 + i)) ` {..15}" unfolding ge_written_def first c
    by (rule image_cong) (use arr_index [OF a(9)] in simp_all)
  also have "\<dots> = ix g ` ((+) 139 ` {0..15})" unfolding image_image atMost_atLeast0 ..
  also have "(+) 139 ` {0..15} = {139..<155 :: nat}" by auto
  finally show "ge_written (GEQ_g op g) = ix g ` {139..<155}" .
  show "0 \<le> ge_first (GEQ_g op g)" by (simp add: first)
qed

lemma GEQ_runs:
  fixes op :: Opcode
  assumes "alu_wf g" "pb_inv u" "bits_of u (unpackedArg2 (vars g)) b" "bits_of u (remainder g) r" "\<forall>v \<in> set (unpackedArg2 (vars g)) \<union> set (remainder g). assigned u v"
  defines "w \<equiv> GreaterEqual_witness (GEQ_g op g) u"
  shows "GreaterEqual_generateWitness (GEQ_g op g) u = Inr w" "changes (ix g ` {139..<155}) u w"
    "val w (opcodeAux7 (vars g) ! 0) = cmp (int (take_bit 16 b)) (int (take_bit 16 r))"
proof -
  note a = alu_arrays [OF assms(1)] and l = alu_lengths [OF assms(1)] and G = GEQ_wf [OF assms(1), of op]
  have pre: "ge_pre (GEQ_g op g) u" using assms(5) bits_of_booleans [OF assms(3)] bits_of_booleans [OF assms(4)] by (auto simp: ge_pre_def GEQ_g_def booleans_def)
  show "GreaterEqual_generateWitness (GEQ_g op g) u = Inr w" using G(3) by (simp add: GreaterEqual_generateWitness_def w_def)
  show c: "changes (ix g ` {139..<155}) u w" unfolding w_def G(2) [symmetric] by (rule changes_writes [OF ge_writes [OF G(1)] assms(2)])
  have b: "bits_of w (unpackedArg2 (vars g)) b" "bits_of w (remainder g) r"
    using bits_of_changes [OF assms(3) c assms(1) a(2)] bits_of_changes [OF assms(4) c assms(1) a(7)] by auto
  have "\<forall>v \<in> set (ge_var1 (GEQ_g op g)) \<union> set (ge_var2 (GEQ_g op g)). boolean w v"
    using bits_of_booleans [OF b(1)] bits_of_booleans [OF b(2)] by (simp add: GEQ_g_def booleans_def ball_Un)
  moreover have "\<forall>(q, nm) \<in> set (GreaterEqual_constraints (GEQ_g op g)). holds w q" using ge_complete [OF G(1) assms(2) pre] by (auto simp: w_def)
  moreover have "ge_value (GEQ_g op g) w (ge_var1 (GEQ_g op g)) = int (take_bit 16 b)" "ge_value (GEQ_g op g) w (ge_var2 (GEQ_g op g)) = int (take_bit 16 r)"
    using bits_of_bnum [OF b(1)] bits_of_bnum [OF b(2)] by (simp_all add: ge_value_def word_value_def GEQ_g_def bnum_def l)
  ultimately show "val w (opcodeAux7 (vars g) ! 0) = cmp (int (take_bit 16 b)) (int (take_bit 16 r))"
    using greater_equal_correct_facts(1) [OF changesD(2) [OF c] G(1)] by (simp only:) (simp add: GEQ_g_def)
qed

section \<open>What the constraints say\<close>

definition scalar_eqs :: "ALU_Component_Gadget \<Rightarrow> Protoboard \<Rightarrow> bool" where
  "scalar_eqs g pb \<longleftrightarrow> (let d = val pb (arg2_val (inputs g)); i = val pb (pInverse (vars g)) in d * (d * i + 1) = 0
     \<and> d * (val pb (opcodeAux2 (vars g) ! 0) + val pb (opcodeAux4 (vars g) ! 15) * val pb (opcodeAux6 (vars g) ! 15)) + (d * i + 1) * val pb (out_result (results g)) = 0
     \<and> d * (val pb (opcodeAux7 (vars g) ! 0) + 1) = 0 \<and> val pb (out_flag (results g)) = d * i + 1)"

lemma scalar_positions:
  assumes "alu_wf g"
  shows "var_index (opcodeAux2 (vars g) ! 0) = ix g 59" "var_index (opcodeAux4 (vars g) ! 15) = ix g 106" "var_index (opcodeAux6 (vars g) ! 15) = ix g 138"
    "var_index (opcodeAux7 (vars g) ! 0) = ix g 139"
  using arr_index [OF alu_arrays(4) [OF assms], of 0] arr_index [OF alu_arrays(6) [OF assms], of 15]
    arr_index [OF alu_arrays(8) [OF assms], of 15] arr_index [OF alu_arrays(9) [OF assms], of 0] by simp_all

lemma scalar_sat:
  assumes "alu_wf g"
  shows "sat op (scalar_constraints op nm g) pb \<Longrightarrow> scalar_eqs g pb"
    and "\<forall>v \<in> set (alu_vars g). assigned pb v \<Longrightarrow> scalar_eqs g pb \<Longrightarrow> sat op (scalar_constraints op nm g) pb"
proof -
  let ?d = "arg2_val (inputs g)" and ?i = "pInverse (vars g)"
  let ?p = "inverse_poly (lc_var ?d) ?i" and ?q = "divisor_poly g"
  let ?r = "cp_times (cp_var ?d) (cp_lc (lc_plus (lc_var (opcodeAux7 (vars g) ! 0)) (lc_const 1)))" and ?f = "cp_plus (cp_plus (cp_var (out_flag (results g))) (var_times ?d ?i)) (cp_const 1)"
  have s: "sat op (scalar_constraints op nm g) pb \<longleftrightarrow> holds pb ?p \<and> holds pb ?q \<and> holds pb ?r \<and> holds pb ?f" by (simp add: scalar_constraints_def Let_def)
  have pl: "plain ?p" "plain ?q" "plain ?r" "plain ?f" by (simp_all add: inverse_poly_facts(2) divisor_poly_def)
  have v: "scalar_eqs g pb \<longleftrightarrow> pv pb ?p = 0 \<and> pv pb ?q = 0 \<and> pv pb ?r = 0 \<and> pv pb ?f = 0"
  proof -
    have "pv pb ?f = 0 \<longleftrightarrow> val pb (out_flag (results g)) = val pb ?d * val pb ?i + 1" by (simp add: pv_simps add.assoc fe_add_eq_0)
    then show ?thesis by (simp add: scalar_eqs_def Let_def inverse_poly_facts(1) divisor_poly_def pv_simps lv_simps REGISTER_LENGTH_def)
  qed
  show "sat op (scalar_constraints op nm g) pb \<Longrightarrow> scalar_eqs g pb" unfolding s v using holds_zero pl by blast
  assume a: "\<forall>v \<in> set (alu_vars g). assigned pb v" and e: "scalar_eqs g pb"
  note q = scalar_positions [OF assms]
  have m: "assigned pb ?d" "assigned pb ?i" "assigned pb (out_flag (results g))" "assigned pb (out_result (results g))" using a by (simp_all add: alu_vars_members)
  have n: "assigned pb (opcodeAux2 (vars g) ! 0)" "assigned pb (opcodeAux4 (vars g) ! 15)" "assigned pb (opcodeAux6 (vars g) ! 15)" "assigned pb (opcodeAux7 (vars g) ! 0)"
    by (rule assigned_position [OF a assms q(1)] assigned_position [OF a assms q(2)] assigned_position [OF a assms q(3)] assigned_position [OF a assms q(4)]; simp)+
  have "cp_over {v. assigned pb v} ?p" "cp_over {v. assigned pb v} ?q" "cp_over {v. assigned pb v} ?r" "cp_over {v. assigned pb v} ?f"
    using m n by (simp_all add: inverse_poly_facts(3) divisor_poly_def REGISTER_LENGTH_def)
  then show "sat op (scalar_constraints op nm g) pb" unfolding s using e [unfolded v] holdsI pl by blast
qed

definition div_eqs :: "Opcode \<Rightarrow> ALU_Component_Gadget \<Rightarrow> Protoboard \<Rightarrow> bool" where
  "div_eqs op g pb \<longleftrightarrow> mu_eqs (divide_g op g) pb \<and> mp_chain (multPackArg1_g op g) pb \<and> mp_chain (multPackRemainder_g op g) pb"

lemma div_factors: "alu_wf g \<Longrightarrow> factors g 27 75 (unpackedArg2 (vars g)) (quotient g)"
  using alu_arrays [of g] by (auto simp: factors_def)

lemma division_sat:
  assumes "alu_wf g"
  shows "sat op (division_constraints op nm g) pb \<Longrightarrow> div_eqs op g pb \<and> scalar_eqs g pb"
    and "\<forall>v \<in> set (alu_vars g). assigned pb v \<Longrightarrow> booleans pb (unpackedArg1 (vars g)) \<Longrightarrow> div_eqs op g pb \<Longrightarrow>
      sat op (division_constraints op nm g) pb \<longleftrightarrow> scalar_eqs g pb"
proof -
  note a = alu_arrays [OF assms] and l = alu_lengths [OF assms]
  have s: "sat op (division_constraints op nm g) pb \<longleftrightarrow> (\<forall>(p, nm) \<in> set (Multiplication_constraints (divide_g op g)). holds pb p)
    \<and> (standAlone g \<longrightarrow> (\<forall>u \<in> set (unpackedArg1 (vars g)). assigned pb u) \<and> booleans pb (unpackedArg1 (vars g)))
    \<and> (\<forall>(p, nm) \<in> set (MultiplicationPacking_constraints (multPackArg1_g op g)). holds pb p)
    \<and> (\<forall>(p, nm) \<in> set (MultiplicationPacking_constraints (multPackRemainder_g op g)). holds pb p) \<and> sat op (scalar_constraints op nm g) pb"
    unfolding division_constraints_def sat_simps unpackArg1_g_def using unpacker_constraints [OF l(1), of op "arg1_val (inputs g)" pb] by (cases "standAlone g") auto
  have d: "{11..<11 + 16} \<inter> {91..<91 + 16 :: nat} = {}" "{107..<107 + 16} \<inter> {123..<123 + 16 :: nat} = {}" by auto
  note m = mult_sat [OF assms div_factors [OF assms], where s = False and op = op]
  have n: "11 + 16 \<le> (155 :: nat)" "91 + 16 \<le> (155 :: nat)" "107 + 16 \<le> (155 :: nat)" "123 + 16 \<le> (155 :: nat)" by simp_all
  note p1 = multPack_sat [OF assms a(1) a(6) n(1,2) d(1), where op = op and pb = pb, folded multPackArg1_g_def]
  note p2 = multPack_sat [OF assms a(7) a(8) n(3,4) d(2), where op = op and pb = pb, folded multPackRemainder_g_def]
  show "sat op (division_constraints op nm g) pb \<Longrightarrow> div_eqs op g pb \<and> scalar_eqs g pb"
    unfolding s div_eqs_def using m(1) p1(1) p2(1) scalar_sat(1) [OF assms] by blast
  assume as: "\<forall>v \<in> set (alu_vars g). assigned pb v" and b: "booleans pb (unpackedArg1 (vars g))" and e: "div_eqs op g pb"
  have "\<forall>u \<in> set (unpackedArg1 (vars g)). assigned pb u" using as by (simp add: alu_vars_members)
  then show "sat op (division_constraints op nm g) pb \<longleftrightarrow> scalar_eqs g pb"
    unfolding s using b e [unfolded div_eqs_def] m(2) [OF as] p1(2) [OF as] p2(2) [OF as] scalar_sat [OF assms, where op = op and nm = nm and pb = pb] as by blast
qed

text \<open>In the exponent: the product of divisor and quotient is the sum of dividend and remainder.\<close>

lemma exponents:
  assumes "alu_wf g" "div_eqs op g pb" "booleans pb (unpackedArg1 (vars g))" "booleans pb (unpackedArg2 (vars g))" "booleans pb (quotient g)" "booleans pb (remainder g)"
  shows "val pb (opcodeAux2 (vars g) ! 0) = val pb (opcodeAux4 (vars g) ! 15) * val pb (opcodeAux6 (vars g) ! 15) \<longleftrightarrow>
    bnum pb (unpackedArg2 (vars g)) * bnum pb (quotient g) = bnum pb (unpackedArg1 (vars g)) + bnum pb (remainder g)"
proof -
  let ?b = "bnum pb (unpackedArg2 (vars g))" and ?q = "bnum pb (quotient g)" and ?a = "bnum pb (unpackedArg1 (vars g))" and ?r = "bnum pb (remainder g)"
  note a = alu_arrays [OF assms(1)] and l = alu_lengths [OF assms(1)]
  have e: "mu_eqs (divide_g op g) pb" "mp_chain (multPack_g op (unpackedArg1 (vars g)) (opcodeAux4 (vars g))) pb" "mp_chain (multPack_g op (remainder g) (opcodeAux6 (vars g))) pb"
    using assms(2) by (simp_all add: div_eqs_def multPackArg1_g_def multPackRemainder_g_def)
  have 1: "val pb (opcodeAux2 (vars g) ! 0) = getGF2E_X powi (int (?b * ?q))"
    using mult_value [OF assms(1) div_factors [OF assms(1)] e(1) assms(4,5)] by (simp add: read16_def)
  have 2: "val pb (opcodeAux4 (vars g) ! 15) * val pb (opcodeAux6 (vars g) ! 15) = getGF2E_X powi (int (?a + ?r))"
    unfolding multPack_value [OF a(1) e(2) assms(3)] multPack_value [OF a(7) e(3) assms(6)] using getGF2E_X_nonzero by (simp add: power_int_add)
  have n: "?b < 2 ^ 16" "?q < 2 ^ 16" "?a < 2 ^ 16" "?r < 2 ^ 16"
    using bnum_less [of pb "unpackedArg2 (vars g)"] bnum_less [of pb "quotient g"] bnum_less [of pb "unpackedArg1 (vars g)"] bnum_less [of pb "remainder g"] by (simp_all only: l)
  have "?b * ?q \<le> (2 ^ 16 - 1) * (2 ^ 16 - 1)" using n(1,2) by (intro mult_mono) simp_all
  then have "int (?b * ?q) < 2 ^ 32" using of_nat_less_iff [of "?b * ?q" "2 ^ 32", where 'a = int] by simp
  moreover have "int (?a + ?r) < 2 ^ 32" using n(3,4) by simp
  ultimately have "\<bar>int (?b * ?q) - int (?a + ?r)\<bar> < 2 ^ 32" by linarith
  then show ?thesis unfolding 1 2 using X_powi_inject of_nat_eq_iff by metis
qed

lemma division_sound:
  assumes "alu_wf g" "sat op (division_constraints op nm g) pb" "booleans pb (unpackedArg1 (vars g))" "booleans pb (unpackedArg2 (vars g))" "booleans pb (quotient g)" "booleans pb (remainder g)"
  shows "val pb (out_flag (results g)) = (if val pb (arg2_val (inputs g)) = 0 then 1 else 0)"
    "val pb (arg2_val (inputs g)) = 0 \<Longrightarrow> val pb (out_result (results g)) = 0"
    "val pb (arg2_val (inputs g)) \<noteq> 0 \<Longrightarrow> bnum pb (unpackedArg2 (vars g)) * bnum pb (quotient g) = bnum pb (unpackedArg1 (vars g)) + bnum pb (remainder g)"
    "val pb (arg2_val (inputs g)) \<noteq> 0 \<Longrightarrow> val pb (opcodeAux7 (vars g) ! 0) = 1"
proof -
  note e = division_sat(1) [OF assms(1,2)]
  let ?d = "val pb (arg2_val (inputs g))" and ?i = "val pb (pInverse (vars g))"
  have i: "?d * ?i = (if ?d = 0 then 0 else 1)" using e inverse_zero by (simp only: scalar_eqs_def Let_def)
  have s: "?d * (val pb (opcodeAux2 (vars g) ! 0) + val pb (opcodeAux4 (vars g) ! 15) * val pb (opcodeAux6 (vars g) ! 15)) + (?d * ?i + 1) * val pb (out_result (results g)) = 0"
    "?d * (val pb (opcodeAux7 (vars g) ! 0) + 1) = 0" "val pb (out_flag (results g)) = ?d * ?i + 1" using e by (simp_all only: scalar_eqs_def Let_def)
  show "val pb (out_flag (results g)) = (if ?d = 0 then 1 else 0)" using s(3) unfolding i by (simp split: if_splits)
  show "?d = 0 \<Longrightarrow> val pb (out_result (results g)) = 0" using s(1) unfolding i by simp
  show "?d \<noteq> 0 \<Longrightarrow> val pb (opcodeAux7 (vars g) ! 0) = 1" using s(2) by (simp add: fe_add_eq_0)
  show "bnum pb (unpackedArg2 (vars g)) * bnum pb (quotient g) = bnum pb (unpackedArg1 (vars g)) + bnum pb (remainder g)" if "?d \<noteq> 0"
  proof -
    have "val pb (opcodeAux2 (vars g) ! 0) = val pb (opcodeAux4 (vars g) ! 15) * val pb (opcodeAux6 (vars g) ! 15)" using s(1) that unfolding i by (simp add: fe_add_eq_0)
    then show ?thesis using exponents [OF assms(1) _ assms(3-6)] e by blast
  qed
qed

section \<open>Running the witness code\<close>

lemma write_pairs_facts:
  assumes "alu_wf g" "arr g c us" "arr g d vs" "c + 16 \<le> 155" "d + 16 \<le> 155" "{c..<c + 16} \<inter> {d..<d + 16} = {}" "pb_inv pb"
    "\<And>i. i < 16 \<Longrightarrow> A i = bit (M :: nat) i" "\<And>i. i < 16 \<Longrightarrow> B i = bit (N :: nat) i"
  shows "changes (ix g ` ({c..<c + 16} \<union> {d..<d + 16})) pb (write_pairs us A vs B 16 pb)" "bits_of (write_pairs us A vs B 16 pb) us M" "bits_of (write_pairs us A vs B 16 pb) vs N"
proof -
  have "changes (ix g ` ({c..<c + n} \<union> {d..<d + n})) pb (write_pairs us A vs B n pb) \<and>
    (\<forall>i < n. val (write_pairs us A vs B n pb) (us ! i) = (if bit M i then 1 else 0) \<and> val (write_pairs us A vs B n pb) (vs ! i) = (if bit N i then 1 else 0))" if "n \<le> 16" for n
    using that
  proof (induction n)
    case 0
    then show ?case using assms(7) by (simp add: write_pairs_def changes_def)
  next
    case (Suc n)
    let ?w = "write_pairs us A vs B n pb"
    have IH: "changes (ix g ` ({c..<c + n} \<union> {d..<d + n})) pb ?w"
      "\<And>i. i < n \<Longrightarrow> val ?w (us ! i) = (if bit M i then 1 else 0) \<and> val ?w (vs ! i) = (if bit N i then 1 else 0)" using Suc by auto
    note inv = changesD(2) [OF IH(1)]
    have e: "write_pairs us A vs B (Suc n) pb = set_val (vs ! n) (if bit N n then 1 else 0) (set_val (us ! n) (if bit M n then 1 else 0) ?w)"
      using assms(8,9) Suc.prems by (simp add: write_pairs_def)
    have p: "var_index (us ! i) = ix g (c + i)" "var_index (vs ! i) = ix g (d + i)" if "i < 16" for i using assms(2,3) that by (simp_all add: arr_def)
    have "changes (ix g ` {c + n, d + n}) ?w (write_pairs us A vs B (Suc n) pb)" unfolding e by (rule changes_two [OF inv]) (use p Suc.prems in simp_all)
    then have "changes (ix g ` ({c..<c + Suc n} \<union> {d..<d + Suc n})) pb (write_pairs us A vs B (Suc n) pb)" by (rule changes_join [OF IH(1)]) auto
    moreover have "val (write_pairs us A vs B (Suc n) pb) (us ! i) = (if bit M i then 1 else 0) \<and> val (write_pairs us A vs B (Suc n) pb) (vs ! i) = (if bit N i then 1 else 0)" if i: "i < Suc n" for i
    proof -
      have "c + i \<in> {c..<c + 16}" "d + n \<in> {d..<d + 16}" "c + n \<in> {c..<c + 16}" "d + i \<in> {d..<d + 16}" using i Suc.prems by simp_all
      then have "c + i \<noteq> d + n" "d + i \<noteq> c + n" using assms(6) by (metis disjoint_iff)+
      then have "ix g (c + i) \<noteq> ix g (d + n)" "ix g (d + i) \<noteq> ix g (c + n)" "ix g (c + i) = ix g (c + n) \<longleftrightarrow> i = n" "ix g (d + i) = ix g (d + n) \<longleftrightarrow> i = n"
        using assms(1,4,5) i Suc.prems by simp_all
      then show ?thesis unfolding e using IH(2) [of i] inv p [of i] p [of n] i Suc.prems by (auto simp: less_Suc_eq)
    qed
    ultimately show ?case by blast
  qed
  from this [of 16] show "changes (ix g ` ({c..<c + 16} \<union> {d..<d + 16})) pb (write_pairs us A vs B 16 pb)" "bits_of (write_pairs us A vs B 16 pb) us M" "bits_of (write_pairs us A vs B 16 pb) vs N"
    by (simp_all add: bits_of_def arr_length [OF assms(2)] arr_length [OF assms(3)])
qed

text \<open>The numbers on the board before and after the gadgets run, for dividend \<open>a\<close>, divisor \<open>b\<close> and result \<open>c\<close>.\<close>

definition div_rest :: "nat \<Rightarrow> nat \<Rightarrow> nat" where
  "div_rest a b = (if b = 0 then 0 else a mod b)"

definition div_scalars :: "ALU_Component_Gadget \<Rightarrow> nat \<Rightarrow> Protoboard \<Rightarrow> Protoboard \<Rightarrow> bool" where
  "div_scalars g c pb u \<longleftrightarrow> num u (out_result (results g)) = c \<and> val u (pInverse (vars g)) = (if val pb (arg2_val (inputs g)) = 0 then 0 else inverse (val pb (arg2_val (inputs g))))
     \<and> val u (out_flag (results g)) = (if val pb (arg2_val (inputs g)) = 0 then 1 else 0) \<and> val u (out_isMemOp (results g)) = 0"

definition div_words :: "ALU_Component_Gadget \<Rightarrow> nat \<Rightarrow> nat \<Rightarrow> Protoboard \<Rightarrow> bool" where
  "div_words g a b u \<longleftrightarrow> bits_of u (unpackedArg1 (vars g)) a \<and> bits_of u (unpackedArg2 (vars g)) b \<and> bits_of u (quotient g) (a div b) \<and> bits_of u (remainder g) (div_rest a b)"

definition div_pre :: "ALU_Component_Gadget \<Rightarrow> Protoboard \<Rightarrow> bool" where
  "div_pre g pb \<longleftrightarrow> alu_pre g pb \<and> num pb (arg1_val (inputs g)) < 2 ^ 16 \<and> num pb (arg2_val (inputs g)) < 2 ^ 16"

lemma div_scalars_frame:
  assumes "alu_wf g" "div_scalars g c pb u" "changes (ix g ` K) u w" "K \<subseteq> {..<155} - {4, 5, 6, 10}"
  shows "div_scalars g c pb w"
proof -
  note p = alu_positions [OF assms(1)]
  have K: "K \<subseteq> {..<155}" "4 \<notin> K" "5 \<notin> K" "6 \<notin> K" "10 \<notin> K" using assms(4) by auto
  note c = changes_val [OF assms(3,1) K(1)]
  show ?thesis using assms(2) K c [OF p(5)] c [OF p(6)] c [OF p(7)] c [OF p(11)] by (simp add: div_scalars_def num_def)
qed

lemma div_words_frame:
  assumes "alu_wf g" "div_words g a b u" "changes (ix g ` K) u w" "K \<subseteq> {..<155} - ({11..<43} \<union> {75..<91} \<union> {107..<123})"
  shows "div_words g a b w"
proof -
  note r = alu_arrays [OF assms(1)]
  have K: "K \<subseteq> {..<155}" "K \<inter> {11..<11 + 16} = {}" "K \<inter> {27..<27 + 16} = {}" "K \<inter> {75..<75 + 16} = {}" "K \<inter> {107..<107 + 16} = {}" using assms(4) by auto
  show ?thesis using assms(2) bits_of_changes [OF _ assms(3,1) r(1) _ K(1,2)] bits_of_changes [OF _ assms(3,1) r(2) _ K(1,3)]
    bits_of_changes [OF _ assms(3,1) r(5) _ K(1,4)] bits_of_changes [OF _ assms(3,1) r(7) _ K(1,5)] by (simp add: div_words_def)
qed

lemma division_run:
  assumes "alu_wf g" "changes (ix g ` {4..<155}) pb u" "div_words g a b u" "div_scalars g c pb u"
  shows "\<exists>w. division_witness op g u = Inr w \<and> changes (ix g ` {4..<155}) pb w \<and> div_words g a b w \<and> div_scalars g c pb w \<and> div_eqs op g w
    \<and> val w (opcodeAux7 (vars g) ! 0) = cmp (int (take_bit 16 b)) (int (take_bit 16 (div_rest a b)))"
proof -
  note r = alu_arrays [OF assms(1)] and f = div_factors [OF assms(1)]
  have n: "11 + 16 \<le> (155 :: nat)" "91 + 16 \<le> (155 :: nat)" "107 + 16 \<le> (155 :: nat)" "123 + 16 \<le> (155 :: nat)" by simp_all
  have d: "{11..<11 + 16} \<inter> {91..<91 + 16 :: nat} = {}" "{107..<107 + 16} \<inter> {123..<123 + 16 :: nat} = {}" by auto
  have bits: "bits_of u (unpackedArg2 (vars g)) b" "bits_of u (quotient g) (a div b)" using assms(3) by (simp_all add: div_words_def)
  define m where "m = Multiplication_witness (divide_g op g) u"
  note M = mult_runs [OF assms(1) f changesD(2) [OF assms(2)] bits, of False op, folded m_def]
  define x where "x = mp_values (multPackArg1_g op g) m"
  note X = multPack_runs [OF assms(1) r(1) r(6) n(1,2) d(1) changesD(2) [OF M(2)], of op, folded multPackArg1_g_def, folded x_def]
  define y where "y = mp_values (multPackRemainder_g op g) x"
  note Y = multPack_runs [OF assms(1) r(7) r(8) n(3,4) d(2) changesD(2) [OF X(2)], of op, folded multPackRemainder_g_def, folded y_def]
  have MXY: "changes (ix g ` ({43..<75} \<union> {92..<107} \<union> {124..<139})) u y"
    by (rule changes_join [OF changes_join [OF M(2) X(2) refl] Y(2)]) simp
  have wy: "div_words g a b y" by (rule div_words_frame [OF assms(1,3) MXY]) auto
  have uy: "changes (ix g ` {4..<155}) pb y" by (rule changes_join [OF assms(2) MXY]) auto
  have as: "\<forall>v \<in> set (unpackedArg2 (vars g)) \<union> set (remainder g). assigned y v" using arr_assigned [OF uy r(2)] arr_assigned [OF uy r(7)] by auto
  have by2: "bits_of y (unpackedArg2 (vars g)) b" "bits_of y (remainder g) (div_rest a b)" using wy by (simp_all add: div_words_def)
  define w where "w = GreaterEqual_witness (GEQ_g op g) y"
  note W = GEQ_runs [OF assms(1) changesD(2) [OF Y(2)] by2 as, of op, folded w_def]
  have MW: "changes (ix g ` ({43..<75} \<union> {92..<107} \<union> {124..<155})) u w" by (rule changes_join [OF MXY W(2)]) auto
  have mX: "changes (ix g ` ({92..<107} \<union> {124..<155})) m w" by (rule changes_join [OF changes_join [OF X(2) Y(2) refl] W(2)]) auto
  have xw: "changes (ix g ` {124..<155}) x w" by (rule changes_join [OF Y(2) W(2)]) auto
  have "mu_eqs (divide_g op g) w" by (rule mult_frame [OF assms(1) f mX _ _ M(3)]) (auto simp: mult_positions_def)
  moreover have "mp_chain (multPackArg1_g op g) w" unfolding multPackArg1_g_def
    by (rule multPack_frame [OF assms(1) r(1) r(6) n(1,2) xw _ _ _ X(3) [unfolded multPackArg1_g_def]]) auto
  moreover have "mp_chain (multPackRemainder_g op g) w" unfolding multPackRemainder_g_def
    by (rule multPack_frame [OF assms(1) r(7) r(8) n(3,4) W(2) _ _ _ Y(3) [unfolded multPackRemainder_g_def]]) auto
  ultimately have "div_eqs op g w" by (simp add: div_eqs_def)
  moreover have "div_words g a b w" by (rule div_words_frame [OF assms(1,3) MW]) auto
  moreover have "div_scalars g c pb w" by (rule div_scalars_frame [OF assms(1,4) MW]) auto
  moreover have "changes (ix g ` {4..<155}) pb w" by (rule changes_join [OF assms(2) MW]) auto
  moreover have "division_witness op g u = Inr w" by (simp add: division_witness_def M(1) X(1) Y(1) W(1))
  ultimately show ?thesis using W(3) by blast
qed

lemma operands:
  fixes x y :: FElem
  assumes "unat (element x) < 2 ^ 16" "unat (element y) < 2 ^ 16"
  defines "a \<equiv> mapFieldElementToInteger 0 16 x" and "b \<equiv> mapFieldElementToInteger 0 16 y"
  shows "unat a = unat (element x)" "0 = b \<longleftrightarrow> y = 0" "unat (a div b) = unat (element x) div unat (element y)" "unat (a mod b) = unat (element x) mod unat (element y)"
    "mapIntegerToFieldElement 0 16 (a div b) = fe (unat (element x) div unat (element y))"
    "y \<noteq> 0 \<Longrightarrow> mapIntegerToFieldElement 0 16 (a mod b) = fe (unat (element x) mod unat (element y))" "y = 0 \<longleftrightarrow> unat (element y) = 0"
proof -
  show a: "unat a = unat (element x)" using assms(1) by (simp add: a_def unat_map_fe take_bit_nat_eq_self)
  have b: "unat b = unat (element y)" using assms(2) by (simp add: b_def unat_map_fe take_bit_nat_eq_self)
  show y: "y = 0 \<longleftrightarrow> unat (element y) = 0" using fe_zero_iff [of "unat (element y)"] unsigned_less [of "element y", where 'a = nat] by (simp add: fe_def)
  show "0 = b \<longleftrightarrow> y = 0" unfolding y b [symmetric] by (metis unat_0 unat_eq_zero)
  show d: "unat (a div b) = unat (element x) div unat (element y)" "unat (a mod b) = unat (element x) mod unat (element y)"
    by (simp_all add: unat_div_distrib unat_mod_distrib a b)
  have "unat (element x) div unat (element y) < 2 ^ 16" using assms(1) div_le_dividend le_less_trans by blast
  then show "mapIntegerToFieldElement 0 16 (a div b) = fe (unat (element x) div unat (element y))" by (simp add: map_int_fe d take_bit_nat_eq_self)
  show "mapIntegerToFieldElement 0 16 (a mod b) = fe (unat (element x) mod unat (element y))" if "y \<noteq> 0"
  proof -
    have "unat (element x) mod unat (element y) < 2 ^ 16" using assms(1) mod_less_eq_dividend le_less_trans by blast
    then show ?thesis by (simp add: map_int_fe d take_bit_nat_eq_self)
  qed
qed

text \<open>The board after the first statements, of both classes: \<open>qs\<close> says whether the bits of the quotient are written.\<close>

definition numbers_ok :: "bool \<Rightarrow> ALU_Component_Gadget \<Rightarrow> nat \<Rightarrow> nat \<Rightarrow> Protoboard \<Rightarrow> Protoboard \<Rightarrow> bool" where
  "numbers_ok qs g c d pb u \<longleftrightarrow> (\<exists>K. changes (ix g ` K) pb u \<and> {4, 5} \<subseteq> K \<and> K \<subseteq> {4, 5, 10} \<union> {107..<123} \<union> {75..<91})
     \<and> bits_of u (remainder g) d \<and> div_scalars g c pb u
     \<and> (qs \<longrightarrow> bits_of u (quotient g) (num pb (arg1_val (inputs g)) div num pb (arg2_val (inputs g))))"

lemma numbers_zero:
  assumes "alu_wf g" "pb_inv pb" "bits_of pb (remainder g) 0" "bits_of pb (quotient g) 0" "val pb (out_isMemOp (results g)) = 0" "val pb (arg2_val (inputs g)) = 0"
  shows "numbers_ok qs g 0 0 pb (division_by_zero g pb)"
proof -
  note p = alu_positions [OF assms(1)] and r = alu_arrays [OF assms(1)]
  have c: "changes (ix g ` {10, 5, 4}) pb (division_by_zero g pb)" unfolding division_by_zero_def
    by (rule changes_join [OF changes_join [OF changes_position [OF assms(1,2) p(11)] changes_position [OF assms(1) _ p(6)] refl] changes_position [OF assms(1) _ p(5)]]) (use assms(2) in auto)
  have b: "bits_of (division_by_zero g pb) (remainder g) 0" "bits_of (division_by_zero g pb) (quotient g) 0"
    using bits_of_changes [OF assms(3) c assms(1) r(7)] bits_of_changes [OF assms(4) c assms(1) r(5)] by simp_all
  have "num pb (arg2_val (inputs g)) = 0" using assms(6) by (simp add: num_def fe_defs)
  moreover have "div_scalars g 0 pb (division_by_zero g pb)"
    using assms(1,2,5,6) p by (simp add: div_scalars_def division_by_zero_def num_def fe_defs(1)) (simp add: fe_defs)
  moreover have "\<exists>K. changes (ix g ` K) pb (division_by_zero g pb) \<and> {4, 5} \<subseteq> K \<and> K \<subseteq> {4, 5, 10} \<union> {107..<123} \<union> {75..<91}" using c by blast
  ultimately show ?thesis unfolding numbers_ok_def using b by simp
qed

lemma numbers_set:
  assumes "alu_wf g" "pb_inv pb" "val pb (out_isMemOp (results g)) = 0" "val pb (arg2_val (inputs g)) \<noteq> 0" "c < 2 ^ 16"
    and v: "v = set_val (out_result (results g)) (fe c) (set_val (pInverse (vars g)) (inverse (val pb (arg2_val (inputs g)))) pb)"
    and w: "changes (ix g ` L) v w" "L \<subseteq> {107..<123} \<union> {75..<91}" "bits_of w (remainder g) d"
      "qs \<Longrightarrow> bits_of w (quotient g) (num pb (arg1_val (inputs g)) div num pb (arg2_val (inputs g)))"
  shows "numbers_ok qs g c d pb (set_val (out_flag (results g)) 0 w)"
proof -
  note p = alu_positions [OF assms(1)] and r = alu_arrays [OF assms(1)]
  have cv: "changes (ix g ` {10, 5}) pb v" unfolding v by (rule changes_two [OF assms(2) p(11,6)])
  have cw: "changes (ix g ` {4}) w (set_val (out_flag (results g)) 0 w)" by (rule changes_position [OF assms(1) changesD(2) [OF w(1)] p(5)])
  have L: "L \<subseteq> {..<155}" "4 \<notin> L" "5 \<notin> L" "6 \<notin> L" "10 \<notin> L" using w(2) by auto
  have "changes (ix g ` ({10, 5} \<union> L \<union> {4})) pb (set_val (out_flag (results g)) 0 w)" by (rule changes_join [OF changes_join [OF cv w(1) refl] cw refl])
  moreover have "{10, 5} \<union> L \<union> {4} \<subseteq> {4, 5, 10} \<union> {107..<123} \<union> {75..<91}" using w(2) by blast
  ultimately have K: "\<exists>K. changes (ix g ` K) pb (set_val (out_flag (results g)) 0 w) \<and> {4, 5} \<subseteq> K \<and> K \<subseteq> {4, 5, 10} \<union> {107..<123} \<union> {75..<91}" by blast
  note k = changes_val [OF w(1) assms(1) L(1)]
  have "num v (out_result (results g)) = c" using assms(1,2,5) p by (intro num_fe) (simp_all add: v)
  then have "div_scalars g c pb (set_val (out_flag (results g)) 0 w)"
    using assms(1-4) p k [OF p(6)] k [OF p(7)] k [OF p(11)] L changesD(2) [OF w(1)] by (simp add: div_scalars_def num_def v)
  moreover have "bits_of (set_val (out_flag (results g)) 0 w) (remainder g) d" "qs \<Longrightarrow> bits_of (set_val (out_flag (results g)) 0 w) (quotient g) (num pb (arg1_val (inputs g)) div num pb (arg2_val (inputs g)))"
    using bits_of_changes [OF w(3) cw assms(1) r(7)] bits_of_changes [OF w(4) cw assms(1) r(5)] by simp_all
  ultimately show ?thesis unfolding numbers_ok_def using K by blast
qed

lemma numbers_run:
  assumes "alu_wf g" "pb_inv pb" "bits_of pb (remainder g) 0" "bits_of pb (quotient g) 0" "val pb (out_isMemOp (results g)) = 0"
    "num pb (arg1_val (inputs g)) < 2 ^ 16" "num pb (arg2_val (inputs g)) < 2 ^ 16"
  defines "a \<equiv> num pb (arg1_val (inputs g))" and "b \<equiv> num pb (arg2_val (inputs g))"
  shows "\<exists>u. UDIV_numbers g pb = Inr u \<and> numbers_ok False g (a div b) (div_rest a b) pb u" "\<exists>u. UMOD_numbers g pb = Inr u \<and> numbers_ok True g (div_rest a b) (div_rest a b) pb u"
proof -
  let ?x = "val pb (arg1_val (inputs g))" and ?y = "val pb (arg2_val (inputs g))"
  note p = alu_positions [OF assms(1)] and r = alu_arrays [OF assms(1)] and l = alu_lengths(10) [OF assms(1)]
  note o = operands [OF assms(6,7) [unfolded num_def], folded num_def a_def b_def]
  define v where "v c = set_val (out_result (results g)) (fe c) (set_val (pInverse (vars g)) (inverse ?y) pb)" for c
  have inv: "pb_inv (v c)" for c using assms(2) by (simp add: v_def)
  have x: "val (set_val (pInverse (vars g)) (inverse ?y) pb) (arg1_val (inputs g)) = ?x" using assms(1,2) p by simp
  have small: "a div b < 2 ^ 16" "a mod b < 2 ^ 16"
    using assms(6) div_le_dividend [of a b] mod_less_eq_dividend [of a b] unfolding a_def [symmetric] by linarith+
  let ?q = "mapFieldElementToInteger 0 16 ?x div mapFieldElementToInteger 0 16 ?y" and ?r = "mapFieldElementToInteger 0 16 ?x mod mapFieldElementToInteger 0 16 ?y"
  have bits: "(drop_bit i ?r AND 1 \<noteq> 0) = bit (a mod b) i" "(drop_bit i ?q AND 1 \<noteq> 0) = bit (a div b) i" for i
    unfolding word_bit_tests o(3,4) [symmetric] bit_unat by simp_all
  have b0: "b = 0" if "?y = 0" using that o(7) by simp
  have nz: "mapFieldElementToInteger 0 16 ?y \<noteq> 0" if "?y \<noteq> 0" using that o(2) by metis
  show "\<exists>u. UDIV_numbers g pb = Inr u \<and> numbers_ok False g (a div b) (div_rest a b) pb u"
  proof (cases "?y = 0")
    case True
    have "UDIV_numbers g pb = Inr (division_by_zero g pb)" unfolding UDIV_numbers_def Let_def l by (rule if_P) (use o(2) True in blast)
    then show ?thesis using numbers_zero [OF assms(1-5) True] b0 [OF True] by (simp add: div_rest_def)
  next
    case False
    let ?w = "write_bits (remainder g) (\<lambda>i. drop_bit i ?r AND 1 \<noteq> 0) 16 (v (a div b))"
    have "107 + 16 \<le> (155 :: nat)" by simp
    note w = write_bits_facts [OF assms(1) r(7) this inv bits(1), of "a div b"]
    have "numbers_ok False g (a div b) (a mod b) pb (set_val (out_flag (results g)) 0 ?w)"
      by (rule numbers_set [OF assms(1,2,5) False small(1) v_def w(1) _ w(2)]) auto
    moreover have "UDIV_numbers g pb = Inr (set_val (out_flag (results g)) 0 ?w)"
      using nz [OF False] by (simp add: UDIV_numbers_def Let_def l o(5) x guarded_def REGISTER_LENGTH_def v_def)
    ultimately show ?thesis using False o(7) by (simp add: div_rest_def)
  qed
  show "\<exists>u. UMOD_numbers g pb = Inr u \<and> numbers_ok True g (div_rest a b) (div_rest a b) pb u"
  proof (cases "?y = 0")
    case True
    have "UMOD_numbers g pb = Inr (division_by_zero g pb)" unfolding UMOD_numbers_def Let_def l by (rule if_P) (use o(2) True in blast)
    then show ?thesis using numbers_zero [OF assms(1-5) True] b0 [OF True] by (simp add: div_rest_def)
  next
    case False
    let ?w = "write_pairs (quotient g) (\<lambda>i. drop_bit i ?q AND 1 \<noteq> 0) (remainder g) (\<lambda>i. drop_bit i ?r AND 1 \<noteq> 0) 16 (v (a mod b))"
    have n: "75 + 16 \<le> (155 :: nat)" "107 + 16 \<le> (155 :: nat)" "{75..<75 + 16} \<inter> {107..<107 + 16 :: nat} = {}" by auto
    note w = write_pairs_facts [OF assms(1) r(5) r(7) n inv bits(2) bits(1), of "a mod b"]
    have "numbers_ok True g (a mod b) (a mod b) pb (set_val (out_flag (results g)) 0 ?w)"
      by (rule numbers_set [OF assms(1,2,5) False small(2) v_def w(1) _ w(3)]) (use w(2) in \<open>auto simp: a_def b_def\<close>)
    moreover have "UMOD_numbers g pb = Inr (set_val (out_flag (results g)) 0 ?w)"
      using nz [OF False] o(6) [OF False] by (simp add: UMOD_numbers_def Let_def l x guarded_def REGISTER_LENGTH_def v_def)
    ultimately show ?thesis using False o(7) by (simp add: div_rest_def)
  qed
qed

lemma unpack_both_facts:
  assumes "alu_wf g" "pb_inv pb"
  shows "changes (ix g ` {11..<43}) pb (unpack_both op g pb)" "bits_of (unpack_both op g pb) (unpackedArg1 (vars g)) (num pb (arg1_val (inputs g)))"
    "bits_of (unpack_both op g pb) (unpackedArg2 (vars g)) (num pb (arg2_val (inputs g)))"
proof -
  note p = alu_positions [OF assms(1)] and r = alu_arrays [OF assms(1)]
  have n: "11 + 16 \<le> (155 :: nat)" "27 + 16 \<le> (155 :: nat)" "0 < (155 :: nat)" "1 < (155 :: nat)" "0 \<notin> {11..<11 + 16 :: nat}" "1 \<notin> {27..<27 + 16 :: nat}" by auto
  define u where "u = CompressionPacking_generateWitness (unpackArg1_g op g) pb"
  note U = unpacker_facts [OF assms(1) r(1) n(1) p(1) n(3,5) assms(2), of op, folded unpackArg1_g_def, folded u_def]
  note W = unpacker_facts [OF assms(1) r(2) n(2) p(2) n(4,6) changesD(2) [OF U(1)], of op, folded unpackArg2_g_def]
  have e: "unpack_both op g pb = CompressionPacking_generateWitness (unpackArg2_g op g) u" by (simp add: unpack_both_def u_def)
  show "changes (ix g ` {11..<43}) pb (unpack_both op g pb)" unfolding e by (rule changes_join [OF U(1) W(1)]) auto
  show "bits_of (unpack_both op g pb) (unpackedArg1 (vars g)) (num pb (arg1_val (inputs g)))" unfolding e by (rule bits_of_changes [OF U(2) W(1) assms(1) r(1)]) auto
  have "num u (arg2_val (inputs g)) = num pb (arg2_val (inputs g))" using changes_val [OF U(1) assms(1) _ p(2)] by (simp add: num_def)
  then show "bits_of (unpack_both op g pb) (unpackedArg2 (vars g)) (num pb (arg2_val (inputs g)))" unfolding e using W(2) by simp
qed

lemma scalar_iff:
  assumes "alu_wf g" "changes (ix g ` {4..<155}) pb w" "div_eqs op g w" "div_words g a b w" "div_scalars g c pb w" "a = num pb (arg1_val (inputs g))" "b = num pb (arg2_val (inputs g))"
    "a < 2 ^ 16" "b < 2 ^ 16" "b = 0 \<Longrightarrow> c = 0" "val w (opcodeAux7 (vars g) ! 0) = cmp (int (take_bit 16 b)) (int (take_bit 16 (div_rest a b)))"
  shows "scalar_eqs g w \<longleftrightarrow> b = 0 \<or> b dvd a"
proof -
  let ?y = "val pb (arg2_val (inputs g))"
  have y: "val w (arg2_val (inputs g)) = ?y" using changes_val [OF assms(2,1) _ alu_positions(2) [OF assms(1)]] by simp
  have y0: "?y = 0 \<longleftrightarrow> b = 0" using operands(7) [of ?y ?y] assms(7,9) by (simp add: num_def)
  have sc: "val w (pInverse (vars g)) = (if ?y = 0 then 0 else inverse ?y)" "val w (out_flag (results g)) = (if ?y = 0 then 1 else 0)" "num w (out_result (results g)) = c"
    using assms(5) by (simp_all add: div_scalars_def)
  show ?thesis
  proof (cases "b = 0")
    case True
    have "val w (out_result (results g)) = 0" using sc(3) assms(10) [OF True] val_num [of w "out_result (results g)"] fe_zero_iff [of 0] by simp
    then show ?thesis using True y0 by (simp add: scalar_eqs_def Let_def y sc)
  next
    case False
    have d: "a mod b < b" "a div b < 2 ^ 16" using False assms(8) div_le_dividend [of a b] by (simp, linarith)
    have w: "bits_of w (unpackedArg1 (vars g)) a" "bits_of w (unpackedArg2 (vars g)) b" "bits_of w (quotient g) (a div b)" "bits_of w (remainder g) (a mod b)"
      using assms(4) False by (simp_all add: div_words_def div_rest_def)
    have bn: "bnum w (unpackedArg1 (vars g)) = a" "bnum w (unpackedArg2 (vars g)) = b" "bnum w (quotient g) = a div b" "bnum w (remainder g) = a mod b"
      using bits_of_bnum [OF w(1)] bits_of_bnum [OF w(2)] bits_of_bnum [OF w(3)] bits_of_bnum [OF w(4)] assms(8,9) d
      by (simp_all add: alu_lengths [OF assms(1)] take_bit_nat_eq_self)
    have "cmp (int (take_bit 16 b)) (int (take_bit 16 (div_rest a b))) = 1" using False assms(9) d(1) by (simp add: div_rest_def take_bit_nat_eq_self cmp_outcomes(1))
    then have "scalar_eqs g w \<longleftrightarrow> val w (opcodeAux2 (vars g) ! 0) = val w (opcodeAux4 (vars g) ! 15) * val w (opcodeAux6 (vars g) ! 15)"
      using False y0 assms(11) by (simp add: scalar_eqs_def Let_def y sc fe_add_eq_0)
    also have "\<dots> \<longleftrightarrow> b * (a div b) = a + a mod b"
      using exponents [OF assms(1,3) bits_of_booleans [OF w(1)] bits_of_booleans [OF w(2)] bits_of_booleans [OF w(3)] bits_of_booleans [OF w(4)]] unfolding bn .
    also have "\<dots> \<longleftrightarrow> a mod b = 0"
    proof -
      have "b * (a div b) + a mod b = a" by simp
      then show ?thesis by linarith
    qed
    also have "\<dots> \<longleftrightarrow> b dvd a" by (rule dvd_eq_mod_eq_0 [symmetric])
    finally show ?thesis using False by simp
  qed
qed

lemma init_words:
  assumes "alu_wf g" "pb_inv pb"
  shows "bits_of (alu_init g pb) (remainder g) 0" "bits_of (alu_init g pb) (quotient g) 0" "val (alu_init g pb) (out_isMemOp (results g)) = 0"
    "val (alu_init g pb) (arg1_val (inputs g)) = val pb (arg1_val (inputs g))" "val (alu_init g pb) (arg2_val (inputs g)) = val pb (arg2_val (inputs g))"
proof -
  note r = alu_arrays [OF assms(1)] and p = alu_positions [OF assms(1)] and I = alu_init_changes [OF assms]
  show "bits_of (alu_init g pb) (remainder g) 0" "bits_of (alu_init g pb) (quotient g) 0"
    using I(2) [OF arr_index [OF r(7)]] I(2) [OF arr_index [OF r(5)]] by (simp_all add: bits_of_def alu_lengths [OF assms(1)])
  show "val (alu_init g pb) (out_isMemOp (results g)) = 0" using I(2) [OF p(7)] by simp
  show "val (alu_init g pb) (arg1_val (inputs g)) = val pb (arg1_val (inputs g))" "val (alu_init g pb) (arg2_val (inputs g)) = val pb (arg2_val (inputs g))"
    using changes_val [OF I(1) assms(1) _ p(1)] changes_val [OF I(1) assms(1) _ p(2)] by simp_all
qed

lemma div_rest_less: "a < 2 ^ 16 \<Longrightarrow> b < 2 ^ 16 \<Longrightarrow> div_rest a b < 2 ^ 16" "a < 2 ^ 16 \<Longrightarrow> a div b < (2 ^ 16 :: nat)"
proof -
  show "a < 2 ^ 16 \<Longrightarrow> b < 2 ^ 16 \<Longrightarrow> div_rest a b < 2 ^ 16" by (simp add: div_rest_def le_less_trans [OF mod_less_eq_dividend])
  show "a < 2 ^ 16 \<Longrightarrow> a div b < (2 ^ 16 :: nat)" using div_le_dividend [of a b] by linarith
qed

text \<open>After the first statements and the unpacking of the arguments.\<close>

lemma start_run:
  fixes op :: Opcode
  assumes "alu_wf g" "pb_inv pb" "numbers_ok qs g c (div_rest a b) (alu_init g pb) u" "a = num pb (arg1_val (inputs g))" "b = num pb (arg2_val (inputs g))"
  defines "w \<equiv> unpack_both op g u"
  shows "changes (ix g ` {4..<155}) pb w" "div_scalars g c pb w" "bits_of w (unpackedArg1 (vars g)) a" "bits_of w (unpackedArg2 (vars g)) b"
    "bits_of w (remainder g) (div_rest a b)" "qs \<Longrightarrow> bits_of w (quotient g) (a div b)"
proof -
  note r = alu_arrays [OF assms(1)] and p = alu_positions [OF assms(1)] and I = alu_init_changes(1) [OF assms(1,2)] and z = init_words [OF assms(1,2)]
  obtain K where K: "changes (ix g ` K) (alu_init g pb) u" "{4, 5} \<subseteq> K" "K \<subseteq> {4, 5, 10} \<union> {107..<123} \<union> {75..<91}" using assms(3) by (auto simp: numbers_ok_def)
  have u: "bits_of u (remainder g) (div_rest a b)" "qs \<Longrightarrow> bits_of u (quotient g) (a div b)" "div_scalars g c (alu_init g pb) u"
    using assms(3-5) z(4,5) by (simp_all add: numbers_ok_def num_def)
  have K': "K \<subseteq> {..<155}" "0 \<notin> K" "1 \<notin> K" using K(3) by auto
  have args: "num u (arg1_val (inputs g)) = a" "num u (arg2_val (inputs g)) = b"
    using changes_val [OF K(1) assms(1) K'(1) p(1)] changes_val [OF K(1) assms(1) K'(1) p(2)] K' z(4,5) assms(4,5) by (simp_all add: num_def)
  note W = unpack_both_facts [OF assms(1) changesD(2) [OF K(1)], of op, folded w_def]
  have "{6..<155} \<union> K \<union> {11..<43} = {4..<155}"
  proof -
    have "{4..<155} = {4, 5} \<union> {6..<155 :: nat}" by auto
    then show ?thesis using K(2,3) by auto
  qed
  from changes_join [OF changes_join [OF I K(1) refl] W(1) this] show "changes (ix g ` {4..<155}) pb w" .
  have "div_scalars g c pb u" using u(3) z(5) by (simp add: div_scalars_def)
  then show "div_scalars g c pb w" by (rule div_scalars_frame [OF assms(1) _ W(1)]) auto
  show "bits_of w (unpackedArg1 (vars g)) a" "bits_of w (unpackedArg2 (vars g)) b" using W(2,3) args by simp_all
  show "bits_of w (remainder g) (div_rest a b)" by (rule bits_of_changes [OF u(1) W(1) assms(1) r(7)]) auto
  show "bits_of w (quotient g) (a div b)" if qs by (rule bits_of_changes [OF u(2) [OF that] W(1) assms(1) r(5)]) auto
qed

section \<open>The two opcodes\<close>

lemma div_eqs_frame:
  assumes "alu_wf g" "div_eqs op g pb" "changes (ix g ` K) pb w" "K \<subseteq> {..<11}"
  shows "div_eqs op g w"
proof -
  note r = alu_arrays [OF assms(1)]
  have K: "K \<subseteq> {..<155}" using assms(4) by auto
  have "mu_eqs (divide_g op g) w"
    by (rule mult_frame [OF assms(1) div_factors [OF assms(1)] assms(3) K]) (use assms(2,4) in \<open>auto simp: mult_positions_def div_eqs_def\<close>)
  moreover have "mp_chain (multPackArg1_g op g) w" unfolding multPackArg1_g_def
    by (rule multPack_frame [OF assms(1) r(1) r(6) _ _ assms(3) K]) (use assms(2,4) in \<open>auto simp: div_eqs_def multPackArg1_g_def\<close>)
  moreover have "mp_chain (multPackRemainder_g op g) w" unfolding multPackRemainder_g_def
    by (rule multPack_frame [OF assms(1) r(7) r(8) _ _ assms(3) K]) (use assms(2,4) in \<open>auto simp: div_eqs_def multPackRemainder_g_def\<close>)
  ultimately show ?thesis by (simp add: div_eqs_def)
qed

lemma unpackArg2_sat: "alu_wf g \<Longrightarrow> \<forall>v \<in> set (alu_vars g). assigned pb v \<Longrightarrow> booleans pb (unpackedArg2 (vars g)) \<Longrightarrow> sat op (unpackArg2_constraints op g) pb"
  using unpacker_constraints [OF alu_lengths(2), of g op "arg2_val (inputs g)" pb] by (simp add: unpackArg2_constraints_def unpackArg2_g_def alu_vars_members)

lemma UDIV_sat:
  assumes "alu_wf g"
  shows "sat Op_UDIV (UDIV_constraints g) pb \<longleftrightarrow> sat Op_UDIV (unpackArg2_constraints Op_UDIV g) pb \<and> ((\<forall>u \<in> set (quotient g). assigned pb u) \<and> booleans pb (quotient g))
    \<and> sat Op_UDIV (division_constraints Op_UDIV ''udiv flag'' g) pb \<and> holds pb (cp_var (out_isMemOp (results g)))"
  unfolding UDIV_constraints_def sat_simps isMemOp_zero_def unpacker_constraints [OF alu_lengths(5) [OF assms]] by simp

lemma UMOD_sat:
  assumes "alu_wf g"
  shows "sat Op_UMOD (UMOD_constraints g) pb \<longleftrightarrow> sat Op_UMOD (unpackArg2_constraints Op_UMOD g) pb
    \<and> (\<forall>u \<in> set (quotient g) \<union> set (remainder g). assigned pb u) \<and> booleans pb (quotient g) \<and> booleans pb (remainder g)
    \<and> sat Op_UMOD (division_constraints Op_UMOD ''umod flag'' g) pb
    \<and> (\<forall>(p, nm) \<in> set (CompressionPacking_constraints (packer Op_UMOD (remainder g) (out_result (results g)))). holds pb p) \<and> holds pb (cp_var (out_isMemOp (results g)))"
proof -
  note l = alu_lengths [OF assms]
  have h: "holds pb (booleanity u) \<longleftrightarrow> assigned pb u \<and> boolean pb u" for u by (simp add: holds_iff pv_booleanity boolean_def)
  have e: "(\<forall>u \<in> set vs. P u) \<longleftrightarrow> (\<forall>i \<in> {0..<16}. P (vs ! i))" if "length vs = 16" for P and vs :: "Variable list" using that by (auto simp: all_set_conv_all_nth)
  have "(\<forall>(p, nm) \<in> set (concat (map (\<lambda>i. [bool_constraint (quotient g ! i), bool_constraint (remainder g ! i)]) [0..<16])). holds pb p) \<longleftrightarrow>
      (\<forall>i \<in> {0..<16}. holds pb (booleanity (quotient g ! i)) \<and> holds pb (booleanity (remainder g ! i)))" by (auto simp: bool_constraint_def)
  also have "\<dots> \<longleftrightarrow> (\<forall>u \<in> set (quotient g) \<union> set (remainder g). assigned pb u) \<and> booleans pb (quotient g) \<and> booleans pb (remainder g)"
    unfolding h ball_Un booleans_def e [OF l(5)] e [OF l(7)] by blast
  finally show ?thesis unfolding UMOD_constraints_def sat_simps isMemOp_zero_def l(10) by simp
qed

lemma UDIV_runs:
  assumes "alu_wf g" "pb_inv pb" "div_pre g pb"
  defines "a \<equiv> num pb (arg1_val (inputs g))" and "b \<equiv> num pb (arg2_val (inputs g))"
  shows "\<exists>w. UDIV_generateWitness g pb = Inr w \<and> changes (ix g ` {4..<155}) pb w \<and> num w (out_result (results g)) = a div b
    \<and> (sat Op_UDIV (UDIV_constraints g) w \<longleftrightarrow> b = 0 \<or> b dvd a)"
proof -
  note r = alu_arrays [OF assms(1)] and p = alu_positions [OF assms(1)] and z = init_words [OF assms(1,2)]
  have ab: "a < 2 ^ 16" "b < 2 ^ 16" "alu_pre g pb" using assms(3) by (simp_all add: div_pre_def a_def b_def)
  have n: "num (alu_init g pb) (arg1_val (inputs g)) = a" "num (alu_init g pb) (arg2_val (inputs g)) = b" using z(4,5) by (simp_all add: num_def a_def b_def)
  obtain u where u: "UDIV_numbers g (alu_init g pb) = Inr u" "numbers_ok False g (a div b) (div_rest a b) (alu_init g pb) u"
    using numbers_run(1) [OF assms(1) changesD(2) [OF alu_init_changes(1) [OF assms(1,2)]] z(1-3)] ab(1,2) unfolding n by blast
  define v where "v = unpack_both Op_UDIV g u"
  note V = start_run [OF assms(1,2) u(2) a_def [THEN meta_eq_to_obj_eq] b_def [THEN meta_eq_to_obj_eq], where op = Op_UDIV, folded v_def]
  have q: "num v (out_result (results g)) = a div b" using V(2) by (simp add: div_scalars_def)
  define x where "x = CompressionPacking_generateWitness (unpacker Op_UDIV (quotient g) (out_result (results g))) v"
  have m: "75 + 16 \<le> (155 :: nat)" "5 < (155 :: nat)" "5 \<notin> {75..<75 + 16 :: nat}" by simp_all
  note X = unpacker_facts [OF assms(1) r(5) m(1) p(6) m(2,3) changesD(2) [OF V(1)], where op = Op_UDIV, folded x_def, unfolded q]
  have "div_words g a b x" unfolding div_words_def
    using bits_of_changes [OF V(3) X(1) assms(1) r(1)] bits_of_changes [OF V(4) X(1) assms(1) r(2)] bits_of_changes [OF V(5) X(1) assms(1) r(7)] X(2) by auto
  moreover have "div_scalars g (a div b) pb x" by (rule div_scalars_frame [OF assms(1) V(2) X(1)]) auto
  moreover have "changes (ix g ` {4..<155}) pb x" by (rule changes_join [OF V(1) X(1)]) auto
  ultimately obtain w where w: "division_witness Op_UDIV g x = Inr w" "changes (ix g ` {4..<155}) pb w" "div_words g a b w" "div_scalars g (a div b) pb w" "div_eqs Op_UDIV g w"
    "val w (opcodeAux7 (vars g) ! 0) = cmp (int (take_bit 16 b)) (int (take_bit 16 (div_rest a b)))" using division_run [OF assms(1), where op = Op_UDIV] by blast
  note as = all_assigned [OF w(2) assms(1) ab(3)]
  have bo: "booleans w (unpackedArg1 (vars g))" "booleans w (unpackedArg2 (vars g))" "booleans w (quotient g)" using w(3) bits_of_booleans unfolding div_words_def by blast+
  have "holds w (cp_var (out_isMemOp (results g)))" using as w(4) by (intro holdsI) (simp_all add: pv_simps div_scalars_def alu_vars_members)
  moreover have "\<forall>u \<in> set (quotient g). assigned w u" using as by (simp add: alu_vars_members)
  moreover have "scalar_eqs g w \<longleftrightarrow> b = 0 \<or> b dvd a" by (rule scalar_iff [OF assms(1) w(2,5,3,4) a_def [THEN meta_eq_to_obj_eq] b_def [THEN meta_eq_to_obj_eq] ab(1,2) _ w(6)]) simp
  ultimately have "sat Op_UDIV (UDIV_constraints g) w \<longleftrightarrow> b = 0 \<or> b dvd a"
    unfolding UDIV_sat [OF assms(1)] division_sat(2) [OF assms(1) as bo(1) w(5)] using unpackArg2_sat [OF assms(1) as bo(2)] bo(3) by blast
  moreover have "UDIV_generateWitness g pb = Inr w" using w(1) by (simp add: UDIV_generateWitness_def u(1) x_def v_def)
  moreover have "num w (out_result (results g)) = a div b" using w(4) by (simp add: div_scalars_def)
  ultimately show ?thesis using w(2) by blast
qed

lemma UMOD_runs:
  assumes "alu_wf g" "pb_inv pb" "div_pre g pb"
  defines "a \<equiv> num pb (arg1_val (inputs g))" and "b \<equiv> num pb (arg2_val (inputs g))"
  shows "\<exists>w. UMOD_generateWitness g pb = Inr w \<and> changes (ix g ` {4..<155}) pb w \<and> num w (out_result (results g)) = div_rest a b
    \<and> (sat Op_UMOD (UMOD_constraints g) w \<longleftrightarrow> b = 0 \<or> b dvd a)"
proof -
  note r = alu_arrays [OF assms(1)] and p = alu_positions [OF assms(1)] and z = init_words [OF assms(1,2)] and l = alu_lengths [OF assms(1)]
  have ab: "a < 2 ^ 16" "b < 2 ^ 16" "alu_pre g pb" using assms(3) by (simp_all add: div_pre_def a_def b_def)
  have n: "num (alu_init g pb) (arg1_val (inputs g)) = a" "num (alu_init g pb) (arg2_val (inputs g)) = b" using z(4,5) by (simp_all add: num_def a_def b_def)
  obtain u where u: "UMOD_numbers g (alu_init g pb) = Inr u" "numbers_ok True g (div_rest a b) (div_rest a b) (alu_init g pb) u"
    using numbers_run(2) [OF assms(1) changesD(2) [OF alu_init_changes(1) [OF assms(1,2)]] z(1-3)] ab(1,2) unfolding n by blast
  note V = start_run [OF assms(1,2) u(2) a_def [THEN meta_eq_to_obj_eq] b_def [THEN meta_eq_to_obj_eq], where op = Op_UMOD]
  have "div_words g a b (unpack_both Op_UMOD g u)" using V(3-6) by (simp add: div_words_def)
  from division_run [OF assms(1) V(1) this V(2), where op = Op_UMOD]
  obtain x where x: "division_witness Op_UMOD g (unpack_both Op_UMOD g u) = Inr x" "changes (ix g ` {4..<155}) pb x" "div_words g a b x" "div_scalars g (div_rest a b) pb x"
    "div_eqs Op_UMOD g x" "val x (opcodeAux7 (vars g) ! 0) = cmp (int (take_bit 16 b)) (int (take_bit 16 (div_rest a b)))" by blast
  define w where "w = CompressionPacking_generateWitness (packer Op_UMOD (remainder g) (out_result (results g))) x"
  have m: "107 + 16 \<le> (155 :: nat)" "5 < (155 :: nat)" "5 \<notin> {107..<107 + 16 :: nat}" by simp_all
  note W = packer_facts [OF assms(1) r(7) m(1) p(6) m(2,3) changesD(2) [OF x(2)], where op = Op_UMOD, folded w_def]
  have cw: "changes (ix g ` {5}) x w" using W(1) by simp
  have c: "changes (ix g ` {4..<155}) pb w" by (rule changes_join [OF x(2) cw]) auto
  note as = all_assigned [OF c assms(1) ab(3)]
  have ww: "div_words g a b w" by (rule div_words_frame [OF assms(1) x(3) cw]) auto
  have bo: "booleans w (unpackedArg1 (vars g))" "booleans w (unpackedArg2 (vars g))" "booleans w (quotient g)" "booleans w (remainder g)"
    using ww bits_of_booleans unfolding div_words_def by blast+
  have rem: "bits_of w (remainder g) (div_rest a b)" "bits_of x (remainder g) (div_rest a b)" using ww x(3) by (simp_all add: div_words_def)
  have pk: "pack_sum 1 (map (val v) (remainder g)) = fe (div_rest a b)" if "bits_of v (remainder g) (div_rest a b)" for v
    using pack_bnum [OF bits_of_booleans [OF that]] bits_of_bnum [OF that] div_rest_less(1) [OF ab(1,2)] by (simp add: l take_bit_nat_eq_self)
  have res: "num w (out_result (results g)) = div_rest a b" using W(2) pk [OF rem(2)] div_rest_less(1) [OF ab(1,2)] by (intro num_fe) simp_all
  have "div_scalars g (div_rest a b) pb w"
    using x(4) res changes_val [OF cw assms(1) _ p(5)] changes_val [OF cw assms(1) _ p(7)] changes_val [OF cw assms(1) _ p(11)] by (simp add: div_scalars_def)
  moreover have "div_eqs Op_UMOD g w" by (rule div_eqs_frame [OF assms(1) x(5) cw]) auto
  moreover have "val w (opcodeAux7 (vars g) ! 0) = cmp (int (take_bit 16 b)) (int (take_bit 16 (div_rest a b)))"
    using changes_val [OF cw assms(1) _ scalar_positions(4) [OF assms(1)]] x(6) by simp
  ultimately have e: "scalar_eqs g w \<longleftrightarrow> b = 0 \<or> b dvd a" "div_eqs Op_UMOD g w" "val w (out_isMemOp (results g)) = 0"
    using scalar_iff [OF assms(1) c _ ww _ a_def [THEN meta_eq_to_obj_eq] b_def [THEN meta_eq_to_obj_eq] ab(1,2), where c = "div_rest a b"] by (auto simp: div_rest_def div_scalars_def)
  have "holds w (cp_var (out_isMemOp (results g)))" using as e(3) by (intro holdsI) (simp_all add: pv_simps alu_vars_members)
  moreover have "\<forall>(q, nm) \<in> set (CompressionPacking_constraints (packer Op_UMOD (remainder g) (out_result (results g)))). holds w q"
    using as W(2) pk [OF rem(1)] pk [OF rem(2)] by (intro packer_constraints(2) [OF l(7)]) (simp_all add: alu_vars_members)
  moreover have "\<forall>u \<in> set (quotient g) \<union> set (remainder g). assigned w u" using as by (auto simp: alu_vars_members)
  ultimately have "sat Op_UMOD (UMOD_constraints g) w \<longleftrightarrow> b = 0 \<or> b dvd a"
    unfolding UMOD_sat [OF assms(1)] division_sat(2) [OF assms(1) as bo(1) e(2)] e(1) using unpackArg2_sat [OF assms(1) as bo(2)] bo(3,4) by blast
  moreover have "UMOD_generateWitness g pb = Inr w" using x(1) by (simp add: UMOD_generateWitness_def u(1) w_def)
  ultimately show ?thesis using c res by blast
qed

definition exact_pre :: "ALU_Component_Gadget \<Rightarrow> Protoboard \<Rightarrow> bool" where
  "exact_pre g pb \<longleftrightarrow> div_pre g pb \<and> (num pb (arg2_val (inputs g)) = 0 \<or> num pb (arg2_val (inputs g)) dvd num pb (arg1_val (inputs g)))"

lemma exact_pre_tagged: "pb_inv pb \<Longrightarrow> exact_pre g pb \<Longrightarrow> exact_pre g (add_tagged cs pb)"
  using alu_pre_tagged [of pb g cs] val_same [of "add_tagged cs pb" pb] by (simp add: exact_pre_def div_pre_def num_def add_tagged_facts)

lemma exact_runs:
  assumes "alu_wf g" "pb_inv pb" "exact_pre g pb"
  shows "\<exists>w. UDIV_generateWitness g pb = Inr w \<and> changes (ix g ` {4..<155}) pb w \<and> sat Op_UDIV (UDIV_constraints g) w"
    "\<exists>w. UMOD_generateWitness g pb = Inr w \<and> changes (ix g ` {4..<155}) pb w \<and> sat Op_UMOD (UMOD_constraints g) w"
  using UDIV_runs [OF assms(1,2)] UMOD_runs [OF assms(1,2)] assms(3) unfolding exact_pre_def by blast+

interpretation alu_udiv: alu_component Op_UDIV UDIV_constraints UDIV_generateWitness exact_pre "{4..<155}"
  by unfold_locales (rule exact_runs(1), assumption+, rule exact_pre_tagged)

interpretation alu_umod: alu_component Op_UMOD UMOD_constraints UMOD_generateWitness exact_pre "{4..<155}"
  by unfold_locales (rule exact_runs(2), assumption+, rule exact_pre_tagged)

section \<open>Correctness\<close>

lemma UDIV_sound:
  assumes "alu_wf g" "sat Op_UDIV (UDIV_constraints g) pb" "booleans pb (unpackedArg1 (vars g))" "booleans pb (unpackedArg2 (vars g))" "booleans pb (remainder g)"
  shows "val pb (out_flag (results g)) = (if val pb (arg2_val (inputs g)) = 0 then 1 else 0)" "val pb (arg2_val (inputs g)) = 0 \<Longrightarrow> val pb (out_result (results g)) = 0"
    "val pb (arg2_val (inputs g)) \<noteq> 0 \<Longrightarrow> bnum pb (unpackedArg2 (vars g)) * bnum pb (quotient g) = bnum pb (unpackedArg1 (vars g)) + bnum pb (remainder g)"
proof -
  have d: "sat Op_UDIV (division_constraints Op_UDIV ''udiv flag'' g) pb" "booleans pb (quotient g)" using assms(2) unfolding UDIV_sat [OF assms(1)] by blast+
  note s = division_sound [OF assms(1) d(1) assms(3,4) d(2) assms(5)]
  show "val pb (out_flag (results g)) = (if val pb (arg2_val (inputs g)) = 0 then 1 else 0)" "val pb (arg2_val (inputs g)) = 0 \<Longrightarrow> val pb (out_result (results g)) = 0"
    "val pb (arg2_val (inputs g)) \<noteq> 0 \<Longrightarrow> bnum pb (unpackedArg2 (vars g)) * bnum pb (quotient g) = bnum pb (unpackedArg1 (vars g)) + bnum pb (remainder g)" by (rule s; assumption)+
qed

lemma UMOD_sound:
  assumes "alu_wf g" "sat Op_UMOD (UMOD_constraints g) pb" "booleans pb (unpackedArg1 (vars g))" "booleans pb (unpackedArg2 (vars g))"
  shows "val pb (out_flag (results g)) = (if val pb (arg2_val (inputs g)) = 0 then 1 else 0)" "val pb (arg2_val (inputs g)) = 0 \<Longrightarrow> val pb (out_result (results g)) = 0"
    "val pb (arg2_val (inputs g)) \<noteq> 0 \<Longrightarrow> bnum pb (unpackedArg2 (vars g)) * bnum pb (quotient g) = bnum pb (unpackedArg1 (vars g)) + num pb (out_result (results g))"
proof -
  note l = alu_lengths [OF assms(1)]
  have d: "sat Op_UMOD (division_constraints Op_UMOD ''umod flag'' g) pb" "booleans pb (quotient g)" "booleans pb (remainder g)"
    "\<forall>(p, nm) \<in> set (CompressionPacking_constraints (packer Op_UMOD (remainder g) (out_result (results g)))). holds pb p" using assms(2) unfolding UMOD_sat [OF assms(1)] by blast+
  note s = division_sound [OF assms(1) d(1) assms(3,4) d(2,3)]
  have "num pb (out_result (results g)) = bnum pb (remainder g)"
    using packer_constraints(1) [OF l(7) d(4)] pack_bnum [OF d(3)] bnum_less [of pb "remainder g"] by (intro num_fe) (simp_all add: l)
  then show "val pb (arg2_val (inputs g)) \<noteq> 0 \<Longrightarrow> bnum pb (unpackedArg2 (vars g)) * bnum pb (quotient g) = bnum pb (unpackedArg1 (vars g)) + num pb (out_result (results g))" using s(3) by simp
  show "val pb (out_flag (results g)) = (if val pb (arg2_val (inputs g)) = 0 then 1 else 0)" "val pb (arg2_val (inputs g)) = 0 \<Longrightarrow> val pb (out_result (results g)) = 0" by (rule s; assumption)+
qed

text \<open>Property C35. Divisions, as the code has them. The constraints of \<open>ALU_UDIV_Gadget\<close> and \<open>ALU_UMOD_Gadget\<close> set the flag
  exactly for the divisor 0, with result 0; for other divisors they say that divisor times quotient is dividend \<open>plus\<close>
  remainder, since the packed dividend is multiplied by the packed remainder. The witness code computes quotient and remainder
  of the division, returns the right result, and satisfies the constraints exactly when the divisor is 0 or divides the
  dividend.\<close>

theorem alu_division_correct:
  assumes "alu_wf g" "pb_inv pb"
  shows "(sat Op_UDIV (UDIV_constraints g) pb \<longrightarrow> booleans pb (unpackedArg1 (vars g)) \<longrightarrow> booleans pb (unpackedArg2 (vars g)) \<longrightarrow> booleans pb (remainder g) \<longrightarrow>
      val pb (out_flag (results g)) = (if val pb (arg2_val (inputs g)) = 0 then 1 else 0) \<and> (val pb (arg2_val (inputs g)) = 0 \<longrightarrow> val pb (out_result (results g)) = 0)
      \<and> (val pb (arg2_val (inputs g)) \<noteq> 0 \<longrightarrow> bnum pb (unpackedArg2 (vars g)) * bnum pb (quotient g) = bnum pb (unpackedArg1 (vars g)) + bnum pb (remainder g)))
    \<and> (sat Op_UMOD (UMOD_constraints g) pb \<longrightarrow> booleans pb (unpackedArg1 (vars g)) \<longrightarrow> booleans pb (unpackedArg2 (vars g)) \<longrightarrow>
      val pb (out_flag (results g)) = (if val pb (arg2_val (inputs g)) = 0 then 1 else 0) \<and> (val pb (arg2_val (inputs g)) = 0 \<longrightarrow> val pb (out_result (results g)) = 0)
      \<and> (val pb (arg2_val (inputs g)) \<noteq> 0 \<longrightarrow> bnum pb (unpackedArg2 (vars g)) * bnum pb (quotient g) = bnum pb (unpackedArg1 (vars g)) + num pb (out_result (results g))))
    \<and> (div_pre g pb \<longrightarrow> (\<exists>w. UDIV_generateWitness g pb = Inr w
        \<and> num w (out_result (results g)) = num pb (arg1_val (inputs g)) div num pb (arg2_val (inputs g))
        \<and> (sat Op_UDIV (UDIV_constraints g) w \<longleftrightarrow> num pb (arg2_val (inputs g)) = 0 \<or> num pb (arg2_val (inputs g)) dvd num pb (arg1_val (inputs g))))
      \<and> (\<exists>w. UMOD_generateWitness g pb = Inr w
        \<and> num w (out_result (results g)) = (if num pb (arg2_val (inputs g)) = 0 then 0 else num pb (arg1_val (inputs g)) mod num pb (arg2_val (inputs g)))
        \<and> (sat Op_UMOD (UMOD_constraints g) w \<longleftrightarrow> num pb (arg2_val (inputs g)) = 0 \<or> num pb (arg2_val (inputs g)) dvd num pb (arg1_val (inputs g)))))
    \<and> (exact_pre g pb \<longrightarrow> (ready Op_UDIV (alu_written g) pb \<longrightarrow> res_bind (UDIV_generateWitness g (add_tagged (UDIV_constraints g) pb)) (pb_isSatisfied Op_UDIV) = Inr True)
      \<and> (ready Op_UMOD (alu_written g) pb \<longrightarrow> res_bind (UMOD_generateWitness g (add_tagged (UMOD_constraints g) pb)) (pb_isSatisfied Op_UMOD) = Inr True))"
proof (intro conjI)
  note W = alu_written_positions(1) [OF assms(1)]
  show "exact_pre g pb \<longrightarrow> (ready Op_UDIV (alu_written g) pb \<longrightarrow> res_bind (UDIV_generateWitness g (add_tagged (UDIV_constraints g) pb)) (pb_isSatisfied Op_UDIV) = Inr True)
      \<and> (ready Op_UMOD (alu_written g) pb \<longrightarrow> res_bind (UMOD_generateWitness g (add_tagged (UMOD_constraints g) pb)) (pb_isSatisfied Op_UMOD) = Inr True)"
    using alu_udiv.satisfied [OF assms] alu_umod.satisfied [OF assms] unfolding W by blast
qed (use UDIV_sound [OF assms(1)] UMOD_sound [OF assms(1)] UDIV_runs [OF assms] UMOD_runs [OF assms, unfolded div_rest_def] in blast)+

text \<open>7 divided by 3: the result is 2, and the constraints are not satisfied.\<close>

theorem alu_division_correct_witness:
  "\<exists>w. UDIV_generateWitness sample_component (sample_board 7 3 0 0) = Inr w \<and> num w (out_result (results sample_component)) = 2
    \<and> \<not> sat Op_UDIV (UDIV_constraints sample_component) w"
proof -
  have "div_pre sample_component (sample_board 7 3 0 0)" using sample_board_facts(2,4,5) by (simp add: div_pre_def)
  from alu_division_correct [OF sample_component_wf sample_board_facts(1), THEN conjunct2, THEN conjunct2, THEN conjunct1, THEN mp, OF this, THEN conjunct1]
  show ?thesis by (auto simp: sample_board_facts(4,5))
qed

end
