(* ===== verification/Spec2Isabelle.thy ===== *)
theory Spec2Isabelle
  imports FieldElement AesHash SparseMerkle MerkleSegments CircuitInterface BoardLaws PackingGadgets AdditionGadget
    GreaterEqualGadget MultiplicationGadgets AluMove MemoryConstraints TinyRamProgram BitExtract AluInputs TraceSteps AluShift AluMul AluDiv
begin

text \<open>
  Verification of libSTARK, the C++ proof system of this repository (\<open>src/src/crypto/libSTARK\<close>).

  \<^bold>\<open>The program.\<close> A TinyRAM program is turned into constraints over the field with 2^64 elements
  (\<open>tinyram/gadgetlib\<close>, \<open>tinyram/stark-tinyram\<close>), the constraints are polynomials
  (\<open>algebra/algebralib\<close>) over the field of \<open>algebra/FFT\<close>, and the prover commits to the evaluations of its
  witness with Merkle trees (\<open>libstark/src/protocols/common\<close>). The development follows these layers from
  the field up to the constraints of single instructions and of the memory.

  \<^bold>\<open>Field.\<close> \<open>Gf2Poly\<close> and \<open>Modulus\<close> hold the polynomials over GF(2) and the irreducibility of the
  modulus. \<open>Element\<close> models \<open>Element.cpp\<close>: \<open>c_mul\<close> with its carry-less multiplication and table,
  \<open>naiveMul\<close>, squaring, exponentiation, the Euclidean inversion \<open>c_inv\<close> (a while loop as
  \<open>partial_function (option)\<close>, proved to end), and the SSE butterfly of the transforms. \<open>FieldRing\<close>,
  \<open>Inversion\<close> and \<open>ElementLaws\<close> make the cells a field and show the operations to be its operations;
  \<open>FieldElement\<close> models \<open>FieldElement.cpp\<close> (\<open>mapIntegerToFieldElement\<close>, \<open>invertPointwise\<close> and so on) and
  states the properties. \<open>GeneratorOrder\<close> shows that x generates the multiplicative group.

  \<^bold>\<open>Commitments.\<close> \<open>AesHash\<close> models the AES-128 compression function of \<open>hash.cpp\<close>. \<open>Merkle\<close>,
  \<open>MerkleSegments\<close> and \<open>SparseMerkle\<close> model \<open>MerkleTree.cpp\<close>, \<open>proofs.cpp\<close> and
  \<open>MerkleCommitmentScheme.cpp\<close>: trees in a flat buffer, paths, in-place and segmented construction, the partial
  trees that the verifier rebuilds from the prover's answers. Hash functions are a parameter there; binding is
  stated as: two accepted openings agree, or a collision of the hash function is exhibited. \<open>StdMap\<close> is the model of
  \<open>std::map\<close> used from here on: an association list with increasing keys.

  \<^bold>\<open>Circuit polynomials.\<close> \<open>PolynomialDegree\<close>, \<open>Variables\<close>, \<open>CircuitPolynomial\<close> model the polynomials of
  algebralib (linear combinations, products, sums, selector sums) with their operators and evaluators;
  \<open>CircuitSemantics\<close> and \<open>CircuitLaws\<close> give their meaning as field values and prove the evaluators, the operators and
  the renumbering of variables correct; \<open>CircuitInterface\<close> has degree bounds, effective inputs and printing.

  \<^bold>\<open>Gadget library.\<close> \<open>CommonUse\<close> (selectors of program lines, powers of the generator, memory
  entries), \<open>Protoboard\<close> and \<open>BoardLaws\<close> (\<open>protoboard.cpp\<close>, \<open>constraint.cpp\<close>: constraint systems by opcode, the
  assignment, the memory, with the invariant that every operation keeps), \<open>GadgetBase\<close> and \<open>Assignments\<close> (facts on
  assignments that several gadgets share), \<open>PackingGadgets\<close>, \<open>AdditionGadget\<close>, \<open>GreaterEqualGadget\<close>,
  \<open>MultiplicationGadgets\<close> (\<open>gadget.cpp\<close>). A gadget is a record with its variables; it has a list of constraints, an
  operation that puts them on the board, and its witness code. Each is shown to be sound (an assignment that satisfies
  the constraints has the intended meaning) and complete (the witness code satisfies the constraints).

  \<^bold>\<open>TinyRAM.\<close> \<open>TinyRamProgram\<close> models \<open>TinyRAMInstance.cpp\<close>. \<open>AluBase\<close>, \<open>AluComponent\<close>, \<open>AluLogic\<close>,
  \<open>AluArith\<close>, \<open>AluCompare\<close>, \<open>AluMove\<close> model \<open>ALU.cpp\<close> opcode by opcode, with its global state passed explicitly;
  \<open>MemoryConstraints\<close> models \<open>MemoryConsraints.cpp\<close> and shows that the constraints on neighbouring rows make a
  sorted memory trace consistent.

  \<^bold>\<open>Conventions.\<close> Machine integers are words, or natural numbers where the code's sizes are far from their
  bounds; assertions, fatal errors and accesses out of range are errors of the type \<open>failure\<close>. Interfaces are
  locales that are interpreted on the definitions: the ring laws on the cells, the gadget contract on every gadget, the
  opcode contract on the opcodes. \<open>Prelude\<close> holds the error type and generic lemmas.

  \<^bold>\<open>Not modelled.\<close> The FFT drivers (OpenMP and CUDA over raw buffers), the univariate polynomials over
  subspaces, the reductions to BAIR and ACSP, the routing networks and the interactive protocols that rest on them; SWIFFTX;
  the Go node around the proof system; tests and files that are copies of others.
\<close>

end
